(* ===== verification/IotCam_Prelude.thy ===== *)
theory IotCam_Prelude
  imports Main "HOL-Library.Word" "HOL-Library.Signed_Division"
begin

unbundle bit_operations_syntax

text \<open>
  The prelude of the development: the machine types of the target (32-bit ARM, little endian,
  where C's \<open>int\<close>, \<open>long\<close> and \<open>size_t\<close> all have 32 bits), the faults a C program can run into
  as values of an error type, the result monad the models of fallible operations use, and the
  generic lemmas on words, lists and serial numbers that the components share.

  \<^item> A signed C integer is a word read with \<open>sint\<close>: addition and subtraction are those of the
    word, comparisons go through \<open>sint\<close>.
  \<^item> A C function that may run into undefined behaviour, a failed \<open>assert\<close> or \<open>abort\<close> returns
    \<open>fault + 'a\<close>; an error code the function itself returns is part of the \<open>'a\<close>.
\<close>

named_theorems wire_simps \<open>unfolding rules for wire formats\<close>
named_theorems inv_intros \<open>introduction rules for invariants\<close>

section \<open>Machine types\<close>

type_synonym u8 = "8 word"
type_synonym u16 = "16 word"
type_synonym u32 = "32 word"
type_synonym s32 = "32 word"

section \<open>Faults and results\<close>

datatype fault =
    Assert_failed
  | Null_deref
  | Read_out_of_bounds
  | Write_out_of_bounds
  | Division_by_zero
  | Use_after_free
  | Double_free
  | Aborted

type_synonym 'a result = "fault + 'a"

definition bind_result :: "'a result \<Rightarrow> ('a \<Rightarrow> 'b result) \<Rightarrow> 'b result" where
  "bind_result r f = (case r of Inl e \<Rightarrow> Inl e | Inr x \<Rightarrow> f x)"

lemma bind_result_simps [simp]:
  "bind_result (Inl e) f = Inl e"
  "bind_result (Inr x) f = f x"
  by (simp_all add: bind_result_def)

lemma bind_result_eq_Inr [simp]:
  "bind_result r f = Inr y \<longleftrightarrow> (\<exists>x. r = Inr x \<and> f x = Inr y)"
  by (cases r) auto

lemma bind_result_assoc:
  "bind_result (bind_result r f) g = bind_result r (\<lambda>x. bind_result (f x) g)"
  by (cases r) auto

lemma bind_result_cong [fundef_cong]:
  assumes "r = r'" and "\<And>x. r' = Inr x \<Longrightarrow> f x = f' x"
  shows "bind_result r f = bind_result r' f'"
  using assms by (cases r') auto

definition guard_result :: "fault \<Rightarrow> bool \<Rightarrow> unit result" where
  "guard_result e b = (if b then Inr () else Inl e)"

lemma guard_result_simps [simp]:
  "guard_result e True = Inr ()"
  "guard_result e False = Inl e"
  "guard_result e b = Inr u \<longleftrightarrow> b"
  by (simp_all add: guard_result_def)

text \<open>Reading \<open>n\<close> bytes at the front of a byte array, as \<open>memcpy\<close> from it does.\<close>

definition read_bytes :: "nat \<Rightarrow> 'a list \<Rightarrow> 'a list result" where
  "read_bytes n bs = (if n \<le> length bs then Inr (take n bs) else Inl Read_out_of_bounds)"

lemma read_bytes_Inr [simp]:
  "read_bytes n bs = Inr r \<longleftrightarrow> n \<le> length bs \<and> r = take n bs"
  by (auto simp: read_bytes_def)

lemma read_bytes_ok: "n \<le> length bs \<Longrightarrow> read_bytes n bs = Inr (take n bs)"
  by simp

lemma unat_of_nat_32: "n < 4294967296 \<Longrightarrow> unat (of_nat n :: 32 word) = n"
  by (simp add: unat_of_nat)

section \<open>Signed reading of words\<close>

text \<open>The two's complement reading, as a case distinction on the top half of the range.\<close>

lemma uint_32_bound: "uint (w :: 32 word) < 4294967296"
  using uint_lt2p [of w] by simp

lemma unat_32_bound: "unat (w :: 32 word) < 4294967296"
  using unsigned_less [of w] by simp

lemma sint_32_uint:
  "sint (w :: 32 word) = (if uint w < 2147483648 then uint w else uint w - 4294967296)"
proof -
  have eq: "sint w = (uint w + 2147483648) mod 4294967296 - 2147483648"
    by (simp add: sint_uint signed_take_bit_eq_take_bit_shift take_bit_eq_mod)
  show ?thesis
  proof (cases "uint w < 2147483648")
    case True
    then have "(uint w + 2147483648) mod 4294967296 = uint w + 2147483648"
      by (intro mod_pos_pos_trivial) auto
    with eq True show ?thesis by simp
  next
    case False
    have "(uint w + 2147483648) mod 4294967296 = (uint w + 2147483648 - 4294967296) mod 4294967296"
      by (rule minus_mod_self2 [symmetric])
    also have "\<dots> = uint w + 2147483648 - 4294967296"
      using False uint_32_bound [of w] by (intro mod_pos_pos_trivial) auto
    finally show ?thesis
      using eq False by simp
  qed
qed

lemma sint_32:
  "sint (w :: 32 word) =
     (if unat w < 2147483648 then int (unat w) else int (unat w) - 4294967296)"
proof -
  have u: "uint w = int (unat w)" by simp
  show ?thesis
    unfolding sint_32_uint u by (simp only: of_nat_less_numeral_iff)
qed

lemma sint_32_small: "unat (w :: 32 word) < 2147483648 \<Longrightarrow> sint w = int (unat w)"
  by (simp add: sint_32)

lemma sint_32_neg_iff: "sint (w :: 32 word) < 0 \<longleftrightarrow> 2147483648 \<le> unat w"
  using uint_32_bound [of w] by (auto simp: sint_32)

lemma sint_32_nonneg_iff: "0 \<le> sint (w :: 32 word) \<longleftrightarrow> unat w < 2147483648"
  using sint_32_neg_iff [of w] by linarith

lemma sint_32_unat: "0 \<le> sint (w :: 32 word) \<Longrightarrow> sint w = int (unat w)"
  by (simp only: sint_32_nonneg_iff sint_32_small)

lemma sint_32_le_iff:
  "0 \<le> sint (a :: 32 word) \<Longrightarrow> 0 \<le> sint (b :: 32 word) \<Longrightarrow> sint a \<le> sint b \<longleftrightarrow> unat a \<le> unat b"
  using sint_32_unat [of a] sint_32_unat [of b] by linarith

lemma sint_32_less_iff:
  "0 \<le> sint (a :: 32 word) \<Longrightarrow> 0 \<le> sint (b :: 32 word) \<Longrightarrow> sint a < sint b \<longleftrightarrow> unat a < unat b"
  using sint_32_unat [of a] sint_32_unat [of b] by linarith

lemma sint_32_diff:
  fixes a b :: "32 word"
  assumes "0 \<le> sint b" and "sint b \<le> sint a"
  shows "sint (a - b) = sint a - sint b"
proof -
  have bd: "unat b < 2147483648" "unat a < 2147483648"
    using assms sint_32_nonneg_iff [of a] sint_32_nonneg_iff [of b] by auto
  note ab = sint_32_small [OF bd(1)] sint_32_small [OF bd(2)]
  have le: "unat b \<le> unat a"
    using assms(2) by (simp only: ab of_nat_le_iff)
  then have u: "unat (a - b) = unat a - unat b"
    by (simp add: unat_sub word_le_nat_alt)
  then have "sint (a - b) = int (unat (a - b))"
    using bd by (intro sint_32_small) simp
  then show ?thesis
    unfolding ab u by (simp only: of_nat_diff [OF le])
qed

lemma sint_32_uminus:
  fixes w :: "32 word"
  assumes "w \<noteq> 2147483648"
  shows "sint (- w) = - sint w"
proof (cases "w = 0")
  case False
  then have nz: "unat w \<noteq> 0" by (simp add: unat_eq_0)
  have ne: "unat w \<noteq> 2147483648"
  proof
    assume "unat w = 2147483648"
    then have "unat w = unat (2147483648 :: 32 word)" by simp
    with assms show False by (simp only: word_unat_eq_iff [symmetric])
  qed
  have neg: "unat (- w) = 4294967296 - unat w"
    using nz unat_sub_if' [of 0 w] by simp
  show ?thesis
    unfolding sint_32 neg using nz ne unat_32_bound [of w] by (simp add: of_nat_diff) linarith
qed simp

section \<open>Serial numbers: words relative to a base\<close>

text \<open>
  Sequence numbers and timestamps wrap around. Relative to a base \<open>b\<close>, the position of \<open>x\<close>
  is the natural number \<open>unat (x - b)\<close>; as long as two positions are below half the range, the
  signed difference of the two words is the difference of their positions.
\<close>

definition spos :: "u32 \<Rightarrow> u32 \<Rightarrow> nat" where
  "spos b x = unat (x - b)"

lemma spos_self [simp]: "spos b b = 0"
  by (simp add: spos_def)

lemma spos_bound: "spos b x < 4294967296"
  by (simp add: spos_def unat_32_bound)

lemma of_nat_spos: "of_nat (spos b x) = x - b"
  by (simp add: spos_def)

lemma add_spos: "b + of_nat (spos b x) = x"
  by (simp add: of_nat_spos)

lemma spos_eq_iff [simp]: "spos b x = spos b y \<longleftrightarrow> x = y"
  by (metis add_spos)

lemma spos_eq_0_iff [simp]: "spos b x = 0 \<longleftrightarrow> x = b"
  by (metis spos_eq_iff spos_self)

lemma spos_add: "spos b (b + of_nat n) = n mod 4294967296"
  by (simp add: spos_def unat_of_nat)

lemma spos_add_small [simp]: "n < 4294967296 \<Longrightarrow> spos b (b + of_nat n) = n"
  by (simp add: spos_add)

lemma spos_rebase:
  assumes "spos b c \<le> spos b x"
  shows "spos c x = spos b x - spos b c"
proof -
  have "x - c = (x - b) - (c - b)" by simp
  moreover have "c - b \<le> x - b"
    using assms by (simp add: spos_def word_le_nat_alt)
  ultimately show ?thesis
    unfolding spos_def by (metis unat_sub)
qed

lemma spos_succ:
  assumes "spos b x < 4294967295"
  shows "spos b (x + 1) = Suc (spos b x)"
proof -
  have "x + 1 = b + of_nat (Suc (spos b x))"
    by (simp add: of_nat_spos)
  moreover have "Suc (spos b x) < 4294967296"
    using assms by simp
  ultimately show ?thesis
    by (metis spos_add_small)
qed

lemma spos_swap: "x \<noteq> y \<Longrightarrow> spos x y + spos y x = 4294967296"
proof -
  assume "x \<noteq> y"
  then have "y - x \<noteq> 0" by simp
  moreover have "x - y = - (y - x)" by simp
  ultimately have "unat (x - y) = 4294967296 - unat (y - x)"
    using unat_sub_if' [of 0 "y - x"] by (auto simp: unat_eq_0)
  then show ?thesis
    using unat_32_bound [of "y - x"] by (simp add: spos_def)
qed

lemma sint_diff_spos:
  assumes "spos b x < 2147483648" and "spos b y < 2147483648"
  shows "sint (x - y) = int (spos b x) - int (spos b y)"
proof (cases "spos b y \<le> spos b x")
  case True
  then have "spos y x = spos b x - spos b y" by (rule spos_rebase)
  moreover have "spos y x < 2147483648"
    using calculation assms(1) by simp
  ultimately show ?thesis
    using True by (simp add: spos_def sint_32)
next
  case False
  then have le: "spos b x \<le> spos b y" by simp
  then have p: "spos x y = spos b y - spos b x" by (rule spos_rebase)
  moreover have "spos x y + spos y x = 4294967296"
    using False by (intro spos_swap) auto
  ultimately have "spos y x = 4294967296 - (spos b y - spos b x)" "2147483648 \<le> spos y x"
    using assms(2) by auto
  then show ?thesis
    using p le assms(2) by (simp add: sint_32 spos_def [of y x, symmetric] of_nat_diff)
qed

end
