(* ===== verification/Fifo.thy ===== *)
theory Fifo
  imports IotCam_Prelude
begin

text \<open>
  The contract of a first-in first-out queue, shared by the intrusive queue of KCP
  (\<open>KCP/ikcp.h\<close>) and by the frame queue (\<open>queue.c\<close>): the operations a client calls, a relation
  between a state and the list of elements it holds, and the laws. A history of
  calls is a list of \<open>qop\<close>; the client lemma says that nothing is lost, duplicated or
  reordered over a whole history.
\<close>

datatype 'a qop = Put 'a | Get

text \<open>The caller's loop body: \<open>Put\<close> enqueues, \<open>Get\<close> reads the front and dequeues it when the
  queue is not empty. The result is the elements read, in order, and the final state.\<close>

fun run_qops ::
  "('a \<Rightarrow> 's \<Rightarrow> 's) \<Rightarrow> ('s \<Rightarrow> 's) \<Rightarrow> ('s \<Rightarrow> 'a) \<Rightarrow> ('s \<Rightarrow> bool) \<Rightarrow> 'a qop list \<Rightarrow> 's \<Rightarrow> 'a list \<times> 's"
where
  "run_qops enq deq front is_empty [] s = ([], s)"
| "run_qops enq deq front is_empty (Put x # ops) s = run_qops enq deq front is_empty ops (enq x s)"
| "run_qops enq deq front is_empty (Get # ops) s =
     (if is_empty s then run_qops enq deq front is_empty ops s
      else let (out, s') = run_qops enq deq front is_empty ops (deq s) in (front s # out, s'))"

fun puts :: "'a qop list \<Rightarrow> 'a list" where
  "puts [] = []"
| "puts (Put x # ops) = x # puts ops"
| "puts (Get # ops) = puts ops"

text \<open>Every element a history puts in may be put in at that moment.\<close>

fun admissible ::
  "('s \<Rightarrow> 'a \<Rightarrow> bool) \<Rightarrow> ('a \<Rightarrow> 's \<Rightarrow> 's) \<Rightarrow> ('s \<Rightarrow> 's) \<Rightarrow> ('s \<Rightarrow> bool) \<Rightarrow> 'a qop list \<Rightarrow> 's \<Rightarrow> bool"
where
  "admissible can enq deq is_empty [] s \<longleftrightarrow> True"
| "admissible can enq deq is_empty (Put x # ops) s \<longleftrightarrow>
     can s x \<and> admissible can enq deq is_empty ops (enq x s)"
| "admissible can enq deq is_empty (Get # ops) s \<longleftrightarrow>
     admissible can enq deq is_empty ops (if is_empty s then s else deq s)"

locale fifo =
  fixes holds :: "'s \<Rightarrow> 'a list \<Rightarrow> bool"
    and can_put :: "'s \<Rightarrow> 'a \<Rightarrow> bool"
    and enq :: "'a \<Rightarrow> 's \<Rightarrow> 's"
    and deq :: "'s \<Rightarrow> 's"
    and front :: "'s \<Rightarrow> 'a"
    and is_empty :: "'s \<Rightarrow> bool"
  assumes enq_law: "holds s xs \<Longrightarrow> can_put s x \<Longrightarrow> holds (enq x s) (xs @ [x])"
    and deq_law: "holds s (x # xs) \<Longrightarrow> holds (deq s) xs"
    and front_law: "holds s (x # xs) \<Longrightarrow> front s = x"
    and empty_law: "holds s xs \<Longrightarrow> is_empty s \<longleftrightarrow> xs = []"
begin

lemma history:
  assumes "holds s xs" and "admissible can_put enq deq is_empty ops s"
    and "run_qops enq deq front is_empty ops s = (out, s')"
  shows "\<exists>ys. holds s' ys \<and> xs @ puts ops = out @ ys"
  using assms
proof (induction ops arbitrary: s xs out)
  case Nil
  then show ?case by auto
next
  case (Cons op ops)
  show ?case
  proof (cases op)
    case (Put x)
    with Cons.prems have "holds (enq x s) (xs @ [x])"
      by (auto intro: enq_law)
    from Cons.IH [OF this] Cons.prems Put show ?thesis by simp
  next
    case Get
    show ?thesis
    proof (cases xs)
      case Nil
      with Cons.prems Get have "is_empty s" by (simp add: empty_law)
      with Cons.IH [of s xs out] Cons.prems Get show ?thesis by simp
    next
      case (Cons x zs)
      with Cons.prems Get have ne: "\<not> is_empty s" by (simp add: empty_law)
      then obtain out' where r: "run_qops enq deq front is_empty ops (deq s) = (out', s')"
        and out: "out = front s # out'"
        using Cons.prems Get by (auto split: prod.splits)
      have "holds (deq s) zs"
        using Cons.prems(1) Cons by (auto intro: deq_law)
      from Cons.IH [OF this _ r] Cons.prems(2) Get ne
      obtain ys where "holds s' ys" "zs @ puts ops = out' @ ys" by auto
      moreover have "front s = x"
        using Cons.prems(1) Cons by (auto intro: front_law)
      ultimately show ?thesis
        using Cons Get out by auto
    qed
  qed
qed

lemma drains_in_order:
  assumes "holds s xs" and "run_qops enq deq front is_empty (replicate (length xs) Get) s = (out, s')"
  shows "out = xs \<and> holds s' []"
  using assms
proof (induction xs arbitrary: s out)
  case Nil
  then show ?case by simp
next
  case (Cons x xs)
  then have "\<not> is_empty s" "front s = x" "holds (deq s) xs"
    using empty_law [OF Cons.prems(1)] by (auto intro: deq_law front_law)
  then show ?case
    using Cons.prems(2) Cons.IH [of "deq s"] by (auto split: prod.splits)
qed

end

end
