(* ===== verification/IQueue.thy ===== *)
theory IQueue
  imports Fifo
begin

text \<open>
  The intrusive circular doubly linked queue of \<open>KCP/ikcp.h\<close> (the \<open>IQUEUE_*\<close> macros), on an
  explicit store: the memory maps the address of each \<open>IQUEUEHEAD\<close> to its \<open>next\<close> and \<open>prev\<close>
  pointers, address 0 is the null pointer. Every macro is the sequence of assignments it
  expands to, in the order of the comma expression, so aliasing (the head of an empty queue is
  its own neighbour) is part of the model.

  The abstraction \<open>ring m h xs\<close> says that the nodes \<open>xs\<close> hang off the head \<open>h\<close> in this order
  in both directions. The macros are then list operations, they leave every other queue in
  the same memory alone, and a locale states this contract for the clients: moving the first
  node of one queue to the tail of another (the receive and send paths of KCP), emptying a
  queue (\<open>ikcp_release\<close>) and walking it.
\<close>

section \<open>The memory and the macros\<close>

record iq_mem =
  iq_next :: "nat \<Rightarrow> nat"
  iq_prev :: "nat \<Rightarrow> nat"

definition set_next :: "nat \<Rightarrow> nat \<Rightarrow> iq_mem \<Rightarrow> iq_mem" where
  "set_next a v m = m\<lparr>iq_next := (iq_next m)(a := v)\<rparr>"

definition set_prev :: "nat \<Rightarrow> nat \<Rightarrow> iq_mem \<Rightarrow> iq_mem" where
  "set_prev a v m = m\<lparr>iq_prev := (iq_prev m)(a := v)\<rparr>"

definition iqueue_init :: "nat \<Rightarrow> iq_mem \<Rightarrow> iq_mem" where
  "iqueue_init ptr m = set_prev ptr ptr (set_next ptr ptr m)"

definition iqueue_add :: "nat \<Rightarrow> nat \<Rightarrow> iq_mem \<Rightarrow> iq_mem" where
  "iqueue_add node head m0 =
     (let m1 = set_prev node head m0;
          m2 = set_next node (iq_next m1 head) m1;
          m3 = set_prev (iq_next m2 head) node m2
      in set_next head node m3)"

definition iqueue_add_tail :: "nat \<Rightarrow> nat \<Rightarrow> iq_mem \<Rightarrow> iq_mem" where
  "iqueue_add_tail node head m0 =
     (let m1 = set_prev node (iq_prev m0 head) m0;
          m2 = set_next node head m1;
          m3 = set_next (iq_prev m2 head) node m2
      in set_prev head node m3)"

definition iqueue_del :: "nat \<Rightarrow> iq_mem \<Rightarrow> iq_mem" where
  "iqueue_del entry m0 =
     (let m1 = set_prev (iq_next m0 entry) (iq_prev m0 entry) m0;
          m2 = set_next (iq_prev m1 entry) (iq_next m1 entry) m1;
          m3 = set_next entry 0 m2
      in set_prev entry 0 m3)"

definition iqueue_del_init :: "nat \<Rightarrow> iq_mem \<Rightarrow> iq_mem" where
  "iqueue_del_init entry m = iqueue_init entry (iqueue_del entry m)"

definition iqueue_is_empty :: "nat \<Rightarrow> iq_mem \<Rightarrow> bool" where
  "iqueue_is_empty entry m \<longleftrightarrow> entry = iq_next m entry"

definition iqueue_splice_raw :: "nat \<Rightarrow> nat \<Rightarrow> iq_mem \<Rightarrow> iq_mem" where
  "iqueue_splice_raw list head m0 =
     (let first = iq_next m0 list; last = iq_prev m0 list; at = iq_next m0 head;
          m1 = set_prev first head m0;
          m2 = set_next head first m1;
          m3 = set_next last at m2
      in set_prev at last m3)"

definition iqueue_splice :: "nat \<Rightarrow> nat \<Rightarrow> iq_mem \<Rightarrow> iq_mem" where
  "iqueue_splice list head m =
     (if \<not> iqueue_is_empty list m then iqueue_splice_raw list head m else m)"

definition iqueue_splice_init :: "nat \<Rightarrow> nat \<Rightarrow> iq_mem \<Rightarrow> iq_mem" where
  "iqueue_splice_init list head m = iqueue_init list (iqueue_splice list head m)"

text \<open>
  \<open>for (pos = head->next; pos != head; pos = pos->next)\<close>: the nodes visited from \<open>pos\<close> on, with
  fuel for a ring that is not closed; \<open>walk_ring\<close> shows that the length of the queue plus one is
  enough.
\<close>

fun iqueue_walk :: "nat \<Rightarrow> nat \<Rightarrow> nat \<Rightarrow> iq_mem \<Rightarrow> nat list option" where
  "iqueue_walk 0 pos head m = None"
| "iqueue_walk (Suc fuel) pos head m =
     (if pos = head then Some []
      else map_option ((#) pos) (iqueue_walk fuel (iq_next m pos) head m))"

definition iqueue_foreach_entry :: "nat \<Rightarrow> nat \<Rightarrow> iq_mem \<Rightarrow> nat list option" where
  "iqueue_foreach_entry fuel head m = iqueue_walk fuel (iq_next m head) head m"

text \<open>\<open>while (!iqueue_is_empty(head)) { e = head->next; iqueue_del(e); free(e); }\<close>, the loops of
  \<open>ikcp_release\<close>: the nodes freed, in order.\<close>

fun iqueue_drain :: "nat \<Rightarrow> nat \<Rightarrow> iq_mem \<Rightarrow> (nat list \<times> iq_mem) option" where
  "iqueue_drain 0 head m = None"
| "iqueue_drain (Suc fuel) head m =
     (if iqueue_is_empty head m then Some ([], m)
      else let e = iq_next m head in
           map_option (\<lambda>(es, m'). (e # es, m')) (iqueue_drain fuel head (iqueue_del e m)))"

text \<open>\<open>iqueue_del(&e->node); iqueue_add_tail(&e->node, dst)\<close> for the first node \<open>e\<close> of \<open>src\<close>.\<close>

definition iqueue_move_first :: "nat \<Rightarrow> nat \<Rightarrow> iq_mem \<Rightarrow> iq_mem" where
  "iqueue_move_first src dst m =
     (let e = iq_next m src in iqueue_add_tail e dst (iqueue_del e m))"

section \<open>The list abstraction\<close>

fun links :: "iq_mem \<Rightarrow> nat list \<Rightarrow> bool" where
  "links m (a # b # r) \<longleftrightarrow> iq_next m a = b \<and> iq_prev m b = a \<and> links m (b # r)"
| "links m _ \<longleftrightarrow> True"

definition ring :: "iq_mem \<Rightarrow> nat \<Rightarrow> nat list \<Rightarrow> bool" where
  "ring m h xs \<longleftrightarrow> distinct (h # xs) \<and> links m (h # xs @ [h])"

lemmas mem_defs = set_next_def set_prev_def Let_def

lemma links_append:
  "xs \<noteq> [] \<Longrightarrow> ys \<noteq> [] \<Longrightarrow>
   links m (xs @ ys) \<longleftrightarrow>
     links m xs \<and> iq_next m (last xs) = hd ys \<and> iq_prev m (hd ys) = last xs \<and> links m ys"
proof (induction xs)
  case (Cons x xs)
  then show ?case by (cases xs; cases ys) auto
qed simp

lemma links_frame:
  assumes "links m xs"
    and "\<forall>a \<in> set (butlast xs). iq_next m' a = iq_next m a"
    and "\<forall>a \<in> set (tl xs). iq_prev m' a = iq_prev m a"
  shows "links m' xs"
  using assms by (induction m xs rule: links.induct) auto

lemma set_mono_butlast: "set (butlast xs) \<subseteq> set xs"
  by (auto dest: in_set_butlastD)

text \<open>A ring cut into two parts at any place; the four facts between them are what an
  insertion or a deletion at that place changes.\<close>

lemma ring_cut:
  "ring m h (ys @ zs) \<longleftrightarrow>
     distinct (h # ys @ zs) \<and> links m (h # ys) \<and>
     iq_next m (last (h # ys)) = hd (zs @ [h]) \<and> iq_prev m (hd (zs @ [h])) = last (h # ys) \<and>
     links m (zs @ [h])"
  using links_append [of "h # ys" "zs @ [h]" m] by (auto simp: ring_def)

lemma ring_distinct: "ring m h xs \<Longrightarrow> distinct (h # xs)"
  by (simp add: ring_def)

lemma ring_next: "ring m h xs \<Longrightarrow> iq_next m h = hd (xs @ [h])"
  using ring_cut [of m h "[]" xs] by simp

lemma ring_prev: "ring m h xs \<Longrightarrow> iq_prev m h = last (h # xs)"
  using ring_cut [of m h xs "[]"] by simp

lemma ring_frame:
  assumes "ring m h xs"
    and "\<forall>a \<in> set (h # xs). iq_next m' a = iq_next m a \<and> iq_prev m' a = iq_prev m a"
  shows "ring m' h xs"
proof -
  have "links m' (h # xs @ [h])"
  proof (rule links_frame)
    show "links m (h # xs @ [h])" using assms(1) by (simp add: ring_def)
  qed (use assms(2) in \<open>auto simp: butlast_append\<close>)
  then show ?thesis using assms(1) by (simp add: ring_def)
qed

lemma ring_init: "ring (iqueue_init h m) h []"
  by (simp add: ring_def iqueue_init_def mem_defs)

lemma ring_empty_iff: "ring m h xs \<Longrightarrow> iqueue_is_empty h m \<longleftrightarrow> xs = []"
  by (cases xs) (auto simp: ring_def iqueue_is_empty_def)

section \<open>Every macro is a list operation\<close>

text \<open>The memory after an insertion and after a deletion, as one update each.\<close>

lemma iqueue_add_mem:
  assumes "node \<noteq> p"
  shows "iq_next (iqueue_add node p m) = (iq_next m)(node := iq_next m p, p := node)"
    and "iq_prev (iqueue_add node p m) = (iq_prev m)(node := p, iq_next m p := node)"
  using assms by (auto simp: iqueue_add_def mem_defs fun_eq_iff)

lemma iqueue_add_tail_mem:
  assumes "node \<noteq> h"
  shows "iq_next (iqueue_add_tail node h m) = (iq_next m)(node := h, iq_prev m h := node)"
    and "iq_prev (iqueue_add_tail node h m) = (iq_prev m)(node := iq_prev m h, h := node)"
  using assms by (auto simp: iqueue_add_tail_def mem_defs fun_eq_iff)

lemma iqueue_del_mem:
  assumes "iq_next m e \<noteq> e"
  shows "iq_next (iqueue_del e m) = (iq_next m)(iq_prev m e := iq_next m e, e := 0)"
    and "iq_prev (iqueue_del e m) = (iq_prev m)(iq_next m e := iq_prev m e, e := 0)"
  using assms by (auto simp: iqueue_del_def mem_defs fun_eq_iff)

text \<open>Insertion behind the node \<open>p\<close>, which is the head or the last node of the front part.\<close>

lemma ring_insert:
  assumes "ring m h (ys @ zs)" and fresh: "node \<notin> set (h # ys @ zs)"
    and p: "p = last (h # ys)"
    and nx: "iq_next m' = (iq_next m)(node := hd (zs @ [h]), p := node)"
    and pv: "iq_prev m' = (iq_prev m)(node := p, hd (zs @ [h]) := node)"
  shows "ring m' h (ys @ node # zs)"
proof -
  let ?b = "hd (zs @ [h])"
  have cut: "distinct (h # ys @ zs)" "links m (h # ys)" "links m (zs @ [h])"
    using assms(1) by (auto simp: ring_cut)
  have pin: "p \<in> set (h # ys)" using p by (simp only: p last_in_set list.distinct not_False_eq_True)
  have bin: "?b \<in> set (zs @ [h])" by (cases zs) auto
  have "links m' (h # ys)"
  proof (rule links_frame [OF cut(2)])
    have "p \<notin> set (butlast (h # ys))"
      using cut(1) p distinct_append [of "butlast (h # ys)" "[last (h # ys)]"]
      by (simp only: append_butlast_last_id list.distinct not_False_eq_True) auto
    then show "\<forall>a\<in>set (butlast (h # ys)). iq_next m' a = iq_next m a"
      using fresh nx by (auto dest: in_set_butlastD split: if_splits)
    show "\<forall>a\<in>set (tl (h # ys)). iq_prev m' a = iq_prev m a"
      using fresh pv cut(1) bin by auto
  qed
  moreover have "links m' (node # zs @ [h])"
  proof -
    have "links m' (zs @ [h])"
    proof (rule links_frame [OF cut(3)])
      show "\<forall>a\<in>set (butlast (zs @ [h])). iq_next m' a = iq_next m a"
        using fresh nx cut(1) pin by auto
      show "\<forall>a\<in>set (tl (zs @ [h])). iq_prev m' a = iq_prev m a"
        using fresh pv cut(1) by (cases zs) auto
    qed
    moreover have "node \<noteq> p" using fresh pin by auto
    ultimately show ?thesis
      using links_append [of "[node]" "zs @ [h]" m'] nx pv by auto
  qed
  ultimately show ?thesis
    using cut(1) fresh nx pv p ring_cut [of m' h ys "node # zs"] bin by auto
qed

lemma ring_add:
  assumes "ring m h (ys @ zs)" and "node \<notin> set (h # ys @ zs)"
  shows "ring (iqueue_add node (last (h # ys)) m) h (ys @ node # zs)"
proof -
  have "node \<noteq> last (h # ys)"
    using assms(2) last_in_set [of "h # ys"] by auto
  moreover have "iq_next m (last (h # ys)) = hd (zs @ [h])"
    using assms(1) ring_cut by blast
  ultimately show ?thesis
    using assms by (intro ring_insert) (auto simp: iqueue_add_mem)
qed

lemma ring_add_tail:
  assumes "ring m h xs" and "node \<notin> set (h # xs)"
  shows "ring (iqueue_add_tail node h m) h (xs @ [node])"
proof -
  have "iq_prev m h = last (h # xs)" using assms(1) by (rule ring_prev)
  with assms show ?thesis
    by (intro ring_insert [of m h xs "[]"]) (auto simp: iqueue_add_tail_mem fun_upd_twist)
qed

lemma ring_del:
  assumes "ring m h (ys @ e # zs)"
  shows "ring (iqueue_del e m) h (ys @ zs)"
proof -
  let ?a = "last (h # ys)" and ?b = "hd (zs @ [h])"
  have cut: "distinct (h # ys @ e # zs)" "links m (h # ys)" "links m (zs @ [h])"
    and ae: "iq_next m ?a = e" "iq_prev m e = ?a" and eb: "iq_next m e = ?b" "iq_prev m ?b = e"
    using assms links_append [of "[e]" "zs @ [h]" m] by (auto simp: ring_cut)
  have ain: "?a \<in> set (h # ys)" by (rule last_in_set) simp
  have bin: "?b \<in> set (zs @ [h])" by (cases zs) auto
  have be: "?b \<noteq> e" using cut(1) bin by auto
  note mem = iqueue_del_mem [of m e, unfolded eb ae, OF be]
  have "links (iqueue_del e m) (h # ys)"
  proof (rule links_frame [OF cut(2)])
    have "?a \<notin> set (butlast (h # ys))"
      using cut(1) distinct_append [of "butlast (h # ys)" "[last (h # ys)]"]
      by (simp only: append_butlast_last_id list.distinct not_False_eq_True) auto
    then show "\<forall>a\<in>set (butlast (h # ys)). iq_next (iqueue_del e m) a = iq_next m a"
      using cut(1) mem by (auto dest: in_set_butlastD split: if_splits)
    show "\<forall>a\<in>set (tl (h # ys)). iq_prev (iqueue_del e m) a = iq_prev m a"
      using cut(1) bin mem by auto
  qed
  moreover have "links (iqueue_del e m) (zs @ [h])"
  proof (rule links_frame [OF cut(3)])
    show "\<forall>a\<in>set (butlast (zs @ [h])). iq_next (iqueue_del e m) a = iq_next m a"
      using cut(1) ain mem by auto
    show "\<forall>a\<in>set (tl (zs @ [h])). iq_prev (iqueue_del e m) a = iq_prev m a"
      using cut(1) mem by (cases zs) auto
  qed
  ultimately show ?thesis
    using cut(1) mem ain bin be by (subst ring_cut) auto
qed

section \<open>Other queues in the same memory are left alone\<close>

lemma ring_add_tail_frame:
  assumes "ring m h xs" and "ring m g ys" and "set (h # xs) \<inter> set (g # ys) = {}"
    and "node \<notin> set (h # xs)" and "node \<notin> set (g # ys)"
  shows "ring (iqueue_add_tail node h m) g ys"
proof (rule ring_frame [OF assms(2)])
  have "iq_prev m h \<in> set (h # xs)"
    using ring_prev [OF assms(1)] last_in_set [of "h # xs"] by simp
  then show "\<forall>a \<in> set (g # ys).
      iq_next (iqueue_add_tail node h m) a = iq_next m a \<and>
      iq_prev (iqueue_add_tail node h m) a = iq_prev m a"
    using assms by (auto simp: iqueue_add_tail_mem)
qed

lemma ring_neighbours:
  assumes "ring m h (ys @ e # zs)"
  shows "iq_next m e \<in> set (h # ys @ zs)" and "iq_prev m e \<in> set (h # ys @ zs)"
    and "iq_next m e \<noteq> e"
proof -
  have "iq_next m e = hd (zs @ [h])" "iq_prev m e = last (h # ys)"
    using assms links_append [of "[e]" "zs @ [h]" m] by (auto simp: ring_cut)
  moreover have "hd (zs @ [h]) \<in> set (zs @ [h])" "last (h # ys) \<in> set (h # ys)"
    by (cases zs) (auto simp: last_in_set)
  ultimately show "iq_next m e \<in> set (h # ys @ zs)" "iq_prev m e \<in> set (h # ys @ zs)"
    and "iq_next m e \<noteq> e"
    using ring_distinct [OF assms] by auto
qed

lemma ring_del_frame:
  assumes "ring m h (xs @ e # zs)" and "ring m g ys" and "set (h # xs @ e # zs) \<inter> set (g # ys) = {}"
  shows "ring (iqueue_del e m) g ys"
proof (rule ring_frame [OF assms(2)])
  show "\<forall>a \<in> set (g # ys). iq_next (iqueue_del e m) a = iq_next m a \<and>
      iq_prev (iqueue_del e m) a = iq_prev m a"
  proof -
    note nb = ring_neighbours [OF assms(1)]
    have "iq_next m e \<notin> set (g # ys)" "iq_prev m e \<notin> set (g # ys)" "e \<notin> set (g # ys)"
      using nb assms(3) by auto
    then show ?thesis
      unfolding iqueue_del_mem [OF nb(3)] by (metis fun_upd_apply)
  qed
qed

section \<open>The contract for the clients of the queues\<close>

locale node_queues =
  fixes queue :: "'m \<Rightarrow> nat \<Rightarrow> nat list \<Rightarrow> bool"
    and first :: "'m \<Rightarrow> nat \<Rightarrow> nat"
    and is_empty :: "nat \<Rightarrow> 'm \<Rightarrow> bool"
    and add_tail :: "nat \<Rightarrow> nat \<Rightarrow> 'm \<Rightarrow> 'm"
    and del :: "nat \<Rightarrow> 'm \<Rightarrow> 'm"
  assumes nodup: "queue m h xs \<Longrightarrow> distinct (h # xs)"
    and first_law: "queue m h (x # xs) \<Longrightarrow> first m h = x"
    and empty_law: "queue m h xs \<Longrightarrow> is_empty h m \<longleftrightarrow> xs = []"
    and add_tail_law: "queue m h xs \<Longrightarrow> n \<notin> set (h # xs) \<Longrightarrow> queue (add_tail n h m) h (xs @ [n])"
    and add_tail_frame: "queue m h xs \<Longrightarrow> queue m g ys \<Longrightarrow> set (h # xs) \<inter> set (g # ys) = {} \<Longrightarrow>
      n \<notin> set (h # xs) \<Longrightarrow> n \<notin> set (g # ys) \<Longrightarrow> queue (add_tail n h m) g ys"
    and del_law: "queue m h (xs @ e # zs) \<Longrightarrow> queue (del e m) h (xs @ zs)"
    and del_frame: "queue m h (xs @ e # zs) \<Longrightarrow> queue m g ys \<Longrightarrow>
      set (h # xs @ e # zs) \<inter> set (g # ys) = {} \<Longrightarrow> queue (del e m) g ys"
begin

lemma del_first: "queue m h (x # xs) \<Longrightarrow> queue (del (first m h) m) h xs"
  using del_law [of m h "[]" x xs] by (simp add: first_law)

lemma move_first:
  assumes "queue m s (x # xs)" and "queue m d ys" and "set (s # x # xs) \<inter> set (d # ys) = {}"
  shows "queue (add_tail (first m s) d (del (first m s) m)) s xs"
    and "queue (add_tail (first m s) d (del (first m s) m)) d (ys @ [x])"
proof -
  have s': "queue (del x m) s xs" and d': "queue (del x m) d ys"
    using assms del_law [of m s "[]" x xs] del_frame [of m s "[]" x xs d ys] by auto
  have "x \<notin> set (s # xs)" "x \<notin> set (d # ys)" and dis: "set (d # ys) \<inter> set (s # xs) = {}"
    using nodup [OF assms(1)] assms(3) by auto
  then show "queue (add_tail (first m s) d (del (first m s) m)) s xs"
    and "queue (add_tail (first m s) d (del (first m s) m)) d (ys @ [x])"
    using add_tail_frame [OF d' s' dis, of x] add_tail_law [OF d', of x] first_law [OF assms(1)]
    by auto
qed

lemma move_first_frame:
  assumes "queue m s (x # xs)" and "queue m d ys" and "queue m g zs"
    and "set (s # x # xs) \<inter> set (d # ys) = {}"
    and "set (g # zs) \<inter> (set (s # x # xs) \<union> set (d # ys)) = {}"
  shows "queue (add_tail (first m s) d (del (first m s) m)) g zs"
proof -
  have d': "queue (del x m) d ys" and g': "queue (del x m) g zs"
    using assms del_frame [of m s "[]" x xs d ys] del_frame [of m s "[]" x xs g zs] by auto
  have "x \<notin> set (d # ys)" "x \<notin> set (g # zs)" "set (d # ys) \<inter> set (g # zs) = {}"
    using assms(4,5) by auto
  then show ?thesis
    using add_tail_frame [OF d' g', of x] first_law [OF assms(1)] by auto
qed

end

interpretation iq: node_queues ring iq_next iqueue_is_empty iqueue_add_tail iqueue_del
proof unfold_locales
  show "ring m h (x # xs) \<Longrightarrow> iq_next m h = x" for m h x xs
    by (simp add: ring_next)
  show "ring m h xs \<Longrightarrow> ring m g ys \<Longrightarrow> set (h # xs) \<inter> set (g # ys) = {} \<Longrightarrow>
      n \<notin> set (h # xs) \<Longrightarrow> n \<notin> set (g # ys) \<Longrightarrow> ring (iqueue_add_tail n h m) g ys" for m h xs g ys n
    by (rule ring_add_tail_frame)
  show "ring m h xs \<Longrightarrow> n \<notin> set (h # xs) \<Longrightarrow> ring (iqueue_add_tail n h m) h (xs @ [n])" for m h xs n
    by (rule ring_add_tail)
qed (fact ring_distinct ring_empty_iff ring_del ring_del_frame)+

text \<open>A queue with a fixed head, filled at the tail and emptied at the front, is a FIFO queue.\<close>

definition unlinked :: "iq_mem \<Rightarrow> nat \<Rightarrow> nat \<Rightarrow> bool" where
  "unlinked m h n \<longleftrightarrow> (\<forall>xs. ring m h xs \<longrightarrow> n \<notin> set (h # xs))"

interpretation iqf: fifo "\<lambda>m. ring m h" "\<lambda>m. unlinked m h" "\<lambda>n. iqueue_add_tail n h"
  "\<lambda>m. iqueue_del (iq_next m h) m" "\<lambda>m. iq_next m h" "iqueue_is_empty h" for h
proof unfold_locales
  show "ring m h xs \<Longrightarrow> unlinked m h n \<Longrightarrow> ring (iqueue_add_tail n h m) h (xs @ [n])" for m xs n
    by (rule ring_add_tail) (auto simp: unlinked_def)
  show "ring m h (x # xs) \<Longrightarrow> ring (iqueue_del (iq_next m h) m) h xs" for m x xs
    by (rule iq.del_first)
qed (simp_all only: iq.first_law ring_empty_iff)

section \<open>Loops over a queue\<close>

lemma walk_links:
  "links m (xs @ [h]) \<Longrightarrow> h \<notin> set xs \<Longrightarrow> length xs < fuel \<Longrightarrow>
   iqueue_walk fuel (hd (xs @ [h])) h m = Some xs"
proof (induction xs arbitrary: fuel)
  case Nil
  then show ?case by (cases fuel) auto
next
  case (Cons x xs)
  then obtain f where f: "fuel = Suc f" by (cases fuel) auto
  have "links m (xs @ [h])" "iq_next m x = hd (xs @ [h])"
    using Cons.prems(1) by (cases xs; simp)+
  with Cons f show ?case by auto
qed

lemma drain_ring:
  "ring m h xs \<Longrightarrow> length xs < fuel \<Longrightarrow>
   \<exists>m'. iqueue_drain fuel h m = Some (xs, m') \<and> ring m' h []"
proof (induction xs arbitrary: fuel m)
  case Nil
  then obtain f where "fuel = Suc f" by (cases fuel) auto
  with Nil.prems show ?case by (simp add: ring_empty_iff)
next
  case (Cons x xs)
  then obtain f where f: "fuel = Suc f" by (cases fuel) auto
  have "ring (iqueue_del x m) h xs" and "iq_next m h = x"
    using iq.del_first [OF Cons.prems(1)] iq.first_law [OF Cons.prems(1)] by auto
  with Cons.IH [of "iqueue_del x m" f] Cons.prems f show ?case
    by (auto simp: ring_empty_iff Let_def)
qed

lemma splice_ring:
  assumes "ring m l (x # xs)" and "ring m h ys" and "set (l # x # xs) \<inter> set (h # ys) = {}"
  shows "ring (iqueue_splice_raw l h m) h ((x # xs) @ ys)"
proof -
  let ?m = "iqueue_splice_raw l h m" and ?z = "last (x # xs)" and ?b = "hd (ys @ [h])"
  have l: "iq_next m l = x" "iq_prev m l = ?z"
    using ring_next [OF assms(1)] ring_prev [OF assms(1)] by auto
  have h: "iq_next m h = ?b" using ring_next [OF assms(2)] .
  have zin: "?z \<in> set (x # xs)" by (rule last_in_set) simp
  have bin: "?b \<in> set (ys @ [h])" by (cases ys) auto
  have d: "distinct (l # x # xs)" "distinct (h # ys)"
    using assms by (auto dest: ring_distinct)
  have nx: "iq_next ?m = (iq_next m)(h := x, ?z := ?b)"
    and pv: "iq_prev ?m = (iq_prev m)(x := h, ?b := ?z)"
    using l h by (auto simp: iqueue_splice_raw_def mem_defs)
  have lk: "links m (x # xs)" "links m (ys @ [h])"
    using assms(1,2) ring_cut [of m l "x # xs" "[]"] ring_cut [of m h "[]" ys]
    by (auto simp: ring_def)
  have "set (butlast (x # xs)) \<subseteq> set (x # xs) - {?z}"
    using d(1) distinct_append [of "butlast (x # xs)" "[?z]"] set_mono_butlast [of "x # xs"]
    by (simp only: append_butlast_last_id list.distinct not_False_eq_True) auto
  then have 1: "links ?m (x # xs)"
    using d assms(3) bin by (intro links_frame [OF lk(1)]) (auto simp: nx pv)
  have "set (tl (ys @ [h])) \<subseteq> set (ys @ [h]) - {?b}"
    using d(2) by (cases ys) auto
  then have 2: "links ?m (ys @ [h])"
    using d assms(3) zin by (intro links_frame [OF lk(2)]) (auto simp: nx pv)
  from 1 2 show ?thesis
    using assms(3) d nx pv zin bin links_append [of "[h]" "x # xs" ?m]
    by (subst ring_cut) auto
qed

section \<open>Properties\<close>

text \<open>The pointer macros implement the list operations the protocol is written with: taking the
  first node of a queue out with \<open>iqueue_del\<close> and linking it with \<open>iqueue_add_tail\<close> behind another
  queue moves exactly that node, keeps the order of both queues in both directions, and leaves
  every third queue in the same memory as it was.
\<close>

theorem iqueue_move_refines:
  assumes "ring m s (x # xs)" and "ring m d ys" and "ring m g zs"
    and "set (s # x # xs) \<inter> set (d # ys) = {}"
    and "set (g # zs) \<inter> (set (s # x # xs) \<union> set (d # ys)) = {}"
  shows "ring (iqueue_move_first s d m) s xs \<and> ring (iqueue_move_first s d m) d (ys @ [x]) \<and>
    ring (iqueue_move_first s d m) g zs"
  using iq.move_first [OF assms(1,2,4)] iq.move_first_frame [OF assms] by (simp add: iqueue_move_first_def Let_def)

definition demo_mem :: iq_mem where
  "demo_mem = iqueue_add_tail 12 3 (iqueue_add_tail 11 1 (iqueue_add_tail 10 1
     (iqueue_init 3 (iqueue_init 2 (iqueue_init 1 \<lparr>iq_next = (\<lambda>_. 0), iq_prev = (\<lambda>_. 0)\<rparr>)))))"

theorem iqueue_move_refines_witness:
  "ring demo_mem 1 [10, 11] \<and> ring (iqueue_move_first 1 2 demo_mem) 1 [11] \<and>
   ring (iqueue_move_first 1 2 demo_mem) 2 [10] \<and> ring (iqueue_move_first 1 2 demo_mem) 3 [12]"
proof -
  note defs = demo_mem_def iqueue_init_def iqueue_add_tail_def mem_defs ring_def
  have "ring demo_mem 1 [10, 11]" "ring demo_mem 2 []" "ring demo_mem 3 [12]" by (simp_all add: defs)
  with iqueue_move_refines [of demo_mem 1 10 "[11]" 2 "[]" 3 "[12]"] show ?thesis by simp
qed

text \<open>
  C34. The loop \<open>while (!iqueue_is_empty(head))\<close> of \<open>ikcp_release\<close> ends: it frees every node of the
  queue once, in order, and leaves the queue empty.
\<close>

theorem iqueue_drain_terminates:
  assumes "ring m h xs"
  shows "\<exists>m'. iqueue_drain (Suc (length xs)) h m = Some (xs, m') \<and> iqueue_is_empty h m'"
  using drain_ring [OF assms, of "Suc (length xs)"] by (auto simp: ring_empty_iff)

theorem iqueue_drain_terminates_witness:
  "\<exists>m'. iqueue_drain 3 1 demo_mem = Some ([10, 11], m') \<and> iqueue_is_empty 1 m'"
proof -
  have "ring demo_mem 1 [10, 11]"
    by (simp add: demo_mem_def iqueue_init_def iqueue_add_tail_def mem_defs ring_def)
  from iqueue_drain_terminates [OF this] show ?thesis by (simp add: numeral_3_eq_3)
qed

end
