(* ===== verification/Kcp_Codec.thy ===== *)
theory Kcp_Codec
  imports IotCam_Prelude
begin

text \<open>
  The wire format of KCP (\<open>KCP/ikcp.c\<close>, the \<open>ikcp_encode\<close>/\<open>ikcp_decode\<close> functions and
  \<open>ikcp_encode_seg\<close>): little-endian integers and the 24-byte segment header. An encoder gives the
  bytes it stores at the pointer, a decoder takes the bytes from the pointer on and returns the
  value and the bytes behind it, or the out-of-bounds read it would perform. The locale
  \<open>fixed_codec\<close> states what the header needs of its fields: a fixed width, and decoding as the
  exact inverse of encoding in both directions.
\<close>

unbundle bit_operations_syntax

section \<open>Integers\<close>

definition ikcp_encode8u :: "u8 \<Rightarrow> u8 list" where
  "ikcp_encode8u c = [c]"

fun ikcp_decode8u :: "u8 list \<Rightarrow> (u8 \<times> u8 list) result" where
  "ikcp_decode8u (b0 # p) = Inr (b0, p)"
| "ikcp_decode8u _ = Inl Read_out_of_bounds"

definition ikcp_encode16u :: "u16 \<Rightarrow> u8 list" where
  "ikcp_encode16u w = [ucast w, ucast (drop_bit 8 w)]"

fun ikcp_decode16u :: "u8 list \<Rightarrow> (u16 \<times> u8 list) result" where
  "ikcp_decode16u (b0 # b1 # p) = Inr (ucast b0 OR push_bit 8 (ucast b1), p)"
| "ikcp_decode16u _ = Inl Read_out_of_bounds"

definition ikcp_encode32u :: "u32 \<Rightarrow> u8 list" where
  "ikcp_encode32u l = [ucast l, ucast (drop_bit 8 l), ucast (drop_bit 16 l), ucast (drop_bit 24 l)]"

fun ikcp_decode32u :: "u8 list \<Rightarrow> (u32 \<times> u8 list) result" where
  "ikcp_decode32u (b0 # b1 # b2 # b3 # p) =
     Inr (ucast b0 OR push_bit 8 (ucast b1) OR push_bit 16 (ucast b2) OR push_bit 24 (ucast b3), p)"
| "ikcp_decode32u _ = Inl Read_out_of_bounds"

section \<open>What the header relies on\<close>

locale fixed_codec =
  fixes enc :: "'a \<Rightarrow> u8 list"
    and dec :: "u8 list \<Rightarrow> ('a \<times> u8 list) result"
    and width :: nat
  assumes enc_width: "length (enc x) = width"
    and dec_enc: "dec (enc x @ p) = Inr (x, p)"
    and dec_sound: "dec p = Inr (x, q) \<Longrightarrow> p = enc x @ q"
    and dec_short: "length p < width \<Longrightarrow> dec p = Inl Read_out_of_bounds"
    and dec_total: "width \<le> length p \<Longrightarrow> \<exists>x q. dec p = Inr (x, q)"
begin

lemma dec_iff: "dec p = Inr (x, q) \<longleftrightarrow> p = enc x @ q"
  using dec_enc dec_sound by blast

lemma dec_takes:
  assumes "width \<le> length p"
  obtains x where "dec p = Inr (x, drop width p)" and "p = enc x @ drop width p"
proof -
  obtain x q where xq: "dec p = Inr (x, q)" using dec_total [OF assms] by blast
  then have "p = enc x @ q" by (rule dec_sound)
  moreover from this have q: "q = drop width p" using enc_width [of x] by simp
  ultimately show thesis using that [of x] xq by simp
qed

definition val :: "u8 list \<Rightarrow> 'a" where
  "val p = fst (projr (dec p))"

lemma dec_val:
  "dec p = (if length p < width then Inl Read_out_of_bounds else Inr (val p, drop width p))"
proof (cases "length p < width")
  case True
  then show ?thesis by (simp add: dec_short)
next
  case False
  then obtain x where "dec p = Inr (x, drop width p)" by (meson dec_takes not_less)
  with False show ?thesis by (simp add: val_def)
qed

lemma enc_eq_iff: "enc x = enc y \<longleftrightarrow> x = y"
proof
  assume "enc x = enc y"
  then have "dec (enc x @ []) = dec (enc y @ [])" by simp
  then show "x = y" by (simp only: dec_enc sum.inject prod.inject)
qed simp

end

lemma bytes16:
  fixes w :: u16
  shows "ucast (ucast w :: u8) OR push_bit 8 (ucast (ucast (drop_bit 8 w) :: u8)) = w"
  by (rule bit_word_eqI) (auto simp: bit_simps)

lemma bytes32:
  fixes l :: u32
  shows "ucast (ucast l :: u8) OR push_bit 8 (ucast (ucast (drop_bit 8 l) :: u8)) OR
    push_bit 16 (ucast (ucast (drop_bit 16 l) :: u8)) OR
    push_bit 24 (ucast (ucast (drop_bit 24 l) :: u8)) = l"
proof (rule bit_word_eqI)
  fix n assume "n < LENGTH(32)"
  then consider "n < 8" | "8 \<le> n" "n < 16" | "16 \<le> n" "n < 24" | "24 \<le> n" "n < 32"
    by fastforce
  then show "bit (ucast (ucast l :: u8) OR push_bit 8 (ucast (ucast (drop_bit 8 l) :: u8)) OR
      push_bit 16 (ucast (ucast (drop_bit 16 l) :: u8)) OR
      push_bit 24 (ucast (ucast (drop_bit 24 l) :: u8)) :: u32) n = bit l n"
    by cases (auto simp: bit_simps)
qed

lemma word16_bytes:
  fixes b0 b1 :: u8
  defines "w \<equiv> ucast b0 OR push_bit 8 (ucast b1) :: u16"
  shows "ucast w = b0" and "ucast (drop_bit 8 w) = b1"
  unfolding w_def
  by (rule bit_word_eqI; auto simp: bit_simps dest: bit_imp_le_length)+

lemma word32_bytes:
  fixes b0 b1 b2 b3 :: u8
  defines "l \<equiv> ucast b0 OR push_bit 8 (ucast b1) OR push_bit 16 (ucast b2) OR
    push_bit 24 (ucast b3) :: u32"
  shows "ucast l = b0" and "ucast (drop_bit 8 l) = b1" and "ucast (drop_bit 16 l) = b2"
    and "ucast (drop_bit 24 l) = b3"
  unfolding l_def
  by (rule bit_word_eqI; auto simp: bit_simps dest: bit_imp_le_length)+

interpretation c8: fixed_codec ikcp_encode8u ikcp_decode8u 1
proof unfold_locales
  fix p q :: "u8 list" and x
  show "ikcp_decode8u p = Inr (x, q) \<Longrightarrow> p = ikcp_encode8u x @ q"
    "length p < 1 \<Longrightarrow> ikcp_decode8u p = Inl Read_out_of_bounds"
    "1 \<le> length p \<Longrightarrow> \<exists>x q. ikcp_decode8u p = Inr (x, q)"
    by (cases p rule: ikcp_decode8u.cases; simp add: ikcp_encode8u_def)+
qed (simp_all add: ikcp_encode8u_def)

lemma decode16u_Inr:
  "ikcp_decode16u p = Inr (x, q) \<Longrightarrow> p = ikcp_encode16u x @ q"
  by (erule ikcp_decode16u.elims)
     (simp_all only: sum.simps prod.inject ikcp_encode16u_def word16_bytes append.simps)

lemma decode32u_Inr:
  "ikcp_decode32u p = Inr (x, q) \<Longrightarrow> p = ikcp_encode32u x @ q"
  by (erule ikcp_decode32u.elims)
     (simp_all only: sum.simps prod.inject ikcp_encode32u_def word32_bytes append.simps)

interpretation c16: fixed_codec ikcp_encode16u ikcp_decode16u 2
proof unfold_locales
  fix p q :: "u8 list" and x
  show "ikcp_decode16u p = Inr (x, q) \<Longrightarrow> p = ikcp_encode16u x @ q"
    by (rule decode16u_Inr)
  show "length p < 2 \<Longrightarrow> ikcp_decode16u p = Inl Read_out_of_bounds"
    "2 \<le> length p \<Longrightarrow> \<exists>x q. ikcp_decode16u p = Inr (x, q)"
    by (cases p rule: ikcp_decode16u.cases; simp)+
qed (simp_all add: ikcp_encode16u_def bytes16)

interpretation c32: fixed_codec ikcp_encode32u ikcp_decode32u 4
proof unfold_locales
  fix p q :: "u8 list" and x
  show "ikcp_decode32u p = Inr (x, q) \<Longrightarrow> p = ikcp_encode32u x @ q"
    by (rule decode32u_Inr)
  show "length p < 4 \<Longrightarrow> ikcp_decode32u p = Inl Read_out_of_bounds"
    "4 \<le> length p \<Longrightarrow> \<exists>x q. ikcp_decode32u p = Inr (x, q)"
    by (cases p rule: ikcp_decode32u.cases; simp)+
qed (simp_all add: ikcp_encode32u_def bytes32)

text \<open>\<open>ikcp_getconv\<close>: the conversation number at the front of a datagram.\<close>

definition ikcp_getconv :: "u8 list \<Rightarrow> u32 result" where
  "ikcp_getconv ptr = bind_result (ikcp_decode32u ptr) (\<lambda>(conv, _). Inr conv)"

section \<open>Segments and their header\<close>

record IKCPSEG =
  seg_conv :: u32
  seg_cmd :: u32
  seg_frg :: u32
  seg_wnd :: u32
  seg_ts :: u32
  seg_sn :: u32
  seg_una :: u32
  seg_len :: u32
  seg_resendts :: u32
  seg_rto :: u32
  seg_fastack :: u32
  seg_xmit :: u32
  seg_data :: "u8 list"

text \<open>The header as \<open>ikcp_input\<close> reads it into its local variables, at their widths.\<close>

record ikcp_head =
  h_conv :: u32
  h_cmd :: u8
  h_frg :: u8
  h_wnd :: u16
  h_ts :: u32
  h_sn :: u32
  h_una :: u32
  h_len :: u32

definition ikcp_encode_seg :: "IKCPSEG \<Rightarrow> u8 list" where
  "ikcp_encode_seg seg =
     ikcp_encode32u (seg_conv seg) @
     ikcp_encode8u (ucast (seg_cmd seg)) @
     ikcp_encode8u (ucast (seg_frg seg)) @
     ikcp_encode16u (ucast (seg_wnd seg)) @
     ikcp_encode32u (seg_ts seg) @
     ikcp_encode32u (seg_sn seg) @
     ikcp_encode32u (seg_una seg) @
     ikcp_encode32u (seg_len seg)"

text \<open>The decoding of everything behind the conversation number, in the order of \<open>ikcp_input\<close>.\<close>

definition ikcp_decode_rest :: "u32 \<Rightarrow> u8 list \<Rightarrow> (ikcp_head \<times> u8 list) result" where
  "ikcp_decode_rest conv data =
     bind_result (ikcp_decode8u data) (\<lambda>(cmd, data).
     bind_result (ikcp_decode8u data) (\<lambda>(frg, data).
     bind_result (ikcp_decode16u data) (\<lambda>(wnd, data).
     bind_result (ikcp_decode32u data) (\<lambda>(ts, data).
     bind_result (ikcp_decode32u data) (\<lambda>(sn, data).
     bind_result (ikcp_decode32u data) (\<lambda>(una, data).
     bind_result (ikcp_decode32u data) (\<lambda>(len, data).
       Inr (\<lparr>h_conv = conv, h_cmd = cmd, h_frg = frg, h_wnd = wnd, h_ts = ts, h_sn = sn,
             h_una = una, h_len = len\<rparr>, data))))))))"

definition ikcp_encode_head :: "ikcp_head \<Rightarrow> u8 list" where
  "ikcp_encode_head h =
     ikcp_encode32u (h_conv h) @ ikcp_encode8u (h_cmd h) @ ikcp_encode8u (h_frg h) @
     ikcp_encode16u (h_wnd h) @ ikcp_encode32u (h_ts h) @ ikcp_encode32u (h_sn h) @
     ikcp_encode32u (h_una h) @ ikcp_encode32u (h_len h)"

definition ikcp_decode_head :: "u8 list \<Rightarrow> (ikcp_head \<times> u8 list) result" where
  "ikcp_decode_head data =
     bind_result (ikcp_decode32u data) (\<lambda>(conv, data). ikcp_decode_rest conv data)"

text \<open>What of a segment survives on the wire: the header fields, truncated to their width.\<close>

definition head_of :: "IKCPSEG \<Rightarrow> ikcp_head" where
  "head_of seg = \<lparr>h_conv = seg_conv seg, h_cmd = ucast (seg_cmd seg), h_frg = ucast (seg_frg seg),
     h_wnd = ucast (seg_wnd seg), h_ts = seg_ts seg, h_sn = seg_sn seg, h_una = seg_una seg,
     h_len = seg_len seg\<rparr>"

lemma encode_seg_head: "ikcp_encode_seg seg = ikcp_encode_head (head_of seg)"
  by (simp add: ikcp_encode_seg_def ikcp_encode_head_def head_of_def)

lemmas codec_simps [simp] = c8.enc_width c16.enc_width c32.enc_width c8.dec_enc c16.dec_enc c32.dec_enc

lemma decode_rest_Inr:
  "ikcp_decode_rest conv p = Inr (h, q) \<longleftrightarrow>
     h_conv h = conv \<and> ikcp_encode32u conv @ p = ikcp_encode_head h @ q"
proof
  assume "ikcp_decode_rest conv p = Inr (h, q)"
  then show "h_conv h = conv \<and> ikcp_encode32u conv @ p = ikcp_encode_head h @ q"
    by (auto simp: ikcp_decode_rest_def ikcp_encode_head_def c8.dec_iff c16.dec_iff c32.dec_iff)
next
  assume "h_conv h = conv \<and> ikcp_encode32u conv @ p = ikcp_encode_head h @ q"
  then show "ikcp_decode_rest conv p = Inr (h, q)"
    by (cases h) (auto simp: ikcp_decode_rest_def ikcp_encode_head_def)
qed

interpretation hd: fixed_codec ikcp_encode_head ikcp_decode_head 24
proof unfold_locales
  fix p q :: "u8 list" and h
  show "length (ikcp_encode_head h) = 24"
    by (simp add: ikcp_encode_head_def)
  show "ikcp_decode_head (ikcp_encode_head h @ p) = Inr (h, p)"
  proof -
    obtain r where r: "ikcp_encode_head h = ikcp_encode32u (h_conv h) @ r"
      by (simp add: ikcp_encode_head_def)
    then show ?thesis
      by (simp add: ikcp_decode_head_def decode_rest_Inr)
  qed
  show "ikcp_decode_head p = Inr (h, q) \<Longrightarrow> p = ikcp_encode_head h @ q"
    by (auto simp: ikcp_decode_head_def decode_rest_Inr c32.dec_iff)
  note vals = ikcp_decode_head_def ikcp_decode_rest_def c8.dec_val c16.dec_val c32.dec_val
  show "24 \<le> length p \<Longrightarrow> \<exists>x q. ikcp_decode_head p = Inr (x, q)"
    by (simp add: vals) arith
  show "length p < 24 \<Longrightarrow> ikcp_decode_head p = Inl Read_out_of_bounds"
    by (simp add: vals)
qed

section \<open>Properties\<close>

text \<open>Encoding a segment header with \<open>ikcp_encode_seg\<close> and decoding it with the calls of
  \<open>ikcp_input\<close> gives back every field at its width on the wire and leaves the bytes behind the
  header; conversely whatever decodes is the 24-byte encoding of the header it decodes to, and
  fewer than 24 bytes read past the end.
\<close>

theorem header_roundtrip:
  "ikcp_decode_head (ikcp_encode_seg seg @ rest) = Inr (head_of seg, rest) \<and>
   length (ikcp_encode_seg seg) = 24 \<and>
   (ikcp_decode_head p = Inr (h, q) \<longleftrightarrow> p = ikcp_encode_head h @ q) \<and>
   (ikcp_decode_head p = Inl Read_out_of_bounds \<longleftrightarrow> length p < 24)"
proof -
  have "ikcp_decode_head p = Inl Read_out_of_bounds \<longleftrightarrow> length p < 24"
    using hd.dec_short [of p] hd.dec_total [of p] by (cases "length p < 24") auto
  then show ?thesis
    by (simp add: encode_seg_head hd.dec_iff hd.enc_width)
qed

end
