(* ===== verification/Kcp_Data.thy ===== *)
theory Kcp_Data
  imports Kcp_Codec
begin

text \<open>
  The control block of a KCP connection (\<open>struct IKCPCB\<close>), its constants, the arithmetic helpers
  of \<open>KCP/ikcp.c\<close>, creation and release, and the configuration calls. The four queues are lists
  of segments: theory \<open>IQueue\<close> shows that the pointer macros implement exactly these list
  operations. Fields with no counterpart are the user pointer and the logging mask and callback
  (logging is off unless the application installs a callback, which it does not); the callback
  \<open>output\<close> is represented by whether it is set, the datagrams passed to it are returned by the
  operations that call it.

  Memory: \<open>kcp_buffer\<close> is the number of bytes allocated for the flush buffer, \<open>kcp_acklist\<close> the
  first \<open>ackcount\<close> pairs of the acknowledgement array, \<open>kcp_ackblock\<close> its capacity in pairs. A
  segment allocator \<open>seg_alloc\<close> gives, for the number of the allocation within the call and
  the payload size, the uninitialised segment \<open>ikcp_segment_new\<close> returns, or \<open>None\<close> for a null
  pointer.
\<close>

unbundle bit_operations_syntax

section \<open>Constants\<close>

abbreviation (input) IKCP_RTO_NDL :: u32 where "IKCP_RTO_NDL \<equiv> 30"
abbreviation (input) IKCP_RTO_MIN :: u32 where "IKCP_RTO_MIN \<equiv> 100"
abbreviation (input) IKCP_RTO_DEF :: u32 where "IKCP_RTO_DEF \<equiv> 200"
abbreviation (input) IKCP_RTO_MAX :: u32 where "IKCP_RTO_MAX \<equiv> 60000"
abbreviation (input) IKCP_CMD_PUSH :: "'a::len word" where "IKCP_CMD_PUSH \<equiv> 81"
abbreviation (input) IKCP_CMD_ACK :: "'a::len word" where "IKCP_CMD_ACK \<equiv> 82"
abbreviation (input) IKCP_CMD_WASK :: "'a::len word" where "IKCP_CMD_WASK \<equiv> 83"
abbreviation (input) IKCP_CMD_WINS :: "'a::len word" where "IKCP_CMD_WINS \<equiv> 84"
abbreviation (input) IKCP_ASK_SEND :: u32 where "IKCP_ASK_SEND \<equiv> 1"
abbreviation (input) IKCP_ASK_TELL :: u32 where "IKCP_ASK_TELL \<equiv> 2"
abbreviation (input) IKCP_WND_SND :: u32 where "IKCP_WND_SND \<equiv> 32"
abbreviation (input) IKCP_WND_RCV :: u32 where "IKCP_WND_RCV \<equiv> 128"
abbreviation (input) IKCP_MTU_DEF :: u32 where "IKCP_MTU_DEF \<equiv> 1400"
abbreviation (input) IKCP_INTERVAL :: u32 where "IKCP_INTERVAL \<equiv> 100"
abbreviation (input) IKCP_OVERHEAD :: u32 where "IKCP_OVERHEAD \<equiv> 24"
abbreviation (input) IKCP_DEADLINK :: u32 where "IKCP_DEADLINK \<equiv> 20"
abbreviation (input) IKCP_THRESH_INIT :: u32 where "IKCP_THRESH_INIT \<equiv> 2"
abbreviation (input) IKCP_THRESH_MIN :: u32 where "IKCP_THRESH_MIN \<equiv> 2"
abbreviation (input) IKCP_PROBE_INIT :: u32 where "IKCP_PROBE_INIT \<equiv> 7000"
abbreviation (input) IKCP_PROBE_LIMIT :: u32 where "IKCP_PROBE_LIMIT \<equiv> 120000"

section \<open>Arithmetic helpers\<close>

definition imin :: "u32 \<Rightarrow> u32 \<Rightarrow> u32" where
  "imin a b = (if a \<le> b then a else b)"

definition imax :: "u32 \<Rightarrow> u32 \<Rightarrow> u32" where
  "imax a b = (if a \<ge> b then a else b)"

definition ibound :: "u32 \<Rightarrow> u32 \<Rightarrow> u32 \<Rightarrow> u32" where
  "ibound lower middle upper = imin (imax lower middle) upper"

definition itimediff :: "u32 \<Rightarrow> u32 \<Rightarrow> int" where
  "itimediff later earlier = sint (later - earlier)"

section \<open>The control block\<close>

record IKCPCB =
  kcp_conv :: u32
  kcp_mtu :: u32
  kcp_mss :: u32
  kcp_state :: u32
  kcp_snd_una :: u32
  kcp_snd_nxt :: u32
  kcp_rcv_nxt :: u32
  kcp_ts_recent :: u32
  kcp_ts_lastack :: u32
  kcp_ssthresh :: u32
  kcp_rx_rttval :: s32
  kcp_rx_srtt :: s32
  kcp_rx_rto :: s32
  kcp_rx_minrto :: s32
  kcp_snd_wnd :: u32
  kcp_rcv_wnd :: u32
  kcp_rmt_wnd :: u32
  kcp_cwnd :: u32
  kcp_probe :: u32
  kcp_current :: u32
  kcp_interval :: u32
  kcp_ts_flush :: u32
  kcp_xmit :: u32
  kcp_nrcv_buf :: u32
  kcp_nsnd_buf :: u32
  kcp_nrcv_que :: u32
  kcp_nsnd_que :: u32
  kcp_nodelay :: u32
  kcp_updated :: u32
  kcp_ts_probe :: u32
  kcp_probe_wait :: u32
  kcp_dead_link :: u32
  kcp_incr :: u32
  kcp_snd_queue :: "IKCPSEG list"
  kcp_rcv_queue :: "IKCPSEG list"
  kcp_snd_buf :: "IKCPSEG list"
  kcp_rcv_buf :: "IKCPSEG list"
  kcp_acklist :: "(u32 \<times> u32) list"
  kcp_ackcount :: u32
  kcp_ackblock :: u32
  kcp_buffer :: nat
  kcp_fastresend :: s32
  kcp_nocwnd :: s32
  kcp_stream :: s32
  kcp_output :: bool

type_synonym seg_alloc = "nat \<Rightarrow> nat \<Rightarrow> IKCPSEG option"

text \<open>What C promises of an allocator that does not run out of memory: a segment with room for
  the payload, whose contents are indeterminate.\<close>

definition alloc_ok :: "seg_alloc \<Rightarrow> bool" where
  "alloc_ok alloc \<longleftrightarrow> (\<forall>i n. \<exists>s. alloc i n = Some s \<and> length (seg_data s) = n)"

section \<open>Creation, release and configuration\<close>

text \<open>\<open>ikcp_create\<close>: the two flags say whether \<open>malloc\<close> of the control block and of the buffer
  succeed.\<close>

definition ikcp_create :: "bool \<Rightarrow> bool \<Rightarrow> u32 \<Rightarrow> IKCPCB option" where
  "ikcp_create got_kcp got_buffer conv =
     (if \<not> got_kcp then None
      else if \<not> got_buffer then None
      else Some \<lparr>
        kcp_conv = conv, kcp_mtu = IKCP_MTU_DEF, kcp_mss = IKCP_MTU_DEF - IKCP_OVERHEAD,
        kcp_state = 0, kcp_snd_una = 0, kcp_snd_nxt = 0, kcp_rcv_nxt = 0, kcp_ts_recent = 0,
        kcp_ts_lastack = 0, kcp_ssthresh = IKCP_THRESH_INIT, kcp_rx_rttval = 0, kcp_rx_srtt = 0,
        kcp_rx_rto = IKCP_RTO_DEF, kcp_rx_minrto = IKCP_RTO_MIN, kcp_snd_wnd = IKCP_WND_SND,
        kcp_rcv_wnd = IKCP_WND_RCV, kcp_rmt_wnd = IKCP_WND_RCV, kcp_cwnd = 0, kcp_probe = 0,
        kcp_current = 0, kcp_interval = IKCP_INTERVAL, kcp_ts_flush = IKCP_INTERVAL, kcp_xmit = 0,
        kcp_nrcv_buf = 0, kcp_nsnd_buf = 0, kcp_nrcv_que = 0, kcp_nsnd_que = 0, kcp_nodelay = 0,
        kcp_updated = 0, kcp_ts_probe = 0, kcp_probe_wait = 0, kcp_dead_link = IKCP_DEADLINK,
        kcp_incr = 0, kcp_snd_queue = [], kcp_rcv_queue = [], kcp_snd_buf = [], kcp_rcv_buf = [],
        kcp_acklist = [], kcp_ackcount = 0, kcp_ackblock = 0,
        kcp_buffer = unat (IKCP_MTU_DEF + IKCP_OVERHEAD) * 3,
        kcp_fastresend = 0, kcp_nocwnd = 0, kcp_stream = 0, kcp_output = False\<rparr>)"

text \<open>\<open>ikcp_release\<close>: what is freed, in order. The loops over the queues are \<open>iqueue_drain\<close> of theory
  \<open>IQueue\<close>; the array of acknowledgements is there once a block has been allocated.\<close>

datatype kcp_free = Free_segment IKCPSEG | Free_buffer | Free_acklist | Free_kcp

definition ikcp_release :: "IKCPCB \<Rightarrow> kcp_free list" where
  "ikcp_release kcp =
     map Free_segment (kcp_snd_buf kcp @ kcp_rcv_buf kcp @ kcp_snd_queue kcp @ kcp_rcv_queue kcp) @
     [Free_buffer] @ (if kcp_ackblock kcp = 0 then [] else [Free_acklist]) @ [Free_kcp]"

definition ikcp_setoutput :: "bool \<Rightarrow> IKCPCB \<Rightarrow> IKCPCB" where
  "ikcp_setoutput output kcp = kcp\<lparr>kcp_output := output\<rparr>"

definition ikcp_setmtu :: "bool \<Rightarrow> s32 \<Rightarrow> IKCPCB \<Rightarrow> s32 \<times> IKCPCB" where
  "ikcp_setmtu got_buffer mtu kcp =
     (if sint mtu < 50 \<or> sint mtu < sint IKCP_OVERHEAD then (-1, kcp)
      else if \<not> got_buffer then (-2, kcp)
      else (0, kcp\<lparr>kcp_mtu := mtu, kcp_mss := mtu - IKCP_OVERHEAD,
                  kcp_buffer := unat ((mtu + IKCP_OVERHEAD) * 3)\<rparr>))"

definition clamp_interval :: "s32 \<Rightarrow> s32" where
  "clamp_interval interval =
     (if sint interval > 5000 then 5000 else if sint interval < 10 then 10 else interval)"

definition ikcp_interval :: "s32 \<Rightarrow> IKCPCB \<Rightarrow> s32 \<times> IKCPCB" where
  "ikcp_interval interval kcp = (0, kcp\<lparr>kcp_interval := clamp_interval interval\<rparr>)"

definition ikcp_nodelay :: "s32 \<Rightarrow> s32 \<Rightarrow> s32 \<Rightarrow> s32 \<Rightarrow> IKCPCB \<Rightarrow> s32 \<times> IKCPCB" where
  "ikcp_nodelay nodelay interval resend nc kcp =
     (let kcp = (if sint nodelay \<ge> 0
                 then kcp\<lparr>kcp_nodelay := nodelay,
                          kcp_rx_minrto := (if nodelay \<noteq> 0 then IKCP_RTO_NDL else IKCP_RTO_MIN)\<rparr>
                 else kcp);
          kcp = (if sint interval \<ge> 0 then kcp\<lparr>kcp_interval := clamp_interval interval\<rparr> else kcp);
          kcp = (if sint resend \<ge> 0 then kcp\<lparr>kcp_fastresend := resend\<rparr> else kcp);
          kcp = (if sint nc \<ge> 0 then kcp\<lparr>kcp_nocwnd := nc\<rparr> else kcp)
      in (0, kcp))"

definition ikcp_wndsize :: "s32 \<Rightarrow> s32 \<Rightarrow> IKCPCB \<Rightarrow> s32 \<times> IKCPCB" where
  "ikcp_wndsize sndwnd rcvwnd kcp =
     (let kcp = (if sint sndwnd > 0 then kcp\<lparr>kcp_snd_wnd := sndwnd\<rparr> else kcp);
          kcp = (if sint rcvwnd > 0 then kcp\<lparr>kcp_rcv_wnd := imax rcvwnd IKCP_WND_RCV\<rparr> else kcp)
      in (0, kcp))"

definition ikcp_waitsnd :: "IKCPCB \<Rightarrow> s32" where
  "ikcp_waitsnd kcp = kcp_nsnd_buf kcp + kcp_nsnd_que kcp"

definition ikcp_wnd_unused :: "IKCPCB \<Rightarrow> s32" where
  "ikcp_wnd_unused kcp =
     (if kcp_nrcv_que kcp < kcp_rcv_wnd kcp then kcp_rcv_wnd kcp - kcp_nrcv_que kcp else 0)"

section \<open>Facts about the helpers\<close>

lemma unat_imin: "unat (imin a b) = min (unat a) (unat b)"
  by (auto simp: imin_def word_le_nat_alt)

lemma unat_imax: "unat (imax a b) = max (unat a) (unat b)"
  by (auto simp: imax_def word_le_nat_alt)

lemma unat_ibound: "unat (ibound l m u) = min (max (unat l) (unat m)) (unat u)"
  by (simp add: ibound_def unat_imin unat_imax)

text \<open>The difference of two serial numbers that lie less than half the range from a base.\<close>

lemma itimediff_spos:
  "spos b x < 2147483648 \<Longrightarrow> spos b y < 2147483648 \<Longrightarrow>
   itimediff x y = int (spos b x) - int (spos b y)"
  unfolding itimediff_def by (rule sint_diff_spos)

lemma itimediff_self [simp]: "itimediff x x = 0"
  by (simp add: itimediff_def)

lemma itimediff_nonneg: "0 \<le> itimediff x b \<longleftrightarrow> spos b x < 2147483648"
  by (simp add: itimediff_def spos_def sint_32_nonneg_iff)

lemma itimediff_neg: "itimediff x b < 0 \<longleftrightarrow> 2147483648 \<le> spos b x"
  by (simp add: itimediff_def spos_def sint_32_neg_iff)

section \<open>A connection to try the operations on\<close>

definition demo_seg :: "u32 \<Rightarrow> u32 \<Rightarrow> u8 list \<Rightarrow> IKCPSEG" where
  "demo_seg sn frg bs = \<lparr>seg_conv = 17, seg_cmd = IKCP_CMD_PUSH, seg_frg = frg, seg_wnd = 0, seg_ts = 0, seg_sn = sn,
     seg_una = 0, seg_len = of_nat (length bs), seg_resendts = 0, seg_rto = 0, seg_fastack = 0, seg_xmit = 0,
     seg_data = bs\<rparr>"

definition demo_alloc :: seg_alloc where
  "demo_alloc i n = Some (demo_seg 0 0 (replicate n 0))"

definition demo_kcp :: IKCPCB where
  "demo_kcp = ikcp_setoutput True (the (ikcp_create True True 17))"

lemmas demo_simps = demo_kcp_def ikcp_setoutput_def ikcp_create_def

lemma demo_alloc_ok: "alloc_ok demo_alloc"
  by (simp add: alloc_ok_def demo_alloc_def demo_seg_def)

end
