(* ===== verification/Kcp_Window.thy ===== *)
theory Kcp_Window
  imports Kcp_Data
begin

text \<open>
  The vocabulary the invariants of both directions share: segments whose length field tells the
  truth, runs of consecutive sequence numbers, and queues in the order of their sequence numbers
  inside a window.
\<close>

section \<open>Predicates on queues\<close>

text \<open>A segment whose length field tells the truth.\<close>

definition seg_ok :: "nat \<Rightarrow> IKCPSEG \<Rightarrow> bool" where
  "seg_ok bound s \<longleftrightarrow> seg_len s = of_nat (length (seg_data s)) \<and> length (seg_data s) \<le> bound"

text \<open>The sequence numbers of a queue are the ones right before \<open>nxt\<close>.\<close>

definition contig :: "u32 \<Rightarrow> IKCPSEG list \<Rightarrow> bool" where
  "contig nxt q \<longleftrightarrow> (\<forall>i < length q. seg_sn (q ! i) + of_nat (length q - i) = nxt)"

text \<open>Sequence numbers in strictly increasing order, all less than \<open>w\<close> from the base.\<close>

definition in_window :: "u32 \<Rightarrow> nat \<Rightarrow> IKCPSEG list \<Rightarrow> bool" where
  "in_window b w xs \<longleftrightarrow>
     sorted_wrt (<) (map (\<lambda>s. spos b (seg_sn s)) xs) \<and> (\<forall>s \<in> set xs. spos b (seg_sn s) < w)"

text \<open>What identifies a segment: the header fields that never change once it has its number, and the
  payload.\<close>

type_synonym seg_key = "u32 \<times> u32 \<times> u32 \<times> u32 \<times> u8 list"

definition key_of :: "IKCPSEG \<Rightarrow> seg_key" where
  "key_of s = (seg_conv s, seg_cmd s, seg_frg s, seg_sn s, seg_data s)"

section \<open>Lemmas\<close>

lemma seg_okI: "length (seg_data s) = unat (seg_len s) \<Longrightarrow> unat (seg_len s) \<le> m \<Longrightarrow> seg_ok m s"
  by (simp add: seg_ok_def)

lemma seg_ok_len: "seg_ok m s \<Longrightarrow> m < 4294967296 \<Longrightarrow> unat (seg_len s) = length (seg_data s)"
  by (simp add: seg_ok_def unat_of_nat)

lemma seg_ok_mono: "seg_ok m s \<Longrightarrow> m \<le> n \<Longrightarrow> seg_ok n s"
  by (simp add: seg_ok_def)

lemma contig_Nil [simp]: "contig nxt []"
  by (simp add: contig_def)

lemma contig_snoc:
  assumes "contig nxt q" and "seg_sn s = nxt"
  shows "contig (nxt + 1) (q @ [s])"
  unfolding contig_def
proof (intro allI impI)
  fix i assume i: "i < length (q @ [s])"
  show "seg_sn ((q @ [s]) ! i) + of_nat (length (q @ [s]) - i) = nxt + 1"
  proof (cases "i < length q")
    case True
    then have "seg_sn (q ! i) + of_nat (length q - i) = nxt"
      using assms(1) by (simp add: contig_def)
    moreover have "length (q @ [s]) - i = Suc (length q - i)"
      using True by simp
    ultimately show ?thesis using True by (simp add: nth_append algebra_simps)
  next
    case False
    with i have "i = length q" by simp
    with assms(2) show ?thesis by (simp add: nth_append)
  qed
qed

lemma contig_tl: "contig nxt (s # q) \<Longrightarrow> contig nxt q"
  by (auto simp: contig_def dest: spec [of _ "Suc _"])

lemma contig_drop: "contig nxt q \<Longrightarrow> contig nxt (drop n q)"
proof (induction n arbitrary: q)
  case (Suc n)
  then show ?case by (cases q) (auto dest: contig_tl)
qed simp

lemma in_window_Nil [simp]: "in_window b w []"
  by (simp add: in_window_def)

lemma in_window_Cons:
  "in_window b w (s # xs) \<longleftrightarrow>
     spos b (seg_sn s) < w \<and> (\<forall>t \<in> set xs. spos b (seg_sn s) < spos b (seg_sn t)) \<and> in_window b w xs"
  by (auto simp: in_window_def)

lemma in_window_append:
  "in_window b w (xs @ ys) \<longleftrightarrow>
     in_window b w xs \<and> in_window b w ys \<and>
     (\<forall>s \<in> set xs. \<forall>t \<in> set ys. spos b (seg_sn s) < spos b (seg_sn t))"
  by (auto simp: in_window_def sorted_wrt_append)

lemma in_window_distinct: "in_window b w xs \<Longrightarrow> distinct (map seg_sn xs)"
  by (induction xs) (auto simp: in_window_Cons)

lemma in_window_length: "in_window b w xs \<Longrightarrow> length xs \<le> w"
proof -
  assume a: "in_window b w xs"
  let ?f = "\<lambda>s. spos b (seg_sn s)"
  have "distinct (map ?f xs)"
    using a by (auto simp: in_window_def strict_sorted_iff)
  then have "length xs = card (set (map ?f xs))"
    by (simp add: distinct_card del: set_map)
  also have "\<dots> \<le> card {..<w}"
    using a by (intro card_mono) (auto simp: in_window_def)
  finally show ?thesis by simp
qed

text \<open>Moving the base forward by one when nothing is at the base.\<close>

lemma in_window_step:
  assumes "in_window b w xs" and "\<forall>s \<in> set xs. seg_sn s \<noteq> b" and "w \<le> 4294967296"
  shows "in_window (b + 1) w xs"
proof -
  have *: "spos b (seg_sn s) = Suc (spos (b + 1) (seg_sn s))" if "s \<in> set xs" for s
  proof -
    have ne: "0 < spos b (seg_sn s)" using that assms(2) by (metis gr0I spos_eq_0_iff)
    moreover have "spos b (b + 1) = 1" using spos_succ [of b b] by simp
    ultimately show ?thesis using spos_rebase [of b "b + 1" "seg_sn s"] by simp
  qed
  have "sorted_wrt (<) (map (\<lambda>s. spos (b + 1) (seg_sn s)) xs)"
    using assms(1) * unfolding in_window_def sorted_wrt_map
    by (auto elim!: sorted_wrt_mono_rel [rotated])
  moreover have "\<forall>s \<in> set xs. spos (b + 1) (seg_sn s) < w"
    using assms(1) * by (force simp: in_window_def)
  ultimately show ?thesis by (simp add: in_window_def)
qed

text \<open>Moving the base forward to a point that no element is below.\<close>

lemma in_window_rebase:
  assumes "in_window b w xs" and "\<forall>s \<in> set xs. spos b c \<le> spos b (seg_sn s)"
  shows "in_window c (w - spos b c) xs"
  using assms
proof (induction xs)
  case (Cons x xs)
  have r: "spos c (seg_sn s) = spos b (seg_sn s) - spos b c" if "s \<in> set (x # xs)" for s
    using that Cons.prems(2) by (intro spos_rebase) auto
  show ?case
    using Cons r by (force simp: in_window_Cons)
qed simp

lemma in_window_sublist: "in_window b w (xs @ ys @ zs) \<Longrightarrow> in_window b w (xs @ zs)"
  by (auto simp: in_window_append)

lemma in_window_drop: "in_window b w xs \<Longrightarrow> in_window b w (drop n xs)"
  by (metis append_take_drop_id in_window_append)

lemma in_window_filter: "in_window b w xs \<Longrightarrow> in_window b w (filter P xs)"
  by (induction xs) (auto simp: in_window_Cons)

text \<open>Only the sequence numbers matter.\<close>

lemma in_window_map:
  "in_window b w xs \<longleftrightarrow>
     sorted_wrt (<) (map (spos b) (map seg_sn xs)) \<and> (\<forall>n \<in> set (map seg_sn xs). spos b n < w)"
  by (auto simp: in_window_def comp_def)

lemma in_window_cong: "map seg_sn xs = map seg_sn ys \<Longrightarrow> in_window b w xs = in_window b w ys"
  by (simp only: in_window_map)

end
