(* ===== verification/Kcp_Recv.thy ===== *)
theory Kcp_Recv
  imports Kcp_Window
begin

text \<open>
  The receive path of KCP: \<open>ikcp_parse_data\<close> puts an incoming data segment in its place in
  \<open>rcv_buf\<close> and moves what has become contiguous to \<open>rcv_queue\<close>; \<open>ikcp_peeksize\<close> and
  \<open>ikcp_recv\<close> hand whole messages to the application.
\<close>

unbundle bit_operations_syntax

section \<open>Moving contiguous segments from rcv_buf to rcv_queue\<close>

fun move_rcv_loop :: "IKCPSEG list \<Rightarrow> IKCPCB \<Rightarrow> IKCPCB" where
  "move_rcv_loop [] kcp = kcp"
| "move_rcv_loop (seg # rest) kcp =
     (if seg_sn seg = kcp_rcv_nxt kcp \<and> kcp_nrcv_que kcp < kcp_rcv_wnd kcp
      then move_rcv_loop rest
             (kcp\<lparr>kcp_rcv_buf := rest, kcp_nrcv_buf := kcp_nrcv_buf kcp - 1,
                  kcp_rcv_queue := kcp_rcv_queue kcp @ [seg], kcp_nrcv_que := kcp_nrcv_que kcp + 1,
                  kcp_rcv_nxt := kcp_rcv_nxt kcp + 1\<rparr>)
      else kcp)"

definition move_rcv :: "IKCPCB \<Rightarrow> IKCPCB" where
  "move_rcv kcp = move_rcv_loop (kcp_rcv_buf kcp) kcp"

section \<open>Insertion of a data segment\<close>

text \<open>
  The loop from the back of \<open>rcv_buf\<close>: \<open>find_slot sn rs\<close>, with \<open>rs\<close> the queue from its end,
  gives whether \<open>sn\<close> is already there and the number of segments behind the place of insertion.
\<close>

fun find_slot :: "u32 \<Rightarrow> IKCPSEG list \<Rightarrow> bool \<times> nat" where
  "find_slot sn [] = (False, 0)"
| "find_slot sn (seg # rs) =
     (if seg_sn seg = sn then (True, 0)
      else if itimediff sn (seg_sn seg) > 0 then (False, 0)
      else let (repeat, n) = find_slot sn rs in (repeat, Suc n))"

definition ikcp_parse_data :: "IKCPSEG \<Rightarrow> IKCPCB \<Rightarrow> IKCPCB" where
  "ikcp_parse_data newseg kcp =
     (let sn = seg_sn newseg in
      if itimediff sn (kcp_rcv_nxt kcp + kcp_rcv_wnd kcp) \<ge> 0 \<or> itimediff sn (kcp_rcv_nxt kcp) < 0
      then kcp
      else let (repeat, n) = find_slot sn (rev (kcp_rcv_buf kcp));
               k = length (kcp_rcv_buf kcp) - n;
               kcp = (if \<not> repeat
                      then kcp\<lparr>kcp_rcv_buf := take k (kcp_rcv_buf kcp) @ newseg # drop k (kcp_rcv_buf kcp),
                               kcp_nrcv_buf := kcp_nrcv_buf kcp + 1\<rparr>
                      else kcp)
           in move_rcv kcp)"

section \<open>Handing messages to the application\<close>

fun peek_loop :: "IKCPSEG list \<Rightarrow> s32 \<Rightarrow> s32" where
  "peek_loop [] len = len"
| "peek_loop (seg # p) len =
     (if seg_frg seg = 0 then len + seg_len seg else peek_loop p (len + seg_len seg))"

definition ikcp_peeksize :: "IKCPCB \<Rightarrow> s32" where
  "ikcp_peeksize kcp =
     (case kcp_rcv_queue kcp of
        [] \<Rightarrow> -1
      | seg # _ \<Rightarrow>
          if seg_frg seg = 0 then seg_len seg
          else if kcp_nrcv_que kcp < seg_frg seg + 1 then -1
          else peek_loop (kcp_rcv_queue kcp) 0)"

text \<open>
  \<open>memcpy(buffer, seg->data, seg->len)\<close> into a buffer of the caller that has room for \<open>cap\<close> bytes
  and already holds \<open>out\<close>; without a buffer nothing is copied.
\<close>

definition recv_copy :: "nat option \<Rightarrow> u8 list \<Rightarrow> IKCPSEG \<Rightarrow> u8 list result" where
  "recv_copy buffer out seg =
     (case buffer of
        None \<Rightarrow> Inr out
      | Some cap \<Rightarrow>
          bind_result (read_bytes (unat (seg_len seg)) (seg_data seg)) (\<lambda>bs.
            if length out + length bs \<le> cap then Inr (out @ bs) else Inl Write_out_of_bounds))"

fun recv_merge :: "bool \<Rightarrow> nat option \<Rightarrow> IKCPSEG list \<Rightarrow> s32 \<Rightarrow> u8 list \<Rightarrow> IKCPCB \<Rightarrow>
    (s32 \<times> u8 list \<times> IKCPCB) result" where
  "recv_merge ispeek buffer [] len out kcp = Inr (len, out, kcp)"
| "recv_merge ispeek buffer (seg # p) len out kcp =
     bind_result (recv_copy buffer out seg) (\<lambda>out.
       let len = len + seg_len seg;
           kcp = (if \<not> ispeek
                  then kcp\<lparr>kcp_rcv_queue := p, kcp_nrcv_que := kcp_nrcv_que kcp - 1\<rparr> else kcp)
       in if seg_frg seg = 0 then Inr (len, out, kcp)
          else recv_merge ispeek buffer p len out kcp)"

text \<open>\<open>ikcp_recv\<close>: the return value, the bytes stored in the buffer, and the new state. A buffer is
  \<open>Some cap\<close>, with the number of bytes the caller's array really has.\<close>

definition ikcp_recv :: "nat option \<Rightarrow> s32 \<Rightarrow> IKCPCB \<Rightarrow> (s32 \<times> u8 list \<times> IKCPCB) result" where
  "ikcp_recv buffer len kcp =
     (let ispeek = (sint len < 0) in
      if kcp_rcv_queue kcp = [] then Inr (-1, [], kcp)
      else let len = (if sint len < 0 then - len else len);
               peeksize = ikcp_peeksize kcp in
      if sint peeksize < 0 then Inr (-2, [], kcp)
      else if sint peeksize > sint len then Inr (-3, [], kcp)
      else let recover = (kcp_nrcv_que kcp \<ge> kcp_rcv_wnd kcp) in
      bind_result (recv_merge ispeek buffer (kcp_rcv_queue kcp) 0 [] kcp) (\<lambda>(len, out, kcp).
      bind_result (guard_result Assert_failed (len = peeksize)) (\<lambda>_.
        let kcp = move_rcv kcp;
            kcp = (if kcp_nrcv_que kcp < kcp_rcv_wnd kcp \<and> recover
                   then kcp\<lparr>kcp_probe := kcp_probe kcp OR IKCP_ASK_TELL\<rparr> else kcp)
        in Inr (len, out, kcp))))"

section \<open>The receive-side invariant\<close>

text \<open>\<open>w\<close> bounds every receive window the application has configured so far.\<close>

definition rcv_inv :: "nat \<Rightarrow> IKCPCB \<Rightarrow> bool" where
  "rcv_inv w kcp \<longleftrightarrow>
     kcp_nrcv_buf kcp = of_nat (length (kcp_rcv_buf kcp)) \<and>
     kcp_nrcv_que kcp = of_nat (length (kcp_rcv_queue kcp)) \<and>
     unat (kcp_rcv_wnd kcp) \<le> w \<and> w < 2147483648 \<and>
     length (kcp_rcv_queue kcp) \<le> w \<and>
     in_window (kcp_rcv_nxt kcp) w (kcp_rcv_buf kcp) \<and>
     contig (kcp_rcv_nxt kcp) (kcp_rcv_queue kcp) \<and>
     (\<forall>s \<in> set (kcp_rcv_buf kcp) \<union> set (kcp_rcv_queue kcp). seg_ok 2147483647 s)"

section \<open>Lemmas\<close>

subsection \<open>The place of insertion\<close>

lemma find_slot_spec:
  assumes "in_window b w xs" and "w \<le> 2147483648" and "spos b sn < 2147483648"
    and "find_slot sn (rev xs) = (repeat, n)"
  shows "n \<le> length xs \<and> (repeat \<longleftrightarrow> sn \<in> seg_sn ` set xs) \<and>
    (\<forall>s \<in> set (drop (length xs - n) xs). spos b sn < spos b (seg_sn s)) \<and>
    (\<not> repeat \<longrightarrow> (\<forall>s \<in> set (take (length xs - n) xs). spos b (seg_sn s) < spos b sn))"
  using assms(1,4)
proof (induction xs arbitrary: repeat n rule: rev_induct)
  case Nil
  then show ?case by simp
next
  case (snoc x xs)
  have win: "in_window b w xs" "spos b (seg_sn x) < w"
    and below: "\<forall>s \<in> set xs. spos b (seg_sn s) < spos b (seg_sn x)"
    using snoc.prems(1) by (auto simp: in_window_append in_window_Cons)
  have td: "itimediff sn (seg_sn x) = int (spos b sn) - int (spos b (seg_sn x))"
    using win(2) assms(2,3) by (intro itimediff_spos) auto
  consider "seg_sn x = sn" | "seg_sn x \<noteq> sn" "0 < itimediff sn (seg_sn x)"
    | "seg_sn x \<noteq> sn" "\<not> 0 < itimediff sn (seg_sn x)" by blast
  then show ?case
  proof cases
    case 1
    with snoc.prems(2) show ?thesis by auto
  next
    case 2
    with td have "spos b (seg_sn x) < spos b sn" by simp
    with 2 snoc.prems(2) below show ?thesis by auto
  next
    case 3
    have "spos b sn \<noteq> spos b (seg_sn x)" using 3(1) by simp
    then have gt: "spos b sn < spos b (seg_sn x)" using 3(2) td by linarith
    obtain m where m: "find_slot sn (rev xs) = (repeat, m)" "n = Suc m"
      using 3 snoc.prems(2) by (auto split: prod.splits)
    with snoc.IH [OF win(1) m(1)] gt 3(1) show ?thesis by auto
  qed
qed

subsection \<open>Moving contiguous segments\<close>

text \<open>What the loop does: a prefix of \<open>rcv_buf\<close> goes to the end of \<open>rcv_queue\<close> and \<open>rcv_nxt\<close> advances
  by its length; nothing else changes.\<close>

lemma move_rcv_loop_shape:
  assumes "kcp_rcv_buf kcp = xs"
  shows "\<exists>n \<le> length xs. move_rcv_loop xs kcp =
    kcp\<lparr>kcp_rcv_buf := drop n xs, kcp_nrcv_buf := kcp_nrcv_buf kcp - of_nat n,
        kcp_rcv_queue := kcp_rcv_queue kcp @ take n xs, kcp_nrcv_que := kcp_nrcv_que kcp + of_nat n,
        kcp_rcv_nxt := kcp_rcv_nxt kcp + of_nat n\<rparr>"
  using assms
proof (induction xs arbitrary: kcp)
  case Nil
  then show ?case by simp
next
  case (Cons x xs)
  show ?case
  proof (cases "seg_sn x = kcp_rcv_nxt kcp \<and> kcp_nrcv_que kcp < kcp_rcv_wnd kcp")
    case True
    let ?k = "kcp\<lparr>kcp_rcv_buf := xs, kcp_nrcv_buf := kcp_nrcv_buf kcp - 1,
      kcp_rcv_queue := kcp_rcv_queue kcp @ [x], kcp_nrcv_que := kcp_nrcv_que kcp + 1,
      kcp_rcv_nxt := kcp_rcv_nxt kcp + 1\<rparr>"
    obtain n where "n \<le> length xs" and "move_rcv_loop xs ?k =
        ?k\<lparr>kcp_rcv_buf := drop n xs, kcp_nrcv_buf := kcp_nrcv_buf ?k - of_nat n,
           kcp_rcv_queue := kcp_rcv_queue ?k @ take n xs, kcp_nrcv_que := kcp_nrcv_que ?k + of_nat n,
           kcp_rcv_nxt := kcp_rcv_nxt ?k + of_nat n\<rparr>"
      using Cons.IH [of ?k] by auto
    with True show ?thesis
      by (intro exI [of _ "Suc n"]) (simp add: algebra_simps)
  next
    case False
    with Cons.prems show ?thesis by (intro exI [of _ 0]) auto
  qed
qed

lemma move_one_rcv_inv:
  assumes inv: "rcv_inv w kcp" and buf: "kcp_rcv_buf kcp = x # xs"
    and x: "seg_sn x = kcp_rcv_nxt kcp" and room: "kcp_nrcv_que kcp < kcp_rcv_wnd kcp"
  shows "rcv_inv w (kcp\<lparr>kcp_rcv_buf := xs, kcp_nrcv_buf := kcp_nrcv_buf kcp - 1,
    kcp_rcv_queue := kcp_rcv_queue kcp @ [x], kcp_nrcv_que := kcp_nrcv_que kcp + 1,
    kcp_rcv_nxt := kcp_rcv_nxt kcp + 1\<rparr>)"
proof -
  have wb: "w < 2147483648" using inv by (simp add: rcv_inv_def)
  have win: "in_window (kcp_rcv_nxt kcp) w xs"
    and ne: "\<forall>s \<in> set xs. seg_sn s \<noteq> kcp_rcv_nxt kcp"
    using inv buf x by (auto simp: rcv_inv_def in_window_Cons)
  have "in_window (kcp_rcv_nxt kcp + 1) w xs"
    using win ne wb by (intro in_window_step) auto
  moreover have "length (kcp_rcv_queue kcp) < w"
    using inv room by (auto simp: rcv_inv_def word_less_nat_alt unat_of_nat)
  ultimately show ?thesis
    using inv buf x by (auto simp: rcv_inv_def intro: contig_snoc)
qed

lemma move_rcv_loop_inv:
  "rcv_inv w kcp \<Longrightarrow> kcp_rcv_buf kcp = xs \<Longrightarrow> rcv_inv w (move_rcv_loop xs kcp)"
proof (induction xs arbitrary: kcp)
  case (Cons x xs)
  then show ?case using move_one_rcv_inv [OF Cons.prems] by simp
qed simp

lemma move_rcv_inv: "rcv_inv w kcp \<Longrightarrow> rcv_inv w (move_rcv kcp)"
  by (simp add: move_rcv_def move_rcv_loop_inv)

lemma move_rcv_shape:
  obtains n where "n \<le> length (kcp_rcv_buf kcp)"
    and "move_rcv kcp =
      kcp\<lparr>kcp_rcv_buf := drop n (kcp_rcv_buf kcp), kcp_nrcv_buf := kcp_nrcv_buf kcp - of_nat n,
          kcp_rcv_queue := kcp_rcv_queue kcp @ take n (kcp_rcv_buf kcp),
          kcp_nrcv_que := kcp_nrcv_que kcp + of_nat n,
          kcp_rcv_nxt := kcp_rcv_nxt kcp + of_nat n\<rparr>"
  using move_rcv_loop_shape [of kcp, OF refl] unfolding move_rcv_def by blast

lemma move_rcv_content:
  "kcp_rcv_queue (move_rcv kcp) @ kcp_rcv_buf (move_rcv kcp) = kcp_rcv_queue kcp @ kcp_rcv_buf kcp"
  by (rule move_rcv_shape [of kcp]) simp

text \<open>The loop stops only for a hole at \<open>rcv_nxt\<close> or a full queue.\<close>

definition rcv_settled :: "IKCPCB \<Rightarrow> bool" where
  "rcv_settled kcp \<longleftrightarrow>
     (case kcp_rcv_buf kcp of [] \<Rightarrow> True
      | s # _ \<Rightarrow> seg_sn s \<noteq> kcp_rcv_nxt kcp \<or> kcp_rcv_wnd kcp \<le> kcp_nrcv_que kcp)"

lemma move_rcv_loop_settled: "kcp_rcv_buf kcp = xs \<Longrightarrow> rcv_settled (move_rcv_loop xs kcp)"
proof (induction xs arbitrary: kcp)
  case (Cons x xs)
  then show ?case by (auto simp: rcv_settled_def not_less)
qed (simp add: rcv_settled_def)

lemma move_rcv_settled: "rcv_settled (move_rcv kcp)"
  by (simp add: move_rcv_def move_rcv_loop_settled)

subsection \<open>Inserting a data segment\<close>

text \<open>The window test, in positions from \<open>rcv_nxt\<close>.\<close>

definition rcv_accepts :: "IKCPCB \<Rightarrow> u32 \<Rightarrow> bool" where
  "rcv_accepts kcp sn \<longleftrightarrow>
     spos (kcp_rcv_nxt kcp) sn < unat (kcp_rcv_wnd kcp) \<and> sn \<notin> seg_sn ` set (kcp_rcv_buf kcp)"

lemma window_test:
  assumes "unat (kcp_rcv_wnd kcp) < 2147483648"
  shows "(itimediff sn (kcp_rcv_nxt kcp + kcp_rcv_wnd kcp) \<ge> 0 \<or> itimediff sn (kcp_rcv_nxt kcp) < 0)
    \<longleftrightarrow> unat (kcp_rcv_wnd kcp) \<le> spos (kcp_rcv_nxt kcp) sn"
proof (cases "spos (kcp_rcv_nxt kcp) sn < 2147483648")
  case True
  have "spos (kcp_rcv_nxt kcp) (kcp_rcv_nxt kcp + kcp_rcv_wnd kcp) = unat (kcp_rcv_wnd kcp)"
    by (simp add: spos_def)
  with True assms have
    "itimediff sn (kcp_rcv_nxt kcp + kcp_rcv_wnd kcp) =
      int (spos (kcp_rcv_nxt kcp) sn) - int (unat (kcp_rcv_wnd kcp))"
    by (metis itimediff_spos)
  then have "0 \<le> itimediff sn (kcp_rcv_nxt kcp + kcp_rcv_wnd kcp) \<longleftrightarrow>
      unat (kcp_rcv_wnd kcp) \<le> spos (kcp_rcv_nxt kcp) sn"
    by linarith
  with True show ?thesis
    using itimediff_neg [of sn "kcp_rcv_nxt kcp"] by simp
next
  case False
  then show ?thesis using assms itimediff_neg [of sn "kcp_rcv_nxt kcp"] by auto
qed

definition insert_seg :: "nat \<Rightarrow> IKCPSEG \<Rightarrow> IKCPCB \<Rightarrow> IKCPCB" where
  "insert_seg k s kcp =
     kcp\<lparr>kcp_rcv_buf := take k (kcp_rcv_buf kcp) @ s # drop k (kcp_rcv_buf kcp),
         kcp_nrcv_buf := kcp_nrcv_buf kcp + 1\<rparr>"

lemma insert_seg_inv:
  assumes "rcv_inv w kcp" and "seg_ok 2147483647 s"
    and "spos (kcp_rcv_nxt kcp) (seg_sn s) < w"
    and "\<forall>t \<in> set (take k (kcp_rcv_buf kcp)). spos (kcp_rcv_nxt kcp) (seg_sn t) < spos (kcp_rcv_nxt kcp) (seg_sn s)"
    and "\<forall>t \<in> set (drop k (kcp_rcv_buf kcp)). spos (kcp_rcv_nxt kcp) (seg_sn s) < spos (kcp_rcv_nxt kcp) (seg_sn t)"
    and "k \<le> length (kcp_rcv_buf kcp)"
  shows "rcv_inv w (insert_seg k s kcp)"
proof -
  let ?b = "kcp_rcv_buf kcp"
  have win: "in_window (kcp_rcv_nxt kcp) w (take k ?b @ drop k ?b)"
    using assms(1) by (simp add: rcv_inv_def)
  have "in_window (kcp_rcv_nxt kcp) w (take k ?b @ s # drop k ?b)"
    using win assms(3-5)
    unfolding in_window_append in_window_Cons by auto
  moreover have "set (take k ?b @ s # drop k ?b) = insert s (set ?b)"
    by (metis append_take_drop_id list.simps(15) set_append Un_insert_right)
  moreover have "of_nat (length (take k ?b @ s # drop k ?b)) = (of_nat (length ?b) + 1 :: u32)"
    using assms(6) by simp
  ultimately show ?thesis
    using assms(1,2) by (auto simp: rcv_inv_def insert_seg_def)
qed

text \<open>The three outcomes of \<open>ikcp_parse_data\<close>: outside the window, a repetition, and an insertion
  that keeps the order.\<close>

lemma parse_data_cases:
  assumes inv: "rcv_inv w kcp"
  obtains (outside) "unat (kcp_rcv_wnd kcp) \<le> spos (kcp_rcv_nxt kcp) (seg_sn s)"
      and "ikcp_parse_data s kcp = kcp"
  | (repeated) "seg_sn s \<in> seg_sn ` set (kcp_rcv_buf kcp)" and "ikcp_parse_data s kcp = move_rcv kcp"
  | (inserted) k where "rcv_accepts kcp (seg_sn s)" and "k \<le> length (kcp_rcv_buf kcp)"
      and "ikcp_parse_data s kcp = move_rcv (insert_seg k s kcp)"
      and "\<forall>t \<in> set (take k (kcp_rcv_buf kcp)). spos (kcp_rcv_nxt kcp) (seg_sn t) < spos (kcp_rcv_nxt kcp) (seg_sn s)"
      and "\<forall>t \<in> set (drop k (kcp_rcv_buf kcp)). spos (kcp_rcv_nxt kcp) (seg_sn s) < spos (kcp_rcv_nxt kcp) (seg_sn t)"
proof -
  have wnd: "unat (kcp_rcv_wnd kcp) \<le> w" "w < 2147483648"
    and win: "in_window (kcp_rcv_nxt kcp) w (kcp_rcv_buf kcp)"
    using inv by (auto simp: rcv_inv_def)
  have wlt: "unat (kcp_rcv_wnd kcp) < 2147483648" using wnd by simp
  note test = window_test [OF wlt, of "seg_sn s"]
  show thesis
  proof (cases "unat (kcp_rcv_wnd kcp) \<le> spos (kcp_rcv_nxt kcp) (seg_sn s)")
    case True
    then show ?thesis using outside test by (simp add: ikcp_parse_data_def)
  next
    case False
    obtain r n where f: "find_slot (seg_sn s) (rev (kcp_rcv_buf kcp)) = (r, n)" by fastforce
    have p: "spos (kcp_rcv_nxt kcp) (seg_sn s) < 2147483648" using False wlt by simp
    note slot = find_slot_spec [OF win less_imp_le [OF wnd(2)] p f]
    have eq: "ikcp_parse_data s kcp =
        move_rcv (if \<not> r then insert_seg (length (kcp_rcv_buf kcp) - n) s kcp else kcp)"
      using False test f by (auto simp: ikcp_parse_data_def insert_seg_def Let_def)
    show ?thesis
    proof (cases r)
      case True
      then show ?thesis using repeated slot eq by simp
    next
      case r: False
      then show ?thesis
        using inserted [of "length (kcp_rcv_buf kcp) - n"] slot eq False by (simp add: rcv_accepts_def)
    qed
  qed
qed

lemma parse_data_inv:
  assumes "rcv_inv w kcp" and "seg_ok 2147483647 s"
  shows "rcv_inv w (ikcp_parse_data s kcp)"
  using assms(1)
proof (cases rule: parse_data_cases [where s = s])
  case (inserted k)
  have "spos (kcp_rcv_nxt kcp) (seg_sn s) < w"
    using inserted(1) assms(1) by (auto simp: rcv_accepts_def rcv_inv_def)
  then show ?thesis
    using inserted assms by (simp add: move_rcv_inv insert_seg_inv)
qed (use assms in \<open>auto simp: move_rcv_inv\<close>)

lemma parse_data_content:
  assumes "rcv_inv w kcp"
  shows "set (kcp_rcv_queue (ikcp_parse_data s kcp) @ kcp_rcv_buf (ikcp_parse_data s kcp)) =
    (if rcv_accepts kcp (seg_sn s) then {s} else {}) \<union> set (kcp_rcv_queue kcp @ kcp_rcv_buf kcp)"
  using assms
proof (cases rule: parse_data_cases [where s = s])
  case (inserted k)
  have "set (take k (kcp_rcv_buf kcp)) \<union> set (drop k (kcp_rcv_buf kcp)) = set (kcp_rcv_buf kcp)"
    by (metis append_take_drop_id set_append)
  then show ?thesis
    unfolding inserted(3) move_rcv_content using inserted(1) by (auto simp: insert_seg_def)
qed (auto simp only: move_rcv_content rcv_accepts_def not_less [symmetric] if_False simp_thms Un_empty_left)

subsection \<open>Handing over a message\<close>

text \<open>The segments the merge loop consumes: everything up to the first fragment number 0.\<close>

fun msg_count :: "IKCPSEG list \<Rightarrow> nat" where
  "msg_count [] = 0"
| "msg_count (s # q) = (if seg_frg s = 0 then 1 else Suc (msg_count q))"

definition msg_bytes :: "IKCPSEG list \<Rightarrow> u8 list" where
  "msg_bytes q = concat (map seg_data (take (msg_count q) q))"

definition queue_bytes :: "IKCPSEG list \<Rightarrow> nat" where
  "queue_bytes q = length (concat (map seg_data q))"

lemma msg_count_le: "msg_count q \<le> length q"
  by (induction q) auto

lemma msg_bytes_simps [simp]:
  "msg_bytes [] = []"
  "msg_bytes (s # q) = seg_data s @ (if seg_frg s = 0 then [] else msg_bytes q)"
  by (simp_all add: msg_bytes_def)

lemma msg_bytes_le: "length (msg_bytes q) \<le> queue_bytes q"
  by (induction q) (auto simp: queue_bytes_def)

lemma peek_loop_bytes:
  "\<forall>s \<in> set q. seg_ok B s \<Longrightarrow> peek_loop q len = len + of_nat (length (msg_bytes q))"
  by (induction q arbitrary: len) (auto simp: seg_ok_def add.assoc)

lemma peeksize_cases: "ikcp_peeksize kcp = -1 \<or> ikcp_peeksize kcp = peek_loop (kcp_rcv_queue kcp) 0"
  by (auto simp: ikcp_peeksize_def split: list.split)

text \<open>The length the merge loop counts is the one \<open>ikcp_peeksize\<close> computed.\<close>

lemma recv_merge_len:
  "recv_merge ispeek buffer q len out kcp = Inr (len', out', kcp') \<Longrightarrow> len' = peek_loop q len"
proof (induction q arbitrary: len out kcp)
  case (Cons s q)
  then show ?case by (auto simp: Let_def split: if_splits)
qed simp

text \<open>The state after the merge loop.\<close>

definition drop_msg :: "bool \<Rightarrow> IKCPCB \<Rightarrow> IKCPCB" where
  "drop_msg ispeek kcp =
     (if ispeek then kcp
      else let n = msg_count (kcp_rcv_queue kcp) in
           kcp\<lparr>kcp_rcv_queue := drop n (kcp_rcv_queue kcp), kcp_nrcv_que := kcp_nrcv_que kcp - of_nat n\<rparr>)"

lemma recv_merge_ok:
  assumes "\<forall>s \<in> set q. seg_ok 2147483647 s" and "length out + length (msg_bytes q) \<le> cap"
    and "\<not> ispeek \<Longrightarrow> kcp_rcv_queue kcp = q"
  shows "recv_merge ispeek (Some cap) q len out kcp =
    Inr (peek_loop q len, out @ msg_bytes q,
      (if ispeek then kcp
       else kcp\<lparr>kcp_rcv_queue := drop (msg_count q) q, kcp_nrcv_que := kcp_nrcv_que kcp - of_nat (msg_count q)\<rparr>))"
  using assms
proof (induction q arbitrary: len out kcp)
  case Nil
  then show ?case by simp
next
  case (Cons s q)
  have "length (seg_data s) \<le> 2147483647" and "seg_len s = of_nat (length (seg_data s))"
    using Cons.prems(1) by (auto simp: seg_ok_def)
  then have len: "unat (seg_len s) = length (seg_data s)" by (simp add: unat_of_nat)
  let ?k = "if \<not> ispeek then kcp\<lparr>kcp_rcv_queue := q, kcp_nrcv_que := kcp_nrcv_que kcp - 1\<rparr> else kcp"
  show ?case
  proof (cases "seg_frg s = 0")
    case True
    then show ?thesis using Cons.prems len by (simp add: recv_copy_def)
  next
    case False
    have "recv_merge ispeek (Some cap) q (len + seg_len s) (out @ seg_data s) ?k =
      Inr (peek_loop q (len + seg_len s), (out @ seg_data s) @ msg_bytes q,
      (if ispeek then ?k
       else ?k\<lparr>kcp_rcv_queue := drop (msg_count q) q, kcp_nrcv_que := kcp_nrcv_que ?k - of_nat (msg_count q)\<rparr>))"
      using Cons.prems False by (intro Cons.IH) auto
    then show ?thesis using Cons.prems len False by (simp add: recv_copy_def algebra_simps)
  qed
qed

lemma drop_msg_inv:
  assumes "rcv_inv w kcp"
  shows "rcv_inv w (drop_msg ispeek kcp)"
proof -
  let ?n = "msg_count (kcp_rcv_queue kcp)" and ?q = "kcp_rcv_queue kcp"
  have "of_nat (length ?q) - of_nat ?n = (of_nat (length ?q - ?n) :: u32)"
    using msg_count_le [of ?q] by (simp add: of_nat_diff)
  then show ?thesis
    using assms
    by (auto simp: rcv_inv_def drop_msg_def Let_def contig_drop dest: in_set_dropD)
qed

definition tell_window :: "bool \<Rightarrow> IKCPCB \<Rightarrow> IKCPCB" where
  "tell_window recover kcp =
     (if kcp_nrcv_que kcp < kcp_rcv_wnd kcp \<and> recover
      then kcp\<lparr>kcp_probe := kcp_probe kcp OR IKCP_ASK_TELL\<rparr> else kcp)"

lemma tell_window_inv [simp]: "rcv_inv w (tell_window b kcp) = rcv_inv w kcp"
  by (simp add: tell_window_def rcv_inv_def)

lemma tell_window_queues [simp]:
  "kcp_rcv_queue (tell_window b kcp) = kcp_rcv_queue kcp"
  "kcp_rcv_buf (tell_window b kcp) = kcp_rcv_buf kcp"
  "rcv_settled (tell_window b kcp) = rcv_settled kcp"
  by (simp_all add: tell_window_def rcv_settled_def split: list.split)

lemma ikcp_recv_ok:
  assumes inv: "rcv_inv w kcp" and ne: "kcp_rcv_queue kcp \<noteq> []"
    and sz: "0 \<le> sint (ikcp_peeksize kcp)" "sint (ikcp_peeksize kcp) \<le> \<bar>sint len\<bar>"
    and len: "len \<noteq> 2147483648" "\<bar>sint len\<bar> \<le> int cap"
    and mem: "queue_bytes (kcp_rcv_queue kcp) < 4294967296"
  shows "ikcp_recv (Some cap) len kcp =
    Inr (of_nat (length (msg_bytes (kcp_rcv_queue kcp))), msg_bytes (kcp_rcv_queue kcp),
      tell_window (kcp_nrcv_que kcp \<ge> kcp_rcv_wnd kcp) (move_rcv (drop_msg (sint len < 0) kcp)))"
proof -
  let ?q = "kcp_rcv_queue kcp"
  have ok: "\<forall>s \<in> set ?q. seg_ok 2147483647 s" using inv by (simp add: rcv_inv_def)
  have pk: "ikcp_peeksize kcp = peek_loop ?q 0"
    using peeksize_cases [of kcp] sz(1) by auto
  then have pkb: "ikcp_peeksize kcp = of_nat (length (msg_bytes ?q))"
    using peek_loop_bytes [OF ok, of 0] by simp
  have ub: "length (msg_bytes ?q) < 4294967296" using msg_bytes_le [of ?q] mem by simp
  then have "unat (ikcp_peeksize kcp) = length (msg_bytes ?q)" using pkb by (simp add: unat_of_nat)
  then have szn: "sint (ikcp_peeksize kcp) = int (length (msg_bytes ?q))"
    using sz(1) by (metis sint_32_nonneg_iff sint_32_small)
  have abs: "sint (if sint len < 0 then - len else len) = \<bar>sint len\<bar>"
    using len(1) by (simp add: sint_32_uminus)
  have cap: "length (msg_bytes ?q) \<le> cap" using szn sz(2) len(2) by linarith
  have "recv_merge (sint len < 0) (Some cap) ?q 0 [] kcp =
      Inr (peek_loop ?q 0, msg_bytes ?q, drop_msg (sint len < 0) kcp)"
    using recv_merge_ok [OF ok, of "[]" cap "sint len < 0" kcp 0] cap
    by (simp add: drop_msg_def Let_def)
  then show ?thesis
    using ne sz abs pk pkb
    by (simp add: ikcp_recv_def Let_def tell_window_def not_less)
qed

text \<open>The three refusals leave the state alone: an empty queue, an incomplete message, and a length
  that is too short for it. The length -2147483648 has no absolute value.\<close>

lemma ikcp_recv_refused:
  "kcp_rcv_queue kcp = [] \<Longrightarrow> ikcp_recv buffer len kcp = Inr (-1, [], kcp)"
  "kcp_rcv_queue kcp \<noteq> [] \<Longrightarrow> sint (ikcp_peeksize kcp) < 0 \<Longrightarrow> ikcp_recv buffer len kcp = Inr (-2, [], kcp)"
  "kcp_rcv_queue kcp \<noteq> [] \<Longrightarrow> 0 \<le> sint (ikcp_peeksize kcp) \<Longrightarrow>
     \<bar>sint len\<bar> < sint (ikcp_peeksize kcp) \<or> len = 2147483648 \<Longrightarrow>
     ikcp_recv buffer len kcp = Inr (-3, [], kcp)"
proof -
  assume ne: "kcp_rcv_queue kcp \<noteq> []" and pk: "0 \<le> sint (ikcp_peeksize kcp)"
    and small: "\<bar>sint len\<bar> < sint (ikcp_peeksize kcp) \<or> len = 2147483648"
  have "sint (if sint len < 0 then - len else len) < sint (ikcp_peeksize kcp)"
  proof (cases "len = 2147483648")
    case True
    then have "sint (if sint len < 0 then - len else len) = -2147483648" by simp
    then show ?thesis using pk by linarith
  next
    case False
    then show ?thesis
      using small sint_32_uminus [OF False] by (cases "sint len < 0") auto
  qed
  then show "ikcp_recv buffer len kcp = Inr (-3, [], kcp)"
    using ne pk by (simp add: ikcp_recv_def Let_def)
qed (simp_all add: ikcp_recv_def Let_def)

section \<open>Properties\<close>

text \<open>The two fragments of a message, arriving in the wrong order.\<close>

definition demo_rcv :: IKCPCB where
  "demo_rcv = ikcp_parse_data (demo_seg 0 1 [1, 2]) (ikcp_parse_data (demo_seg 1 0 [3]) demo_kcp)"

lemma demo_rcv_inv: "rcv_inv 128 demo_kcp" "rcv_inv 128 demo_rcv"
proof -
  show i: "rcv_inv 128 demo_kcp"
    by (simp add: demo_simps rcv_inv_def)
  show "rcv_inv 128 demo_rcv"
    unfolding demo_rcv_def by (intro parse_data_inv i) (simp_all add: seg_ok_def demo_seg_def)
qed

lemma demo_rcv_queue: "kcp_rcv_queue demo_rcv = [demo_seg 0 1 [1, 2], demo_seg 1 0 [3]]"
  by code_simp

text \<open>
  C14. A data segment is kept exactly when its number lies in the receive window and is not in the
  buffer already: repeated and out-of-window segments change nothing of what is stored, and
  nothing stored is lost. The receive queue stays a gap-free run of numbers ending at \<open>rcv_nxt\<close>,
  the buffer stays sorted and inside the window, and the counters stay those of the two lists.
\<close>

theorem parse_data_keeps_window:
  assumes "rcv_inv w kcp" and "seg_ok 2147483647 s"
  shows "rcv_inv w (ikcp_parse_data s kcp) \<and>
    set (kcp_rcv_queue (ikcp_parse_data s kcp) @ kcp_rcv_buf (ikcp_parse_data s kcp)) =
      (if rcv_accepts kcp (seg_sn s) then {s} else {}) \<union> set (kcp_rcv_queue kcp @ kcp_rcv_buf kcp)"
  using parse_data_inv [OF assms] parse_data_content [OF assms(1)] by blast

theorem parse_data_keeps_window_witness:
  "rcv_inv 128 (ikcp_parse_data (demo_seg 5 0 [9]) demo_rcv) \<and> rcv_accepts demo_rcv 5 \<and>
   set (kcp_rcv_queue (ikcp_parse_data (demo_seg 5 0 [9]) demo_rcv) @
        kcp_rcv_buf (ikcp_parse_data (demo_seg 5 0 [9]) demo_rcv)) =
     {demo_seg 5 0 [9]} \<union> set (kcp_rcv_queue demo_rcv @ kcp_rcv_buf demo_rcv)"
proof -
  have s: "seg_ok 2147483647 (demo_seg 5 0 [9])" "seg_sn (demo_seg 5 0 [9]) = 5" by (simp_all add: seg_ok_def demo_seg_def)
  have a: "rcv_accepts demo_rcv 5" by code_simp
  from parse_data_keeps_window [OF demo_rcv_inv(2) s(1)] show ?thesis unfolding s(2) if_P [OF a] using a by blast
qed

text \<open>
  C15. When the first message in the receive queue is complete and fits the caller's buffer,
  \<open>ikcp_recv\<close> returns exactly its bytes and its length: the sizes agree, so the \<open>assert\<close> never
  fails, the buffer is not overrun, and (unless the length was negative, which only looks) its
  segments and no others leave the queue before newly contiguous ones are moved in.
\<close>

theorem recv_delivers_message:
  assumes "rcv_inv w kcp" and "kcp_rcv_queue kcp \<noteq> []"
    and "0 \<le> sint (ikcp_peeksize kcp)" and "sint (ikcp_peeksize kcp) \<le> \<bar>sint len\<bar>"
    and "len \<noteq> 2147483648" and "\<bar>sint len\<bar> \<le> int cap" and "queue_bytes (kcp_rcv_queue kcp) < 4294967296"
  shows "ikcp_recv (Some cap) len kcp =
    Inr (of_nat (length (msg_bytes (kcp_rcv_queue kcp))), msg_bytes (kcp_rcv_queue kcp),
      tell_window (kcp_nrcv_que kcp \<ge> kcp_rcv_wnd kcp) (move_rcv (drop_msg (sint len < 0) kcp)))"
  by (rule ikcp_recv_ok) (use assms in blast)+

theorem recv_delivers_message_witness:
  "ikcp_recv (Some 64) 64 demo_rcv =
     Inr (3, [1, 2, 3], tell_window (kcp_nrcv_que demo_rcv \<ge> kcp_rcv_wnd demo_rcv) (move_rcv (drop_msg False demo_rcv)))"
proof -
  have p: "ikcp_peeksize demo_rcv = 3" by code_simp
  have m: "msg_bytes (kcp_rcv_queue demo_rcv) = [1, 2, 3]" "queue_bytes (kcp_rcv_queue demo_rcv) = 3"
    by (simp_all add: demo_rcv_queue demo_seg_def queue_bytes_def)
  from recv_delivers_message [OF demo_rcv_inv(2), of 64 64] show ?thesis
    unfolding m p by (simp add: demo_rcv_queue m)
qed

text \<open>\<open>ikcp_recv\<close> refuses without touching the control block: -1 on an empty queue, -2 while the
  first message is incomplete, -3 when the message is larger than the buffer (also for the
  length \<open>INT_MIN\<close>, whose negation wraps around).
\<close>

theorem recv_refuses:
  "(kcp_rcv_queue kcp = [] \<longrightarrow> ikcp_recv buffer len kcp = Inr (-1, [], kcp)) \<and>
   (kcp_rcv_queue kcp \<noteq> [] \<and> sint (ikcp_peeksize kcp) < 0 \<longrightarrow> ikcp_recv buffer len kcp = Inr (-2, [], kcp)) \<and>
   (kcp_rcv_queue kcp \<noteq> [] \<and> 0 \<le> sint (ikcp_peeksize kcp) \<and>
      (\<bar>sint len\<bar> < sint (ikcp_peeksize kcp) \<or> len = 2147483648) \<longrightarrow> ikcp_recv buffer len kcp = Inr (-3, [], kcp))"
  using ikcp_recv_refused by blast

theorem recv_refuses_witness:
  "ikcp_recv (Some 64) 64 demo_kcp = Inr (-1, [], demo_kcp) \<and> ikcp_recv (Some 2) 2 demo_rcv = Inr (-3, [], demo_rcv)"
proof -
  have "ikcp_peeksize demo_rcv = 3" "kcp_rcv_queue demo_kcp = []" by code_simp+
  then show ?thesis
    using recv_refuses [of demo_kcp "Some 64" 64] recv_refuses [of demo_rcv "Some 2" 2] by (simp add: demo_rcv_queue)
qed

end
