(* ===== verification/Kcp_Ack.thy ===== *)
theory Kcp_Ack
  imports Kcp_Window
begin

text \<open>
  Acknowledgements in both directions: what an incoming \<open>ACK\<close> or cumulative \<open>una\<close> does to the
  send buffer and to the round-trip estimate (\<open>ikcp_update_ack\<close>, \<open>ikcp_parse_ack\<close>,
  \<open>ikcp_parse_una\<close>, \<open>ikcp_parse_fastack\<close>, \<open>ikcp_shrink_buf\<close>), and the array of acknowledgements
  still to be sent (\<open>ikcp_ack_push\<close>, \<open>ikcp_ack_get\<close>).
\<close>

section \<open>Operations\<close>

text \<open>C's division of signed integers, which truncates towards zero.\<close>

definition s32_div :: "s32 \<Rightarrow> s32 \<Rightarrow> s32" where
  "s32_div a b = word_of_int (sint a sdiv sint b)"

definition ikcp_update_ack :: "s32 \<Rightarrow> IKCPCB \<Rightarrow> IKCPCB" where
  "ikcp_update_ack rtt kcp =
     (let kcp =
        (if kcp_rx_srtt kcp = 0 then kcp\<lparr>kcp_rx_srtt := rtt, kcp_rx_rttval := s32_div rtt 2\<rparr>
         else let delta = rtt - kcp_rx_srtt kcp;
                  delta = (if sint delta < 0 then - delta else delta);
                  rttval = s32_div (3 * kcp_rx_rttval kcp + delta) 4;
                  srtt = s32_div (7 * kcp_rx_srtt kcp + rtt) 8;
                  srtt = (if sint srtt < 1 then 1 else srtt)
              in kcp\<lparr>kcp_rx_rttval := rttval, kcp_rx_srtt := srtt\<rparr>);
          rto = kcp_rx_srtt kcp + imax (kcp_interval kcp) (4 * kcp_rx_rttval kcp)
      in kcp\<lparr>kcp_rx_rto := ibound (kcp_rx_minrto kcp) rto IKCP_RTO_MAX\<rparr>)"

definition ikcp_shrink_buf :: "IKCPCB \<Rightarrow> IKCPCB" where
  "ikcp_shrink_buf kcp =
     kcp\<lparr>kcp_snd_una := (case kcp_snd_buf kcp of seg # _ \<Rightarrow> seg_sn seg | [] \<Rightarrow> kcp_snd_nxt kcp)\<rparr>"

text \<open>The loop of \<open>ikcp_parse_ack\<close>: the queue with the segment \<open>sn\<close> taken out, and whether it was
  there. It stops at the first segment behind \<open>sn\<close>.\<close>

fun parse_ack_loop :: "u32 \<Rightarrow> IKCPSEG list \<Rightarrow> IKCPSEG list \<times> bool" where
  "parse_ack_loop sn [] = ([], False)"
| "parse_ack_loop sn (seg # p) =
     (if sn = seg_sn seg then (p, True)
      else if itimediff sn (seg_sn seg) < 0 then (seg # p, False)
      else let (p', found) = parse_ack_loop sn p in (seg # p', found))"

definition ikcp_parse_ack :: "u32 \<Rightarrow> IKCPCB \<Rightarrow> IKCPCB" where
  "ikcp_parse_ack sn kcp =
     (if itimediff sn (kcp_snd_una kcp) < 0 \<or> itimediff sn (kcp_snd_nxt kcp) \<ge> 0 then kcp
      else let (p, found) = parse_ack_loop sn (kcp_snd_buf kcp) in
           kcp\<lparr>kcp_snd_buf := p, kcp_nsnd_buf := (if found then kcp_nsnd_buf kcp - 1 else kcp_nsnd_buf kcp)\<rparr>)"

fun parse_una_loop :: "u32 \<Rightarrow> IKCPSEG list \<Rightarrow> IKCPCB \<Rightarrow> IKCPCB" where
  "parse_una_loop una [] kcp = kcp"
| "parse_una_loop una (seg # p) kcp =
     (if itimediff una (seg_sn seg) > 0
      then parse_una_loop una p (kcp\<lparr>kcp_snd_buf := p, kcp_nsnd_buf := kcp_nsnd_buf kcp - 1\<rparr>)
      else kcp)"

definition ikcp_parse_una :: "u32 \<Rightarrow> IKCPCB \<Rightarrow> IKCPCB" where
  "ikcp_parse_una una kcp = parse_una_loop una (kcp_snd_buf kcp) kcp"

fun parse_fastack_loop :: "u32 \<Rightarrow> IKCPSEG list \<Rightarrow> IKCPSEG list" where
  "parse_fastack_loop sn [] = []"
| "parse_fastack_loop sn (seg # p) =
     (if itimediff sn (seg_sn seg) < 0 then seg # p
      else (if sn \<noteq> seg_sn seg then seg\<lparr>seg_fastack := seg_fastack seg + 1\<rparr> else seg)
           # parse_fastack_loop sn p)"

definition ikcp_parse_fastack :: "u32 \<Rightarrow> IKCPCB \<Rightarrow> IKCPCB" where
  "ikcp_parse_fastack sn kcp =
     (if itimediff sn (kcp_snd_una kcp) < 0 \<or> itimediff sn (kcp_snd_nxt kcp) \<ge> 0 then kcp
      else kcp\<lparr>kcp_snd_buf := parse_fastack_loop sn (kcp_snd_buf kcp)\<rparr>)"

text \<open>\<open>for (newblock = 8; newblock < newsize; newblock <<= 1);\<close>\<close>

function ack_block :: "nat \<Rightarrow> nat \<Rightarrow> nat" where
  "ack_block newblock newsize =
     (if 0 < newblock \<and> newblock < newsize then ack_block (2 * newblock) newsize else newblock)"
  by pat_completeness auto
termination
  by (relation "measure (\<lambda>(b, n). n - b)") auto

declare ack_block.simps [simp del]

text \<open>\<open>ikcp_ack_push\<close>: \<open>got_block\<close> says whether the allocation of a larger array succeeds; if not,
  the program aborts on the assertion.\<close>

definition ikcp_ack_push :: "bool \<Rightarrow> u32 \<Rightarrow> u32 \<Rightarrow> IKCPCB \<Rightarrow> IKCPCB result" where
  "ikcp_ack_push got_block sn ts kcp =
     (let newsize = kcp_ackcount kcp + 1 in
      bind_result
        (if newsize > kcp_ackblock kcp then
           if \<not> got_block then Inl Assert_failed
           else Inr (kcp\<lparr>kcp_ackblock := of_nat (ack_block 8 (unat newsize))\<rparr>)
         else Inr kcp) (\<lambda>kcp.
      bind_result (guard_result Write_out_of_bounds (kcp_ackcount kcp < kcp_ackblock kcp)) (\<lambda>_.
      Inr (kcp\<lparr>kcp_acklist := take (unat (kcp_ackcount kcp)) (kcp_acklist kcp) @ [(sn, ts)],
               kcp_ackcount := kcp_ackcount kcp + 1\<rparr>))))"

definition ikcp_ack_get :: "nat \<Rightarrow> IKCPCB \<Rightarrow> (u32 \<times> u32) result" where
  "ikcp_ack_get p kcp =
     (if p < length (kcp_acklist kcp) then Inr (kcp_acklist kcp ! p) else Inl Read_out_of_bounds)"

section \<open>The send-side invariant\<close>

text \<open>The oldest unacknowledged sequence number is the one at the head of \<open>snd_buf\<close>.\<close>

fun head_sn :: "u32 \<Rightarrow> IKCPSEG list \<Rightarrow> u32" where
  "head_sn nxt [] = nxt"
| "head_sn nxt (seg # _) = seg_sn seg"

definition una_tight :: "IKCPCB \<Rightarrow> bool" where
  "una_tight kcp \<longleftrightarrow> kcp_snd_una kcp = head_sn (kcp_snd_nxt kcp) (kcp_snd_buf kcp)"

lemma shrink_buf_head_sn:
  "ikcp_shrink_buf kcp = kcp\<lparr>kcp_snd_una := head_sn (kcp_snd_nxt kcp) (kcp_snd_buf kcp)\<rparr>"
  by (simp add: ikcp_shrink_buf_def split: list.split)

definition in_flight :: "IKCPCB \<Rightarrow> nat" where
  "in_flight kcp = spos (kcp_snd_una kcp) (kcp_snd_nxt kcp)"

definition snd_wins :: "IKCPCB \<Rightarrow> bool" where
  "snd_wins kcp \<longleftrightarrow>
     kcp_nsnd_buf kcp = of_nat (length (kcp_snd_buf kcp)) \<and>
     kcp_nsnd_que kcp = of_nat (length (kcp_snd_queue kcp)) \<and>
     unat (kcp_rmt_wnd kcp) \<le> 65535 \<and> in_flight kcp \<le> 65535 \<and>
     in_window (kcp_snd_una kcp) (in_flight kcp) (kcp_snd_buf kcp) \<and>
     (\<forall>s \<in> set (kcp_snd_queue kcp). seg_ok (unat (kcp_mss kcp)) s) \<and>
     (\<forall>s \<in> set (kcp_snd_buf kcp). seg_ok (unat (kcp_mss kcp)) s)"

definition snd_inv :: "IKCPCB \<Rightarrow> bool" where
  "snd_inv kcp \<longleftrightarrow> snd_wins kcp \<and> una_tight kcp"

lemma una_tight_shrink [simp]: "una_tight (ikcp_shrink_buf kcp)"
  by (simp add: una_tight_def shrink_buf_head_sn)

text \<open>\<open>ikcp_shrink_buf\<close> moves \<open>snd_una\<close> forward to the head of the buffer.\<close>

lemma shrink_buf_inv:
  assumes "snd_wins kcp"
  shows "snd_inv (ikcp_shrink_buf kcp)"
proof -
  let ?b = "kcp_snd_una kcp" and ?n = "kcp_snd_nxt kcp"
  define c where "c = head_sn ?n (kcp_snd_buf kcp)"
  have win: "in_window ?b (spos ?b ?n) (kcp_snd_buf kcp)" and fl: "spos ?b ?n \<le> 65535"
    using assms by (auto simp: snd_wins_def in_flight_def)
  have below: "\<forall>s \<in> set (kcp_snd_buf kcp). spos ?b c \<le> spos ?b (seg_sn s)" and le: "spos ?b c \<le> spos ?b ?n"
    using win by (cases "kcp_snd_buf kcp"; auto simp: c_def in_window_Cons less_imp_le)+
  have "spos c ?n = spos ?b ?n - spos ?b c" using le by (rule spos_rebase)
  with in_window_rebase [OF win below] fl
  have "in_window c (spos c ?n) (kcp_snd_buf kcp)" "spos c ?n \<le> 65535" by auto
  then have "snd_wins (ikcp_shrink_buf kcp)"
    using assms by (simp add: snd_wins_def in_flight_def shrink_buf_head_sn c_def)
  then show ?thesis by (simp add: snd_inv_def)
qed

subsection \<open>Selective acknowledgements\<close>

text \<open>The window test of \<open>ikcp_parse_ack\<close> and \<open>ikcp_parse_fastack\<close>, in positions.\<close>

lemma ack_test:
  assumes "in_flight kcp \<le> 65535"
  shows "(itimediff sn (kcp_snd_una kcp) < 0 \<or> itimediff sn (kcp_snd_nxt kcp) \<ge> 0) \<longleftrightarrow>
    in_flight kcp \<le> spos (kcp_snd_una kcp) sn"
proof (cases "spos (kcp_snd_una kcp) sn < 2147483648")
  case True
  then have "itimediff sn (kcp_snd_nxt kcp) = int (spos (kcp_snd_una kcp) sn) - int (in_flight kcp)"
    using assms unfolding in_flight_def by (intro itimediff_spos) auto
  with True show ?thesis using itimediff_neg [of sn "kcp_snd_una kcp"] by simp
next
  case False
  then show ?thesis using assms itimediff_neg [of sn "kcp_snd_una kcp"] by simp
qed

lemma parse_ack_loop_filter:
  assumes "in_window b w xs" and "w \<le> 2147483648" and "spos b sn < 2147483648"
  shows "parse_ack_loop sn xs = (filter (\<lambda>s. seg_sn s \<noteq> sn) xs, sn \<in> seg_sn ` set xs)"
  using assms(1)
proof (induction xs)
  case (Cons x xs)
  have win: "in_window b w xs" "spos b (seg_sn x) < w"
    and above: "\<forall>t \<in> set xs. spos b (seg_sn x) < spos b (seg_sn t)"
    using Cons.prems by (auto simp: in_window_Cons)
  have td: "itimediff sn (seg_sn x) = int (spos b sn) - int (spos b (seg_sn x))"
    using win(2) assms(2,3) by (intro itimediff_spos) auto
  have same: "filter (\<lambda>s. seg_sn s \<noteq> sn) xs = xs" "sn \<notin> seg_sn ` set xs" if "spos b sn \<le> spos b (seg_sn x)"
  proof -
    have "\<forall>t \<in> set xs. seg_sn t \<noteq> sn" using above that by fastforce
    then show "filter (\<lambda>s. seg_sn s \<noteq> sn) xs = xs" "sn \<notin> seg_sn ` set xs" by auto
  qed
  show ?case
  proof (cases "spos b sn \<le> spos b (seg_sn x)")
    case True
    then show ?thesis using same td by (cases "sn = seg_sn x") (auto simp: le_less)
  next
    case False
    then have "sn \<noteq> seg_sn x" by auto
    then show ?thesis using False td Cons.IH [OF win(1)] by auto
  qed
qed simp

lemma parse_ack_exact:
  assumes "snd_wins kcp"
  shows "kcp_snd_buf (ikcp_parse_ack sn kcp) =
    (if spos (kcp_snd_una kcp) sn < in_flight kcp
     then filter (\<lambda>s. seg_sn s \<noteq> sn) (kcp_snd_buf kcp) else kcp_snd_buf kcp)"
proof -
  have f: "in_flight kcp \<le> 65535" and win: "in_window (kcp_snd_una kcp) (in_flight kcp) (kcp_snd_buf kcp)"
    using assms by (auto simp: snd_wins_def)
  have "parse_ack_loop sn (kcp_snd_buf kcp) =
      (filter (\<lambda>s. seg_sn s \<noteq> sn) (kcp_snd_buf kcp), sn \<in> seg_sn ` set (kcp_snd_buf kcp))"
    if "spos (kcp_snd_una kcp) sn < in_flight kcp"
    using that f by (intro parse_ack_loop_filter [OF win]) auto
  with ack_test [OF f, of sn] show ?thesis
    by (auto simp: ikcp_parse_ack_def)
qed

text \<open>Taking out one element by its sequence number.\<close>

lemma length_filter_sn:
  assumes "distinct (map seg_sn xs)"
  shows "length (filter (\<lambda>s. seg_sn s \<noteq> sn) xs) =
    (if sn \<in> seg_sn ` set xs then length xs - 1 else length xs)"
  using assms
proof (induction xs)
  case (Cons x xs)
  then show ?case by (cases xs) (auto simp: image_iff filter_id_conv)
qed simp

lemma parse_ack_wins:
  assumes "snd_wins kcp"
  shows "snd_wins (ikcp_parse_ack sn kcp)"
proof (cases "spos (kcp_snd_una kcp) sn < in_flight kcp")
  case True
  have f: "in_flight kcp \<le> 65535" and win: "in_window (kcp_snd_una kcp) (in_flight kcp) (kcp_snd_buf kcp)"
    using assms by (auto simp: snd_wins_def)
  let ?p = "filter (\<lambda>s. seg_sn s \<noteq> sn) (kcp_snd_buf kcp)" and ?f = "sn \<in> seg_sn ` set (kcp_snd_buf kcp)"
  have "parse_ack_loop sn (kcp_snd_buf kcp) = (?p, ?f)"
    using True f by (intro parse_ack_loop_filter [OF win]) auto
  then have eq: "ikcp_parse_ack sn kcp = kcp\<lparr>kcp_snd_buf := ?p,
      kcp_nsnd_buf := (if ?f then kcp_nsnd_buf kcp - 1 else kcp_nsnd_buf kcp)\<rparr>"
    using True ack_test [OF f, of sn] by (simp add: ikcp_parse_ack_def)
  have "of_nat (length ?p) = (if ?f then of_nat (length (kcp_snd_buf kcp)) - 1 else of_nat (length (kcp_snd_buf kcp)) :: u32)"
    using length_filter_sn [OF in_window_distinct [OF win], of sn]
    by (cases "kcp_snd_buf kcp") auto
  then show ?thesis
    using assms in_window_filter [OF win] unfolding eq by (auto simp: snd_wins_def in_flight_def)
next
  case False
  have "in_flight kcp \<le> 65535" using assms by (simp add: snd_wins_def)
  with False ack_test [of kcp sn] assms show ?thesis by (simp add: ikcp_parse_ack_def)
qed

subsection \<open>Cumulative acknowledgements\<close>

text \<open>Whatever number the peer sends, a prefix of the buffer goes.\<close>

lemma parse_una_loop_shape:
  assumes "kcp_snd_buf kcp = xs"
  shows "\<exists>n \<le> length xs. parse_una_loop una xs kcp =
    kcp\<lparr>kcp_snd_buf := drop n xs, kcp_nsnd_buf := kcp_nsnd_buf kcp - of_nat n\<rparr> \<and>
    n = length (takeWhile (\<lambda>s. itimediff una (seg_sn s) > 0) xs)"
  using assms
proof (induction xs arbitrary: kcp)
  case (Cons x xs)
  show ?case
  proof (cases "itimediff una (seg_sn x) > 0")
    case True
    let ?k = "kcp\<lparr>kcp_snd_buf := xs, kcp_nsnd_buf := kcp_nsnd_buf kcp - 1\<rparr>"
    obtain n where n: "n \<le> length xs" "n = length (takeWhile (\<lambda>s. itimediff una (seg_sn s) > 0) xs)"
      and "parse_una_loop una xs ?k =
        ?k\<lparr>kcp_snd_buf := drop n xs, kcp_nsnd_buf := kcp_nsnd_buf ?k - of_nat n\<rparr>"
      using Cons.IH [of ?k] by auto
    then show ?thesis using True by (intro exI [of _ "Suc n"]) (simp add: algebra_simps)
  next
    case False
    then show ?thesis using Cons.prems by (intro exI [of _ 0]) auto
  qed
qed simp

lemma parse_una_shape:
  obtains n where "n \<le> length (kcp_snd_buf kcp)"
    and "n = length (takeWhile (\<lambda>s. itimediff una (seg_sn s) > 0) (kcp_snd_buf kcp))"
    and "ikcp_parse_una una kcp =
      kcp\<lparr>kcp_snd_buf := drop n (kcp_snd_buf kcp), kcp_nsnd_buf := kcp_nsnd_buf kcp - of_nat n\<rparr>"
  using parse_una_loop_shape [of kcp, OF refl] unfolding ikcp_parse_una_def by blast

lemma parse_una_wins:
  assumes "snd_wins kcp"
  shows "snd_wins (ikcp_parse_una una kcp)"
proof -
  obtain n where n: "n \<le> length (kcp_snd_buf kcp)" and eq: "ikcp_parse_una una kcp =
      kcp\<lparr>kcp_snd_buf := drop n (kcp_snd_buf kcp), kcp_nsnd_buf := kcp_nsnd_buf kcp - of_nat n\<rparr>"
    by (rule parse_una_shape)
  have "of_nat (length (kcp_snd_buf kcp) - n) = (of_nat (length (kcp_snd_buf kcp)) - of_nat n :: u32)"
    using n by (simp add: of_nat_diff)
  then show ?thesis
    using assms unfolding eq
    by (auto simp: snd_wins_def in_flight_def in_window_drop dest: in_set_dropD)
qed

text \<open>For a number the sender has handed out, exactly the segments below it go.\<close>

lemma parse_una_exact:
  assumes "snd_wins kcp" and "spos (kcp_snd_una kcp) una \<le> in_flight kcp"
  shows "kcp_snd_buf (ikcp_parse_una una kcp) =
    filter (\<lambda>s. spos (kcp_snd_una kcp) una \<le> spos (kcp_snd_una kcp) (seg_sn s)) (kcp_snd_buf kcp)"
proof -
  let ?b = "kcp_snd_una kcp"
  have f: "in_flight kcp \<le> 65535" and win: "in_window ?b (in_flight kcp) (kcp_snd_buf kcp)"
    using assms by (auto simp: snd_wins_def)
  have "drop (length (takeWhile (\<lambda>s. itimediff una (seg_sn s) > 0) xs)) xs =
      filter (\<lambda>s. spos ?b una \<le> spos ?b (seg_sn s)) xs" if "in_window ?b (in_flight kcp) xs" for xs
    using that
  proof (induction xs)
    case (Cons x xs)
    have td: "itimediff una (seg_sn x) = int (spos ?b una) - int (spos ?b (seg_sn x))"
      using Cons.prems assms(2) f by (intro itimediff_spos) (auto simp: in_window_Cons)
    show ?case
    proof (cases "spos ?b una \<le> spos ?b (seg_sn x)")
      case True
      then have "\<forall>s \<in> set xs. spos ?b una \<le> spos ?b (seg_sn s)"
        using Cons.prems by (fastforce simp: in_window_Cons)
      with True td show ?thesis by simp
    qed (use Cons td in \<open>simp add: in_window_Cons\<close>)
  qed simp
  note exact = this [OF win]
  show ?thesis by (rule parse_una_shape [of kcp una]) (simp add: exact)
qed

subsection \<open>Duplicate acknowledgements\<close>

lemma parse_fastack_loop_sns: "map seg_sn (parse_fastack_loop sn xs) = map seg_sn xs"
  by (induction xs) auto

lemma parse_fastack_loop_data:
  "map (\<lambda>s. (seg_len s, seg_data s)) (parse_fastack_loop sn xs) = map (\<lambda>s. (seg_len s, seg_data s)) xs"
  by (induction xs) auto

lemma ball_map_cong:
  assumes "map f xs = map f ys" and "\<And>s. P s \<longleftrightarrow> Q (f s)"
  shows "(\<forall>s \<in> set xs. P s) \<longleftrightarrow> (\<forall>s \<in> set ys. P s)"
proof -
  have "(\<forall>s \<in> set zs. P s) \<longleftrightarrow> list_all Q (map f zs)" for zs
    using assms(2) by (simp add: list_all_iff)
  then show ?thesis by (simp only: assms(1))
qed

lemma seg_ok_map_cong:
  assumes "map (\<lambda>s. (seg_len s, seg_data s)) xs = map (\<lambda>s. (seg_len s, seg_data s)) ys"
  shows "(\<forall>s \<in> set xs. seg_ok m s) \<longleftrightarrow> (\<forall>s \<in> set ys. seg_ok m s)"
  using assms
  by (rule ball_map_cong [where Q = "\<lambda>p. fst p = of_nat (length (snd p)) \<and> length (snd p) \<le> m"])
     (simp add: seg_ok_def)

lemma head_sn_cong: "map seg_sn xs = map seg_sn ys \<Longrightarrow> head_sn n xs = head_sn n ys"
  by (cases xs; cases ys) auto

text \<open>Rewriting the bookkeeping fields of the segments in \<open>snd_buf\<close> keeps the invariant.\<close>

lemma snd_inv_buf_cong:
  assumes "snd_inv kcp" and sn: "map seg_sn ys = map seg_sn (kcp_snd_buf kcp)"
    and data: "map (\<lambda>s. (seg_len s, seg_data s)) ys = map (\<lambda>s. (seg_len s, seg_data s)) (kcp_snd_buf kcp)"
  shows "snd_inv (kcp\<lparr>kcp_snd_buf := ys\<rparr>)"
proof -
  have "length ys = length (kcp_snd_buf kcp)" using sn by (metis length_map)
  then have "snd_wins (kcp\<lparr>kcp_snd_buf := ys\<rparr>)"
    using assms(1) in_window_cong [OF sn] seg_ok_map_cong [OF data]
    by (simp add: snd_inv_def snd_wins_def in_flight_def)
  moreover have "una_tight (kcp\<lparr>kcp_snd_buf := ys\<rparr>)"
    using assms(1) head_sn_cong [OF sn] by (simp add: snd_inv_def una_tight_def)
  ultimately show ?thesis by (simp add: snd_inv_def)
qed

lemma parse_fastack_inv: "snd_inv kcp \<Longrightarrow> snd_inv (ikcp_parse_fastack sn kcp)"
  by (simp add: ikcp_parse_fastack_def snd_inv_buf_cong parse_fastack_loop_sns parse_fastack_loop_data)

text \<open>No acknowledgement adds a segment.\<close>

lemma parse_ack_loop_subset: "set (fst (parse_ack_loop sn xs)) \<subseteq> set xs"
  by (induction xs) (auto split: prod.splits)

lemma parse_fastack_loop_keys: "map key_of (parse_fastack_loop sn xs) = map key_of xs"
  by (induction xs) (auto simp: key_of_def)

definition snd_keys :: "IKCPCB \<Rightarrow> seg_key set" where
  "snd_keys kcp = key_of ` set (kcp_snd_buf kcp)"

lemma snd_keys_ops:
  "snd_keys (ikcp_shrink_buf kcp) = snd_keys kcp"
  "snd_keys (ikcp_parse_ack sn kcp) \<subseteq> snd_keys kcp"
  "snd_keys (ikcp_parse_una una kcp) \<subseteq> snd_keys kcp"
  "snd_keys (ikcp_parse_fastack sn kcp) = snd_keys kcp"
  "snd_keys (ikcp_update_ack rtt kcp) = snd_keys kcp"
proof -
  show "snd_keys (ikcp_parse_ack sn kcp) \<subseteq> snd_keys kcp"
    using parse_ack_loop_subset [of sn "kcp_snd_buf kcp"]
    by (auto simp: snd_keys_def ikcp_parse_ack_def split: prod.splits)
  show "snd_keys (ikcp_parse_una una kcp) \<subseteq> snd_keys kcp"
    by (rule parse_una_shape [of kcp una]) (auto simp: snd_keys_def dest: in_set_dropD)
  show "snd_keys (ikcp_parse_fastack sn kcp) = snd_keys kcp"
    using arg_cong [OF parse_fastack_loop_keys [of sn "kcp_snd_buf kcp"], of set]
    by (simp add: snd_keys_def ikcp_parse_fastack_def)
qed (simp_all add: snd_keys_def ikcp_shrink_buf_def ikcp_update_ack_def Let_def)

section \<open>The retransmission timeout\<close>

lemma ikcp_update_ack_frame:
  "\<exists>a b c. ikcp_update_ack rtt kcp = kcp\<lparr>kcp_rx_srtt := a, kcp_rx_rttval := b, kcp_rx_rto := c\<rparr>"
proof (cases "kcp_rx_srtt kcp = 0")
  case True
  then show ?thesis by (auto simp: ikcp_update_ack_def Let_def)
next
  case False
  then have "ikcp_update_ack rtt kcp = kcp\<lparr>kcp_rx_srtt := kcp_rx_srtt (ikcp_update_ack rtt kcp),
      kcp_rx_rttval := kcp_rx_rttval (ikcp_update_ack rtt kcp), kcp_rx_rto := kcp_rx_rto (ikcp_update_ack rtt kcp)\<rparr>"
    by (simp add: ikcp_update_ack_def Let_def)
  then show ?thesis by blast
qed

lemma update_ack_rto:
  assumes "unat (kcp_rx_minrto kcp) \<le> 60000"
  shows "unat (kcp_rx_minrto kcp) \<le> unat (kcp_rx_rto (ikcp_update_ack rtt kcp)) \<and>
    unat (kcp_rx_rto (ikcp_update_ack rtt kcp)) \<le> 60000"
  using assms by (auto simp: ikcp_update_ack_def Let_def unat_ibound)

lemma snd_inv_update_ack [simp]: "snd_inv (ikcp_update_ack rtt kcp) = snd_inv kcp"
  using ikcp_update_ack_frame [of rtt kcp]
  by (auto simp: snd_inv_def snd_wins_def una_tight_def in_flight_def)

section \<open>The array of pending acknowledgements\<close>

definition ack_inv :: "IKCPCB \<Rightarrow> bool" where
  "ack_inv kcp \<longleftrightarrow> kcp_ackcount kcp = of_nat (length (kcp_acklist kcp)) \<and>
     length (kcp_acklist kcp) \<le> unat (kcp_ackblock kcp)"

lemma ack_block_bounds:
  "0 < b \<Longrightarrow> n \<le> ack_block b n \<and> b \<le> ack_block b n \<and> (ack_block b n = b \<or> ack_block b n < 2 * n)"
proof (induction b n rule: ack_block.induct)
  case (1 b n)
  then show ?case by (subst (1 2 3 4) ack_block.simps) auto
qed

lemma ack_push_ok:
  assumes "ack_inv kcp" and "length (kcp_acklist kcp) < 268435456"
  shows "\<exists>b. ikcp_ack_push True sn ts kcp =
      Inr (kcp\<lparr>kcp_ackblock := b, kcp_acklist := kcp_acklist kcp @ [(sn, ts)],
               kcp_ackcount := kcp_ackcount kcp + 1\<rparr>) \<and>
    Suc (length (kcp_acklist kcp)) \<le> unat b"
proof -
  let ?n = "length (kcp_acklist kcp)"
  have cnt: "unat (kcp_ackcount kcp) = ?n" "unat (kcp_ackcount kcp + 1) = Suc ?n"
    using assms by (auto simp: ack_inv_def unat_of_nat unat_word_ariths)
  define b where "b = (if kcp_ackcount kcp + 1 > kcp_ackblock kcp
    then of_nat (ack_block 8 (Suc ?n)) else kcp_ackblock kcp)"
  have "ack_block 8 (Suc ?n) < 4294967296"
    using ack_block_bounds [of 8 "Suc ?n"] assms(2) by auto
  then have b: "Suc ?n \<le> unat b"
    using ack_block_bounds [of 8 "Suc ?n"] cnt by (auto simp: b_def unat_of_nat word_less_nat_alt)
  then have "kcp_ackcount kcp < b" using cnt by (simp add: word_less_nat_alt)
  then have "ikcp_ack_push True sn ts kcp =
      Inr (kcp\<lparr>kcp_ackblock := b, kcp_acklist := kcp_acklist kcp @ [(sn, ts)],
               kcp_ackcount := kcp_ackcount kcp + 1\<rparr>)"
    using cnt by (auto simp: ikcp_ack_push_def Let_def b_def)
  with b show ?thesis by blast
qed

section \<open>Properties\<close>

text \<open>Three segments in flight across the wrap-around of the numbers.\<close>

definition demo_snd :: IKCPCB where
  "demo_snd = demo_kcp\<lparr>kcp_snd_una := 4294967295, kcp_snd_nxt := 2, kcp_nsnd_buf := 3,
     kcp_snd_buf := [demo_seg 4294967295 0 [1], demo_seg 0 0 [2], demo_seg 1 0 [3]]\<rparr>"

lemma demo_snd_wins: "snd_wins demo_snd" "in_flight demo_snd = 3"
  by (simp_all add: snd_wins_def in_flight_def demo_snd_def demo_seg_def in_window_def
      spos_def seg_ok_def demo_simps)

text \<open>
  C17. An acknowledgement removes exactly the segment with its number when that number is in
  flight, and nothing otherwise; a cumulative acknowledgement inside the range in flight removes
  exactly the segments before it. Both hold across the wrap-around of the 32-bit numbers.
\<close>

theorem ack_exact:
  assumes "snd_wins kcp" and "spos (kcp_snd_una kcp) una \<le> in_flight kcp"
  shows "kcp_snd_buf (ikcp_parse_ack sn kcp) =
      (if spos (kcp_snd_una kcp) sn < in_flight kcp
       then filter (\<lambda>s. seg_sn s \<noteq> sn) (kcp_snd_buf kcp) else kcp_snd_buf kcp) \<and>
    kcp_snd_buf (ikcp_parse_una una kcp) =
      filter (\<lambda>s. spos (kcp_snd_una kcp) una \<le> spos (kcp_snd_una kcp) (seg_sn s)) (kcp_snd_buf kcp)"
  using parse_ack_exact [OF assms(1)] parse_una_exact [OF assms] by blast

theorem ack_exact_witness:
  "kcp_snd_buf (ikcp_parse_ack 0 demo_snd) = [demo_seg 4294967295 0 [1], demo_seg 1 0 [3]] \<and>
   kcp_snd_buf (ikcp_parse_una 1 demo_snd) = [demo_seg 1 0 [3]]"
proof -
  have "spos (kcp_snd_una demo_snd) 1 \<le> in_flight demo_snd" unfolding demo_snd_wins(2) by (simp add: demo_snd_def spos_def)
  from ack_exact [OF demo_snd_wins(1) this, of 0] show ?thesis
    unfolding demo_snd_wins(2) by (simp add: demo_snd_def demo_seg_def spos_def)
qed

text \<open>Whatever round-trip times are measured, negative ones and overflows included, the
  retransmission timeout stays between the configured minimum and a minute.
\<close>

theorem rto_bounds:
  assumes "unat (kcp_rx_minrto kcp) \<le> 60000"
  shows "unat (kcp_rx_minrto kcp) \<le> unat (kcp_rx_rto (ikcp_update_ack rtt kcp)) \<and>
    unat (kcp_rx_rto (ikcp_update_ack rtt kcp)) \<le> 60000"
  by (rule update_ack_rto [OF assms])

theorem rto_bounds_witness:
  "100 \<le> unat (kcp_rx_rto (ikcp_update_ack (-5) demo_kcp)) \<and> unat (kcp_rx_rto (ikcp_update_ack (-5) demo_kcp)) \<le> 60000"
proof -
  have "unat (kcp_rx_minrto demo_kcp) = 100" by (simp add: demo_simps)
  then show ?thesis using rto_bounds [of demo_kcp "-5"] by simp
qed

end
