(* ===== verification/Kcp_Send.thy ===== *)
theory Kcp_Send
  imports Kcp_Window
begin

text \<open>
  \<open>ikcp_send\<close>: an application message is cut into segments of at most \<open>mss\<close> bytes, numbered
  backwards in \<open>frg\<close> so that the receiver can put them together; in stream mode the last
  queued segment is filled up first.
\<close>

section \<open>The operation\<close>

text \<open>\<open>memcpy(dst, buffer, n)\<close> from the bytes of the application; without a buffer the bytes of the
  allocated segment stay as they are.\<close>

definition fill_from :: "u8 list option \<Rightarrow> nat \<Rightarrow> u8 list \<Rightarrow> u8 list result" where
  "fill_from buffer n old =
     (case buffer of None \<Rightarrow> Inr old | Some bs \<Rightarrow> read_bytes n bs)"

definition advance :: "u8 list option \<Rightarrow> nat \<Rightarrow> u8 list option" where
  "advance buffer n = map_option (drop n) buffer"

text \<open>The streaming part: the new end of the queue, the rest of the buffer and the rest of the
  length.\<close>

definition send_stream :: "seg_alloc \<Rightarrow> u8 list option \<Rightarrow> s32 \<Rightarrow> IKCPCB \<Rightarrow>
    (u8 list option \<times> s32 \<times> IKCPCB) result" where
  "send_stream alloc buffer len kcp =
     (if kcp_snd_queue kcp = [] then Inr (buffer, len, kcp)
      else let old = last (kcp_snd_queue kcp) in
      if seg_len old < kcp_mss kcp then
        let capacity = kcp_mss kcp - seg_len old;
            extend = (if sint len < sint capacity then len else capacity) in
        case alloc 0 (unat (seg_len old + extend)) of
          None \<Rightarrow> Inl Assert_failed
        | Some seg \<Rightarrow>
            bind_result (read_bytes (unat (seg_len old)) (seg_data old)) (\<lambda>front.
            bind_result (fill_from buffer (unat extend) (drop (unat (seg_len old)) (seg_data seg))) (\<lambda>back.
              Inr (advance buffer (unat extend), len - extend,
                   kcp\<lparr>kcp_snd_queue := butlast (kcp_snd_queue kcp) @
                         [seg\<lparr>seg_len := seg_len old + extend, seg_frg := 0, seg_data := front @ back\<rparr>]\<rparr>)))
      else Inr (buffer, len, kcp))"

text \<open>The loop \<open>for (i = 0; i < count; i++)\<close>; the number of rounds left is \<open>n = count - i\<close>.\<close>

fun send_frags :: "seg_alloc \<Rightarrow> nat \<Rightarrow> nat \<Rightarrow> u8 list option \<Rightarrow> s32 \<Rightarrow> IKCPCB \<Rightarrow> IKCPCB result" where
  "send_frags alloc i 0 buffer len kcp = Inr kcp"
| "send_frags alloc i (Suc n) buffer len kcp =
     (let size = (if sint len > sint (kcp_mss kcp) then kcp_mss kcp else len) in
      case alloc (Suc i) (unat size) of
        None \<Rightarrow> Inl Assert_failed
      | Some seg \<Rightarrow>
          bind_result (if sint len > 0 then fill_from buffer (unat size) (seg_data seg)
                       else Inr (seg_data seg)) (\<lambda>data.
            send_frags alloc (Suc i) n (advance buffer (unat size)) (len - size)
              (kcp\<lparr>kcp_snd_queue := kcp_snd_queue kcp @
                     [seg\<lparr>seg_len := size, seg_frg := (if kcp_stream kcp = 0 then of_nat n else 0),
                          seg_data := data\<rparr>],
                   kcp_nsnd_que := kcp_nsnd_que kcp + 1\<rparr>)))"

definition send_count :: "u32 \<Rightarrow> s32 \<Rightarrow> u32" where
  "send_count mss len = (if sint len \<le> sint mss then 1 else (len + mss - 1) div mss)"

definition ikcp_send :: "seg_alloc \<Rightarrow> u8 list option \<Rightarrow> s32 \<Rightarrow> IKCPCB \<Rightarrow> (s32 \<times> IKCPCB) result" where
  "ikcp_send alloc buffer len kcp =
     bind_result (guard_result Assert_failed (kcp_mss kcp > 0)) (\<lambda>_.
     if sint len < 0 then Inr (-1, kcp)
     else
     bind_result (if kcp_stream kcp \<noteq> 0 then send_stream alloc buffer len kcp
                  else Inr (buffer, len, kcp)) (\<lambda>(buffer, len, kcp).
     if kcp_stream kcp \<noteq> 0 \<and> sint len \<le> 0 then Inr (0, kcp)
     else let count = send_count (kcp_mss kcp) len in
     if count \<ge> IKCP_WND_RCV then Inr (-2, kcp)
     else let count = (if count = 0 then 1 else count) in
     bind_result (send_frags alloc 0 (unat count) buffer len kcp) (\<lambda>kcp. Inr (0, kcp))))"

section \<open>What is queued\<close>

text \<open>The specification of fragmentation: \<open>n\<close> pieces of \<open>m\<close> bytes, the last one what is left.\<close>

fun chunks :: "nat \<Rightarrow> nat \<Rightarrow> 'a list \<Rightarrow> 'a list list" where
  "chunks m 0 bs = []"
| "chunks m (Suc n) bs = take m bs # chunks m n (drop m bs)"

lemma length_chunks [simp]: "length (chunks m n bs) = n"
  by (induction n arbitrary: bs) auto

lemma concat_chunks: "length bs \<le> n * m \<Longrightarrow> concat (chunks m n bs) = bs"
  by (induction n arbitrary: bs) auto

lemma chunks_le: "c \<in> set (chunks m n bs) \<Longrightarrow> length c \<le> m"
  by (induction n arbitrary: bs) auto

lemma chunks_nonempty:
  "0 < m \<Longrightarrow> (n - 1) * m < length bs \<Longrightarrow> c \<in> set (chunks m n bs) \<Longrightarrow> c \<noteq> []"
proof (induction n arbitrary: bs)
  case (Suc n)
  show ?case
  proof (cases "c = take m bs")
    case False
    then have "0 < n" "c \<in> set (chunks m n (drop m bs))" using Suc.prems(3) by (cases n; auto)+
    moreover have "(n - 1) * m < length (drop m bs)"
      using Suc.prems(2) \<open>0 < n\<close> by (cases n) auto
    ultimately show ?thesis using Suc.IH Suc.prems(1) by blast
  qed (use Suc.prems in auto)
qed simp

text \<open>The number of fragments, for a positive segment size.\<close>

lemma send_count_le:
  assumes "sint len \<le> sint mss"
  shows "send_count mss len = 1"
  using assms by (simp add: send_count_def)

lemma send_count_gt:
  assumes "0 < sint mss" and "sint mss < sint len"
  shows "unat (send_count mss len) = (unat len + unat mss - 1) div unat mss"
proof -
  have bd: "unat len < 2147483648" "unat mss < 2147483648" "0 < unat mss"
    using assms sint_32_nonneg_iff [of len] sint_32_nonneg_iff [of mss]
    by (auto simp: unat_gt_0)
  then have "unat (len + mss) = unat len + unat mss" by (simp add: unat_word_ariths)
  then have "unat (len + mss - 1) = unat len + unat mss - 1"
    using bd unat_sub [of 1 "len + mss"] by (simp add: word_le_nat_alt)
  then show ?thesis using assms by (simp add: send_count_def unat_div)
qed

text \<open>The count covers the message, and no smaller one does.\<close>

lemma send_count_covers:
  assumes "0 < sint mss" and "0 \<le> sint len"
  defines "c \<equiv> unat (send_count mss len)"
  shows "0 < c" and "unat len \<le> c * unat mss" and "c = 1 \<or> (c - 1) * unat mss < unat len"
proof -
  have m: "0 < unat mss" using assms(1) by (auto simp: unat_gt_0)
  have "0 < c \<and> unat len \<le> c * unat mss \<and> (c = 1 \<or> (c - 1) * unat mss < unat len)"
  proof (cases "sint len \<le> sint mss")
    case True
    then show ?thesis
      using assms(1,2) send_count_le [OF True] by (simp add: c_def sint_32_le_iff)
  next
    case False
    have c: "c = (unat len + unat mss - 1) div unat mss"
      using False assms(1) by (simp add: c_def send_count_gt)
    have gt: "unat mss < unat len" using False assms(1,2) by (simp add: sint_32_le_iff)
    have dm: "c * unat mss + (unat len + unat mss - 1) mod unat mss = unat len + unat mss - 1"
      unfolding c by simp
    moreover have "(unat len + unat mss - 1) mod unat mss < unat mss" using m by simp
    ultimately have "unat len \<le> c * unat mss" "c * unat mss \<le> unat len + unat mss - 1"
      by linarith+
    moreover from this have "0 < c" using gt by (cases c) auto
    moreover have "(c - 1) * unat mss = c * unat mss - unat mss"
      by (simp add: diff_mult_distrib)
    ultimately show ?thesis using gt m by linarith
  qed
  then show "0 < c" "unat len \<le> c * unat mss" "c = 1 \<or> (c - 1) * unat mss < unat len" by auto
qed

text \<open>The segments the loop appends.\<close>

definition sent_as :: "nat \<Rightarrow> bool \<Rightarrow> u8 list list \<Rightarrow> IKCPSEG list \<Rightarrow> bool" where
  "sent_as m message ds segs \<longleftrightarrow>
     map seg_data segs = ds \<and> (\<forall>s \<in> set segs. seg_ok m s) \<and>
     map seg_frg segs = (if message then rev (map of_nat [0..<length ds]) else replicate (length ds) 0)"

lemma sent_as_Nil [simp]: "sent_as m b [] segs \<longleftrightarrow> segs = []"
  by (auto simp: sent_as_def)

lemma sent_as_Cons:
  assumes "sent_as m b ds segs" and "seg_data s = d" and "seg_ok m s"
    and "seg_frg s = (if b then of_nat (length ds) else 0)"
  shows "sent_as m b (d # ds) (s # segs)"
  using assms by (auto simp: sent_as_def)

lemma send_frags_ok:
  assumes "alloc_ok alloc" and "0 < sint (kcp_mss kcp)"
    and "0 \<le> sint len" and "unat len \<le> length bs"
    and "unat len \<le> n * unat (kcp_mss kcp)"
  shows "\<exists>segs. send_frags alloc i n (Some bs) len kcp =
      Inr (kcp\<lparr>kcp_snd_queue := kcp_snd_queue kcp @ segs, kcp_nsnd_que := kcp_nsnd_que kcp + of_nat n\<rparr>) \<and>
    sent_as (unat (kcp_mss kcp)) (kcp_stream kcp = 0)
      (chunks (unat (kcp_mss kcp)) n (take (unat len) bs)) segs"
  using assms(2-)
proof (induction n arbitrary: i len bs kcp)
  case 0
  show ?case by (rule exI [of _ "[]"]) simp
next
  case (Suc n)
  let ?m = "unat (kcp_mss kcp)"
  define sz where "sz = (if sint len > sint (kcp_mss kcp) then kcp_mss kcp else len)"
  have un: "unat sz = min (unat len) ?m"
    using Suc.prems(1,2) by (auto simp: sz_def sint_32_less_iff)
  have lt: "unat len < 2147483648" using Suc.prems(2) by (simp add: sint_32_nonneg_iff)
  have rest: "unat (len - sz) = unat len - ?m"
    using un by (subst unat_sub) (auto simp: word_le_nat_alt)
  obtain seg where seg: "alloc (Suc i) (unat sz) = Some seg" "length (seg_data seg) = unat sz"
    using assms(1) by (auto simp: alloc_ok_def)
  define s where "s = seg\<lparr>seg_len := sz, seg_frg := (if kcp_stream kcp = 0 then of_nat n else 0),
    seg_data := take (unat sz) bs\<rparr>"
  define k where "k = kcp\<lparr>kcp_snd_queue := kcp_snd_queue kcp @ [s], kcp_nsnd_que := kcp_nsnd_que kcp + 1\<rparr>"
  have data: "(if sint len > 0 then fill_from (Some bs) (unat sz) (seg_data seg) else Inr (seg_data seg)) =
      Inr (take (unat sz) bs)"
  proof (cases "0 < sint len")
    case True
    then show ?thesis using un Suc.prems(3) by (simp add: fill_from_def read_bytes_ok)
  next
    case False
    then have "unat len = 0" using Suc.prems(2) sint_32_unat [of len] by linarith
    with un seg(2) False show ?thesis by simp
  qed
  have step: "send_frags alloc i (Suc n) (Some bs) len kcp =
      send_frags alloc (Suc i) n (Some (drop (unat sz) bs)) (len - sz) k"
    using seg data by (simp add: sz_def [symmetric] s_def k_def advance_def Let_def)
  have "\<exists>segs. send_frags alloc (Suc i) n (Some (drop (unat sz) bs)) (len - sz) k =
      Inr (k\<lparr>kcp_snd_queue := kcp_snd_queue k @ segs, kcp_nsnd_que := kcp_nsnd_que k + of_nat n\<rparr>) \<and>
    sent_as (unat (kcp_mss k)) (kcp_stream k = 0)
      (chunks (unat (kcp_mss k)) n (take (unat (len - sz)) (drop (unat sz) bs))) segs"
    using Suc.prems rest un lt by (intro Suc.IH) (auto simp: k_def sint_32_nonneg_iff)
  then obtain segs where segs: "send_frags alloc (Suc i) n (Some (drop (unat sz) bs)) (len - sz) k =
      Inr (k\<lparr>kcp_snd_queue := kcp_snd_queue k @ segs, kcp_nsnd_que := kcp_nsnd_que k + of_nat n\<rparr>)"
    and sa: "sent_as ?m (kcp_stream kcp = 0)
      (chunks ?m n (take (unat (len - sz)) (drop (unat sz) bs))) segs"
    by (auto simp: k_def)
  have tl: "take (unat (len - sz)) (drop (unat sz) bs) = drop ?m (take (unat len) bs)"
    using rest un by (cases "unat len \<le> ?m") (auto simp: drop_take)
  have hd: "take (unat sz) bs = take ?m (take (unat len) bs)"
    using un by (simp add: min.commute)
  have "seg_ok ?m s"
    using un Suc.prems(3) by (intro seg_okI) (simp_all add: s_def)
  then have "sent_as ?m (kcp_stream kcp = 0) (chunks ?m (Suc n) (take (unat len) bs)) (s # segs)"
    unfolding chunks.simps hd [symmetric] tl [symmetric]
    by (intro sent_as_Cons [OF sa]) (simp_all add: s_def)
  then show ?case
    using segs step by (intro exI [of _ "s # segs"]) (simp add: k_def)
qed

section \<open>Message mode\<close>

lemma ikcp_send_message:
  assumes "alloc_ok alloc" and "0 < sint (kcp_mss kcp)" and "kcp_stream kcp = 0"
    and "0 \<le> sint len" and "unat len \<le> length bs"
  defines "c \<equiv> unat (send_count (kcp_mss kcp) len)"
  shows "\<exists>segs. ikcp_send alloc (Some bs) len kcp =
      (if 128 \<le> c then Inr (-2, kcp)
       else Inr (0, kcp\<lparr>kcp_snd_queue := kcp_snd_queue kcp @ segs,
                       kcp_nsnd_que := kcp_nsnd_que kcp + of_nat c\<rparr>)) \<and>
    sent_as (unat (kcp_mss kcp)) True (chunks (unat (kcp_mss kcp)) c (take (unat len) bs)) segs"
proof -
  have mss: "kcp_mss kcp > 0" using assms(2) by (auto simp: word_gt_0)
  note c = send_count_covers [OF assms(2,4), folded c_def]
  have nz: "send_count (kcp_mss kcp) len \<noteq> 0" using c(1) by (auto simp: c_def)
  obtain segs where "send_frags alloc 0 c (Some bs) len kcp =
      Inr (kcp\<lparr>kcp_snd_queue := kcp_snd_queue kcp @ segs, kcp_nsnd_que := kcp_nsnd_que kcp + of_nat c\<rparr>)"
    and sa: "sent_as (unat (kcp_mss kcp)) (kcp_stream kcp = 0)
      (chunks (unat (kcp_mss kcp)) c (take (unat len) bs)) segs"
    using send_frags_ok [OF assms(1,2,4,5) c(2)] by blast
  then have "ikcp_send alloc (Some bs) len kcp =
      (if 128 \<le> c then Inr (-2, kcp)
       else Inr (0, kcp\<lparr>kcp_snd_queue := kcp_snd_queue kcp @ segs,
                       kcp_nsnd_que := kcp_nsnd_que kcp + of_nat c\<rparr>))"
    using mss nz assms(3,4) by (simp add: ikcp_send_def Let_def word_le_nat_alt c_def not_less)
  with sa assms(3) show ?thesis by auto
qed

text \<open>Fragment numbers that count down to 0 mark the end of the message for the receiver.\<close>

lemma sent_as_concat: "sent_as m b ds segs \<Longrightarrow> concat (map seg_data segs) = concat ds"
  by (simp add: sent_as_def)

lemma sent_as_length: "sent_as m b ds segs \<Longrightarrow> length segs = length ds"
  unfolding sent_as_def by (metis length_map)

section \<open>Stream mode\<close>

definition queued_bytes :: "IKCPCB \<Rightarrow> u8 list" where
  "queued_bytes kcp = concat (map seg_data (kcp_snd_queue kcp))"

text \<open>Filling up the last segment appends a prefix of the data and leaves the rest.\<close>

lemma send_stream_ok:
  assumes "alloc_ok alloc" and "0 < sint (kcp_mss kcp)" and "0 \<le> sint len" and "unat len \<le> length bs"
    and "\<forall>s \<in> set (kcp_snd_queue kcp). seg_ok (unat (kcp_mss kcp)) s"
  shows "\<exists>n q. n \<le> unat len \<and>
    send_stream alloc (Some bs) len kcp =
      Inr (Some (drop n bs), len - of_nat n, kcp\<lparr>kcp_snd_queue := q\<rparr>) \<and>
    length q = length (kcp_snd_queue kcp) \<and>
    concat (map seg_data q) = queued_bytes kcp @ take n bs \<and>
    (\<forall>s \<in> set q. seg_ok (unat (kcp_mss kcp)) s)"
proof (cases "kcp_snd_queue kcp = [] \<or> \<not> seg_len (last (kcp_snd_queue kcp)) < kcp_mss kcp")
  case True
  then show ?thesis
    using assms(5)
    by (intro exI [of _ 0] exI [of _ "kcp_snd_queue kcp"])
       (auto simp: send_stream_def queued_bytes_def)
next
  case False
  let ?m = "unat (kcp_mss kcp)"
  define q where "q = butlast (kcp_snd_queue kcp)"
  define old where "old = last (kcp_snd_queue kcp)"
  have q: "kcp_snd_queue kcp = q @ [old]" using False by (simp add: q_def old_def)
  have mb: "?m < 2147483648" using assms(2) by (simp add: sint_32_nonneg_iff [symmetric])
  have ok: "seg_ok ?m old" using assms(5) q by simp
  then have ol: "unat (seg_len old) = length (seg_data old)" "length (seg_data old) \<le> ?m"
    using mb by (auto simp: seg_ok_def unat_of_nat)
  define cap where "cap = kcp_mss kcp - seg_len old"
  have lt: "unat (seg_len old) < ?m" using False q by (simp add: word_less_nat_alt)
  then have capn: "unat cap = ?m - unat (seg_len old)"
    by (simp add: cap_def unat_sub word_le_nat_alt)
  define ext where "ext = (if sint len < sint cap then len else cap)"
  have "0 \<le> sint cap" using capn mb by (simp add: sint_32_nonneg_iff)
  then have extn: "unat ext = min (unat len) (unat cap)"
    using assms(3) by (auto simp: ext_def sint_32_less_iff)
  define nl where "nl = seg_len old + ext"
  have nl: "unat nl = unat (seg_len old) + unat ext"
    using extn capn lt mb by (simp add: nl_def unat_word_ariths)
  obtain seg where seg: "alloc 0 (unat nl) = Some seg"
    using assms(1) by (auto simp: alloc_ok_def)
  define s where "s = seg\<lparr>seg_len := nl, seg_frg := 0, seg_data := seg_data old @ take (unat ext) bs\<rparr>"
  have run: "send_stream alloc (Some bs) len kcp =
      Inr (Some (drop (unat ext) bs), len - ext, kcp\<lparr>kcp_snd_queue := q @ [s]\<rparr>)"
    using False q seg ol extn assms(4)
    by (simp add: send_stream_def Let_def cap_def [symmetric] ext_def [symmetric] nl_def [symmetric]
        s_def fill_from_def advance_def read_bytes_ok)
  have "length (seg_data s) = unat nl"
    using extn assms(4) ol nl by (simp add: s_def)
  moreover have "unat nl \<le> ?m" using nl extn capn lt by linarith
  ultimately have "seg_ok ?m s" by (intro seg_okI) (simp_all add: s_def)
  moreover have "unat ext \<le> unat len" using extn by simp
  ultimately show ?thesis
    using assms(5) q run
    by (intro exI [of _ "unat ext"] exI [of _ "q @ [s]"]) (auto simp: queued_bytes_def s_def)
qed

text \<open>In stream mode the queued bytes grow by the data, or by a prefix of it when the rest is too
  large and the call returns -2.\<close>

lemma ikcp_send_stream:
  assumes "alloc_ok alloc" and "0 < sint (kcp_mss kcp)" and "kcp_stream kcp \<noteq> 0"
    and "0 \<le> sint len" and "unat len \<le> length bs"
    and "\<forall>s \<in> set (kcp_snd_queue kcp). seg_ok (unat (kcp_mss kcp)) s"
  obtains (whole) q n where "ikcp_send alloc (Some bs) len kcp =
      Inr (0, kcp\<lparr>kcp_snd_queue := q, kcp_nsnd_que := n\<rparr>)"
    and "concat (map seg_data q) = queued_bytes kcp @ take (unat len) bs"
    and "\<forall>s \<in> set q. seg_ok (unat (kcp_mss kcp)) s"
    and "n - kcp_nsnd_que kcp = of_nat (length q) - of_nat (length (kcp_snd_queue kcp))"
  | (part) q n where "ikcp_send alloc (Some bs) len kcp = Inr (-2, kcp\<lparr>kcp_snd_queue := q\<rparr>)"
    and "n < unat len" and "128 \<le> unat (send_count (kcp_mss kcp) (len - of_nat n))"
    and "concat (map seg_data q) = queued_bytes kcp @ take n bs"
    and "\<forall>s \<in> set q. seg_ok (unat (kcp_mss kcp)) s"
    and "length q = length (kcp_snd_queue kcp)"
proof -
  let ?m = "unat (kcp_mss kcp)"
  have mss: "kcp_mss kcp > 0" using assms(2) by (auto simp: word_gt_0)
  obtain n q where n: "n \<le> unat len"
    and st: "send_stream alloc (Some bs) len kcp =
      Inr (Some (drop n bs), len - of_nat n, kcp\<lparr>kcp_snd_queue := q\<rparr>)"
    and lq: "length q = length (kcp_snd_queue kcp)"
    and cq: "concat (map seg_data q) = queued_bytes kcp @ take n bs"
    and ok: "\<forall>s \<in> set q. seg_ok ?m s"
    using send_stream_ok [OF assms(1,2,4-6)] by blast
  define len' where "len' = len - of_nat n"
  have lb: "unat len < 2147483648" using assms(4) by (simp add: sint_32_nonneg_iff)
  have ln: "unat len' = unat len - n"
    using n lb by (simp add: len'_def unat_sub word_le_nat_alt unat_of_nat)
  have l0: "0 \<le> sint len'" using ln lb by (simp add: sint_32_nonneg_iff)
  have run: "ikcp_send alloc (Some bs) len kcp =
      (if sint len' \<le> 0 then Inr (0, kcp\<lparr>kcp_snd_queue := q\<rparr>)
       else if 128 \<le> unat (send_count (kcp_mss kcp) len') then Inr (-2, kcp\<lparr>kcp_snd_queue := q\<rparr>)
       else bind_result (send_frags alloc 0 (unat (send_count (kcp_mss kcp) len')) (Some (drop n bs)) len'
         (kcp\<lparr>kcp_snd_queue := q\<rparr>)) (\<lambda>kcp. Inr (0, kcp)))"
    using mss st assms(3,4) send_count_covers(1) [OF assms(2) l0]
    by (auto simp: ikcp_send_def Let_def word_le_nat_alt len'_def [symmetric] not_less unat_eq_0)
  consider "sint len' \<le> 0" | "0 < sint len'" "128 \<le> unat (send_count (kcp_mss kcp) len')"
    | "0 < sint len'" "unat (send_count (kcp_mss kcp) len') < 128" by linarith
  then show thesis
  proof cases
    case 1
    then have "unat len' = 0" using sint_32_unat [OF l0] by linarith
    then have "n = unat len" using ln n by simp
    with 1 run cq ok lq show ?thesis
      by (intro whole [where q = q and n = "kcp_nsnd_que kcp"]) auto
  next
    case 2
    then have "0 < unat len'" using sint_32_unat [OF l0] by linarith
    then have "n < unat len" using ln by simp
    with 2 run cq ok lq show ?thesis by (intro part [where q = q and n = n]) (auto simp: len'_def)
  next
    case 3
    let ?c = "unat (send_count (kcp_mss kcp) len')" and ?k = "kcp\<lparr>kcp_snd_queue := q\<rparr>"
    note c = send_count_covers [OF assms(2) l0]
    have "unat len' \<le> length (drop n bs)" using ln assms(5) by simp
    then obtain segs where sf: "send_frags alloc 0 ?c (Some (drop n bs)) len' ?k =
        Inr (?k\<lparr>kcp_snd_queue := q @ segs, kcp_nsnd_que := kcp_nsnd_que kcp + of_nat ?c\<rparr>)"
      and sa: "sent_as ?m (kcp_stream kcp = 0) (chunks ?m ?c (take (unat len') (drop n bs))) segs"
      using send_frags_ok [OF assms(1), of ?k len' "drop n bs" ?c 0] assms(2) l0 c(2) by auto
    have "concat (map seg_data segs) = take (unat len') (drop n bs)"
      using sent_as_concat [OF sa] c(2) by (simp add: concat_chunks)
    then have "concat (map seg_data (q @ segs)) = queued_bytes kcp @ take (unat len) bs"
      using cq ln n by (simp add: take_add [symmetric])
    moreover have "\<forall>s \<in> set (q @ segs). seg_ok ?m s" using ok sa by (auto simp: sent_as_def)
    moreover have "of_nat (length (q @ segs)) - of_nat (length (kcp_snd_queue kcp)) = (of_nat ?c :: u32)"
      using lq sent_as_length [OF sa] by simp
    ultimately show ?thesis
      using 3 run sf
      by (intro whole [where q = "q @ segs" and n = "kcp_nsnd_que kcp + of_nat ?c"]) auto
  qed
qed

section \<open>Properties\<close>

text \<open>
  C16. In message mode \<open>ikcp_send\<close> either refuses a message of 128 or more fragments with -2 and
  changes nothing, or appends segments of at most \<open>mss\<close> bytes whose data put together is the
  message and whose \<open>frg\<close> counts down to 0, and counts them in \<open>nsnd_que\<close>.
\<close>

theorem send_fragments:
  assumes "alloc_ok alloc" and "0 < sint (kcp_mss kcp)" and "kcp_stream kcp = 0"
    and "0 \<le> sint len" and "unat len \<le> length bs"
  shows "\<exists>segs. ikcp_send alloc (Some bs) len kcp =
      (if 128 \<le> unat (send_count (kcp_mss kcp) len) then Inr (-2, kcp)
       else Inr (0, kcp\<lparr>kcp_snd_queue := kcp_snd_queue kcp @ segs,
                       kcp_nsnd_que := kcp_nsnd_que kcp + of_nat (length segs)\<rparr>)) \<and>
    concat (map seg_data segs) = take (unat len) bs \<and> (\<forall>s \<in> set segs. seg_ok (unat (kcp_mss kcp)) s) \<and>
    map seg_frg segs = rev (map of_nat [0..<length segs])"
proof -
  let ?m = "unat (kcp_mss kcp)" and ?c = "unat (send_count (kcp_mss kcp) len)"
  obtain segs where run: "ikcp_send alloc (Some bs) len kcp =
      (if 128 \<le> ?c then Inr (-2, kcp)
       else Inr (0, kcp\<lparr>kcp_snd_queue := kcp_snd_queue kcp @ segs, kcp_nsnd_que := kcp_nsnd_que kcp + of_nat ?c\<rparr>))"
    and as: "sent_as ?m True (chunks ?m ?c (take (unat len) bs)) segs"
    using ikcp_send_message [OF assms] by blast
  have "length segs = ?c" using sent_as_length [OF as] by simp
  moreover have "concat (map seg_data segs) = take (unat len) bs"
    using sent_as_concat [OF as] send_count_covers(2) [OF assms(2,4)] by (simp add: concat_chunks)
  ultimately show ?thesis using run as by (intro exI [of _ segs]) (simp add: sent_as_def)
qed

theorem send_fragments_witness:
  "\<exists>segs. ikcp_send demo_alloc (Some [1, 2, 3]) 3 (demo_kcp\<lparr>kcp_mss := 2\<rparr>) =
      Inr (0, demo_kcp\<lparr>kcp_mss := 2, kcp_snd_queue := segs, kcp_nsnd_que := of_nat (length segs)\<rparr>) \<and>
    concat (map seg_data segs) = [1, 2, 3] \<and> map seg_frg segs = rev (map of_nat [0..<length segs])"
proof -
  have "unat (send_count 2 3) = 2" by code_simp
  moreover have "kcp_snd_queue demo_kcp = []" "kcp_nsnd_que demo_kcp = 0" "kcp_stream demo_kcp = 0"
    by (simp_all add: demo_simps)
  ultimately show ?thesis
    using send_fragments [OF demo_alloc_ok, of "demo_kcp\<lparr>kcp_mss := 2\<rparr>" 3 "[1, 2, 3]"] by auto
qed

text \<open>In stream mode the bytes waiting to be sent grow by all of the data when the call returns 0.
  When it returns -2 they have grown by a part of it: the last segment is filled up before the
  rest is found to be too large.
\<close>

theorem send_stream_bytes:
  assumes "alloc_ok alloc" and "0 < sint (kcp_mss kcp)" and "kcp_stream kcp \<noteq> 0"
    and "0 \<le> sint len" and "unat len \<le> length bs"
    and "\<forall>s \<in> set (kcp_snd_queue kcp). seg_ok (unat (kcp_mss kcp)) s"
  shows "\<exists>r kcp' n. ikcp_send alloc (Some bs) len kcp = Inr (r, kcp') \<and>
    queued_bytes kcp' = queued_bytes kcp @ take n bs \<and> (\<forall>s \<in> set (kcp_snd_queue kcp'). seg_ok (unat (kcp_mss kcp)) s) \<and>
    (r = 0 \<and> n = unat len \<or> r = -2 \<and> n < unat len \<and> 128 \<le> unat (send_count (kcp_mss kcp) (len - of_nat n)))"
proof (cases rule: ikcp_send_stream [OF assms])
  case (1 q n)
  then show ?thesis
    by (intro exI [of _ 0] exI [of _ "kcp\<lparr>kcp_snd_queue := q, kcp_nsnd_que := n\<rparr>"] exI [of _ "unat len"])
       (simp add: queued_bytes_def)
next
  case (2 q n)
  then show ?thesis
    by (intro exI [of _ "-2"] exI [of _ "kcp\<lparr>kcp_snd_queue := q\<rparr>"] exI [of _ n]) (simp add: queued_bytes_def)
qed

theorem send_stream_bytes_witness:
  "\<exists>kcp'. ikcp_send demo_alloc (Some [1, 2, 3]) 3 (demo_kcp\<lparr>kcp_stream := 1\<rparr>) = Inr (0, kcp') \<and>
     queued_bytes kcp' = [1, 2, 3]"
proof -
  let ?k = "demo_kcp\<lparr>kcp_stream := 1\<rparr>"
  have q: "kcp_snd_queue ?k = []" "kcp_mss ?k = 1376"
    by (simp_all add: demo_simps)
  moreover have "fst (projr (ikcp_send demo_alloc (Some [1, 2, 3]) 3 ?k)) = 0" by code_simp
  ultimately show ?thesis
    using send_stream_bytes [OF demo_alloc_ok, of ?k 3 "[1, 2, 3]"] by (auto simp: queued_bytes_def)
qed

text \<open>An example of the second case: 3353 bytes for a queue whose last segment has room for 25 more
  are refused with -2, yet 25 of them are queued and will be sent.
\<close>

theorem send_stream_refused_but_queued:
  "ikcp_send demo_alloc (Some (replicate 3353 7)) 3353
      (demo_kcp\<lparr>kcp_mss := 26, kcp_stream := 1, kcp_snd_queue := [demo_seg 0 0 [1]]\<rparr>) =
    Inr (-2, demo_kcp\<lparr>kcp_mss := 26, kcp_stream := 1,
      kcp_snd_queue := [(demo_seg 0 0 (1 # replicate 25 7))\<lparr>seg_conv := 17\<rparr>]\<rparr>)"
  by (simp add: ikcp_send_def send_stream_def send_count_def demo_alloc_def demo_seg_def fill_from_def advance_def
      read_bytes_def Let_def)

end
