(* ===== verification/Kcp_Inv.thy ===== *)
theory Kcp_Inv
  imports Kcp_Recv Kcp_Ack Kcp_Send
begin

text \<open>
  The invariant of a control block, put together from the receive side, the send side, the array
  of pending acknowledgements and the sizes, and its preservation by creation, configuration,
  \<open>ikcp_send\<close> and \<open>ikcp_recv\<close>.
\<close>

unbundle bit_operations_syntax

section \<open>The invariant\<close>

text \<open>The flush buffer holds three datagrams with an overhead each. The bound on the \<open>mtu\<close> keeps
  the computation of the buffer size from wrapping around.\<close>

definition sizes_inv :: "IKCPCB \<Rightarrow> bool" where
  "sizes_inv kcp \<longleftrightarrow>
     50 \<le> unat (kcp_mtu kcp) \<and> unat (kcp_mtu kcp) < 1073741824 \<and>
     kcp_mss kcp = kcp_mtu kcp - 24 \<and> kcp_buffer kcp = 3 * (unat (kcp_mtu kcp) + 24)"

definition kcp_inv :: "nat \<Rightarrow> IKCPCB \<Rightarrow> bool" where
  "kcp_inv w kcp \<longleftrightarrow> sizes_inv kcp \<and> rcv_inv w kcp \<and> snd_inv kcp \<and> ack_inv kcp"

lemma kcp_invI [intro?]:
  "sizes_inv kcp \<Longrightarrow> rcv_inv w kcp \<Longrightarrow> snd_inv kcp \<Longrightarrow> ack_inv kcp \<Longrightarrow> kcp_inv w kcp"
  by (simp add: kcp_inv_def)

lemma kcp_invD:
  assumes "kcp_inv w kcp"
  shows "sizes_inv kcp" and "rcv_inv w kcp" and "snd_inv kcp" and "ack_inv kcp"
  using assms by (simp_all add: kcp_inv_def)

text \<open>Each part depends on a few fields only: a state that agrees on them has the part too.\<close>

lemma sizes_inv_frame [inv_intros]:
  assumes "sizes_inv k" and "kcp_mtu k' = kcp_mtu k" and "kcp_mss k' = kcp_mss k"
    and "kcp_buffer k' = kcp_buffer k"
  shows "sizes_inv k'"
  using assms by (simp add: sizes_inv_def)

lemma rcv_inv_frame [inv_intros]:
  assumes "rcv_inv w k" and "kcp_nrcv_buf k' = kcp_nrcv_buf k" and "kcp_nrcv_que k' = kcp_nrcv_que k"
    and "kcp_rcv_buf k' = kcp_rcv_buf k" and "kcp_rcv_queue k' = kcp_rcv_queue k"
    and "kcp_rcv_wnd k' = kcp_rcv_wnd k" and "kcp_rcv_nxt k' = kcp_rcv_nxt k"
  shows "rcv_inv w k'"
  using assms by (simp add: rcv_inv_def)

lemma snd_inv_frame [inv_intros]:
  assumes "snd_inv k" and "kcp_nsnd_buf k' = kcp_nsnd_buf k" and "kcp_nsnd_que k' = kcp_nsnd_que k"
    and "kcp_snd_buf k' = kcp_snd_buf k" and "kcp_snd_queue k' = kcp_snd_queue k"
    and "kcp_rmt_wnd k' = kcp_rmt_wnd k" and "kcp_snd_una k' = kcp_snd_una k"
    and "kcp_snd_nxt k' = kcp_snd_nxt k" and "kcp_mss k' = kcp_mss k"
  shows "snd_inv k'"
  using assms(1) unfolding snd_inv_def snd_wins_def una_tight_def in_flight_def assms(2-) by blast

lemma ack_inv_frame [inv_intros]:
  assumes "ack_inv k" and "kcp_ackcount k' = kcp_ackcount k" and "kcp_acklist k' = kcp_acklist k"
    and "kcp_ackblock k' = kcp_ackblock k"
  shows "ack_inv k'"
  using assms by (simp add: ack_inv_def)

lemma sizes_mss:
  assumes "sizes_inv kcp"
  shows "unat (kcp_mss kcp) = unat (kcp_mtu kcp) - 24" and "0 < sint (kcp_mss kcp)"
    and "26 \<le> unat (kcp_mss kcp)"
proof -
  show u: "unat (kcp_mss kcp) = unat (kcp_mtu kcp) - 24"
    using assms by (simp add: sizes_inv_def unat_sub word_le_nat_alt)
  then show "26 \<le> unat (kcp_mss kcp)" using assms unfolding sizes_inv_def by linarith
  have "unat (kcp_mss kcp) < 2147483648" using u assms unfolding sizes_inv_def by linarith
  then show "0 < sint (kcp_mss kcp)"
    using \<open>26 \<le> unat (kcp_mss kcp)\<close> by (simp only: sint_32_small)
qed

lemmas inv_defs = kcp_inv_def sizes_inv_def rcv_inv_def snd_inv_def snd_wins_def una_tight_def
  in_flight_def ack_inv_def

section \<open>Creation and configuration\<close>

lemma ikcp_create_inv:
  assumes "ikcp_create True True conv = Some kcp"
  shows "kcp_inv 128 kcp"
  using assms by (auto simp: ikcp_create_def inv_defs)

lemma wndsize_inv:
  assumes "kcp_inv w kcp" and "nat (sint rcvwnd) \<le> w" and "128 \<le> w"
  shows "kcp_inv w (snd (ikcp_wndsize sndwnd rcvwnd kcp))"
proof -
  have "unat (imax rcvwnd 128) \<le> w" if "0 < sint rcvwnd"
  proof -
    have "unat rcvwnd \<le> w" using that assms(2) sint_32_unat [of rcvwnd] by simp
    then show ?thesis using assms(3) by (simp add: unat_imax)
  qed
  then have "rcv_inv w (snd (ikcp_wndsize sndwnd rcvwnd kcp))"
    using kcp_invD(2) [OF assms(1)] by (simp add: ikcp_wndsize_def Let_def rcv_inv_def)
  then show ?thesis
    using kcp_invD [OF assms(1)]
    by (intro kcp_invI) (auto simp: ikcp_wndsize_def Let_def elim: inv_intros)
qed

lemma nodelay_inv: "kcp_inv w kcp \<Longrightarrow> kcp_inv w (snd (ikcp_nodelay nd itv rs nc kcp))"
  by (auto simp: kcp_inv_def ikcp_nodelay_def Let_def elim: inv_intros)

lemma interval_inv: "kcp_inv w kcp \<Longrightarrow> kcp_inv w (snd (ikcp_interval itv kcp))"
  by (auto simp: kcp_inv_def ikcp_interval_def elim: inv_intros)

lemma setoutput_inv: "kcp_inv w kcp \<Longrightarrow> kcp_inv w (ikcp_setoutput b kcp)"
  by (auto simp: kcp_inv_def ikcp_setoutput_def elim: inv_intros)

text \<open>Changing the \<open>mtu\<close> keeps the invariant as long as what is queued still fits.\<close>

lemma setmtu_inv:
  assumes "kcp_inv w kcp" and "sint mtu < 1073741824"
    and "\<forall>s \<in> set (kcp_snd_queue kcp) \<union> set (kcp_snd_buf kcp). int (length (seg_data s)) + 24 \<le> sint mtu"
  shows "kcp_inv w (snd (ikcp_setmtu got mtu kcp))"
proof (cases "50 \<le> sint mtu \<and> got")
  case True
  have sm: "sint mtu = int (unat mtu)" using True by (intro sint_32_unat) simp
  have m: "50 \<le> unat mtu" "unat mtu < 1073741824" using True assms(2) sm by linarith+
  have b: "unat ((mtu + 24) * 3) = 3 * (unat mtu + 24)"
    using m by (simp add: unat_word_ariths)
  have mss: "unat (mtu - 24) = unat mtu - 24"
    using m by (simp add: unat_sub word_le_nat_alt)
  have ok: "seg_ok (unat mtu - 24) s"
    if "s \<in> set (kcp_snd_queue kcp) \<union> set (kcp_snd_buf kcp)" for s
  proof -
    have "int (length (seg_data s)) + 24 \<le> sint mtu" using that assms(3) by blast
    then have "length (seg_data s) \<le> unat mtu - 24" using sm by linarith
    moreover have "seg_len s = of_nat (length (seg_data s))"
      using that assms(1) by (auto simp: inv_defs seg_ok_def)
    ultimately show ?thesis by (simp add: seg_ok_def)
  qed
  have "ikcp_setmtu got mtu kcp = (0, kcp\<lparr>kcp_mtu := mtu, kcp_mss := mtu - 24, kcp_buffer := unat ((mtu + 24) * 3)\<rparr>)"
    using True by (simp add: ikcp_setmtu_def)
  then have eq: "snd (ikcp_setmtu got mtu kcp) =
      kcp\<lparr>kcp_mtu := mtu, kcp_mss := mtu - 24, kcp_buffer := unat ((mtu + 24) * 3)\<rparr>" by simp
  have "snd_inv (snd (ikcp_setmtu got mtu kcp))"
    using kcp_invD(3) [OF assms(1)] ok mss unfolding eq snd_inv_def snd_wins_def una_tight_def in_flight_def
    by auto
  then show ?thesis
    using kcp_invD [OF assms(1)] m b unfolding eq
    by (intro kcp_invI) (auto simp: sizes_inv_def elim: inv_intros)
next
  case False
  then have "snd (ikcp_setmtu got mtu kcp) = kcp" by (auto simp: ikcp_setmtu_def)
  with assms(1) show ?thesis by simp
qed

section \<open>Sending and receiving\<close>

lemma send_inv:
  assumes "kcp_inv w kcp" and "alloc_ok alloc" and "unat len \<le> length bs"
  shows "\<exists>r q n. ikcp_send alloc (Some bs) len kcp = Inr (r, kcp\<lparr>kcp_snd_queue := q, kcp_nsnd_que := n\<rparr>) \<and>
    kcp_inv w (kcp\<lparr>kcp_snd_queue := q, kcp_nsnd_que := n\<rparr>)"
proof -
  have same: ?thesis if "ikcp_send alloc (Some bs) len kcp = Inr (r, kcp)" for r
    by (rule exI [of _ r], rule exI [of _ "kcp_snd_queue kcp"], rule exI [of _ "kcp_nsnd_que kcp"])
       (use that assms(1) in simp)
  have mss: "0 < sint (kcp_mss kcp)" using assms(1) sizes_mss(2) by (simp add: kcp_inv_def)
  have okq: "\<forall>s \<in> set (kcp_snd_queue kcp). seg_ok (unat (kcp_mss kcp)) s"
    and nq: "kcp_nsnd_que kcp = of_nat (length (kcp_snd_queue kcp))"
    using assms(1) by (auto simp: inv_defs)
  have upd: "kcp_inv w (kcp\<lparr>kcp_snd_queue := q, kcp_nsnd_que := of_nat (length q)\<rparr>)"
    if "\<forall>s \<in> set q. seg_ok (unat (kcp_mss kcp)) s" for q
  proof -
    have "snd_inv (kcp\<lparr>kcp_snd_queue := q, kcp_nsnd_que := of_nat (length q)\<rparr>)"
      using kcp_invD(3) [OF assms(1)] that
      unfolding snd_inv_def snd_wins_def una_tight_def in_flight_def by auto
    then show ?thesis
      using kcp_invD [OF assms(1)] by (intro kcp_invI) (auto elim: inv_intros)
  qed
  consider "sint len < 0" | "0 \<le> sint len" "kcp_stream kcp = 0" | "0 \<le> sint len" "kcp_stream kcp \<noteq> 0"
    by linarith
  then show ?thesis
  proof cases
    case 1
    then have "ikcp_send alloc (Some bs) len kcp = Inr (-1, kcp)" using mss by (auto simp: ikcp_send_def word_gt_0)
    then show ?thesis by (rule same)
  next
    case 2
    let ?c = "unat (send_count (kcp_mss kcp) len)"
    obtain segs where eq: "ikcp_send alloc (Some bs) len kcp =
        (if 128 \<le> ?c then Inr (-2, kcp)
         else Inr (0, kcp\<lparr>kcp_snd_queue := kcp_snd_queue kcp @ segs,
                         kcp_nsnd_que := kcp_nsnd_que kcp + of_nat ?c\<rparr>))"
      and sa: "sent_as (unat (kcp_mss kcp)) True (chunks (unat (kcp_mss kcp)) ?c (take (unat len) bs)) segs"
      using ikcp_send_message [OF assms(2) mss 2(2,1) assms(3)] by blast
    have "length segs = ?c" using sent_as_length [OF sa] by simp
    moreover have "\<forall>s \<in> set (kcp_snd_queue kcp @ segs). seg_ok (unat (kcp_mss kcp)) s"
      using okq sa by (auto simp: sent_as_def)
    ultimately have "kcp_inv w (kcp\<lparr>kcp_snd_queue := kcp_snd_queue kcp @ segs, kcp_nsnd_que := kcp_nsnd_que kcp + of_nat ?c\<rparr>)"
      using upd [of "kcp_snd_queue kcp @ segs"] nq by simp
    then have "?thesis" if "\<not> 128 \<le> ?c"
      unfolding eq if_not_P [OF that] by blast
    moreover have "?thesis" if "128 \<le> ?c"
      by (rule same [of "-2"]) (simp only: eq that if_True)
    ultimately show ?thesis by blast
  next
    case 3
    show ?thesis
      using assms(2) mss 3(2,1) assms(3) okq
    proof (cases rule: ikcp_send_stream)
      case (whole q n)
      have "n = of_nat (length q)" using whole(4) nq by (simp add: diff_eq_eq)
      then show ?thesis using whole(1) upd [OF whole(3)] by blast
    next
      case (part q n)
      then have "kcp_nsnd_que kcp = of_nat (length q)" using nq by simp
      then have eq: "kcp\<lparr>kcp_snd_queue := q\<rparr> = kcp\<lparr>kcp_snd_queue := q, kcp_nsnd_que := of_nat (length q)\<rparr>"
        by simp
      have "ikcp_send alloc (Some bs) len kcp = Inr (-2, kcp\<lparr>kcp_snd_queue := q, kcp_nsnd_que := of_nat (length q)\<rparr>)"
        using part(1) by (simp only: eq [symmetric])
      then show ?thesis using upd [OF part(5)] by blast
    qed
  qed
qed

text \<open>What the receive side leaves alone.\<close>

lemma rcv_frame:
  assumes "kcp_inv w kcp" and "rcv_inv w kcp'"
    and "kcp' = kcp\<lparr>kcp_rcv_buf := rb, kcp_nrcv_buf := nb, kcp_rcv_queue := rq, kcp_nrcv_que := nq,
           kcp_rcv_nxt := rn, kcp_probe := pr\<rparr>"
  shows "kcp_inv w kcp'"
  using kcp_invD [OF assms(1)] assms(2) unfolding assms(3)
  by (intro kcp_invI) (auto elim: inv_intros)

lemma recv_inv:
  assumes "kcp_inv w kcp" and "\<bar>sint len\<bar> \<le> int cap" and "queue_bytes (kcp_rcv_queue kcp) < 4294967296"
  shows "\<exists>n out kcp'. ikcp_recv (Some cap) len kcp = Inr (n, out, kcp') \<and> kcp_inv w kcp' \<and>
    kcp_output kcp' = kcp_output kcp"
proof (cases "kcp_rcv_queue kcp \<noteq> [] \<and> 0 \<le> sint (ikcp_peeksize kcp) \<and> len \<noteq> 2147483648 \<and>
    sint (ikcp_peeksize kcp) \<le> \<bar>sint len\<bar>")
  case True
  let ?k = "move_rcv (drop_msg (sint len < 0) kcp)"
  let ?k' = "tell_window (kcp_nrcv_que kcp \<ge> kcp_rcv_wnd kcp) ?k"
  have ri: "rcv_inv w kcp" using assms(1) by (simp add: kcp_inv_def)
  have "rcv_inv w ?k'" using ri by (simp add: move_rcv_inv drop_msg_inv)
  moreover have "?k' = kcp\<lparr>kcp_rcv_buf := kcp_rcv_buf ?k', kcp_nrcv_buf := kcp_nrcv_buf ?k',
      kcp_rcv_queue := kcp_rcv_queue ?k', kcp_nrcv_que := kcp_nrcv_que ?k',
      kcp_rcv_nxt := kcp_rcv_nxt ?k', kcp_probe := kcp_probe ?k'\<rparr>"
    by (rule move_rcv_shape [of "drop_msg (sint len < 0) kcp"])
       (simp add: drop_msg_def Let_def tell_window_def)
  ultimately have "kcp_inv w ?k'" by (rule rcv_frame [OF assms(1)])
  moreover have "kcp_output ?k' = kcp_output kcp"
    by (rule move_rcv_shape [of "drop_msg (sint len < 0) kcp"])
       (simp add: drop_msg_def Let_def tell_window_def)
  ultimately show ?thesis using ikcp_recv_ok [OF ri] True assms(2,3) by blast
next
  case False
  then have "\<exists>r. ikcp_recv (Some cap) len kcp = Inr (r, [], kcp)"
    using ikcp_recv_refused [where kcp = kcp and buffer = "Some cap" and len = len] by (metis not_le)
  then show ?thesis using assms(1) by auto
qed

section \<open>The example connection\<close>

lemma demo_inv: "kcp_inv 128 demo_kcp" "kcp_output demo_kcp"
proof -
  have "ikcp_create True True 17 = Some (the (ikcp_create True True 17))" by (simp add: ikcp_create_def)
  then show "kcp_inv 128 demo_kcp" unfolding demo_kcp_def by (intro setoutput_inv ikcp_create_inv)
qed (simp add: demo_simps)

end
