(* ===== verification/Kcp_Input.thy ===== *)
theory Kcp_Input
  imports Kcp_Inv
begin

text \<open>
  \<open>ikcp_input\<close>: one datagram from the network, a sequence of segments. Each segment updates the
  remote window, takes acknowledged segments out of the send buffer and then does what its
  command says; after the loop, duplicate acknowledgements are counted and the congestion
  window grows.
\<close>

unbundle bit_operations_syntax

section \<open>One segment of a datagram\<close>

text \<open>The branch for \<open>IKCP_CMD_ACK\<close>; \<open>maxack\<close> and \<open>flag\<close> are the local variables of the loop.\<close>

definition input_ack :: "ikcp_head \<Rightarrow> u32 \<Rightarrow> bool \<Rightarrow> IKCPCB \<Rightarrow> u32 \<times> bool \<times> IKCPCB" where
  "input_ack h maxack flag kcp =
     (let kcp = (if itimediff (kcp_current kcp) (h_ts h) \<ge> 0
                 then ikcp_update_ack (word_of_int (itimediff (kcp_current kcp) (h_ts h))) kcp
                 else kcp);
          kcp = ikcp_shrink_buf (ikcp_parse_ack (h_sn h) kcp)
      in if \<not> flag then (h_sn h, True, kcp)
         else if itimediff (h_sn h) maxack > 0 then (h_sn h, flag, kcp)
         else (maxack, flag, kcp))"

text \<open>The branch for \<open>IKCP_CMD_PUSH\<close>. The allocator's result is used without a check.\<close>

definition input_push :: "bool \<Rightarrow> seg_alloc \<Rightarrow> nat \<Rightarrow> ikcp_head \<Rightarrow> u8 list \<Rightarrow> IKCPCB \<Rightarrow> IKCPCB result" where
  "input_push got_block alloc i h data kcp =
     (if itimediff (h_sn h) (kcp_rcv_nxt kcp + kcp_rcv_wnd kcp) < 0 then
        bind_result (ikcp_ack_push got_block (h_sn h) (h_ts h) kcp) (\<lambda>kcp.
        if itimediff (h_sn h) (kcp_rcv_nxt kcp) \<ge> 0 then
          case alloc i (unat (h_len h)) of
            None \<Rightarrow> Inl Null_deref
          | Some seg \<Rightarrow>
              bind_result (if h_len h > 0 then read_bytes (unat (h_len h)) data
                           else Inr (seg_data seg)) (\<lambda>payload.
              Inr (ikcp_parse_data
                (seg\<lparr>seg_conv := h_conv h, seg_cmd := ucast (h_cmd h), seg_frg := ucast (h_frg h),
                     seg_wnd := ucast (h_wnd h), seg_ts := h_ts h, seg_sn := h_sn h,
                     seg_una := h_una h, seg_len := h_len h, seg_data := payload\<rparr>) kcp))
        else Inr kcp)
      else Inr kcp)"

definition known_cmd :: "u8 \<Rightarrow> bool" where
  "known_cmd cmd \<longleftrightarrow> cmd = IKCP_CMD_PUSH \<or> cmd = IKCP_CMD_ACK \<or> cmd = IKCP_CMD_WASK \<or> cmd = IKCP_CMD_WINS"

definition input_seg :: "bool \<Rightarrow> seg_alloc \<Rightarrow> nat \<Rightarrow> ikcp_head \<Rightarrow> u8 list \<Rightarrow> u32 \<Rightarrow> bool \<Rightarrow> IKCPCB \<Rightarrow>
    (u32 \<times> bool \<times> IKCPCB) result" where
  "input_seg got_block alloc i h data maxack flag kcp =
     (let kcp = ikcp_shrink_buf (ikcp_parse_una (h_una h) (kcp\<lparr>kcp_rmt_wnd := ucast (h_wnd h)\<rparr>)) in
      if h_cmd h = IKCP_CMD_ACK then Inr (input_ack h maxack flag kcp)
      else if h_cmd h = IKCP_CMD_PUSH then
        bind_result (input_push got_block alloc i h data kcp) (\<lambda>kcp. Inr (maxack, flag, kcp))
      else if h_cmd h = IKCP_CMD_WASK then
        Inr (maxack, flag, kcp\<lparr>kcp_probe := kcp_probe kcp OR IKCP_ASK_TELL\<rparr>)
      else Inr (maxack, flag, kcp))"

section \<open>The loop over the datagram\<close>

text \<open>
  The result carries the return code: 0 when the loop ends by \<open>break\<close>, a negative value when it
  returns from inside. The size shrinks by at least the header in every round, which is the
  termination argument.
\<close>

function input_loop :: "bool \<Rightarrow> seg_alloc \<Rightarrow> nat \<Rightarrow> u8 list \<Rightarrow> s32 \<Rightarrow> u32 \<Rightarrow> bool \<Rightarrow> IKCPCB \<Rightarrow>
    (s32 \<times> u32 \<times> bool \<times> IKCPCB) result" where
  "input_loop got_block alloc i data sz maxack flag kcp =
     (if sint sz < sint IKCP_OVERHEAD then Inr (0, maxack, flag, kcp)
      else bind_result (ikcp_decode32u data) (\<lambda>(conv, data).
      if conv \<noteq> kcp_conv kcp then Inr (-1, maxack, flag, kcp)
      else bind_result (ikcp_decode_rest conv data) (\<lambda>(h, data).
      let sz' = sz - IKCP_OVERHEAD in
      if sint sz' < sint (h_len h) \<or> sint (h_len h) < 0 then Inr (-2, maxack, flag, kcp)
      else if \<not> known_cmd (h_cmd h) then Inr (-3, maxack, flag, kcp)
      else bind_result (input_seg got_block alloc i h data maxack flag kcp) (\<lambda>(maxack, flag, kcp).
        input_loop got_block alloc (Suc i) (drop (unat (h_len h)) data) (sz' - h_len h)
          maxack flag kcp))))"
  by pat_completeness auto

lemma input_loop_size:
  assumes "\<not> sint (sz :: s32) < sint IKCP_OVERHEAD"
    and "\<not> (sint (sz - IKCP_OVERHEAD) < sint len \<or> sint len < 0)"
  shows "sint (sz - IKCP_OVERHEAD - len) = sint sz - 24 - sint len"
    and "0 \<le> sint (sz - IKCP_OVERHEAD - len)"
proof -
  have "sint (sz - IKCP_OVERHEAD) = sint sz - 24"
    using assms(1) sint_32_diff [of IKCP_OVERHEAD sz] by simp
  then show "sint (sz - IKCP_OVERHEAD - len) = sint sz - 24 - sint len"
    and "0 \<le> sint (sz - IKCP_OVERHEAD - len)"
    using assms(2) sint_32_diff [of len "sz - IKCP_OVERHEAD"] by auto
qed

termination input_loop
proof (relation "measure (\<lambda>(_, _, _, _, sz, _). nat (sint sz))", goal_cases)
  case (2 got_block alloc i data sz maxack flag kcp cx conv data' rx h data'' sz' mx maxack' fx flag' kcp')
  then have "sint (sz - IKCP_OVERHEAD - h_len h) = sint sz - 24 - sint (h_len h)" "0 \<le> sint (h_len h)"
    "24 \<le> sint sz"
    using input_loop_size [of sz "h_len h"] by auto
  with 2 show ?case by simp
qed simp

declare input_loop.simps [simp del]

section \<open>The operation\<close>

definition grow_cwnd :: "u32 \<Rightarrow> IKCPCB \<Rightarrow> IKCPCB result" where
  "grow_cwnd una kcp =
     (if itimediff (kcp_snd_una kcp) una > 0 \<and> kcp_cwnd kcp < kcp_rmt_wnd kcp then
        let mss = kcp_mss kcp in
        bind_result
          (if kcp_cwnd kcp < kcp_ssthresh kcp
           then Inr (kcp\<lparr>kcp_cwnd := kcp_cwnd kcp + 1, kcp_incr := kcp_incr kcp + mss\<rparr>)
           else let incr = (if kcp_incr kcp < mss then mss else kcp_incr kcp) in
                if incr = 0 then Inl Division_by_zero
                else let incr = incr + ((mss * mss) div incr + mss div 16) in
                     Inr (kcp\<lparr>kcp_cwnd := (if (kcp_cwnd kcp + 1) * mss \<le> incr
                                           then kcp_cwnd kcp + 1 else kcp_cwnd kcp),
                              kcp_incr := incr\<rparr>)) (\<lambda>kcp.
        if kcp_cwnd kcp > kcp_rmt_wnd kcp
        then Inr (kcp\<lparr>kcp_cwnd := kcp_rmt_wnd kcp, kcp_incr := kcp_rmt_wnd kcp * mss\<rparr>)
        else Inr kcp)
      else Inr kcp)"

definition ikcp_input :: "bool \<Rightarrow> seg_alloc \<Rightarrow> u8 list option \<Rightarrow> s32 \<Rightarrow> IKCPCB \<Rightarrow> (s32 \<times> IKCPCB) result" where
  "ikcp_input got_block alloc data sz kcp =
     (let una = kcp_snd_una kcp in
      case data of
        None \<Rightarrow> Inr (-1, kcp)
      | Some bytes \<Rightarrow>
          if sint sz < sint IKCP_OVERHEAD then Inr (-1, kcp)
          else bind_result (input_loop got_block alloc 0 bytes sz 0 False kcp) (\<lambda>(ret, maxack, flag, kcp).
          if ret \<noteq> 0 then Inr (ret, kcp)
          else let kcp = (if flag then ikcp_parse_fastack maxack kcp else kcp) in
          bind_result (grow_cwnd una kcp) (\<lambda>kcp. Inr (0, kcp))))"

section \<open>Robustness: no datagram makes the code fault\<close>

text \<open>What acknowledgements may touch, and what a data segment may touch: two states are related
  when they agree on everything else.\<close>

definition but_snd :: "IKCPCB \<Rightarrow> IKCPCB" where
  "but_snd kcp = kcp\<lparr>kcp_snd_buf := [], kcp_nsnd_buf := 0, kcp_snd_una := 0, kcp_rx_srtt := 0,
     kcp_rx_rttval := 0, kcp_rx_rto := 0\<rparr>"

definition but_rcv :: "IKCPCB \<Rightarrow> IKCPCB" where
  "but_rcv kcp = kcp\<lparr>kcp_rcv_buf := [], kcp_nrcv_buf := 0, kcp_rcv_queue := [], kcp_nrcv_que := 0,
     kcp_rcv_nxt := 0\<rparr>"

lemma but_snd_ops [simp]:
  "but_snd (ikcp_shrink_buf kcp) = but_snd kcp"
  "but_snd (ikcp_parse_ack sn kcp) = but_snd kcp"
  "but_snd (ikcp_parse_una una kcp) = but_snd kcp"
  "but_snd (ikcp_parse_fastack sn kcp) = but_snd kcp"
  "but_snd (ikcp_update_ack rtt kcp) = but_snd kcp"
proof -
  show "but_snd (ikcp_parse_una una kcp) = but_snd kcp"
    by (rule parse_una_shape [of kcp una]) (simp add: but_snd_def)
qed (simp_all add: but_snd_def ikcp_shrink_buf_def ikcp_parse_ack_def ikcp_parse_fastack_def
       ikcp_update_ack_def Let_def split: prod.split)

lemma but_rcv_ops [simp]:
  "but_rcv (move_rcv kcp) = but_rcv kcp"
  "but_rcv (ikcp_parse_data s kcp) = but_rcv kcp"
proof -
  show mv: "but_rcv (move_rcv kcp) = but_rcv kcp" for kcp
    by (rule move_rcv_shape [of kcp]) (simp add: but_rcv_def)
  show "but_rcv (ikcp_parse_data s kcp) = but_rcv kcp"
    by (auto simp: ikcp_parse_data_def Let_def mv split: prod.split) (simp_all add: but_rcv_def)
qed

lemma but_snd_eqD:
  assumes "but_snd k' = but_snd k"
  shows "kcp_mtu k' = kcp_mtu k" "kcp_mss k' = kcp_mss k" "kcp_buffer k' = kcp_buffer k"
    "kcp_nrcv_buf k' = kcp_nrcv_buf k" "kcp_nrcv_que k' = kcp_nrcv_que k" "kcp_rcv_buf k' = kcp_rcv_buf k"
    "kcp_rcv_queue k' = kcp_rcv_queue k" "kcp_rcv_wnd k' = kcp_rcv_wnd k" "kcp_rcv_nxt k' = kcp_rcv_nxt k"
    "kcp_ackcount k' = kcp_ackcount k" "kcp_acklist k' = kcp_acklist k" "kcp_ackblock k' = kcp_ackblock k"
    "kcp_conv k' = kcp_conv k" "kcp_snd_nxt k' = kcp_snd_nxt k" "kcp_snd_queue k' = kcp_snd_queue k"
    "kcp_stream k' = kcp_stream k" "kcp_output k' = kcp_output k"
  using arg_cong [OF assms, of kcp_mtu] arg_cong [OF assms, of kcp_mss] arg_cong [OF assms, of kcp_buffer]
    arg_cong [OF assms, of kcp_nrcv_buf] arg_cong [OF assms, of kcp_nrcv_que] arg_cong [OF assms, of kcp_rcv_buf]
    arg_cong [OF assms, of kcp_rcv_queue] arg_cong [OF assms, of kcp_rcv_wnd] arg_cong [OF assms, of kcp_rcv_nxt]
    arg_cong [OF assms, of kcp_ackcount] arg_cong [OF assms, of kcp_acklist] arg_cong [OF assms, of kcp_ackblock]
    arg_cong [OF assms, of kcp_conv] arg_cong [OF assms, of kcp_snd_nxt] arg_cong [OF assms, of kcp_snd_queue]
    arg_cong [OF assms, of kcp_stream] arg_cong [OF assms, of kcp_output]
  by (simp_all add: but_snd_def)

lemma but_rcv_eqD:
  assumes "but_rcv k' = but_rcv k"
  shows "kcp_mtu k' = kcp_mtu k" "kcp_mss k' = kcp_mss k" "kcp_buffer k' = kcp_buffer k"
    "kcp_nsnd_buf k' = kcp_nsnd_buf k" "kcp_nsnd_que k' = kcp_nsnd_que k" "kcp_snd_buf k' = kcp_snd_buf k"
    "kcp_snd_queue k' = kcp_snd_queue k" "kcp_rmt_wnd k' = kcp_rmt_wnd k" "kcp_snd_una k' = kcp_snd_una k"
    "kcp_snd_nxt k' = kcp_snd_nxt k"
    "kcp_ackcount k' = kcp_ackcount k" "kcp_acklist k' = kcp_acklist k" "kcp_ackblock k' = kcp_ackblock k"
    "kcp_conv k' = kcp_conv k" "kcp_rcv_wnd k' = kcp_rcv_wnd k" "kcp_stream k' = kcp_stream k" "kcp_output k' = kcp_output k"
  using arg_cong [OF assms, of kcp_mtu] arg_cong [OF assms, of kcp_mss] arg_cong [OF assms, of kcp_buffer]
    arg_cong [OF assms, of kcp_nsnd_buf] arg_cong [OF assms, of kcp_nsnd_que] arg_cong [OF assms, of kcp_snd_buf]
    arg_cong [OF assms, of kcp_snd_queue] arg_cong [OF assms, of kcp_rmt_wnd] arg_cong [OF assms, of kcp_snd_una]
    arg_cong [OF assms, of kcp_snd_nxt]
    arg_cong [OF assms, of kcp_ackcount] arg_cong [OF assms, of kcp_acklist] arg_cong [OF assms, of kcp_ackblock]
    arg_cong [OF assms, of kcp_conv] arg_cong [OF assms, of kcp_rcv_wnd] arg_cong [OF assms, of kcp_stream] arg_cong [OF assms, of kcp_output]
  by (simp_all add: but_rcv_def)

lemma but_snd_inv:
  assumes "but_snd kcp' = but_snd kcp" and "kcp_inv w kcp" and "snd_inv kcp'"
  shows "kcp_inv w kcp'"
  using kcp_invD [OF assms(2)] assms(3)
  by (intro kcp_invI) (erule inv_intros; simp add: but_snd_eqD [OF assms(1)])+

lemma but_rcv_inv:
  assumes "but_rcv kcp' = but_rcv kcp" and "kcp_inv w kcp" and "rcv_inv w kcp'"
  shows "kcp_inv w kcp'"
  using kcp_invD [OF assms(2)] assms(3)
  by (intro kcp_invI) (erule inv_intros; simp add: but_rcv_eqD [OF assms(1)])+

lemma input_una_inv:
  assumes "kcp_inv w kcp"
  shows "kcp_inv w (ikcp_shrink_buf (ikcp_parse_una una (kcp\<lparr>kcp_rmt_wnd := ucast (wnd :: u16)\<rparr>)))"
proof -
  let ?k = "kcp\<lparr>kcp_rmt_wnd := ucast wnd\<rparr>"
  have "unat wnd < 65536" using unsigned_less [of wnd] by simp
  then have w16: "unat (ucast wnd :: u32) \<le> 65535" by (simp add: unsigned_ucast_eq take_bit_nat_eq_self)
  have "snd_inv ?k"
    using kcp_invD(3) [OF assms] w16
    unfolding snd_inv_def snd_wins_def una_tight_def in_flight_def by auto
  then have k: "kcp_inv w ?k" "snd_wins ?k"
    using kcp_invD [OF assms] by (auto simp: kcp_inv_def snd_inv_def elim: inv_intros)
  then have "snd_inv (ikcp_shrink_buf (ikcp_parse_una una ?k))"
    by (intro shrink_buf_inv parse_una_wins)
  with k(1) show ?thesis by (rule but_snd_inv [rotated]) simp
qed

lemma input_ack_inv:
  assumes "kcp_inv w kcp" and "input_ack h maxack flag kcp = (m, f, kcp')"
  shows "kcp_inv w kcp'" and "but_snd kcp' = but_snd kcp" and "snd_keys kcp' \<subseteq> snd_keys kcp"
proof -
  define k where "k = (if itimediff (kcp_current kcp) (h_ts h) \<ge> 0
    then ikcp_update_ack (word_of_int (itimediff (kcp_current kcp) (h_ts h))) kcp else kcp)"
  have k: "kcp' = ikcp_shrink_buf (ikcp_parse_ack (h_sn h) k)"
    using assms(2) unfolding input_ack_def k_def [symmetric] Let_def by (auto split: if_splits)
  show so: "but_snd kcp' = but_snd kcp" unfolding k by (simp add: k_def)
  have "snd_inv k" using kcp_invD(3) [OF assms(1)] by (simp add: k_def)
  then have "snd_inv kcp'" unfolding k by (intro shrink_buf_inv parse_ack_wins) (simp add: snd_inv_def)
  then show "kcp_inv w kcp'" by (rule but_snd_inv [OF so assms(1)])
  show "snd_keys kcp' \<subseteq> snd_keys kcp"
  proof -
    have "snd_keys k = snd_keys kcp" by (simp add: k_def snd_keys_ops(5))
    then show ?thesis using snd_keys_ops(2) [of "h_sn h" k] by (simp add: k snd_keys_ops(1))
  qed
qed

text \<open>What one segment may do: it keeps the invariant and the configuration, and adds at most one
  pending acknowledgement.\<close>

definition input_step :: "nat \<Rightarrow> IKCPCB \<Rightarrow> IKCPCB \<Rightarrow> bool" where
  "input_step w kcp kcp' \<longleftrightarrow> kcp_inv w kcp' \<and> kcp_conv kcp' = kcp_conv kcp \<and>
     kcp_snd_nxt kcp' = kcp_snd_nxt kcp \<and> kcp_snd_queue kcp' = kcp_snd_queue kcp \<and>
     kcp_mtu kcp' = kcp_mtu kcp \<and> kcp_mss kcp' = kcp_mss kcp \<and> kcp_stream kcp' = kcp_stream kcp \<and>
     kcp_output kcp' = kcp_output kcp \<and> snd_keys kcp' \<subseteq> snd_keys kcp"

lemma input_step_trans: "input_step w a b \<Longrightarrow> input_step w b c \<Longrightarrow> input_step w a c"
  by (auto simp: input_step_def)

lemma input_step_refl: "kcp_inv w kcp \<Longrightarrow> input_step w kcp kcp"
  by (simp add: input_step_def)

lemma ack_push_inv:
  assumes "kcp_inv w kcp" and "length (kcp_acklist kcp) < 268435456"
  obtains kcp' where "ikcp_ack_push True sn ts kcp = Inr kcp'" and "input_step w kcp kcp'"
    and "length (kcp_acklist kcp') = Suc (length (kcp_acklist kcp))"
    and "kcp_rcv_nxt kcp' = kcp_rcv_nxt kcp" and "kcp_rcv_queue kcp' = kcp_rcv_queue kcp"
    and "kcp_rcv_buf kcp' = kcp_rcv_buf kcp" and "kcp_rcv_wnd kcp' = kcp_rcv_wnd kcp"
    and "kcp_snd_buf kcp' = kcp_snd_buf kcp"
proof -
  obtain b where run: "ikcp_ack_push True sn ts kcp = Inr (kcp\<lparr>kcp_ackblock := b,
      kcp_acklist := kcp_acklist kcp @ [(sn, ts)], kcp_ackcount := kcp_ackcount kcp + 1\<rparr>)"
    and b: "Suc (length (kcp_acklist kcp)) \<le> unat b"
    using ack_push_ok [OF kcp_invD(4) [OF assms(1)] assms(2)] by blast
  let ?k = "kcp\<lparr>kcp_ackblock := b, kcp_acklist := kcp_acklist kcp @ [(sn, ts)], kcp_ackcount := kcp_ackcount kcp + 1\<rparr>"
  have "ack_inv ?k" using kcp_invD(4) [OF assms(1)] b by (simp add: ack_inv_def)
  then have "kcp_inv w ?k"
    using kcp_invD [OF assms(1)] by (intro kcp_invI) (auto elim: inv_intros)
  with run show thesis by (intro that [of ?k]) (simp_all add: input_step_def snd_keys_def)
qed

lemma input_push_inv:
  assumes "kcp_inv w kcp" and "alloc_ok alloc" and "length (kcp_acklist kcp) < 268435456"
    and "0 \<le> sint (h_len h)" and "unat (h_len h) \<le> length data"
  obtains kcp' where "input_push True alloc i h data kcp = Inr kcp'" and "input_step w kcp kcp'"
    and "length (kcp_acklist kcp') \<le> Suc (length (kcp_acklist kcp))"
proof (cases "itimediff (h_sn h) (kcp_rcv_nxt kcp + kcp_rcv_wnd kcp) < 0")
  case False
  then show ?thesis using that [of kcp] assms(1) by (simp add: input_push_def input_step_refl)
next
  case True
  obtain k where k: "ikcp_ack_push True (h_sn h) (h_ts h) kcp = Inr k" "input_step w kcp k"
      "length (kcp_acklist k) = Suc (length (kcp_acklist kcp))"
    by (rule ack_push_inv [OF assms(1,3)])
  obtain seg where seg: "alloc i (unat (h_len h)) = Some seg" "length (seg_data seg) = unat (h_len h)"
    using assms(2) by (auto simp: alloc_ok_def)
  obtain payload where pl: "(if h_len h > 0 then read_bytes (unat (h_len h)) data else Inr (seg_data seg)) = Inr payload"
    "length payload = unat (h_len h)"
  proof (cases "h_len h > 0")
    case True
    then show ?thesis using that [of "take (unat (h_len h)) data"] assms(5) by (simp add: read_bytes_ok)
  qed (use that [of "seg_data seg"] seg in simp)
  let ?s = "seg\<lparr>seg_conv := h_conv h, seg_cmd := ucast (h_cmd h), seg_frg := ucast (h_frg h),
    seg_wnd := ucast (h_wnd h), seg_ts := h_ts h, seg_sn := h_sn h, seg_una := h_una h,
    seg_len := h_len h, seg_data := payload\<rparr>"
  have "seg_ok 2147483647 ?s"
    using pl(2) assms(4) by (intro seg_okI) (simp_all add: sint_32_nonneg_iff)
  moreover have ki: "kcp_inv w k" using k(2) by (simp add: input_step_def)
  ultimately have "rcv_inv w (ikcp_parse_data ?s k)" by (intro parse_data_inv kcp_invD(2))
  then have pi: "kcp_inv w (ikcp_parse_data ?s k)" by (rule but_rcv_inv [OF _ ki, rotated]) simp
  have ps: "input_step w kcp (ikcp_parse_data ?s k)"
    using k(2) pi but_rcv_eqD [OF but_rcv_ops(2) [of ?s k]] by (simp add: input_step_def snd_keys_def)
  show ?thesis
  proof (cases "itimediff (h_sn h) (kcp_rcv_nxt k) \<ge> 0")
    case a: True
    have "input_push True alloc i h data kcp = Inr (ikcp_parse_data ?s k)"
      using True k(1) a seg(1) pl(1) by (simp add: input_push_def)
    then show ?thesis
      using that ps k(3) but_rcv_eqD(12) [OF but_rcv_ops(2) [of ?s k]] by simp
  next
    case b: False
    then have "input_push True alloc i h data kcp = Inr k"
      using True k(1) by (simp add: input_push_def)
    then show ?thesis using that k by simp
  qed
qed

lemma input_seg_inv:
  assumes "kcp_inv w kcp" and "alloc_ok alloc" and "length (kcp_acklist kcp) < 268435456"
    and "0 \<le> sint (h_len h)" and "unat (h_len h) \<le> length data"
  obtains m f kcp' where "input_seg True alloc i h data maxack flag kcp = Inr (m, f, kcp')"
    and "input_step w kcp kcp'" and "length (kcp_acklist kcp') \<le> Suc (length (kcp_acklist kcp))"
proof -
  define k where "k = ikcp_shrink_buf (ikcp_parse_una (h_una h) (kcp\<lparr>kcp_rmt_wnd := ucast (h_wnd h)\<rparr>))"
  have "but_snd k = but_snd (kcp\<lparr>kcp_rmt_wnd := ucast (h_wnd h)\<rparr>)" by (simp add: k_def)
  note fr = but_snd_eqD [OF this]
  have ki: "kcp_inv w k" using input_una_inv [OF assms(1)] by (simp add: k_def)
  have "snd_keys k \<subseteq> snd_keys kcp"
    using snd_keys_ops(3) [of "h_una h" "kcp\<lparr>kcp_rmt_wnd := ucast (h_wnd h)\<rparr>"]
    by (simp add: k_def snd_keys_ops(1)) (simp add: snd_keys_def)
  then have ks: "input_step w kcp k" using ki fr by (simp add: input_step_def)
  have la: "length (kcp_acklist k) = length (kcp_acklist kcp)" using fr by simp
  note unf = input_seg_def k_def [symmetric] Let_def
  consider "h_cmd h = 82" | "h_cmd h = 81" | "h_cmd h = 83" | "h_cmd h \<notin> {81, 82, 83}" by blast
  then show thesis
  proof cases
    case 1
    obtain m f k' where ia: "input_ack h maxack flag k = (m, f, k')" by (metis prod_cases3)
    note ii = input_ack_inv [OF ki ia]
    have "input_step w k k'" "length (kcp_acklist k') = length (kcp_acklist k)"
      using ii(1,3) but_snd_eqD [OF ii(2)] by (simp_all add: input_step_def)
    then show ?thesis
      using 1 ia ks la by (intro that [of m f k']) (auto simp: unf elim: input_step_trans)
  next
    case 2
    obtain k' where "input_push True alloc i h data k = Inr k'" "input_step w k k'"
      "length (kcp_acklist k') \<le> Suc (length (kcp_acklist k))"
      using input_push_inv [OF ki assms(2) _ assms(4,5)] assms(3) la by metis
    then show ?thesis
      using 2 ks la by (intro that [of maxack flag k']) (auto simp: unf elim: input_step_trans)
  next
    case 3
    have "kcp_inv w (k\<lparr>kcp_probe := kcp_probe k OR 2\<rparr>)"
      using kcp_invD [OF ki] by (intro kcp_invI) (auto elim: inv_intros)
    then have "input_step w kcp (k\<lparr>kcp_probe := kcp_probe k OR 2\<rparr>)"
      using ks by (simp add: input_step_def snd_keys_def)
    then show ?thesis using 3 la by (intro that) (auto simp: unf)
  next
    case 4
    then show ?thesis using ks la by (intro that [of maxack flag k]) (auto simp: unf)
  qed
qed

text \<open>The loop over arbitrary bytes, as long as the caller's size is not larger than the datagram.\<close>

lemma decode_take:
  assumes "24 \<le> length data"
  obtains h conv p where "ikcp_decode32u data = Inr (conv, p)"
    and "ikcp_decode_rest conv p = Inr (h, drop 24 data)" and "h_conv h = conv"
    and "data = ikcp_encode_head h @ drop 24 data"
proof -
  obtain h where h: "ikcp_decode_head data = Inr (h, drop 24 data)" "data = ikcp_encode_head h @ drop 24 data"
    using hd.dec_takes [OF assms] by blast
  then obtain conv p where "ikcp_decode32u data = Inr (conv, p)" "ikcp_decode_rest conv p = Inr (h, drop 24 data)"
    by (auto simp: ikcp_decode_head_def)
  then show thesis using that h(2) decode_rest_Inr by metis
qed

lemma input_loop_step:
  assumes "\<not> sint sz < 24" and "ikcp_decode32u data = Inr (conv, p)"
    and "ikcp_decode_rest conv p = Inr (h, rest)"
  shows "input_loop got_block alloc i data sz maxack flag kcp =
    (if conv \<noteq> kcp_conv kcp then Inr (-1, maxack, flag, kcp)
     else if sint (sz - 24) < sint (h_len h) \<or> sint (h_len h) < 0 then Inr (-2, maxack, flag, kcp)
     else if \<not> known_cmd (h_cmd h) then Inr (-3, maxack, flag, kcp)
     else bind_result (input_seg got_block alloc i h rest maxack flag kcp) (\<lambda>(maxack, flag, kcp).
       input_loop got_block alloc (Suc i) (drop (unat (h_len h)) rest) (sz - 24 - h_len h) maxack flag kcp))"
  using assms
  by (cases "conv = kcp_conv kcp"; subst input_loop.simps) (simp_all add: Let_def del: bind_result_eq_Inr)

lemma input_loop_inv:
  assumes "alloc_ok alloc" and "kcp_inv w kcp" and "sint sz \<le> int (length data)"
    and "length (kcp_acklist kcp) + nat (sint sz) < 268435456"
  shows "\<exists>r m f kcp'. input_loop True alloc i data sz maxack flag kcp = Inr (r, m, f, kcp') \<and> input_step w kcp kcp'"
  using assms(2-)
proof (induction "nat (sint sz)" arbitrary: i data sz maxack flag kcp rule: less_induct)
  case less
  show ?case
  proof (cases "sint sz < 24")
    case True
    then show ?thesis using less.prems(1) by (simp add: input_loop.simps input_step_refl)
  next
    case False
    then have "24 \<le> length data" using less.prems(2) by linarith
    then obtain h conv p where d: "ikcp_decode32u data = Inr (conv, p)"
        "ikcp_decode_rest conv p = Inr (h, drop 24 data)" by (rule decode_take)
    let ?sz = "sz - IKCP_OVERHEAD" and ?data = "drop 24 data"
    note unf = input_loop_step [OF False d]
    consider "conv \<noteq> kcp_conv kcp \<or> sint ?sz < sint (h_len h) \<or> sint (h_len h) < 0 \<or> \<not> known_cmd (h_cmd h)"
      | "conv = kcp_conv kcp" "\<not> (sint ?sz < sint (h_len h) \<or> sint (h_len h) < 0)" "known_cmd (h_cmd h)"
      by blast
    then show ?thesis
    proof cases
      case 1
      then have "\<exists>r. input_loop True alloc i data sz maxack flag kcp = Inr (r, maxack, flag, kcp)"
        by (auto simp: unf)
      then show ?thesis using input_step_refl [OF less.prems(1)] by blast
    next
      case 2
      have szs: "sint (?sz - h_len h) = sint sz - 24 - sint (h_len h)" "0 \<le> sint (?sz - h_len h)"
        using input_loop_size [OF _ 2(2)] False by simp_all
      have hl: "0 \<le> sint (h_len h)" using 2(2) by simp
      then have hn: "int (unat (h_len h)) = sint (h_len h)" using sint_32_unat by metis
      have room: "unat (h_len h) \<le> length ?data" using szs hn less.prems(2) False by (simp del: of_nat_unat)
      have "length (kcp_acklist kcp) < 268435456" using less.prems(3) by simp
      then obtain m f k where st: "input_seg True alloc i h ?data maxack flag kcp = Inr (m, f, k)"
          "input_step w kcp k" "length (kcp_acklist k) \<le> Suc (length (kcp_acklist kcp))"
        by (rule input_seg_inv [OF less.prems(1) assms(1) _ hl room])
      have "\<exists>r m' f' k'. input_loop True alloc (Suc i) (drop (unat (h_len h)) ?data) (?sz - h_len h) m f k =
          Inr (r, m', f', k') \<and> input_step w k k'"
      proof (rule less.hyps)
        show "nat (sint (?sz - h_len h)) < nat (sint sz)" using szs hl False by linarith
        show "kcp_inv w k" using st(2) by (simp add: input_step_def)
        show "sint (?sz - h_len h) \<le> int (length (drop (unat (h_len h)) ?data))"
          using szs hn room less.prems(2) by (simp del: of_nat_unat add: of_nat_diff)
        show "length (kcp_acklist k) + nat (sint (?sz - h_len h)) < 268435456"
          using st(3) szs less.prems(3) hl False by linarith
      qed
      then obtain r m' f' k' where fin: "input_loop True alloc (Suc i) (drop (unat (h_len h)) ?data) (?sz - h_len h) m f k =
          Inr (r, m', f', k')" "input_step w k k'" by blast
      have "input_loop True alloc i data sz maxack flag kcp = Inr (r, m', f', k')"
        using 2 st(1) fin(1) by (auto simp: unf)
      then show ?thesis using st(2) fin(2) input_step_trans by blast
    qed
  qed
qed

lemma grow_cwnd_shape:
  assumes "kcp_inv w kcp"
  shows "\<exists>a b. grow_cwnd una kcp = Inr (kcp\<lparr>kcp_cwnd := a, kcp_incr := b\<rparr>)"
proof -
  have "kcp_mss kcp \<noteq> 0" using sizes_mss(3) [OF kcp_invD(1) [OF assms]] by auto
  then have nz: "(if kcp_incr kcp < kcp_mss kcp then kcp_mss kcp else kcp_incr kcp) \<noteq> 0"
    using word_gt_0 [of "kcp_mss kcp"] by auto
  show ?thesis
  proof (cases "itimediff (kcp_snd_una kcp) una > 0 \<and> kcp_cwnd kcp < kcp_rmt_wnd kcp")
    case True
    define incr where "incr = (if kcp_incr kcp < kcp_mss kcp then kcp_mss kcp else kcp_incr kcp)"
    have "\<exists>a b. (if kcp_cwnd kcp < kcp_ssthresh kcp
           then Inr (kcp\<lparr>kcp_cwnd := kcp_cwnd kcp + 1, kcp_incr := kcp_incr kcp + kcp_mss kcp\<rparr>)
           else if incr = 0 then Inl Division_by_zero
                else let incr = incr + ((kcp_mss kcp * kcp_mss kcp) div incr + kcp_mss kcp div 16) in
                     Inr (kcp\<lparr>kcp_cwnd := (if (kcp_cwnd kcp + 1) * kcp_mss kcp \<le> incr
                                           then kcp_cwnd kcp + 1 else kcp_cwnd kcp),
                              kcp_incr := incr\<rparr>)) = Inr (kcp\<lparr>kcp_cwnd := a, kcp_incr := b\<rparr>)"
      using nz unfolding incr_def [symmetric] Let_def by (cases "kcp_cwnd kcp < kcp_ssthresh kcp") (simp only: if_True if_False, blast)+
    with True show ?thesis
      unfolding grow_cwnd_def Let_def incr_def by (elim exE) auto
  next
    case False
    then have "grow_cwnd una kcp = Inr (kcp\<lparr>kcp_cwnd := kcp_cwnd kcp, kcp_incr := kcp_incr kcp\<rparr>)"
      by (auto simp: grow_cwnd_def)
    then show ?thesis by blast
  qed
qed

lemma grow_cwnd_ok:
  assumes "kcp_inv w kcp"
  shows "\<exists>kcp'. grow_cwnd una kcp = Inr kcp' \<and> input_step w kcp kcp'"
proof -
  have "input_step w kcp (kcp\<lparr>kcp_cwnd := a, kcp_incr := b\<rparr>)" for a b
    using kcp_invD [OF assms] by (auto simp: input_step_def kcp_inv_def snd_keys_def elim: inv_intros)
  then show ?thesis using grow_cwnd_shape [OF assms] by blast
qed

lemma ikcp_input_ok:
  assumes "kcp_inv w kcp" and "alloc_ok alloc" and "sint sz \<le> int (length data)"
    and "length (kcp_acklist kcp) + nat (sint sz) < 268435456"
  shows "\<exists>r kcp'. ikcp_input True alloc (Some data) sz kcp = Inr (r, kcp') \<and> input_step w kcp kcp'"
proof (cases "sint sz < 24")
  case True
  then show ?thesis using assms(1) by (simp add: ikcp_input_def input_step_refl)
next
  case False
  obtain r m f k where lp: "input_loop True alloc 0 data sz 0 False kcp = Inr (r, m, f, k)" "input_step w kcp k"
    using input_loop_inv [OF assms(2,1,3,4)] by blast
  show ?thesis
  proof (cases "r = 0")
    case True
    let ?k = "if f then ikcp_parse_fastack m k else k"
    have ki: "kcp_inv w k" using lp(2) by (simp add: input_step_def)
    have fi: "kcp_inv w ?k"
      using but_snd_inv [of "ikcp_parse_fastack m k" k] ki parse_fastack_inv kcp_invD(3) by auto
    have "input_step w k ?k"
      using fi but_snd_eqD [OF but_snd_ops(4), of m k] ki by (auto simp: input_step_def snd_keys_ops)
    moreover obtain k' where "grow_cwnd (kcp_snd_una kcp) ?k = Inr k'" "input_step w ?k k'"
      using grow_cwnd_ok [OF fi] by blast
    ultimately show ?thesis
      using lp True False by (intro exI [of _ 0] exI [of _ k']) (auto simp: ikcp_input_def Let_def elim: input_step_trans)
  next
    case r: False
    then show ?thesis using lp False by (auto simp: ikcp_input_def)
  qed
qed

section \<open>Properties\<close>

text \<open>
  C4. No datagram can hurt: for every sequence of bytes and every size up to its length,
  \<open>ikcp_input\<close> returns without reading outside the datagram, dividing by zero or failing an
  \<open>assert\<close>, and the invariant of the control block is kept.
\<close>

theorem input_any_datagram:
  assumes "kcp_inv w kcp" and "alloc_ok alloc" and "sint sz \<le> int (length data)"
    and "length (kcp_acklist kcp) + nat (sint sz) < 268435456"
  shows "\<exists>r kcp'. ikcp_input True alloc (Some data) sz kcp = Inr (r, kcp') \<and> kcp_inv w kcp'"
  using ikcp_input_ok [OF assms] by (auto simp: input_step_def)

theorem input_any_datagram_witness:
  "\<exists>r kcp'. ikcp_input True demo_alloc (Some [17, 0, 0, 0, 81, 0]) 6 demo_kcp = Inr (r, kcp') \<and> kcp_inv 128 kcp'"
proof -
  have "kcp_acklist demo_kcp = []" by (simp add: demo_simps)
  then show ?thesis
    using input_any_datagram [OF demo_inv(1) demo_alloc_ok, of 6 "[17, 0, 0, 0, 81, 0]"] by simp
qed

end
