(* ===== verification/Kcp_Flush.thy ===== *)
theory Kcp_Flush
  imports Kcp_Inv
begin

text \<open>
  \<open>ikcp_flush\<close> and the clock: pending acknowledgements, window probes, new and retransmitted data
  segments are packed into datagrams of at most \<open>mtu\<close> bytes; \<open>ikcp_update\<close> calls it on the
  interval and \<open>ikcp_check\<close> tells when the next call is due.

  The packing state \<open>pk\<close> is the bytes between \<open>buffer\<close> and \<open>ptr\<close> and the datagrams handed to
  the output callback so far.
\<close>

unbundle bit_operations_syntax

type_synonym pk = "u8 list \<times> u8 list list"

section \<open>Packing\<close>

definition ikcp_output :: "IKCPCB \<Rightarrow> u8 list \<Rightarrow> u8 list list \<Rightarrow> u8 list list result" where
  "ikcp_output kcp data outs =
     bind_result (guard_result Assert_failed (kcp_output kcp)) (\<lambda>_.
       if data = [] then Inr outs else Inr (outs @ [data]))"

text \<open>\<open>if (size + need > (int)kcp->mtu) { ikcp_output(kcp, buffer, size); ptr = buffer; }\<close>\<close>

definition flush_room :: "IKCPCB \<Rightarrow> u32 \<Rightarrow> pk \<Rightarrow> pk result" where
  "flush_room kcp need = (\<lambda>(buf, outs).
     if sint (of_nat (length buf) + need) > sint (kcp_mtu kcp)
     then bind_result (ikcp_output kcp buf outs) (\<lambda>outs. Inr ([], outs))
     else Inr (buf, outs))"

text \<open>Storing bytes at \<open>ptr\<close>, which must stay inside the allocated buffer.\<close>

definition flush_put :: "IKCPCB \<Rightarrow> u8 list \<Rightarrow> pk \<Rightarrow> pk result" where
  "flush_put kcp bytes = (\<lambda>(buf, outs).
     if length buf + length bytes \<le> kcp_buffer kcp then Inr (buf @ bytes, outs)
     else Inl Write_out_of_bounds)"

definition flush_ctl :: "IKCPCB \<Rightarrow> IKCPSEG \<Rightarrow> pk \<Rightarrow> pk result" where
  "flush_ctl kcp seg pk =
     bind_result (flush_room kcp IKCP_OVERHEAD pk) (flush_put kcp (ikcp_encode_seg seg))"

section \<open>Acknowledgements and window probes\<close>

text \<open>\<open>for (i = 0; i < count; i++)\<close> over the pending acknowledgements; \<open>seg\<close> keeps the numbers of
  the last one.\<close>

fun flush_acks :: "IKCPCB \<Rightarrow> nat \<Rightarrow> nat \<Rightarrow> IKCPSEG \<Rightarrow> pk \<Rightarrow> (IKCPSEG \<times> pk) result" where
  "flush_acks kcp i 0 seg pk = Inr (seg, pk)"
| "flush_acks kcp i (Suc n) seg pk =
     bind_result (flush_room kcp IKCP_OVERHEAD pk) (\<lambda>pk.
     bind_result (ikcp_ack_get i kcp) (\<lambda>(sn, ts).
       let seg = seg\<lparr>seg_sn := sn, seg_ts := ts\<rparr> in
       bind_result (flush_put kcp (ikcp_encode_seg seg) pk) (\<lambda>pk.
         flush_acks kcp (Suc i) n seg pk)))"

definition flush_probe :: "IKCPCB \<Rightarrow> IKCPCB" where
  "flush_probe kcp =
     (if kcp_rmt_wnd kcp = 0 then
        if kcp_probe_wait kcp = 0
        then kcp\<lparr>kcp_probe_wait := IKCP_PROBE_INIT,
                 kcp_ts_probe := kcp_current kcp + IKCP_PROBE_INIT\<rparr>
        else if itimediff (kcp_current kcp) (kcp_ts_probe kcp) \<ge> 0 then
          let wait = (if kcp_probe_wait kcp < IKCP_PROBE_INIT then IKCP_PROBE_INIT
                      else kcp_probe_wait kcp);
              wait = wait + wait div 2;
              wait = (if wait > IKCP_PROBE_LIMIT then IKCP_PROBE_LIMIT else wait)
          in kcp\<lparr>kcp_probe_wait := wait, kcp_ts_probe := kcp_current kcp + wait,
                 kcp_probe := kcp_probe kcp OR IKCP_ASK_SEND\<rparr>
        else kcp
      else kcp\<lparr>kcp_ts_probe := 0, kcp_probe_wait := 0\<rparr>)"

section \<open>Data segments\<close>

text \<open>\<open>while (_itimediff(kcp->snd_nxt, kcp->snd_una + cwnd) < 0)\<close>: from \<open>snd_queue\<close> to \<open>snd_buf\<close>.\<close>

fun move_snd_loop :: "u32 \<Rightarrow> u32 \<Rightarrow> u32 \<Rightarrow> IKCPSEG list \<Rightarrow> IKCPCB \<Rightarrow> IKCPCB" where
  "move_snd_loop current wnd cwnd [] kcp = kcp"
| "move_snd_loop current wnd cwnd (newseg # rest) kcp =
     (if itimediff (kcp_snd_nxt kcp) (kcp_snd_una kcp + cwnd) < 0 then
        move_snd_loop current wnd cwnd rest
          (kcp\<lparr>kcp_snd_queue := rest,
               kcp_snd_buf := kcp_snd_buf kcp @
                 [newseg\<lparr>seg_conv := kcp_conv kcp, seg_cmd := IKCP_CMD_PUSH, seg_wnd := wnd,
                         seg_ts := current, seg_sn := kcp_snd_nxt kcp, seg_una := kcp_rcv_nxt kcp,
                         seg_resendts := current, seg_rto := kcp_rx_rto kcp, seg_fastack := 0,
                         seg_xmit := 0\<rparr>],
               kcp_nsnd_que := kcp_nsnd_que kcp - 1, kcp_nsnd_buf := kcp_nsnd_buf kcp + 1,
               kcp_snd_nxt := kcp_snd_nxt kcp + 1\<rparr>)
      else kcp)"

text \<open>The three reasons to transmit a segment: first transmission, timeout, fast retransmission.\<close>

datatype send_reason = First | Timeout | Fast | Not_due

definition send_reason_of :: "u32 \<Rightarrow> u32 \<Rightarrow> IKCPSEG \<Rightarrow> send_reason" where
  "send_reason_of current resent segment =
     (if seg_xmit segment = 0 then First
      else if itimediff current (seg_resendts segment) \<ge> 0 then Timeout
      else if seg_fastack segment \<ge> resent then Fast
      else Not_due)"

definition mark_segment :: "u32 \<Rightarrow> u32 \<Rightarrow> IKCPCB \<Rightarrow> send_reason \<Rightarrow> IKCPSEG \<Rightarrow> IKCPSEG" where
  "mark_segment current rtomin kcp reason segment =
     (case reason of
        First \<Rightarrow> segment\<lparr>seg_xmit := seg_xmit segment + 1, seg_rto := kcp_rx_rto kcp,
                         seg_resendts := current + kcp_rx_rto kcp + rtomin\<rparr>
      | Timeout \<Rightarrow>
          let rto = seg_rto segment + (if kcp_nodelay kcp = 0 then kcp_rx_rto kcp
                                       else s32_div (kcp_rx_rto kcp) 2)
          in segment\<lparr>seg_xmit := seg_xmit segment + 1, seg_rto := rto, seg_resendts := current + rto\<rparr>
      | Fast \<Rightarrow> segment\<lparr>seg_xmit := seg_xmit segment + 1, seg_fastack := 0,
                        seg_resendts := current + seg_rto segment\<rparr>
      | Not_due \<Rightarrow> segment)"

definition transmit :: "u32 \<Rightarrow> u32 \<Rightarrow> IKCPCB \<Rightarrow> IKCPSEG \<Rightarrow> pk \<Rightarrow> (IKCPSEG \<times> IKCPCB \<times> pk) result" where
  "transmit current wnd kcp segment pk =
     (let segment = segment\<lparr>seg_ts := current, seg_wnd := wnd, seg_una := kcp_rcv_nxt kcp\<rparr>;
          need = IKCP_OVERHEAD + seg_len segment in
      bind_result (flush_room kcp need pk) (\<lambda>pk.
      bind_result (flush_put kcp (ikcp_encode_seg segment) pk) (\<lambda>pk.
      bind_result (if seg_len segment > 0
                   then bind_result (read_bytes (unat (seg_len segment)) (seg_data segment))
                          (\<lambda>bs. flush_put kcp bs pk)
                   else Inr pk) (\<lambda>pk.
      let kcp = (if seg_xmit segment \<ge> kcp_dead_link kcp then kcp\<lparr>kcp_state := -1\<rparr> else kcp)
      in Inr (segment, kcp, pk)))))"

text \<open>The loop over \<open>snd_buf\<close>: the updated segments, the local flags \<open>lost\<close> and \<open>change\<close>, the state
  and the packing state.\<close>

fun flush_segs :: "u32 \<Rightarrow> u32 \<Rightarrow> u32 \<Rightarrow> u32 \<Rightarrow> IKCPSEG list \<Rightarrow> bool \<Rightarrow> bool \<Rightarrow> IKCPCB \<Rightarrow> pk \<Rightarrow>
    (IKCPSEG list \<times> bool \<times> bool \<times> IKCPCB \<times> pk) result" where
  "flush_segs current resent rtomin wnd [] lost change kcp pk = Inr ([], lost, change, kcp, pk)"
| "flush_segs current resent rtomin wnd (segment # p) lost change kcp pk =
     (let reason = send_reason_of current resent segment;
          segment = mark_segment current rtomin kcp reason segment;
          kcp = (if reason = Timeout then kcp\<lparr>kcp_xmit := kcp_xmit kcp + 1\<rparr> else kcp);
          lost = (lost \<or> reason = Timeout);
          change = (change \<or> reason = Fast) in
      bind_result (if reason \<noteq> Not_due then transmit current wnd kcp segment pk
                   else Inr (segment, kcp, pk)) (\<lambda>(segment, kcp, pk).
      bind_result (flush_segs current resent rtomin wnd p lost change kcp pk)
        (\<lambda>(segs, lost, change, kcp, pk). Inr (segment # segs, lost, change, kcp, pk))))"

section \<open>The operation\<close>

definition flush_window :: "IKCPCB \<Rightarrow> u32" where
  "flush_window kcp =
     (let cwnd = imin (kcp_snd_wnd kcp) (kcp_rmt_wnd kcp)
      in if kcp_nocwnd kcp = 0 then imin (kcp_cwnd kcp) cwnd else cwnd)"

definition flush_ssthresh :: "bool \<Rightarrow> bool \<Rightarrow> u32 \<Rightarrow> u32 \<Rightarrow> IKCPCB \<Rightarrow> IKCPCB" where
  "flush_ssthresh lost change resent cwnd kcp =
     (let kcp = (if change then
                   let inflight = kcp_snd_nxt kcp - kcp_snd_una kcp;
                       ssthresh = imax (inflight div 2) IKCP_THRESH_MIN
                   in kcp\<lparr>kcp_ssthresh := ssthresh, kcp_cwnd := ssthresh + resent,
                          kcp_incr := (ssthresh + resent) * kcp_mss kcp\<rparr>
                 else kcp);
          kcp = (if lost then
                   kcp\<lparr>kcp_ssthresh := imax (cwnd div 2) IKCP_THRESH_MIN, kcp_cwnd := 1,
                       kcp_incr := kcp_mss kcp\<rparr>
                 else kcp)
      in if kcp_cwnd kcp < 1 then kcp\<lparr>kcp_cwnd := 1, kcp_incr := kcp_mss kcp\<rparr> else kcp)"

definition flush_template :: "IKCPCB \<Rightarrow> IKCPSEG" where
  "flush_template kcp =
     \<lparr>seg_conv = kcp_conv kcp, seg_cmd = IKCP_CMD_ACK, seg_frg = 0, seg_wnd = ikcp_wnd_unused kcp,
      seg_ts = 0, seg_sn = 0, seg_una = kcp_rcv_nxt kcp, seg_len = 0, seg_resendts = 0, seg_rto = 0,
      seg_fastack = 0, seg_xmit = 0, seg_data = []\<rparr>"

definition ikcp_flush :: "IKCPCB \<Rightarrow> (u8 list list \<times> IKCPCB) result" where
  "ikcp_flush kcp =
     (if kcp_updated kcp = 0 then Inr ([], kcp)
      else let current = kcp_current kcp; seg = flush_template kcp in
      bind_result (flush_acks kcp 0 (nat (sint (kcp_ackcount kcp))) seg ([], [])) (\<lambda>(seg, pk).
      let kcp = flush_probe (kcp\<lparr>kcp_ackcount := 0, kcp_acklist := []\<rparr>) in
      bind_result (if kcp_probe kcp AND IKCP_ASK_SEND \<noteq> 0
                   then flush_ctl kcp (seg\<lparr>seg_cmd := IKCP_CMD_WASK\<rparr>) pk else Inr pk) (\<lambda>pk.
      bind_result (if kcp_probe kcp AND IKCP_ASK_TELL \<noteq> 0
                   then flush_ctl kcp (seg\<lparr>seg_cmd := IKCP_CMD_WINS\<rparr>) pk else Inr pk) (\<lambda>pk.
      let kcp = kcp\<lparr>kcp_probe := 0\<rparr>;
          cwnd = flush_window kcp;
          kcp = move_snd_loop current (seg_wnd seg) cwnd (kcp_snd_queue kcp) kcp;
          resent = (if sint (kcp_fastresend kcp) > 0 then kcp_fastresend kcp else 0xffffffff);
          rtomin = (if kcp_nodelay kcp = 0 then signed_drop_bit 3 (kcp_rx_rto kcp) else 0) in
      bind_result (flush_segs current resent rtomin (seg_wnd seg) (kcp_snd_buf kcp) False False kcp pk)
        (\<lambda>(segs, lost, change, kcp, (buf, outs)).
      bind_result (if buf \<noteq> [] then ikcp_output kcp buf outs else Inr outs) (\<lambda>outs.
        Inr (outs, flush_ssthresh lost change resent cwnd (kcp\<lparr>kcp_snd_buf := segs\<rparr>))))))))"

section \<open>The clock\<close>

definition ikcp_update :: "u32 \<Rightarrow> IKCPCB \<Rightarrow> (u8 list list \<times> IKCPCB) result" where
  "ikcp_update current kcp =
     (let kcp = kcp\<lparr>kcp_current := current\<rparr>;
          kcp = (if kcp_updated kcp = 0 then kcp\<lparr>kcp_updated := 1, kcp_ts_flush := kcp_current kcp\<rparr>
                 else kcp);
          slap = itimediff (kcp_current kcp) (kcp_ts_flush kcp);
          (kcp, slap) = (if slap \<ge> 10000 \<or> slap < -10000
                         then (kcp\<lparr>kcp_ts_flush := kcp_current kcp\<rparr>, 0) else (kcp, slap)) in
      if slap \<ge> 0 then
        let kcp = kcp\<lparr>kcp_ts_flush := kcp_ts_flush kcp + kcp_interval kcp\<rparr>;
            kcp = (if itimediff (kcp_current kcp) (kcp_ts_flush kcp) \<ge> 0
                   then kcp\<lparr>kcp_ts_flush := kcp_current kcp + kcp_interval kcp\<rparr> else kcp)
        in ikcp_flush kcp
      else Inr ([], kcp))"

text \<open>The loop of \<open>ikcp_check\<close>: \<open>None\<close> when a segment is due already, otherwise the shortest time to
  a retransmission, starting from \<open>tm_packet\<close>.\<close>

fun check_loop :: "u32 \<Rightarrow> IKCPSEG list \<Rightarrow> int \<Rightarrow> int option" where
  "check_loop current [] tm_packet = Some tm_packet"
| "check_loop current (seg # p) tm_packet =
     (let diff = itimediff (seg_resendts seg) current in
      if diff \<le> 0 then None
      else check_loop current p (if diff < tm_packet then diff else tm_packet))"

definition ikcp_check :: "u32 \<Rightarrow> IKCPCB \<Rightarrow> u32" where
  "ikcp_check current kcp =
     (if kcp_updated kcp = 0 then current
      else let ts_flush = kcp_ts_flush kcp;
               ts_flush = (if itimediff current ts_flush \<ge> 10000 \<or> itimediff current ts_flush < -10000
                           then current else ts_flush) in
      if itimediff current ts_flush \<ge> 0 then current
      else let tm_flush = itimediff ts_flush current in
      case check_loop current (kcp_snd_buf kcp) 0x7fffffff of
        None \<Rightarrow> current
      | Some tm_packet \<Rightarrow>
          let minimal = word_of_int (if tm_packet < tm_flush then tm_packet else tm_flush) :: u32;
              minimal = (if minimal \<ge> kcp_interval kcp then kcp_interval kcp else minimal)
          in current + minimal)"

section \<open>Datagrams\<close>

text \<open>A segment on the wire.\<close>

definition wire :: "IKCPSEG \<Rightarrow> u8 list" where
  "wire s = ikcp_encode_seg s @ seg_data s"

lemma length_wire [simp]: "length (wire s) = 24 + length (seg_data s)"
  by (simp add: wire_def encode_seg_head hd.enc_width)

lemma length_encode_seg [simp]: "length (ikcp_encode_seg s) = 24"
  by (simp add: encode_seg_head hd.enc_width)

text \<open>A datagram of at most \<open>m\<close> bytes that consists of whole segments satisfying \<open>P\<close>.\<close>

definition packed :: "(seg_key \<Rightarrow> bool) \<Rightarrow> nat \<Rightarrow> u8 list \<Rightarrow> bool" where
  "packed P m d \<longleftrightarrow> length d \<le> m \<and>
     (\<exists>segs. d = concat (map wire segs) \<and> (\<forall>s \<in> set segs. P (key_of s) \<and> seg_ok m s))"

definition pk_ok :: "(seg_key \<Rightarrow> bool) \<Rightarrow> nat \<Rightarrow> pk \<Rightarrow> bool" where
  "pk_ok P m = (\<lambda>(buf, outs). packed P m buf \<and> (\<forall>d \<in> set outs. d \<noteq> [] \<and> packed P m d))"

lemma packed_Nil [simp]: "packed P m []"
  unfolding packed_def by (auto intro: exI [of _ "[]"])

lemma packed_snoc:
  assumes "packed P m d" and "P (key_of s)" and "seg_ok m s" and "length d + length (wire s) \<le> m"
  shows "packed P m (d @ wire s)"
proof -
  obtain segs where "d = concat (map wire segs)" "\<forall>s \<in> set segs. P (key_of s) \<and> seg_ok m s"
    using assms(1) by (auto simp: packed_def)
  then have "d @ wire s = concat (map wire (segs @ [s]))"
      "\<forall>t \<in> set (segs @ [s]). P (key_of t) \<and> seg_ok m t"
    using assms(2,3) by auto
  then show ?thesis using assms(4) unfolding packed_def by (metis length_append)
qed

lemma packed_mono:
  assumes "packed P m d" and "\<And>k. P k \<Longrightarrow> Q k"
  shows "packed Q m d"
  using assms unfolding packed_def by blast

lemma flush_room_ok:
  assumes sz: "sizes_inv kcp" and "kcp_output kcp" and pk: "pk_ok P (unat (kcp_mtu kcp)) pk"
    and need: "unat need \<le> unat (kcp_mtu kcp)"
  obtains buf outs where "flush_room kcp need pk = Inr (buf, outs)"
    and "pk_ok P (unat (kcp_mtu kcp)) (buf, outs)" and "length buf + unat need \<le> unat (kcp_mtu kcp)"
proof -
  obtain buf outs where pkeq: "pk = (buf, outs)" by fastforce
  let ?m = "unat (kcp_mtu kcp)"
  have m: "?m < 1073741824" using sz by (simp add: sizes_inv_def)
  have lb: "length buf \<le> ?m" using pk pkeq by (simp add: pk_ok_def packed_def)
  have u: "unat (of_nat (length buf) + need) = length buf + unat need"
    using lb need m by (simp add: unat_word_ariths unat_of_nat)
  have "0 \<le> sint (of_nat (length buf) + need)" "0 \<le> sint (kcp_mtu kcp)"
    using u lb need m by (simp_all add: sint_32_nonneg_iff)
  then have test: "sint (of_nat (length buf) + need) > sint (kcp_mtu kcp) \<longleftrightarrow> ?m < length buf + unat need"
    using u by (simp add: sint_32_less_iff)
  show thesis
  proof (cases "?m < length buf + unat need")
    case True
    let ?outs = "if buf = [] then outs else outs @ [buf]"
    have "flush_room kcp need pk = Inr ([], ?outs)"
      using True test assms(2) pkeq by (simp add: flush_room_def ikcp_output_def)
    moreover have "pk_ok P ?m ([], ?outs)" using pk pkeq by (auto simp: pk_ok_def)
    ultimately show ?thesis using that need by simp
  next
    case False
    then show ?thesis using that [of buf outs] test pk pkeq by (simp add: flush_room_def)
  qed
qed

lemma flush_put_ok:
  assumes "sizes_inv kcp" and "length buf + length bs \<le> unat (kcp_mtu kcp)"
  shows "flush_put kcp bs (buf, outs) = Inr (buf @ bs, outs)"
  using assms by (simp add: flush_put_def sizes_inv_def)

lemma flush_ctl_ok:
  assumes "sizes_inv kcp" and "kcp_output kcp" and "pk_ok P (unat (kcp_mtu kcp)) pk"
    and "seg_data s = []" and "seg_len s = 0" and "P (key_of s)"
  obtains pk' where "flush_ctl kcp s pk = Inr pk'" and "pk_ok P (unat (kcp_mtu kcp)) pk'"
proof -
  have n: "unat (24 :: u32) \<le> unat (kcp_mtu kcp)" using assms(1) by (simp add: sizes_inv_def)
  obtain buf outs where r: "flush_room kcp 24 pk = Inr (buf, outs)" "pk_ok P (unat (kcp_mtu kcp)) (buf, outs)"
      "length buf + unat (24 :: u32) \<le> unat (kcp_mtu kcp)"
    by (rule flush_room_ok [OF assms(1-3) n])
  have "wire s = ikcp_encode_seg s" using assms(4) by (simp add: wire_def)
  then have "packed P (unat (kcp_mtu kcp)) (buf @ ikcp_encode_seg s)"
    using packed_snoc [of P "unat (kcp_mtu kcp)" buf s] r(2,3) assms(4-6) by (simp add: pk_ok_def seg_ok_def)
  then have "pk_ok P (unat (kcp_mtu kcp)) (buf @ ikcp_encode_seg s, outs)"
    using r(2) by (simp add: pk_ok_def)
  moreover have "flush_ctl kcp s pk = Inr (buf @ ikcp_encode_seg s, outs)"
    using r assms(1) by (simp add: flush_ctl_def flush_put_ok)
  ultimately show thesis using that by blast
qed

lemma flush_acks_ok:
  assumes "sizes_inv kcp" and "kcp_output kcp" and "pk_ok P (unat (kcp_mtu kcp)) pk"
    and "seg_data s = []" and "seg_len s = 0" and "i + n \<le> length (kcp_acklist kcp)"
    and "\<And>sn. P (seg_conv s, seg_cmd s, seg_frg s, sn, [])"
  shows "\<exists>sn ts pk'. flush_acks kcp i n s pk = Inr (s\<lparr>seg_sn := sn, seg_ts := ts\<rparr>, pk') \<and>
    pk_ok P (unat (kcp_mtu kcp)) pk'"
  using assms(3-)
proof (induction n arbitrary: i s pk)
  case 0
  then show ?case by (intro exI [of _ "seg_sn s"] exI [of _ "seg_ts s"] exI [of _ pk]) simp
next
  case (Suc n)
  obtain sn ts where a: "kcp_acklist kcp ! i = (sn, ts)" by fastforce
  let ?s = "s\<lparr>seg_sn := sn, seg_ts := ts\<rparr>"
  have g: "ikcp_ack_get i kcp = Inr (sn, ts)" using Suc.prems(4) a by (simp add: ikcp_ack_get_def)
  have P: "P (key_of ?s)" using Suc.prems(2,5) by (simp add: key_of_def)
  obtain pk1 where c: "flush_ctl kcp ?s pk = Inr pk1" "pk_ok P (unat (kcp_mtu kcp)) pk1"
    by (rule flush_ctl_ok [OF assms(1,2) Suc.prems(1), of ?s]) (use Suc.prems(2,3) P in auto)
  have "\<exists>sn' ts' pk'. flush_acks kcp (Suc i) n ?s pk1 = Inr (?s\<lparr>seg_sn := sn', seg_ts := ts'\<rparr>, pk') \<and>
      pk_ok P (unat (kcp_mtu kcp)) pk'"
    by (rule Suc.IH) (use Suc.prems c(2) in auto)
  moreover have "flush_acks kcp i (Suc n) s pk = flush_acks kcp (Suc i) n ?s pk1"
    using c(1) g by (auto simp: flush_ctl_def)
  ultimately show ?case by auto
qed

section \<open>Filling the send window\<close>

text \<open>One round of the loop that hands out sequence numbers.\<close>

definition number_seg :: "u32 \<Rightarrow> u32 \<Rightarrow> IKCPCB \<Rightarrow> IKCPSEG \<Rightarrow> IKCPSEG" where
  "number_seg current wnd kcp s = s\<lparr>seg_conv := kcp_conv kcp, seg_cmd := IKCP_CMD_PUSH, seg_wnd := wnd,
     seg_ts := current, seg_sn := kcp_snd_nxt kcp, seg_una := kcp_rcv_nxt kcp,
     seg_resendts := current, seg_rto := kcp_rx_rto kcp, seg_fastack := 0, seg_xmit := 0\<rparr>"

definition move_one :: "u32 \<Rightarrow> u32 \<Rightarrow> IKCPSEG \<Rightarrow> IKCPSEG list \<Rightarrow> IKCPCB \<Rightarrow> IKCPCB" where
  "move_one current wnd s rest kcp = kcp\<lparr>kcp_snd_queue := rest,
     kcp_snd_buf := kcp_snd_buf kcp @ [number_seg current wnd kcp s],
     kcp_nsnd_que := kcp_nsnd_que kcp - 1, kcp_nsnd_buf := kcp_nsnd_buf kcp + 1,
     kcp_snd_nxt := kcp_snd_nxt kcp + 1\<rparr>"

lemma move_snd_loop_Cons:
  "move_snd_loop current wnd cwnd (s # rest) kcp =
     (if itimediff (kcp_snd_nxt kcp) (kcp_snd_una kcp + cwnd) < 0
      then move_snd_loop current wnd cwnd rest (move_one current wnd s rest kcp) else kcp)"
  by (simp add: move_one_def number_seg_def)

text \<open>The window test in positions.\<close>

lemma window_open:
  assumes "in_flight kcp \<le> 65535" and "unat cwnd \<le> 65535"
  shows "itimediff (kcp_snd_nxt kcp) (kcp_snd_una kcp + cwnd) < 0 \<longleftrightarrow> in_flight kcp < unat cwnd"
proof -
  have "spos (kcp_snd_una kcp) (kcp_snd_una kcp + cwnd) = unat cwnd" by (simp add: spos_def)
  then have "itimediff (kcp_snd_nxt kcp) (kcp_snd_una kcp + cwnd) = int (in_flight kcp) - int (unat cwnd)"
    using assms itimediff_spos [of "kcp_snd_una kcp" "kcp_snd_nxt kcp" "kcp_snd_una kcp + cwnd"]
    by (simp add: in_flight_def del: of_nat_unat)
  then show ?thesis by linarith
qed

lemma move_one_inv:
  assumes inv: "snd_inv kcp" and q: "kcp_snd_queue kcp = s # rest"
    and open_: "in_flight kcp < unat cwnd" and cw: "unat cwnd \<le> 65535"
  shows "snd_inv (move_one current wnd s rest kcp)"
    and "in_flight (move_one current wnd s rest kcp) = Suc (in_flight kcp)"
proof -
  let ?k = "move_one current wnd s rest kcp" and ?b = "kcp_snd_una kcp" and ?n = "number_seg current wnd kcp s"
  have f: "in_flight kcp \<le> 65534" using open_ cw by simp
  show fl: "in_flight ?k = Suc (in_flight kcp)"
    using f spos_succ [of ?b "kcp_snd_nxt kcp"] by (simp add: in_flight_def move_one_def)
  have win: "in_window ?b (in_flight kcp) (kcp_snd_buf kcp)" using inv by (simp add: snd_inv_def snd_wins_def)
  have "in_window ?b (Suc (in_flight kcp)) (kcp_snd_buf kcp)" using win by (auto simp: in_window_def)
  moreover have "spos ?b (seg_sn ?n) = in_flight kcp" by (simp add: number_seg_def in_flight_def)
  ultimately have "in_window ?b (Suc (in_flight kcp)) (kcp_snd_buf kcp @ [?n])"
    using win by (auto simp: in_window_def sorted_wrt_append)
  moreover have "\<forall>t \<in> set (kcp_snd_buf kcp @ [?n]). seg_ok (unat (kcp_mss kcp)) t"
    "\<forall>t \<in> set rest. seg_ok (unat (kcp_mss kcp)) t"
    using inv q by (auto simp: snd_inv_def snd_wins_def number_seg_def seg_ok_def)
  ultimately have "snd_wins ?k"
    using inv q fl f unfolding snd_inv_def snd_wins_def by (auto simp: move_one_def)
  moreover have "una_tight ?k"
    using inv by (cases "kcp_snd_buf kcp") (auto simp: snd_inv_def una_tight_def move_one_def number_seg_def)
  ultimately show "snd_inv ?k" by (simp add: snd_inv_def)
qed

text \<open>The loop hands out consecutive numbers to a prefix of the queue.\<close>

definition numbered :: "u32 \<Rightarrow> u32 \<Rightarrow> IKCPSEG list \<Rightarrow> IKCPSEG list \<Rightarrow> bool" where
  "numbered conv nxt q ms \<longleftrightarrow> length ms \<le> length q \<and>
     (\<forall>i < length ms. key_of (ms ! i) = (conv, IKCP_CMD_PUSH, seg_frg (q ! i), nxt + of_nat i, seg_data (q ! i)))"

lemma numbered_Nil [simp]: "numbered conv nxt q []"
  by (simp add: numbered_def)

lemma numbered_Cons:
  assumes "numbered conv (nxt + 1) q ms" and "key_of m = (conv, IKCP_CMD_PUSH, seg_frg s, nxt, seg_data s)"
  shows "numbered conv nxt (s # q) (m # ms)"
  using assms by (auto simp: numbered_def nth_Cons split: nat.split)

text \<open>What \<open>ikcp_flush\<close> may change on the send side.\<close>

definition but_out :: "IKCPCB \<Rightarrow> IKCPCB" where
  "but_out kcp = kcp\<lparr>kcp_snd_queue := [], kcp_snd_buf := [], kcp_nsnd_que := 0, kcp_nsnd_buf := 0, kcp_snd_nxt := 0,
     kcp_xmit := 0, kcp_state := 0, kcp_ssthresh := 0, kcp_cwnd := 0, kcp_incr := 0, kcp_probe := 0,
     kcp_probe_wait := 0, kcp_ts_probe := 0, kcp_ackcount := 0, kcp_acklist := []\<rparr>"

lemma but_out_eqD:
  assumes "but_out k' = but_out k"
  shows "kcp_mtu k' = kcp_mtu k" "kcp_mss k' = kcp_mss k" "kcp_buffer k' = kcp_buffer k"
    "kcp_nrcv_buf k' = kcp_nrcv_buf k" "kcp_nrcv_que k' = kcp_nrcv_que k" "kcp_rcv_buf k' = kcp_rcv_buf k"
    "kcp_rcv_queue k' = kcp_rcv_queue k" "kcp_rcv_wnd k' = kcp_rcv_wnd k" "kcp_rcv_nxt k' = kcp_rcv_nxt k"
    "kcp_ackblock k' = kcp_ackblock k" "kcp_rmt_wnd k' = kcp_rmt_wnd k"
    "kcp_conv k' = kcp_conv k" "kcp_snd_una k' = kcp_snd_una k" "kcp_output k' = kcp_output k"
    "kcp_stream k' = kcp_stream k"
  using arg_cong [OF assms, of kcp_mtu] arg_cong [OF assms, of kcp_mss] arg_cong [OF assms, of kcp_buffer]
    arg_cong [OF assms, of kcp_nrcv_buf] arg_cong [OF assms, of kcp_nrcv_que] arg_cong [OF assms, of kcp_rcv_buf]
    arg_cong [OF assms, of kcp_rcv_queue] arg_cong [OF assms, of kcp_rcv_wnd] arg_cong [OF assms, of kcp_rcv_nxt]
    arg_cong [OF assms, of kcp_ackblock] arg_cong [OF assms, of kcp_rmt_wnd]
    arg_cong [OF assms, of kcp_conv] arg_cong [OF assms, of kcp_snd_una] arg_cong [OF assms, of kcp_output]
    arg_cong [OF assms, of kcp_stream]
  by (simp_all add: but_out_def)

lemma move_snd_loop_ok:
  assumes "snd_inv kcp" and "kcp_snd_queue kcp = q" and "unat cwnd \<le> 65535"
  obtains ms where "snd_inv (move_snd_loop current wnd cwnd q kcp)"
    and "but_out (move_snd_loop current wnd cwnd q kcp) = but_out kcp"
    and "kcp_snd_queue (move_snd_loop current wnd cwnd q kcp) = drop (length ms) q"
    and "kcp_snd_buf (move_snd_loop current wnd cwnd q kcp) = kcp_snd_buf kcp @ ms"
    and "kcp_snd_nxt (move_snd_loop current wnd cwnd q kcp) = kcp_snd_nxt kcp + of_nat (length ms)"
    and "kcp_ackcount (move_snd_loop current wnd cwnd q kcp) = kcp_ackcount kcp"
    and "kcp_acklist (move_snd_loop current wnd cwnd q kcp) = kcp_acklist kcp"
    and "in_flight (move_snd_loop current wnd cwnd q kcp) \<le> max (in_flight kcp) (unat cwnd)"
    and "numbered (kcp_conv kcp) (kcp_snd_nxt kcp) q ms"
proof -
  have "\<exists>ms. snd_inv (move_snd_loop current wnd cwnd q kcp) \<and>
    but_out (move_snd_loop current wnd cwnd q kcp) = but_out kcp \<and>
    kcp_snd_queue (move_snd_loop current wnd cwnd q kcp) = drop (length ms) q \<and>
    kcp_snd_buf (move_snd_loop current wnd cwnd q kcp) = kcp_snd_buf kcp @ ms \<and>
    kcp_snd_nxt (move_snd_loop current wnd cwnd q kcp) = kcp_snd_nxt kcp + of_nat (length ms) \<and>
    kcp_ackcount (move_snd_loop current wnd cwnd q kcp) = kcp_ackcount kcp \<and>
    kcp_acklist (move_snd_loop current wnd cwnd q kcp) = kcp_acklist kcp \<and>
    in_flight (move_snd_loop current wnd cwnd q kcp) \<le> max (in_flight kcp) (unat cwnd) \<and>
    numbered (kcp_conv kcp) (kcp_snd_nxt kcp) q ms"
    using assms(1,2)
  proof (induction q arbitrary: kcp)
    case Nil
    then show ?case by (intro exI [of _ "[]"]) simp
  next
    case (Cons s rest)
    have fl: "in_flight kcp \<le> 65535" using Cons.prems(1) by (simp add: snd_inv_def snd_wins_def)
    show ?case
    proof (cases "in_flight kcp < unat cwnd")
      case False
      then have "move_snd_loop current wnd cwnd (s # rest) kcp = kcp"
        using window_open [OF fl assms(3)] by (simp add: move_snd_loop_Cons)
      with Cons.prems show ?thesis by (intro exI [of _ "[]"]) simp
    next
      case True
      let ?k = "move_one current wnd s rest kcp"
      note mo = move_one_inv [OF Cons.prems True assms(3), of current wnd]
      have eq: "move_snd_loop current wnd cwnd (s # rest) kcp = move_snd_loop current wnd cwnd rest ?k"
        using True window_open [OF fl assms(3)] by (simp only: move_snd_loop_Cons if_True)
      have flds: "kcp_snd_queue ?k = rest" "kcp_snd_buf ?k = kcp_snd_buf kcp @ [number_seg current wnd kcp s]"
        "kcp_snd_nxt ?k = kcp_snd_nxt kcp + 1" "kcp_conv ?k = kcp_conv kcp" "but_out ?k = but_out kcp"
        "kcp_ackcount ?k = kcp_ackcount kcp" "kcp_acklist ?k = kcp_acklist kcp"
        by (simp_all add: move_one_def but_out_def)
      note ih = Cons.IH [OF mo(1) flds(1), unfolded flds mo(2)]
      then obtain ms where ms: "snd_inv (move_snd_loop current wnd cwnd rest ?k)"
        "but_out (move_snd_loop current wnd cwnd rest ?k) = but_out kcp"
        "kcp_snd_queue (move_snd_loop current wnd cwnd rest ?k) = drop (length ms) rest"
        "kcp_snd_buf (move_snd_loop current wnd cwnd rest ?k) = (kcp_snd_buf kcp @ [number_seg current wnd kcp s]) @ ms"
        "kcp_snd_nxt (move_snd_loop current wnd cwnd rest ?k) = kcp_snd_nxt kcp + 1 + of_nat (length ms)"
        "kcp_ackcount (move_snd_loop current wnd cwnd rest ?k) = kcp_ackcount kcp"
        "kcp_acklist (move_snd_loop current wnd cwnd rest ?k) = kcp_acklist kcp"
        "in_flight (move_snd_loop current wnd cwnd rest ?k) \<le> max (Suc (in_flight kcp)) (unat cwnd)"
        "numbered (kcp_conv kcp) (kcp_snd_nxt kcp + 1) rest ms" by blast
      have "numbered (kcp_conv kcp) (kcp_snd_nxt kcp) (s # rest) (number_seg current wnd kcp s # ms)"
        by (rule numbered_Cons [OF ms(9)]) (simp add: key_of_def number_seg_def)
      then show ?thesis
        using ms True unfolding eq
        by (intro exI [of _ "number_seg current wnd kcp s # ms"]) (simp add: algebra_simps)
    qed
  qed
  then show thesis using that by blast
qed

section \<open>Transmission\<close>

lemma transmit_ok:
  assumes "sizes_inv kcp" and "kcp_output kcp" and "pk_ok P (unat (kcp_mtu kcp)) pk"
    and "seg_ok (unat (kcp_mss kcp)) s" and "P (key_of s)"
  obtains st pk' where
    "transmit current wnd kcp s pk =
       Inr (s\<lparr>seg_ts := current, seg_wnd := wnd, seg_una := kcp_rcv_nxt kcp\<rparr>, kcp\<lparr>kcp_state := st\<rparr>, pk')"
    and "pk_ok P (unat (kcp_mtu kcp)) pk'"
proof -
  let ?m = "unat (kcp_mtu kcp)"
  let ?s = "s\<lparr>seg_ts := current, seg_wnd := wnd, seg_una := kcp_rcv_nxt kcp\<rparr>"
  have m: "50 \<le> ?m" "?m < 1073741824" "unat (kcp_mss kcp) = ?m - 24"
    using assms(1) sizes_mss(1) [OF assms(1)] by (simp_all add: sizes_inv_def)
  have len: "unat (seg_len s) = length (seg_data s)" "length (seg_data s) \<le> ?m - 24"
    using assms(4) m seg_ok_len [OF assms(4)] by (simp_all add: seg_ok_def)
  have need: "unat (24 + seg_len s) = 24 + length (seg_data s)"
    using len m by (simp add: unat_word_ariths)
  have "unat (24 + seg_len s) \<le> ?m" using need len m by linarith
  then obtain buf outs where r: "flush_room kcp (24 + seg_len s) pk = Inr (buf, outs)"
      "pk_ok P ?m (buf, outs)" "length buf + unat (24 + seg_len s) \<le> ?m"
    by (rule flush_room_ok [OF assms(1-3)])
  have lw: "length buf + (24 + length (seg_data s)) \<le> ?m" using r(3) need by simp
  have "packed P ?m (buf @ wire ?s)"
  proof (rule packed_snoc)
    show "packed P ?m buf" using r(2) by (simp add: pk_ok_def)
    show "P (key_of ?s)" using assms(5) by (simp add: key_of_def)
    show "seg_ok ?m ?s" using assms(4) m seg_ok_mono [of "unat (kcp_mss kcp)" s ?m] by (simp add: seg_ok_def)
    show "length buf + length (wire ?s) \<le> ?m" using lw by simp
  qed
  then have pk: "pk_ok P ?m (buf @ wire ?s, outs)" using r(2) by (simp add: pk_ok_def)
  define st where "st = (if seg_xmit s \<ge> kcp_dead_link kcp then -1 else kcp_state kcp)"
  have put: "flush_put kcp (ikcp_encode_seg ?s) (buf, outs) = Inr (buf @ ikcp_encode_seg ?s, outs)"
    using lw by (intro flush_put_ok [OF assms(1)]) simp
  have put2: "flush_put kcp (seg_data s) (buf @ ikcp_encode_seg ?s, outs) = Inr (buf @ wire ?s, outs)"
    using lw flush_put_ok [OF assms(1), of "buf @ ikcp_encode_seg ?s" "seg_data s"] by (simp add: wire_def)
  have "(if seg_len ?s > 0 then bind_result (read_bytes (unat (seg_len ?s)) (seg_data ?s))
          (\<lambda>bs. flush_put kcp bs (buf @ ikcp_encode_seg ?s, outs)) else Inr (buf @ ikcp_encode_seg ?s, outs)) =
      Inr (buf @ wire ?s, outs)"
  proof (cases "seg_len s = 0")
    case True
    then show ?thesis using len by (simp add: wire_def)
  next
    case False
    then show ?thesis using len put2 by (simp add: word_gt_0 read_bytes_ok)
  qed
  then have "transmit current wnd kcp s pk = Inr (?s, kcp\<lparr>kcp_state := st\<rparr>, buf @ wire ?s, outs)"
    using r(1) put by (simp add: transmit_def Let_def st_def)
  then show thesis using that pk by blast
qed

lemma mark_segment_key [simp]:
  "key_of (mark_segment current rtomin kcp reason s) = key_of s"
  "seg_len (mark_segment current rtomin kcp reason s) = seg_len s"
  "seg_data (mark_segment current rtomin kcp reason s) = seg_data s"
  by (cases reason; simp add: mark_segment_def key_of_def Let_def)+

lemma flush_segs_ok:
  assumes "sizes_inv kcp" and "kcp_output kcp" and "pk_ok P (unat (kcp_mtu kcp)) pk"
    and "\<forall>s \<in> set xs. seg_ok (unat (kcp_mss kcp)) s \<and> P (key_of s)"
  shows "\<exists>segs l c x st pk'.
    flush_segs current resent rtomin wnd xs lost change kcp pk =
      Inr (segs, l, c, kcp\<lparr>kcp_xmit := x, kcp_state := st\<rparr>, pk') \<and>
    map key_of segs = map key_of xs \<and> map seg_len segs = map seg_len xs \<and> pk_ok P (unat (kcp_mtu kcp)) pk'"
  using assms
proof (induction xs arbitrary: lost change kcp pk)
  case Nil
  show ?case
    by (intro exI [of _ "[]"] exI [of _ lost] exI [of _ change] exI [of _ "kcp_xmit kcp"] exI [of _ "kcp_state kcp"]
        exI [of _ pk]) (use Nil.prems(3) in simp)
next
  case (Cons s p)
  define reason where "reason = send_reason_of current resent s"
  define s1 where "s1 = mark_segment current rtomin kcp reason s"
  define k1 where "k1 = (if reason = Timeout then kcp\<lparr>kcp_xmit := kcp_xmit kcp + 1\<rparr> else kcp)"
  define l1 where "l1 = (lost \<or> reason = Timeout)"
  define c1 where "c1 = (change \<or> reason = Fast)"
  have k1: "sizes_inv k1" "kcp_output k1" "kcp_mtu k1 = kcp_mtu kcp" "kcp_mss k1 = kcp_mss kcp"
    using Cons.prems(1,2) by (auto simp: k1_def sizes_inv_def)
  have s1: "seg_ok (unat (kcp_mss k1)) s1" "P (key_of s1)"
    using Cons.prems(4) k1(4) by (auto simp: s1_def seg_ok_def)
  obtain s2 k2 pk2 where t: "(if reason \<noteq> Not_due then transmit current wnd k1 s1 pk else Inr (s1, k1, pk)) =
      Inr (s2, k2, pk2)" "key_of s2 = key_of s" "seg_len s2 = seg_len s"
      "k2 = kcp\<lparr>kcp_xmit := kcp_xmit k2, kcp_state := kcp_state k2\<rparr>" "pk_ok P (unat (kcp_mtu kcp)) pk2"
  proof (cases "reason = Not_due")
    case True
    then show ?thesis using that [of s1 k1 pk] Cons.prems(3) by (simp add: s1_def k1_def)
  next
    case False
    obtain st pk' where "transmit current wnd k1 s1 pk =
        Inr (s1\<lparr>seg_ts := current, seg_wnd := wnd, seg_una := kcp_rcv_nxt k1\<rparr>, k1\<lparr>kcp_state := st\<rparr>, pk')"
        "pk_ok P (unat (kcp_mtu k1)) pk'"
      by (rule transmit_ok [OF k1(1,2), of P pk s1]) (use Cons.prems(3) k1(3) s1 in auto)
    moreover have "key_of (s1\<lparr>seg_ts := current, seg_wnd := wnd, seg_una := kcp_rcv_nxt k1\<rparr>) = key_of s"
      using mark_segment_key(1) [of current rtomin kcp reason s] by (simp add: s1_def key_of_def)
    moreover have "k1\<lparr>kcp_state := st\<rparr> = kcp\<lparr>kcp_xmit := kcp_xmit k1, kcp_state := st\<rparr>" by (simp add: k1_def)
    ultimately show ?thesis using that False k1(3) by (simp add: s1_def)
  qed
  have k2: "sizes_inv k2" "kcp_output k2" "kcp_mtu k2 = kcp_mtu kcp" "kcp_mss k2 = kcp_mss kcp"
    using Cons.prems(1,2) by (subst t(4), simp add: sizes_inv_def)+
  obtain segs l c x st pk' where r: "flush_segs current resent rtomin wnd p l1 c1 k2 pk2 =
      Inr (segs, l, c, k2\<lparr>kcp_xmit := x, kcp_state := st\<rparr>, pk')"
    "map key_of segs = map key_of p" "map seg_len segs = map seg_len p" "pk_ok P (unat (kcp_mtu kcp)) pk'"
    using Cons.IH [of k2 pk2 l1 c1] k2 t(5) Cons.prems(4) by auto
  have "flush_segs current resent rtomin wnd (s # p) lost change kcp pk =
      Inr (s2 # segs, l, c, k2\<lparr>kcp_xmit := x, kcp_state := st\<rparr>, pk')"
    unfolding flush_segs.simps Let_def reason_def [symmetric] s1_def [symmetric] k1_def [symmetric]
      l1_def [symmetric] c1_def [symmetric]
    by (simp only: t(1) r(1) bind_result_simps prod.case)
  moreover have "k2\<lparr>kcp_xmit := x, kcp_state := st\<rparr> = kcp\<lparr>kcp_xmit := x, kcp_state := st\<rparr>"
    by (subst t(4)) simp
  ultimately show ?case using r t(2,3) by auto
qed

section \<open>The flush as a whole\<close>

text \<open>The segments that are not data: acknowledgements and window messages without payload.\<close>

definition ctl_key :: "u32 \<Rightarrow> seg_key \<Rightarrow> bool" where
  "ctl_key conv = (\<lambda>(c, cmd, frg, sn, data). c = conv \<and> cmd \<in> {IKCP_CMD_ACK, IKCP_CMD_WASK, IKCP_CMD_WINS} \<and>
     frg = 0 \<and> data = [])"

lemma ctl_keyI:
  "seg_conv s = conv \<Longrightarrow> seg_cmd s \<in> {82, 83, 84} \<Longrightarrow> seg_frg s = 0 \<Longrightarrow> seg_data s = [] \<Longrightarrow> ctl_key conv (key_of s)"
  by (auto simp: ctl_key_def key_of_def)

lemma flush_window_le: "unat (flush_window kcp) \<le> unat (kcp_rmt_wnd kcp)"
  by (auto simp: flush_window_def Let_def unat_imin)

lemma flush_probe_but_out [simp]: "but_out (flush_probe kcp) = but_out kcp"
  by (simp add: flush_probe_def but_out_def Let_def)

lemma flush_probe_fields [simp]:
  "kcp_snd_queue (flush_probe kcp) = kcp_snd_queue kcp" "kcp_snd_buf (flush_probe kcp) = kcp_snd_buf kcp"
  "kcp_nsnd_que (flush_probe kcp) = kcp_nsnd_que kcp" "kcp_nsnd_buf (flush_probe kcp) = kcp_nsnd_buf kcp"
  "kcp_snd_nxt (flush_probe kcp) = kcp_snd_nxt kcp"
  "kcp_ackcount (flush_probe kcp) = kcp_ackcount kcp" "kcp_acklist (flush_probe kcp) = kcp_acklist kcp"
  by (simp_all add: flush_probe_def Let_def)

lemma flush_ssthresh_frame:
  obtains a b c where "flush_ssthresh lost change resent cwnd kcp = kcp\<lparr>kcp_ssthresh := a, kcp_cwnd := b, kcp_incr := c\<rparr>"
proof -
  let ?k = "flush_ssthresh lost change resent cwnd kcp"
  have "?k = kcp\<lparr>kcp_ssthresh := kcp_ssthresh ?k, kcp_cwnd := kcp_cwnd ?k, kcp_incr := kcp_incr ?k\<rparr>"
    by (simp add: flush_ssthresh_def Let_def)
  then show thesis using that by blast
qed

lemma ackcount_le:
  assumes "ack_inv kcp"
  shows "nat (sint (kcp_ackcount kcp)) \<le> length (kcp_acklist kcp)"
proof -
  have "length (kcp_acklist kcp) < 4294967296"
    using assms unat_32_bound [of "kcp_ackblock kcp"] by (simp add: ack_inv_def)
  then have "unat (kcp_ackcount kcp) = length (kcp_acklist kcp)"
    using assms by (simp add: ack_inv_def unat_of_nat)
  then show ?thesis unfolding sint_32 by auto
qed

lemma key_data_map:
  assumes "map key_of xs = map key_of ys" and "map seg_len xs = map seg_len ys"
  shows "map seg_sn xs = map seg_sn ys"
    and "map (\<lambda>s. (seg_len s, seg_data s)) xs = map (\<lambda>s. (seg_len s, seg_data s)) ys"
proof -
  let ?f = "\<lambda>(c :: u32, m :: u32, f :: u32, n :: u32, d :: u8 list). n"
  have f: "map seg_sn zs = map ?f (map key_of zs)" for zs by (simp add: key_of_def comp_def)
  show "map seg_sn xs = map seg_sn ys" unfolding f assms(1) ..
  let ?g = "\<lambda>(c :: u32, m :: u32, f :: u32, n :: u32, d :: u8 list). d"
  have z: "map (\<lambda>s. (seg_len s, seg_data s)) zs = zip (map seg_len zs) (map ?g (map key_of zs))" for zs
    by (simp add: zip_map_map zip_same_conv_map key_of_def comp_def split_def)
  show "map (\<lambda>s. (seg_len s, seg_data s)) xs = map (\<lambda>s. (seg_len s, seg_data s)) ys"
    unfolding z assms ..
qed

text \<open>The control segments: pending acknowledgements, then the window messages.\<close>

definition flush_head :: "IKCPCB \<Rightarrow> (IKCPSEG \<times> IKCPCB \<times> pk) result" where
  "flush_head kcp =
     bind_result (flush_acks kcp 0 (nat (sint (kcp_ackcount kcp))) (flush_template kcp) ([], [])) (\<lambda>(seg, pk).
      let kcp = flush_probe (kcp\<lparr>kcp_ackcount := 0, kcp_acklist := []\<rparr>) in
      bind_result (if kcp_probe kcp AND IKCP_ASK_SEND \<noteq> 0
                   then flush_ctl kcp (seg\<lparr>seg_cmd := IKCP_CMD_WASK\<rparr>) pk else Inr pk) (\<lambda>pk.
      bind_result (if kcp_probe kcp AND IKCP_ASK_TELL \<noteq> 0
                   then flush_ctl kcp (seg\<lparr>seg_cmd := IKCP_CMD_WINS\<rparr>) pk else Inr pk) (\<lambda>pk.
      Inr (seg, kcp\<lparr>kcp_probe := 0\<rparr>, pk))))"

definition flush_tail :: "u32 \<Rightarrow> IKCPSEG \<Rightarrow> IKCPCB \<Rightarrow> pk \<Rightarrow> (u8 list list \<times> IKCPCB) result" where
  "flush_tail current seg kcp pk =
     (let cwnd = flush_window kcp;
          kcp = move_snd_loop current (seg_wnd seg) cwnd (kcp_snd_queue kcp) kcp;
          resent = (if sint (kcp_fastresend kcp) > 0 then kcp_fastresend kcp else 0xffffffff);
          rtomin = (if kcp_nodelay kcp = 0 then signed_drop_bit 3 (kcp_rx_rto kcp) else 0) in
      bind_result (flush_segs current resent rtomin (seg_wnd seg) (kcp_snd_buf kcp) False False kcp pk)
        (\<lambda>(segs, lost, change, kcp, (buf, outs)).
      bind_result (if buf \<noteq> [] then ikcp_output kcp buf outs else Inr outs) (\<lambda>outs.
        Inr (outs, flush_ssthresh lost change resent cwnd (kcp\<lparr>kcp_snd_buf := segs\<rparr>)))))"

lemma ikcp_flush_split:
  assumes "kcp_updated kcp \<noteq> 0"
  shows "ikcp_flush kcp = bind_result (flush_head kcp) (\<lambda>(seg, k, pk). flush_tail (kcp_current kcp) seg k pk)"
  using assms
  by (auto simp: ikcp_flush_def flush_head_def flush_tail_def bind_result_assoc Let_def split_def
      intro!: bind_result_cong)

lemma flush_head_ok:
  assumes sz: "sizes_inv kcp" and ack: "ack_inv kcp" and out: "kcp_output kcp" and P: "\<And>k. ctl_key (kcp_conv kcp) k \<Longrightarrow> P k"
  obtains seg k pk where "flush_head kcp = Inr (seg, k, pk)" and "pk_ok P (unat (kcp_mtu kcp)) pk"
    and "k = (flush_probe (kcp\<lparr>kcp_ackcount := 0, kcp_acklist := []\<rparr>))\<lparr>kcp_probe := 0\<rparr>"
proof -
  let ?m = "unat (kcp_mtu kcp)" and ?t = "flush_template kcp"
  have Pt: "P (seg_conv ?t, seg_cmd ?t, seg_frg ?t, sn, [])" for sn
    by (rule P) (simp add: flush_template_def ctl_key_def)
  obtain sn ts pk0 where a: "flush_acks kcp 0 (nat (sint (kcp_ackcount kcp))) ?t ([], []) =
      Inr (?t\<lparr>seg_sn := sn, seg_ts := ts\<rparr>, pk0)" "pk_ok P ?m pk0"
    using flush_acks_ok [OF sz out, of P "([], [])" ?t 0 "nat (sint (kcp_ackcount kcp))"]
      ackcount_le [OF ack] Pt
    by (auto simp: pk_ok_def flush_template_def)
  let ?s = "?t\<lparr>seg_sn := sn, seg_ts := ts\<rparr>"
  define k where "k = flush_probe (kcp\<lparr>kcp_ackcount := 0, kcp_acklist := []\<rparr>)"
  have "but_out k = but_out kcp" by (simp add: k_def) (simp add: but_out_def)
  note fr = but_out_eqD [OF this]
  have k: "sizes_inv k" "kcp_output k" using sz out fr by (auto simp: sizes_inv_def)
  have ctl: "\<exists>pk'. (if b then flush_ctl k (?s\<lparr>seg_cmd := c\<rparr>) pk else Inr pk) = Inr pk' \<and> pk_ok P ?m pk'"
    if "pk_ok P ?m pk" "c \<in> {82, 83, 84}" for b pk c
  proof -
    have "P (key_of (?s\<lparr>seg_cmd := c\<rparr>))"
      using that(2) by (intro P ctl_keyI) (auto simp: flush_template_def)
    moreover have "seg_data (?s\<lparr>seg_cmd := c\<rparr>) = []" "seg_len (?s\<lparr>seg_cmd := c\<rparr>) = 0"
      by (simp_all add: flush_template_def)
    moreover have "pk_ok P (unat (kcp_mtu k)) pk" using that(1) fr(1) by simp
    ultimately have "\<exists>pk'. flush_ctl k (?s\<lparr>seg_cmd := c\<rparr>) pk = Inr pk' \<and> pk_ok P ?m pk'"
      using flush_ctl_ok [OF k] fr(1) by metis
    then show ?thesis using that(1) by (cases b) simp_all
  qed
  obtain pk1 where p1: "(if kcp_probe k AND 1 \<noteq> 0 then flush_ctl k (?s\<lparr>seg_cmd := 83\<rparr>) pk0 else Inr pk0) = Inr pk1"
    "pk_ok P ?m pk1" using ctl [OF a(2), of 83 "kcp_probe k AND 1 \<noteq> 0"] by blast
  obtain pk2 where p2: "(if kcp_probe k AND 2 \<noteq> 0 then flush_ctl k (?s\<lparr>seg_cmd := 84\<rparr>) pk1 else Inr pk1) = Inr pk2"
    "pk_ok P ?m pk2" using ctl [OF p1(2), of 84 "kcp_probe k AND 2 \<noteq> 0"] by blast
  have "flush_head kcp = Inr (?s, k\<lparr>kcp_probe := 0\<rparr>, pk2)"
    unfolding flush_head_def a(1) bind_result_simps prod.case Let_def k_def [symmetric] p1(1) p2(1) ..
  then show thesis using that p2(2) k_def by blast
qed

lemma flush_tail_ok:
  assumes inv: "kcp_inv w kcp" and "kcp_output kcp" and "pk_ok (ctl_key (kcp_conv kcp)) (unat (kcp_mtu kcp)) pk"
    and ackl: "kcp_acklist kcp = []"
  obtains outs kcp' ms where "flush_tail current seg kcp pk = Inr (outs, kcp')" and "kcp_inv w kcp'"
    and "\<forall>d \<in> set outs. d \<noteq> [] \<and>
      packed (\<lambda>k. ctl_key (kcp_conv kcp) k \<or> k \<in> key_of ` set (kcp_snd_buf kcp')) (unat (kcp_mtu kcp)) d"
    and "map key_of (kcp_snd_buf kcp') = map key_of (kcp_snd_buf kcp @ ms)"
    and "kcp_snd_queue kcp' = drop (length ms) (kcp_snd_queue kcp)"
    and "kcp_snd_nxt kcp' = kcp_snd_nxt kcp + of_nat (length ms)"
    and "numbered (kcp_conv kcp) (kcp_snd_nxt kcp) (kcp_snd_queue kcp) ms"
    and "but_out kcp' = but_out kcp" and "kcp_acklist kcp' = []"
    and "in_flight kcp' \<le> max (in_flight kcp) (unat (flush_window kcp))"
proof -
  let ?m = "unat (kcp_mtu kcp)"
  define cwnd where "cwnd = flush_window kcp"
  have si: "snd_inv kcp" using kcp_invD(3) [OF inv] .
  have cw: "unat cwnd \<le> 65535"
    using flush_window_le [of kcp] si by (simp add: cwnd_def snd_inv_def snd_wins_def)
  define k where "k = move_snd_loop current (seg_wnd seg) cwnd (kcp_snd_queue kcp) kcp"
  obtain ms where ms: "snd_inv k" "but_out k = but_out kcp"
      "kcp_snd_queue k = drop (length ms) (kcp_snd_queue kcp)" "kcp_snd_buf k = kcp_snd_buf kcp @ ms"
      "kcp_snd_nxt k = kcp_snd_nxt kcp + of_nat (length ms)" "kcp_ackcount k = kcp_ackcount kcp"
      "kcp_acklist k = kcp_acklist kcp" "in_flight k \<le> max (in_flight kcp) (unat cwnd)"
      "numbered (kcp_conv kcp) (kcp_snd_nxt kcp) (kcp_snd_queue kcp) ms"
    unfolding k_def by (rule move_snd_loop_ok [OF si refl cw, of current "seg_wnd seg"])
  note fr = but_out_eqD [OF ms(2)]
  let ?P = "\<lambda>x. ctl_key (kcp_conv kcp) x \<or> x \<in> key_of ` set (kcp_snd_buf k)"
  have k: "sizes_inv k" "kcp_output k" using kcp_invD(1) [OF inv] assms(2) fr by (auto elim: inv_intros)
  have "pk_ok ?P ?m pk" using assms(3) by (auto simp: pk_ok_def elim: packed_mono)
  then have pk: "pk_ok ?P (unat (kcp_mtu k)) pk" using fr(1) by simp
  have xs: "\<forall>s \<in> set (kcp_snd_buf k). seg_ok (unat (kcp_mss k)) s \<and> ?P (key_of s)"
    using ms(1) by (simp add: snd_inv_def snd_wins_def)
  define resent where "resent = (if sint (kcp_fastresend k) > 0 then kcp_fastresend k else 0xffffffff)"
  define rtomin where "rtomin = (if kcp_nodelay k = 0 then signed_drop_bit 3 (kcp_rx_rto k) else 0)"
  obtain segs l c x st buf outs where fs: "flush_segs current resent rtomin (seg_wnd seg) (kcp_snd_buf k) False False k pk =
      Inr (segs, l, c, k\<lparr>kcp_xmit := x, kcp_state := st\<rparr>, (buf, outs))"
    "map key_of segs = map key_of (kcp_snd_buf k)" "map seg_len segs = map seg_len (kcp_snd_buf k)"
    "pk_ok ?P (unat (kcp_mtu k)) (buf, outs)"
    using flush_segs_ok [OF k pk xs, of current resent rtomin "seg_wnd seg" False False] by auto
  let ?k1 = "k\<lparr>kcp_xmit := x, kcp_state := st\<rparr>"
  let ?k2 = "?k1\<lparr>kcp_snd_buf := segs\<rparr>"
  let ?k3 = "flush_ssthresh l c resent cwnd ?k2"
  obtain a1 a2 a3 where k3: "?k3 = ?k2\<lparr>kcp_ssthresh := a1, kcp_cwnd := a2, kcp_incr := a3\<rparr>"
    by (rule flush_ssthresh_frame)
  define outs' where "outs' = (if buf = [] then outs else outs @ [buf])"
  have run: "flush_tail current seg kcp pk = Inr (outs', ?k3)"
    unfolding flush_tail_def Let_def cwnd_def [symmetric] k_def [symmetric] resent_def [symmetric]
      rtomin_def [symmetric] fs(1) bind_result_simps prod.case
    using k(2) by (simp add: ikcp_output_def outs'_def)
  have "snd_inv ?k1" using ms(1) by (elim inv_intros) simp_all
  then have "snd_inv ?k2"
    using key_data_map [OF fs(2,3)] by (intro snd_inv_buf_cong) simp_all
  then have s3: "snd_inv ?k3" unfolding k3 by (elim inv_intros) simp_all
  have bo: "but_out ?k3 = but_out kcp" unfolding k3 ms(2) [symmetric] by (simp add: but_out_def)
  have "kcp_ackcount ?k3 = kcp_ackcount kcp" "kcp_acklist ?k3 = kcp_acklist kcp" unfolding k3 using ms by simp_all
  then have i3: "kcp_inv w ?k3"
    using kcp_invD [OF inv] s3 by (intro kcp_invI) (erule inv_intros; simp add: but_out_eqD [OF bo])+
  have outs_ok: "\<forall>d \<in> set outs'. d \<noteq> [] \<and> packed ?P ?m d"
    using fs(4) fr(1) by (auto simp: outs'_def pk_ok_def)
  have bufk: "key_of ` set (kcp_snd_buf ?k3) = key_of ` set (kcp_snd_buf k)"
    unfolding k3 using arg_cong [OF fs(2), of set] by simp
  show thesis
  proof (rule that [OF run i3])
    show "\<forall>d \<in> set outs'. d \<noteq> [] \<and>
        packed (\<lambda>x. ctl_key (kcp_conv kcp) x \<or> x \<in> key_of ` set (kcp_snd_buf ?k3)) ?m d"
      unfolding bufk by (rule outs_ok)
    show "map key_of (kcp_snd_buf ?k3) = map key_of (kcp_snd_buf kcp @ ms)"
      unfolding k3 using fs(2) ms(4) by simp
    show "kcp_snd_queue ?k3 = drop (length ms) (kcp_snd_queue kcp)" unfolding k3 using ms(3) by simp
    show "kcp_snd_nxt ?k3 = kcp_snd_nxt kcp + of_nat (length ms)" unfolding k3 using ms(5) by simp
    show "numbered (kcp_conv kcp) (kcp_snd_nxt kcp) (kcp_snd_queue kcp) ms" by (rule ms(9))
    show "but_out ?k3 = but_out kcp" by (rule bo)
    show "kcp_acklist ?k3 = []" unfolding k3 using ms(7) ackl by simp
    show "in_flight ?k3 \<le> max (in_flight kcp) (unat (flush_window kcp))"
      unfolding k3 using ms(8) by (simp add: in_flight_def cwnd_def)
  qed
qed

lemma ikcp_flush_ok:
  assumes inv: "kcp_inv w kcp" and out: "kcp_output kcp" and up: "kcp_updated kcp \<noteq> 0"
  obtains outs kcp' ms where "ikcp_flush kcp = Inr (outs, kcp')" and "kcp_inv w kcp'"
    and "\<forall>d \<in> set outs. d \<noteq> [] \<and>
      packed (\<lambda>k. ctl_key (kcp_conv kcp) k \<or> k \<in> key_of ` set (kcp_snd_buf kcp')) (unat (kcp_mtu kcp)) d"
    and "map key_of (kcp_snd_buf kcp') = map key_of (kcp_snd_buf kcp @ ms)"
    and "kcp_snd_queue kcp' = drop (length ms) (kcp_snd_queue kcp)"
    and "kcp_snd_nxt kcp' = kcp_snd_nxt kcp + of_nat (length ms)"
    and "numbered (kcp_conv kcp) (kcp_snd_nxt kcp) (kcp_snd_queue kcp) ms"
    and "but_out kcp' = but_out kcp" and "kcp_acklist kcp' = []"
    and "in_flight kcp' \<le> max (in_flight kcp) (unat (flush_window kcp))"
proof -
  obtain seg k pk where h: "flush_head kcp = Inr (seg, k, pk)" "pk_ok (ctl_key (kcp_conv kcp)) (unat (kcp_mtu kcp)) pk"
      "k = (flush_probe (kcp\<lparr>kcp_ackcount := 0, kcp_acklist := []\<rparr>))\<lparr>kcp_probe := 0\<rparr>"
    by (rule flush_head_ok [OF kcp_invD(1,4) [OF inv] out, of "ctl_key (kcp_conv kcp)"])
  have "but_out k = but_out (flush_probe (kcp\<lparr>kcp_ackcount := 0, kcp_acklist := []\<rparr>))"
    unfolding h(3) by (simp add: but_out_def)
  also have "\<dots> = but_out kcp" unfolding flush_probe_but_out by (simp add: but_out_def)
  finally have bo: "but_out k = but_out kcp" .
  note fr = but_out_eqD [OF bo]
  have flds: "kcp_snd_queue k = kcp_snd_queue kcp" "kcp_snd_buf k = kcp_snd_buf kcp"
    "kcp_snd_nxt k = kcp_snd_nxt kcp" "kcp_nsnd_que k = kcp_nsnd_que kcp" "kcp_nsnd_buf k = kcp_nsnd_buf kcp"
    "kcp_acklist k = []" "kcp_ackcount k = 0" unfolding h(3) by simp_all
  have "ack_inv k" using flds by (simp add: ack_inv_def)
  then have ki: "kcp_inv w k"
    using kcp_invD [OF inv] by (intro kcp_invI) (erule inv_intros; simp add: fr flds)+
  have fl: "in_flight k = in_flight kcp" using flds fr by (simp add: in_flight_def)
  have fw: "flush_window k = flush_window kcp"
    unfolding h(3) flush_window_def by (simp add: flush_probe_def Let_def)
  have pk: "pk_ok (ctl_key (kcp_conv k)) (unat (kcp_mtu k)) pk" using h(2) fr by simp
  have ko: "kcp_output k" using out fr by simp
  obtain outs kcp' ms where t: "flush_tail (kcp_current kcp) seg k pk = Inr (outs, kcp')" "kcp_inv w kcp'"
    "\<forall>d \<in> set outs. d \<noteq> [] \<and>
      packed (\<lambda>x. ctl_key (kcp_conv k) x \<or> x \<in> key_of ` set (kcp_snd_buf kcp')) (unat (kcp_mtu k)) d"
    "map key_of (kcp_snd_buf kcp') = map key_of (kcp_snd_buf k @ ms)"
    "kcp_snd_queue kcp' = drop (length ms) (kcp_snd_queue k)"
    "kcp_snd_nxt kcp' = kcp_snd_nxt k + of_nat (length ms)"
    "numbered (kcp_conv k) (kcp_snd_nxt k) (kcp_snd_queue k) ms" "but_out kcp' = but_out k" "kcp_acklist kcp' = []"
    "in_flight kcp' \<le> max (in_flight k) (unat (flush_window k))"
    by (rule flush_tail_ok [OF ki ko pk flds(6), of "kcp_current kcp" seg])
  have "ikcp_flush kcp = Inr (outs, kcp')" using h(1) t(1) by (simp add: ikcp_flush_split [OF up])
  then show thesis using that t(2-) unfolding fr flds bo fl fw by blast
qed

text \<open>\<open>ikcp_update\<close> sets the clock and flushes when the interval is over.\<close>

lemma ikcp_update_cases:
  obtains (quiet) c u f where "ikcp_update current kcp = Inr ([], kcp\<lparr>kcp_current := c, kcp_updated := u, kcp_ts_flush := f\<rparr>)"
  | (flush) c u f where "u \<noteq> 0"
    and "ikcp_update current kcp = ikcp_flush (kcp\<lparr>kcp_current := c, kcp_updated := u, kcp_ts_flush := f\<rparr>)"
proof -
  define u where "u = (if kcp_updated kcp = 0 then 1 else kcp_updated kcp)"
  define f where "f = (if kcp_updated kcp = 0 then current else kcp_ts_flush kcp)"
  have k: "(if kcp_updated (kcp\<lparr>kcp_current := current\<rparr>) = 0
      then kcp\<lparr>kcp_current := current, kcp_updated := 1, kcp_ts_flush := kcp_current (kcp\<lparr>kcp_current := current\<rparr>)\<rparr>
      else kcp\<lparr>kcp_current := current\<rparr>) = kcp\<lparr>kcp_current := current, kcp_updated := u, kcp_ts_flush := f\<rparr>"
    by (simp add: u_def f_def)
  have "u \<noteq> 0" by (simp add: u_def)
  moreover have "\<exists>f'. ikcp_update current kcp = Inr ([], kcp\<lparr>kcp_current := current, kcp_updated := u, kcp_ts_flush := f'\<rparr>) \<or>
      ikcp_update current kcp = ikcp_flush (kcp\<lparr>kcp_current := current, kcp_updated := u, kcp_ts_flush := f'\<rparr>)"
    unfolding ikcp_update_def Let_def k by (auto simp: split_def)
  ultimately show thesis using quiet flush by blast
qed

section \<open>Segments that are larger than the buffer\<close>

text \<open>A segment that the next flush transmits: one in the send buffer that is new, timed out or due for
  fast retransmission, or the first of the queue when the window is open.\<close>

definition fast_limit :: "IKCPCB \<Rightarrow> u32" where
  "fast_limit kcp = (if sint (kcp_fastresend kcp) > 0 then kcp_fastresend kcp else 0xffffffff)"

definition sends_next :: "IKCPCB \<Rightarrow> IKCPSEG \<Rightarrow> bool" where
  "sends_next kcp s \<longleftrightarrow>
     s \<in> set (kcp_snd_buf kcp) \<and> send_reason_of (kcp_current kcp) (fast_limit kcp) s \<noteq> Not_due \<or>
     kcp_snd_queue kcp \<noteq> [] \<and> s = hd (kcp_snd_queue kcp) \<and> in_flight kcp < unat (flush_window kcp)"

text \<open>Copying a segment either overruns the buffer or leaves the packing state inside it.\<close>

lemma transmit_outcome:
  assumes "kcp_output kcp" and "unat (seg_len s) = length (seg_data s)"
  shows "transmit current wnd kcp s pk = Inl Write_out_of_bounds \<or>
    24 + length (seg_data s) \<le> kcp_buffer kcp \<and>
      (\<exists>s' k' pk'. transmit current wnd kcp s pk = Inr (s', k', pk') \<and>
        kcp_output k' \<and> kcp_buffer k' = kcp_buffer kcp)"
proof -
  let ?s = "s\<lparr>seg_ts := current, seg_wnd := wnd, seg_una := kcp_rcv_nxt kcp\<rparr>"
  obtain buf outs where r: "flush_room kcp (24 + seg_len s) pk = Inr (buf, outs)"
  proof -
    have "\<exists>x. flush_room kcp (24 + seg_len s) pk = Inr x"
      using assms(1) by (cases pk) (simp add: flush_room_def ikcp_output_def)
    then show thesis using that by force
  qed
  have l: "length (ikcp_encode_seg ?s) = 24" by simp
  show ?thesis
    using r assms l by (cases "seg_len s = 0")
      (auto simp: transmit_def Let_def flush_put_def word_gt_0 read_bytes_ok)
qed

lemma flush_segs_overrun:
  assumes "kcp_output kcp" and "\<forall>t \<in> set xs. unat (seg_len t) = length (seg_data t)" and "s \<in> set xs"
    and "send_reason_of current resent s \<noteq> Not_due" and "kcp_buffer kcp < 24 + length (seg_data s)"
  shows "flush_segs current resent rtomin wnd xs lost change kcp pk = Inl Write_out_of_bounds"
  using assms
proof (induction xs arbitrary: lost change kcp pk)
  case (Cons t p)
  define reason where "reason = send_reason_of current resent t"
  define t1 where "t1 = mark_segment current rtomin kcp reason t"
  define k1 where "k1 = (if reason = Timeout then kcp\<lparr>kcp_xmit := kcp_xmit kcp + 1\<rparr> else kcp)"
  have k1: "kcp_output k1" "kcp_buffer k1 = kcp_buffer kcp" using Cons.prems(1) by (simp_all add: k1_def)
  have t1: "unat (seg_len t1) = length (seg_data t1)" "seg_data t1 = seg_data t"
    using Cons.prems(2) by (simp_all add: t1_def)
  let ?step = "if reason \<noteq> Not_due then transmit current wnd k1 t1 pk else Inr (t1, k1, pk)"
  have big: "t = s \<Longrightarrow> kcp_buffer kcp < 24 + length (seg_data t)" using Cons.prems(5) by simp
  consider "?step = Inl Write_out_of_bounds"
    | s' k' pk' where "?step = Inr (s', k', pk')" "kcp_output k'" "kcp_buffer k' = kcp_buffer kcp" "t = s \<longrightarrow> reason = Not_due"
    using transmit_outcome [OF k1(1) t1(1), of current wnd pk] k1 t1(2) big
    by (cases "reason = Not_due"; cases "t = s") auto
  then show ?case
  proof cases
    case 1
    then show ?thesis
      unfolding flush_segs.simps Let_def reason_def [symmetric] t1_def [symmetric] k1_def [symmetric]
      by (simp only: bind_result_simps)
  next
    case 2
    then have "s \<in> set p" using Cons.prems(3,4) by (auto simp: reason_def)
    then have "flush_segs current resent rtomin wnd p l c k' pk' = Inl Write_out_of_bounds" for l c
      using Cons.IH [OF 2(2)] Cons.prems 2(3) by simp
    then show ?thesis
      unfolding flush_segs.simps Let_def reason_def [symmetric] t1_def [symmetric] k1_def [symmetric]
      using 2(1) by (simp only: bind_result_simps prod.case)
  qed
qed simp

lemma move_snd_loop_grows:
  "\<exists>ms. kcp_snd_buf (move_snd_loop current wnd cwnd q kcp) = kcp_snd_buf kcp @ ms \<and>
     but_out (move_snd_loop current wnd cwnd q kcp) = but_out kcp \<and>
     (\<forall>t \<in> set ms. \<exists>u \<in> set q. seg_len t = seg_len u \<and> seg_data t = seg_data u) \<and>
     (q \<noteq> [] \<and> itimediff (kcp_snd_nxt kcp) (kcp_snd_una kcp + cwnd) < 0 \<longrightarrow>
       (\<exists>t \<in> set ms. seg_xmit t = 0 \<and> seg_data t = seg_data (hd q)))"
proof (induction q arbitrary: kcp)
  case (Cons s rest)
  show ?case
  proof (cases "itimediff (kcp_snd_nxt kcp) (kcp_snd_una kcp + cwnd) < 0")
    case True
    let ?k = "move_one current wnd s rest kcp" and ?n = "number_seg current wnd kcp s"
    have eq: "move_snd_loop current wnd cwnd (s # rest) kcp = move_snd_loop current wnd cwnd rest ?k"
      using True by (simp only: move_snd_loop_Cons if_True)
    obtain ms where ms: "kcp_snd_buf (move_snd_loop current wnd cwnd rest ?k) = kcp_snd_buf ?k @ ms"
      "but_out (move_snd_loop current wnd cwnd rest ?k) = but_out ?k"
      "\<forall>t \<in> set ms. \<exists>u \<in> set rest. seg_len t = seg_len u \<and> seg_data t = seg_data u"
      using Cons.IH [of ?k] by blast
    have "kcp_snd_buf ?k = kcp_snd_buf kcp @ [?n]" "but_out ?k = but_out kcp"
      by (simp_all add: move_one_def but_out_def)
    moreover have "seg_len ?n = seg_len s" "seg_data ?n = seg_data s" "seg_xmit ?n = 0" by (simp_all add: number_seg_def)
    ultimately show ?thesis using ms unfolding eq by (intro exI [of _ "?n # ms"]) auto
  next
    case False
    then show ?thesis by (intro exI [of _ "[]"]) (simp add: move_snd_loop_Cons)
  qed
qed simp

text \<open>The send side as the flush finds it, with the sizes that a new \<open>mtu\<close> gives.\<close>

lemma flush_overrun:
  assumes "sizes_inv kcp" and "ack_inv kcp" and "kcp_output kcp" and "kcp_updated kcp \<noteq> 0"
    and "in_flight kcp \<le> 65535" and "unat (flush_window kcp) \<le> 65535"
    and len: "\<forall>t \<in> set (kcp_snd_queue kcp) \<union> set (kcp_snd_buf kcp). unat (seg_len t) = length (seg_data t)"
    and "sends_next kcp s" and big: "kcp_buffer kcp < 24 + length (seg_data s)"
  shows "ikcp_flush kcp = Inl Write_out_of_bounds"
proof -
  obtain seg k pk where h: "flush_head kcp = Inr (seg, k, pk)"
      "k = (flush_probe (kcp\<lparr>kcp_ackcount := 0, kcp_acklist := []\<rparr>))\<lparr>kcp_probe := 0\<rparr>"
    by (rule flush_head_ok [OF assms(1-3), of "\<lambda>_. True"]) auto
  have k: "kcp_snd_queue k = kcp_snd_queue kcp" "kcp_snd_buf k = kcp_snd_buf kcp" "kcp_snd_nxt k = kcp_snd_nxt kcp"
    "kcp_snd_una k = kcp_snd_una kcp" "kcp_output k = kcp_output kcp" "kcp_buffer k = kcp_buffer kcp"
    "kcp_fastresend k = kcp_fastresend kcp" "flush_window k = flush_window kcp"
    unfolding h(2) by (simp_all add: flush_probe_def Let_def flush_window_def)
  define cur where "cur = kcp_current kcp"
  define k' where "k' = move_snd_loop cur (seg_wnd seg) (flush_window k) (kcp_snd_queue k) k"
  obtain ms where ms: "kcp_snd_buf k' = kcp_snd_buf k @ ms" "but_out k' = but_out k"
    "\<forall>t \<in> set ms. \<exists>u \<in> set (kcp_snd_queue k). seg_len t = seg_len u \<and> seg_data t = seg_data u"
    "kcp_snd_queue k \<noteq> [] \<and> itimediff (kcp_snd_nxt k) (kcp_snd_una k + flush_window k) < 0 \<longrightarrow>
       (\<exists>t \<in> set ms. seg_xmit t = 0 \<and> seg_data t = seg_data (hd (kcp_snd_queue k)))"
    using move_snd_loop_grows [of cur "seg_wnd seg" "flush_window k" "kcp_snd_queue k" k] unfolding k'_def by blast
  have fr: "kcp_output k' = kcp_output k" "kcp_buffer k' = kcp_buffer k" "kcp_fastresend k' = kcp_fastresend k"
    using arg_cong [OF ms(2), of kcp_output] arg_cong [OF ms(2), of kcp_buffer] arg_cong [OF ms(2), of kcp_fastresend]
    by (simp_all add: but_out_def)
  have lens: "\<forall>t \<in> set (kcp_snd_buf k'). unat (seg_len t) = length (seg_data t)"
    using len ms(1,3) k by auto
  obtain t where t: "t \<in> set (kcp_snd_buf k')" "seg_data t = seg_data s" "send_reason_of cur (fast_limit k') t \<noteq> Not_due"
  proof (cases "s \<in> set (kcp_snd_buf kcp) \<and> send_reason_of (kcp_current kcp) (fast_limit kcp) s \<noteq> Not_due")
    case True
    moreover have "fast_limit k' = fast_limit kcp" using fr(3) k(7) by (simp add: fast_limit_def)
    ultimately show thesis using that [of s] ms(1) k(2) by (simp add: cur_def)
  next
    case False
    then have q: "kcp_snd_queue k \<noteq> []" "s = hd (kcp_snd_queue k)" "in_flight kcp < unat (flush_window kcp)"
      using assms(8) k by (auto simp: sends_next_def)
    then have "itimediff (kcp_snd_nxt k) (kcp_snd_una k + flush_window k) < 0"
      using window_open [OF assms(5,6)] k by simp
    then obtain u where "u \<in> set ms" "seg_xmit u = 0" "seg_data u = seg_data s" using ms(4) q by auto
    then show thesis using that [of u] ms(1) by (simp add: send_reason_of_def)
  qed
  have "flush_segs cur (fast_limit k') rm wn (kcp_snd_buf k') False False k' pk = Inl Write_out_of_bounds" for rm wn
    using t lens assms(3) k fr big by (intro flush_segs_overrun [where s = t]) simp_all
  then have "flush_tail cur seg k pk = Inl Write_out_of_bounds"
    unfolding flush_tail_def Let_def k'_def [symmetric] fast_limit_def [symmetric] by simp
  then show ?thesis using h(1) by (simp add: ikcp_flush_split [OF assms(4)] cur_def)
qed

section \<open>Properties\<close>

text \<open>
  C5. Everything \<open>ikcp_flush\<close> hands to the output callback is a non-empty datagram of at most
  \<open>mtu\<close> bytes made of whole segments, each an acknowledgement, a window probe or a segment of the
  send buffer; the flush buffer is not overrun. Segments leave the queue in order and get
  consecutive numbers, at most as many as the window allows, and the invariant is kept.
\<close>

theorem flush_datagrams:
  assumes "kcp_inv w kcp" and "kcp_output kcp" and "kcp_updated kcp \<noteq> 0"
  shows "\<exists>outs kcp' ms. ikcp_flush kcp = Inr (outs, kcp') \<and> kcp_inv w kcp' \<and>
    (\<forall>d \<in> set outs. d \<noteq> [] \<and> length d \<le> unat (kcp_mtu kcp) \<and>
       (\<exists>segs. d = concat (map wire segs) \<and>
          (\<forall>s \<in> set segs. ctl_key (kcp_conv kcp) (key_of s) \<or> key_of s \<in> key_of ` set (kcp_snd_buf kcp')))) \<and>
    map key_of (kcp_snd_buf kcp') = map key_of (kcp_snd_buf kcp @ ms) \<and>
    numbered (kcp_conv kcp) (kcp_snd_nxt kcp) (kcp_snd_queue kcp) ms \<and>
    kcp_snd_queue kcp' = drop (length ms) (kcp_snd_queue kcp) \<and>
    in_flight kcp' \<le> max (in_flight kcp) (unat (flush_window kcp))"
  using ikcp_flush_ok [OF assms] unfolding packed_def by (smt (verit, best))

theorem flush_datagrams_witness:
  "\<exists>outs kcp'. ikcp_flush (demo_kcp\<lparr>kcp_updated := 1\<rparr>) = Inr (outs, kcp') \<and> kcp_inv 128 kcp' \<and>
     (\<forall>d \<in> set outs. length d \<le> 1400)"
proof -
  have "kcp_inv 128 (demo_kcp\<lparr>kcp_updated := 1\<rparr>)" using demo_inv(1) unfolding kcp_inv_def by (auto elim: inv_intros)
  moreover have "kcp_output (demo_kcp\<lparr>kcp_updated := 1\<rparr>)" "kcp_mtu demo_kcp = 1400"
    by (simp_all add: demo_simps)
  ultimately show ?thesis using flush_datagrams [of 128 "demo_kcp\<lparr>kcp_updated := 1\<rparr>"] by fastforce
qed

text \<open>
  C39. Lowering the MTU is only safe while no larger segment is queued: in every state that satisfies
  the invariant of the protocol, when \<open>ikcp_setmtu\<close> succeeds with an \<open>mtu\<close> whose buffer, three times
  \<open>mtu + 24\<close> bytes, is smaller than a segment that the next flush transmits (with its header of 24
  bytes), then this flush copies the segment past the end of the new buffer.
\<close>

theorem setmtu_then_overflow:
  assumes "kcp_inv w kcp" and "kcp_output kcp" and "kcp_updated kcp \<noteq> 0" and "50 \<le> sint mtu"
    and "sends_next kcp s" and "3 * (sint mtu + 24) < 24 + int (length (seg_data s))"
  shows "\<exists>kcp'. ikcp_setmtu True mtu kcp = (0, kcp') \<and> ikcp_flush kcp' = Inl Write_out_of_bounds"
proof -
  let ?k = "kcp\<lparr>kcp_mtu := mtu, kcp_mss := mtu - 24, kcp_buffer := unat ((mtu + 24) * 3)\<rparr>"
  have sm: "sint mtu = int (unat mtu)" using assms(4) by (intro sint_32_unat) simp
  note snd = kcp_invD(3) [OF assms(1)]
  have ok: "seg_ok (unat (kcp_mss kcp)) t" if "t \<in> set (kcp_snd_queue kcp) \<union> set (kcp_snd_buf kcp)" for t
    using snd that by (auto simp: snd_inv_def snd_wins_def)
  have "s \<in> set (kcp_snd_queue kcp) \<union> set (kcp_snd_buf kcp)"
    using assms(5) by (cases "kcp_snd_queue kcp") (auto simp: sends_next_def)
  then have "length (seg_data s) < 1073741824"
    using ok kcp_invD(1) [OF assms(1)] sizes_mss(1) [OF kcp_invD(1) [OF assms(1)]] by (fastforce simp: seg_ok_def sizes_inv_def)
  then have m: "50 \<le> unat mtu" "unat mtu < 1073741824" using assms(4,6) sm by (simp_all del: of_nat_unat)
  have b: "unat ((mtu + 24) * 3) = 3 * (unat mtu + 24)" using m by (simp add: unat_word_ariths)
  have "ikcp_setmtu True mtu kcp = (0, ?k)" using assms(4) by (simp add: ikcp_setmtu_def)
  moreover have "ikcp_flush ?k = Inl Write_out_of_bounds"
  proof (rule flush_overrun)
    show "sizes_inv ?k" using m b by (simp add: sizes_inv_def)
    show "ack_inv ?k" using kcp_invD(4) [OF assms(1)] by (simp add: ack_inv_def)
    show "in_flight ?k \<le> 65535" using snd by (simp add: in_flight_def snd_inv_def snd_wins_def)
    show "unat (flush_window ?k) \<le> 65535"
      using flush_window_le [of ?k] snd by (simp add: snd_inv_def snd_wins_def)
    show "\<forall>t \<in> set (kcp_snd_queue ?k) \<union> set (kcp_snd_buf ?k). unat (seg_len t) = length (seg_data t)"
      using seg_ok_len [OF ok] unat_32_bound [of "kcp_mss kcp"] by simp
    have "fast_limit ?k = fast_limit kcp" "in_flight ?k = in_flight kcp" "flush_window ?k = flush_window kcp"
      by (simp_all add: fast_limit_def in_flight_def flush_window_def Let_def)
    then show "sends_next ?k s" using assms(5) by (simp add: sends_next_def)
    show "kcp_buffer ?k < 24 + length (seg_data s)" using assms(6) sm b by (simp del: of_nat_unat)
  qed (use assms(2,3) in simp_all)
  ultimately show ?thesis by blast
qed

definition demo_sent :: IKCPCB where
  "demo_sent = snd (projr (ikcp_send demo_alloc (Some (replicate 250 7)) 250 (demo_kcp\<lparr>kcp_nocwnd := 1, kcp_updated := 1\<rparr>)))"

theorem setmtu_then_overflow_witness:
  "\<exists>kcp'. ikcp_setmtu True 50 demo_sent = (0, kcp') \<and> ikcp_flush kcp' = Inl Write_out_of_bounds"
proof -
  let ?k = "demo_kcp\<lparr>kcp_nocwnd := 1, kcp_updated := 1\<rparr>"
  have "kcp_inv 128 ?k" using demo_inv(1) unfolding kcp_inv_def by (auto elim: inv_intros)
  then have i: "kcp_inv 128 demo_sent"
    using send_inv [OF _ demo_alloc_ok, of 128 ?k 250 "replicate 250 7"] unfolding demo_sent_def by auto
  have "kcp_output demo_sent" "kcp_updated demo_sent \<noteq> 0" "kcp_snd_queue demo_sent \<noteq> []"
    "length (seg_data (hd (kcp_snd_queue demo_sent))) = 250" "in_flight demo_sent < unat (flush_window demo_sent)"
    by code_simp+
  then show ?thesis
    using setmtu_then_overflow [OF i, of 50 "hd (kcp_snd_queue demo_sent)"] by (simp add: sends_next_def)
qed

lemma check_loop_bounds:
  "check_loop current p m = Some t \<Longrightarrow> 0 < m \<Longrightarrow>
   0 < t \<and> t \<le> m \<and> (\<forall>s \<in> set p. t \<le> itimediff (seg_resendts s) current)"
  by (induction p arbitrary: m) (fastforce simp: Let_def split: if_splits)+

text \<open>
  The time \<open>ikcp_check\<close> returns is never more than an interval ahead and never later than the
  next retransmission of any segment in flight; when it lies in the future, calling \<open>ikcp_update\<close>
  now would send nothing.
\<close>

theorem check_schedules:
  fixes current :: u32 and kcp :: IKCPCB
  assumes "kcp_updated kcp \<noteq> 0" and "unat (kcp_interval kcp) \<le> 5000"
  defines "wait \<equiv> itimediff (ikcp_check current kcp) current"
  shows "0 \<le> wait \<and> wait \<le> int (unat (kcp_interval kcp)) \<and>
    (\<forall>s \<in> set (kcp_snd_buf kcp). wait \<le> max 0 (itimediff (seg_resendts s) current)) \<and>
    (0 < wait \<longrightarrow> (\<exists>kcp'. ikcp_update current kcp = Inr ([], kcp')))"
proof -
  let ?d = "itimediff current (kcp_ts_flush kcp)" and ?f = "itimediff (kcp_ts_flush kcp) current"
  consider (now) "ikcp_check current kcp = current"
    | (later) t where "?d < 0" "-10000 \<le> ?d" "check_loop current (kcp_snd_buf kcp) 0x7fffffff = Some t"
        "ikcp_check current kcp = current + (let m = word_of_int (if t < ?f then t else ?f)
           in if m \<ge> kcp_interval kcp then kcp_interval kcp else m)"
    using assms(1) by (force simp: ikcp_check_def Let_def split: if_splits option.splits)
  then show ?thesis
  proof cases
    case now
    then show ?thesis by (simp add: wait_def)
  next
    case later
    define m where "m = (if t < ?f then t else ?f)"
    have t: "0 < t" "t \<le> 0x7fffffff" "\<forall>s \<in> set (kcp_snd_buf kcp). t \<le> itimediff (seg_resendts s) current"
      using check_loop_bounds [OF later(3)] by auto
    have "current - kcp_ts_flush kcp \<noteq> 2147483648" using later(2) by (auto simp: itimediff_def)
    then have "?f = - ?d" using sint_32_uminus [of "current - kcp_ts_flush kcp"] by (simp add: itimediff_def)
    then have m: "0 < m" "m \<le> t" "m < 2147483648" using t later(1,2) by (auto simp: m_def)
    define x :: u32 where "x = (let m = word_of_int m in if m \<ge> kcp_interval kcp then kcp_interval kcp else m)"
    have "uint (word_of_int m :: u32) = m" using m by (simp add: unsigned_of_int take_bit_int_eq_self)
    then have ux: "uint x = min m (uint (kcp_interval kcp))"
      by (auto simp: x_def Let_def word_le_def)
    have iv: "uint (kcp_interval kcp) = int (unat (kcp_interval kcp))" by simp
    have "ikcp_check current kcp = current + x" using later(4) by (simp add: x_def m_def)
    then have "wait = sint x" by (simp add: wait_def itimediff_def)
    also have "sint x = uint x" using ux m(3) by (simp add: sint_32_uint)
    finally have "wait = uint x" .
    moreover have "\<exists>kcp'. ikcp_update current kcp = Inr ([], kcp')"
      using assms(1) later(1,2) by (simp add: ikcp_update_def Let_def)
    ultimately show ?thesis using ux iv m(1,2) t(3) by (fastforce simp del: of_nat_unat)
  qed
qed

theorem check_schedules_witness:
  "itimediff (ikcp_check 50 (demo_kcp\<lparr>kcp_updated := 1\<rparr>)) 50 \<le> 100"
  using check_schedules [of "demo_kcp\<lparr>kcp_updated := 1\<rparr>" 50] by (simp add: demo_simps)

end
