(* ===== verification/Kcp_Link.thy ===== *)
theory Kcp_Link
  imports Kcp_Input Kcp_Flush
begin

text \<open>
  Two control blocks and a network between them. Everything the sender ever put into a datagram
  may arrive any number of times, in any order, or not at all; the sender itself may be fed
  arbitrary bytes, and both sides may send. The theorem of this theory is the service KCP promises:
  the messages the receiver hands to its application are a prefix of the messages the
  sender's application handed in, as long as fewer than \<open>2 ^ 32\<close> segments have been numbered.
\<close>

section \<open>Pieces of messages\<close>

type_synonym piece = "u32 \<times> u8 list"

definition piece_of :: "IKCPSEG \<Rightarrow> piece" where
  "piece_of s = (seg_frg s, seg_data s)"

text \<open>The pieces \<open>ikcp_send\<close> makes of a message.\<close>

definition frags :: "u32 \<Rightarrow> u8 list \<Rightarrow> piece list" where
  "frags mss bs = (let c = unat (send_count mss (of_nat (length bs))) in
     zip (rev (map of_nat [0..<c])) (chunks (unat mss) c bs))"

definition pieces :: "u32 \<Rightarrow> u8 list list \<Rightarrow> piece list" where
  "pieces mss msgs = concat (map (frags mss) msgs)"

lemma pieces_append [simp]: "pieces mss (xs @ ys) = pieces mss xs @ pieces mss ys"
  by (simp add: pieces_def)

lemma pieces_simps [simp]: "pieces mss [] = []" "pieces mss (x # xs) = frags mss x @ pieces mss xs"
  by (simp_all add: pieces_def)

lemma length_frags [simp]: "length (frags mss bs) = unat (send_count mss (of_nat (length bs)))"
  by (simp add: frags_def Let_def)

lemma sent_as_pieces:
  assumes "sent_as m True ds segs"
  shows "map piece_of segs = zip (rev (map of_nat [0..<length ds])) ds"
proof -
  have "map piece_of segs = zip (map seg_frg segs) (map seg_data segs)"
    by (simp add: piece_of_def zip_map_map zip_same_conv_map split_def)
  then show ?thesis using assms by (simp add: sent_as_def)
qed

text \<open>A data segment carries the piece with its number.\<close>

definition sound :: "piece list \<Rightarrow> IKCPSEG \<Rightarrow> bool" where
  "sound ps s \<longleftrightarrow> unat (seg_sn s) < length ps \<and> piece_of s = ps ! unat (seg_sn s)"

definition data_key :: "u32 \<Rightarrow> piece list \<Rightarrow> seg_key \<Rightarrow> bool" where
  "data_key conv ps k \<longleftrightarrow>
     (\<exists>sn. unat sn < length ps \<and> k = (conv, IKCP_CMD_PUSH, fst (ps ! unat sn), sn, snd (ps ! unat sn)))"

definition good_key :: "u32 \<Rightarrow> piece list \<Rightarrow> seg_key \<Rightarrow> bool" where
  "good_key conv ps k \<longleftrightarrow> ctl_key conv k \<or> data_key conv ps k"

lemma sound_append: "sound ps s \<Longrightarrow> sound (ps @ qs) s"
  by (simp add: sound_def nth_append)

lemma data_key_append: "data_key conv ps k \<Longrightarrow> data_key conv (ps @ qs) k"
  unfolding data_key_def by (metis length_append nth_append trans_less_add1)

lemma good_key_append: "good_key conv ps k \<Longrightarrow> good_key conv (ps @ qs) k"
  by (auto simp: good_key_def data_key_append)

section \<open>The receiver gathers pieces in order\<close>

text \<open>\<open>c\<close> pieces have left the queue already.\<close>

definition rcv_link :: "nat \<Rightarrow> piece list \<Rightarrow> nat \<Rightarrow> IKCPCB \<Rightarrow> bool" where
  "rcv_link w ps c kcp \<longleftrightarrow> rcv_inv w kcp \<and>
     (\<forall>s \<in> set (kcp_rcv_buf kcp) \<union> set (kcp_rcv_queue kcp). sound ps s) \<and>
     kcp_rcv_nxt kcp = of_nat (c + length (kcp_rcv_queue kcp)) \<and>
     c + length (kcp_rcv_queue kcp) \<le> length ps"

lemma rcv_link_frame:
  assumes "rcv_link w ps c k" and "kcp_nrcv_buf k' = kcp_nrcv_buf k" and "kcp_nrcv_que k' = kcp_nrcv_que k"
    and "kcp_rcv_buf k' = kcp_rcv_buf k" and "kcp_rcv_queue k' = kcp_rcv_queue k"
    and "kcp_rcv_wnd k' = kcp_rcv_wnd k" and "kcp_rcv_nxt k' = kcp_rcv_nxt k"
  shows "rcv_link w ps c k'"
  using assms rcv_inv_frame [of w k k'] by (simp add: rcv_link_def)

lemma rcv_link_append:
  assumes "rcv_link w ps c kcp"
  shows "rcv_link w (ps @ qs) c kcp"
  using assms by (auto simp: rcv_link_def sound_append)

text \<open>The queue holds the pieces behind the consumed ones.\<close>

lemma rcv_link_queue:
  assumes "rcv_link w ps c kcp" and "length ps < 4294967296"
  shows "map piece_of (kcp_rcv_queue kcp) = take (length (kcp_rcv_queue kcp)) (drop c ps)"
proof (rule nth_equalityI)
  let ?q = "kcp_rcv_queue kcp"
  show "length (map piece_of ?q) = length (take (length ?q) (drop c ps))"
    using assms(1) by (auto simp: rcv_link_def)
  fix i assume "i < length (map piece_of ?q)"
  then have i: "i < length ?q" by simp
  have nx: "kcp_rcv_nxt kcp = of_nat (c + length ?q)" and le: "c + length ?q \<le> length ps"
    using assms(1) by (auto simp: rcv_link_def)
  have "seg_sn (?q ! i) + of_nat (length ?q - i) = kcp_rcv_nxt kcp"
    using assms(1) i by (simp add: rcv_link_def rcv_inv_def contig_def)
  also have "\<dots> = of_nat (c + i) + of_nat (length ?q - i)"
    unfolding nx using i by (simp add: of_nat_diff)
  finally have "seg_sn (?q ! i) = of_nat (c + i)" by simp
  moreover have "unat (of_nat (c + i) :: u32) = c + i" using i le assms(2) by (intro unat_of_nat_32) simp
  ultimately have "unat (seg_sn (?q ! i)) = c + i" by simp
  moreover have "sound ps (?q ! i)" using assms(1) i by (simp add: rcv_link_def)
  ultimately have "piece_of (?q ! i) = ps ! (c + i)" by (simp add: sound_def)
  then show "map piece_of ?q ! i = take (length ?q) (drop c ps) ! i"
    using i le by simp
qed

lemma move_rcv_loop_link:
  assumes "length ps < 4294967296"
  shows "rcv_link w ps c kcp \<Longrightarrow> kcp_rcv_buf kcp = xs \<Longrightarrow> rcv_link w ps c (move_rcv_loop xs kcp)"
proof (induction xs arbitrary: kcp)
  case (Cons x xs)
  let ?k = "kcp\<lparr>kcp_rcv_buf := xs, kcp_nrcv_buf := kcp_nrcv_buf kcp - 1,
    kcp_rcv_queue := kcp_rcv_queue kcp @ [x], kcp_nrcv_que := kcp_nrcv_que kcp + 1,
    kcp_rcv_nxt := kcp_rcv_nxt kcp + 1\<rparr>"
  show ?case
  proof (cases "seg_sn x = kcp_rcv_nxt kcp \<and> kcp_nrcv_que kcp < kcp_rcv_wnd kcp")
    case True
    let ?m = "c + length (kcp_rcv_queue kcp)"
    have lk: "sound ps x" "kcp_rcv_nxt kcp = of_nat ?m" "?m \<le> length ps"
      using Cons.prems by (auto simp: rcv_link_def)
    have "unat (of_nat ?m :: u32) = ?m" using lk(3) assms by (intro unat_of_nat_32) simp
    then have "unat (seg_sn x) = ?m" using True lk(2) by metis
    then have "?m < length ps" using lk(1) by (simp add: sound_def)
    moreover have "rcv_inv w ?k"
    proof -
      have "rcv_inv w kcp" using Cons.prems(1) by (simp add: rcv_link_def)
      then show ?thesis using move_one_rcv_inv Cons.prems(2) True by blast
    qed
    ultimately have "rcv_link w ps c ?k"
      using Cons.prems lk by (auto simp: rcv_link_def)
    then have "rcv_link w ps c (move_rcv_loop xs ?k)" by (rule Cons.IH) simp
    then show ?thesis using True by simp
  qed (use Cons.prems in auto)
qed simp

lemma move_rcv_link:
  "length ps < 4294967296 \<Longrightarrow> rcv_link w ps c kcp \<Longrightarrow> rcv_link w ps c (move_rcv kcp)"
  by (simp add: move_rcv_def move_rcv_loop_link)

lemma parse_data_link:
  assumes lk: "rcv_link w ps c kcp" and len: "length ps < 4294967296"
    and s: "sound ps s" "seg_ok 2147483647 s"
  shows "rcv_link w ps c (ikcp_parse_data s kcp)"
proof -
  have inv: "rcv_inv w kcp" using lk by (simp add: rcv_link_def)
  from inv show ?thesis
  proof (cases rule: parse_data_cases [where s = s])
    case outside
    then show ?thesis using lk by simp
  next
    case repeated
    then show ?thesis using lk len by (simp add: move_rcv_link)
  next
    case (inserted k)
    have "spos (kcp_rcv_nxt kcp) (seg_sn s) < w"
      using inserted(1) inv by (auto simp: rcv_accepts_def rcv_inv_def)
    then have "rcv_inv w (insert_seg k s kcp)" using inserted inv s(2) by (intro insert_seg_inv) auto
    moreover have "set (take k (kcp_rcv_buf kcp) @ s # drop k (kcp_rcv_buf kcp)) \<subseteq> insert s (set (kcp_rcv_buf kcp))"
      by (auto dest: in_set_takeD in_set_dropD)
    ultimately have "rcv_link w ps c (insert_seg k s kcp)"
      using lk s(1) unfolding rcv_link_def by (auto simp: insert_seg_def)
    then show ?thesis using inserted(3) len by (simp add: move_rcv_link)
  qed
qed

section \<open>One message\<close>

text \<open>A queue that starts with the pieces of a message hands over exactly that message.\<close>

lemma msg_countdown:
  assumes "map piece_of q = zip (rev (map of_nat [0..<n])) ds @ r" and "length ds = n" and "0 < n"
    and "n < 4294967296"
  shows "msg_count q = n \<and> msg_bytes q = concat ds"
  using assms
proof (induction n arbitrary: q ds)
  case (Suc n)
  obtain d ds' where ds: "ds = d # ds'" using Suc.prems(2) by (cases ds) auto
  obtain s q' where q: "q = s # q'" using Suc.prems(1) ds by (cases q) auto
  have "piece_of s = (of_nat n, d)"
    and q': "map piece_of q' = zip (rev (map of_nat [0..<n])) ds' @ r"
    using Suc.prems(1) by (simp_all add: q ds)
  then have s: "seg_frg s = of_nat n" "seg_data s = d" by (simp_all add: piece_of_def)
  show ?case
  proof (cases "n = 0")
    case True
    then show ?thesis using s ds q Suc.prems(2) by simp
  next
    case False
    have "unat (of_nat n :: u32) = n" using Suc.prems(4) by (intro unat_of_nat_32) simp
    then have "(of_nat n :: u32) \<noteq> 0" using False by auto
    moreover have "msg_count q' = n \<and> msg_bytes q' = concat ds'"
      using q' Suc.prems(2,4) ds False by (intro Suc.IH) auto
    ultimately show ?thesis using s ds q by simp
  qed
qed simp

definition msg_ok :: "u32 \<Rightarrow> u8 list \<Rightarrow> bool" where
  "msg_ok mss bs \<longleftrightarrow> 0 < sint mss \<and> length bs < 2147483648 \<and>
     unat (send_count mss (of_nat (length bs))) < 128"

lemma msg_ok_frags:
  assumes "msg_ok mss bs"
  shows "0 < length (frags mss bs)" and "length (frags mss bs) < 128"
    and "concat (map snd (frags mss bs)) = bs" and "\<forall>p \<in> set (frags mss bs). unat (fst p) < 128"
    and "fst (frags mss bs ! 0) = of_nat (length (frags mss bs) - 1)"
proof -
  let ?c = "unat (send_count mss (of_nat (length bs)))"
  have l: "unat (of_nat (length bs) :: u32) = length bs" using assms by (intro unat_of_nat_32) (simp add: msg_ok_def)
  have "0 \<le> sint (of_nat (length bs) :: u32)" using l assms by (simp add: sint_32_nonneg_iff msg_ok_def)
  then have c: "0 < ?c" "length bs \<le> ?c * unat mss"
    using send_count_covers [of mss "of_nat (length bs)"] assms l by (auto simp: msg_ok_def)
  then show "0 < length (frags mss bs)" by simp
  show c2: "length (frags mss bs) < 128" using assms by (simp add: msg_ok_def)
  show "concat (map snd (frags mss bs)) = bs"
    using concat_chunks [OF c(2)] by (simp add: frags_def Let_def)
  show "\<forall>p \<in> set (frags mss bs). unat (fst p) < 128"
    using c2 by (auto simp: frags_def Let_def unat_of_nat dest!: set_zip_leftD)
  show "fst (frags mss bs ! 0) = of_nat (length (frags mss bs) - 1)"
    using c by (simp add: frags_def Let_def rev_nth)
qed

lemma whole_message:
  assumes "map piece_of q = frags mss bs @ r" and "msg_ok mss bs"
  shows "msg_count q = length (frags mss bs)" and "msg_bytes q = bs"
proof -
  let ?c = "unat (send_count mss (of_nat (length bs)))"
  have "msg_count q = ?c \<and> msg_bytes q = concat (chunks (unat mss) ?c bs)"
    using assms msg_ok_frags(1,2) [OF assms(2)]
    by (intro msg_countdown [of _ _ _ r]) (simp_all add: frags_def Let_def)
  moreover have "concat (chunks (unat mss) ?c bs) = bs"
    using msg_ok_frags(3) [OF assms(2)] by (simp add: frags_def Let_def)
  ultimately show "msg_count q = length (frags mss bs)" "msg_bytes q = bs" by simp_all
qed

text \<open>The completeness test of \<open>ikcp_peeksize\<close> is right: when it answers, the whole message is there.\<close>

lemma peek_complete:
  assumes lk: "rcv_link w ps c kcp" and len: "length ps < 4294967296"
    and drop: "drop c ps = frags mss bs @ r" and ok: "msg_ok mss bs"
    and peek: "0 \<le> sint (ikcp_peeksize kcp)"
  obtains r' where "map piece_of (kcp_rcv_queue kcp) = frags mss bs @ r'"
proof -
  let ?q = "kcp_rcv_queue kcp" and ?n = "length (frags mss bs)"
  note q = rcv_link_queue [OF lk len]
  note f = msg_ok_frags [OF ok]
  have "?q \<noteq> []" using peek by (auto simp: ikcp_peeksize_def)
  then obtain s q' where s: "?q = s # q'" by (cases ?q) auto
  have "piece_of s = drop c ps ! 0"
    using arg_cong [OF q, of "\<lambda>x. x ! 0"] s by (simp only: s list.map nth_Cons_0 nth_take length_Cons zero_less_Suc)
  also have "\<dots> = frags mss bs ! 0" using f(1) by (simp only: drop nth_append if_True)
  finally have fr: "seg_frg s = of_nat (?n - 1)" using f(5) by (metis fst_conv piece_of_def)
  have nq: "unat (kcp_nrcv_que kcp) = length ?q"
    using lk by (simp add: rcv_link_def rcv_inv_def unat_of_nat)
  have "?n \<le> length ?q"
  proof (cases "seg_frg s = 0")
    case True
    have "unat (of_nat (?n - 1) :: u32) = ?n - 1" using f(2) by (intro unat_of_nat_32) simp
    then have "?n \<le> 1" using True fr by simp
    then show ?thesis using s by simp
  next
    case False
    then have "\<not> kcp_nrcv_que kcp < seg_frg s + 1" using peek s by (auto simp: ikcp_peeksize_def split: if_splits)
    moreover have "seg_frg s + 1 = of_nat ?n" using fr f(1) by (metis Suc_pred' of_nat_Suc add.commute)
    moreover have "unat (of_nat ?n :: u32) = ?n" using f(2) by (intro unat_of_nat_32) simp
    ultimately show ?thesis using nq by (simp add: word_less_nat_alt)
  qed
  then have "map piece_of ?q = frags mss bs @ take (length ?q - ?n) r" using q drop by simp
  then show thesis using that by blast
qed

section \<open>A datagram of the sender at the receiver\<close>

lemma ack_push_shape:
  assumes "ikcp_ack_push g sn ts kcp = Inr k"
  shows "\<exists>b l n. k = kcp\<lparr>kcp_ackblock := b, kcp_acklist := l, kcp_ackcount := n\<rparr>"
proof -
  have "k = kcp\<lparr>kcp_ackblock := kcp_ackblock k, kcp_acklist := kcp_acklist k, kcp_ackcount := kcp_ackcount k\<rparr>"
    using assms by (auto simp: ikcp_ack_push_def Let_def split: if_splits)
  then show ?thesis by blast
qed

lemma ucast_small:
  fixes x :: u32
  assumes "unat x < 256"
  shows "ucast (ucast x :: u8) = x"
proof -
  have "take_bit 8 x = x" using assms by (simp add: word_unat_eq_iff unsigned_take_bit_eq take_bit_nat_eq_self)
  then show ?thesis by (simp add: unsigned_ucast_eq)
qed

lemma head_of_simps [simp]:
  "h_conv (head_of s) = seg_conv s" "h_cmd (head_of s) = ucast (seg_cmd s)" "h_frg (head_of s) = ucast (seg_frg s)"
  "h_wnd (head_of s) = ucast (seg_wnd s)" "h_ts (head_of s) = seg_ts s" "h_sn (head_of s) = seg_sn s"
  "h_una (head_of s) = seg_una s" "h_len (head_of s) = seg_len s"
  by (simp_all add: head_of_def)

lemma input_push_link:
  assumes lk: "rcv_link w ps c kcp" and len: "length ps < 4294967296"
    and small: "\<forall>p \<in> set ps. unat (fst p) < 256"
    and s: "sound ps s" "seg_ok m s" "m < 2147483648"
    and run: "input_push g alloc i (head_of s) (seg_data s @ rest) kcp = Inr kcp'" and al: "alloc_ok alloc"
  shows "rcv_link w ps c kcp'"
proof (cases "itimediff (seg_sn s) (kcp_rcv_nxt kcp + kcp_rcv_wnd kcp) < 0")
  case False
  then show ?thesis using run lk by (simp add: input_push_def)
next
  case True
  then obtain k where k: "ikcp_ack_push g (seg_sn s) (seg_ts s) kcp = Inr k"
    using run by (auto simp: input_push_def)
  obtain b l n where "k = kcp\<lparr>kcp_ackblock := b, kcp_acklist := l, kcp_ackcount := n\<rparr>"
    using ack_push_shape [OF k] by blast
  then have lk': "rcv_link w ps c k" using lk by (elim rcv_link_frame) simp_all
  show ?thesis
  proof (cases "itimediff (seg_sn s) (kcp_rcv_nxt k) \<ge> 0")
    case False
    then show ?thesis using run True k lk' by (simp add: input_push_def)
  next
    case push: True
    have sl: "unat (seg_len s) = length (seg_data s)" using s(3) by (intro seg_ok_len [OF s(2)]) linarith
    obtain seg where seg: "alloc i (unat (seg_len s)) = Some seg" "length (seg_data seg) = unat (seg_len s)"
      using al by (auto simp: alloc_ok_def)
    have pl: "seg_len s = 0 \<Longrightarrow> seg_data seg = seg_data s"
      "read_bytes (unat (seg_len s)) (seg_data s @ rest) = Inr (seg_data s)"
      using sl seg(2) by (auto simp: read_bytes_ok)
    define t where "t = seg\<lparr>seg_conv := seg_conv s, seg_cmd := ucast (ucast (seg_cmd s) :: u8),
      seg_frg := ucast (ucast (seg_frg s) :: u8), seg_wnd := ucast (ucast (seg_wnd s) :: u16), seg_ts := seg_ts s,
      seg_sn := seg_sn s, seg_una := seg_una s, seg_len := seg_len s, seg_data := seg_data s\<rparr>"
    have kt: "kcp' = ikcp_parse_data t k"
      using run True k push seg(1) pl
      by (cases "seg_len s = 0") (auto simp: input_push_def word_gt_0 t_def)
    have t: "seg_sn t = seg_sn s" "seg_len t = seg_len s" "seg_data t = seg_data s"
        "seg_frg t = ucast (ucast (seg_frg s) :: u8)" by (simp_all add: t_def)
    have "piece_of s \<in> set ps" using s(1) by (simp add: sound_def)
    then have "unat (seg_frg s) < 256" using small by (auto simp: piece_of_def)
    then have "sound ps t" using s(1) t by (simp add: sound_def piece_of_def ucast_small)
    moreover have "seg_ok 2147483647 t" using s(2,3) t by (simp add: seg_ok_def)
    ultimately show ?thesis unfolding kt by (intro parse_data_link [OF lk' len])
  qed
qed

lemma but_snd_link:
  assumes "but_snd k' = but_snd k" and "rcv_link w ps c k"
  shows "rcv_link w ps c k'"
  by (rule rcv_link_frame [OF assms(2)]) (rule but_snd_eqD [OF assms(1)])+

lemma input_seg_link:
  assumes lk: "rcv_link w ps c kcp" and inv: "kcp_inv w kcp" and len: "length ps < 4294967296"
    and small: "\<forall>p \<in> set ps. unat (fst p) < 256" and al: "alloc_ok alloc"
    and s: "good_key conv ps (key_of s)" "seg_ok m s" "m < 2147483648"
    and run: "input_seg g alloc i (head_of s) (seg_data s @ rest) ma fl kcp = Inr (ma', fl', kcp')"
  shows "rcv_link w ps c kcp'"
proof -
  let ?h = "head_of s"
  let ?w = "ucast (ucast (seg_wnd s) :: u16) :: u32"
  define k where "k = ikcp_shrink_buf (ikcp_parse_una (seg_una s) (kcp\<lparr>kcp_rmt_wnd := ?w\<rparr>))"
  have "rcv_link w ps c (kcp\<lparr>kcp_rmt_wnd := ?w\<rparr>)" using lk by (elim rcv_link_frame) simp_all
  then have lk': "rcv_link w ps c k" by (rule but_snd_link [rotated]) (simp add: k_def)
  have ki: "kcp_inv w k" using input_una_inv [OF inv] by (simp add: k_def)
  note unf = input_seg_def k_def [symmetric] Let_def
  show ?thesis
  proof (cases "data_key conv ps (key_of s)")
    case True
    then have "sound ps s" and "seg_cmd s = 81"
      by (auto simp: data_key_def key_of_def sound_def piece_of_def)
    then have "h_cmd ?h = 81" by simp
    then have "input_push g alloc i ?h (seg_data s @ rest) k = Inr kcp'" using run by (auto simp: unf)
    then show ?thesis by (rule input_push_link [OF lk' len small \<open>sound ps s\<close> s(2,3) _ al])
  next
    case False
    then have "seg_cmd s \<in> {82, 83, 84}" using s(1) by (auto simp: good_key_def ctl_key_def key_of_def)
    then consider "h_cmd ?h = 82" | "h_cmd ?h = 83" | "h_cmd ?h = 84" by auto
    then show ?thesis
    proof cases
      case 1
      then have "input_ack ?h ma fl k = (ma', fl', kcp')" using run by (simp add: unf)
      from input_ack_inv(2) [OF ki this] show ?thesis using lk' by (rule but_snd_link)
    next
      case 2
      then have "kcp' = k\<lparr>kcp_probe := kcp_probe k OR 2\<rparr>" using run by (simp add: unf)
      then show ?thesis using lk' by (elim rcv_link_frame) simp_all
    next
      case 3
      then show ?thesis using run lk' by (simp add: unf)
    qed
  qed
qed

text \<open>The loop of \<open>ikcp_input\<close> over a datagram that consists of whole segments.\<close>

lemma input_loop_wire:
  assumes step: "\<And>i s rest m f k m' f' k'. J k \<Longrightarrow> s \<in> set segs \<Longrightarrow>
      length (kcp_acklist k) + length (wire s @ rest) < 268435456 \<Longrightarrow>
      input_seg True alloc i (head_of s) (seg_data s @ rest) m f k = Inr (m', f', k') \<Longrightarrow>
      J k' \<and> length (kcp_acklist k') \<le> Suc (length (kcp_acklist k))"
    and ok: "\<forall>s \<in> set segs. seg_ok M s" and M: "M < 2147483648"
    and J: "J kcp" and sz: "length (kcp_acklist kcp) + length (concat (map wire segs)) < 268435456"
    and run: "input_loop True alloc i (concat (map wire segs)) (of_nat (length (concat (map wire segs)))) ma fl kcp =
      Inr (r, m, f, kcp')"
  shows "J kcp'"
  using assms
proof (induction segs arbitrary: i ma fl kcp)
  case Nil
  then show ?case by (simp add: input_loop.simps)
next
  case (Cons s segs)
  let ?rest = "concat (map wire segs)"
  let ?d = "wire s @ ?rest"
  have dl: "length ?d < 2147483648" "24 \<le> length ?d" using Cons.prems(5) by simp_all
  have un: "unat (of_nat (length ?d) :: u32) = length ?d" using dl by (intro unat_of_nat_32) simp
  then have sn: "sint (of_nat (length ?d) :: u32) = int (length ?d)" using dl by (metis sint_32_small)
  have big: "\<not> sint (of_nat (length ?d) :: u32) < 24" using sn dl by linarith
  have "ikcp_decode_head ?d = Inr (head_of s, seg_data s @ ?rest)"
    using hd.dec_enc [of "head_of s" "seg_data s @ ?rest"] by (simp add: wire_def encode_seg_head)
  then obtain conv p where d: "ikcp_decode32u ?d = Inr (conv, p)"
      "ikcp_decode_rest conv p = Inr (head_of s, seg_data s @ ?rest)"
    by (auto simp: ikcp_decode_head_def)
  have sl: "unat (seg_len s) = length (seg_data s)" using Cons.prems(2,3) by (intro seg_ok_len [of M]) auto
  have hl: "h_len (head_of s) = seg_len s" by simp
  have left: "of_nat (length ?d) - 24 - seg_len s = (of_nat (length ?rest) :: u32)"
    by (simp add: sl [symmetric])
  note lp = input_loop_step [OF big d, of True alloc i ma fl kcp, unfolded hl left sl]
  have run': "input_loop True alloc i ?d (of_nat (length ?d)) ma fl kcp = Inr (r, m, f, kcp')"
    using Cons.prems(6) by simp
  show ?case
  proof (cases "conv \<noteq> kcp_conv kcp \<or> sint (of_nat (length ?d) - 24 :: u32) < sint (seg_len s) \<or> sint (seg_len s) < 0 \<or>
      \<not> known_cmd (h_cmd (head_of s))")
    case True
    then have "kcp' = kcp" using run' unfolding lp by (auto split: if_splits)
    then show ?thesis using Cons.prems(4) by simp
  next
    case False
    then obtain m1 f1 k where st: "input_seg True alloc i (head_of s) (seg_data s @ ?rest) ma fl kcp = Inr (m1, f1, k)"
      "input_loop True alloc (Suc i) ?rest (of_nat (length ?rest)) m1 f1 k = Inr (r, m, f, kcp')"
      using run' unfolding lp by auto
    have j: "J k \<and> length (kcp_acklist k) \<le> Suc (length (kcp_acklist kcp))"
      using Cons.prems(1) [OF Cons.prems(4) _ _ st(1)] Cons.prems(5) by simp
    show ?thesis
    proof (rule Cons.IH [OF _ _ Cons.prems(3) _ _ st(2)])
      show "\<And>i t rest m f k m' f' k'. J k \<Longrightarrow> t \<in> set segs \<Longrightarrow>
          length (kcp_acklist k) + length (wire t @ rest) < 268435456 \<Longrightarrow>
          input_seg True alloc i (head_of t) (seg_data t @ rest) m f k = Inr (m', f', k') \<Longrightarrow>
          J k' \<and> length (kcp_acklist k') \<le> Suc (length (kcp_acklist k))"
        by (meson Cons.prems(1) list.set_intros(2))
      show "length (kcp_acklist k) + length ?rest < 268435456" using j Cons.prems(5) by simp
    qed (use j Cons.prems(2) in auto)
  qed
qed

lemma input_link:
  assumes inv: "kcp_inv w kcp" and lk: "rcv_link w ps c kcp" and len: "length ps < 4294967296"
    and small: "\<forall>p \<in> set ps. unat (fst p) < 256" and al: "alloc_ok alloc"
    and d: "packed (good_key conv ps) M d" "M < 2147483648"
    and room: "length (kcp_acklist kcp) + length d < 268435456"
    and run: "ikcp_input True alloc (Some d) (of_nat (length d)) kcp = Inr (r, kcp')"
  shows "rcv_link w ps c kcp'"
proof -
  obtain segs where segs: "d = concat (map wire segs)" "\<forall>s \<in> set segs. good_key conv ps (key_of s) \<and> seg_ok M s"
    using d(1) by (auto simp: packed_def)
  have un: "unat (of_nat (length d) :: u32) = length d" using room by (intro unat_of_nat_32) simp
  have sd: "sint (of_nat (length d) :: u32) = int (length d)" using room un by (intro sint_32_small [THEN trans]) simp_all
  let ?J = "\<lambda>k. kcp_inv w k \<and> rcv_link w ps c k"
  have step: "?J k' \<and> length (kcp_acklist k') \<le> Suc (length (kcp_acklist k))"
    if "?J k" and "s \<in> set segs" and "length (kcp_acklist k) + length (wire s @ rest) < 268435456"
      and st: "input_seg True alloc i (head_of s) (seg_data s @ rest) m f k = Inr (m', f', k')" for i s rest m f k m' f' k'
  proof -
    have ok: "good_key conv ps (key_of s)" "seg_ok M s" using that(2) segs(2) by auto
    have sl: "unat (seg_len s) = length (seg_data s)" using d(2) by (intro seg_ok_len [OF ok(2)]) linarith
    have "unat (seg_len s) < 2147483648" using sl ok(2) d(2) by (simp add: seg_ok_def)
    then have "0 \<le> sint (h_len (head_of s))" by (simp add: sint_32_nonneg_iff)
    moreover have "unat (h_len (head_of s)) \<le> length (seg_data s @ rest)" using sl by simp
    moreover have "length (kcp_acklist k) < 268435456" using that(3) by simp
    moreover have "kcp_inv w k" using that(1) by blast
    ultimately obtain m2 f2 k2 where "input_seg True alloc i (head_of s) (seg_data s @ rest) m f k = Inr (m2, f2, k2)"
        "input_step w k k2" "length (kcp_acklist k2) \<le> Suc (length (kcp_acklist k))"
      using input_seg_inv [OF _ al, of w k "head_of s" "seg_data s @ rest" i m f] by blast
    then have "kcp_inv w k'" "length (kcp_acklist k') \<le> Suc (length (kcp_acklist k))"
      using st by (auto simp: input_step_def)
    moreover have "rcv_link w ps c k'"
      using that(1) by (intro input_seg_link [OF _ _ len small al ok d(2) st]) blast+
    ultimately show ?thesis by blast
  qed
  show ?thesis
  proof (cases "length d < 24")
    case True
    then show ?thesis using run sd lk by (simp add: ikcp_input_def)
  next
    case False
    obtain r0 m f k where lp: "input_loop True alloc 0 d (of_nat (length d)) 0 False kcp = Inr (r0, m, f, k)"
      using input_loop_inv [OF al inv, of "of_nat (length d)" d 0 0 False] sd room by auto
    have J: "?J k"
    proof (rule input_loop_wire [where J = ?J, OF step])
      show "\<forall>s \<in> set segs. seg_ok M s" using segs(2) by blast
      show "input_loop True alloc 0 (concat (map wire segs)) (of_nat (length (concat (map wire segs)))) 0 False kcp =
          Inr (r0, m, f, k)" using lp segs(1) by simp
    qed (use d(2) inv lk room segs(1) in auto)
    show ?thesis
    proof (cases "r0 = 0")
      case True
      let ?k = "if f then ikcp_parse_fastack m k else k"
      have lk': "rcv_link w ps c ?k" using J but_snd_link [of "ikcp_parse_fastack m k" k] by auto
      have "snd_inv (ikcp_parse_fastack m k)" using J by (intro parse_fastack_inv kcp_invD(3)) blast
      then have fi: "kcp_inv w ?k" using J but_snd_inv [of "ikcp_parse_fastack m k" k w] by auto
      obtain x y where "grow_cwnd (kcp_snd_una kcp) ?k = Inr (?k\<lparr>kcp_cwnd := x, kcp_incr := y\<rparr>)"
        using grow_cwnd_shape [OF fi] by blast
      then have "kcp' = ?k\<lparr>kcp_cwnd := x, kcp_incr := y\<rparr>"
        using run sd lp True False by (auto simp: ikcp_input_def Let_def)
      then show ?thesis using lk' by (elim rcv_link_frame) simp_all
    next
      case r: False
      then show ?thesis using run sd lp False J by (auto simp: ikcp_input_def)
    qed
  qed
qed

section \<open>Receiving\<close>

text \<open>What \<open>ikcp_recv\<close> does to the linked receiver: it takes the next message, or nothing.\<close>

lemma drop_msg_link:
  assumes "rcv_link w ps c kcp"
  shows "rcv_link w ps (c + msg_count (kcp_rcv_queue kcp)) (drop_msg False kcp)"
  using assms drop_msg_inv [of w kcp False] msg_count_le [of "kcp_rcv_queue kcp"]
  by (auto simp: rcv_link_def drop_msg_def Let_def of_nat_diff dest: in_set_dropD)

lemma recv_link:
  assumes lk: "rcv_link w ps c kcp" and len: "length ps < 4294967296"
    and ps: "ps = pieces mss (got @ rest)" "c = length (pieces mss got)" and ok: "\<forall>m \<in> set rest. msg_ok mss m"
    and arg: "0 \<le> sint n" "sint n \<le> int cap" and mem: "queue_bytes (kcp_rcv_queue kcp) < 4294967296"
    and run: "ikcp_recv (Some cap) n kcp = Inr (r, out, kcp')"
  obtains (none) "sint r < 0" and "kcp' = kcp"
  | (msg) msg rest' where "0 \<le> sint r" and "rest = msg # rest'" and "out = msg"
      and "rcv_link w ps (length (pieces mss (got @ [msg]))) kcp'"
proof -
  have inv: "rcv_inv w kcp" using lk by (simp add: rcv_link_def)
  have n0: "n \<noteq> 2147483648" using arg(1) by auto
  have abs: "\<bar>sint n\<bar> = sint n" using arg(1) by simp
  show thesis
  proof (cases "kcp_rcv_queue kcp \<noteq> [] \<and> 0 \<le> sint (ikcp_peeksize kcp) \<and> sint (ikcp_peeksize kcp) \<le> sint n")
    case False
    then consider "kcp_rcv_queue kcp = []" | "kcp_rcv_queue kcp \<noteq> []" "sint (ikcp_peeksize kcp) < 0"
      | "kcp_rcv_queue kcp \<noteq> []" "0 \<le> sint (ikcp_peeksize kcp)" "sint n < sint (ikcp_peeksize kcp)" by linarith
    then have "r \<in> {-1, -2, -3} \<and> kcp' = kcp"
      using run abs
      by cases (simp_all add: ikcp_recv_refused(1), simp_all add: ikcp_recv_refused(2), simp_all add: ikcp_recv_refused(3))
    then show ?thesis using none by auto
  next
    case True
    let ?q = "kcp_rcv_queue kcp"
    have "drop c ps = pieces mss rest" using ps by simp
    moreover have "c + length ?q \<le> length ps" "0 < length ?q" using lk True by (auto simp: rcv_link_def)
    then have "c < length ps" by linarith
    then have "0 < length (drop c ps)" by simp
    ultimately obtain msg rest' where rest: "rest = msg # rest'" by (cases rest) auto
    have mok: "msg_ok mss msg" using ok rest by simp
    obtain r' where q: "map piece_of ?q = frags mss msg @ r'"
      using peek_complete [OF lk len _ mok] True ps rest by (metis append_assoc append_eq_conv_conj pieces_append pieces_simps(2))
    note wm = whole_message [OF q mok]
    have rv: "ikcp_recv (Some cap) n kcp = Inr (of_nat (length msg), msg,
        tell_window (kcp_nrcv_que kcp \<ge> kcp_rcv_wnd kcp) (move_rcv (drop_msg False kcp)))"
      using ikcp_recv_ok [OF inv _ _ _ n0 _ mem, of cap] True arg abs wm by simp
    have "rcv_link w ps (c + length (frags mss msg)) (move_rcv (drop_msg False kcp))"
      using move_rcv_link [OF len drop_msg_link [OF lk]] wm(1) by simp
    then have "rcv_link w ps (c + length (frags mss msg)) kcp'"
      using run rv by (elim rcv_link_frame) (auto simp: tell_window_def)
    moreover have "0 \<le> sint r"
    proof -
      have "r = of_nat (length msg)" using run rv by auto
      moreover have "unat (of_nat (length msg) :: u32) = length msg" "length msg < 2147483648"
        using mok by (auto simp: msg_ok_def unat_of_nat)
      ultimately show ?thesis by (simp add: sint_32_nonneg_iff)
    qed
    ultimately show ?thesis using msg [of msg rest'] rest run rv ps(2) by simp
  qed
qed

section \<open>The link\<close>

text \<open>
  \<open>lk_a\<close> is the sender, \<open>lk_b\<close> the receiver, \<open>lk_net\<close> every datagram the sender has handed to its
  output callback so far, \<open>lk_sent\<close> and \<open>lk_got\<close> the messages accepted by \<open>ikcp_send\<close> and
  returned by \<open>ikcp_recv\<close>.
\<close>

record link =
  lk_a :: IKCPCB
  lk_b :: IKCPCB
  lk_net :: "u8 list set"
  lk_sent :: "u8 list list"
  lk_got :: "u8 list list"

text \<open>The bounds in the rules are the address space of the target: fewer than \<open>2 ^ 32\<close> segments are
  numbered, the array of pending acknowledgements stays below 2 GB, and so does the receive queue.\<close>

inductive link_step :: "link \<Rightarrow> link \<Rightarrow> bool" where
  send: "alloc_ok alloc \<Longrightarrow> length bs < 2147483648 \<Longrightarrow>
    ikcp_send alloc (Some bs) (of_nat (length bs)) (lk_a l) = Inr (0, a) \<Longrightarrow>
    length (pieces (kcp_mss (lk_a l)) (lk_sent l @ [bs])) < 4294967296 \<Longrightarrow>
    link_step l (l\<lparr>lk_a := a, lk_sent := lk_sent l @ [bs]\<rparr>)"
| refused: "alloc_ok alloc \<Longrightarrow> unat n \<le> length bs \<Longrightarrow>
    ikcp_send alloc (Some bs) n (lk_a l) = Inr (r, a) \<Longrightarrow> r \<noteq> 0 \<Longrightarrow> link_step l (l\<lparr>lk_a := a\<rparr>)"
| tick: "ikcp_update t (lk_a l) = Inr (outs, a) \<Longrightarrow>
    link_step l (l\<lparr>lk_a := a, lk_net := lk_net l \<union> set outs\<rparr>)"
| feed: "alloc_ok alloc \<Longrightarrow> sint n \<le> int (length d) \<Longrightarrow> length (kcp_acklist (lk_a l)) + nat (sint n) < 268435456 \<Longrightarrow>
    ikcp_input True alloc (Some d) n (lk_a l) = Inr (r, a) \<Longrightarrow> link_step l (l\<lparr>lk_a := a\<rparr>)"
| deliver: "alloc_ok alloc \<Longrightarrow> d \<in> lk_net l \<Longrightarrow> length (kcp_acklist (lk_b l)) + length d < 268435456 \<Longrightarrow>
    ikcp_input True alloc (Some d) (of_nat (length d)) (lk_b l) = Inr (r, b) \<Longrightarrow> link_step l (l\<lparr>lk_b := b\<rparr>)"
| recv: "0 \<le> sint n \<Longrightarrow> sint n \<le> int cap \<Longrightarrow> queue_bytes (kcp_rcv_queue (lk_b l)) < 4294967296 \<Longrightarrow>
    ikcp_recv (Some cap) n (lk_b l) = Inr (r, out, b) \<Longrightarrow>
    link_step l (l\<lparr>lk_b := b, lk_got := (if sint r < 0 then lk_got l else lk_got l @ [out])\<rparr>)"
| tick_b: "ikcp_update t (lk_b l) = Inr (outs, b) \<Longrightarrow> link_step l (l\<lparr>lk_b := b\<rparr>)"
| send_b: "alloc_ok alloc \<Longrightarrow> unat n \<le> length bs \<Longrightarrow>
    ikcp_send alloc (Some bs) n (lk_b l) = Inr (r, b) \<Longrightarrow> link_step l (l\<lparr>lk_b := b\<rparr>)"

text \<open>Two control blocks right after \<open>ikcp_create\<close>, \<open>ikcp_setoutput\<close> and any configuration.\<close>

definition link_init :: "nat \<Rightarrow> link \<Rightarrow> bool" where
  "link_init w l \<longleftrightarrow>
     kcp_inv w (lk_a l) \<and> kcp_output (lk_a l) \<and> kcp_stream (lk_a l) = 0 \<and>
     kcp_snd_queue (lk_a l) = [] \<and> kcp_snd_buf (lk_a l) = [] \<and> kcp_snd_nxt (lk_a l) = 0 \<and>
     kcp_inv w (lk_b l) \<and> kcp_output (lk_b l) \<and>
     kcp_rcv_queue (lk_b l) = [] \<and> kcp_rcv_buf (lk_b l) = [] \<and> kcp_rcv_nxt (lk_b l) = 0 \<and>
     lk_net l = {} \<and> lk_sent l = [] \<and> lk_got l = []"

inductive link_reach :: "nat \<Rightarrow> link \<Rightarrow> bool" for w where
  init: "link_init w l \<Longrightarrow> link_reach w l"
| step: "link_reach w l \<Longrightarrow> link_step l l' \<Longrightarrow> link_reach w l'"

section \<open>The invariant of the link\<close>

text \<open>The sender has numbered the first \<open>N\<close> pieces; the others wait in its queue.\<close>

definition snd_link :: "nat \<Rightarrow> piece list \<Rightarrow> IKCPCB \<Rightarrow> bool" where
  "snd_link w ps kcp \<longleftrightarrow> kcp_inv w kcp \<and> kcp_output kcp \<and> kcp_stream kcp = 0 \<and>
     (\<exists>N \<le> length ps. kcp_snd_nxt kcp = of_nat N \<and> map piece_of (kcp_snd_queue kcp) = drop N ps) \<and>
     (\<forall>k \<in> snd_keys kcp. data_key (kcp_conv kcp) ps k)"

definition link_inv :: "nat \<Rightarrow> link \<Rightarrow> bool" where
  "link_inv w l \<longleftrightarrow>
     (let ps = pieces (kcp_mss (lk_a l)) (lk_sent l) in
      length ps < 4294967296 \<and> (\<forall>m \<in> set (lk_sent l). msg_ok (kcp_mss (lk_a l)) m) \<and>
      snd_link w ps (lk_a l) \<and>
      (\<forall>d \<in> lk_net l. packed (good_key (kcp_conv (lk_a l)) ps) (unat (kcp_mtu (lk_a l))) d) \<and>
      kcp_inv w (lk_b l) \<and> kcp_output (lk_b l) \<and>
      rcv_link w ps (length (pieces (kcp_mss (lk_a l)) (lk_got l))) (lk_b l) \<and>
      (\<exists>rest. lk_sent l = lk_got l @ rest))"

lemma pieces_small:
  assumes "\<forall>m \<in> set ms. msg_ok mss m"
  shows "\<forall>p \<in> set (pieces mss ms). unat (fst p) < 256"
  using assms msg_ok_frags(4) by (fastforce simp: pieces_def)

lemma link_init_inv: "link_init w l \<Longrightarrow> link_inv w l"
  by (auto simp: link_init_def link_inv_def snd_link_def rcv_link_def snd_keys_def kcp_inv_def intro: exI [of _ 0])

text \<open>The sender side of every step: the configuration stays, the invariant is kept.\<close>

lemma link_inv_a:
  assumes "link_inv w l" and "snd_link w (pieces (kcp_mss (lk_a l)) (lk_sent l)) a"
    and "kcp_mss a = kcp_mss (lk_a l)" and "kcp_mtu a = kcp_mtu (lk_a l)" and "kcp_conv a = kcp_conv (lk_a l)"
  shows "link_inv w (l\<lparr>lk_a := a\<rparr>)"
  using assms by (simp add: link_inv_def Let_def)

lemma link_inv_b:
  assumes "link_inv w l" and "kcp_inv w b" and "kcp_output b"
    and "rcv_link w (pieces (kcp_mss (lk_a l)) (lk_sent l)) (length (pieces (kcp_mss (lk_a l)) (lk_got l))) b"
  shows "link_inv w (l\<lparr>lk_b := b\<rparr>)"
  using assms by (simp add: link_inv_def Let_def)

lemma snd_link_input:
  assumes "snd_link w ps a" and "input_step w a a'"
  shows "snd_link w ps a'"
  using assms by (auto simp: snd_link_def input_step_def)

subsection \<open>Flushing\<close>

lemma numbered_data_key:
  assumes num: "numbered conv (of_nat N) q ms" and q: "map piece_of q = drop N ps" and len: "length ps < 4294967296"
    and N: "N \<le> length ps" and k: "k \<in> key_of ` set ms"
  shows "data_key conv ps k"
proof -
  obtain i where i: "i < length ms" "k = key_of (ms ! i)" using k by (auto simp: in_set_conv_nth)
  have il: "i < length q" using i num by (simp add: numbered_def)
  have "length q = length ps - N" using arg_cong [OF q, of length] by simp
  then have lt: "N + i < length ps" using il by simp
  have sn: "unat (of_nat (N + i) :: u32) = N + i" using lt len by (intro unat_of_nat_32) simp
  have "piece_of (q ! i) = ps ! (N + i)" using arg_cong [OF q, of "\<lambda>x. x ! i"] il lt by simp
  then have "(seg_frg (q ! i), seg_data (q ! i)) = ps ! unat (of_nat (N + i) :: u32)" by (simp only: sn piece_of_def)
  moreover have "k = (conv, 81, seg_frg (q ! i), of_nat (N + i), seg_data (q ! i))"
    using num i by (simp add: numbered_def)
  ultimately show ?thesis
    unfolding data_key_def using lt sn by (intro exI [of _ "of_nat (N + i)"]) (metis fst_conv snd_conv)
qed

lemma snd_link_flush:
  assumes lk: "snd_link w ps kcp" and len: "length ps < 4294967296" and up: "kcp_updated kcp \<noteq> 0"
    and run: "ikcp_flush kcp = Inr (outs, kcp')"
  shows "snd_link w ps kcp'" and "\<forall>d \<in> set outs. packed (good_key (kcp_conv kcp) ps) (unat (kcp_mtu kcp)) d"
    and "but_out kcp' = but_out kcp"
proof -
  have inv: "kcp_inv w kcp" and out: "kcp_output kcp" using lk by (auto simp: snd_link_def)
  obtain N where N: "N \<le> length ps" "kcp_snd_nxt kcp = of_nat N" "map piece_of (kcp_snd_queue kcp) = drop N ps"
    using lk by (auto simp: snd_link_def)
  obtain outs0 k0 ms where "ikcp_flush kcp = Inr (outs0, k0)" and r: "kcp_inv w k0"
      "\<forall>d \<in> set outs0. d \<noteq> [] \<and> packed (\<lambda>k. ctl_key (kcp_conv kcp) k \<or> k \<in> key_of ` set (kcp_snd_buf k0)) (unat (kcp_mtu kcp)) d"
      "map key_of (kcp_snd_buf k0) = map key_of (kcp_snd_buf kcp @ ms)"
      "kcp_snd_queue k0 = drop (length ms) (kcp_snd_queue kcp)"
      "kcp_snd_nxt k0 = kcp_snd_nxt kcp + of_nat (length ms)"
      "numbered (kcp_conv kcp) (kcp_snd_nxt kcp) (kcp_snd_queue kcp) ms" "but_out k0 = but_out kcp"
    by (rule ikcp_flush_ok [OF inv out up])
  then have eq: "outs0 = outs" "k0 = kcp'" using run by simp_all
  note fr = but_out_eqD [OF r(7)]
  have keys: "snd_keys kcp' = snd_keys kcp \<union> key_of ` set ms"
    using arg_cong [OF r(3), of set] by (simp add: snd_keys_def eq image_Un)
  have dk: "\<forall>k \<in> snd_keys kcp'. data_key (kcp_conv kcp) ps k"
    using lk numbered_data_key [OF r(6) [unfolded N(2)] N(3) len N(1)] unfolding keys snd_link_def by blast
  have "length ms \<le> length ps - N"
    using r(6) arg_cong [OF N(3), of length] by (simp add: numbered_def)
  then have "N + length ms \<le> length ps" using N(1) by simp
  moreover have "map piece_of (kcp_snd_queue kcp') = drop (N + length ms) ps"
    using r(4) N(3) eq by (simp add: drop_map [symmetric] add.commute)
  moreover have "kcp_snd_nxt kcp' = of_nat (N + length ms)" using r(5) N(2) eq by simp
  ultimately show "snd_link w ps kcp'"
    using r(1) fr dk out lk unfolding snd_link_def eq by auto
  show "\<forall>d \<in> set outs. packed (good_key (kcp_conv kcp) ps) (unat (kcp_mtu kcp)) d"
    using r(2) dk unfolding eq by (auto simp: good_key_def snd_keys_def elim!: packed_mono)
  show "but_out kcp' = but_out kcp" using r(7) eq by simp
qed

lemma snd_link_frame:
  assumes "snd_link w ps k"
  shows "snd_link w ps (k\<lparr>kcp_current := c, kcp_updated := u, kcp_ts_flush := f\<rparr>)"
  using assms unfolding snd_link_def kcp_inv_def by (auto simp: snd_keys_def elim: inv_intros)

lemma snd_link_update:
  assumes lk: "snd_link w ps kcp" and len: "length ps < 4294967296"
    and run: "ikcp_update t kcp = Inr (outs, kcp')"
  shows "snd_link w ps kcp' \<and> (\<forall>d \<in> set outs. packed (good_key (kcp_conv kcp) ps) (unat (kcp_mtu kcp)) d) \<and>
    kcp_mss kcp' = kcp_mss kcp \<and> kcp_mtu kcp' = kcp_mtu kcp \<and> kcp_conv kcp' = kcp_conv kcp"
proof (cases rule: ikcp_update_cases [of t kcp])
  case (quiet c u f)
  then show ?thesis using run snd_link_frame [OF lk] by auto
next
  case (flush c u f)
  let ?k = "kcp\<lparr>kcp_current := c, kcp_updated := u, kcp_ts_flush := f\<rparr>"
  have "ikcp_flush ?k = Inr (outs, kcp')" "kcp_updated ?k \<noteq> 0" using flush run by simp_all
  note fl = snd_link_flush [OF snd_link_frame [OF lk] len this(2,1)]
  then show ?thesis using but_out_eqD [OF fl(3)] by simp
qed

text \<open>The other direction of the receiver does not touch its receive side.\<close>

lemma rcv_link_update:
  assumes lk: "rcv_link w ps c kcp" and inv: "kcp_inv w kcp" and out: "kcp_output kcp"
    and run: "ikcp_update t kcp = Inr (outs, kcp')"
  shows "rcv_link w ps c kcp' \<and> kcp_inv w kcp' \<and> kcp_output kcp'"
proof (cases rule: ikcp_update_cases [of t kcp])
  case (quiet c' u f)
  then have "kcp' = kcp\<lparr>kcp_current := c', kcp_updated := u, kcp_ts_flush := f\<rparr>" using run by simp
  then show ?thesis
    using lk inv out unfolding kcp_inv_def by (auto elim: inv_intros rcv_link_frame)
next
  case (flush c' u f)
  let ?k = "kcp\<lparr>kcp_current := c', kcp_updated := u, kcp_ts_flush := f\<rparr>"
  have ki: "kcp_inv w ?k" using inv unfolding kcp_inv_def by (auto elim: inv_intros)
  have ko: "kcp_output ?k" "kcp_updated ?k \<noteq> 0" using out flush by simp_all
  obtain outs0 k0 where "ikcp_flush ?k = Inr (outs0, k0)" "kcp_inv w k0" "but_out k0 = but_out ?k"
    by (rule ikcp_flush_ok [OF ki ko])
  then have r: "kcp_inv w kcp'" "but_out kcp' = but_out ?k" using flush run by simp_all
  note fr = but_out_eqD [OF r(2)]
  have "rcv_link w ps c kcp'" by (rule rcv_link_frame [OF lk]) (simp_all add: fr)
  then show ?thesis using r(1) fr out by simp
qed

subsection \<open>Every step keeps the invariant\<close>

lemma link_inv_send:
  assumes inv: "link_inv w l" and al: "alloc_ok alloc" and bs: "length bs < 2147483648"
    and run: "ikcp_send alloc (Some bs) (of_nat (length bs)) (lk_a l) = Inr (0, a)"
    and few: "length (pieces (kcp_mss (lk_a l)) (lk_sent l @ [bs])) < 4294967296"
  shows "link_inv w (l\<lparr>lk_a := a, lk_sent := lk_sent l @ [bs]\<rparr>)"
proof -
  let ?k = "lk_a l" and ?ps = "pieces (kcp_mss (lk_a l)) (lk_sent l)" and ?n = "of_nat (length bs) :: u32"
  let ?c = "unat (send_count (kcp_mss ?k) ?n)" and ?m = "kcp_mss ?k"
  have sl: "snd_link w ?ps ?k" using inv by (simp add: link_inv_def Let_def)
  then have ki: "kcp_inv w ?k" "kcp_stream ?k = 0" by (auto simp: snd_link_def)
  have mss: "0 < sint ?m" using sizes_mss(2) kcp_invD(1) [OF ki(1)] by blast
  have un: "unat ?n = length bs" using bs by (intro unat_of_nat_32) simp
  have n0: "0 \<le> sint ?n" using un bs by (simp add: sint_32_nonneg_iff)
  obtain segs where eq: "ikcp_send alloc (Some bs) ?n ?k = (if 128 \<le> ?c then Inr (-2, ?k)
       else Inr (0, ?k\<lparr>kcp_snd_queue := kcp_snd_queue ?k @ segs, kcp_nsnd_que := kcp_nsnd_que ?k + of_nat ?c\<rparr>))"
    and sa: "sent_as (unat ?m) True (chunks (unat ?m) ?c (take (unat ?n) bs)) segs"
    using ikcp_send_message [OF al mss ki(2) n0, of bs] un by auto
  have c: "?c < 128" and a: "a = ?k\<lparr>kcp_snd_queue := kcp_snd_queue ?k @ segs, kcp_nsnd_que := kcp_nsnd_que ?k + of_nat ?c\<rparr>"
    using run eq by (auto split: if_splits)
  have ok: "msg_ok ?m bs" using mss bs c by (simp add: msg_ok_def)
  have pc: "map piece_of segs = frags ?m bs" using sent_as_pieces [OF sa] un by (simp add: frags_def Let_def)
  obtain N where N: "N \<le> length ?ps" "kcp_snd_nxt ?k = of_nat N" "map piece_of (kcp_snd_queue ?k) = drop N ?ps"
    using sl by (auto simp: snd_link_def)
  have "kcp_inv w a" using send_inv [OF ki(1) al, of ?n bs] un run by auto
  moreover have "map piece_of (kcp_snd_queue a) = drop N (?ps @ frags ?m bs)" using a pc N by simp
  moreover have "\<forall>k \<in> snd_keys a. data_key (kcp_conv a) (?ps @ frags ?m bs) k"
    using sl a by (auto simp: snd_link_def snd_keys_def data_key_append)
  ultimately have sl': "snd_link w (?ps @ frags ?m bs) a"
    using sl a N unfolding snd_link_def by (auto intro!: exI [of _ N])
  have net: "\<forall>d \<in> lk_net l. packed (good_key (kcp_conv ?k) (?ps @ frags ?m bs)) (unat (kcp_mtu ?k)) d"
  proof
    fix d assume "d \<in> lk_net l"
    then have "packed (good_key (kcp_conv ?k) ?ps) (unat (kcp_mtu ?k)) d" using inv by (simp add: link_inv_def Let_def)
    then show "packed (good_key (kcp_conv ?k) (?ps @ frags ?m bs)) (unat (kcp_mtu ?k)) d"
      by (rule packed_mono) (rule good_key_append)
  qed
  have "kcp_mss a = ?m" "kcp_mtu a = kcp_mtu ?k" "kcp_conv a = kcp_conv ?k" using a by simp_all
  then show ?thesis
    using inv ok few sl' net rcv_link_append by (auto simp: link_inv_def Let_def)
qed

lemma link_inv_refused:
  assumes inv: "link_inv w l" and al: "alloc_ok alloc" and n: "unat n \<le> length bs"
    and run: "ikcp_send alloc (Some bs) n (lk_a l) = Inr (r, a)" and "r \<noteq> 0"
  shows "a = lk_a l"
proof -
  let ?k = "lk_a l"
  have ki: "kcp_inv w ?k" "kcp_stream ?k = 0" using inv by (auto simp: link_inv_def Let_def snd_link_def)
  have mss: "0 < sint (kcp_mss ?k)" using sizes_mss(2) kcp_invD(1) [OF ki(1)] by blast
  show ?thesis
  proof (cases "sint n < 0")
    case True
    then show ?thesis using run mss by (auto simp: ikcp_send_def word_gt_0)
  next
    case False
    then have "0 \<le> sint n" by simp
    then show ?thesis
      using ikcp_send_message [OF al mss ki(2) _ n] run \<open>r \<noteq> 0\<close> by (auto split: if_splits)
  qed
qed

lemma link_inv_recv:
  assumes inv: "link_inv w l" and arg: "0 \<le> sint n" "sint n \<le> int cap"
    and mem: "queue_bytes (kcp_rcv_queue (lk_b l)) < 4294967296"
    and run: "ikcp_recv (Some cap) n (lk_b l) = Inr (r, out, b)"
  shows "link_inv w (l\<lparr>lk_b := b, lk_got := (if sint r < 0 then lk_got l else lk_got l @ [out])\<rparr>)"
proof -
  let ?m = "kcp_mss (lk_a l)"
  obtain rest where rest: "lk_sent l = lk_got l @ rest" using inv by (auto simp: link_inv_def Let_def)
  have lk: "rcv_link w (pieces ?m (lk_got l @ rest)) (length (pieces ?m (lk_got l))) (lk_b l)"
    and len: "length (pieces ?m (lk_got l @ rest)) < 4294967296" and ok: "\<forall>m \<in> set rest. msg_ok ?m m"
    and ki: "kcp_inv w (lk_b l)" "kcp_output (lk_b l)"
    using inv rest by (auto simp: link_inv_def Let_def)
  have kb: "kcp_inv w b" "kcp_output b" using recv_inv [OF ki(1) _ mem, of n cap] arg run ki(2) by auto
  show ?thesis
  proof (cases rule: recv_link [OF lk len refl refl ok arg mem run])
    case 1
    then show ?thesis using inv by (simp add: link_inv_def Let_def)
  next
    case (2 msg rest')
    then show ?thesis using inv rest kb by (auto simp: link_inv_def Let_def)
  qed
qed

lemma link_step_inv:
  assumes "link_step l l'" and "link_inv w l"
  shows "link_inv w l'"
  using assms
proof (cases rule: link_step.cases)
  case (send alloc bs a)
  then show ?thesis using link_inv_send [OF assms(2)] by simp
next
  case (refused alloc n bs r a)
  then have "a = lk_a l" using link_inv_refused [OF assms(2)] by blast
  then show ?thesis using refused assms(2) by simp
next
  case (tick t outs a)
  let ?ps = "pieces (kcp_mss (lk_a l)) (lk_sent l)"
  have "snd_link w ?ps (lk_a l)" "length ?ps < 4294967296" using assms(2) by (auto simp: link_inv_def Let_def)
  from snd_link_update [OF this tick(2)] tick(1) assms(2) show ?thesis
    by (auto simp: link_inv_def Let_def)
next
  case (feed alloc n d r a)
  have sl: "snd_link w (pieces (kcp_mss (lk_a l)) (lk_sent l)) (lk_a l)" using assms(2) by (simp add: link_inv_def Let_def)
  then have "kcp_inv w (lk_a l)" by (simp add: snd_link_def)
  then have st: "input_step w (lk_a l) a" using ikcp_input_ok feed by fastforce
  then show ?thesis
    using feed(1) link_inv_a [OF assms(2) snd_link_input [OF sl st]] by (simp add: input_step_def)
next
  case (deliver alloc d r b)
  let ?ps = "pieces (kcp_mss (lk_a l)) (lk_sent l)"
  have i: "kcp_inv w (lk_b l)" "kcp_output (lk_b l)" "length ?ps < 4294967296" "\<forall>m \<in> set (lk_sent l). msg_ok (kcp_mss (lk_a l)) m"
    "rcv_link w ?ps (length (pieces (kcp_mss (lk_a l)) (lk_got l))) (lk_b l)"
    "packed (good_key (kcp_conv (lk_a l)) ?ps) (unat (kcp_mtu (lk_a l))) d" "kcp_inv w (lk_a l)"
    using assms(2) deliver(3) by (auto simp: link_inv_def Let_def snd_link_def)
  have M: "unat (kcp_mtu (lk_a l)) < 2147483648" using kcp_invD(1) [OF i(7)] by (simp add: sizes_inv_def)
  have lk: "rcv_link w ?ps (length (pieces (kcp_mss (lk_a l)) (lk_got l))) b"
    by (rule input_link [OF i(1,5,3) pieces_small [OF i(4)] deliver(2) i(6) M deliver(4,5)])
  have un: "unat (of_nat (length d) :: u32) = length d" using deliver(4) by (intro unat_of_nat_32) simp
  then have "sint (of_nat (length d) :: u32) = int (length d)"
    using deliver(4) by (intro sint_32_small [THEN trans]) simp_all
  then have "input_step w (lk_b l) b"
    using ikcp_input_ok [OF i(1) deliver(2), of "of_nat (length d)" d] deliver(4,5) by auto
  then show ?thesis using deliver(1) link_inv_b [OF assms(2) _ _ lk] i(2) by (simp add: input_step_def)
next
  case (recv n cap r out b)
  then show ?thesis using link_inv_recv [OF assms(2)] by simp
next
  case (tick_b t outs b)
  have "rcv_link w (pieces (kcp_mss (lk_a l)) (lk_sent l)) (length (pieces (kcp_mss (lk_a l)) (lk_got l))) b \<and>
      kcp_inv w b \<and> kcp_output b"
    using assms(2) tick_b(2) by (intro rcv_link_update [of _ _ _ "lk_b l"]) (auto simp: link_inv_def Let_def)
  then show ?thesis using tick_b(1) link_inv_b [OF assms(2)] by simp
next
  case (send_b alloc n bs r b)
  have i: "kcp_inv w (lk_b l)" "kcp_output (lk_b l)"
    "rcv_link w (pieces (kcp_mss (lk_a l)) (lk_sent l)) (length (pieces (kcp_mss (lk_a l)) (lk_got l))) (lk_b l)"
    using assms(2) by (auto simp: link_inv_def Let_def)
  obtain q m where b: "b = (lk_b l)\<lparr>kcp_snd_queue := q, kcp_nsnd_que := m\<rparr>" "kcp_inv w b"
    using send_inv [OF i(1) send_b(2,3)] send_b(4) by auto
  have "rcv_link w (pieces (kcp_mss (lk_a l)) (lk_sent l)) (length (pieces (kcp_mss (lk_a l)) (lk_got l))) b"
    by (rule rcv_link_frame [OF i(3)]) (simp_all add: b(1))
  then show ?thesis using send_b(1) link_inv_b [OF assms(2)] b i(2) by simp
qed

lemma link_reach_inv: "link_reach w l \<Longrightarrow> link_inv w l"
  by (induction rule: link_reach.induct) (auto intro: link_init_inv link_step_inv)

section \<open>Properties\<close>

text \<open>A run of the link: a message of three bytes is sent, two updates later it is on the wire, the
  peer takes the datagram and delivers the message.\<close>

definition demo_a1 :: IKCPCB where
  "demo_a1 = demo_kcp\<lparr>kcp_nsnd_que := 1, kcp_snd_queue := [demo_seg 0 0 [1, 2, 3]]\<rparr>"

definition demo_a2 :: IKCPCB where
  "demo_a2 = demo_a1\<lparr>kcp_cwnd := 1, kcp_incr := 1376, kcp_updated := 1\<rparr>"

definition demo_a3 :: IKCPCB where
  "demo_a3 = demo_a2\<lparr>kcp_current := 100, kcp_ts_flush := 200, kcp_snd_nxt := 1, kcp_nsnd_que := 0,
     kcp_snd_queue := [], kcp_nsnd_buf := 1, kcp_snd_buf := [(demo_seg 0 0 [1, 2, 3])\<lparr>seg_wnd := 128,
       seg_ts := 100, seg_resendts := 325, seg_rto := 200, seg_xmit := 1\<rparr>]\<rparr>"

definition demo_datagram :: "u8 list" where
  "demo_datagram = [17, 0, 0, 0, 81, 0, 128, 0, 100, 0, 0, 0, 0, 0, 0, 0, 0, 0, 0, 0, 3, 0, 0, 0, 1, 2, 3]"

definition demo_b1 :: IKCPCB where
  "demo_b1 = demo_kcp\<lparr>kcp_rcv_nxt := 1, kcp_nrcv_que := 1, kcp_acklist := [(0, 100)], kcp_ackcount := 1,
     kcp_ackblock := 8, kcp_rcv_queue := [(demo_seg 0 0 [1, 2, 3])\<lparr>seg_wnd := 128, seg_ts := 100\<rparr>]\<rparr>"

definition demo_b2 :: IKCPCB where
  "demo_b2 = demo_b1\<lparr>kcp_nrcv_que := 0, kcp_rcv_queue := []\<rparr>"

lemma demo_send: "ikcp_send demo_alloc (Some [1, 2, 3]) 3 demo_kcp = Inr (0, demo_a1)"
  by code_simp

lemma demo_update_0: "ikcp_update 0 demo_a1 = Inr ([], demo_a2)"
  by code_simp

lemma demo_update_100: "ikcp_update 100 demo_a2 = Inr ([demo_datagram], demo_a3)"
  by code_simp

lemma demo_input: "ikcp_input True demo_alloc (Some demo_datagram) 27 demo_kcp = Inr (0, demo_b1)"
  by code_simp

lemma demo_recv: "ikcp_recv (Some 64) 64 demo_b1 = Inr (3, [1, 2, 3], demo_b2)"
  by code_simp

lemma demo_run:
  "link_reach 128 \<lparr>lk_a = demo_a3, lk_b = demo_b2, lk_net = {demo_datagram}, lk_sent = [[1, 2, 3]], lk_got = [[1, 2, 3]]\<rparr>"
proof -
  let ?l = "\<lambda>a b n s g. \<lparr>lk_a = a, lk_b = b, lk_net = n, lk_sent = s, lk_got = g\<rparr>"
  have mss: "kcp_mss demo_kcp = 1376" and ack: "kcp_acklist demo_kcp = []" by (simp_all add: demo_simps)
  have "link_init 128 (?l demo_kcp demo_kcp {} [] [])"
    using demo_inv by (simp add: link_init_def) (simp add: demo_simps)
  then have r0: "link_reach 128 (?l demo_kcp demo_kcp {} [] [])" by (rule link_reach.init)
  have "link_step (?l demo_kcp demo_kcp {} [] []) (?l demo_a1 demo_kcp {} [[1, 2, 3]] [])"
    using link_step.send [OF demo_alloc_ok, of "[1, 2, 3]" "?l demo_kcp demo_kcp {} [] []" demo_a1] demo_send
    by (simp add: mss send_count_def)
  note r1 = link_reach.step [OF r0 this]
  have "link_step (?l demo_a1 demo_kcp {} [[1, 2, 3]] []) (?l demo_a2 demo_kcp {} [[1, 2, 3]] [])"
    using link_step.tick [of 0 "?l demo_a1 demo_kcp {} [[1, 2, 3]] []"] demo_update_0 by simp
  note r2 = link_reach.step [OF r1 this]
  have "link_step (?l demo_a2 demo_kcp {} [[1, 2, 3]] []) (?l demo_a3 demo_kcp {demo_datagram} [[1, 2, 3]] [])"
    using link_step.tick [of 100 "?l demo_a2 demo_kcp {} [[1, 2, 3]] []"] demo_update_100 by simp
  note r3 = link_reach.step [OF r2 this]
  have "link_step (?l demo_a3 demo_kcp {demo_datagram} [[1, 2, 3]] []) (?l demo_a3 demo_b1 {demo_datagram} [[1, 2, 3]] [])"
    using link_step.deliver [OF demo_alloc_ok, of demo_datagram "?l demo_a3 demo_kcp {demo_datagram} [[1, 2, 3]] []"]
      demo_input by (simp add: ack demo_datagram_def)
  note r4 = link_reach.step [OF r3 this]
  have "link_step (?l demo_a3 demo_b1 {demo_datagram} [[1, 2, 3]] []) (?l demo_a3 demo_b2 {demo_datagram} [[1, 2, 3]] [[1, 2, 3]])"
    using link_step.recv [of 64 64 "?l demo_a3 demo_b1 {demo_datagram} [[1, 2, 3]] []"] demo_recv
    by (simp add: demo_b1_def queue_bytes_def demo_seg_def)
  then show ?thesis by (rule link_reach.step [OF r4])
qed

text \<open>
  C1. Reliable delivery: whatever the network does with the datagrams of the sender (lose, repeat,
  reorder, delay) and whatever else arrives at the sender, the messages \<open>ikcp_recv\<close> has returned
  are always an initial part of the messages \<open>ikcp_send\<close> has accepted: in order, complete, without
  gaps, repetitions or alterations.
\<close>

theorem delivery_in_order:
  assumes "link_reach w l"
  shows "\<exists>rest. lk_sent l = lk_got l @ rest"
  using link_reach_inv [OF assms] by (simp add: link_inv_def Let_def)

theorem delivery_in_order_witness:
  "\<exists>l rest. link_reach 128 l \<and> lk_sent l = [[1, 2, 3]] \<and> lk_got l = [[1, 2, 3]] \<and> lk_sent l = lk_got l @ rest"
  using demo_run delivery_in_order [OF demo_run] by fastforce

text \<open>
  C10. Along every run of the link neither side ever faults: \<open>ikcp_update\<close>, \<open>ikcp_send\<close>, \<open>ikcp_input\<close>
  (of any bytes) and \<open>ikcp_recv\<close> return a result in every reachable state.
\<close>

theorem link_never_faults:
  assumes "link_reach w l" and "alloc_ok alloc" and "k \<in> {lk_a l, lk_b l}" and "unat n \<le> length bs"
    and "sint sz \<le> int (length d)" and "length (kcp_acklist k) + nat (sint sz) < 268435456"
    and "\<bar>sint rl\<bar> \<le> int cap" and "queue_bytes (kcp_rcv_queue k) < 4294967296"
  shows "(\<exists>r. ikcp_update t k = Inr r) \<and> (\<exists>r. ikcp_send alloc (Some bs) n k = Inr r) \<and>
    (\<exists>r. ikcp_input True alloc (Some d) sz k = Inr r) \<and> (\<exists>r. ikcp_recv (Some cap) rl k = Inr r)"
proof -
  have i: "kcp_inv w k" "kcp_output k"
    using link_reach_inv [OF assms(1)] assms(3) by (auto simp: link_inv_def Let_def snd_link_def)
  have "\<exists>r. ikcp_update t k = Inr r"
  proof (cases rule: ikcp_update_cases [of t k])
    case (flush c u f)
    let ?k = "k\<lparr>kcp_current := c, kcp_updated := u, kcp_ts_flush := f\<rparr>"
    have "kcp_inv w ?k" using i(1) unfolding kcp_inv_def by (auto elim: inv_intros)
    then show ?thesis using ikcp_flush_ok [of w ?k] flush i(2) by fastforce
  qed auto
  then show ?thesis
    using send_inv [OF i(1) assms(2,4)] ikcp_input_ok [OF i(1) assms(2,5,6)] recv_inv [OF i(1) assms(7,8)] by auto
qed

theorem link_never_faults_witness:
  "\<exists>r. ikcp_input True demo_alloc (Some [1, 2, 3]) 3 demo_b2 = Inr r"
proof -
  have "length (kcp_acklist demo_b2) = 1" "queue_bytes (kcp_rcv_queue demo_b2) = 0"
    by (simp_all add: demo_b2_def demo_b1_def queue_bytes_def)
  then show ?thesis
    using link_never_faults [OF demo_run demo_alloc_ok, of demo_b2 0 "[]" 3 "[1, 2, 3]" 0 0 0] by simp
qed

end
