(* ===== verification/Kcp_Api.thy ===== *)
theory Kcp_Api
  imports Kcp_Input Kcp_Flush
begin

text \<open>
  The calls of the KCP interface as one machine: any sequence of sending, receiving, datagrams from
  the network, clock ticks and changes of the configuration, from a new control block on. What the
  caller has to respect is written out for each call; \<open>ikcp_setmtu\<close> is the call with a condition that
  the code does not check.
\<close>

section \<open>Calls\<close>






section \<open>Every call keeps the invariant\<close>








section \<open>Properties\<close>



end
