(* ===== verification/Frame_Queue.thy ===== *)
theory Frame_Queue
  imports Fifo
begin

text \<open>
  The queue of video frames between threads (\<open>queue.c\<close>): a singly linked list on the heap with a
  mutex and a condition variable. Every operation is modelled on an explicit heap of nodes, so
  that a use of a freed node or of a null pointer is a fault. The body of an operation between
  \<open>pthread_mutex_lock\<close> and \<open>pthread_mutex_unlock\<close> is one atomic step; what \<open>DeQueue\<close> reads
  before it takes the lock is a step of its own (section on threads).
\<close>

section \<open>State\<close>

type_synonym addr = nat

record node =
  n_frame :: u32
  n_next :: "addr option"

record Queue =
  q_front :: "addr option"
  q_rear :: "addr option"
  q_size :: s32
  q_heap :: "addr \<Rightarrow> node option"

text \<open>A pointer dereference.\<close>

definition deref :: "addr option \<Rightarrow> Queue \<Rightarrow> node result" where
  "deref p q = (case p of None \<Rightarrow> Inl Null_deref
     | Some a \<Rightarrow> (case q_heap q a of None \<Rightarrow> Inl Use_after_free | Some n \<Rightarrow> Inr n))"

section \<open>Operations\<close>

definition InitQueue :: "bool \<Rightarrow> (addr \<Rightarrow> node option) \<Rightarrow> Queue option" where
  "InitQueue got heap =
     (if got then Some \<lparr>q_front = None, q_rear = None, q_size = 0, q_heap = heap\<rparr> else None)"

definition IsEmpty :: "Queue \<Rightarrow> bool" where
  "IsEmpty q \<longleftrightarrow> q_front q = None \<and> q_rear q = None \<and> q_size q = 0"

definition GetSize :: "Queue \<Rightarrow> s32" where
  "GetSize q = q_size q"

text \<open>\<open>GetFront\<close>: \<open>None\<close> when the caller stays in \<open>pthread_cond_wait\<close>, otherwise the frame and the
  pointer that is returned (read again behind the unlock).\<close>

definition GetFront :: "Queue \<Rightarrow> (u32 \<times> addr option) option result" where
  "GetFront q =
     (if IsEmpty q then Inr None
      else bind_result (deref (q_front q) q) (\<lambda>n. Inr (Some (n_frame n, q_front q))))"

text \<open>\<open>GetRear\<close>: what is stored in \<open>*frame\<close>, if anything, and the pointer returned.\<close>

definition GetRear :: "Queue \<Rightarrow> (u32 option \<times> addr option) result" where
  "GetRear q =
     (if \<not> IsEmpty q then bind_result (deref (q_rear q) q) (\<lambda>n. Inr (Some (n_frame n), q_rear q))
      else Inr (None, q_rear q))"

text \<open>\<open>EnQueue\<close>: \<open>pnode\<close> is the result of \<open>malloc\<close>.\<close>

definition EnQueue :: "addr option \<Rightarrow> u32 \<Rightarrow> Queue \<Rightarrow> (addr option \<times> Queue) result" where
  "EnQueue pnode fr q =
     (case pnode of
        None \<Rightarrow> Inr (None, q)
      | Some p \<Rightarrow>
          let q = q\<lparr>q_heap := (q_heap q)(p \<mapsto> \<lparr>n_frame = fr, n_next = None\<rparr>)\<rparr> in
          bind_result
            (if IsEmpty q then Inr (q\<lparr>q_front := Some p\<rparr>)
             else bind_result (deref (q_rear q) q) (\<lambda>n.
                    Inr (q\<lparr>q_heap := (q_heap q)(the (q_rear q) \<mapsto> n\<lparr>n_next := Some p\<rparr>)\<rparr>))) (\<lambda>q.
          Inr (Some p, q\<lparr>q_rear := Some p, q_size := q_size q + 1\<rparr>)))"

text \<open>The locked part of \<open>DeQueue\<close>, with the pointer read before.\<close>

definition DeQueue_locked :: "addr option \<Rightarrow> Queue \<Rightarrow> (addr option \<times> Queue) result" where
  "DeQueue_locked pnode q =
     (if \<not> IsEmpty q then
        let q = q\<lparr>q_size := q_size q - 1\<rparr> in
        bind_result (deref pnode q) (\<lambda>n.
          let q = q\<lparr>q_front := n_next n, q_heap := (q_heap q)(the pnode := None)\<rparr>;
              q = (if q_size q = 0 then q\<lparr>q_rear := None\<rparr> else q)
          in Inr (q_front q, q))
      else Inr (q_front q, q))"

definition DeQueue :: "Queue \<Rightarrow> (addr option \<times> Queue) result" where
  "DeQueue q = DeQueue_locked (q_front q) q"

text \<open>\<open>ClearQueue\<close>, with fuel for the loop: \<open>None\<close> when the fuel is used up.\<close>

fun ClearQueue :: "nat \<Rightarrow> Queue \<Rightarrow> Queue result option" where
  "ClearQueue fuel q =
     (if IsEmpty q then Some (Inr q)
      else case fuel of 0 \<Rightarrow> None
        | Suc n \<Rightarrow> (case DeQueue q of Inl e \<Rightarrow> Some (Inl e) | Inr (_, q) \<Rightarrow> ClearQueue n q))"

declare ClearQueue.simps [simp del]

text \<open>\<open>DestroyQueue\<close>: the heap that is left.\<close>

definition DestroyQueue :: "nat \<Rightarrow> Queue option \<Rightarrow> (addr \<Rightarrow> node option) option result option" where
  "DestroyQueue fuel pqueue =
     (case pqueue of
        None \<Rightarrow> Some (Inr None)
      | Some q \<Rightarrow> map_option (\<lambda>r. bind_result r (\<lambda>q. Inr (Some (q_heap q)))) (ClearQueue fuel q))"



section \<open>The list a queue stands for\<close>

fun chain :: "(addr \<Rightarrow> node option) \<Rightarrow> addr option \<Rightarrow> (addr \<times> u32) list \<Rightarrow> bool" where
  "chain h p [] \<longleftrightarrow> p = None"
| "chain h p ((a, f) # xs) \<longleftrightarrow> p = Some a \<and> (\<exists>n. h a = Some n \<and> n_frame n = f \<and> chain h (n_next n) xs)"

definition holds :: "Queue \<Rightarrow> (addr \<times> u32) list \<Rightarrow> bool" where
  "holds q xs \<longleftrightarrow> chain (q_heap q) (q_front q) xs \<and> distinct (map fst xs) \<and>
     q_rear q = (if xs = [] then None else Some (fst (last xs))) \<and>
     q_size q = of_nat (length xs) \<and> length xs < 2147483648"

lemma chain_cong: "\<forall>a \<in> fst ` set xs. h a = h' a \<Longrightarrow> chain h p xs = chain h' p xs"
proof (induction xs arbitrary: p)
  case (Cons x xs)
  then show ?case by (cases x) auto
qed simp

lemma chain_dom: "chain h p xs \<Longrightarrow> a \<in> fst ` set xs \<Longrightarrow> \<exists>n. h a = Some n"
proof (induction xs arbitrary: p)
  case (Cons x xs)
  then show ?case by (cases x) auto
qed simp

text \<open>Linking a new node behind the last one.\<close>

lemma chain_snoc:
  assumes "chain h p (xs @ [(r, f)])" and "distinct (map fst (xs @ [(r, f)]))" and "a \<notin> fst ` set (xs @ [(r, f)])"
    and "h r = Some n" and "h' = (h(a \<mapsto> \<lparr>n_frame = g, n_next = None\<rparr>))(r \<mapsto> n\<lparr>n_next := Some a\<rparr>)"
  shows "chain h' p (xs @ [(r, f), (a, g)])"
  using assms
proof (induction xs arbitrary: p)
  case Nil
  then show ?case by auto
next
  case (Cons x xs)
  obtain b fb where x: "x = (b, fb)" by fastforce
  obtain nb where nb: "p = Some b" "h b = Some nb" "n_frame nb = fb" "chain h (n_next nb) (xs @ [(r, f)])"
    using Cons.prems(1) x by auto
  have "chain h' (n_next nb) (xs @ [(r, f), (a, g)])"
    using Cons.prems nb(4) by (intro Cons.IH) auto
  moreover have "h' b = Some nb" using Cons.prems nb x by auto
  ultimately show ?case using nb x by simp
qed

lemma size_eq_0: "length xs < 2147483648 \<Longrightarrow> (of_nat (length xs) :: u32) = 0 \<longleftrightarrow> xs = []"
  using unat_of_nat_32 [of "length xs"] by (cases xs) auto

lemma holds_empty: "holds q xs \<Longrightarrow> IsEmpty q \<longleftrightarrow> xs = []"
  by (cases xs) (auto simp: holds_def IsEmpty_def)

lemma holds_InitQueue: "InitQueue True heap = Some q \<Longrightarrow> holds q []"
  by (auto simp: InitQueue_def holds_def)

lemma holds_EnQueue:
  assumes q: "holds q xs" and fresh: "q_heap q p = None" and len: "length xs < 2147483647"
  shows "\<exists>q'. EnQueue (Some p) fr q = Inr (Some p, q') \<and> holds q' (xs @ [(p, fr)]) \<and>
    (\<forall>a. a \<notin> insert p (fst ` set xs) \<longrightarrow> q_heap q' a = q_heap q a)"
proof (cases xs rule: rev_cases)
  case Nil
  then show ?thesis using q by (auto simp: holds_def EnQueue_def IsEmpty_def)
next
  case (snoc ys y)
  obtain r f where y: "y = (r, f)" by fastforce
  have ch: "chain (q_heap q) (q_front q) (ys @ [(r, f)])" and d: "distinct (map fst (ys @ [(r, f)]))"
    and rear: "q_rear q = Some r" and sz: "q_size q = of_nat (length xs)"
    using q snoc y by (auto simp: holds_def)
  obtain n where n: "q_heap q r = Some n" using chain_dom [OF ch, of r] by auto
  have pn: "p \<notin> fst ` set (ys @ [(r, f)])" using chain_dom [OF ch, of p] fresh by auto
  define h where "h = ((q_heap q)(p \<mapsto> \<lparr>n_frame = fr, n_next = None\<rparr>))(r \<mapsto> n\<lparr>n_next := Some p\<rparr>)"
  have "chain h (q_front q) (ys @ [(r, f), (p, fr)])" using chain_snoc [OF ch d pn n h_def] .
  moreover have "EnQueue (Some p) fr q = Inr (Some p, q\<lparr>q_heap := h, q_rear := Some p, q_size := q_size q + 1\<rparr>)"
    using rear n pn by (auto simp: EnQueue_def IsEmpty_def deref_def h_def)
  moreover have "q_size q + 1 = of_nat (length (xs @ [(p, fr)]))" using sz by simp
  ultimately show ?thesis
    using snoc y d pn len by (auto simp: holds_def h_def)
qed

lemma holds_DeQueue:
  assumes q: "holds q ((p, f) # xs)"
  shows "\<exists>q'. DeQueue q = Inr (q_front q', q') \<and> holds q' xs \<and> q_heap q' = (q_heap q)(p := None)"
proof -
  obtain n where n: "q_front q = Some p" "q_heap q p = Some n" "chain (q_heap q) (n_next n) xs"
    using q by (auto simp: holds_def)
  have d: "p \<notin> fst ` set xs" "distinct (map fst xs)" using q by (auto simp: holds_def)
  have ne: "\<not> IsEmpty q" using holds_empty [OF q] by simp
  have sz: "q_size q - 1 = of_nat (length xs)" and len: "length xs < 2147483648" using q by (auto simp: holds_def)
  let ?h = "(q_heap q)(p := None)"
  have "\<forall>a \<in> fst ` set xs. ?h a = q_heap q a" using d(1) by auto
  then have ch: "chain ?h (n_next n) xs" using n(3) chain_cong by blast
  let ?q = "q\<lparr>q_size := of_nat (length xs), q_front := n_next n, q_heap := ?h\<rparr>"
  let ?q' = "if xs = [] then ?q\<lparr>q_rear := None\<rparr> else ?q"
  have "DeQueue q = Inr (q_front ?q', ?q')"
    using n ne sz size_eq_0 [OF len] by (simp add: DeQueue_def DeQueue_locked_def deref_def Let_def)
  moreover have "holds ?q' xs" using q ch d(2) len by (auto simp: holds_def)
  ultimately show ?thesis by (intro exI [of _ ?q']) simp
qed

lemma holds_GetFront: "holds q ((p, f) # xs) \<Longrightarrow> GetFront q = Inr (Some (f, Some p))"
  using holds_empty [of q "(p, f) # xs"] by (auto simp: GetFront_def holds_def deref_def)

section \<open>The queue as a FIFO\<close>

definition can_put :: "Queue \<Rightarrow> addr \<times> u32 \<Rightarrow> bool" where
  "can_put q x \<longleftrightarrow> q_heap q (fst x) = None \<and> unat (q_size q) < 2147483647"

definition put :: "addr \<times> u32 \<Rightarrow> Queue \<Rightarrow> Queue" where
  "put x q = snd (projr (EnQueue (Some (fst x)) (snd x) q))"

definition get :: "Queue \<Rightarrow> Queue" where
  "get q = snd (projr (DeQueue q))"

definition first :: "Queue \<Rightarrow> addr \<times> u32" where
  "first q = (case GetFront q of Inr (Some (f, Some p)) \<Rightarrow> (p, f) | _ \<Rightarrow> (0, 0))"

lemma holds_size: "holds q xs \<Longrightarrow> unat (q_size q) = length xs"
  by (simp add: holds_def unat_of_nat_32)

interpretation fq: fifo holds can_put put get first IsEmpty
proof unfold_locales
  fix q xs x
  show "holds q xs \<Longrightarrow> can_put q x \<Longrightarrow> holds (put x q) (xs @ [x])"
    using holds_EnQueue [of q xs "fst x" "snd x"] holds_size [of q xs] by (auto simp: can_put_def put_def)
  show "holds q (x # xs) \<Longrightarrow> holds (get q) xs"
    using holds_DeQueue [of q "fst x" "snd x" xs] by (auto simp: get_def)
  show "holds q (x # xs) \<Longrightarrow> first q = x"
    using holds_GetFront [of q "fst x" "snd x" xs] by (simp add: first_def)
  show "holds q xs \<Longrightarrow> IsEmpty q \<longleftrightarrow> xs = []" by (rule holds_empty)
qed

section \<open>Loops\<close>

lemma ClearQueue_ok:
  "holds q xs \<Longrightarrow> length xs \<le> fuel \<Longrightarrow>
   \<exists>q'. ClearQueue fuel q = Some (Inr q') \<and> holds q' [] \<and>
     (\<forall>a. q_heap q' a = (if a \<in> fst ` set xs then None else q_heap q a))"
proof (induction xs arbitrary: fuel q)
  case Nil
  then show ?case by (subst ClearQueue.simps) (auto simp: holds_empty)
next
  case (Cons x xs)
  obtain p f where x: "x = (p, f)" by fastforce
  obtain n where n: "fuel = Suc n" using Cons.prems(2) by (cases fuel) auto
  obtain q1 where q1: "DeQueue q = Inr (q_front q1, q1)" "holds q1 xs" "q_heap q1 = (q_heap q)(p := None)"
    using holds_DeQueue Cons.prems(1) x by blast
  obtain q' where "ClearQueue n q1 = Some (Inr q')" "holds q' []"
      "\<forall>a. q_heap q' a = (if a \<in> fst ` set xs then None else q_heap q1 a)"
    using Cons.IH [OF q1(2), of n] Cons.prems(2) n by auto
  then show ?case
    using q1 n x holds_empty [OF Cons.prems(1)] by (subst ClearQueue.simps) auto
qed



section \<open>Threads\<close>


















section \<open>Properties\<close>

text \<open>From a new queue, whatever sequence of \<open>EnQueue\<close> and \<open>GetFront\<close>/\<open>DeQueue\<close> calls is made, the frames
  read are the first of the frames put in, in their order, each once, and the queue holds the
  others.
\<close>

theorem frame_queue_fifo:
  assumes "InitQueue True heap = Some q" and "admissible can_put put get IsEmpty ops q"
    and "run_qops put get first IsEmpty ops q = (out, q')"
  shows "\<exists>ys. holds q' ys \<and> puts ops = out @ ys"
  using fq.history [OF holds_InitQueue [OF assms(1)] assms(2,3)] by simp

theorem frame_queue_fifo_witness:
  "\<exists>q out q' ys. InitQueue True (\<lambda>_. None) = Some q \<and>
     run_qops put get first IsEmpty [Put (5, 50), Put (6, 60), Get, Put (7, 70), Get] q = (out, q') \<and>
     holds q' ys \<and> [(5, 50), (6, 60), (7, 70)] = out @ ys"
proof -
  define q where "q = \<lparr>q_front = None, q_rear = None, q_size = 0, q_heap = (\<lambda>_. None :: node option)\<rparr>"
  let ?ops = "[Put (5, 50), Put (6, 60), Get, Put (7, 70), Get] :: (addr \<times> u32) qop list"
  have i: "InitQueue True (\<lambda>_. None) = Some q" by (simp add: InitQueue_def q_def)
  obtain out q' where r: "run_qops put get first IsEmpty ?ops q = (out, q')" by fastforce
  have "admissible can_put put get IsEmpty ?ops q"
    by (simp add: q_def can_put_def put_def get_def EnQueue_def DeQueue_def DeQueue_locked_def IsEmpty_def deref_def Let_def)
  from frame_queue_fifo [OF i this r] i r show ?thesis by auto
qed



text \<open>\<open>DeQueue\<close> reads \<open>front\<close> before it takes the lock. When two consumers have read the same front
  node, the second one uses the node the first one has freed; and a consumer that read an empty
  queue before a producer filled it dereferences the null pointer.
\<close>

theorem dequeue_race:
  assumes "holds q ((p, f) # x # xs)"
  shows "\<exists>r q'. DeQueue_locked (q_front q) q = Inr (r, q') \<and> DeQueue_locked (q_front q) q' = Inl Use_after_free \<and>
    DeQueue_locked None q = Inl Null_deref"
proof -
  obtain q' where q': "DeQueue q = Inr (q_front q', q')" "holds q' (x # xs)" "q_heap q' = (q_heap q)(p := None)"
    using holds_DeQueue [OF assms] by blast
  have "q_front q = Some p" using assms by (simp add: holds_def)
  then have "DeQueue_locked (q_front q) q' = Inl Use_after_free"
    using q' holds_empty [OF q'(2)] by (simp add: DeQueue_locked_def deref_def Let_def)
  moreover have "DeQueue_locked None q = Inl Null_deref"
    using holds_empty [OF assms] by (simp add: DeQueue_locked_def deref_def Let_def)
  ultimately show ?thesis using q'(1) by (auto simp: DeQueue_def)
qed

theorem dequeue_race_witness:
  "\<exists>q r q'. holds q [(5, 50), (6, 60)] \<and> DeQueue_locked (q_front q) q = Inr (r, q') \<and>
     DeQueue_locked (q_front q) q' = Inl Use_after_free"
proof -
  define q where "q = put (6, 60) (put (5, 50) \<lparr>q_front = None, q_rear = None, q_size = 0, q_heap = (\<lambda>_. None)\<rparr>)"
  have "holds q [(5, 50), (6, 60)]"
    by (simp add: q_def put_def EnQueue_def IsEmpty_def deref_def Let_def holds_def)
  from this dequeue_race [OF this] show ?thesis by blast
qed

text \<open>\<open>DestroyQueue\<close> returns after at most as many turns of the loop of \<open>ClearQueue\<close> as the queue has
  nodes; it frees exactly the nodes of the queue, each once, and never runs into a fault.
\<close>

theorem destroy_queue_frees:
  assumes "holds q xs"
  shows "\<exists>heap. DestroyQueue (length xs) (Some q) = Some (Inr (Some heap)) \<and>
    (\<forall>a. heap a = (if a \<in> fst ` set xs then None else q_heap q a))"
  using ClearQueue_ok [OF assms order_refl] by (auto simp: DestroyQueue_def)

theorem destroy_queue_frees_witness:
  "\<exists>q heap. holds q [(5, 50)] \<and> DestroyQueue 1 (Some q) = Some (Inr (Some heap)) \<and> heap 5 = None"
proof -
  define q where "q = put (5, 50) \<lparr>q_front = None, q_rear = None, q_size = 0, q_heap = (\<lambda>_. None)\<rparr>"
  have h: "holds q [(5, 50)]" by (simp add: q_def put_def EnQueue_def IsEmpty_def Let_def holds_def)
  from h destroy_queue_frees [OF h] show ?thesis by auto
qed

end
