(* ===== verification/Net_Packet.thy ===== *)
theory Net_Packet
  imports IotCam_Prelude
begin

text \<open>
  The packet builder of the DHCP client (\<open>net.c\<close>): the internet checksum, the UDP and IPv4
  headers and the whole packet. Memory is the byte array the caller passes; a store outside of it
  is a fault. The target is little endian, so that a 16-bit field is stored low byte first and
  \<open>htons\<close> swaps its bytes. The two \<open>struct\<close>s have no padding: 20 and 8 bytes.
\<close>

unbundle bit_operations_syntax

section \<open>Memory and byte order\<close>

definition store8 :: "nat \<Rightarrow> u8 \<Rightarrow> u8 list \<Rightarrow> u8 list result" where
  "store8 i b m = (if i < length m then Inr (m[i := b]) else Inl Write_out_of_bounds)"

definition store16 :: "nat \<Rightarrow> u16 \<Rightarrow> u8 list \<Rightarrow> u8 list result" where
  "store16 i w m = bind_result (store8 i (ucast w) m) (store8 (i + 1) (ucast (drop_bit 8 w)))"

definition store32 :: "nat \<Rightarrow> u32 \<Rightarrow> u8 list \<Rightarrow> u8 list result" where
  "store32 i l m = bind_result (store16 i (ucast l) m) (store16 (i + 2) (ucast (drop_bit 16 l)))"

definition htons :: "u16 \<Rightarrow> u16" where
  "htons w = push_bit 8 w OR drop_bit 8 w"

definition htonl :: "u32 \<Rightarrow> u32" where
  "htonl l = push_bit 24 l OR (push_bit 8 l AND 0xff0000) OR (drop_bit 8 l AND 0xff00) OR drop_bit 24 l"

text \<open>The 16-bit words of a byte array, as a cast to \<open>unsigned short *\<close> reads them.\<close>

fun words16 :: "u8 list \<Rightarrow> u16 list" where
  "words16 (b0 # b1 # bs) = (ucast b0 OR push_bit 8 (ucast b1)) # words16 bs"
| "words16 _ = []"

section \<open>The checksum\<close>

fun csum_loop :: "u32 \<Rightarrow> u16 list \<Rightarrow> nat \<Rightarrow> u32 result" where
  "csum_loop acc buf 0 = Inr acc"
| "csum_loop acc [] (Suc n) = Inl Read_out_of_bounds"
| "csum_loop acc (w # buf) (Suc n) = csum_loop (acc + ucast w) buf n"

definition csum_ip :: "u16 list \<Rightarrow> s32 \<Rightarrow> u16 result" where
  "csum_ip buf nwords =
     bind_result (csum_loop 0 buf (nat (sint nwords))) (\<lambda>acc.
       let acc = drop_bit 16 acc + (acc AND 0xffff);
           acc = acc + drop_bit 16 acc
       in Inr (ucast (NOT acc)))"

section \<open>Headers\<close>

definition build_upd_hdr :: "nat \<Rightarrow> u16 \<Rightarrow> u16 \<Rightarrow> u16 \<Rightarrow> u8 list \<Rightarrow> (s32 \<times> u8 list) result" where
  "build_upd_hdr ptr data_len src_port dst_port m =
     bind_result (store16 ptr (htons src_port) m) (\<lambda>m.
     bind_result (store16 (ptr + 2) (htons dst_port) m) (\<lambda>m.
     bind_result (store16 (ptr + 4) (htons (8 + data_len)) m) (\<lambda>m.
       Inr (8, m))))"

text \<open>\<open>inet_addr\<close> of the C library is a parameter: the address of a dotted string in network order.\<close>

definition build_ip4_hdr :: "('s \<Rightarrow> u32) \<Rightarrow> nat \<Rightarrow> u16 \<Rightarrow> 's \<Rightarrow> 's \<Rightarrow> u8 \<Rightarrow> u8 list \<Rightarrow> (s32 \<times> u8 list) result" where
  "build_ip4_hdr inet_addr ptr data_len src_addr dst_addr proto m =
     bind_result (store8 ptr 0x45 m) (\<lambda>m.
     bind_result (store8 (ptr + 1) 0 m) (\<lambda>m.
     bind_result (store16 (ptr + 6) 0 m) (\<lambda>m.
     bind_result (store16 (ptr + 2) (htons (20 + data_len)) m) (\<lambda>m.
     bind_result (store16 (ptr + 4) (htons 54321) m) (\<lambda>m.
     bind_result (store8 (ptr + 8) 64 m) (\<lambda>m.
     bind_result (store8 (ptr + 9) proto m) (\<lambda>m.
     bind_result (store32 (ptr + 12) (inet_addr src_addr) m) (\<lambda>m.
     bind_result (store32 (ptr + 16) (inet_addr dst_addr) m) (\<lambda>m.
     bind_result (csum_ip (words16 (drop ptr m)) 10) (\<lambda>c.
     bind_result (store16 (ptr + 10) c m) (\<lambda>m.
       Inr (20, m))))))))))))"

text \<open>\<open>for (i = 0; i < data_len; i++) buffer[offset + i] = data[i];\<close>\<close>

fun copy_loop :: "nat \<Rightarrow> nat \<Rightarrow> u8 list \<Rightarrow> u8 list \<Rightarrow> u8 list result" where
  "copy_loop off 0 data m = Inr m"
| "copy_loop off (Suc n) [] m = Inl Read_out_of_bounds"
| "copy_loop off (Suc n) (b # data) m = bind_result (store8 off b m) (copy_loop (Suc off) n data)"

definition build_ip4_udp_pkt ::
  "('s \<Rightarrow> u32) \<Rightarrow> nat \<Rightarrow> u8 list \<Rightarrow> u16 \<Rightarrow> 's \<Rightarrow> 's \<Rightarrow> u16 \<Rightarrow> u16 \<Rightarrow> u8 \<Rightarrow> (s32 \<times> u8 list) result" where
  "build_ip4_udp_pkt inet_addr buff_len data data_len src_addr dst_addr src_port dst_port proto =
     (let m = replicate buff_len 0 in
      bind_result (build_upd_hdr 20 data_len src_port dst_port m) (\<lambda>(udp_len, m).
      bind_result (build_ip4_hdr inet_addr 0 (data_len + ucast udp_len) src_addr dst_addr proto m) (\<lambda>(ip_len, m).
      bind_result (copy_loop 28 (unat data_len) data m) (\<lambda>m.
        Inr (ucast data_len + udp_len + ip_len, m)))))"

section \<open>Lemmas: memory\<close>

lemma masks_32: "(0xff00 :: u32) = push_bit 8 (mask 8)" "(0xff0000 :: u32) = push_bit 16 (mask 8)"
  by (simp_all add: mask_eq_exp_minus_1)

text \<open>The bytes that \<open>htonl\<close> exchanges.\<close>

lemma bit_htonl:
  "n < 8 \<Longrightarrow> bit (htonl x) n = bit x (24 + n)" "8 \<le> n \<Longrightarrow> n < 16 \<Longrightarrow> bit (htonl x) n = bit x (8 + n)"
  "16 \<le> n \<Longrightarrow> n < 24 \<Longrightarrow> bit (htonl x) n = bit x (n - 8)" "24 \<le> n \<Longrightarrow> n < 32 \<Longrightarrow> bit (htonl x) n = bit x (n - 24)"
  unfolding htonl_def masks_32 by (auto simp: bit_simps dest: bit_imp_le_length)

lemma word_32_bytes:
  assumes "\<And>n. n < 8 \<Longrightarrow> bit x n = bit y n" "\<And>n. 8 \<le> n \<Longrightarrow> n < 16 \<Longrightarrow> bit x n = bit y n"
    "\<And>n. 16 \<le> n \<Longrightarrow> n < 24 \<Longrightarrow> bit x n = bit y n" "\<And>n. 24 \<le> n \<Longrightarrow> n < 32 \<Longrightarrow> bit x n = bit y n"
  shows "x = (y :: u32)"
proof (rule bit_word_eqI, goal_cases)
  case (1 n)
  then consider "n < 8" | "8 \<le> n" "n < 16" | "16 \<le> n" "n < 24" | "24 \<le> n" "n < 32" by fastforce
  then show ?case using assms by cases simp_all
qed

lemma htonl_htonl: "htonl (htonl x) = x"
  by (rule word_32_bytes) (simp_all add: bit_htonl)

lemma store8_ok: "i < length m \<Longrightarrow> store8 i b m = Inr (m[i := b])"
  by (simp add: store8_def)

lemma store16_ok: "i + 1 < length m \<Longrightarrow> store16 i w m = Inr (m[i := ucast w, i + 1 := ucast (drop_bit 8 w)])"
  by (simp add: store16_def store8_ok)

lemma store32_ok:
  "i + 3 < length m \<Longrightarrow> store32 i l m =
     Inr (m[i := ucast (ucast l :: u16), i + 1 := ucast (drop_bit 8 (ucast l :: u16)),
            i + 2 := ucast (ucast (drop_bit 16 l) :: u16), i + 3 := ucast (drop_bit 8 (ucast (drop_bit 16 l) :: u16))])"
  by (simp add: store32_def store16_ok numeral_Bit1)

lemma copy_loop_ok:
  "n \<le> length data \<Longrightarrow> off + n \<le> length m \<Longrightarrow>
   copy_loop off n data m = Inr (take off m @ take n data @ drop (off + n) m)"
proof (induction off n data m rule: copy_loop.induct)
  case (3 off n b data m)
  then show ?case by (simp add: store8_ok take_Suc_conv_app_nth upd_conv_take_nth_drop nth_append add.commute)
qed simp_all

lemma copy_loop_fault:
  "n \<le> length data \<Longrightarrow> off \<le> length m \<Longrightarrow> length m < off + n \<Longrightarrow> copy_loop off n data m = Inl Write_out_of_bounds"
proof (induction off n data m rule: copy_loop.induct)
  case (3 off n b data m)
  show ?case
  proof (cases "off < length m")
    case True
    then show ?thesis using 3 by (simp add: store8_ok)
  next
    case False
    then show ?thesis by (simp add: store8_def)
  qed
qed simp_all

section \<open>Lemmas: the checksum\<close>

text \<open>The ones' complement sum as arithmetic.\<close>

definition wsum :: "u16 list \<Rightarrow> nat" where
  "wsum ws = sum_list (map unat ws)"

definition fold_sum :: "nat \<Rightarrow> nat" where
  "fold_sum s = (let f = s div 65536 + s mod 65536 in (f + f div 65536) mod 65536)"

lemma wsum_append [simp]: "wsum (xs @ ys) = wsum xs + wsum ys"
  by (simp add: wsum_def)

lemma wsum_Cons [simp]: "wsum (x # xs) = unat x + wsum xs" "wsum [] = 0"
  by (simp_all add: wsum_def)

lemma unat_16_bound: "unat (w :: u16) < 65536"
  using unsigned_less [of w] by simp

lemma wsum_le: "wsum ws \<le> 65535 * length ws"
proof (induction ws)
  case (Cons w ws)
  then show ?case using unat_16_bound [of w] by simp
qed simp

lemma unat_ucast_16_32: "unat (ucast (w :: u16) :: u32) = unat w"
  using unat_16_bound [of w] by (simp add: unsigned_ucast_eq take_bit_nat_eq_self)

lemma csum_loop_sum:
  "unat s + wsum ws < 4294967296 \<Longrightarrow> n = length ws \<Longrightarrow>
   \<exists>t. csum_loop s (ws @ rest) n = Inr t \<and> unat t = unat s + wsum ws"
proof (induction ws arbitrary: s n)
  case (Cons w ws)
  have u: "unat (s + ucast w) = unat s + unat w"
    using Cons.prems(1) by (simp add: unat_word_ariths unat_ucast_16_32)
  then show ?case using Cons.IH [of "s + ucast w" "length ws"] Cons.prems by auto
qed simp

lemma csum_ip_sum:
  assumes "nwords = of_nat (length ws)" and "length ws \<le> 65536"
  shows "\<exists>c. csum_ip (ws @ rest) nwords = Inr c \<and> unat c = 65535 - fold_sum (wsum ws)"
proof -
  have n: "nat (sint nwords) = length ws"
    using assms by (simp add: sint_32 unat_of_nat_32 del: of_nat_unat)
  have "wsum ws < 4294967296" using wsum_le [of ws] assms(2) by simp
  then obtain t where t: "csum_loop 0 (ws @ rest) (length ws) = Inr t" "unat t = wsum ws"
    using csum_loop_sum [of 0 ws "length ws" rest] by auto
  define f where "f = drop_bit 16 t + (t AND 0xffff)"
  define g where "g = f + drop_bit 16 f"
  have m16: "(0xffff :: u32) = mask 16" by (simp add: mask_eq_exp_minus_1)
  have tb: "wsum ws div 65536 < 65536" using unat_32_bound [of t] t(2) by simp
  have f: "unat f = wsum ws div 65536 + wsum ws mod 65536"
  proof -
    have "unat (drop_bit 16 t) = wsum ws div 65536"
      by (subst unat_drop_bit_eq) (simp add: t(2) drop_bit_eq_div)
    moreover have "unat (t AND 0xffff) = wsum ws mod 65536"
      unfolding m16 take_bit_eq_mask [symmetric]
      by (subst unsigned_take_bit_eq) (simp_all add: t(2) take_bit_eq_mod)
    moreover have "wsum ws div 65536 + wsum ws mod 65536 < 4294967296" using tb by (intro order.strict_trans2 [OF add_strict_mono [OF tb mod_less_divisor]]) simp_all
    ultimately show ?thesis unfolding f_def by (simp add: unat_word_ariths)
  qed
  have g: "unat g mod 65536 = fold_sum (wsum ws)"
    unfolding g_def unat_word_ariths fold_sum_def Let_def f [symmetric]
    by (subst unat_drop_bit_eq) (simp add: drop_bit_eq_div mod_mod_cancel)
  have run: "csum_ip (ws @ rest) nwords = Inr (ucast (NOT g))"
    using t(1) by (simp add: csum_ip_def n f_def g_def Let_def)
  have "unat (ucast (NOT g) :: u16) = 65535 - unat g mod 65536"
  proof -
    have "(ucast (NOT g) :: u16) = NOT (ucast g)" by (rule bit_word_eqI) (simp add: bit_simps)
    moreover have "unat (NOT w) = 65535 - unat w" for w :: u16
    proof -
      have "NOT w = -1 - w" by (simp add: not_eq_complement)
      moreover have "unat (-1 - w) = unat (-1 :: u16) - unat w" by (rule unat_sub) simp
      moreover have "unat (-1 :: u16) = 65535" by (simp add: unsigned_minus_1_eq_mask mask_eq_exp_minus_1)
      ultimately show ?thesis by simp
    qed
    moreover have "unat (ucast g :: u16) = unat g mod 65536"
      by (simp add: unsigned_ucast_eq take_bit_eq_mod)
    ultimately show ?thesis by simp
  qed
  with run g show ?thesis by auto
qed

text \<open>Folding keeps the sum modulo 65535 and does not lose a non-zero sum.\<close>

lemma fold_sum_cases:
  assumes "s < 4294967296"
  shows "fold_sum s \<le> 65535" and "fold_sum s mod 65535 = s mod 65535" and "0 < s \<Longrightarrow> 0 < fold_sum s"
proof -
  define a b where "a = s div 65536" and "b = s mod 65536"
  define c d where "c = (a + b) div 65536" and "d = (a + b) mod 65536"
  have ab: "a < 65536" "b < 65536" "s = 65536 * a + b" using assms by (auto simp: a_def b_def)
  have cd: "a + b = 65536 * c + d" "d < 65536" by (auto simp: c_def d_def)
  have "c \<le> 1" using ab cd by linarith
  moreover have "c = 1 \<Longrightarrow> d \<le> 65534" using ab cd by linarith
  ultimately have small: "d + c < 65536" using cd by (cases "c = 1") auto
  have fs: "fold_sum s = d + c"
  proof -
    have "fold_sum s = (65536 * c + d + c) mod 65536"
      by (simp only: fold_sum_def Let_def a_def [symmetric] b_def [symmetric] cd(1)) (simp add: c_def [symmetric] cd(2))
    also have "65536 * c + d + c = (d + c) + 65536 * c" by simp
    also have "(d + c + 65536 * c) mod 65536 = (d + c) mod 65536" by (rule mod_mult_self2)
    finally show ?thesis using small by simp
  qed
  show "fold_sum s \<le> 65535" using fs small by simp
  have "(65536 * a + b) mod 65535 = (a + b) mod 65535"
    using mod_mult_self3 [of a 65535 "a + b"] by (simp add: algebra_simps)
  moreover have "(65536 * c + d) mod 65535 = (d + c) mod 65535"
    using mod_mult_self3 [of c 65535 "d + c"] by (simp add: algebra_simps)
  ultimately show "fold_sum s mod 65535 = s mod 65535" using fs ab(3) cd(1) by simp
  show "0 < s \<Longrightarrow> 0 < fold_sum s" using fs ab cd by (cases "c + d = 0") auto
qed

lemma fold_sum_full: "s < 4294967296 \<Longrightarrow> 0 < s \<Longrightarrow> s mod 65535 = 0 \<Longrightarrow> fold_sum s = 65535"
  using fold_sum_cases [of s] by (metis dual_order.strict_iff_order le_less_trans less_nat_zero_code mod_less nat_less_le)

text \<open>A checksum computed over a header with a zero checksum field makes the header verify.\<close>

lemma csum_verifies:
  assumes c: "csum_ip (ws @ rest) (of_nat (length ws)) = Inr c" and len: "length ws \<le> 65535"
    and k: "k < length ws" "ws ! k = 0"
  shows "csum_ip (ws[k := c] @ rest) (of_nat (length ws)) = Inr 0"
proof -
  have cn: "unat c = 65535 - fold_sum (wsum ws)"
    using csum_ip_sum [OF refl, of ws rest] len c by auto
  have ws: "ws = take k ws @ 0 # drop (Suc k) ws" using k by (metis id_take_nth_drop)
  have "wsum (ws[k := c]) = wsum (take k ws) + unat c + wsum (drop (Suc k) ws)"
    using k by (simp add: upd_conv_take_nth_drop)
  moreover have "wsum ws = wsum (take k ws) + wsum (drop (Suc k) ws)"
    using arg_cong [OF ws, of wsum] by simp
  ultimately have s: "wsum (ws[k := c]) = wsum ws + (65535 - fold_sum (wsum ws))" using cn by simp
  have lt: "wsum ws \<le> 65535 * 65535" using wsum_le [of ws] len by (meson le_trans mult_le_mono2)
  then have b: "wsum ws < 4294967296" "wsum ws + 65535 < 4294967296" by simp_all
  note f = fold_sum_cases [OF b(1)]
  have "(wsum ws + (65535 - fold_sum (wsum ws))) mod 65535 = 0"
  proof -
    have "(wsum ws + (65535 - fold_sum (wsum ws))) mod 65535 =
        (fold_sum (wsum ws) + (65535 - fold_sum (wsum ws))) mod 65535"
      using f(2) by (metis mod_add_left_eq)
    then show ?thesis using f(1) by simp
  qed
  moreover have "0 < wsum ws + (65535 - fold_sum (wsum ws))"
    using f by (cases "wsum ws = 0") (auto simp: fold_sum_def)
  ultimately have "fold_sum (wsum (ws[k := c])) = 65535"
    unfolding s using b f(1) by (intro fold_sum_full) auto
  moreover obtain c' where "csum_ip (ws[k := c] @ rest) (of_nat (length ws)) = Inr c'"
      "unat c' = 65535 - fold_sum (wsum (ws[k := c]))"
    using csum_ip_sum [of "of_nat (length ws)" "ws[k := c]" rest] len by auto
  ultimately show ?thesis by (simp add: unat_eq_0)
qed

section \<open>Lemmas: the packet\<close>

definition be16 :: "u16 \<Rightarrow> u8 list" where
  "be16 w = [ucast (drop_bit 8 w), ucast w]"

definition le32 :: "u32 \<Rightarrow> u8 list" where
  "le32 l = [ucast l, ucast (drop_bit 8 l), ucast (drop_bit 16 l), ucast (drop_bit 24 l)]"

lemma htons_bytes [simp]:
  "ucast (htons w) = (ucast (drop_bit 8 w) :: u8)"
  "ucast (drop_bit 8 (htons w)) = (ucast w :: u8)"
  unfolding htons_def by (rule bit_word_eqI; auto simp: bit_simps dest: bit_imp_le_length)+

lemma ucast_halves [simp]:
  fixes l :: u32
  shows "ucast (ucast l :: u16) = (ucast l :: u8)"
    and "ucast (drop_bit 8 (ucast l :: u16)) = (ucast (drop_bit 8 l) :: u8)"
    and "ucast (ucast (drop_bit 16 l) :: u16) = (ucast (drop_bit 16 l) :: u8)"
    and "ucast (drop_bit 8 (ucast (drop_bit 16 l) :: u16)) = (ucast (drop_bit 24 l) :: u8)"
  by (rule bit_word_eqI; auto simp: bit_simps)+

text \<open>The header as bytes, with a given checksum word.\<close>

definition ip_bytes :: "u16 \<Rightarrow> u32 \<Rightarrow> u32 \<Rightarrow> u8 \<Rightarrow> u16 \<Rightarrow> u8 list" where
  "ip_bytes tot src dst proto chk =
     [0x45, 0] @ be16 tot @ be16 54321 @ [0, 0, 64, proto, ucast chk, ucast (drop_bit 8 chk)] @ le32 src @ le32 dst"

definition udp_bytes :: "u16 \<Rightarrow> u16 \<Rightarrow> u16 \<Rightarrow> u8 list" where
  "udp_bytes sp dp len = be16 sp @ be16 dp @ be16 len @ [0, 0]"

lemma words16_append: "even (length xs) \<Longrightarrow> words16 (xs @ ys) = words16 xs @ words16 ys"
  by (induction xs rule: words16.induct) auto

lemma update_numeral: "(x # xs)[numeral k := v] = x # xs[pred_numeral k := v]"
  by (simp add: numeral_eq_Suc)

lemma replicate_num: "replicate (numeral k) x = x # replicate (pred_numeral k) x"
  by (simp add: numeral_eq_Suc)

lemmas header_simps = store8_ok store16_ok store32_ok list_update_append update_numeral replicate_num
  ip_bytes_def udp_bytes_def be16_def le32_def

lemma build_upd_hdr_ok:
  "build_upd_hdr (length p) n sp dp (p @ replicate 8 0 @ m) = Inr (8, p @ udp_bytes sp dp (8 + n) @ m)"
  by (simp add: build_upd_hdr_def header_simps)

lemma build_ip4_hdr_ok:
  "\<exists>c. csum_ip (words16 (ip_bytes (20 + n) (inet s) (inet d) proto 0 @ m)) 10 = Inr c \<and>
     build_ip4_hdr inet 0 n s d proto (replicate 20 0 @ m) =
       Inr (20, ip_bytes (20 + n) (inet s) (inet d) proto c @ m)"
proof -
  let ?h = "ip_bytes (20 + n) (inet s) (inet d) proto"
  have len: "length (?h c) = 20" for c by (simp add: ip_bytes_def be16_def le32_def)
  have lw: "length (words16 (?h c)) = 10" for c by (simp add: ip_bytes_def be16_def le32_def)
  obtain c where c: "csum_ip (words16 (?h 0) @ words16 m) 10 = Inr c"
    using csum_ip_sum [of 10 "words16 (?h 0)" "words16 m"] lw by auto
  have w: "words16 (?h 0 @ m) = words16 (?h 0) @ words16 m" using len by (simp add: words16_append)
  have "build_ip4_hdr inet 0 n s d proto (replicate 20 0 @ m) =
      bind_result (csum_ip (words16 (?h 0 @ m)) 10) (\<lambda>c. bind_result (store16 10 c (?h 0 @ m)) (\<lambda>m. Inr (20, m)))"
    by (simp add: build_ip4_hdr_def header_simps)
  also have "\<dots> = Inr (20, ?h c @ m)"
    unfolding w c by (simp add: header_simps)
  finally show ?thesis using c w by auto
qed

lemma ip_bytes_words:
  "words16 (ip_bytes tot src dst proto c) = (words16 (ip_bytes tot src dst proto 0))[5 := c]"
  "words16 (ip_bytes tot src dst proto 0) ! 5 = 0" "length (words16 (ip_bytes tot src dst proto c)) = 10"
  by (simp_all add: header_simps nth_Cons_numeral) (rule bit_word_eqI, auto simp: bit_simps)

lemma build_pkt_ok:
  assumes "28 + unat n \<le> buff_len" and "unat n \<le> length data"
  shows "\<exists>c. build_ip4_udp_pkt inet buff_len data n s d sp dp proto =
      Inr (ucast n + 28, ip_bytes (28 + n) (inet s) (inet d) proto c @ udp_bytes sp dp (8 + n) @
             take (unat n) data @ replicate (buff_len - 28 - unat n) 0) \<and>
    csum_ip (words16 (ip_bytes (28 + n) (inet s) (inet d) proto c)) 10 = Inr 0"
proof -
  let ?h = "ip_bytes (28 + n) (inet s) (inet d) proto" and ?u = "udp_bytes sp dp (8 + n)"
  let ?z = "replicate (buff_len - 28) 0 :: u8 list"
  have lu: "length ?u = 8" by (simp add: udp_bytes_def be16_def)
  have lh: "length (?h c) = 20" for c by (simp add: ip_bytes_def be16_def le32_def)
  have "replicate buff_len 0 = replicate 20 0 @ replicate 8 0 @ ?z"
    using assms(1) by (simp add: replicate_add [symmetric])
  then have u: "build_upd_hdr 20 n sp dp (replicate buff_len 0) = Inr (8, replicate 20 0 @ ?u @ ?z)"
    using build_upd_hdr_ok [of "replicate 20 0" n sp dp ?z] by simp
  obtain c where c: "csum_ip (words16 (?h 0 @ ?u @ ?z)) 10 = Inr c"
    and ip: "build_ip4_hdr inet 0 (n + 8) s d proto (replicate 20 0 @ ?u @ ?z) = Inr (20, ?h c @ ?u @ ?z)"
    using build_ip4_hdr_ok [of "n + 8" inet s d proto "?u @ ?z"] by (auto simp: add.commute)
  have "copy_loop 28 (unat n) data (?h c @ ?u @ ?z) =
      Inr (take 28 (?h c @ ?u @ ?z) @ take (unat n) data @ drop (28 + unat n) (?h c @ ?u @ ?z))"
    using assms lh lu by (intro copy_loop_ok) simp_all
  also have "\<dots> = Inr (?h c @ ?u @ take (unat n) data @ replicate (buff_len - 28 - unat n) 0)"
    using lh lu by simp
  finally have cp: "copy_loop 28 (unat n) data (?h c @ ?u @ ?z) = \<dots>" .
  have "build_ip4_udp_pkt inet buff_len data n s d sp dp proto =
      Inr (ucast n + 28, ?h c @ ?u @ take (unat n) data @ replicate (buff_len - 28 - unat n) 0)"
    using u ip cp by (simp add: build_ip4_udp_pkt_def)
  moreover have "csum_ip (words16 (?h c)) 10 = Inr 0"
  proof -
    let ?w = "words16 (?h 0)"
    have "csum_ip (?w @ words16 (?u @ ?z)) (of_nat (length ?w)) = Inr c"
      using c lh by (simp add: words16_append ip_bytes_words(3))
    moreover obtain c0 where c0: "csum_ip (?w @ []) (of_nat (length ?w)) = Inr c0" "unat c0 = 65535 - fold_sum (wsum ?w)"
      using csum_ip_sum [OF refl, of ?w "[]"] ip_bytes_words(3) by auto
    moreover obtain c1 where "csum_ip (?w @ words16 (?u @ ?z)) (of_nat (length ?w)) = Inr c1" "unat c1 = 65535 - fold_sum (wsum ?w)"
      using csum_ip_sum [OF refl, of ?w "words16 (?u @ ?z)"] ip_bytes_words(3) by auto
    ultimately have "c0 = c" by (simp add: word_unat_eq_iff)
    then have "csum_ip (?w[5 := c] @ []) (of_nat (length ?w)) = Inr 0"
      using c0(1) ip_bytes_words(2,3) by (intro csum_verifies) simp_all
    then show ?thesis using ip_bytes_words(1) [of "28 + n" "inet s" "inet d" proto c]
      by (simp add: ip_bytes_words(3))
  qed
  ultimately show ?thesis by blast
qed

section \<open>The check of a receiver\<close>

text \<open>
  What RFC 1071 asks of a receiver, independently of \<open>csum_ip\<close>: the bytes of the header, taken in
  pairs as numbers with the high byte first, are added with end-around carry; the header is
  accepted exactly when the sum is \<open>0xFFFF\<close>.
\<close>

fun network_words :: "u8 list \<Rightarrow> nat list" where
  "network_words (hi # lo # bs) = (256 * unat hi + unat lo) # network_words bs"
| "network_words _ = []"

definition ones_add :: "nat \<Rightarrow> nat \<Rightarrow> nat" where
  "ones_add a b = (if a + b < 65536 then a + b else a + b - 65535)"

definition header_accepted :: "u8 list \<Rightarrow> bool" where
  "header_accepted header \<longleftrightarrow> foldl ones_add 0 (network_words header) = 65535"

lemma ones_add_mod: "ones_add a b mod 65535 = (a + b) mod 65535"
  by (simp add: ones_add_def le_mod_geq [symmetric])

lemma ones_sum:
  "a \<le> 65535 \<Longrightarrow> \<forall>w \<in> set ws. w \<le> 65535 \<Longrightarrow>
   foldl ones_add a ws \<le> 65535 \<and> foldl ones_add a ws mod 65535 = (a + sum_list ws) mod 65535 \<and>
   (0 < a + sum_list ws \<longrightarrow> 0 < foldl ones_add a ws)"
proof (induction ws arbitrary: a)
  case (Cons w ws)
  have 1: "ones_add a w \<le> 65535" using Cons.prems by (auto simp: ones_add_def)
  have 2: "0 < a + w \<longleftrightarrow> 0 < ones_add a w" by (auto simp: ones_add_def)
  have 3: "(ones_add a w + sum_list ws) mod 65535 = (a + (w + sum_list ws)) mod 65535"
    using ones_add_mod [of a w] by (metis (no_types) add.assoc mod_add_left_eq)
  have 4: "0 < a + (w + sum_list ws) \<longleftrightarrow> 0 < ones_add a w + sum_list ws" using 2 by linarith
  show ?case using Cons.IH [OF 1] Cons.prems 3 4 by simp
qed simp

lemma unat_8_bound: "unat (b :: u8) < 256"
  using unsigned_less [of b] by simp

lemma network_words_le: "w \<in> set (network_words bs) \<Longrightarrow> w \<le> 65535"
proof (induction bs rule: network_words.induct)
  case (1 hi lo bs)
  have "unat hi \<le> 255" "unat lo \<le> 255" using unat_8_bound by (auto simp: less_Suc_eq_le [symmetric])
  then show ?case using 1 by auto
qed auto

text \<open>The sum of the words as a little-endian machine reads them is, modulo 65535, the sum of the
  words in network order times 256: the sum does not depend on the byte order.\<close>

lemma unat_word16: "unat (ucast b0 OR push_bit 8 (ucast b1) :: u16) = unat (b0 :: u8) + 256 * unat (b1 :: u8)"
proof -
  have "(ucast b0 OR push_bit 8 (ucast b1) :: u16) = ucast b0 + push_bit 8 (ucast b1)"
    by (rule disjunctive_add [symmetric]) (auto simp: bit_simps dest: bit_imp_le_length)
  also have "\<dots> = of_nat (unat b0 + 256 * unat b1)" by (simp add: push_bit_eq_mult unsigned_ucast_eq)
  finally have e: "(ucast b0 OR push_bit 8 (ucast b1) :: u16) = of_nat (unat b0 + 256 * unat b1)" .
  have "unat b0 + 256 * unat b1 < 65536" using unat_8_bound [of b0] unat_8_bound [of b1] by simp
  then show ?thesis unfolding e unsigned_of_nat of_nat_id by (intro take_bit_nat_eq_self) simp
qed

lemma network_sum: "(256 * sum_list (network_words bs)) mod 65535 = wsum (words16 bs) mod 65535"
proof (induction bs rule: network_words.induct)
  case (1 hi lo bs)
  have "(256 * (256 * unat hi + unat lo)) mod 65535 = (unat hi + 256 * unat lo) mod 65535"
    using mod_mult_self3 [of "unat hi" 65535 "unat hi + 256 * unat lo"] by (simp add: algebra_simps)
  then have "(256 * (256 * unat hi + unat lo) + 256 * sum_list (network_words bs)) mod 65535 =
      (unat hi + 256 * unat lo + wsum (words16 bs)) mod 65535"
    using 1 by (metis (no_types) mod_add_cong)
  then show ?case by (simp add: unat_word16 distrib_left del: unat_ucast_16_32)
qed (simp_all)

lemma csum_zero_accepted:
  assumes "csum_ip (words16 h) (of_nat (length (words16 h))) = Inr 0" and "length (words16 h) \<le> 65535"
    and "0 < sum_list (network_words h)"
  shows "header_accepted h"
proof -
  let ?s = "sum_list (network_words h)"
  have "wsum (words16 h) \<le> 65535 * 65535" using wsum_le [of "words16 h"] assms(2) by (meson le_trans mult_le_mono2)
  then have b: "wsum (words16 h) < 4294967296" by simp
  have "fold_sum (wsum (words16 h)) = 65535"
    using csum_ip_sum [OF refl, of "words16 h" "[]"] assms(1,2) fold_sum_cases(1) [OF b] by auto
  then have "(256 * ?s) mod 65535 = 0" using fold_sum_cases(2) [OF b] network_sum [of h] by simp
  then have "65535 dvd 256 * ?s" by (simp only: dvd_eq_mod_eq_0)
  moreover have "coprime 65535 (256 :: nat)" unfolding coprime_iff_gcd_eq_1 by (simp add: gcd_non_0_nat)
  ultimately have "65535 dvd ?s" by (simp only: coprime_dvd_mult_right_iff)
  then have "?s mod 65535 = 0" by (simp only: dvd_eq_mod_eq_0)
  moreover have "foldl ones_add 0 (network_words h) \<le> 65535"
      "foldl ones_add 0 (network_words h) mod 65535 = ?s mod 65535" "0 < foldl ones_add 0 (network_words h)"
    using ones_sum [of 0 "network_words h"] network_words_le assms(3) by auto
  ultimately show ?thesis unfolding header_accepted_def
    by (metis le_neq_implies_less mod_less not_less_zero)
qed

section \<open>Properties\<close>

text \<open>
  C35. The packet \<open>build_ip4_udp_pkt\<close> assembles in a large enough buffer is, byte for byte, an IPv4
  header and a UDP header with all multi-byte fields in network order (the length fields modulo
  65536), followed by the data and zeros; and the IPv4 header is accepted by every receiver that
  checks it as RFC 1071 asks: its words in network order, the checksum included, add up to
  \<open>0xFFFF\<close> with end-around carry.
\<close>

theorem udp_packet_layout:
  assumes "28 + unat n \<le> buff_len" and "unat n \<le> length data"
  shows "\<exists>c. build_ip4_udp_pkt inet buff_len data n s d sp dp proto =
      Inr (ucast n + 28, ip_bytes (28 + n) (inet s) (inet d) proto c @ udp_bytes sp dp (8 + n) @
             take (unat n) data @ replicate (buff_len - 28 - unat n) 0) \<and>
    header_accepted (ip_bytes (28 + n) (inet s) (inet d) proto c)"
proof -
  obtain c where c: "build_ip4_udp_pkt inet buff_len data n s d sp dp proto =
      Inr (ucast n + 28, ip_bytes (28 + n) (inet s) (inet d) proto c @ udp_bytes sp dp (8 + n) @
             take (unat n) data @ replicate (buff_len - 28 - unat n) 0)"
    "csum_ip (words16 (ip_bytes (28 + n) (inet s) (inet d) proto c)) 10 = Inr 0"
    using build_pkt_ok [OF assms, of inet s d sp dp proto] by blast
  have "0 < sum_list (network_words (ip_bytes (28 + n) (inet s) (inet d) proto c))"
    by (simp add: ip_bytes_def)
  then have "header_accepted (ip_bytes (28 + n) (inet s) (inet d) proto c)"
    using c(2) by (intro csum_zero_accepted) (simp_all add: ip_bytes_words(3))
  with c(1) show ?thesis by blast
qed

theorem udp_packet_layout_witness:
  "\<exists>c. build_ip4_udp_pkt (\<lambda>_. 0x0100a8c0) 40 [1, 2, 3] 3 () () 68 67 17 =
      Inr (31, ip_bytes 31 0x0100a8c0 0x0100a8c0 17 c @ udp_bytes 68 67 11 @ [1, 2, 3] @ replicate 9 0) \<and>
    header_accepted (ip_bytes 31 0x0100a8c0 0x0100a8c0 17 c)"
  using udp_packet_layout [of 3 40 "[1, 2, 3]" "\<lambda>_. 0x0100a8c0" "()" "()" 68 67 17] by simp

text \<open>\<open>build_ip4_udp_pkt\<close> never looks at the size of its buffer: data that does not fit behind the
  headers is written past the end of it.
\<close>

theorem udp_packet_overflow:
  assumes "28 \<le> buff_len" and "buff_len < 28 + unat n" and "unat n \<le> length data"
  shows "build_ip4_udp_pkt inet buff_len data n s d sp dp proto = Inl Write_out_of_bounds"
proof -
  let ?z = "replicate (buff_len - 28) 0 :: u8 list" and ?u = "udp_bytes sp dp (8 + n)"
  have "replicate buff_len 0 = replicate 20 0 @ replicate 8 0 @ ?z"
    using assms(1) by (simp add: replicate_add [symmetric])
  then have u: "build_upd_hdr 20 n sp dp (replicate buff_len 0) = Inr (8, replicate 20 0 @ ?u @ ?z)"
    using build_upd_hdr_ok [of "replicate 20 0" n sp dp ?z] by simp
  obtain c where "build_ip4_hdr inet 0 (n + 8) s d proto (replicate 20 0 @ ?u @ ?z) =
      Inr (20, ip_bytes (28 + n) (inet s) (inet d) proto c @ ?u @ ?z)"
    using build_ip4_hdr_ok [of "n + 8" inet s d proto "?u @ ?z"] by (auto simp: add.commute)
  moreover have "copy_loop 28 (unat n) data (ip_bytes (28 + n) (inet s) (inet d) proto c @ ?u @ ?z) =
      Inl Write_out_of_bounds"
    using assms by (intro copy_loop_fault) (simp_all add: ip_bytes_def udp_bytes_def be16_def le32_def)
  ultimately show ?thesis using u by (simp add: build_ip4_udp_pkt_def)
qed

theorem udp_packet_overflow_witness:
  "build_ip4_udp_pkt (\<lambda>_. 0) 30 [1, 2, 3] 3 () () 68 67 17 = Inl Write_out_of_bounds"
  using udp_packet_overflow [of 30 3 "[1, 2, 3]" "\<lambda>_. 0" "()" "()" 68 67 17] by simp

end
