(* ===== verification/Dhcp.thy ===== *)
theory Dhcp
  imports Net_Packet
begin

text \<open>
  DHCP packets (\<open>dhcp.c\<close>, \<open>dhcp.h\<close>): building the DISCOVER message, recognising a DHCP packet and
  stepping through its options. A packet is its bytes from the start of \<open>struct dhcp_pkt\<close> on: 240
  bytes up to and including the magic number, then the options. A packet that was received lies in
  a larger buffer, whose end is the end of the list; a read behind it is a fault.
\<close>

unbundle bit_operations_syntax

section \<open>Constants\<close>

abbreviation (input) OP_BOOT_REQUEST :: u8 where "OP_BOOT_REQUEST \<equiv> 1"
abbreviation (input) OP_BOOT_REPLY :: u8 where "OP_BOOT_REPLY \<equiv> 2"
abbreviation (input) HW_TYPE_ETHERNET :: u8 where "HW_TYPE_ETHERNET \<equiv> 1"
abbreviation (input) HW_LENGTH_ETHERNET :: u8 where "HW_LENGTH_ETHERNET \<equiv> 6"
abbreviation (input) DHCP_END :: u8 where "DHCP_END \<equiv> 0xff"
abbreviation (input) OPTION_DHCP_MESSAGE_TYPE :: u8 where "OPTION_DHCP_MESSAGE_TYPE \<equiv> 53"
abbreviation (input) VALUE_MESSAGE_DISCOVER :: u8 where "VALUE_MESSAGE_DISCOVER \<equiv> 1"
abbreviation (input) OPTION_PARAMETER_REQUEST_LIST :: u8 where "OPTION_PARAMETER_REQUEST_LIST \<equiv> 55"
abbreviation (input) OPTION_SUBNET_MASK :: u8 where "OPTION_SUBNET_MASK \<equiv> 1"
abbreviation (input) OPTION_ROUTER :: u8 where "OPTION_ROUTER \<equiv> 3"
abbreviation (input) OPTION_DNS :: u8 where "OPTION_DNS \<equiv> 6"

text \<open>The layout of \<open>struct dhcp_pkt\<close>.\<close>

abbreviation (input) off_cm_addr :: nat where "off_cm_addr \<equiv> 28"
abbreviation (input) off_magic :: nat where "off_magic \<equiv> 236"
abbreviation (input) off_opt :: nat where "off_opt \<equiv> 240"
abbreviation (input) sizeof_dhcp_pkt :: nat where "sizeof_dhcp_pkt \<equiv> 368"

definition DHCP_MAGIC :: u32 where
  "DHCP_MAGIC = htonl 0x63825363"

section \<open>Reading memory\<close>

definition load8 :: "nat \<Rightarrow> u8 list \<Rightarrow> u8 result" where
  "load8 i m = (if i < length m then Inr (m ! i) else Inl Read_out_of_bounds)"

definition load16 :: "nat \<Rightarrow> u8 list \<Rightarrow> u16 result" where
  "load16 i m = bind_result (load8 i m) (\<lambda>b0. bind_result (load8 (i + 1) m) (\<lambda>b1.
     Inr (ucast b0 OR push_bit 8 (ucast b1))))"

definition load32 :: "nat \<Rightarrow> u8 list \<Rightarrow> u32 result" where
  "load32 i m = bind_result (load16 i m) (\<lambda>w0. bind_result (load16 (i + 2) m) (\<lambda>w1.
     Inr (ucast w0 OR push_bit 16 (ucast w1))))"

section \<open>Operations\<close>

text \<open>The stores in the order of the code; \<open>secs\<close>, \<open>flags\<close> and the addresses are stored as 0 over
  the zeros of \<open>memset\<close>.\<close>

definition build_dhcp_discover :: "u8 list \<Rightarrow> s32 \<Rightarrow> (s32 \<times> u8 list) result" where
  "build_dhcp_discover src_mac mac_len =
     bind_result (store8 0 OP_BOOT_REQUEST (replicate sizeof_dhcp_pkt 0)) (\<lambda>m.
     bind_result (store8 1 HW_TYPE_ETHERNET m) (\<lambda>m.
     bind_result (store8 2 HW_LENGTH_ETHERNET m) (\<lambda>m.
     bind_result (store8 3 0 m) (\<lambda>m.
     bind_result (store32 4 0x3903f326 m) (\<lambda>m.
     bind_result (store16 8 0 m) (\<lambda>m.
     bind_result (store16 10 0 m) (\<lambda>m.
     bind_result (store32 12 0 m) (\<lambda>m.
     bind_result (store32 16 0 m) (\<lambda>m.
     bind_result (store32 20 0 m) (\<lambda>m.
     bind_result (store32 24 0 m) (\<lambda>m.
     bind_result (if sint mac_len \<le> 6 then copy_loop off_cm_addr (nat (sint mac_len)) src_mac m
                  else Inl Write_out_of_bounds) (\<lambda>m.
     bind_result (store32 off_magic DHCP_MAGIC m) (\<lambda>m.
     bind_result (store8 off_opt OPTION_DHCP_MESSAGE_TYPE m) (\<lambda>m.
     bind_result (store8 (off_opt + 1) 1 m) (\<lambda>m.
     bind_result (store8 (off_opt + 2) VALUE_MESSAGE_DISCOVER m) (\<lambda>m.
     bind_result (store8 (off_opt + 3) OPTION_PARAMETER_REQUEST_LIST m) (\<lambda>m.
     bind_result (store8 (off_opt + 4) 3 m) (\<lambda>m.
     bind_result (store8 (off_opt + 5) OPTION_ROUTER m) (\<lambda>m.
     bind_result (store8 (off_opt + 6) OPTION_SUBNET_MASK m) (\<lambda>m.
     bind_result (store8 (off_opt + 7) OPTION_DNS m) (\<lambda>m.
     bind_result (store8 (off_opt + 8) DHCP_END m) (\<lambda>m.
       Inr (of_nat sizeof_dhcp_pkt, m)))))))))))))))))))))))"

definition is_dhcp :: "u8 list \<Rightarrow> bool result" where
  "is_dhcp pkt = bind_result (load32 off_magic pkt) (\<lambda>magic. Inr (magic = DHCP_MAGIC))"

text \<open>\<open>get_dhcp_option\<close>: the position of the option in the packet, or \<open>None\<close> at the end, and the
  new offset.\<close>

definition get_dhcp_option :: "u8 list \<Rightarrow> nat \<Rightarrow> (nat option \<times> nat) result" where
  "get_dhcp_option pkt offset =
     bind_result (load8 (off_opt + offset) pkt) (\<lambda>b.
     if b = 0 \<or> b = DHCP_END then Inr (None, offset)
     else bind_result (load8 (off_opt + offset + 1) pkt) (\<lambda>len.
       Inr (Some (off_opt + offset), offset + 2 + unat len)))"

definition char_to_ip :: "nat \<Rightarrow> u8 list \<Rightarrow> u32 result" where
  "char_to_ip p m =
     bind_result (load8 p m) (\<lambda>b0. bind_result (load8 (p + 1) m) (\<lambda>b1.
     bind_result (load8 (p + 2) m) (\<lambda>b2. bind_result (load8 (p + 3) m) (\<lambda>b3.
       Inr (htonl (push_bit 24 (ucast b0) OR push_bit 16 (ucast b1) OR push_bit 8 (ucast b2) OR ucast b3))))))"

section \<open>Lemmas\<close>

lemma load8_append: "load8 (length p) (p @ b # q) = Inr b"
  by (simp add: load8_def)

lemma magic_bytes: "le32 DHCP_MAGIC = [0x63, 0x82, 0x53, 0x63]"
  by (simp add: le32_def DHCP_MAGIC_def htonl_def)

text \<open>The discover message, byte by byte.\<close>

definition discover_bytes :: "u8 list \<Rightarrow> u8 list" where
  "discover_bytes mac = [1, 1, 6, 0, 0x26, 0xf3, 0x03, 0x39] @ replicate 20 0 @ mac @ replicate 202 0 @
     [0x63, 0x82, 0x53, 0x63, 53, 1, 1, 55, 3, 3, 1, 6, 0xff] @ replicate 119 0"

lemma copy_loop_num:
  "copy_loop off (numeral k) (b # data) m = bind_result (store8 off b m) (copy_loop (Suc off) (pred_numeral k) data)"
  by (simp add: numeral_eq_Suc)

lemma build_discover_ok:
  assumes "length mac = 6"
  shows "build_dhcp_discover mac 6 = Inr (368, discover_bytes mac)"
proof -
  obtain a b c d e f where mac: "mac = [a, b, c, d, e, f]"
    using assms by (auto simp: length_Suc_conv eval_nat_numeral)
  define z1 z2 :: "u8 list" where z: "z1 = replicate 202 0" "z2 = replicate 119 0"
  have len: "length z1 = 202" "length z2 = 119" by (simp_all add: z)
  have mem: "replicate 368 (0 :: u8) = replicate 28 0 @ replicate 6 0 @ z1 @ replicate 13 0 @ z2"
    unfolding z by (simp flip: replicate_add)
  show ?thesis
    unfolding build_dhcp_discover_def discover_bytes_def mac mem z [symmetric]
    by (simp add: header_simps copy_loop_num DHCP_MAGIC_def htonl_def len)
qed

lemma htonl_swaps:
  fixes b0 b1 b2 b3 :: u8
  shows "htonl (push_bit 24 (ucast b0) OR push_bit 16 (ucast b1) OR push_bit 8 (ucast b2) OR ucast b3) =
    ucast b0 OR push_bit 8 (ucast b1) OR push_bit 16 (ucast b2) OR push_bit 24 (ucast b3)"
proof (rule bit_word_eqI)
  fix n assume "n < LENGTH(32)"
  then consider "n < 8" | "8 \<le> n" "n < 16" | "16 \<le> n" "n < 24" | "24 \<le> n" "n < 32" by fastforce
  then show "bit (htonl (push_bit 24 (ucast b0) OR push_bit 16 (ucast b1) OR push_bit 8 (ucast b2) OR ucast b3)) n =
      bit (ucast b0 OR push_bit 8 (ucast b1) OR push_bit 16 (ucast b2) OR push_bit 24 (ucast b3) :: u32) n"
    unfolding htonl_def masks_32 by cases (auto simp: bit_simps dest: bit_imp_le_length)
qed

text \<open>An option on the wire.\<close>

definition enc_opt :: "u8 \<times> u8 list \<Rightarrow> u8 list" where
  "enc_opt op = fst op # of_nat (length (snd op)) # snd op"

definition opt_ok :: "u8 \<times> u8 list \<Rightarrow> bool" where
  "opt_ok op \<longleftrightarrow> fst op \<noteq> 0 \<and> fst op \<noteq> DHCP_END \<and> length (snd op) < 256"

lemma length_enc_opt [simp]: "length (enc_opt op) = 2 + length (snd op)"
  by (simp add: enc_opt_def)

lemma get_option_end:
  assumes "length p = off_opt + offset"
  shows "get_dhcp_option (p @ DHCP_END # rest) offset = Inr (None, offset)"
  using load8_append [of p DHCP_END rest] assms by (simp add: get_dhcp_option_def)

lemma get_option_enc:
  assumes "length p = off_opt + offset" and "opt_ok op"
  shows "get_dhcp_option (p @ enc_opt op @ rest) offset =
    Inr (Some (off_opt + offset), offset + length (enc_opt op))"
proof -
  have "unat (of_nat (length (snd op)) :: u8) = length (snd op)"
    using assms(2) by (simp add: opt_ok_def unat_of_nat)
  then show ?thesis
    using assms load8_append [of p "fst op" "of_nat (length (snd op)) # snd op @ rest"]
      load8_append [of "p @ [fst op]" "of_nat (length (snd op))" "snd op @ rest"]
    by (simp add: get_dhcp_option_def enc_opt_def opt_ok_def)
qed

text \<open>Each call moves on by at least two bytes.\<close>

lemma get_option_progress:
  assumes "get_dhcp_option pkt offset = Inr (Some p, offset')"
  shows "p = off_opt + offset" and "offset + 2 \<le> offset'" and "off_opt + offset + 1 < length pkt"
  using assms by (auto simp: get_dhcp_option_def load8_def split: if_splits)

section \<open>Properties\<close>

text \<open>The DISCOVER message for a MAC address is a well-formed BOOTP request of 368 bytes: operation,
  hardware type and length, the transaction number, the address in its place, the magic number
  in network order, and the options asking for router, mask and name servers, closed by the end
  mark; no store leaves the structure.
\<close>

theorem discover_message:
  assumes "length mac = 6"
  shows "build_dhcp_discover mac 6 = Inr (368, discover_bytes mac) \<and> length (discover_bytes mac) = 368 \<and>
    is_dhcp (discover_bytes mac) = Inr True \<and>
    get_dhcp_option (discover_bytes mac) 0 = Inr (Some 240, 3) \<and>
    get_dhcp_option (discover_bytes mac) 3 = Inr (Some 243, 8) \<and>
    get_dhcp_option (discover_bytes mac) 8 = Inr (None, 8)"
proof -
  let ?p = "[1, 1, 6, 0, 0x26, 0xf3, 0x03, 0x39] @ replicate 20 0 @ mac @ replicate 202 (0 :: u8)"
  let ?o = "[0x63, 0x82, 0x53, 0x63, 53, 1, 1, 55, 3, 3, 1, 6, 0xff] @ replicate 119 (0 :: u8)"
  have len: "length ?p = 236" using assms by simp
  have d: "discover_bytes mac = ?p @ ?o" by (simp add: discover_bytes_def)
  have at: "load8 (236 + i) (discover_bytes mac) = Inr (?o ! i)" if "i < 132" for i
    unfolding d load8_def using that len assms by (simp only: nth_append len) (simp del: append_assoc)
  have l: "load8 236 (discover_bytes mac) = Inr 0x63" "load8 237 (discover_bytes mac) = Inr 0x82"
    "load8 238 (discover_bytes mac) = Inr 0x53" "load8 239 (discover_bytes mac) = Inr 0x63"
    "load8 240 (discover_bytes mac) = Inr 53" "load8 241 (discover_bytes mac) = Inr 1"
    "load8 243 (discover_bytes mac) = Inr 55" "load8 244 (discover_bytes mac) = Inr 3"
    "load8 248 (discover_bytes mac) = Inr 0xff"
    using at [of 0] at [of 1] at [of 2] at [of 3] at [of 4] at [of 5] at [of 7] at [of 8] at [of 12] by simp_all
  have "is_dhcp (discover_bytes mac) = Inr True"
    by (simp add: is_dhcp_def load32_def load16_def l DHCP_MAGIC_def htonl_def)
  then show ?thesis
    using build_discover_ok [OF assms] assms by (simp add: get_dhcp_option_def l) (simp add: discover_bytes_def)
qed

theorem discover_message_witness:
  "build_dhcp_discover [2, 0, 0, 0, 0, 1] 6 = Inr (368, discover_bytes [2, 0, 0, 0, 0, 1])"
  using discover_message [of "[2, 0, 0, 0, 0, 1]"] by simp

end
