(* ===== verification/Dhcp_Client.thy ===== *)
theory Dhcp_Client
  imports Dhcp
begin

text \<open>
  The DHCP client (\<open>dhclient.c\<close>): one DISCOVER message, the wait for a reply, the options of the reply and
  the configuration of the interface. The network is a list of events, one for each round of the
  receive loop: whether \<open>sendto\<close> succeeds and what \<open>recvfrom\<close> delivers. The operating system's part of
  \<open>dhcpSetIfAddr\<close>, the results of \<open>socket\<close>, \<open>ioctl\<close> and \<open>inet_aton\<close>, is an argument.
\<close>

unbundle bit_operations_syntax

section \<open>Addresses as text\<close>

text \<open>\<open>inet_ntoa\<close>: the four bytes in memory order, in decimal, with dots between them.\<close>

definition dec_byte :: "u8 \<Rightarrow> u8 list" where
  "dec_byte b =
     (if b < 10 then [48 + b]
      else if b < 100 then [48 + b div 10, 48 + b mod 10]
      else [48 + b div 100, 48 + b div 10 mod 10, 48 + b mod 10])"

definition inet_ntoa :: "u32 \<Rightarrow> u8 list" where
  "inet_ntoa a =
     dec_byte (ucast a) @ [46] @ dec_byte (ucast (drop_bit 8 a)) @ [46] @
     dec_byte (ucast (drop_bit 16 a)) @ [46] @ dec_byte (ucast (drop_bit 24 a))"

text \<open>The addresses found so far; \<open>nameserver\<close> is what the loop prints.\<close>

record dhcp_conf =
  cliip :: "u8 list"
  maskip :: "u8 list"
  gateip :: "u8 list"
  nameserver :: "u8 list list"

definition any_ip :: "u8 list" where "any_ip = inet_ntoa 0"

text \<open>\<open>sprintf\<close> into an array of 32 characters.\<close>

definition sprintf32 :: "u8 list \<Rightarrow> u8 list result" where
  "sprintf32 s = (if length s + 1 \<le> 32 then Inr s else Inl Write_out_of_bounds)"

section \<open>Options of the reply\<close>

primrec dns_loop :: "nat \<Rightarrow> nat \<Rightarrow> u8 list \<Rightarrow> u8 list list result" where
  "dns_loop 0 p pkt = Inr []"
| "dns_loop (Suc n) p pkt =
     bind_result (char_to_ip p pkt) (\<lambda>a. bind_result (dns_loop n (p + 4) pkt) (\<lambda>l. Inr (inet_ntoa a # l)))"

definition handle_option :: "u8 list \<Rightarrow> nat \<Rightarrow> dhcp_conf \<Rightarrow> dhcp_conf result" where
  "handle_option pkt p conf =
     bind_result (load8 p pkt) (\<lambda>id. bind_result (load8 (p + 1) pkt) (\<lambda>len.
     if id = OPTION_ROUTER then
       (if len = 4 then bind_result (char_to_ip (p + 2) pkt) (\<lambda>a.
          bind_result (sprintf32 (inet_ntoa a)) (\<lambda>s. Inr (conf\<lparr>gateip := s\<rparr>)))
        else Inr conf)
     else if id = OPTION_SUBNET_MASK then
       (if len = 4 then bind_result (char_to_ip (p + 2) pkt) (\<lambda>a.
          bind_result (sprintf32 (inet_ntoa a)) (\<lambda>s. Inr (conf\<lparr>maskip := s\<rparr>)))
        else Inr conf)
     else if id = OPTION_DNS then
       (if unat len mod 4 = 0 then bind_result (dns_loop (unat len div 4) (p + 2) pkt) (\<lambda>l.
          Inr (conf\<lparr>nameserver := nameserver conf @ l\<rparr>))
        else Inr conf)
     else Inr conf))"

function option_loop :: "u8 list \<Rightarrow> nat \<Rightarrow> dhcp_conf \<Rightarrow> dhcp_conf result" where
  "option_loop pkt offs conf =
     bind_result (get_dhcp_option pkt offs) (\<lambda>(opt, offs').
     case opt of
       None \<Rightarrow> Inr conf
     | Some p \<Rightarrow> bind_result (handle_option pkt p conf) (option_loop pkt offs'))"
  by pat_completeness auto
termination
  by (relation "measure (\<lambda>(pkt, offs, conf). length pkt - offs)") 
    (use get_option_progress in fastforce)+

declare option_loop.simps [simp del]

section \<open>The receive loop\<close>

definition BUFF_SIZE :: nat where "BUFF_SIZE = 1024"

text \<open>The buffer after \<open>memset\<close> and \<open>recvfrom\<close>.\<close>

definition received :: "u8 list \<Rightarrow> u8 list" where
  "received data = take BUFF_SIZE data @ replicate (BUFF_SIZE - length data) 0"

text \<open>The check of the protocol, the port, the magic number and the operation.\<close>

definition is_reply :: "u8 list \<Rightarrow> bool result" where
  "is_reply buffer =
     bind_result (load8 9 buffer) (\<lambda>iph_protocol.
     if iph_protocol \<noteq> 17 then Inr False
     else bind_result (load16 22 buffer) (\<lambda>udph_destport.
     if udph_destport \<noteq> htons 68 then Inr False
     else bind_result (is_dhcp (drop 28 buffer)) (\<lambda>dhcp.
     if \<not> dhcp then Inr False
     else bind_result (load8 28 buffer) (\<lambda>op. Inr (op = OP_BOOT_REPLY)))))"

text \<open>What the loop comes to: the reply, the exit, or waiting for events behind the end of the list.
  \<open>sent\<close> collects the datagrams.\<close>

datatype waited = Reply "u8 list" | Exit | Waiting

fun receive_loop :: "nat \<Rightarrow> u8 list \<Rightarrow> u8 list list \<Rightarrow> (bool \<times> u8 list option) list \<Rightarrow> (waited \<times> u8 list list) result" where
  "receive_loop len buffer sent [] = Inr (Waiting, sent)"
| "receive_loop len buffer sent ((send_ok, recv) # events) =
     (if \<not> send_ok then Inr (Exit, sent)
      else let sent = sent @ [take len buffer] in
      case recv of
        None \<Rightarrow> Inr (Exit, sent)
      | Some data \<Rightarrow>
          if data = [] then Inr (Exit, sent)
          else let buffer = received data in
          bind_result (is_reply buffer) (\<lambda>reply.
          if reply then Inr (Reply buffer, sent) else receive_loop len buffer sent events))"

section \<open>Configuration of the interface\<close>

text \<open>The requests to the kernel: the address and the mask of an interface, the default route.\<close>

datatype ioctl_request =
    SIOCSIFADDR "u8 list" u32
  | SIOCSIFNETMASK "u8 list" u32
  | SIOCADDRT u32

text \<open>The world: the descriptor \<open>socket\<close> returns, \<open>inet_aton\<close>, the result of each request, and the value an
  uninitialised local variable has.\<close>

record world =
  w_socket :: s32
  w_aton :: "u8 list \<Rightarrow> u32 option"
  w_ioctl :: "ioctl_request \<Rightarrow> s32"
  w_uninit :: s32

text \<open>\<open>inet_aton\<close> returns 1, or 0 for a string that is no address, which leaves \<open>*inp\<close> as it was.\<close>

definition inet_aton :: "world \<Rightarrow> u8 list \<Rightarrow> u32 \<Rightarrow> s32 \<times> u32" where
  "inet_aton w cp inp = (case w_aton w cp of None \<Rightarrow> (0, inp) | Some a \<Rightarrow> (1, a))"

text \<open>The return value, the requests made, and whether the socket has been closed.\<close>

definition dhcpSetIfAddr ::
  "world \<Rightarrow> u8 list \<Rightarrow> u8 list \<Rightarrow> u8 list \<Rightarrow> u8 list \<Rightarrow> (s32 \<times> ioctl_request list \<times> bool) result" where
  "dhcpSetIfAddr w ifname Ipaddr netmask gateway =
     (if sint (w_socket w) < 0 then Inr (- 1, [], True)
      else if length ifname + 1 > 16 then Inl Write_out_of_bounds
      else let (r, sin_addr) = inet_aton w Ipaddr 0 in
      if sint r < 0 then Inr (- 2, [], False)
      else let r1 = SIOCSIFADDR ifname sin_addr in
      if sint (w_ioctl w r1) < 0 then Inr (- 3, [r1], False)
      else let (r, sin_addr) = inet_aton w netmask sin_addr in
      if sint r < 0 then Inr (- 4, [r1], False)
      else let r2 = SIOCSIFNETMASK ifname sin_addr in
      if sint (w_ioctl w r2) < 0 then Inr (- 5, [r1, r2], False)
      else let (r, sin_addr) = inet_aton w gateway 0; r3 = SIOCADDRT sin_addr in
      if sint (w_ioctl w r3) < 0 then Inr (- 1, [r1, r2, r3], True)
      else Inr (w_uninit w, [r1, r2, r3], True))"

text \<open>\<open>dhcpmain\<close>: the datagrams sent and the requests to the kernel.\<close>

definition dhcpmain ::
  "('s \<Rightarrow> u32) \<Rightarrow> 's \<Rightarrow> 's \<Rightarrow> world \<Rightarrow> u8 list \<Rightarrow> u8 list \<Rightarrow> (bool \<times> u8 list option) list \<Rightarrow>
   (u8 list list \<times> ioctl_request list) result" where
  "dhcpmain inet_addr any broadcast w ifname hw_addr events =
     bind_result (build_dhcp_discover hw_addr 6) (\<lambda>(dhcp_len, dhcp).
     bind_result (build_ip4_udp_pkt inet_addr BUFF_SIZE dhcp (ucast dhcp_len) any broadcast 68 67 17) (\<lambda>(len, buffer).
     bind_result (receive_loop (unat len) buffer [] events) (\<lambda>(waited, sent).
     case waited of
       Reply reply \<Rightarrow>
         bind_result (load32 (28 + 16) reply) (\<lambda>yi_addr.
         bind_result (sprintf32 (inet_ntoa yi_addr)) (\<lambda>ip.
         bind_result (option_loop (drop 28 reply) 0
             \<lparr>cliip = ip, maskip = any_ip, gateip = any_ip, nameserver = []\<rparr>) (\<lambda>conf.
         bind_result (dhcpSetIfAddr w ifname (cliip conf) (maskip conf) (gateip conf)) (\<lambda>(rc, requests, closed).
         Inr (sent, requests)))))
     | _ \<Rightarrow> Inr (sent, []))))"

section \<open>Lemmas\<close>

lemma length_inet_ntoa: "length (inet_ntoa a) \<le> 15"
  by (simp add: inet_ntoa_def dec_byte_def)

lemma sprintf32_ntoa [simp]: "sprintf32 (inet_ntoa a) = Inr (inet_ntoa a)"
  using length_inet_ntoa [of a] by (simp add: sprintf32_def)

text \<open>An address from its bytes in memory.\<close>

definition ip_of :: "u8 list \<Rightarrow> u32" where
  "ip_of bs = ucast (bs ! 0) OR push_bit 8 (ucast (bs ! 1)) OR push_bit 16 (ucast (bs ! 2)) OR push_bit 24 (ucast (bs ! 3))"

lemma load8_in: "i < length q \<Longrightarrow> load8 (length p + i) (p @ q @ r) = Inr (q ! i)"
  by (simp add: load8_def nth_append)

lemma char_to_ip_run:
  assumes "k + 4 \<le> length q"
  shows "char_to_ip (length p + k) (p @ q @ r) = Inr (ip_of (drop k q))"
proof -
  have "load8 (length p + k + i) (p @ q @ r) = Inr (drop k q ! i)" if "i < 4" for i
    using load8_in [of "k + i" q p r] that assms by (simp add: add.assoc)
  from this [of 0] this [of 1] this [of 2] this [of 3] show ?thesis
    by (simp add: char_to_ip_def htonl_swaps ip_of_def)
qed

fun ips :: "u8 list \<Rightarrow> u8 list list" where
  "ips (a # b # c # d # bs) = inet_ntoa (ip_of [a, b, c, d]) # ips bs"
| "ips bs = []"

lemma dns_loop_run:
  "length q = 4 * n \<Longrightarrow> dns_loop n (length p) (p @ q @ r) = Inr (ips q)"
proof (induction n arbitrary: p q)
  case (Suc n)
  then obtain a b c d q' where q: "q = [a, b, c, d] @ q'" "length q' = 4 * n"
    by (cases q; cases "tl q"; cases "tl (tl q)"; cases "tl (tl (tl q))") auto
  have "char_to_ip (length p) (p @ q @ r) = Inr (ip_of [a, b, c, d])"
    using char_to_ip_run [of 0 "[a, b, c, d]" p "q' @ r"] q by simp
  moreover have "dns_loop n (length p + 4) (p @ q @ r) = Inr (ips q')"
    using Suc.IH [OF q(2), of "p @ [a, b, c, d]"] q(1) by (simp add: eval_nat_numeral)
  ultimately show ?case using q(1) by simp
qed simp

text \<open>The effect of an option on the configuration.\<close>

definition apply_opt :: "u8 \<times> u8 list \<Rightarrow> dhcp_conf \<Rightarrow> dhcp_conf" where
  "apply_opt op conf =
     (if fst op = OPTION_ROUTER \<and> length (snd op) = 4 then conf\<lparr>gateip := inet_ntoa (ip_of (snd op))\<rparr>
      else if fst op = OPTION_SUBNET_MASK \<and> length (snd op) = 4 then conf\<lparr>maskip := inet_ntoa (ip_of (snd op))\<rparr>
      else if fst op = OPTION_DNS \<and> length (snd op) mod 4 = 0 then conf\<lparr>nameserver := nameserver conf @ ips (snd op)\<rparr>
      else conf)"

lemma handle_option_run:
  assumes "opt_ok op"
  shows "handle_option (p @ enc_opt op @ rest) (length p) conf = Inr (apply_opt op conf)"
proof -
  obtain i v where op: "op = (i, v)" by (cases op)
  define n where "n = (of_nat (length v) :: u8)"
  have n: "unat n = length v" "n = 4 \<longleftrightarrow> length v = 4"
    using assms op by (auto simp: opt_ok_def n_def unat_of_nat word_unat_eq_iff)
  define m where "m = p @ (i # n # v) @ rest"
  have l: "load8 (length p) m = Inr i" "load8 (length p + 1) m = Inr n"
    using load8_in [of 0 "[i, n]" p "v @ rest"] load8_in [of 1 "[i, n]" p "v @ rest"] by (simp_all add: m_def)
  have c: "length v = 4 \<Longrightarrow> char_to_ip (length p + 2) m = Inr (ip_of v)"
    using char_to_ip_run [of 0 v "p @ [i, n]" rest] by (simp add: m_def)
  have d: "length v mod 4 = 0 \<Longrightarrow> dns_loop (length v div 4) (length p + 2) m = Inr (ips v)"
    using dns_loop_run [of v "length v div 4" "p @ [i, n]" rest] by (auto simp: m_def mod_eq_0_iff_dvd)
  have "handle_option m (length p) conf = Inr (apply_opt op conf)"
    unfolding handle_option_def l bind_result_simps n op apply_opt_def fst_conv snd_conv
    using c d by auto
  then show ?thesis by (simp add: m_def enc_opt_def op n_def)
qed

lemma option_loop_run:
  assumes "list_all opt_ok opts" "length p = off_opt + offs"
  shows "option_loop (p @ concat (map enc_opt opts) @ DHCP_END # rest) offs conf = Inr (fold apply_opt opts conf)"
  using assms
proof (induction opts arbitrary: p offs conf)
  case Nil
  then show ?case using get_option_end [of p offs rest] by (subst option_loop.simps) simp
next
  case (Cons op opts)
  let ?rest = "concat (map enc_opt opts) @ DHCP_END # rest"
  have "get_dhcp_option (p @ enc_opt op @ ?rest) offs = Inr (Some (length p), offs + length (enc_opt op))"
    using get_option_enc [of p offs op ?rest] Cons.prems by simp
  moreover have "handle_option (p @ enc_opt op @ ?rest) (length p) conf = Inr (apply_opt op conf)"
    using Cons.prems by (intro handle_option_run) simp
  moreover have "option_loop ((p @ enc_opt op) @ ?rest) (offs + length (enc_opt op)) (apply_opt op conf) =
      Inr (fold apply_opt opts (apply_opt op conf))"
    using Cons.prems by (intro Cons.IH) simp_all
  ultimately show ?case by (subst option_loop.simps) simp
qed









text \<open>A reply in the buffer: the headers, the fixed part of the packet, the options, the end mark.\<close>

definition reply_ok :: "u8 list \<Rightarrow> u8 list \<Rightarrow> bool" where
  "reply_ok hdr fixed \<longleftrightarrow> length hdr = 28 \<and> length fixed = 240 \<and> hdr ! 9 = 17 \<and> hdr ! 22 = 0 \<and> hdr ! 23 = 68 \<and>
     fixed ! 0 = OP_BOOT_REPLY \<and> drop 236 fixed = [0x63, 0x82, 0x53, 0x63]"

lemma load8_eq: "i < length m \<Longrightarrow> load8 i m = Inr (m ! i)"
  by (simp add: load8_def)

lemma is_reply_ok:
  assumes "reply_ok hdr fixed"
  shows "is_reply (hdr @ fixed @ rest) = Inr True"
proof -
  note r = assms [unfolded reply_ok_def]
  have m: "fixed ! (236 + i) = [0x63, 0x82, 0x53, 0x63] ! i" if "i < 4" for i
  proof -
    have "drop 236 fixed ! i = fixed ! (236 + i)" using r by (intro nth_drop) simp
    then show ?thesis using r by simp
  qed
  have m': "fixed ! 236 = 0x63" "fixed ! 237 = 0x82" "fixed ! 238 = 0x53" "fixed ! 239 = 0x63"
    using m [of 0] m [of 1] m [of 2] m [of 3] by simp_all
  have "is_dhcp (fixed @ rest) = Inr True"
    using r m' by (simp add: is_dhcp_def load32_def load16_def load8_eq nth_append DHCP_MAGIC_def htonl_def)
  moreover have "load16 22 (hdr @ fixed @ rest) = Inr (htons 68)"
    using r by (simp add: load16_def load8_eq nth_append htons_def)
  ultimately show ?thesis
    using r by (simp add: is_reply_def load8_eq nth_append)
qed

lemma load32_in:
  assumes "k + 4 \<le> length q"
  shows "load32 (length p + k) (p @ q @ r) = Inr (ip_of (drop k q))"
proof -
  have "load8 (length p + k + i) (p @ q @ r) = Inr (drop k q ! i)" if "i < 4" for i
    using load8_in [of "k + i" q p r] that assms by (simp add: add.assoc)
  from this [of 0] this [of 1] this [of 2] this [of 3]
  have l: "load8 (length p + k) (p @ q @ r) = Inr (drop k q ! 0)" "load8 (length p + k + 1) (p @ q @ r) = Inr (drop k q ! 1)"
    "load8 (length p + k + 2) (p @ q @ r) = Inr (drop k q ! 2)" "load8 (length p + k + 2 + 1) (p @ q @ r) = Inr (drop k q ! 3)"
    by (simp_all add: numeral_3_eq_3)
  have e: "ucast (ucast a OR push_bit 8 (ucast b) :: u16) OR push_bit 16 (ucast (ucast c OR push_bit 8 (ucast d) :: u16)) =
      (ucast a OR push_bit 8 (ucast b) OR push_bit 16 (ucast c) OR push_bit 24 (ucast d) :: u32)" for a b c d :: u8
  proof (rule bit_word_eqI)
    fix n assume "n < LENGTH(32)"
    then consider "n < 8" | "8 \<le> n" "n < 16" | "16 \<le> n" "n < 24" | "24 \<le> n" "n < 32" by fastforce
    then show "bit (ucast (ucast a OR push_bit 8 (ucast b) :: u16) OR push_bit 16 (ucast (ucast c OR push_bit 8 (ucast d) :: u16)) :: u32) n =
      bit (ucast a OR push_bit 8 (ucast b) OR push_bit 16 (ucast c) OR push_bit 24 (ucast d) :: u32) n"
      by cases (auto simp: bit_simps dest: bit_imp_le_length)
  qed
  show ?thesis unfolding load32_def load16_def l bind_result_simps e ip_of_def ..
qed

text \<open>The datagram with the DISCOVER message; \<open>c\<close> is the header checksum.\<close>

definition discover_datagram :: "u32 \<Rightarrow> u32 \<Rightarrow> u8 list \<Rightarrow> u16 \<Rightarrow> u8 list" where
  "discover_datagram src dst mac c = ip_bytes 396 src dst 17 c @ udp_bytes 68 67 376 @ discover_bytes mac"

lemma discover_datagram_built:
  assumes "length mac = 6"
  shows "\<exists>c buffer. build_ip4_udp_pkt inet BUFF_SIZE (discover_bytes mac) (ucast (368 :: s32)) s d 68 67 17 = Inr (396, buffer) \<and>
    take 396 buffer = discover_datagram (inet s) (inet d) mac c"
proof -
  have l: "length (discover_bytes mac) = 368" "length (ip_bytes t a b p c) = 20" "length (udp_bytes x y z) = 8" for t a b p c x y z
    using assms by (simp_all add: discover_bytes_def ip_bytes_def udp_bytes_def be16_def le32_def)
  obtain c where "build_ip4_udp_pkt inet BUFF_SIZE (discover_bytes mac) 368 s d 68 67 17 =
      Inr (396, ip_bytes 396 (inet s) (inet d) 17 c @ udp_bytes 68 67 376 @ discover_bytes mac @ replicate (BUFF_SIZE - 396) 0)"
    using build_pkt_ok [of 368 BUFF_SIZE "discover_bytes mac" inet s d 68 67 17] l by (auto simp: BUFF_SIZE_def)
  then show ?thesis using l by (intro exI [of _ c]) (auto simp: discover_datagram_def)
qed

text \<open>The last address the options give under a code.\<close>

definition wanted :: "u8 \<Rightarrow> (u8 \<times> u8 list) list \<Rightarrow> u32" where
  "wanted code opts =
     (let l = filter (\<lambda>op. fst op = code \<and> length (snd op) = 4) opts in if l = [] then 0 else ip_of (snd (last l)))"

lemma fold_apply_opt:
  assumes "maskip conf = inet_ntoa 0" "gateip conf = inet_ntoa 0"
  shows "cliip (fold apply_opt opts conf) = cliip conf"
    "maskip (fold apply_opt opts conf) = inet_ntoa (wanted OPTION_SUBNET_MASK opts)"
    "gateip (fold apply_opt opts conf) = inet_ntoa (wanted OPTION_ROUTER opts)"
proof -
  have "cliip (fold apply_opt opts conf) = cliip conf \<and>
    maskip (fold apply_opt opts conf) = inet_ntoa (wanted OPTION_SUBNET_MASK opts) \<and>
    gateip (fold apply_opt opts conf) = inet_ntoa (wanted OPTION_ROUTER opts)"
    using assms by (induction opts rule: rev_induct) (auto simp: wanted_def apply_opt_def Let_def)
  then show "cliip (fold apply_opt opts conf) = cliip conf"
    "maskip (fold apply_opt opts conf) = inet_ntoa (wanted OPTION_SUBNET_MASK opts)"
    "gateip (fold apply_opt opts conf) = inet_ntoa (wanted OPTION_ROUTER opts)" by blast+
qed

section \<open>A concrete \<open>inet_aton\<close>\<close>

definition undec :: "u8 list \<Rightarrow> u8" where
  "undec ds = fold (\<lambda>d n. 10 * n + (d - 48)) ds 0"

fun fields :: "u8 list \<Rightarrow> u8 list \<Rightarrow> u8 list list" where
  "fields acc [] = [acc]"
| "fields acc (c # cs) = (if c = 46 then acc # fields [] cs else fields (acc @ [c]) cs)"

definition inv_ntoa :: "u8 list \<Rightarrow> u32 option" where
  "inv_ntoa s = (case fields [] s of [a, b, c, d] \<Rightarrow> Some (ip_of (map undec [a, b, c, d])) | _ \<Rightarrow> None)"

lemma fields_append: "46 \<notin> set xs \<Longrightarrow> fields acc (xs @ 46 # ys) = (acc @ xs) # fields [] ys"
  "46 \<notin> set xs \<Longrightarrow> fields acc xs = [acc @ xs]"
  by (induction xs arbitrary: acc) auto

lemma digit_not_dot: "unat (d :: u8) < 10 \<Longrightarrow> 48 + d \<noteq> 46"
  by (auto simp: word_unat_eq_iff unat_word_ariths)

lemma dec_byte_digits: "46 \<notin> set (dec_byte b)"
proof -
  have "unat b < 256" using unsigned_less [of b] by simp
  then have "unat (b div 100) < 10" "unat (b div 10 mod 10) < 10" "unat (b mod 10) < 10"
    "b < 100 \<Longrightarrow> unat (b div 10) < 10" "b < 10 \<Longrightarrow> unat b < 10"
    by (auto simp: unat_div unat_mod word_less_nat_alt)
  then show ?thesis using digit_not_dot by (auto simp: dec_byte_def)
qed

lemma undec_dec_byte [simp]: "undec (dec_byte b) = b"
proof -
  have "10 * (b div 10) + b mod 10 = b" by (rule mult_div_mod_eq)
  moreover have "10 * (10 * (b div 100) + b div 10 mod 10) = 10 * (b div 10)"
  proof -
    have "b div 100 = b div 10 div 10" by (simp add: word_unat_eq_iff unat_div div_mult2_eq [symmetric])
    then show ?thesis by (metis mult_div_mod_eq)
  qed
  ultimately show ?thesis by (simp add: undec_def dec_byte_def)
qed

lemma inv_ntoa: "inv_ntoa (inet_ntoa a) = Some a"
proof -
  have "fields [] (inet_ntoa a) = [dec_byte (ucast a), dec_byte (ucast (drop_bit 8 a)), dec_byte (ucast (drop_bit 16 a)),
      dec_byte (ucast (drop_bit 24 a))]"
    by (simp add: inet_ntoa_def fields_append dec_byte_digits)
  then have "inv_ntoa (inet_ntoa a) = Some (ip_of [ucast a, ucast (drop_bit 8 a), ucast (drop_bit 16 a), ucast (drop_bit 24 a)])"
    by (simp add: inv_ntoa_def)
  also have "ip_of [ucast a, ucast (drop_bit 8 a), ucast (drop_bit 16 a), ucast (drop_bit 24 a)] = a"
  proof (rule bit_word_eqI)
    fix n assume "n < LENGTH(32)"
    then consider "n < 8" | "8 \<le> n" "n < 16" | "16 \<le> n" "n < 24" | "24 \<le> n" "n < 32" by fastforce
    then show "bit (ip_of [ucast a, ucast (drop_bit 8 a), ucast (drop_bit 16 a), ucast (drop_bit 24 a)]) n = bit a n"
      by cases (auto simp: ip_of_def bit_simps nth_Cons_numeral)
  qed
  finally show ?thesis .
qed

definition demo_hdr :: "u8 list" where
  "demo_hdr = replicate 9 0 @ [17] @ replicate 12 0 @ [0, 68] @ replicate 4 0"

definition demo_fixed :: "u8 list" where
  "demo_fixed = OP_BOOT_REPLY # replicate 15 0 @ [10, 0, 0, 7] @ replicate 216 0 @ [0x63, 0x82, 0x53, 0x63]"

lemma demo_reply_ok: "reply_ok demo_hdr demo_fixed"
  by (simp add: reply_ok_def demo_hdr_def demo_fixed_def nth_append nth_Cons_numeral)

definition conf0 :: dhcp_conf where
  "conf0 = \<lparr>cliip = any_ip, maskip = any_ip, gateip = any_ip, nameserver = []\<rparr>"

section \<open>Properties\<close>

text \<open>
  C25. From a reply to the configured interface. When the server's reply to the DISCOVER message
  carries well-formed options, \<open>dhcpmain\<close> sends exactly one datagram, the DISCOVER message, reads
  the reply without leaving the buffer, and asks the kernel for the offered address, the last
  subnet mask and the last router of the options, in this order. Assumed of the operating system:
  \<open>inet_aton\<close> reads what \<open>inet_ntoa\<close> writes, and the calls succeed.
\<close>

theorem dhcp_configures:
  fixes w :: world
  assumes "length hw_addr = 6" "reply_ok hdr fixed" "list_all opt_ok opts"
    "length (hdr @ fixed @ concat (map enc_opt opts) @ [DHCP_END]) \<le> BUFF_SIZE" "length ifname < 16"
    "0 \<le> sint (w_socket w)" "\<forall>a. w_aton w (inet_ntoa a) = Some a" "\<forall>r. 0 \<le> sint (w_ioctl w r)"
  shows "\<exists>c. dhcpmain inet any broadcast w ifname hw_addr [(True, Some (hdr @ fixed @ concat (map enc_opt opts) @ [DHCP_END]))] =
    Inr ([discover_datagram (inet any) (inet broadcast) hw_addr c],
         [SIOCSIFADDR ifname (ip_of (drop 16 fixed)), SIOCSIFNETMASK ifname (wanted OPTION_SUBNET_MASK opts),
          SIOCADDRT (wanted OPTION_ROUTER opts)])"
proof -
  let ?data = "hdr @ fixed @ concat (map enc_opt opts) @ [DHCP_END]"
  obtain z where rec: "received ?data = hdr @ fixed @ concat (map enc_opt opts) @ DHCP_END # z"
    using assms(4) by (simp add: received_def)
  have r: "length hdr = 28" "length fixed = 240" using assms(2) by (simp_all add: reply_ok_def)
  obtain c buffer where build: "build_ip4_udp_pkt inet BUFF_SIZE (discover_bytes hw_addr) (ucast (368 :: s32)) any broadcast 68 67 17 =
      Inr (396, buffer)" "take 396 buffer = discover_datagram (inet any) (inet broadcast) hw_addr c"
    using discover_datagram_built [OF assms(1)] by metis
  have reply: "is_reply (received ?data) = Inr True" unfolding rec by (rule is_reply_ok [OF assms(2)])
  have yi: "load32 44 (received ?data) = Inr (ip_of (drop 16 fixed))"
    unfolding rec using load32_in [of 16 fixed hdr] r by simp
  have opts: "option_loop (drop 28 (received ?data)) 0 conf = Inr (fold apply_opt opts conf)" for conf
    unfolding rec using option_loop_run [OF assms(3), of fixed 0 z conf] r by simp
  show ?thesis
    unfolding dhcpmain_def build_discover_ok [OF assms(1)]
    using build reply yi opts assms(5-8)
    by (intro exI [of _ c]) (auto simp: fold_apply_opt any_ip_def dhcpSetIfAddr_def inet_aton_def Let_def not_less [symmetric])
qed

theorem dhcp_configures_witness:
  "\<exists>c. dhcpmain (\<lambda>_. 0) () () \<lparr>w_socket = 3, w_aton = inv_ntoa, w_ioctl = (\<lambda>_. 0), w_uninit = 0\<rparr> [101] [2, 0, 0, 0, 0, 1]
      [(True, Some (demo_hdr @ demo_fixed @ concat (map enc_opt [(1, [255, 255, 255, 0]), (3, [10, 0, 0, 1])]) @ [DHCP_END]))] =
    Inr ([discover_datagram 0 0 [2, 0, 0, 0, 0, 1] c],
         [SIOCSIFADDR [101] (ip_of [10, 0, 0, 7]), SIOCSIFNETMASK [101] (ip_of [255, 255, 255, 0]), SIOCADDRT (ip_of [10, 0, 0, 1])])"
proof -
  let ?opts = "[(1, [255, 255, 255, 0]), (3, [10, 0, 0, 1])] :: (u8 \<times> u8 list) list"
  have "ip_of (drop 16 demo_fixed) = ip_of [10, 0, 0, 7]" by (simp add: demo_fixed_def ip_of_def)
  moreover have "wanted 1 ?opts = ip_of [255, 255, 255, 0]" "wanted 3 ?opts = ip_of [10, 0, 0, 1]" by (simp_all add: wanted_def)
  moreover have "list_all opt_ok ?opts"
    "length (demo_hdr @ demo_fixed @ concat (map enc_opt ?opts) @ [DHCP_END]) \<le> BUFF_SIZE"
    by (simp_all add: opt_ok_def demo_hdr_def demo_fixed_def BUFF_SIZE_def)
  ultimately show ?thesis
    using dhcp_configures [of "[2, 0, 0, 0, 0, 1]" demo_hdr demo_fixed ?opts "[101]"
        "\<lparr>w_socket = 3, w_aton = inv_ntoa, w_ioctl = (\<lambda>_. 0), w_uninit = 0\<rparr>" "\<lambda>_. 0" "()" "()"]
    by (simp add: inv_ntoa demo_reply_ok)
qed



text \<open>After a datagram that is no DHCP reply, the client jumps back to the send: what it sends the
  second time is not the DISCOVER message but the beginning of the datagram it has just received,
  since the buffer has been overwritten.
\<close>

theorem resends_foreign_datagram:
  assumes "data \<noteq> []" "is_reply (received data) = Inr False"
  shows "receive_loop len buffer [] [(True, Some data), (True, None)] =
    Inr (Exit, [take len buffer, take len (received data)])"
  using assms by simp

theorem resends_foreign_datagram_witness:
  "receive_loop 4 [1, 2, 3, 4, 5] [] [(True, Some [9, 9]), (True, None)] = Inr (Exit, [[1, 2, 3, 4], [9, 9, 0, 0]])"
proof -
  have r: "received [9, 9] = [9, 9] @ replicate 1022 0" by (simp add: received_def BUFF_SIZE_def)
  have "load8 9 (received [9, 9]) = Inr 0" by (simp add: r load8_def nth_Cons_numeral)
  then have "is_reply (received [9, 9]) = Inr False" by (simp add: is_reply_def)
  moreover have "take 4 (received [9, 9]) = [9, 9, 0, 0]"
    unfolding r take_append by (simp add: numeral_2_eq_2)
  ultimately show ?thesis
    using resends_foreign_datagram [of "[9, 9]" 4 "[1, 2, 3, 4, 5]"] by (simp only: take_Cons_numeral) simp
qed

text \<open>The results of \<open>dhcpSetIfAddr\<close>: a failing request for the address or the mask returns with
  the socket still open, and success returns the value of a variable nobody has set.
\<close>

theorem set_if_addr_results:
  assumes "0 \<le> sint (w_socket w)" "length ifname < 16"
  shows "(sint (w_ioctl w (SIOCSIFADDR ifname (snd (inet_aton w ip 0)))) < 0 \<longrightarrow>
      (\<exists>rs. dhcpSetIfAddr w ifname ip netmask gateway = Inr (- 3, rs, False))) \<and>
    ((\<forall>r. 0 \<le> sint (w_ioctl w r)) \<longrightarrow>
      (\<exists>rs. dhcpSetIfAddr w ifname ip netmask gateway = Inr (w_uninit w, rs, True)))"
proof -
  obtain r1 a1 where a1: "inet_aton w ip 0 = (r1, a1)" "\<not> sint r1 < 0" by (cases "w_aton w ip") (auto simp: inet_aton_def)
  obtain r2 a2 where a2: "inet_aton w netmask a1 = (r2, a2)" "\<not> sint r2 < 0" by (cases "w_aton w netmask") (auto simp: inet_aton_def)
  obtain r3 a3 where a3: "inet_aton w gateway 0 = (r3, a3)" by fastforce
  show ?thesis
    using assms a1 a2 a3 by (auto simp: dhcpSetIfAddr_def Let_def simp flip: not_less)
qed

theorem set_if_addr_results_witness:
  "(\<exists>rs. dhcpSetIfAddr \<lparr>w_socket = 3, w_aton = (\<lambda>_. None), w_ioctl = (\<lambda>_. - 1), w_uninit = 77\<rparr> [101] [] [] [] = Inr (- 3, rs, False)) \<and>
   (\<exists>rs. dhcpSetIfAddr \<lparr>w_socket = 3, w_aton = (\<lambda>_. None), w_ioctl = (\<lambda>_. 0), w_uninit = 77\<rparr> [101] [] [] [] = Inr (77, rs, True))"
  using set_if_addr_results [of "\<lparr>w_socket = 3, w_aton = (\<lambda>_. None), w_ioctl = (\<lambda>_. - 1), w_uninit = 77\<rparr>" "[101]" "[]" "[]" "[]"]
    set_if_addr_results [of "\<lparr>w_socket = 3, w_aton = (\<lambda>_. None), w_ioctl = (\<lambda>_. 0), w_uninit = 77\<rparr>" "[101]" "[]" "[]" "[]"]
  by simp

end
