(* ===== verification/Mqtt_Session.thy ===== *)
theory Mqtt_Session
  imports IotCam_Prelude
begin

text \<open>
  The MQTT session (\<open>mqtt/mqtt.c\<close>): the thread that keeps the connection, the callbacks of the client
  library, publishing, and the state they share under \<open>mqttcMutex\<close>. The library is not part of the
  program: whether a connection succeeds and what \<open>MQTTClient_waitForCompletion\<close> returns are
  arguments. The thread and its environment are a step relation on the shared state; the mutex is
  held by at most one party, and a step that needs it waits until it is free.
\<close>

section \<open>Data\<close>

text \<open>The thread's program counter: before the lock at \<open>CONNECT\<close>; in \<open>pthread_cond_wait\<close>; awake
  again, with the lock, at \<open>RECONNECT\<close>; and behind \<open>sleep\<close>, before the unlock.\<close>

datatype thread_pc = At_connect | Waiting_cond | At_reconnect | Before_unlock

text \<open>\<open>client\<close>: whether \<open>mqttclient\<close> is a client that has been created and not destroyed. \<open>signalled\<close> is set when
  the condition has been signalled since the wait began.\<close>

record session =
  pc :: thread_pc
  conn :: u8
  client :: bool
  signalled :: bool
  locked :: bool
  mqttclientid :: "u8 list"

definition init_session :: session where
  "init_session = \<lparr>pc = At_connect, conn = 0, client = False, signalled = False, locked = False,
     mqttclientid = [78, 85, 76, 76]\<rparr>"

section \<open>Names\<close>

text \<open>\<open>snprintf\<close> into an array of \<open>n\<close> characters: at most \<open>n - 1\<close> of the text.\<close>

definition snprintf :: "nat \<Rightarrow> u8 list \<Rightarrow> u8 list" where
  "snprintf n s = take (n - 1) s"

definition set_mqtt_clientid :: "u8 list \<Rightarrow> session \<Rightarrow> session" where
  "set_mqtt_clientid clientid s = s\<lparr>mqttclientid := snprintf 128 clientid\<rparr>"

text \<open>The topics \<open>general/3/<id>/down\<close> and \<open>general/3/<id>/up\<close>.\<close>

definition topic_prefix :: "u8 list" where "topic_prefix = [103, 101, 110, 101, 114, 97, 108, 47, 51, 47]"
definition topic_down :: "session \<Rightarrow> u8 list" where
  "topic_down s = snprintf 512 (topic_prefix @ mqttclientid s @ [47, 100, 111, 119, 110])"
definition topic_up :: "session \<Rightarrow> u8 list" where
  "topic_up s = snprintf 512 (topic_prefix @ mqttclientid s @ [47, 117, 112])"

section \<open>Callbacks and publishing\<close>

definition MQTT_MAX_MSGLEN :: nat where "MQTT_MAX_MSGLEN = 2048"

text \<open>\<open>strstr\<close>: whether the first string contains the second.\<close>

fun strstr :: "u8 list \<Rightarrow> u8 list \<Rightarrow> bool" where
  "strstr [] needle = (needle = [])"
| "strstr (c # cs) needle = (take (length needle) (c # cs) = needle \<or> strstr cs needle)"

text \<open>\<open>msgarrvd\<close>: the message passed to \<open>p2psignal_cb\<close>, if any. The callback gets the array \<open>msg\<close> as a C
  string, so there has to be a zero in it.\<close>

definition msgarrvd :: "session \<Rightarrow> bool \<Rightarrow> u8 list \<Rightarrow> u8 list \<Rightarrow> u8 list option result" where
  "msgarrvd s p2psignal_cb topicName payload =
     (if length payload > MQTT_MAX_MSGLEN then Inl Write_out_of_bounds
      else let msg = payload @ replicate (MQTT_MAX_MSGLEN - length payload) 0 in
      if strstr topicName (mqttclientid s) \<and> p2psignal_cb
      then (if 0 \<in> set msg then Inr (Some (takeWhile (\<lambda>c. c \<noteq> 0) msg)) else Inl Read_out_of_bounds)
      else Inr None)"

definition connlost :: "session \<Rightarrow> session" where
  "connlost s = s\<lparr>conn := 0, signalled := True\<rparr>"

text \<open>\<open>pubmsg\<close> with the lock held: what is published, and the return value. \<open>wait\<close> is the result of
  \<open>MQTTClient_waitForCompletion\<close>.\<close>

definition pubmsg :: "session \<Rightarrow> s32 \<Rightarrow> u8 list \<Rightarrow> (u8 list \<times> u8 list) option \<times> s32" where
  "pubmsg s wait msg = (if conn s = 1 then (Some (topic_up s, msg), wait) else (None, 0))"

section \<open>The thread\<close>

text \<open>From \<open>CONNECT\<close> to the wait or to \<open>RECONNECT\<close>, in one step since the lock is held throughout; the wait
  releases it.\<close>

definition connect_step :: "bool \<Rightarrow> session \<Rightarrow> session" where
  "connect_step connected s =
     (if connected then s\<lparr>client := True, conn := 1, pc := Waiting_cond, signalled := False, locked := False\<rparr>
      else s\<lparr>client := True, conn := 0, pc := At_reconnect, locked := True\<rparr>)"

definition reconnect_step :: "session \<Rightarrow> session" where
  "reconnect_step s = s\<lparr>client := False, pc := Before_unlock\<rparr>"

definition unlock_step :: "session \<Rightarrow> session" where
  "unlock_step s = s\<lparr>locked := False, pc := At_connect\<rparr>"

datatype event = Thread | Lost | Spurious | Published "(u8 list \<times> u8 list) option"

text \<open>One step of the thread or of its environment. \<open>Lost\<close> is \<open>connlost\<close>, which the library calls at any
  time (a call for an earlier client may have waited for the lock); \<open>Spurious\<close> is a return from
  \<open>pthread_cond_wait\<close> without a signal, which POSIX allows; \<open>Published\<close> is a call of \<open>pubmsg\<close> by another
  thread.\<close>

inductive step :: "session \<Rightarrow> event \<Rightarrow> session \<Rightarrow> bool" where
  connect: "pc s = At_connect \<Longrightarrow> \<not> locked s \<Longrightarrow> step s Thread (connect_step connected s)"
| wake: "pc s = Waiting_cond \<Longrightarrow> signalled s \<Longrightarrow> \<not> locked s \<Longrightarrow> step s Thread (s\<lparr>pc := At_reconnect, locked := True\<rparr>)"
| reconnect: "pc s = At_reconnect \<Longrightarrow> step s Thread (reconnect_step s)"
| unlock: "pc s = Before_unlock \<Longrightarrow> step s Thread (unlock_step s)"
| lost: "\<not> locked s \<Longrightarrow> step s Lost (connlost s)"
| spurious: "pc s = Waiting_cond \<Longrightarrow> \<not> signalled s \<Longrightarrow> \<not> locked s \<Longrightarrow>
     step s Spurious (s\<lparr>pc := At_reconnect, locked := True\<rparr>)"
| publish: "\<not> locked s \<Longrightarrow> step s (Published (fst (pubmsg s wait msg))) s"

inductive_cases step_Published: "step s (Published m) s'"
inductive_cases step_Thread: "step s Thread s'"

inductive run :: "session \<Rightarrow> event list \<Rightarrow> session \<Rightarrow> bool" where
  run_Nil: "run s [] s"
| run_snoc: "run s es s' \<Longrightarrow> step s' e s'' \<Longrightarrow> run s (es @ [e]) s''"

section \<open>Invariant\<close>

text \<open>The thread holds the lock exactly between its waking up and its unlock, the client exists while the
  thread waits, and it waits for a connection that is up or has been signalled as lost.\<close>

definition session_ok :: "session \<Rightarrow> bool" where
  "session_ok s \<longleftrightarrow> (locked s \<longleftrightarrow> pc s \<in> {At_reconnect, Before_unlock}) \<and>
     (pc s = Waiting_cond \<longrightarrow> client s \<and> (signalled s \<longleftrightarrow> conn s = 0)) \<and>
     (pc s = At_connect \<or> pc s = Before_unlock \<longrightarrow> \<not> client s) \<and> conn s \<in> {0, 1}"

lemma session_ok_init: "session_ok init_session"
  by (simp add: session_ok_def init_session_def)

lemma session_ok_step:
  assumes "step s e s'" "session_ok s"
  shows "session_ok s'"
  using assms
  by (cases rule: step.cases)
    (auto simp: session_ok_def connect_step_def reconnect_step_def unlock_step_def connlost_def)

lemma session_ok_run: "run s es s' \<Longrightarrow> session_ok s \<Longrightarrow> session_ok s'"
  by (induction rule: run.induct) (auto intro: session_ok_step)

text \<open>The number of steps the thread has made since the last spurious wake-up, when no loss of the
  connection was reported in the meantime.\<close>

definition count_step :: "nat option \<Rightarrow> event \<Rightarrow> nat option" where
  "count_step n e = (case e of Spurious \<Rightarrow> Some 0 | Lost \<Rightarrow> None | Thread \<Rightarrow> map_option Suc n | Published _ \<Rightarrow> n)"

definition since_spurious :: "event list \<Rightarrow> nat option" where
  "since_spurious es = foldl count_step None es"

text \<open>Two of these steps lead from the wake-up to the unlock behind the destroyed client; outside of
  this stretch the connection counts as up only while the thread waits.\<close>

definition spurious_inv :: "nat option \<Rightarrow> session \<Rightarrow> bool" where
  "spurious_inv n s \<longleftrightarrow>
     (if n = Some 0 then pc s = At_reconnect
      else if n = Some 1 then pc s = Before_unlock
      else if n = Some 2 then pc s = At_connect
      else pc s \<noteq> Waiting_cond \<longrightarrow> conn s = 0)"

lemma spurious_inv_step:
  assumes "step s e s'" "session_ok s" "spurious_inv n s"
  shows "spurious_inv (count_step n e) s'"
  using assms
  by (cases rule: step.cases)
    (auto simp: spurious_inv_def count_step_def session_ok_def connect_step_def reconnect_step_def
      unlock_step_def connlost_def split: if_splits)

lemma spurious_inv_run: "run init_session es s \<Longrightarrow> spurious_inv (since_spurious es) s"
proof (induction init_session es s rule: run.induct)
  case run_Nil
  then show ?case by (simp add: spurious_inv_def since_spurious_def init_session_def)
next
  case (run_snoc es s e s')
  then have "session_ok s" using session_ok_run session_ok_init by blast
  then show ?case using spurious_inv_step run_snoc by (simp add: since_spurious_def)
qed

text \<open>Steps of the thread alone, back to a connection.\<close>

lemma run_step: "step s e s' \<Longrightarrow> run s [e] s'"
  using run_snoc [OF run_Nil, of s e s'] by simp

lemma run_append: "run s es s' \<Longrightarrow> run s' es' s'' \<Longrightarrow> run s (es @ es') s''"
  by (rotate_tac 1, induction rule: run.induct) (auto simp: run_snoc simp flip: append_assoc)

text \<open>The session is up: the client is connected and the thread waits for the loss of the connection.\<close>

definition session_up :: "session \<Rightarrow> bool" where
  "session_up s \<longleftrightarrow> conn s = 1 \<and> client s \<and> pc s = Waiting_cond \<and> \<not> signalled s \<and> \<not> locked s"

lemma connect_from_start:
  assumes "session_ok s" "pc s = At_connect"
  shows "\<exists>s'. run s [Thread] s' \<and> session_up s'"
  using assms run_step [OF step.connect [of s True]] by (auto simp: session_ok_def connect_step_def session_up_def)

lemma unlock_then_connect:
  assumes "session_ok s" "pc s = Before_unlock"
  shows "\<exists>s'. run s [Thread, Thread] s' \<and> session_up s'"
proof -
  have st: "step s Thread (unlock_step s)" by (rule step.unlock [OF assms(2)])
  then have "session_ok (unlock_step s)" using session_ok_step assms(1) by blast
  moreover have "pc (unlock_step s) = At_connect" by (simp add: unlock_step_def)
  ultimately show ?thesis using connect_from_start run_append [OF run_step [OF st]] by fastforce
qed

lemma reconnect_then_connect:
  assumes "session_ok s" "pc s = At_reconnect"
  shows "\<exists>s'. run s [Thread, Thread, Thread] s' \<and> session_up s'"
proof -
  have st: "step s Thread (reconnect_step s)" by (rule step.reconnect [OF assms(2)])
  then have "session_ok (reconnect_step s)" using session_ok_step assms(1) by blast
  moreover have "pc (reconnect_step s) = Before_unlock" by (simp add: reconnect_step_def)
  ultimately show ?thesis using unlock_then_connect run_append [OF run_step [OF st]] by fastforce
qed

lemma recovers:
  assumes "session_ok s"
  shows "\<exists>n s'. n \<le> 4 \<and> run s (replicate n Thread) s' \<and> session_up s'"
proof (cases "pc s")
  case At_connect
  then show ?thesis using connect_from_start [OF assms] by (intro exI [of _ 1]) auto
next
  case Before_unlock
  then show ?thesis using unlock_then_connect [OF assms] by (intro exI [of _ 2]) (auto simp: numeral_2_eq_2)
next
  case At_reconnect
  then show ?thesis using reconnect_then_connect [OF assms] by (intro exI [of _ 3]) (auto simp: numeral_3_eq_3)
next
  case w: Waiting_cond
  show ?thesis
  proof (cases "conn s = 1")
    case True
    then have "session_up s" using assms w by (auto simp: session_ok_def session_up_def)
    then show ?thesis using run_Nil by (intro exI [of _ 0]) auto
  next
    case False
    then have sg: "signalled s" "\<not> locked s" using assms w by (auto simp: session_ok_def)
    let ?s = "s\<lparr>pc := At_reconnect, locked := True\<rparr>"
    have st: "step s Thread ?s" using step.wake [OF w sg] .
    then have "session_ok ?s" using session_ok_step assms by blast
    then obtain s' where "run ?s [Thread, Thread, Thread] s'" "session_up s'"
      using reconnect_then_connect by fastforce
    then show ?thesis using run_append [OF run_step [OF st]] by (intro exI [of _ 4]) (auto simp: eval_nat_numeral)
  qed
qed

section \<open>Properties\<close>

text \<open>
  C26. Whatever the order of connections, losses, calls from other threads and spurious returns from
  \<open>pthread_cond_wait\<close>: a message goes to the topic of this device, and the client it is published
  with exists, except in one window, which is described exactly: after a spurious wake-up that no
  reported loss has followed, when the thread has made the two steps that destroy the client and
  release the lock and has not yet connected again.
\<close>

theorem publish_uses_live_client:
  assumes "run init_session es s" "step s (Published (Some (topic, msg))) s'"
  shows "topic = topic_up s \<and> conn s = 1 \<and>
    (if since_spurious es = Some 2 then \<not> client s \<and> pc s = At_connect else client s \<and> pc s = Waiting_cond)"
  using session_ok_run [OF assms(1) session_ok_init] spurious_inv_run [OF assms(1)] assms(2)
  by (auto simp: session_ok_def spurious_inv_def pubmsg_def elim!: step_Published split: if_splits)

theorem publish_uses_live_client_witness:
  "\<exists>s s'. run init_session [Thread] s \<and> step s (Published (Some (topic_up s, [104]))) s' \<and> client s \<and> pc s = Waiting_cond"
proof -
  let ?s = "connect_step True init_session"
  have r: "run init_session [Thread] ?s" by (rule run_step [OF step.connect]) (simp_all add: init_session_def)
  have "fst (pubmsg ?s 0 [104]) = Some (topic_up ?s, [104])" by (simp add: pubmsg_def connect_step_def)
  then have p: "step ?s (Published (Some (topic_up ?s, [104]))) ?s"
    using step.publish [of ?s 0 "[104]"] by (simp add: connect_step_def)
  have "since_spurious [Thread] = None" by (simp add: since_spurious_def count_step_def)
  then show ?thesis using publish_uses_live_client [OF r p] r p by auto
qed

text \<open>
  C27. From every state the session can come to, spurious wake-ups and losses at any time included, the
  thread gets in at most four of its own steps to a connected client with the lock free, when the
  broker accepts the connection; it is never blocked for good.
\<close>

theorem session_recovers:
  assumes "run init_session es s"
  shows "\<exists>n s'. n \<le> 4 \<and> run s (replicate n Thread) s' \<and> session_up s'"
  by (rule recovers [OF session_ok_run [OF assms session_ok_init]])

theorem session_recovers_witness:
  "\<exists>s n s'. run init_session [Thread, Spurious, Thread] s \<and> n \<le> 4 \<and> run s (replicate n Thread) s' \<and> session_up s'"
proof -
  define s1 where "s1 = connect_step True init_session"
  define s2 where "s2 = s1\<lparr>pc := At_reconnect, locked := True\<rparr>"
  have "run init_session [Thread] s1" unfolding s1_def by (rule run_step [OF step.connect]) (simp_all add: init_session_def)
  moreover have "step s1 Spurious s2" unfolding s2_def
    by (rule step.spurious) (simp_all add: s1_def connect_step_def init_session_def)
  moreover have "step s2 Thread (reconnect_step s2)" by (rule step.reconnect) (simp add: s2_def)
  ultimately have "run init_session ([Thread] @ [Spurious] @ [Thread]) (reconnect_step s2)"
    by (intro run_append) (auto intro: run_step)
  then have r: "run init_session [Thread, Spurious, Thread] (reconnect_step s2)" by simp
  show ?thesis using session_recovers [OF r] r by blast
qed

text \<open>The thread does not test its condition again after the wait. A spurious return from
  \<open>pthread_cond_wait\<close> leaves \<open>conn\<close> at 1 while the client is destroyed; a call of \<open>pubmsg\<close> between the
  unlock and the next connection then publishes with a client that no longer exists.
\<close>

theorem spurious_wakeup_publishes:
  "\<exists>s. run init_session [Thread, Spurious, Thread, Thread] s \<and> \<not> client s \<and>
     step s (Published (Some (topic_up s, msg))) s"
proof -
  define s1 where "s1 = connect_step True init_session"
  define s2 where "s2 = s1\<lparr>pc := At_reconnect, locked := True\<rparr>"
  define s3 where "s3 = reconnect_step s2"
  define s4 where "s4 = unlock_step s3"
  note defs = s1_def s2_def s3_def s4_def connect_step_def reconnect_step_def unlock_step_def init_session_def
  have r1: "run init_session [Thread] s1" unfolding s1_def by (rule run_step [OF step.connect]) (simp_all add: init_session_def)
  have "step s1 Spurious s2" unfolding s2_def by (rule step.spurious) (simp_all add: defs)
  moreover have "step s2 Thread s3" unfolding s3_def by (rule step.reconnect) (simp add: defs)
  moreover have "step s3 Thread s4" unfolding s4_def by (rule step.unlock) (simp add: defs)
  ultimately have "run init_session ([Thread] @ [Spurious] @ [Thread] @ [Thread]) s4"
    by (intro run_append [OF r1] run_append [OF run_step]) (auto intro: run_step)
  moreover have "fst (pubmsg s4 0 msg) = Some (topic_up s4, msg)" by (simp add: pubmsg_def defs)
  then have "step s4 (Published (Some (topic_up s4, msg))) s4"
    using step.publish [of s4 0 msg] by (simp add: defs)
  moreover have "\<not> client s4" by (simp add: defs)
  ultimately show ?thesis by (intro exI [of _ s4]) simp
qed

text \<open>A message that arrives: within the array it goes to the callback, cut at its first zero,
  exactly when the topic contains the name of the device; a longer one is copied past the end of
  the array, and one that fills the array without a zero makes the callback read behind it.
\<close>

theorem message_arrival:
  "msgarrvd s cb topicName payload =
     (if MQTT_MAX_MSGLEN < length payload then Inl Write_out_of_bounds
      else if \<not> (strstr topicName (mqttclientid s) \<and> cb) then Inr None
      else if length payload = MQTT_MAX_MSGLEN \<and> 0 \<notin> set payload then Inl Read_out_of_bounds
      else Inr (Some (takeWhile (\<lambda>c. c \<noteq> 0) payload)))"
proof (cases "length payload < MQTT_MAX_MSGLEN")
  case True
  then obtain n where "MQTT_MAX_MSGLEN - length payload = Suc n" by (cases "MQTT_MAX_MSGLEN - length payload") auto
  moreover have "takeWhile (\<lambda>c. c \<noteq> 0) (payload @ 0 # zs) = takeWhile (\<lambda>c. c \<noteq> 0) payload" for zs :: "u8 list"
    by (induction payload) auto
  ultimately show ?thesis using True by (auto simp: msgarrvd_def Let_def)
qed (auto simp: msgarrvd_def Let_def)

end
