(* ===== verification/Json_Data.thy ===== *)
theory Json_Data
  imports IotCam_Prelude
begin

text \<open>
  Data of \<open>JSON/cJSON.c\<close>: the item structure, its types, the type predicates, C strings and the
  operations on floating-point numbers the code uses.

  \<^item> An item without its links to siblings is the record \<open>cnode\<close>; a parsed document is a tree of
    them, \<open>cJSON\<close>, where the chain of children is a list. (Theory \<open>Json_Heap\<close> has the links.)
  \<^item> A C string is its bytes; \<open>cstr\<close> cuts it at the first zero byte, as every reader of it does.
  \<^item> \<open>double\<close> is a type variable, the operations on it a record \<open>flt\<close> that is an argument of the
    definitions: \<open>strtod\<close>, the conversions to \<open>int\<close> and the comparisons with its limits, printing
    with 15 and with 17 digits, scanning, and the test for equality within the precision.
  \<^item> Memory is the number \<open>mem\<close> of allocations that will succeed before one fails; the functions
    modelled here allocate nothing more after the first failure.
\<close>

unbundle bit_operations_syntax

section \<open>Bytes\<close>

abbreviation (input) QUOTE :: u8 where "QUOTE \<equiv> 34"
abbreviation (input) COMMA :: u8 where "COMMA \<equiv> 44"
abbreviation (input) MINUS :: u8 where "MINUS \<equiv> 45"
abbreviation (input) SLASH :: u8 where "SLASH \<equiv> 47"
abbreviation (input) COLON :: u8 where "COLON \<equiv> 58"
abbreviation (input) BACKSLASH :: u8 where "BACKSLASH \<equiv> 92"
abbreviation (input) LBRACKET :: u8 where "LBRACKET \<equiv> 91"
abbreviation (input) RBRACKET :: u8 where "RBRACKET \<equiv> 93"
abbreviation (input) LBRACE :: u8 where "LBRACE \<equiv> 123"
abbreviation (input) RBRACE :: u8 where "RBRACE \<equiv> 125"

text \<open>The literals \<open>null\<close>, \<open>true\<close> and \<open>false\<close>.\<close>

definition NULL_text :: "u8 list" where "NULL_text = [110, 117, 108, 108]"
definition TRUE_text :: "u8 list" where "TRUE_text = [116, 114, 117, 101]"
definition FALSE_text :: "u8 list" where "FALSE_text = [102, 97, 108, 115, 101]"

type_synonym bytes = "u8 list"

definition cstr :: "bytes \<Rightarrow> bytes" where
  "cstr s = takeWhile (\<lambda>c. c \<noteq> 0) s"

definition tolower :: "u8 \<Rightarrow> u8" where
  "tolower c = (if 65 \<le> c \<and> c \<le> 90 then c + 32 else c)"

section \<open>Items\<close>

record 'd cnode =
  c_type :: u32
  c_valuestring :: "bytes option"
  c_valueint :: s32
  c_valuedouble :: 'd
  c_string :: "bytes option"

datatype 'd cJSON = CJSON (c_node: "'d cnode") (c_child: "'d cJSON list")

abbreviation (input) cJSON_Invalid :: u32 where "cJSON_Invalid \<equiv> 0"
abbreviation (input) cJSON_False :: u32 where "cJSON_False \<equiv> 1"
abbreviation (input) cJSON_True :: u32 where "cJSON_True \<equiv> 2"
abbreviation (input) cJSON_NULL :: u32 where "cJSON_NULL \<equiv> 4"
abbreviation (input) cJSON_Number :: u32 where "cJSON_Number \<equiv> 8"
abbreviation (input) cJSON_String :: u32 where "cJSON_String \<equiv> 16"
abbreviation (input) cJSON_Array :: u32 where "cJSON_Array \<equiv> 32"
abbreviation (input) cJSON_Object :: u32 where "cJSON_Object \<equiv> 64"
abbreviation (input) cJSON_Raw :: u32 where "cJSON_Raw \<equiv> 128"
abbreviation (input) cJSON_IsReference :: u32 where "cJSON_IsReference \<equiv> 256"
abbreviation (input) cJSON_StringIsConst :: u32 where "cJSON_StringIsConst \<equiv> 512"

section \<open>Numbers\<close>

record 'd flt =
  f_zero :: 'd
  f_strtod :: "bytes \<Rightarrow> 'd \<times> nat"
  f_ge_int_max :: "'d \<Rightarrow> bool"
  f_le_int_min :: "'d \<Rightarrow> bool"
  f_to_int :: "'d \<Rightarrow> s32"
  f_finite :: "'d \<Rightarrow> bool"
  f_print15 :: "'d \<Rightarrow> bytes"
  f_print17 :: "'d \<Rightarrow> bytes"
  f_scan :: "bytes \<Rightarrow> 'd option"
  f_close :: "'d \<Rightarrow> 'd \<Rightarrow> bool"

definition INT_MAX :: s32 where "INT_MAX = 0x7fffffff"
definition INT_MIN :: s32 where "INT_MIN = 0x80000000"

text \<open>The saturating conversion that \<open>parse_number\<close>, \<open>cJSON_SetNumberHelper\<close> and
  \<open>cJSON_CreateNumber\<close> share.\<close>

definition saturate :: "'d flt \<Rightarrow> 'd \<Rightarrow> s32" where
  "saturate fl number =
     (if f_ge_int_max fl number then INT_MAX
      else if f_le_int_min fl number then INT_MIN
      else f_to_int fl number)"

definition compare_double :: "'d flt \<Rightarrow> 'd \<Rightarrow> 'd \<Rightarrow> bool" where
  "compare_double fl a b = f_close fl a b"

definition cJSON_SetNumberHelper :: "'d flt \<Rightarrow> 'd cnode \<Rightarrow> 'd \<Rightarrow> 'd cnode" where
  "cJSON_SetNumberHelper fl object number =
     object\<lparr>c_valueint := saturate fl number, c_valuedouble := number\<rparr>"

text \<open>\<open>cJSON_New_Item\<close>: the structure cleared by \<open>memset\<close>.\<close>

definition new_node :: "'d flt \<Rightarrow> 'd cnode" where
  "new_node fl = \<lparr>c_type = cJSON_Invalid, c_valuestring = None, c_valueint = 0,
     c_valuedouble = f_zero fl, c_string = None\<rparr>"

section \<open>Allocation hooks\<close>

text \<open>The functions of the C library or others that the application installs; only which one it is
  matters. \<open>hk_reallocate\<close> says whether there is a \<open>realloc\<close>.\<close>

datatype alloc_fn = Libc_fn | User_fn nat

record cJSON_Hooks =
  malloc_fn :: "alloc_fn option"
  free_fn :: "alloc_fn option"

record internal_hooks =
  hk_allocate :: alloc_fn
  hk_deallocate :: alloc_fn
  hk_reallocate :: bool

definition global_hooks :: internal_hooks where
  "global_hooks = \<lparr>hk_allocate = Libc_fn, hk_deallocate = Libc_fn, hk_reallocate = True\<rparr>"

definition cJSON_InitHooks :: "cJSON_Hooks option \<Rightarrow> internal_hooks" where
  "cJSON_InitHooks hooks =
     (case hooks of
        None \<Rightarrow> \<lparr>hk_allocate = Libc_fn, hk_deallocate = Libc_fn, hk_reallocate = True\<rparr>
      | Some hk \<Rightarrow>
          let a = (case malloc_fn hk of None \<Rightarrow> Libc_fn | Some f \<Rightarrow> f);
              d = (case free_fn hk of None \<Rightarrow> Libc_fn | Some f \<Rightarrow> f)
          in \<lparr>hk_allocate = a, hk_deallocate = d, hk_reallocate = (a = Libc_fn \<and> d = Libc_fn)\<rparr>)"

text \<open>A block is never grown by the C library's \<open>realloc\<close> when it came from another allocator.\<close>

lemma realloc_only_for_libc:
  "hk_reallocate (cJSON_InitHooks hooks) \<longleftrightarrow>
     hk_allocate (cJSON_InitHooks hooks) = Libc_fn \<and> hk_deallocate (cJSON_InitHooks hooks) = Libc_fn"
  by (auto simp: cJSON_InitHooks_def Let_def split: option.splits)

section \<open>Predicates\<close>

text \<open>The argument \<open>None\<close> is the null pointer.\<close>

definition type_is :: "u32 \<Rightarrow> 'd cnode option \<Rightarrow> bool" where
  "type_is t item = (case item of None \<Rightarrow> False | Some n \<Rightarrow> c_type n AND 0xFF = t)"

definition cJSON_IsInvalid :: "'d cnode option \<Rightarrow> bool" where "cJSON_IsInvalid = type_is cJSON_Invalid"
definition cJSON_IsFalse :: "'d cnode option \<Rightarrow> bool" where "cJSON_IsFalse = type_is cJSON_False"
definition cJSON_IsTrue :: "'d cnode option \<Rightarrow> bool" where "cJSON_IsTrue = type_is cJSON_True"

definition cJSON_IsBool :: "'d cnode option \<Rightarrow> bool" where
  "cJSON_IsBool item =
     (case item of None \<Rightarrow> False | Some n \<Rightarrow> c_type n AND (cJSON_True OR cJSON_False) \<noteq> 0)"

definition cJSON_IsNull :: "'d cnode option \<Rightarrow> bool" where "cJSON_IsNull = type_is cJSON_NULL"
definition cJSON_IsNumber :: "'d cnode option \<Rightarrow> bool" where "cJSON_IsNumber = type_is cJSON_Number"
definition cJSON_IsString :: "'d cnode option \<Rightarrow> bool" where "cJSON_IsString = type_is cJSON_String"
definition cJSON_IsArray :: "'d cnode option \<Rightarrow> bool" where "cJSON_IsArray = type_is cJSON_Array"
definition cJSON_IsObject :: "'d cnode option \<Rightarrow> bool" where "cJSON_IsObject = type_is cJSON_Object"
definition cJSON_IsRaw :: "'d cnode option \<Rightarrow> bool" where "cJSON_IsRaw = type_is cJSON_Raw"

definition cJSON_GetStringValue :: "'d cnode option \<Rightarrow> bytes option" where
  "cJSON_GetStringValue item =
     (if \<not> cJSON_IsString item then None else c_valuestring (the item))"

text \<open>\<open>case_insensitive_strcmp\<close> as its callers use it: whether it returns 0. The two strings are
  different objects or equal, so the test on the pointers changes nothing.\<close>

fun ci_equal :: "bytes \<Rightarrow> bytes \<Rightarrow> bool" where
  "ci_equal [] [] = True"
| "ci_equal (a # as) (b # bs) = (tolower a = tolower b \<and> ci_equal as bs)"
| "ci_equal _ _ = False"

definition case_insensitive_strcmp :: "bytes option \<Rightarrow> bytes option \<Rightarrow> bool" where
  "case_insensitive_strcmp string1 string2 =
     (case (string1, string2) of
        (Some a, Some b) \<Rightarrow> ci_equal (cstr a) (cstr b)
      | _ \<Rightarrow> False)"

lemma ci_equal_map: "ci_equal as bs \<longleftrightarrow> map tolower as = map tolower bs"
  by (induction as bs rule: ci_equal.induct) auto

lemma ci_equal_refl [simp]: "ci_equal as as"
  by (simp add: ci_equal_map)

end
