(* ===== verification/Json_Parse.thy ===== *)
theory Json_Parse
  imports Json_Data
begin

text \<open>
  The parser of \<open>JSON/cJSON.c\<close>. A parse buffer is the bytes of the text with its terminating zero,
  the offset, the nesting depth and the memory left. Every read goes through \<open>read_at\<close>, which faults
  outside the buffer; the output of a string faults when it does not fit what was allocated.
  The recursion \<open>parse_value\<close>, \<open>parse_array\<close>, \<open>parse_object\<close> has fuel; \<open>None\<close> is running out of it.
\<close>

unbundle bit_operations_syntax

section \<open>The parse buffer\<close>

record parse_buffer =
  pb_content :: bytes
  pb_offset :: nat
  pb_depth :: nat
  pb_mem :: nat

definition can_read :: "parse_buffer \<Rightarrow> nat \<Rightarrow> bool" where
  "can_read buffer n \<longleftrightarrow> pb_offset buffer + n \<le> length (pb_content buffer)"

definition can_access_at_index :: "parse_buffer \<Rightarrow> nat \<Rightarrow> bool" where
  "can_access_at_index buffer index \<longleftrightarrow> pb_offset buffer + index < length (pb_content buffer)"

definition buffer_at_offset :: "parse_buffer \<Rightarrow> bytes" where
  "buffer_at_offset buffer = drop (pb_offset buffer) (pb_content buffer)"

definition read_at :: "bytes \<Rightarrow> nat \<Rightarrow> u8 result" where
  "read_at bs i = (if i < length bs then Inr (bs ! i) else Inl Read_out_of_bounds)"

text \<open>\<open>can_access_at_index(buffer, 0) && buffer_at_offset(buffer)[0] == c\<close>.\<close>

definition looking_at :: "parse_buffer \<Rightarrow> u8 \<Rightarrow> bool" where
  "looking_at buffer c \<longleftrightarrow> can_access_at_index buffer 0 \<and> pb_content buffer ! pb_offset buffer = c"

definition buffer_skip_whitespace :: "parse_buffer \<Rightarrow> parse_buffer" where
  "buffer_skip_whitespace buffer =
     (let offset = pb_offset buffer + length (takeWhile (\<lambda>c. c \<le> 32) (buffer_at_offset buffer));
          offset = (if offset = length (pb_content buffer) then offset - 1 else offset)
      in buffer\<lparr>pb_offset := offset\<rparr>)"

definition skip_utf8_bom :: "parse_buffer \<Rightarrow> parse_buffer" where
  "skip_utf8_bom buffer =
     (if can_access_at_index buffer 4 \<and> take 3 (buffer_at_offset buffer) = [0xEF, 0xBB, 0xBF]
      then buffer\<lparr>pb_offset := pb_offset buffer + 3\<rparr> else buffer)"

section \<open>Numbers\<close>

definition is_number_char :: "u8 \<Rightarrow> bool" where
  "is_number_char c \<longleftrightarrow> 48 \<le> c \<and> c \<le> 57 \<or> c = 43 \<or> c = MINUS \<or> c = 101 \<or> c = 69 \<or> c = 46"

text \<open>The loop copies at most 63 characters; the decimal point is \<open>.\<close> already.\<close>

definition number_c_string :: "parse_buffer \<Rightarrow> bytes" where
  "number_c_string input_buffer = takeWhile is_number_char (take 63 (buffer_at_offset input_buffer))"

definition parse_number ::
  "'d flt \<Rightarrow> 'd cnode \<Rightarrow> parse_buffer \<Rightarrow> bool \<times> 'd cnode \<times> parse_buffer" where
  "parse_number fl item input_buffer =
     (let (number, after_end) = f_strtod fl (number_c_string input_buffer) in
      if after_end = 0 then (False, item, input_buffer)
      else (True,
            item\<lparr>c_valuedouble := number, c_valueint := saturate fl number, c_type := cJSON_Number\<rparr>,
            input_buffer\<lparr>pb_offset := pb_offset input_buffer + after_end\<rparr>))"

section \<open>Strings\<close>

definition hex_digit :: "u8 \<Rightarrow> u32 option" where
  "hex_digit c =
     (if 48 \<le> c \<and> c \<le> 57 then Some (ucast c - 48)
      else if 65 \<le> c \<and> c \<le> 70 then Some (10 + ucast c - 65)
      else if 97 \<le> c \<and> c \<le> 102 then Some (10 + ucast c - 97)
      else None)"

text \<open>The loop of \<open>parse_hex4\<close> with \<open>n\<close> digits to go; an invalid digit makes the result 0.\<close>

fun hex_loop :: "nat \<Rightarrow> u32 \<Rightarrow> bytes \<Rightarrow> u32 result" where
  "hex_loop 0 h input = Inr h"
| "hex_loop (Suc n) h [] = Inl Read_out_of_bounds"
| "hex_loop (Suc n) h (c # input) =
     (case hex_digit c of
        None \<Rightarrow> Inr 0
      | Some d \<Rightarrow> hex_loop n (if n > 0 then push_bit 4 (h + d) else h + d) input)"

definition parse_hex4 :: "bytes \<Rightarrow> u32 result" where
  "parse_hex4 input = hex_loop 4 0 input"

text \<open>The loop that fills the continuation bytes from the last to the second; what is left of the
  code point goes into the first byte.\<close>

fun utf8_tail :: "nat \<Rightarrow> u32 \<Rightarrow> bytes \<Rightarrow> u32 \<times> bytes" where
  "utf8_tail 0 codepoint out = (codepoint, out)"
| "utf8_tail (Suc utf8_position) codepoint out =
     utf8_tail utf8_position (drop_bit 6 codepoint) (ucast ((codepoint OR 0x80) AND 0xBF) # out)"

definition utf8_encode :: "u32 \<Rightarrow> bytes option" where
  "utf8_encode codepoint =
     (if codepoint < 0x80 then Some [ucast (codepoint AND 0x7F)]
      else let encode = (\<lambda>utf8_length first_byte_mark.
                 let (rest, out) = utf8_tail (utf8_length - 1) codepoint []
                 in Some (ucast ((rest OR first_byte_mark) AND 0xFF) # out))
           in if codepoint < 0x800 then encode 2 0xC0
              else if codepoint < 0x10000 then encode 3 0xE0
              else if codepoint \<le> 0x10FFFF then encode 4 0xF0
              else None)"

text \<open>\<open>utf16_literal_to_utf8\<close>: \<open>input\<close> is the bytes from \<open>input_pointer\<close> up to \<open>input_end\<close>; the result is the
  sequence length, 0 for failure, and the bytes written.\<close>

definition utf16_literal_to_utf8 :: "bytes \<Rightarrow> (nat \<times> bytes) result" where
  "utf16_literal_to_utf8 input =
     (if length input < 6 then Inr (0, [])
      else bind_result (parse_hex4 (drop 2 input)) (\<lambda>first_code.
      if 0xDC00 \<le> first_code \<and> first_code \<le> 0xDFFF then Inr (0, [])
      else
      bind_result
        (if 0xD800 \<le> first_code \<and> first_code \<le> 0xDBFF then
           let second_sequence = drop 6 input in
           if length second_sequence < 6 then Inr (0, 0)
           else if second_sequence ! 0 \<noteq> BACKSLASH \<or> second_sequence ! 1 \<noteq> 117 then Inr (0, 0)
           else bind_result (parse_hex4 (drop 2 second_sequence)) (\<lambda>second_code.
             if second_code < 0xDC00 \<or> second_code > 0xDFFF then Inr (0, 0)
             else Inr (12, 0x10000 + (push_bit 10 (first_code AND 0x3FF) OR (second_code AND 0x3FF))))
         else Inr (6, first_code)) (\<lambda>(sequence_length, codepoint).
      if sequence_length = 0 then Inr (0, [])
      else case utf8_encode codepoint of
        None \<Rightarrow> Inr (0, [])
      | Some out \<Rightarrow> Inr (sequence_length, out))))"

text \<open>The search for the end of the string: the number of bytes up to the closing quote and of
  backslashes skipped, or \<open>None\<close> when the text ends before.\<close>

fun string_end :: "bytes \<Rightarrow> nat \<Rightarrow> nat \<Rightarrow> (nat \<times> nat) option" where
  "string_end [] n skipped_bytes = None"
| "string_end (c # cs) n skipped_bytes =
     (if c = QUOTE then Some (n, skipped_bytes)
      else if c = BACKSLASH then
        (case cs of [] \<Rightarrow> None | _ # cs' \<Rightarrow> string_end cs' (n + 2) (skipped_bytes + 1))
      else string_end cs (n + 1) skipped_bytes)"

text \<open>The one-character escapes.\<close>

definition simple_escape :: "u8 \<Rightarrow> u8 option" where
  "simple_escape c =
     (if c = 98 then Some 8 else if c = 102 then Some 12 else if c = 110 then Some 10
      else if c = 114 then Some 13 else if c = 116 then Some 9
      else if c = QUOTE \<or> c = BACKSLASH \<or> c = SLASH then Some c
      else None)"

text \<open>The loop over the literal: \<open>p\<close> is \<open>input_pointer\<close>, \<open>e\<close> is \<open>input_end\<close>. The result is whether it
  succeeded, where \<open>input_pointer\<close> stands and the output.\<close>

function unescape :: "bytes \<Rightarrow> nat \<Rightarrow> nat \<Rightarrow> bytes \<Rightarrow> (bool \<times> nat \<times> bytes) result" where
  "unescape content e p out =
     (if p < e then
        bind_result (read_at content p) (\<lambda>c.
        if c \<noteq> BACKSLASH then unescape content e (p + 1) (out @ [c])
        else bind_result (read_at content (p + 1)) (\<lambda>d.
          case simple_escape d of
            Some x \<Rightarrow> unescape content e (p + 2) (out @ [x])
          | None \<Rightarrow>
              if d = 117 then
                bind_result (utf16_literal_to_utf8 (take (e - p) (drop p content))) (\<lambda>(sequence_length, bs).
                if sequence_length = 0 then Inr (False, p, out)
                else unescape content e (p + sequence_length) (out @ bs))
              else Inr (False, p, out)))
      else Inr (True, p, out))"
  by pat_completeness auto
termination
  by (relation "measure (\<lambda>(content, e, p, out). e - p)") auto

declare unescape.simps [simp del]

definition parse_string ::
  "'d cnode \<Rightarrow> parse_buffer \<Rightarrow> (bool \<times> 'd cnode \<times> parse_buffer) result" where
  "parse_string item input_buffer =
     (let content = pb_content input_buffer; start = pb_offset input_buffer + 1 in
      bind_result (read_at content (pb_offset input_buffer)) (\<lambda>c.
      if c \<noteq> QUOTE then Inr (False, item, input_buffer\<lparr>pb_offset := start\<rparr>)
      else case string_end (drop start content) 0 0 of
        None \<Rightarrow> Inr (False, item, input_buffer\<lparr>pb_offset := start\<rparr>)
      | Some (n, skipped_bytes) \<Rightarrow>
          let input_end = start + n;
              allocation_length = (input_end - pb_offset input_buffer) - skipped_bytes in
          if pb_mem input_buffer = 0 then Inr (False, item, input_buffer\<lparr>pb_offset := start\<rparr>)
          else let input_buffer = input_buffer\<lparr>pb_mem := pb_mem input_buffer - 1\<rparr> in
          bind_result (unescape content input_end start []) (\<lambda>(ok, input_pointer, output).
          if length output + (if ok then 1 else 0) > allocation_length + 1 then Inl Write_out_of_bounds
          else if ok
          then Inr (True, item\<lparr>c_type := cJSON_String, c_valuestring := Some output\<rparr>,
                    input_buffer\<lparr>pb_offset := input_end + 1\<rparr>)
          else Inr (False, item, input_buffer\<lparr>pb_offset := input_pointer\<rparr>))))"

section \<open>Values\<close>

definition CJSON_NESTING_LIMIT :: nat where "CJSON_NESTING_LIMIT = 1000"

text \<open>\<open>bind\<close> for results with fuel.\<close>

definition bind_run :: "'a result option \<Rightarrow> ('a \<Rightarrow> 'b result option) \<Rightarrow> 'b result option" where
  "bind_run r f = (case r of None \<Rightarrow> None | Some (Inl e) \<Rightarrow> Some (Inl e) | Some (Inr x) \<Rightarrow> f x)"

lemma bind_run_simps [simp]:
  "bind_run None f = None" "bind_run (Some (Inl e)) f = Some (Inl e)" "bind_run (Some (Inr x)) f = f x"
  by (simp_all add: bind_run_def)

lemma bind_run_cong [fundef_cong]:
  assumes "r = r'" and "\<And>x. r' = Some (Inr x) \<Longrightarrow> f x = f' x"
  shows "bind_run r f = bind_run r' f'"
  using assms by (auto simp: bind_run_def split: option.splits sum.splits)

text \<open>Every function returns whether it succeeded, the item as far as it was filled in, and the
  buffer. \<open>parse_array\<close> and \<open>parse_object\<close> call back \<open>parse_value\<close>, their argument \<open>pv\<close>; the list of
  children built so far is the argument \<open>head\<close> of the two loops.\<close>

type_synonym 'd parser = "'d cnode \<Rightarrow> parse_buffer \<Rightarrow> (bool \<times> 'd cJSON \<times> parse_buffer) result option"

primrec array_loop :: "nat \<Rightarrow> 'd parser \<Rightarrow> 'd flt \<Rightarrow> 'd cJSON list \<Rightarrow> parse_buffer \<Rightarrow>
    (bool \<times> 'd cJSON list \<times> parse_buffer) result option" where
  "array_loop 0 pv fl head b = None"
| "array_loop (Suc fuel) pv fl head b =
     (if pb_mem b = 0 then Some (Inr (False, head, b))
      else let b = b\<lparr>pb_mem := pb_mem b - 1\<rparr>;
               b = buffer_skip_whitespace (b\<lparr>pb_offset := pb_offset b + 1\<rparr>) in
      bind_run (pv (new_node fl) b) (\<lambda>(ok, current_item, b).
      if \<not> ok then Some (Inr (False, head, b))
      else let b = buffer_skip_whitespace b; head = head @ [current_item] in
      if looking_at b COMMA then array_loop fuel pv fl head b
      else Some (Inr (True, head, b))))"

definition parse_array :: "nat \<Rightarrow> 'd parser \<Rightarrow> 'd flt \<Rightarrow> 'd parser" where
  "parse_array fuel pv fl item b =
     (if pb_depth b \<ge> CJSON_NESTING_LIMIT then Some (Inr (False, CJSON item [], b))
      else let b = b\<lparr>pb_depth := pb_depth b + 1\<rparr> in
      bind_run (Some (read_at (pb_content b) (pb_offset b))) (\<lambda>c.
      if c \<noteq> LBRACKET then Some (Inr (False, CJSON item [], b))
      else let b = buffer_skip_whitespace (b\<lparr>pb_offset := pb_offset b + 1\<rparr>) in
      if looking_at b RBRACKET then
        Some (Inr (True, CJSON (item\<lparr>c_type := cJSON_Array\<rparr>) [],
                   b\<lparr>pb_depth := pb_depth b - 1, pb_offset := pb_offset b + 1\<rparr>))
      else if \<not> can_access_at_index b 0 then
        Some (Inr (False, CJSON item [], b\<lparr>pb_offset := pb_offset b - 1\<rparr>))
      else bind_run (array_loop fuel pv fl [] (b\<lparr>pb_offset := pb_offset b - 1\<rparr>)) (\<lambda>(ok, head, b).
      if ok \<and> looking_at b RBRACKET
      then Some (Inr (True, CJSON (item\<lparr>c_type := cJSON_Array\<rparr>) head,
                      b\<lparr>pb_depth := pb_depth b - 1, pb_offset := pb_offset b + 1\<rparr>))
      else Some (Inr (False, CJSON item [], b)))))"

primrec object_loop :: "nat \<Rightarrow> 'd parser \<Rightarrow> 'd flt \<Rightarrow> 'd cJSON list \<Rightarrow> parse_buffer \<Rightarrow>
    (bool \<times> 'd cJSON list \<times> parse_buffer) result option" where
  "object_loop 0 pv fl head b = None"
| "object_loop (Suc fuel) pv fl head b =
     (if pb_mem b = 0 then Some (Inr (False, head, b))
      else let b = b\<lparr>pb_mem := pb_mem b - 1\<rparr>;
               b = buffer_skip_whitespace (b\<lparr>pb_offset := pb_offset b + 1\<rparr>) in
      bind_run (Some (parse_string (new_node fl) b)) (\<lambda>(ok, current_item, b).
      if \<not> ok then Some (Inr (False, head, b))
      else let b = buffer_skip_whitespace b;
               current_item = current_item\<lparr>c_string := c_valuestring current_item, c_valuestring := None\<rparr> in
      if \<not> looking_at b COLON then Some (Inr (False, head, b))
      else let b = buffer_skip_whitespace (b\<lparr>pb_offset := pb_offset b + 1\<rparr>) in
      bind_run (pv current_item b) (\<lambda>(ok, current_item, b).
      if \<not> ok then Some (Inr (False, head, b))
      else let b = buffer_skip_whitespace b; head = head @ [current_item] in
      if looking_at b COMMA then object_loop fuel pv fl head b
      else Some (Inr (True, head, b)))))"

definition parse_object :: "nat \<Rightarrow> 'd parser \<Rightarrow> 'd flt \<Rightarrow> 'd parser" where
  "parse_object fuel pv fl item b =
     (if pb_depth b \<ge> CJSON_NESTING_LIMIT then Some (Inr (False, CJSON item [], b))
      else let b = b\<lparr>pb_depth := pb_depth b + 1\<rparr> in
      if \<not> looking_at b LBRACE then Some (Inr (False, CJSON item [], b))
      else let b = buffer_skip_whitespace (b\<lparr>pb_offset := pb_offset b + 1\<rparr>) in
      if looking_at b RBRACE then
        Some (Inr (True, CJSON (item\<lparr>c_type := cJSON_Object\<rparr>) [],
                   b\<lparr>pb_depth := pb_depth b - 1, pb_offset := pb_offset b + 1\<rparr>))
      else if \<not> can_access_at_index b 0 then
        Some (Inr (False, CJSON item [], b\<lparr>pb_offset := pb_offset b - 1\<rparr>))
      else bind_run (object_loop fuel pv fl [] (b\<lparr>pb_offset := pb_offset b - 1\<rparr>)) (\<lambda>(ok, head, b).
      if ok \<and> looking_at b RBRACE
      then Some (Inr (True, CJSON (item\<lparr>c_type := cJSON_Object\<rparr>) head,
                      b\<lparr>pb_depth := pb_depth b - 1, pb_offset := pb_offset b + 1\<rparr>))
      else Some (Inr (False, CJSON item [], b))))"

primrec parse_value :: "nat \<Rightarrow> 'd flt \<Rightarrow> 'd parser" where
  "parse_value 0 fl = (\<lambda>item b. None)"
| "parse_value (Suc fuel) fl = (\<lambda>item b.
     if can_read b 4 \<and> take 4 (buffer_at_offset b) = NULL_text then
       Some (Inr (True, CJSON (item\<lparr>c_type := cJSON_NULL\<rparr>) [], b\<lparr>pb_offset := pb_offset b + 4\<rparr>))
     else if can_read b 5 \<and> take 5 (buffer_at_offset b) = FALSE_text then
       Some (Inr (True, CJSON (item\<lparr>c_type := cJSON_False\<rparr>) [], b\<lparr>pb_offset := pb_offset b + 5\<rparr>))
     else if can_read b 4 \<and> take 4 (buffer_at_offset b) = TRUE_text then
       Some (Inr (True, CJSON (item\<lparr>c_type := cJSON_True, c_valueint := 1\<rparr>) [],
                  b\<lparr>pb_offset := pb_offset b + 4\<rparr>))
     else if looking_at b QUOTE then
       Some (bind_result (parse_string item b) (\<lambda>(ok, item, b). Inr (ok, CJSON item [], b)))
     else if can_access_at_index b 0 \<and>
         (pb_content b ! pb_offset b = MINUS \<or>
          48 \<le> pb_content b ! pb_offset b \<and> pb_content b ! pb_offset b \<le> 57) then
       (let (ok, item, b) = parse_number fl item b in Some (Inr (ok, CJSON item [], b)))
     else if looking_at b LBRACKET then parse_array fuel (parse_value fuel fl) fl item b
     else if looking_at b LBRACE then parse_object fuel (parse_value fuel fl) fl item b
     else Some (Inr (False, CJSON item [], b)))"

section \<open>The entry points\<close>

text \<open>The result: the document, the position stored in \<open>*return_parse_end\<close>, and the position of the
  global error, if it is set.\<close>

record 'd parsed =
  p_item :: "'d cJSON option"
  p_end :: nat
  p_error :: "nat option"

definition parse_failed :: "parse_buffer \<Rightarrow> 'd parsed" where
  "parse_failed buffer =
     (let position = (if pb_offset buffer < length (pb_content buffer) then pb_offset buffer
                      else if length (pb_content buffer) > 0 then length (pb_content buffer) - 1
                      else 0)
      in \<lparr>p_item = None, p_end = position, p_error = Some position\<rparr>)"

definition cJSON_ParseWithOpts ::
  "nat \<Rightarrow> 'd flt \<Rightarrow> nat \<Rightarrow> bytes option \<Rightarrow> bool \<Rightarrow> 'd parsed result option" where
  "cJSON_ParseWithOpts fuel fl mem value require_null_terminated =
     (case value of
        None \<Rightarrow> Some (Inr \<lparr>p_item = None, p_end = 0, p_error = None\<rparr>)
      | Some v \<Rightarrow>
          let buffer = \<lparr>pb_content = cstr v @ [0], pb_offset = 0, pb_depth = 0, pb_mem = mem\<rparr> in
          if mem = 0 then Some (Inr (parse_failed buffer))
          else
          bind_run (parse_value fuel fl (new_node fl)
              (buffer_skip_whitespace (skip_utf8_bom (buffer\<lparr>pb_mem := mem - 1\<rparr>)))) (\<lambda>(ok, item, buffer).
          if \<not> ok then Some (Inr (parse_failed buffer))
          else if require_null_terminated then
            let buffer = buffer_skip_whitespace buffer in
            if \<not> looking_at buffer 0 then Some (Inr (parse_failed buffer))
            else Some (Inr \<lparr>p_item = Some item, p_end = pb_offset buffer, p_error = None\<rparr>)
          else Some (Inr \<lparr>p_item = Some item, p_end = pb_offset buffer, p_error = None\<rparr>)))"

definition cJSON_Parse :: "nat \<Rightarrow> 'd flt \<Rightarrow> nat \<Rightarrow> bytes option \<Rightarrow> 'd parsed result option" where
  "cJSON_Parse fuel fl mem value = cJSON_ParseWithOpts fuel fl mem value False"

end
