(* ===== verification/Json_Print.thy ===== *)
theory Json_Print
  imports Json_Parse
begin

text \<open>
  The printer of \<open>JSON/cJSON.c\<close>. The print buffer is the bytes of the allocated block, \<open>None\<close> for the null
  pointer; bytes nobody has written yet come from \<open>pr_junk\<close>. Every write goes through \<open>store_at\<close>, which
  faults outside the block, and \<open>update_offset\<close> faults when there is no terminating zero to find.
  Sizes in the buffer are natural numbers: the offset is below the length of the block, which is at most
  \<open>INT_MAX\<close>, and so is what \<open>ensure\<close> accepts, so no sum of them reaches \<open>2 ^ 32\<close>. The size of an escaped
  string is computed in \<open>size_t\<close>, which has 32 bits on the target, and wraps around there.
\<close>

section \<open>The print buffer\<close>

record printbuffer =
  pr_buffer :: "bytes option"
  pr_length :: nat
  pr_offset :: nat
  pr_depth :: nat
  pr_noalloc :: bool
  pr_format :: bool
  pr_realloc :: bool
  pr_mem :: nat
  pr_junk :: "nat \<Rightarrow> u8"

definition max_int :: nat where "max_int = 2147483647"

definition junk :: "printbuffer \<Rightarrow> nat \<Rightarrow> nat \<Rightarrow> bytes" where
  "junk p from_index n = map (pr_junk p) [from_index ..< n]"

text \<open>\<open>ensure\<close> returns whether the pointer is not null; the pointer is the buffer at its offset.\<close>

definition ensure :: "printbuffer \<Rightarrow> nat \<Rightarrow> (bool \<times> printbuffer) result" where
  "ensure p needed =
     (case pr_buffer p of
        None \<Rightarrow> Inr (False, p)
      | Some buffer \<Rightarrow>
          if pr_length p > 0 \<and> pr_offset p \<ge> pr_length p then Inr (False, p)
          else if needed > max_int then Inr (False, p)
          else
          let needed = needed + pr_offset p + 1 in
          if needed \<le> pr_length p then Inr (True, p)
          else if pr_noalloc p then Inr (False, p)
          else if needed > max_int div 2 \<and> \<not> needed \<le> max_int then Inr (False, p)
          else
          let newsize = (if needed > max_int div 2 then max_int else needed * 2) in
          if pr_mem p = 0 then Inr (False, p\<lparr>pr_buffer := None, pr_length := 0\<rparr>)
          else if pr_realloc p then
            Inr (True, p\<lparr>pr_mem := pr_mem p - 1, pr_length := newsize,
                        pr_buffer := Some (buffer @ junk p (length buffer) newsize)\<rparr>)
          else bind_result (read_bytes (pr_offset p + 1) buffer) (\<lambda>copied.
            Inr (True, p\<lparr>pr_mem := pr_mem p - 1, pr_length := newsize,
                        pr_buffer := Some (copied @ junk p (pr_offset p + 1) newsize)\<rparr>)))"

definition store_at :: "printbuffer \<Rightarrow> nat \<Rightarrow> bytes \<Rightarrow> printbuffer result" where
  "store_at p i bs =
     (case pr_buffer p of
        None \<Rightarrow> Inl Null_deref
      | Some buffer \<Rightarrow>
          let k = pr_offset p + i in
          if k + length bs \<le> length buffer
          then Inr (p\<lparr>pr_buffer := Some (take k buffer @ bs @ drop (k + length bs) buffer)\<rparr>)
          else Inl Write_out_of_bounds)"

definition update_offset :: "printbuffer \<Rightarrow> printbuffer result" where
  "update_offset p =
     (case pr_buffer p of
        None \<Rightarrow> Inr p
      | Some buffer \<Rightarrow>
          if 0 \<in> set (drop (pr_offset p) buffer)
          then Inr (p\<lparr>pr_offset := pr_offset p + length (cstr (drop (pr_offset p) buffer))\<rparr>)
          else Inl Read_out_of_bounds)"

text \<open>Reserve room, write at the offset and move it; the steps the printing functions repeat.\<close>

definition and_then ::
  "(bool \<times> 'a) result \<Rightarrow> ('a \<Rightarrow> (bool \<times> 'a) result) \<Rightarrow> (bool \<times> 'a) result" where
  "and_then r f = bind_result r (\<lambda>(ok, p). if ok then f p else Inr (False, p))"

definition emit :: "nat \<Rightarrow> bytes \<Rightarrow> nat \<Rightarrow> printbuffer \<Rightarrow> (bool \<times> printbuffer) result" where
  "emit needed bs advance p =
     and_then (ensure p needed) (\<lambda>p.
     bind_result (store_at p 0 bs) (\<lambda>p. Inr (True, p\<lparr>pr_offset := pr_offset p + advance\<rparr>)))"

definition moving_on :: "(bool \<times> printbuffer) result \<Rightarrow> (bool \<times> printbuffer) result" where
  "moving_on r = and_then r (\<lambda>p. bind_result (update_offset p) (\<lambda>p. Inr (True, p)))"

section \<open>Numbers and strings\<close>

definition number_text :: "'d flt \<Rightarrow> 'd \<Rightarrow> bytes" where
  "number_text fl d =
     (if \<not> f_finite fl d then NULL_text
      else let text15 = f_print15 fl d in
      case f_scan fl text15 of
        None \<Rightarrow> f_print17 fl d
      | Some test \<Rightarrow> if compare_double fl test d then text15 else f_print17 fl d)"

text \<open>\<open>number_buffer\<close> has 26 bytes; a longer text would overrun it in \<open>sprintf\<close>, before the check of the
  length. The decimal point is \<open>.\<close> already.\<close>

definition print_number :: "'d flt \<Rightarrow> 'd cnode \<Rightarrow> printbuffer \<Rightarrow> (bool \<times> printbuffer) result" where
  "print_number fl item output_buffer =
     (let text = number_text fl (c_valuedouble item) in
      if length text + 1 > 26 then Inl Write_out_of_bounds
      else emit (length text + 1) (text @ [0]) (length text) output_buffer)"

definition escape_count :: "u8 \<Rightarrow> nat" where
  "escape_count c =
     (if c \<in> {QUOTE, BACKSLASH, 8, 12, 10, 13, 9} then 1 else if c < 32 then 5 else 0)"

definition hex_char :: "u8 \<Rightarrow> u8" where
  "hex_char d = (if d < 10 then 48 + d else 87 + d)"

definition escaped :: "u8 \<Rightarrow> bytes" where
  "escaped c =
     (if c > 31 \<and> c \<noteq> QUOTE \<and> c \<noteq> BACKSLASH then [c]
      else BACKSLASH #
        (if c = BACKSLASH then [BACKSLASH] else if c = QUOTE then [QUOTE]
         else if c = 8 then [98] else if c = 12 then [102] else if c = 10 then [110]
         else if c = 13 then [114] else if c = 9 then [116]
         else [117, 48, 48, hex_char (c div 16), hex_char (c mod 16)]))"

text \<open>The zero that \<open>sprintf\<close> puts behind an escape is overwritten by what follows, the closing quote
  at the latest, and is left out. \<open>size_t\<close> has 32 bits.\<close>

definition to_size :: "nat \<Rightarrow> nat" where
  "to_size n = n mod 4294967296"

definition print_string_ptr :: "bytes option \<Rightarrow> printbuffer \<Rightarrow> (bool \<times> printbuffer) result" where
  "print_string_ptr input output_buffer =
     (case input of
        None \<Rightarrow> emit 3 [QUOTE, QUOTE, 0] 0 output_buffer
      | Some s \<Rightarrow>
          let input = cstr s;
              escape_characters = to_size (sum_list (map escape_count input));
              output_length = to_size (length input + escape_characters) in
          and_then (ensure output_buffer (to_size (output_length + 3))) (\<lambda>p.
          if escape_characters = 0
          then bind_result (store_at p 0 (QUOTE # take output_length input @ [QUOTE, 0])) (\<lambda>p. Inr (True, p))
          else bind_result (store_at p 0 (QUOTE # concat (map escaped input))) (\<lambda>p.
               bind_result (store_at p (output_length + 1) [QUOTE, 0]) (\<lambda>p. Inr (True, p)))))"

definition print_string :: "'d cnode \<Rightarrow> printbuffer \<Rightarrow> (bool \<times> printbuffer) result" where
  "print_string item p = print_string_ptr (c_valuestring item) p"

section \<open>Values\<close>

type_synonym printer = "printbuffer \<Rightarrow> (bool \<times> printbuffer) result"

definition deeper :: "printbuffer \<Rightarrow> printbuffer" where
  "deeper p = p\<lparr>pr_depth := pr_depth p + 1\<rparr>"

definition shallower :: "printbuffer \<Rightarrow> printbuffer" where
  "shallower p = p\<lparr>pr_depth := pr_depth p - 1\<rparr>"

text \<open>The loop over the elements, given by their printers.\<close>

primrec array_elements :: "printer list \<Rightarrow> printer" where
  "array_elements [] = (\<lambda>p. Inr (True, p))"
| "array_elements (pv # pvs) = (\<lambda>p.
     and_then (moving_on (pv p)) (\<lambda>p.
     and_then
       (if pvs \<noteq> [] then
          let separator = (if pr_format p then [COMMA, 32] else [COMMA])
          in emit (length separator + 1) (separator @ [0]) (length separator) p
        else Inr (True, p))
       (array_elements pvs)))"

definition print_array :: "printer list \<Rightarrow> printer" where
  "print_array elements output_buffer =
     and_then (emit 1 [LBRACKET] 1 output_buffer) (\<lambda>p.
     and_then (array_elements elements (deeper p)) (\<lambda>p.
     and_then (emit 2 [RBRACKET, 0] 0 p) (\<lambda>p. Inr (True, shallower p))))"

text \<open>The loop over the members, given by their names and printers.\<close>

primrec object_members :: "(bytes option \<times> printer) list \<Rightarrow> printer" where
  "object_members [] = (\<lambda>p. Inr (True, p))"
| "object_members (kv # kvs) = (\<lambda>p.
     and_then
       (if pr_format p then emit (pr_depth p) (replicate (pr_depth p) 9) (pr_depth p) p else Inr (True, p))
       (\<lambda>p.
     and_then (moving_on (print_string_ptr (fst kv) p)) (\<lambda>p.
     and_then (let colon = (if pr_format p then [COLON, 9] else [COLON])
               in emit (length colon) colon (length colon) p) (\<lambda>p.
     and_then (moving_on (snd kv p)) (\<lambda>p.
     and_then (let comma = (if kvs \<noteq> [] then [COMMA] else []) @ (if pr_format p then [10] else [])
               in emit (length comma + 1) (comma @ [0]) (length comma) p)
       (object_members kvs))))))"

definition print_object :: "(bytes option \<times> printer) list \<Rightarrow> printer" where
  "print_object members output_buffer =
     and_then (let open_text = (if pr_format output_buffer then [LBRACE, 10] else [LBRACE])
               in emit (length open_text + 1) open_text (length open_text) output_buffer) (\<lambda>p.
     and_then (object_members members (deeper p)) (\<lambda>p.
     and_then (emit (if pr_format p then pr_depth p + 1 else 2)
                    ((if pr_format p then replicate (pr_depth p - 1) 9 else []) @ [RBRACE, 0]) 0 p)
       (\<lambda>p. Inr (True, shallower p))))"

primrec print_value :: "'d flt \<Rightarrow> 'd cJSON \<Rightarrow> printer" where
  "print_value fl (CJSON item children) = (\<lambda>output_buffer.
     let t = c_type item AND 0xFF in
     if t = cJSON_NULL then emit 5 (NULL_text @ [0]) 0 output_buffer
     else if t = cJSON_False then emit 6 (FALSE_text @ [0]) 0 output_buffer
     else if t = cJSON_True then emit 5 (TRUE_text @ [0]) 0 output_buffer
     else if t = cJSON_Number then print_number fl item output_buffer
     else if t = cJSON_Raw then
       (case c_valuestring item of
          None \<Rightarrow> Inr (False, output_buffer)
        | Some s \<Rightarrow> emit (length (cstr s) + 1) (cstr s @ [0]) 0 output_buffer)
     else if t = cJSON_String then print_string item output_buffer
     else if t = cJSON_Array then print_array (map (print_value fl) children) output_buffer
     else if t = cJSON_Object then
       print_object (zip (map (\<lambda>c. c_string (c_node c)) children) (map (print_value fl) children)) output_buffer
     else Inr (False, output_buffer))"

section \<open>The entry points\<close>

text \<open>A new block of \<open>n\<close> bytes.\<close>

definition new_buffer :: "nat \<Rightarrow> bool \<Rightarrow> bool \<Rightarrow> nat \<Rightarrow> (nat \<Rightarrow> u8) \<Rightarrow> printbuffer" where
  "new_buffer n format reallocate mem contents =
     \<lparr>pr_buffer = Some (map contents [0 ..< n]), pr_length = n, pr_offset = 0, pr_depth = 0, pr_noalloc = False,
      pr_format = format, pr_realloc = reallocate, pr_mem = mem, pr_junk = contents\<rparr>"

text \<open>\<open>print\<close>: the result is the block with the text, cut to its length; \<open>mem\<close> counts the allocations
  that still succeed.\<close>

definition print :: "'d flt \<Rightarrow> 'd cJSON option \<Rightarrow> bool \<Rightarrow> bool \<Rightarrow> nat \<Rightarrow> (nat \<Rightarrow> u8) \<Rightarrow> bytes option result" where
  "print fl item format reallocate mem contents =
     (if mem = 0 then Inr None
      else case item of
        None \<Rightarrow> Inr None
      | Some it \<Rightarrow>
          bind_result (moving_on (print_value fl it (new_buffer 256 format reallocate (mem - 1) contents)))
            (\<lambda>(ok, p).
          if \<not> ok \<or> pr_mem p = 0 then Inr None
          else case pr_buffer p of
            None \<Rightarrow> Inl Null_deref
          | Some buffer \<Rightarrow>
              if reallocate then Inr (Some (take (pr_offset p + 1) buffer))
              else Inr (Some ((take (min (pr_length p) (pr_offset p + 1)) buffer) [pr_offset p := 0]))))"

definition cJSON_Print :: "'d flt \<Rightarrow> 'd cJSON option \<Rightarrow> bool \<Rightarrow> nat \<Rightarrow> (nat \<Rightarrow> u8) \<Rightarrow> bytes option result" where
  "cJSON_Print fl item reallocate mem contents = print fl item True reallocate mem contents"

definition cJSON_PrintUnformatted ::
  "'d flt \<Rightarrow> 'd cJSON option \<Rightarrow> bool \<Rightarrow> nat \<Rightarrow> (nat \<Rightarrow> u8) \<Rightarrow> bytes option result" where
  "cJSON_PrintUnformatted fl item reallocate mem contents = print fl item False reallocate mem contents"

definition cJSON_PrintBuffered ::
  "'d flt \<Rightarrow> 'd cJSON option \<Rightarrow> s32 \<Rightarrow> bool \<Rightarrow> bool \<Rightarrow> nat \<Rightarrow> (nat \<Rightarrow> u8) \<Rightarrow> bytes option result" where
  "cJSON_PrintBuffered fl item prebuffer fmt reallocate mem contents =
     (if sint prebuffer < 0 then Inr None
      else if mem = 0 then Inr None
      else case item of
        None \<Rightarrow> Inr None
      | Some it \<Rightarrow>
          bind_result (print_value fl it (new_buffer (unat prebuffer) fmt reallocate (mem - 1) contents))
            (\<lambda>(ok, p). if ok then Inr (pr_buffer p) else Inr None))"

text \<open>\<open>buffer\<close> is the caller's array; the result is the return value and the array afterwards.\<close>

definition cJSON_PrintPreallocated ::
  "'d flt \<Rightarrow> 'd cJSON option \<Rightarrow> bytes option \<Rightarrow> s32 \<Rightarrow> bool \<Rightarrow> (bool \<times> bytes option) result" where
  "cJSON_PrintPreallocated fl item buffer len format =
     (if sint len < 0 \<or> buffer = None then Inr (False, buffer)
      else case item of
        None \<Rightarrow> Inr (False, buffer)
      | Some it \<Rightarrow>
          bind_result (print_value fl it
            \<lparr>pr_buffer = buffer, pr_length = unat len, pr_offset = 0, pr_depth = 0, pr_noalloc = True,
             pr_format = format, pr_realloc = True, pr_mem = 0, pr_junk = (\<lambda>_. 0)\<rparr>)
            (\<lambda>(ok, p). Inr (ok, pr_buffer p)))"

end
