(* ===== verification/Json_Render.thy ===== *)
theory Json_Render
  imports Json_Print
begin

text \<open>
  The printer against its specification. \<open>render\<close> says which text an item has, or that it has none;
  \<open>print_value\<close> writes exactly this text behind what the buffer holds, never outside the block, and
  fails only when the item has no text, the block must not grow, memory is used up or the text is
  longer than the code supports.
\<close>

section \<open>Specification\<close>

definition opt_app :: "bytes option \<Rightarrow> bytes option \<Rightarrow> bytes option" where
  "opt_app a b = (case a of None \<Rightarrow> None | Some x \<Rightarrow> (case b of None \<Rightarrow> None | Some y \<Rightarrow> Some (x @ y)))"

definition string_text :: "bytes option \<Rightarrow> bytes" where
  "string_text s = QUOTE # (case s of None \<Rightarrow> [] | Some t \<Rightarrow> concat (map escaped (cstr t))) @ [QUOTE]"

fun elements_text :: "bool \<Rightarrow> bytes option list \<Rightarrow> bytes option" where
  "elements_text format [] = Some []"
| "elements_text format [t] = t"
| "elements_text format (t # ts) =
     opt_app t (opt_app (Some (if format then [COMMA, 32] else [COMMA])) (elements_text format ts))"

fun members_text :: "bool \<Rightarrow> nat \<Rightarrow> (bytes option \<times> bytes option) list \<Rightarrow> bytes option" where
  "members_text format depth [] = Some []"
| "members_text format depth ((k, t) # ts) =
     opt_app (Some ((if format then replicate depth 9 else []) @ string_text k @ (if format then [COLON, 9] else [COLON])))
      (opt_app t
       (opt_app (Some ((if ts \<noteq> [] then [COMMA] else []) @ (if format then [10] else [])))
        (members_text format depth ts)))"

primrec render :: "'d flt \<Rightarrow> bool \<Rightarrow> 'd cJSON \<Rightarrow> nat \<Rightarrow> bytes option" where
  "render fl format (CJSON item children) = (\<lambda>depth.
     let t = c_type item AND 0xFF in
     if t = cJSON_NULL then Some NULL_text
     else if t = cJSON_False then Some FALSE_text
     else if t = cJSON_True then Some TRUE_text
     else if t = cJSON_Number then Some (number_text fl (c_valuedouble item))
     else if t = cJSON_Raw then map_option cstr (c_valuestring item)
     else if t = cJSON_String then Some (string_text (c_valuestring item))
     else if t = cJSON_Array then
       opt_app (Some [LBRACKET]) (opt_app
         (elements_text format (map (\<lambda>f. f (depth + 1)) (map (render fl format) children))) (Some [RBRACKET]))
     else if t = cJSON_Object then
       opt_app (Some (if format then [LBRACE, 10] else [LBRACE])) (opt_app
         (members_text format (depth + 1) (zip (map (\<lambda>c. c_string (c_node c)) children)
           (map (\<lambda>f. f (depth + 1)) (map (render fl format) children))))
         (Some ((if format then replicate depth 9 else []) @ [RBRACE])))
     else None)"

text \<open>What is assumed of \<open>sprintf\<close>: a number takes at most 25 characters, none of them zero.\<close>

definition numbers_fit :: "'d flt \<Rightarrow> bool" where
  "numbers_fit fl \<longleftrightarrow> (\<forall>d. length (f_print15 fl d) \<le> 25 \<and> length (f_print17 fl d) \<le> 25 \<and>
     0 \<notin> set (f_print15 fl d) \<and> 0 \<notin> set (f_print17 fl d))"

lemma number_text_fits:
  assumes "numbers_fit fl"
  shows "length (number_text fl d) \<le> 25" "0 \<notin> set (number_text fl d)"
  using assms by (auto simp: numbers_fit_def number_text_def Let_def NULL_text_def split: option.splits)

text \<open>What is assumed of the document: the printed form of each string and of each name, with its
  terminator, has fewer than \<open>2 ^ 32\<close> bytes, so that its size fits \<open>size_t\<close>.\<close>

definition string_fits :: "bytes option \<Rightarrow> bool" where
  "string_fits s \<longleftrightarrow> length (string_text s) + 1 < 4294967296"

primrec strings_fit :: "'d cJSON \<Rightarrow> bool" where
  "strings_fit (CJSON item children) \<longleftrightarrow> string_fits (c_valuestring item) \<and>
     list_all (\<lambda>c. string_fits (c_string (c_node c))) children \<and> list_all id (map strings_fit children)"

section \<open>The buffer\<close>

definition pr_ok :: "printbuffer \<Rightarrow> bool" where
  "pr_ok p \<longleftrightarrow> (\<exists>buf. pr_buffer p = Some buf \<and> length buf = pr_length p \<and>
     (pr_offset p < pr_length p \<or> pr_realloc p \<and> pr_offset p = 0 \<and> pr_length p = 0))"

text \<open>Every growth at least doubles the block or makes it as large as possible; so much memory is enough
  for all of them and one allocation more.\<close>

definition budget :: "printbuffer \<Rightarrow> bool" where
  "budget p \<longleftrightarrow> 0 < pr_mem p \<and> max_int \<le> 2 ^ (pr_mem p - 1) * pr_length p"

lemma budget_update [simp]:
  "budget (p\<lparr>pr_offset := i\<rparr>) = budget p" "budget (p\<lparr>pr_buffer := buf\<rparr>) = budget p" "budget (p\<lparr>pr_depth := d\<rparr>) = budget p"
  by (simp_all add: budget_def)

definition same_config :: "printbuffer \<Rightarrow> printbuffer \<Rightarrow> bool" where
  "same_config p p' \<longleftrightarrow> pr_noalloc p' = pr_noalloc p \<and> pr_format p' = pr_format p \<and>
     pr_realloc p' = pr_realloc p \<and> pr_depth p' = pr_depth p \<and>
     (budget p \<longrightarrow> budget p') \<and> (pr_noalloc p \<longrightarrow> pr_length p' = pr_length p)"

definition block :: "printbuffer \<Rightarrow> bytes" where
  "block p = the (pr_buffer p)"

text \<open>The text is complete and the offset stands behind it.\<close>

definition written :: "printbuffer \<Rightarrow> bytes \<Rightarrow> printbuffer \<Rightarrow> bool" where
  "written p t p' \<longleftrightarrow> pr_ok p' \<and> same_config p p' \<and> pr_offset p' = pr_offset p + length t \<and>
     take (pr_offset p') (block p') = take (pr_offset p) (block p) @ t"

text \<open>The text is complete and terminated, and the offset stands before it or inside it.\<close>

definition pending :: "printbuffer \<Rightarrow> bytes \<Rightarrow> printbuffer \<Rightarrow> bool" where
  "pending p t p' \<longleftrightarrow> pr_ok p' \<and> same_config p p' \<and>
     pr_offset p \<le> pr_offset p' \<and> pr_offset p' \<le> pr_offset p + length t \<and>
     pr_offset p + length t < length (block p') \<and>
     take (pr_offset p + length t + 1) (block p') = take (pr_offset p) (block p) @ t @ [0]"

text \<open>The reasons for failure.\<close>

definition no_room :: "printbuffer \<Rightarrow> nat \<Rightarrow> bool" where
  "no_room p n \<longleftrightarrow> (if pr_noalloc p then pr_length p < pr_offset p + n else \<not> budget p) \<or> max_int < pr_offset p + n"

definition gave_up :: "printbuffer \<Rightarrow> bytes option \<Rightarrow> bool" where
  "gave_up p t \<longleftrightarrow> (\<forall>x. t = Some x \<longrightarrow> no_room p (length x + 2))"

lemma no_room_mono: "no_room p n \<Longrightarrow> n \<le> m \<Longrightarrow> no_room p m"
  by (auto simp: no_room_def split: if_splits)

definition outcome ::
  "(printbuffer \<Rightarrow> bytes \<Rightarrow> printbuffer \<Rightarrow> bool) \<Rightarrow> printbuffer \<Rightarrow> bytes option \<Rightarrow> (bool \<times> printbuffer) result \<Rightarrow> bool" where
  "outcome fin p t r \<longleftrightarrow> (\<exists>ok p'. r = Inr (ok, p') \<and>
     (if ok then \<exists>x. t = Some x \<and> fin p x p' else gave_up p t))"

lemma offset_le_block: "pr_ok p \<Longrightarrow> pr_offset p \<le> length (block p)"
  by (auto simp: pr_ok_def block_def)

lemma outcomeI:
  "r = Inr (True, p') \<Longrightarrow> t = Some x \<Longrightarrow> fin p x p' \<Longrightarrow> outcome fin p t r"
  "r = Inr (False, p') \<Longrightarrow> gave_up p t \<Longrightarrow> outcome fin p t r"
  by (auto simp: outcome_def)

lemma written_empty: "pr_ok p \<Longrightarrow> outcome written p (Some []) (Inr (True, p))"
  by (auto simp: outcome_def written_def same_config_def)

section \<open>Reserving and writing\<close>

lemma budget_grow:
  assumes "budget p" "pr_length p < max_int" "2 * pr_length p \<le> n \<or> n = max_int"
    "pr_mem p' = pr_mem p - 1" "pr_length p' = n"
  shows "budget p'"
proof -
  have "pr_mem p \<noteq> 1" using assms(1,2) by (auto simp: budget_def)
  then obtain m where m: "pr_mem p = Suc (Suc m)" using assms(1) by (cases "pr_mem p") (auto simp: budget_def gr0_conv_Suc)
  show ?thesis
  proof (cases "n = max_int")
    case True
    then show ?thesis using m assms by (simp add: budget_def)
  next
    case False
    then have "2 ^ m * (2 * pr_length p) \<le> 2 ^ m * n" using assms(3) by simp
    moreover have "max_int \<le> 2 ^ m * (2 * pr_length p)" using assms(1) m by (simp add: budget_def ac_simps)
    ultimately have "max_int \<le> 2 ^ m * n" by (rule order.trans [rotated])
    then show ?thesis using m assms by (simp add: budget_def)
  qed
qed

lemma ensure_ok:
  assumes "pr_ok p"
  shows "(\<exists>p'. ensure p needed = Inr (True, p') \<and> pr_ok p' \<and> same_config p p' \<and> pr_offset p' = pr_offset p \<and>
            pr_offset p + needed < length (block p') \<and> take (pr_offset p) (block p') = take (pr_offset p) (block p)) \<or>
         (\<exists>p'. ensure p needed = Inr (False, p') \<and> no_room p (needed + 1))"
proof -
  obtain buf where buf: "pr_buffer p = Some buf" "length buf = pr_length p"
    "pr_offset p < pr_length p \<or> pr_realloc p \<and> pr_offset p = 0 \<and> pr_length p = 0"
    using assms unfolding pr_ok_def by blast
  let ?n = "needed + pr_offset p + 1"
  let ?size = "if ?n > max_int div 2 then max_int else ?n * 2"
  consider (big) "max_int < ?n" | (room) "?n \<le> max_int" "?n \<le> pr_length p"
    | (no) "?n \<le> max_int" "pr_length p < ?n" "pr_noalloc p \<or> pr_mem p = 0"
    | (grow) "?n \<le> max_int" "pr_length p < ?n" "\<not> pr_noalloc p" "0 < pr_mem p" by linarith
  then show ?thesis
  proof cases
    case big
    then show ?thesis using buf by (auto simp: ensure_def Let_def pr_ok_def same_config_def block_def no_room_def)
  next
    case room
    then show ?thesis using buf assms by (auto simp: ensure_def Let_def same_config_def block_def)
  next
    case no
    then show ?thesis using buf by (auto simp: ensure_def Let_def no_room_def budget_def)
  next
    case grow
    have size: "?n \<le> ?size" using grow(1) by simp
    define new where "new = (if pr_realloc p then buf @ junk p (length buf) ?size
        else take (pr_offset p + 1) buf @ junk p (pr_offset p + 1) ?size)"
    have len: "length new = ?size" "take (pr_offset p) new = take (pr_offset p) buf"
      using buf grow size by (auto simp: new_def junk_def)
    define p' where "p' = p\<lparr>pr_mem := pr_mem p - 1, pr_length := ?size, pr_buffer := Some new\<rparr>"
    have "ensure p needed = Inr (True, p')"
      using buf grow by (auto simp: ensure_def Let_def new_def p'_def)
    moreover have "pr_length p < max_int" "2 * pr_length p \<le> ?size \<or> ?size = max_int" using grow(1,2) by auto
    then have "budget p \<longrightarrow> budget p'" using budget_grow [of p ?size p'] by (simp add: p'_def)
    then have "same_config p p'" using grow(3) by (simp add: same_config_def p'_def)
    moreover have "pr_ok p'" "pr_offset p' = pr_offset p" "block p' = new" using len size by (auto simp: pr_ok_def p'_def block_def)
    ultimately show ?thesis using len size buf(1) by (intro disjI1 exI [of _ p']) (simp add: block_def)
  qed
qed

lemma store_at_ok:
  assumes "pr_ok p" "pr_offset p + i + length bs \<le> length (block p)" "0 < length bs"
  shows "\<exists>p'. store_at p i bs = Inr p' \<and> pr_ok p' \<and> same_config p p' \<and> pr_offset p' = pr_offset p \<and>
    block p' = take (pr_offset p + i) (block p) @ bs @ drop (pr_offset p + i + length bs) (block p)"
  using assms by (auto simp: store_at_def Let_def pr_ok_def same_config_def block_def)

lemma emit_ok:
  assumes "pr_ok p" "length bs + length z \<le> needed" "needed \<le> length bs + 1" "0 < length bs + length z" "k \<le> length bs"
  shows "(\<exists>p'. emit needed (bs @ z) k p = Inr (True, p') \<and> pr_ok p' \<and> same_config p p' \<and> pr_offset p' = pr_offset p + k \<and>
      pr_offset p + length (bs @ z) \<le> length (block p') \<and>
      take (pr_offset p + length (bs @ z)) (block p') = take (pr_offset p) (block p) @ bs @ z) \<or>
    (\<exists>p'. emit needed (bs @ z) k p = Inr (False, p') \<and> gave_up p (Some bs))"
proof -
  consider (yes) p1 where "ensure p needed = Inr (True, p1)" "pr_ok p1" "same_config p p1" "pr_offset p1 = pr_offset p"
      "pr_offset p + needed < length (block p1)" "take (pr_offset p) (block p1) = take (pr_offset p) (block p)"
    | (no) p1 where "ensure p needed = Inr (False, p1)" "no_room p (needed + 1)"
    using ensure_ok [OF assms(1), of needed] by blast
  then show ?thesis
  proof cases
  case e: yes
  then have "pr_offset p1 + 0 + length (bs @ z) \<le> length (block p1)" "0 < length (bs @ z)"
    using assms(2,4) by simp_all
  from store_at_ok [OF e(2) this] obtain p2 where st: "store_at p1 0 (bs @ z) = Inr p2" "pr_ok p2" "same_config p1 p2"
    "pr_offset p2 = pr_offset p1" "block p2 = take (pr_offset p1) (block p1) @ (bs @ z) @ drop (pr_offset p1 + length (bs @ z)) (block p1)"
    by auto
  let ?p3 = "p2\<lparr>pr_offset := pr_offset p2 + k\<rparr>"
  have "emit needed (bs @ z) k p = Inr (True, ?p3)" using e(1) st(1) by (simp add: emit_def and_then_def)
  moreover have "length (block p2) = length (block p1)" using st(5) e assms(2) offset_le_block [OF assms(1)] by simp
  then have "pr_offset p + length (bs @ z) \<le> length (block ?p3)" "pr_ok ?p3"
    using st(2,4) e(4,5) assms(2,3,5) by (auto simp: block_def pr_ok_def)
  moreover have "take (pr_offset p + length (bs @ z)) (block ?p3) = take (pr_offset p) (block p) @ bs @ z"
    using st(5) e assms(2) offset_le_block [OF assms(1)] by (simp add: block_def)
  ultimately show ?thesis using st e by (auto simp: same_config_def)
  next
  case no
  then show ?thesis using assms(3) by (auto simp: emit_def and_then_def gave_up_def elim: no_room_mono)
  qed
qed

lemma emit_written:
  assumes "pr_ok p" "length bs + length z \<le> needed" "needed \<le> length bs + 1" "0 < length bs + length z"
  shows "outcome written p (Some bs) (emit needed (bs @ z) (length bs) p)"
  using emit_ok [OF assms le_refl]
proof (elim disjE exE conjE)
  fix p'
  assume e: "emit needed (bs @ z) (length bs) p = Inr (True, p')" "pr_ok p'" "same_config p p'"
    "pr_offset p' = pr_offset p + length bs" "pr_offset p + length (bs @ z) \<le> length (block p')"
    "take (pr_offset p + length (bs @ z)) (block p') = take (pr_offset p) (block p) @ bs @ z"
  have "take (pr_offset p + length bs) (block p') = take (pr_offset p + length bs) (take (pr_offset p + length (bs @ z)) (block p'))"
    by (simp add: min_def)
  also have "\<dots> = take (pr_offset p + length bs) (take (pr_offset p) (block p)) @ take (length bs) (bs @ z)"
    using e(6) offset_le_block [OF assms(1)] by (simp add: min_def)
  also have "\<dots> = take (pr_offset p) (block p) @ bs" by simp
  finally show ?thesis using e by (intro outcomeI(1)) (auto simp: written_def)
qed (auto simp: outcome_def)

lemma emit_plain:
  assumes "pr_ok p" "bs \<noteq> []"
  shows "outcome written p (Some bs) (emit (length bs) bs (length bs) p)"
  using emit_written [OF assms(1), of bs "[]" "length bs"] assms(2) by (cases bs) simp_all

lemma emit_terminated:
  assumes "pr_ok p"
  shows "outcome written p (Some bs) (emit (length bs + 1) (bs @ [0]) (length bs) p)"
  using emit_written [OF assms, of bs "[0]" "length bs + 1"] by simp

lemma emit_pending:
  assumes "pr_ok p" "needed = length bs + 1" "k \<le> length bs"
  shows "outcome pending p (Some bs) (emit needed (bs @ [0]) k p)"
  using emit_ok [OF assms(1), of bs "[0]" needed k] assms(2,3) by (fastforce simp: outcome_def pending_def)

section \<open>Composition\<close>

lemma opt_app_simps [simp]:
  "opt_app None b = None" "opt_app a None = None" "opt_app (Some x) (Some y) = Some (x @ y)"
  "opt_app (Some []) b = b" "opt_app a (Some []) = a"
  by (simp_all add: opt_app_def split: option.splits)

lemma opt_app_eq_Some: "opt_app a b = Some z \<longleftrightarrow> (\<exists>x y. a = Some x \<and> b = Some y \<and> z = x @ y)"
  by (auto simp: opt_app_def split: option.splits)

lemma opt_app_assoc: "opt_app (opt_app a b) c = opt_app a (opt_app b c)"
  by (simp add: opt_app_def split: option.splits)

lemma written_trans: "written p x p' \<Longrightarrow> written p' y p'' \<Longrightarrow> written p (x @ y) p''"
  by (auto simp: written_def same_config_def)

lemma pending_trans: "written p x p' \<Longrightarrow> pending p' y p'' \<Longrightarrow> pending p (x @ y) p''"
  by (auto simp: written_def pending_def same_config_def add.assoc)

lemma gave_up_left: "gave_up p a \<Longrightarrow> gave_up p (opt_app a b)"
  by (cases a; cases b) (auto simp: gave_up_def elim: no_room_mono)

lemma gave_up_right: "written p x p' \<Longrightarrow> gave_up p' b \<Longrightarrow> gave_up p (opt_app (Some x) b)"
  by (cases b) (auto simp: gave_up_def no_room_def written_def same_config_def add.assoc split: if_splits)

lemma outcome_then:
  assumes "outcome written p a r" and "\<And>x p'. a = Some x \<Longrightarrow> written p x p' \<Longrightarrow> outcome fin p' b (f p')"
    and "\<And>x y p' p''. written p x p' \<Longrightarrow> fin p' y p'' \<Longrightarrow> fin p (x @ y) p''"
  shows "outcome fin p (opt_app a b) (and_then r f)"
proof -
  obtain ok p' where r: "r = Inr (ok, p')" "if ok then \<exists>x. a = Some x \<and> written p x p' else gave_up p a"
    using assms(1) unfolding outcome_def by blast
  show ?thesis
  proof (cases ok)
    case False
    then show ?thesis using r gave_up_left by (auto simp: outcome_def and_then_def)
  next
    case True
    then obtain x where x: "a = Some x" "written p x p'" using r by auto
    obtain ok' p'' where f: "f p' = Inr (ok', p'')" "if ok' then \<exists>y. b = Some y \<and> fin p' y p'' else gave_up p' b"
      using assms(2) [OF x] unfolding outcome_def by blast
    then show ?thesis
      using r True x assms(3) gave_up_right by (cases ok') (auto simp: outcome_def and_then_def)
  qed
qed

lemmas written_then = outcome_then [where fin = written, OF _ _ written_trans]
lemmas pending_then = outcome_then [where fin = pending, OF _ _ pending_trans]

lemma takeWhile_terminated:
  assumes "take (length t + 1) bs = t @ [0]" "0 \<notin> set t"
  shows "cstr bs = t" "(0 :: u8) \<in> set bs"
proof -
  have "bs = t @ [0] @ drop (length t + 1) bs" using assms(1) by (metis append_take_drop_id append_assoc)
  then obtain cs where "bs = t @ 0 # cs" by auto
  then show "cstr bs = t" "0 \<in> set bs" using assms(2) by (auto simp: cstr_def takeWhile_append)
qed

definition terminated :: "printbuffer \<Rightarrow> bytes \<Rightarrow> printbuffer \<Rightarrow> bool" where
  "terminated p t p' \<longleftrightarrow> written p t p' \<and> take (pr_offset p' + 1) (block p') = take (pr_offset p) (block p) @ t @ [0]"

lemma moving_on_terminated:
  assumes "outcome pending p t r" "\<And>x. t = Some x \<Longrightarrow> 0 \<notin> set x"
  shows "outcome terminated p t (moving_on r)"
proof -
  obtain ok p' where r: "r = Inr (ok, p')" "if ok then \<exists>x. t = Some x \<and> pending p x p' else gave_up p t"
    using assms(1) unfolding outcome_def by blast
  show ?thesis
  proof (cases ok)
    case False
    then show ?thesis using r by (auto simp: outcome_def moving_on_def and_then_def)
  next
    case True
    then obtain x where x: "t = Some x" "pending p x p'" "0 \<notin> set x" using r assms(2) by auto
    define k where "k = pr_offset p' - pr_offset p"
    define buf where "buf = block p'"
    have k: "pr_offset p' = pr_offset p + k" "k \<le> length x" using x(2) by (auto simp: pending_def k_def)
    have ok': "pr_ok p'" and len: "pr_offset p + length x < length buf"
      and tk: "take (pr_offset p + length x + 1) buf = take (pr_offset p) (block p) @ x @ [0]"
      using x(2) by (auto simp: pending_def buf_def)
    have l0: "length (take (pr_offset p) (block p)) = pr_offset p"
    proof -
      have "length (take (pr_offset p + length x + 1) buf) = pr_offset p + length x + 1" using len by simp
      then show ?thesis unfolding tk by (simp only: length_append) simp
    qed
    have "take (length (drop k x) + 1) (drop (pr_offset p') buf) = drop (pr_offset p') (take (pr_offset p + length x + 1) buf)"
      using k by (simp add: drop_take Suc_diff_le)
    also have "\<dots> = drop k x @ [0]" using k l0 by (subst tk) simp
    finally have "take (length (drop k x) + 1) (drop (pr_offset p') buf) = drop k x @ [0]" .
    moreover have "0 \<notin> set (drop k x)" using x(3) in_set_dropD by metis
    ultimately have st: "cstr (drop (pr_offset p') buf) = drop k x" "0 \<in> set (drop (pr_offset p') buf)"
      by (rule takeWhile_terminated)+
    have "moving_on r = Inr (True, p'\<lparr>pr_offset := pr_offset p + length x\<rparr>)"
      using r(1) True ok' st k by (auto simp: moving_on_def and_then_def update_offset_def pr_ok_def buf_def block_def)
    moreover have "take (pr_offset p + length x) buf = take (pr_offset p) (block p) @ x"
    proof -
      have "take (pr_offset p + length x) buf = take (pr_offset p + length x) (take (pr_offset p + length x + 1) buf)"
        by (simp add: min_def)
      also have "\<dots> = take (pr_offset p) (block p) @ x" using l0 by (subst tk) simp
      finally show ?thesis .
    qed
    moreover have "pr_ok (p'\<lparr>pr_offset := pr_offset p + length x\<rparr>)"
      using ok' len by (auto simp: pr_ok_def buf_def block_def)
    ultimately show ?thesis using x(1,2)
      by (intro outcomeI(1)) (auto simp: terminated_def written_def pending_def same_config_def buf_def block_def)
  qed
qed

lemma moving_on_written:
  assumes "outcome pending p t r" "\<And>x. t = Some x \<Longrightarrow> 0 \<notin> set x"
  shows "outcome written p t (moving_on r)"
  using moving_on_terminated [OF assms] by (auto simp: outcome_def terminated_def split: if_splits)

lemma pendingI:
  assumes "pr_ok p" "pr_ok p'" "same_config p p'" "pr_offset p \<le> pr_offset p'" "pr_offset p' \<le> pr_offset p + length t"
    "block p' = take (pr_offset p) (block p) @ (t @ [0]) @ ys"
  shows "pending p t p'"
  using assms offset_le_block [OF assms(1)] by (simp add: pending_def)

section \<open>Strings and numbers\<close>

lemma length_escaped: "c \<noteq> 0 \<Longrightarrow> length (escaped c) = 1 + escape_count c"
  by (auto simp: escaped_def escape_count_def word_less_nat_alt)

lemma hex_char_nonzero: "unat d < 16 \<Longrightarrow> hex_char d \<noteq> 0"
  by (auto simp: hex_char_def word_unat_eq_iff unat_word_ariths word_less_nat_alt)

lemma escaped_nonzero: "c \<noteq> 0 \<Longrightarrow> 0 \<notin> set (escaped c)"
  by (auto simp: escaped_def hex_char_nonzero unat_mod unat_div word_less_nat_alt)

lemma string_text_nonzero: "0 \<notin> set (string_text s)"
  using escaped_nonzero by (fastforce simp: string_text_def cstr_def dest: set_takeWhileD split: option.splits)

lemma escaped_length: "0 \<notin> set s \<Longrightarrow> length (concat (map escaped s)) = length s + sum_list (map escape_count s)"
  by (induction s) (auto simp: length_escaped)

lemma escaped_plain: "0 \<notin> set s \<Longrightarrow> sum_list (map escape_count s) = 0 \<Longrightarrow> concat (map escaped s) = s"
  by (induction s) (auto simp: escaped_def escape_count_def not_less word_less_nat_alt split: if_splits)

text \<open>Without wrap-around the sizes are those of the printed string.\<close>

lemma print_string_ptr_fits:
  assumes "string_fits (Some t)"
  shows "print_string_ptr (Some t) p =
    (let input = cstr t; n = length input + sum_list (map escape_count input) in
     and_then (ensure p (n + 3)) (\<lambda>p.
     if sum_list (map escape_count input) = 0
     then bind_result (store_at p 0 (QUOTE # input @ [QUOTE, 0])) (\<lambda>p. Inr (True, p))
     else bind_result (store_at p 0 (QUOTE # concat (map escaped input))) (\<lambda>p.
          bind_result (store_at p (n + 1) [QUOTE, 0]) (\<lambda>p. Inr (True, p)))))"
proof -
  have "0 \<notin> set (cstr t)" by (auto simp: cstr_def dest: set_takeWhileD)
  then have n: "length (cstr t) + sum_list (map escape_count (cstr t)) + 3 < 4294967296"
    using assms by (simp add: string_fits_def string_text_def escaped_length)
  define e where "e = sum_list (map escape_count (cstr t))"
  have z: "to_size e = e" "to_size (length (cstr t) + e) = length (cstr t) + e"
    "to_size (length (cstr t) + e + 3) = length (cstr t) + e + 3"
    using n by (simp_all add: to_size_def e_def)
  show ?thesis
    unfolding print_string_ptr_def option.case Let_def e_def [symmetric] z
    by (cases "e = 0") (simp_all add: and_then_def)
qed

lemma print_string_ptr_ok:
  assumes "pr_ok p" and fits: "string_fits s"
  shows "outcome pending p (Some (string_text s)) (print_string_ptr s p)"
proof (cases s)
  case None
  then show ?thesis using emit_pending [OF assms(1), of 3 "[QUOTE, QUOTE]" 0] by (simp add: print_string_ptr_def string_text_def)
next
  case (Some t)
  note psp = print_string_ptr_fits [OF fits [unfolded Some], folded Some]
  define i where "i = cstr t"
  have i: "0 \<notin> set i" by (auto simp: i_def cstr_def dest: set_takeWhileD)
  define esc where "esc = concat (map escaped i)"
  define n where "n = length i + sum_list (map escape_count i)"
  have n: "length esc = n" using i by (simp add: esc_def n_def escaped_length)
  have tx: "string_text s = QUOTE # esc @ [QUOTE]" by (simp add: string_text_def Some esc_def i_def)
  have fin: ?thesis if "print_string_ptr s p = Inr (True, p2)" "pr_ok p2" "same_config p p2" "pr_offset p2 = pr_offset p"
      "block p2 = take (pr_offset p) (block p) @ (string_text s @ [0]) @ ys" for p2 ys
    using that n tx assms(1) by (intro outcomeI(1) [OF _ refl] pendingI) auto
  consider (yes) p1 where "ensure p (n + 3) = Inr (True, p1)" "pr_ok p1" "same_config p p1" "pr_offset p1 = pr_offset p"
      "pr_offset p + (n + 3) < length (block p1)" "take (pr_offset p) (block p1) = take (pr_offset p) (block p)"
    | (no) p1 where "ensure p (n + 3) = Inr (False, p1)" "no_room p (n + 3 + 1)"
    using ensure_ok [OF assms(1), of "n + 3"] by blast
  then show ?thesis
  proof cases
    case no
    then show ?thesis using n tx
      by (intro outcomeI(2)) (auto simp: psp and_then_def Let_def gave_up_def i_def [symmetric] n_def [symmetric] elim: no_room_mono)
  next
    case yes
    show ?thesis
    proof (cases "sum_list (map escape_count i) = 0")
      case True
      have "esc = i" using i True by (simp add: esc_def escaped_plain)
      then have eq: "QUOTE # i @ [QUOTE, 0] = string_text s @ [0]" using tx by simp
      have "pr_offset p1 + 0 + length (string_text s @ [0]) \<le> length (block p1)" using yes n tx by simp
      from store_at_ok [OF yes(2) this] tx
      obtain p2 where p2: "store_at p1 0 (string_text s @ [0]) = Inr p2" "pr_ok p2" "same_config p1 p2"
        "pr_offset p2 = pr_offset p1"
        "block p2 = take (pr_offset p1 + 0) (block p1) @ (string_text s @ [0]) @ drop (pr_offset p1 + 0 + length (string_text s @ [0])) (block p1)"
        by blast
      have "print_string_ptr s p = Inr (True, p2)"
        unfolding psp and_then_def Let_def i_def [symmetric] n_def [symmetric]
        using True by (simp only: yes(1) p2(1) bind_result_simps prod.case if_True eq simp_thms)
      moreover have "same_config p p2" using yes(3) p2(3) by (simp add: same_config_def)
      ultimately show ?thesis using p2(2,4,5) yes(4,6) unfolding add_0_right by (metis fin)
    next
      case False
      have "pr_offset p1 + 0 + length (QUOTE # esc) \<le> length (block p1)" using yes n by simp
      from store_at_ok [OF yes(2) this]
      obtain p2 where p2: "store_at p1 0 (QUOTE # esc) = Inr p2" "pr_ok p2" "same_config p1 p2"
        "pr_offset p2 = pr_offset p1"
        "block p2 = take (pr_offset p) (block p) @ (QUOTE # esc) @ drop (pr_offset p + (n + 1)) (block p1)"
        using n yes(4,6) by auto
      have len: "length (block p2) = length (block p1)" using p2(5) yes n offset_le_block [OF assms(1)] by simp
      have "pr_offset p2 + (n + 1) + length [QUOTE, 0] \<le> length (block p2)" using yes p2(4) len by simp
      from store_at_ok [OF p2(2) this]
      obtain p3 where p3: "store_at p2 (n + 1) [QUOTE, 0] = Inr p3" "pr_ok p3" "same_config p2 p3"
        "pr_offset p3 = pr_offset p2"
        "block p3 = take (pr_offset p2 + (n + 1)) (block p2) @ [QUOTE, 0] @ drop (pr_offset p2 + (n + 1) + length [QUOTE, 0]) (block p2)"
        by auto
      have "take (pr_offset p2 + (n + 1)) (block p2) = take (pr_offset p) (block p) @ QUOTE # esc"
        using p2(4,5) yes(4) n offset_le_block [OF assms(1)] by simp
      then have "block p3 = take (pr_offset p) (block p) @ (string_text s @ [0]) @ drop (pr_offset p2 + (n + 1) + length [QUOTE, 0]) (block p2)"
        using p3(5) tx by simp
      moreover have "print_string_ptr s p = Inr (True, p3)"
        using yes(1) False p2(1) p3(1) unfolding psp
        by (simp only: Let_def i_def [symmetric] n_def [symmetric] esc_def [symmetric] and_then_def
            bind_result_simps prod.case if_True if_False)
      moreover have "same_config p p3" using yes(3) p2(3) p3(3) by (simp add: same_config_def)
      ultimately show ?thesis using p3(2,4) p2(4) yes(4) by (metis fin)
    qed
  qed
qed

text \<open>When the size has wrapped around, and the counter of the escapes is not zero, the string is copied
  past the end of the block that was reserved for the small size.\<close>

lemma long_string_overruns:
  assumes "pr_ok p" "4294967296 \<le> length (string_text (Some t)) + 1" "to_size (sum_list (map escape_count (cstr t))) \<noteq> 0"
    "ensure p (to_size (to_size (length (cstr t) + to_size (sum_list (map escape_count (cstr t)))) + 3)) = Inr (True, p1)"
    "length (block p1) \<le> max_int" "pr_ok p1"
  shows "print_string_ptr (Some t) p = Inl Write_out_of_bounds"
proof -
  obtain buf where "pr_buffer p1 = Some buf" "buf = block p1" using assms(6) by (auto simp: pr_ok_def block_def)
  moreover have "max_int < length (QUOTE # concat (map escaped (cstr t)))"
    using assms(2) by (simp add: string_text_def max_int_def)
  ultimately have "store_at p1 0 (QUOTE # concat (map escaped (cstr t))) = Inl Write_out_of_bounds"
    using assms(5) by (simp add: store_at_def)
  then show ?thesis using assms(3,4) by (simp add: print_string_ptr_def and_then_def Let_def)
qed

lemma print_number_ok:
  assumes "pr_ok p" "numbers_fit fl"
  shows "outcome pending p (Some (number_text fl (c_valuedouble item))) (print_number fl item p)"
  using emit_pending [OF assms(1) refl le_refl, of "number_text fl (c_valuedouble item)"]
    number_text_fits(1) [OF assms(2), of "c_valuedouble item"]
  by (simp add: print_number_def Let_def)

section \<open>Arrays and objects\<close>

text \<open>A printer for a text at a depth.\<close>

definition prints_text :: "bool \<Rightarrow> nat \<Rightarrow> printer \<Rightarrow> bytes option \<Rightarrow> bool" where
  "prints_text format depth pv t \<longleftrightarrow> (\<forall>x. t = Some x \<longrightarrow> 0 \<notin> set x) \<and>
     (\<forall>p. pr_ok p \<longrightarrow> pr_format p = format \<longrightarrow> pr_depth p = depth \<longrightarrow> outcome pending p t (pv p))"

lemma prints_text_written:
  assumes "prints_text format depth pv t" "pr_ok p" "pr_format p = format" "pr_depth p = depth"
  shows "outcome written p t (moving_on (pv p))"
  using assms by (intro moving_on_written) (auto simp: prints_text_def)

lemma writtenD: "written p x p' \<Longrightarrow> pr_ok p' \<and> pr_format p' = pr_format p \<and> pr_depth p' = pr_depth p"
  by (simp add: written_def same_config_def)

lemma array_elements_ok:
  assumes "list_all2 (prints_text format depth) pvs ts" "pr_ok p" "pr_format p = format" "pr_depth p = depth"
  shows "outcome written p (elements_text format ts) (array_elements pvs p)"
  using assms
proof (induction pvs ts arbitrary: p rule: list_all2_induct)
  case Nil
  then show ?case by (simp add: written_empty)
next
  case (Cons pv pvs t ts)
  let ?sep = "if format then [COMMA, 32] else [COMMA]"
  have eq: "elements_text format (t # ts) =
      opt_app t (opt_app (Some (if ts \<noteq> [] then ?sep else [])) (elements_text format ts))"
    by (cases ts) simp_all
  have "pvs \<noteq> [] \<longleftrightarrow> ts \<noteq> []" using Cons.hyps(2) by (cases ts) auto
  then have sep: "outcome written p' (Some (if ts \<noteq> [] then ?sep else []))
      (if pvs \<noteq> [] then let separator = (if pr_format p' then [COMMA, 32] else [COMMA])
         in emit (length separator + 1) (separator @ [0]) (length separator) p' else Inr (True, p'))"
    if "pr_ok p'" "pr_format p' = format" for p'
    using emit_terminated [OF that(1), of ?sep] written_empty [OF that(1)] that(2)
    by (cases "ts = []") (simp_all only: Let_def if_True if_False simp_thms)
  show ?case
    unfolding eq array_elements.simps
    by (intro written_then prints_text_written [OF Cons.hyps(1)] Cons.IH sep) (use Cons.prems in \<open>auto dest!: writtenD\<close>)
qed

lemma object_members_ok:
  assumes "list_all2 (prints_text format depth) pvs ts" "length ks = length ts" "pr_ok p" "pr_format p = format"
    "pr_depth p = depth" "0 < depth" "list_all string_fits ks"
  shows "outcome written p (members_text format depth (zip ks ts)) (object_members (zip ks pvs) p)"
  using assms
proof (induction pvs ts arbitrary: p ks rule: list_all2_induct)
  case Nil
  then show ?case by (simp add: written_empty)
next
  case (Cons pv pvs t ts)
  then obtain k ks' where ks: "ks = k # ks'" "length ks' = length ts" by (cases ks) auto
  have e: "zip ks' pvs \<noteq> [] \<longleftrightarrow> zip ks' ts \<noteq> []" using Cons.hyps(2) ks(2) by (auto dest: list_all2_lengthD)
  let ?tabs = "if format then replicate depth 9 else []" and ?colon = "if format then [COLON, 9] else [COLON]"
    and ?comma = "(if zip ks' ts \<noteq> [] then [COMMA] else []) @ (if format then [10] else [])"
  have eq: "members_text format depth (zip ks (t # ts)) =
      opt_app (Some ?tabs) (opt_app (Some (string_text k)) (opt_app (Some ?colon) (opt_app t
        (opt_app (Some ?comma) (members_text format depth (zip ks' ts))))))"
    by (simp add: ks(1) opt_app_def split: option.splits)
  have tabs: "outcome written p (Some ?tabs) (if pr_format p then emit (pr_depth p) (replicate (pr_depth p) 9) (pr_depth p) p else Inr (True, p))"
    using Cons.prems emit_plain [of p "replicate depth 9"] written_empty [of p] by auto
  have key: "outcome written p' (Some (string_text k)) (moving_on (print_string_ptr k p'))" if "pr_ok p'" for p'
    using print_string_ptr_ok [OF that, of k] string_text_nonzero Cons.prems ks(1) by (intro moving_on_written) auto
  have colon: "outcome written p' (Some ?colon) (let colon = (if pr_format p' then [COLON, 9] else [COLON])
      in emit (length colon) colon (length colon) p')" if "pr_ok p'" "pr_format p' = format" for p'
    unfolding Let_def that(2) by (intro emit_plain that) simp
  have comma: "outcome written p' (Some ?comma) (let comma = (if zip ks' pvs \<noteq> [] then [COMMA] else []) @ (if pr_format p' then [10] else [])
      in emit (length comma + 1) (comma @ [0]) (length comma) p')" if "pr_ok p'" "pr_format p' = format" for p'
    unfolding Let_def that(2) e by (intro emit_terminated that)
  show ?case
    unfolding eq unfolding ks(1) zip_Cons_Cons object_members.simps fst_conv snd_conv
    by (intro written_then tabs key colon comma prints_text_written [OF Cons.hyps(1)] Cons.IH ks(2))
      (use Cons.prems ks(1) in \<open>auto dest!: writtenD\<close>)
qed

text \<open>The depth counts up and down around the children.\<close>

lemma and_then_assoc: "and_then (and_then r f) g = and_then r (\<lambda>p. and_then (f p) g)"
  by (cases r) (auto simp: and_then_def split: if_splits)

lemma pr_ok_depth: "pr_ok (p\<lparr>pr_depth := d\<rparr>) = pr_ok p"
  by (simp add: pr_ok_def)

lemma pending_shallower: "pending (deeper p) x p' \<Longrightarrow> pending p x (shallower p')"
  by (simp add: pending_def deeper_def shallower_def pr_ok_depth same_config_def block_def)

lemma gave_up_deeper: "gave_up (deeper p) t = gave_up p t"
  by (simp add: gave_up_def no_room_def deeper_def)

lemma outcome_shallower:
  "outcome pending (deeper p) t r \<Longrightarrow> outcome pending p t (and_then r (\<lambda>p. Inr (True, shallower p)))"
  by (auto simp: outcome_def and_then_def gave_up_deeper intro: pending_shallower split: if_splits)

lemma bracket_ok:
  assumes "outcome written p (Some a) r"
    and "\<And>p'. written p a p' \<Longrightarrow> outcome written (deeper p') body (f (deeper p'))"
    and "\<And>p' p'' x. written p a p' \<Longrightarrow> written (deeper p') x p'' \<Longrightarrow> outcome pending p'' (Some c) (g p'')"
  shows "outcome pending p (opt_app (Some a) (opt_app body (Some c)))
    (and_then r (\<lambda>p. and_then (f (deeper p)) (\<lambda>p. and_then (g p) (\<lambda>p. Inr (True, shallower p)))))"
  unfolding and_then_assoc [symmetric, of "f p'" g for p']
  using assms by (intro pending_then outcome_shallower) auto

lemma deeper_simps [simp]:
  "pr_ok (deeper p) = pr_ok p" "pr_format (deeper p) = pr_format p" "pr_depth (deeper p) = Suc (pr_depth p)"
  by (simp_all add: deeper_def pr_ok_def)

lemma print_array_ok:
  assumes "list_all2 (prints_text format (Suc depth)) pvs ts" "pr_ok p" "pr_format p = format" "pr_depth p = depth"
  shows "outcome pending p (opt_app (Some [LBRACKET]) (opt_app (elements_text format ts) (Some [RBRACKET]))) (print_array pvs p)"
  unfolding print_array_def
  using assms emit_plain [of p "[LBRACKET]"] emit_pending [of _ 2 "[RBRACKET]" 0]
  by (intro bracket_ok array_elements_ok) (auto dest!: writtenD)

lemma print_object_ok:
  assumes "list_all2 (prints_text format (Suc depth)) pvs ts" "length ks = length ts" "pr_ok p" "pr_format p = format"
    "pr_depth p = depth" "list_all string_fits ks"
  shows "outcome pending p (opt_app (Some (if format then [LBRACE, 10] else [LBRACE]))
      (opt_app (members_text format (Suc depth) (zip ks ts)) (Some ((if format then replicate depth 9 else []) @ [RBRACE]))))
    (print_object (zip ks pvs) p)"
proof -
  have brace: "outcome pending p' (Some ((if format then replicate depth 9 else []) @ [RBRACE]))
      (emit (if pr_format p' then pr_depth p' + 1 else 2)
        ((if pr_format p' then replicate (pr_depth p' - 1) 9 else []) @ [RBRACE, 0]) 0 p')"
    if "pr_ok p'" "pr_format p' = format" "pr_depth p' = Suc depth" for p'
    using emit_pending [OF that(1), of "Suc (Suc depth)" "replicate depth 9 @ [RBRACE]" 0]
      emit_pending [OF that(1), of 2 "[RBRACE]" 0] that(2,3) by simp
  have "outcome written p (Some (if format then [LBRACE, 10] else [LBRACE]))
      (let open_text = (if pr_format p then [LBRACE, 10] else [LBRACE])
       in emit (length open_text + 1) open_text (length open_text) p)"
    using emit_written [of p "[LBRACE, 10]" "[]" 3] emit_written [of p "[LBRACE]" "[]" 2] assms
    by (simp add: eval_nat_numeral)
  then show ?thesis
    unfolding print_object_def
    using assms brace by (intro bracket_ok object_members_ok) (auto dest!: writtenD)
qed

section \<open>Values\<close>

lemma elements_text_nonzero:
  "\<forall>x. Some x \<in> set ts \<longrightarrow> 0 \<notin> set x \<Longrightarrow> elements_text format ts = Some y \<Longrightarrow> 0 \<notin> set y"
proof (induction format ts arbitrary: y rule: elements_text.induct)
  case (3 format t u ts)
  then obtain a b where ab: "t = Some a" "elements_text format (u # ts) = Some b"
    "y = a @ (if format then [COMMA, 32] else [COMMA]) @ b"
    by (auto simp: opt_app_eq_Some)
  have "0 \<notin> set b" using 3 ab(2) by (meson list.set_intros(2))
  moreover have "0 \<notin> set a" using 3(2) ab(1) by auto
  ultimately show ?case unfolding ab(3) by auto
qed auto

lemma members_text_nonzero:
  "\<forall>x. Some x \<in> snd ` set ts \<longrightarrow> 0 \<notin> set x \<Longrightarrow> members_text format depth ts = Some y \<Longrightarrow> 0 \<notin> set y"
proof (induction format depth ts arbitrary: y rule: members_text.induct)
  case (2 format depth k t ts)
  then obtain a b where ab: "t = Some a" "members_text format depth ts = Some b"
    "y = ((if format then replicate depth 9 else []) @ string_text k @ (if format then [COLON, 9] else [COLON])) @ a @
      ((if ts \<noteq> [] then [COMMA] else []) @ (if format then [10] else [])) @ b"
    by (auto simp: opt_app_eq_Some)
  have "0 \<notin> set b" using 2 ab(2) by auto
  moreover have "0 \<notin> set a" using 2(2) ab(1) by auto
  ultimately show ?case using string_text_nonzero [of k] unfolding ab(3) by auto
qed simp

lemma print_value_prints:
  assumes "numbers_fit fl" "strings_fit item"
  shows "prints_text format depth (print_value fl item) (render fl format item depth)"
  using assms(2)
proof (induction item arbitrary: depth)
  case (CJSON item children)
  let ?ts = "map (\<lambda>f. f (depth + 1)) (map (render fl format) children)"
  have all: "list_all2 (prints_text format (Suc depth)) (map (print_value fl) children) ?ts"
    using CJSON by (simp add: list_all2_map1 list_all2_map2 list_all2_same list_all_iff)
  have nz: "\<forall>x. Some x \<in> set ?ts \<longrightarrow> 0 \<notin> set x"
    using CJSON by (fastforce simp: prints_text_def list_all_iff)
  have nz2: "\<forall>x. Some x \<in> snd ` set (zip ks ?ts) \<longrightarrow> 0 \<notin> set x" for ks
    using nz set_zip_rightD by fastforce
  have nzE: "0 \<notin> set y" if "elements_text format ?ts = Some y" for y
    using elements_text_nonzero [OF nz that] .
  have nzM: "0 \<notin> set y" if "members_text format (depth + 1) (zip ks ?ts) = Some y" for ks y
    using members_text_nonzero [OF nz2 that] .
  have str: "0 \<notin> set (cstr v)" for v by (auto simp: cstr_def dest: set_takeWhileD)
  have fits: "string_fits (c_valuestring item)" "list_all string_fits (map (\<lambda>c. c_string (c_node c)) children)"
    using CJSON.prems by (simp_all add: list_all_iff)
  have lits: "outcome pending p (Some NULL_text) (emit 5 (NULL_text @ [0]) 0 p)"
    "outcome pending p (Some FALSE_text) (emit 6 (FALSE_text @ [0]) 0 p)"
    "outcome pending p (Some TRUE_text) (emit 5 (TRUE_text @ [0]) 0 p)" if "pr_ok p" for p
    by (rule emit_pending [OF that]; simp add: NULL_text_def FALSE_text_def TRUE_text_def)+
  have zero: "0 \<notin> set x" if "render fl format (CJSON item children) depth = Some x" for x
    using that number_text_fits(2) [OF assms(1)] str string_text_nonzero nzE nzM
    unfolding render.simps Let_def
    by (auto simp: opt_app_eq_Some NULL_text_def FALSE_text_def TRUE_text_def simp del: map_map add_Suc_right Suc_eq_plus1 One_nat_def split: if_split_asm)
  have raw: "outcome pending p (map_option cstr v) (case v of None \<Rightarrow> Inr (False, p)
        | Some s \<Rightarrow> emit (length (cstr s) + 1) (cstr s @ [0]) 0 p)" if "pr_ok p" for p v
    using emit_pending [OF that refl] by (cases v) (auto simp: outcome_def gave_up_def)
  have none: "outcome pending p None (Inr (False, p))" for p by (auto simp: outcome_def gave_up_def)
  have "outcome pending p (render fl format (CJSON item children) depth) (print_value fl (CJSON item children) p)"
    if p: "pr_ok p" "pr_format p = format" "pr_depth p = depth" for p
    unfolding render.simps print_value.simps Let_def print_string_def
    using lits [OF p(1)] print_number_ok [OF p(1) assms(1), of item] raw [OF p(1), of "c_valuestring item"]
      print_string_ptr_ok [OF p(1) fits(1)] print_array_ok [OF all p]
      print_object_ok [OF all _ p fits(2)] none
    by (simp del: map_map)
  with zero show ?case by (simp add: prints_text_def)
qed

section \<open>The entry points\<close>

lemma print_value_ok:
  assumes "numbers_fit fl" "strings_fit it" "pr_ok p" "pr_depth p = 0"
  shows "outcome pending p (render fl (pr_format p) it 0) (print_value fl it p)"
  using print_value_prints [OF assms(1,2), of "pr_format p" 0] assms(3,4) by (simp add: prints_text_def)

lemma print_value_moving_on:
  assumes "numbers_fit fl" "strings_fit it" "pr_ok p" "pr_depth p = 0"
  shows "outcome terminated p (render fl (pr_format p) it 0) (moving_on (print_value fl it p))"
  using print_value_prints [OF assms(1,2), of "pr_format p" 0] assms(3,4)
  by (intro moving_on_terminated) (auto simp: prints_text_def)

lemma pr_ok_new_buffer: "0 < n \<or> r \<Longrightarrow> pr_ok (new_buffer n f r m c)"
  by (auto simp: pr_ok_def new_buffer_def)

lemma new_buffer_simps [simp]:
  "pr_depth (new_buffer n f r m c) = 0" "pr_format (new_buffer n f r m c) = f" "pr_offset (new_buffer n f r m c) = 0"
  "pr_noalloc (new_buffer n f r m c) = False" "pr_realloc (new_buffer n f r m c) = r"
  by (simp_all add: new_buffer_def)

lemma budget_new_buffer: "23 < m \<Longrightarrow> budget (new_buffer 256 f r m c)"
proof -
  assume "23 < m"
  then have "(2 :: nat) ^ 23 \<le> 2 ^ (m - 1)" by (intro power_increasing) auto
  then have "2147483647 \<le> 2 ^ (m - 1) * (256 :: nat)" by simp
  then show ?thesis using \<open>23 < m\<close> by (simp add: budget_def new_buffer_def max_int_def)
qed

text \<open>\<open>print\<close> never leaves its block; what it returns is the text of the item with its terminating zero.\<close>

lemma print_result:
  assumes "numbers_fit fl" "strings_fit it"
  obtains (good) t where "print fl (Some it) format reallocate mem contents = Inr (Some (t @ [0]))"
      "render fl format it 0 = Some t"
    | (failed) "print fl (Some it) format reallocate mem contents = Inr None"
      "mem < 25 \<or> (\<forall>t. render fl format it 0 = Some t \<longrightarrow> max_int < length t + 2)"
proof (cases "mem = 0")
  case True
  then show ?thesis using failed by (simp add: print_def)
next
  case False
  let ?p = "new_buffer 256 format reallocate (mem - 1) contents"
  have ok: "pr_ok ?p" by (simp add: pr_ok_new_buffer)
  have "outcome terminated ?p (render fl format it 0) (moving_on (print_value fl it ?p))"
    using print_value_moving_on [OF assms ok] by simp
  then obtain okay p' where r: "moving_on (print_value fl it ?p) = Inr (okay, p')"
    "if okay then \<exists>x. render fl format it 0 = Some x \<and> terminated ?p x p' else gave_up ?p (render fl format it 0)"
    unfolding outcome_def by blast
  show ?thesis
  proof (cases okay)
    case no: False
    have "print fl (Some it) format reallocate mem contents = Inr None" using r(1) False no by (simp add: print_def)
    moreover have "mem < 25 \<or> (\<forall>t. render fl format it 0 = Some t \<longrightarrow> max_int < length t + 2)"
      using r(2) no budget_new_buffer [of "mem - 1" format reallocate contents] by (auto simp: gave_up_def no_room_def)
    ultimately show ?thesis by (rule failed)
  next
    case True
    then obtain t where t: "render fl format it 0 = Some t" "terminated ?p t p'" using r(2) by auto
    then have p': "pr_ok p'" "same_config ?p p'" "pr_offset p' = length t" "take (length t + 1) (block p') = t @ [0]"
      by (auto simp: terminated_def written_def)
    then obtain buf where buf: "pr_buffer p' = Some buf" "length buf = pr_length p'" "take (length t + 1) buf = t @ [0]"
      by (auto simp: pr_ok_def block_def)
    then have len: "length t + 1 \<le> pr_length p'" by (metis length_append length_append_singleton length_take min_def nat_le_linear Suc_eq_plus1)
    show ?thesis
    proof (cases "pr_mem p' = 0")
      case none: True
      have "\<not> 23 < mem - 1"
        using none p'(2) budget_new_buffer [of "mem - 1" format reallocate contents] unfolding same_config_def
        by (metis budget_def less_irrefl)
      then have "mem < 25" by simp
      moreover have "print fl (Some it) format reallocate mem contents = Inr None" using r(1) False True none by (simp add: print_def)
      ultimately show ?thesis using failed by blast
    next
      case some: False
      have "(t @ [0])[length t := 0] = t @ [0 :: u8]" by simp
      then have "print fl (Some it) format reallocate mem contents = Inr (Some (t @ [0]))"
        using r(1) False True some buf p'(3) len by (simp add: print_def min_def)
      then show ?thesis using good t(1) by blast
    qed
  qed
qed

lemma print_preallocated_result:
  assumes "numbers_fit fl" "strings_fit it" "length buf = unat len" "0 \<le> sint len" "0 < unat len"
  obtains (good) t buf' where "cJSON_PrintPreallocated fl (Some it) (Some buf) len format = Inr (True, Some buf')"
      "render fl format it 0 = Some t" "length buf' = length buf" "take (length t + 1) buf' = t @ [0]"
    | (failed) buf' where "cJSON_PrintPreallocated fl (Some it) (Some buf) len format = Inr (False, buf')"
      "\<forall>t. render fl format it 0 = Some t \<longrightarrow> unat len < length t + 2"
proof -
  define p where "p = \<lparr>pr_buffer = Some buf, pr_length = unat len, pr_offset = 0, pr_depth = 0, pr_noalloc = True,
             pr_format = format, pr_realloc = True, pr_mem = 0, pr_junk = (\<lambda>_. 0)\<rparr>"
  have "pr_ok p" using assms by (simp add: p_def pr_ok_def)
  then have "outcome pending p (render fl format it 0) (print_value fl it p)"
    using print_value_ok [OF assms(1,2), of p] by (simp add: p_def)
  then obtain okay p' where r: "print_value fl it p = Inr (okay, p')"
    "if okay then \<exists>x. render fl format it 0 = Some x \<and> pending p x p' else gave_up p (render fl format it 0)"
    unfolding outcome_def by blast
  have eq: "cJSON_PrintPreallocated fl (Some it) (Some buf) len format = Inr (okay, pr_buffer p')"
    using r(1) assms(4) by (simp add: cJSON_PrintPreallocated_def p_def)
  show ?thesis
  proof (cases okay)
    case True
    then obtain t where t: "render fl format it 0 = Some t" "pending p t p'" using r(2) by auto
    then obtain buf' where "pr_buffer p' = Some buf'" "length buf' = pr_length p'" "take (length t + 1) buf' = t @ [0]"
      by (auto simp: pending_def pr_ok_def block_def p_def)
    moreover have "pr_length p' = unat len" using t(2) by (simp add: pending_def same_config_def p_def)
    ultimately show ?thesis using good [of buf' t] t(1) eq True assms(3) by simp
  next
    case False
    have "unat len \<le> max_int" using assms(4) by (simp add: sint_32_nonneg_iff max_int_def)
    then have "\<forall>t. render fl format it 0 = Some t \<longrightarrow> unat len < length t + 2"
      using False r(2) by (auto simp: gave_up_def no_room_def p_def)
    then show ?thesis using eq False failed by simp
  qed
qed

lemma print_buffered_result:
  assumes "numbers_fit fl" "strings_fit it" "0 < unat prebuffer \<or> reallocate"
  obtains (good) t out where
      "cJSON_PrintBuffered fl (Some it) prebuffer fmt reallocate mem contents = Inr (Some out)"
      "render fl fmt it 0 = Some t" "take (length t + 1) out = t @ [0]"
    | (failed) "cJSON_PrintBuffered fl (Some it) prebuffer fmt reallocate mem contents = Inr None"
proof (cases "sint prebuffer < 0 \<or> mem = 0")
  case True
  then show ?thesis using failed by (auto simp: cJSON_PrintBuffered_def)
next
  case False
  let ?p = "new_buffer (unat prebuffer) fmt reallocate (mem - 1) contents"
  have "outcome pending ?p (render fl fmt it 0) (print_value fl it ?p)"
    using print_value_ok [OF assms(1,2) pr_ok_new_buffer [OF assms(3)], of fmt "mem - 1" contents] by simp
  then obtain okay p' where r: "print_value fl it ?p = Inr (okay, p')"
    "if okay then \<exists>x. render fl fmt it 0 = Some x \<and> pending ?p x p' else gave_up ?p (render fl fmt it 0)"
    unfolding outcome_def by blast
  show ?thesis
  proof (cases okay)
    case True
    then obtain t where t: "render fl fmt it 0 = Some t" "pending ?p t p'" using r(2) by auto
    then obtain out where "pr_buffer p' = Some out" "take (length t + 1) out = t @ [0]"
      by (auto simp: pending_def pr_ok_def block_def)
    then show ?thesis using good [of out t] t(1) r(1) True False by (simp add: cJSON_PrintBuffered_def)
  next
    case no: False
    then show ?thesis using failed r(1) False by (simp add: cJSON_PrintBuffered_def)
  qed
qed

section \<open>Properties\<close>

text \<open>C7. Printing refines the specification \<open>render\<close>. Formatted or not, with \<open>realloc\<close> or without it,
  and however much memory there is, \<open>cJSON_Print\<close> and \<open>cJSON_PrintUnformatted\<close> return without a write or
  read outside the block. Either the result is the text of the document and its terminator, nothing
  more; or it is the null pointer, and then one of 25 allocations failed, the document has no text (an item of
  an invalid type in it) or its text does not fit \<open>INT_MAX\<close>. The hypotheses bound what
  \<open>sprintf\<close> makes of one number, and ask that the printed form of each single string or name is smaller than
  \<open>2 ^ 32\<close> bytes: the code computes its size in \<open>size_t\<close>, which wraps around for a longer one
  (\<open>long_string_overruns\<close>).\<close>

theorem print_refines_render:
  assumes "numbers_fit fl" "strings_fit it"
  shows "((\<exists>t. cJSON_Print fl (Some it) reallocate mem contents = Inr (Some (t @ [0])) \<and> render fl True it 0 = Some t) \<or>
      cJSON_Print fl (Some it) reallocate mem contents = Inr None \<and>
      (mem < 25 \<or> (\<forall>t. render fl True it 0 = Some t \<longrightarrow> max_int < length t + 2))) \<and>
     ((\<exists>t. cJSON_PrintUnformatted fl (Some it) reallocate mem contents = Inr (Some (t @ [0])) \<and>
        render fl False it 0 = Some t) \<or>
      cJSON_PrintUnformatted fl (Some it) reallocate mem contents = Inr None \<and>
      (mem < 25 \<or> (\<forall>t. render fl False it 0 = Some t \<longrightarrow> max_int < length t + 2)))"
proof
  show "(\<exists>t. cJSON_Print fl (Some it) reallocate mem contents = Inr (Some (t @ [0])) \<and> render fl True it 0 = Some t) \<or>
      cJSON_Print fl (Some it) reallocate mem contents = Inr None \<and>
      (mem < 25 \<or> (\<forall>t. render fl True it 0 = Some t \<longrightarrow> max_int < length t + 2))"
    by (cases rule: print_result [OF assms, of True reallocate mem contents]) (auto simp: cJSON_Print_def)
  show "(\<exists>t. cJSON_PrintUnformatted fl (Some it) reallocate mem contents = Inr (Some (t @ [0])) \<and>
        render fl False it 0 = Some t) \<or>
      cJSON_PrintUnformatted fl (Some it) reallocate mem contents = Inr None \<and>
      (mem < 25 \<or> (\<forall>t. render fl False it 0 = Some t \<longrightarrow> max_int < length t + 2))"
    by (cases rule: print_result [OF assms, of False reallocate mem contents])
       (auto simp: cJSON_PrintUnformatted_def)
qed

text \<open>A floating-point unit that has the digits only, and the document \<open>[true,3]\<close>.\<close>

definition digit_flt :: "nat flt" where
  "digit_flt = \<lparr>f_zero = 0, f_strtod = (\<lambda>s. (0, 0)), f_ge_int_max = (\<lambda>x. False), f_le_int_min = (\<lambda>x. False),
     f_to_int = of_nat, f_finite = (\<lambda>x. True), f_print15 = (\<lambda>x. [[48, 49, 50, 51, 52, 53, 54, 55, 56, 57] ! (x mod 10)]),
     f_print17 = (\<lambda>x. [49]), f_scan = (\<lambda>s. Some (unat (hd s) - 48)), f_close = (=)\<rparr>"

definition demo_doc :: "nat cJSON" where
  "demo_doc =
     (let node = (\<lambda>t d. \<lparr>c_type = t, c_valuestring = None, c_valueint = 0, c_valuedouble = d, c_string = None\<rparr>)
      in CJSON (node cJSON_Array 0) [CJSON (node cJSON_True 0) [], CJSON (node cJSON_Number 3) []])"

lemma digit_not_zero: "0 \<noteq> [48, 49, 50, 51, 52, 53, 54, 55, 56, 57 :: u8] ! (x mod 10)"
proof -
  let ?ds = "[48, 49, 50, 51, 52, 53, 54, 55, 56, 57 :: u8]"
  have "?ds ! (x mod 10) \<in> set ?ds" by (rule nth_mem) simp
  moreover have "0 \<notin> set ?ds" by simp
  ultimately show ?thesis by metis
qed

lemma numbers_fit_digit: "numbers_fit digit_flt"
  by (simp add: numbers_fit_def digit_flt_def digit_not_zero)

lemma demo_strings_fit: "strings_fit demo_doc"
  by (simp add: demo_doc_def string_fits_def string_text_def Let_def)

lemma render_demo: "render digit_flt False demo_doc 0 = Some [91, 116, 114, 117, 101, 44, 51, 93]"
  by (simp add: demo_doc_def digit_flt_def opt_app_def number_text_def compare_double_def TRUE_text_def Let_def)

theorem print_refines_render_witness:
  "cJSON_PrintUnformatted digit_flt (Some demo_doc) True 30 (\<lambda>i. 0) =
     Inr (Some [91, 116, 114, 117, 101, 44, 51, 93, 0])"
  using print_refines_render [OF numbers_fit_digit demo_strings_fit, of True 30 "\<lambda>i. 0"]
  by (auto simp: render_demo max_int_def)

text \<open>\<open>cJSON_PrintPreallocated\<close> writes only inside the caller's array, whatever its size. When it
  returns true the array starts with the text and its terminator; it returns false only when the
  array is shorter than the text, its terminator and one spare byte, or the document has no text.\<close>

theorem print_into_array:
  assumes "numbers_fit fl" "strings_fit it" "length buf = unat len" "0 \<le> sint len" "0 < unat len"
  shows "(\<exists>t buf'. cJSON_PrintPreallocated fl (Some it) (Some buf) len format = Inr (True, Some buf') \<and>
      render fl format it 0 = Some t \<and> length buf' = length buf \<and> take (length t + 1) buf' = t @ [0]) \<or>
    (\<exists>buf'. cJSON_PrintPreallocated fl (Some it) (Some buf) len format = Inr (False, buf') \<and>
      (\<forall>t. render fl format it 0 = Some t \<longrightarrow> unat len < length t + 2))"
  by (cases rule: print_preallocated_result [OF assms, of format]) blast+

theorem print_into_array_witness:
  "\<exists>buf'. cJSON_PrintPreallocated digit_flt (Some demo_doc) (Some (replicate 12 7)) 12 False =
     Inr (True, Some buf') \<and> take (length (the (render digit_flt False demo_doc 0)) + 1) buf' = [91, 116, 114, 117, 101, 44, 51, 93, 0]"
  using print_into_array [OF numbers_fit_digit demo_strings_fit, of "replicate 12 7" 12 False]
  by (auto simp: render_demo)

text \<open>\<open>cJSON_PrintBuffered\<close> with a positive initial size, or with \<open>realloc\<close>, returns a block that starts
  with the text of the document and its terminator, or the null pointer. With size 0 and allocation hooks
  that have no \<open>realloc\<close> it is not safe: the first growth copies one byte out of the empty block.\<close>

theorem print_buffered:
  assumes "numbers_fit fl" "strings_fit it"
  shows "(0 < unat prebuffer \<or> reallocate \<longrightarrow>
      cJSON_PrintBuffered fl (Some it) prebuffer fmt reallocate mem contents = Inr None \<or>
      (\<exists>t out. cJSON_PrintBuffered fl (Some it) prebuffer fmt reallocate mem contents = Inr (Some out) \<and>
        render fl fmt it 0 = Some t \<and> take (length t + 1) out = t @ [0])) \<and>
     (c_type (c_node it) AND 0xFF = cJSON_NULL \<and> 1 < mem \<longrightarrow>
      cJSON_PrintBuffered fl (Some it) 0 fmt False mem contents = Inl Read_out_of_bounds)"
proof
  show "0 < unat prebuffer \<or> reallocate \<longrightarrow>
      cJSON_PrintBuffered fl (Some it) prebuffer fmt reallocate mem contents = Inr None \<or>
      (\<exists>t out. cJSON_PrintBuffered fl (Some it) prebuffer fmt reallocate mem contents = Inr (Some out) \<and>
        render fl fmt it 0 = Some t \<and> take (length t + 1) out = t @ [0])"
    by (intro impI, cases rule: print_buffered_result [OF assms, of prebuffer reallocate fmt mem contents]) blast+
  show "c_type (c_node it) AND 0xFF = cJSON_NULL \<and> 1 < mem \<longrightarrow>
      cJSON_PrintBuffered fl (Some it) 0 fmt False mem contents = Inl Read_out_of_bounds"
    by (cases it) (simp add: cJSON_PrintBuffered_def new_buffer_def emit_def ensure_def and_then_def
        read_bytes_def max_int_def)
qed

theorem print_buffered_witness:
  "(\<exists>out. cJSON_PrintBuffered digit_flt (Some demo_doc) 4 False True 0 (\<lambda>i. 0) = Inr out) \<and>
   cJSON_PrintBuffered digit_flt
     (Some (CJSON \<lparr>c_type = cJSON_NULL, c_valuestring = None, c_valueint = 0, c_valuedouble = 0, c_string = None\<rparr> []))
     0 False False 2 (\<lambda>i. 0) = Inl Read_out_of_bounds"
proof
  show "\<exists>out. cJSON_PrintBuffered digit_flt (Some demo_doc) 4 False True 0 (\<lambda>i. 0) = Inr out"
    using print_buffered [OF numbers_fit_digit demo_strings_fit, of 4 True False 0 "\<lambda>i. 0"] by auto
  show "cJSON_PrintBuffered digit_flt
     (Some (CJSON \<lparr>c_type = cJSON_NULL, c_valuestring = None, c_valueint = 0, c_valuedouble = 0, c_string = None\<rparr> []))
     0 False False 2 (\<lambda>i. 0) = Inl Read_out_of_bounds"
    by (rule print_buffered [OF numbers_fit_digit, THEN conjunct2, THEN mp]) (simp_all add: string_fits_def string_text_def)
qed

end
