(* ===== verification/Json_Safe.thy ===== *)
theory Json_Safe
  imports Json_Parse
begin

text \<open>
  Safety and termination of the parser: for every text, \<open>cJSON_Parse\<close> returns, reads only inside the
  text, writes only inside the strings it has allocated, never nests deeper than the limit and
  reports an error position inside the text.
\<close>

unbundle bit_operations_syntax

section \<open>The size of an unescaped string\<close>

text \<open>The search for the closing quote pairs every backslash with the next byte. \<open>starts\<close> counts the
  pairs, where the flag says that the first byte belongs to a pair already begun, and \<open>in_pair\<close> is the
  flag behind the bytes. The second loop may fall out of step with these pairs, since a \<open>u\<close> escape
  takes its bytes as they come.\<close>

fun starts :: "bool \<Rightarrow> bytes \<Rightarrow> nat" where
  "starts f [] = 0"
| "starts True (c # cs) = starts False cs"
| "starts False (c # cs) = (if c = BACKSLASH then Suc (starts True cs) else starts False cs)"

fun in_pair :: "bool \<Rightarrow> bytes \<Rightarrow> bool" where
  "in_pair f [] = f"
| "in_pair True (c # cs) = in_pair False cs"
| "in_pair False (c # cs) = in_pair (c = BACKSLASH) cs"

lemma starts_append: "starts f (xs @ ys) = starts f xs + starts (in_pair f xs) ys"
  by (induction f xs rule: starts.induct) auto

lemma in_pair_append: "in_pair f (xs @ ys) = in_pair (in_pair f xs) ys"
  by (induction f xs rule: in_pair.induct) auto

lemma starts_half: "2 * starts f cs \<le> length cs + (if f then 0 else 1)"
  by (induction f cs rule: starts.induct) auto

lemma starts_le: "starts f cs \<le> length cs"
  by (induction f cs rule: starts.induct) auto

lemma string_end_Some:
  assumes "string_end cs n k = Some (n', k')"
  shows "\<exists>lit rest. cs = lit @ QUOTE # rest \<and> n' = n + length lit \<and> k' = k + starts False lit \<and>
    \<not> in_pair False lit"
  using assms
proof (induction cs n k rule: string_end.induct)
  case (2 c cs n k)
  consider "c = QUOTE" | (pair) d ds where "c = BACKSLASH" "cs = d # ds" "string_end ds (n + 2) (k + 1) = Some (n', k')"
    | (plain) "c \<noteq> QUOTE" "c \<noteq> BACKSLASH" "string_end cs (n + 1) k = Some (n', k')"
    using 2(3) by (cases cs) (auto split: if_splits)
  then show ?case
  proof cases
    case 1
    then show ?thesis using 2(3) by (intro exI [of _ "[]"] exI [of _ cs]) simp
  next
    case pair
    then obtain lit rest where "ds = lit @ QUOTE # rest" "n' = n + 2 + length lit" "k' = k + 1 + starts False lit" "\<not> in_pair False lit"
      using 2(1) by auto
    then show ?thesis using pair by (intro exI [of _ "c # d # lit"] exI [of _ rest]) simp
  next
    case plain
    then obtain lit rest where "cs = lit @ QUOTE # rest" "n' = n + 1 + length lit" "k' = k + starts False lit" "\<not> in_pair False lit"
      using 2(2) by auto
    then show ?thesis using plain by (intro exI [of _ "c # lit"] exI [of _ rest]) simp
  qed
qed simp

lemma length_utf8_tail: "utf8_tail n cp out = (r, out') \<Longrightarrow> length out' = n + length out"
  by (induction n cp out rule: utf8_tail.induct) auto

lemma length_utf8_encode:
  "utf8_encode cp = Some bs \<Longrightarrow> length bs \<le> (if cp < 0x10000 then 3 else 4)"
  by (auto simp: utf8_encode_def Let_def dest: length_utf8_tail split: if_splits prod.splits)

lemma hex_loop_total: "n \<le> length input \<Longrightarrow> \<exists>h. hex_loop n h0 input = Inr h"
  by (induction n h0 input rule: hex_loop.induct) (auto split: option.splits)

lemma unat_ucast_8_32 [simp]: "unat (ucast (c :: u8) :: u32) = unat c"
  by (simp add: unsigned_ucast_eq take_bit_nat_eq_self order.strict_trans2 [OF unsigned_less])

lemma hex_digit_bound: "hex_digit c = Some d \<Longrightarrow> unat d < 16"
  by (auto simp: hex_digit_def unat_word_ariths unat_sub_if' word_le_nat_alt split: if_splits)

text \<open>Four hexadecimal digits: before the last \<open>m + 1\<close> of them \<open>h\<close> is a multiple of 16 below \<open>16 ^ (4 - m)\<close>.\<close>

lemma hex_loop_bound:
  "hex_loop (Suc m) h input = Inr r \<Longrightarrow> m \<le> 3 \<Longrightarrow> unat h + 16 \<le> 16 ^ (4 - m) \<Longrightarrow> unat r < 65536"
proof (induction m arbitrary: h input)
  case 0
  then show ?case
    using hex_digit_bound by (cases input) (fastforce simp: unat_word_ariths split: option.splits)+
next
  case (Suc m)
  then obtain c cs where c: "input = c # cs" by (cases input) auto
  show ?case
  proof (cases "hex_digit c")
    case None
    then show ?thesis using Suc.prems c by simp
  next
    case (Some d)
    let ?h = "push_bit 4 (h + d)"
    have "(16 :: nat) ^ (4 - Suc m) \<le> 16 ^ 3" by (rule power_increasing) simp_all
    then have b: "unat h + unat d < 4096" "unat h + unat d + 1 \<le> 16 ^ (4 - Suc m)"
      using Suc.prems(3) hex_digit_bound [OF Some] by simp_all
    then have "unat ?h = (unat h + unat d) * 16"
      by (simp add: push_bit_eq_mult unat_word_ariths)
    moreover have "(16 :: nat) ^ (4 - m) = 16 ^ (4 - Suc m) * 16"
      using Suc.prems(2) by (simp add: Suc_diff_le flip: power_Suc2) (simp add: Suc_diff_le numeral_eq_Suc)
    ultimately have "unat ?h + 16 \<le> 16 ^ (4 - m)" using b(2) by simp
    then show ?thesis using Suc.IH [of ?h cs] Suc.prems(1,2) c Some by simp
  qed
qed

lemma parse_hex4_ok:
  assumes "4 \<le> length input"
  shows "\<exists>h. parse_hex4 input = Inr h \<and> h < 0x10000"
proof -
  have eq: "parse_hex4 input = hex_loop (Suc 3) 0 input"
    unfolding parse_hex4_def by (rule arg_cong [where f = "\<lambda>n. hex_loop n 0 input"]) simp
  obtain h where h: "hex_loop (Suc 3) 0 input = Inr h" using hex_loop_total [of "Suc 3" input 0] assms by auto
  then have "unat h < 65536" by (rule hex_loop_bound) simp_all
  then show ?thesis using h by (simp add: eq word_less_nat_alt)
qed

lemma utf16_literal_cases:
  "\<exists>sl bs. utf16_literal_to_utf8 input = Inr (sl, bs) \<and>
     (sl = 0 \<or> sl = 6 \<and> 6 \<le> length input \<and> length bs \<le> 3 \<or> sl = 12 \<and> 12 \<le> length input \<and> length bs \<le> 4)"
proof (cases "length input < 6")
  case True
  then show ?thesis by (simp add: utf16_literal_to_utf8_def)
next
  case False
  have "4 \<le> length (drop 2 input)" using False by simp
  then obtain h where h: "parse_hex4 (drop 2 input) = Inr h" "h < 0x10000" using parse_hex4_ok by blast
  have len: "length bs \<le> 4" if "utf8_encode cp = Some bs" for cp bs
    using length_utf8_encode [OF that] by (auto split: if_splits)
  show ?thesis
  proof (cases "0xD800 \<le> h \<and> h \<le> 0xDBFF")
    case True
    then have low: "\<not> (0xDC00 \<le> h \<and> h \<le> 0xDFFF)" by (auto simp: word_le_nat_alt)
    show ?thesis
    proof (cases "length input < 12 \<or> input ! 6 \<noteq> BACKSLASH \<or> input ! 7 \<noteq> 117")
      case no: True
      have "utf16_literal_to_utf8 input = Inr (0, [])"
        using False h(1) True low no by (cases "length input < 12") (auto simp: utf16_literal_to_utf8_def Let_def)
      then show ?thesis by blast
    next
      case yes: False
      then have "4 \<le> length (drop 8 input)" by auto
      then obtain h2 where h2: "parse_hex4 (drop 8 input) = Inr h2" using parse_hex4_ok by blast
      let ?cp = "0x10000 + (push_bit 10 (h AND 0x3FF) OR (h2 AND 0x3FF)) :: u32"
      have "utf16_literal_to_utf8 input =
          (if h2 < 0xDC00 \<or> h2 > 0xDFFF then Inr (0, [])
           else case utf8_encode ?cp of None \<Rightarrow> Inr (0, []) | Some out \<Rightarrow> Inr (12, out))"
      proof -
        have a: "length input \<ge> 12" "input ! 6 = BACKSLASH" "input ! 7 = 117" using yes by auto
        then have d: "\<not> length (drop 6 input) < 6" "drop 6 input ! 0 = BACKSLASH" "drop 6 input ! 1 = 117"
          "drop 2 (drop 6 input) = drop 8 input" by simp_all
        show ?thesis
          unfolding utf16_literal_to_utf8_def Let_def d(4) h2 h(1) bind_result_simps
          using False True low d(1-3) by (auto simp del: length_drop nth_drop)
      qed
      then show ?thesis using yes len [of ?cp] by (auto split: if_splits option.splits)
    qed
  next
    case no: False
    have "utf16_literal_to_utf8 input =
        (if 0xDC00 \<le> h \<and> h \<le> 0xDFFF then Inr (0, [])
         else case utf8_encode h of None \<Rightarrow> Inr (0, []) | Some out \<Rightarrow> Inr (6, out))"
      using False h(1) no by (auto simp: utf16_literal_to_utf8_def)
    then show ?thesis using False h(2) length_utf8_encode [of h] by (auto split: if_splits option.splits)
  qed
qed

lemma unescape_ok:
  assumes "e < length content" "\<not> in_pair f (take (e - p) (drop p content))"
  shows "\<exists>ok p' out'. unescape content e p out = Inr (ok, p', out') \<and> p' \<le> max p (e + 1) \<and>
     length out' + starts f (take (e - p) (drop p content)) \<le> length out + (e - p)"
  using assms
proof (induction "e - p" arbitrary: p out f rule: less_induct)
  case less
  let ?cs = "take (e - p) (drop p content)"
  show ?case
  proof (cases "p < e")
    case False
    then have "unescape content e p out = Inr (True, p, out)" by (simp add: unescape.simps)
    then show ?thesis using False by auto
  next
    case True
    have rd: "read_at content p = Inr (content ! p)" "read_at content (p + 1) = Inr (content ! (p + 1))"
      using True less.prems(1) by (simp_all add: read_at_def)
    have step: ?thesis if n: "unescape content e p out = unescape content e (p + k) (out @ bs)" "0 < k" "p + k \<le> e"
        "length bs + starts f (take k ?cs) \<le> k" for k bs
    proof -
      have cs: "?cs = take k ?cs @ take (e - (p + k)) (drop (p + k) content)"
        using n(3) by (metis add.commute append_take_drop_id diff_diff_left drop_drop drop_take)
      let ?f = "in_pair f (take k ?cs)"
      have "\<not> in_pair ?f (take (e - (p + k)) (drop (p + k) content))"
        using less.prems(2) by (subst (asm) cs) (simp add: in_pair_append)
      moreover have "e - (p + k) < e - p" using n(2) True by simp
      ultimately obtain ok p' out' where "unescape content e (p + k) (out @ bs) = Inr (ok, p', out')"
        "p' \<le> max (p + k) (e + 1)"
        "length out' + starts ?f (take (e - (p + k)) (drop (p + k) content)) \<le> length (out @ bs) + (e - (p + k))"
        using less.hyps by (metis less.prems(1))
      moreover have "starts f ?cs = starts f (take k ?cs) + starts ?f (take (e - (p + k)) (drop (p + k) content))"
        by (subst cs) (simp add: starts_append)
      ultimately show ?thesis using n by auto
    qed
    have cs: "?cs = content ! p # take (e - (p + 1)) (drop (p + 1) content)"
      using True less.prems(1) Cons_nth_drop_Suc [of p content]
      by (metis Suc_diff_Suc Suc_eq_plus1 order.strict_trans take_Suc_Cons)
    let ?c = "content ! p"
    show ?thesis
    proof (cases "?c = BACKSLASH")
      case no: False
      have "unescape content e p out = unescape content e (p + 1) (out @ [?c])"
        using True no by (subst unescape.simps) (simp only: rd bind_result_simps, simp)
      then show ?thesis using True no by (intro step [of 1 "[?c]"]; cases f; simp add: cs)
    next
      case esc: True
      let ?d = "content ! (p + 1)"
      consider (simple) x where "simple_escape ?d = Some x" | (u) "simple_escape ?d = None" "?d = 117"
        | (bad) "simple_escape ?d = None" "?d \<noteq> 117" by blast
      then show ?thesis
      proof cases
        case simple
        have eq: "unescape content e p out = unescape content e (p + 2) (out @ [x])"
          using True esc simple by (subst unescape.simps) (simp only: rd bind_result_simps, simp)
        show ?thesis
        proof (cases "p + 1 = e")
          case last: True
          then have one: "?cs = [?c]" using cs by simp
          with less.prems(2) esc have f by (cases f) simp_all
          moreover have "unescape content e (p + 2) (out @ [x]) = Inr (True, p + 2, out @ [x])"
            using last by (subst unescape.simps) simp
          ultimately show ?thesis using eq one last by auto
        next
          case False
          have "2 * starts f (take 2 ?cs) \<le> 3" using starts_half [of f "take 2 ?cs"] by (auto split: if_splits)
          then show ?thesis using eq True False by (intro step [of 2 "[x]"]) simp_all
        qed
      next
        case u
        obtain sl bs where lit: "utf16_literal_to_utf8 ?cs = Inr (sl, bs)"
          "sl = 0 \<or> sl = 6 \<and> 6 \<le> length ?cs \<and> length bs \<le> 3 \<or> sl = 12 \<and> 12 \<le> length ?cs \<and> length bs \<le> 4"
          using utf16_literal_cases [of ?cs] by blast
        have eq: "unescape content e p out = (if sl = 0 then Inr (False, p, out) else unescape content e (p + sl) (out @ bs))"
          using True esc u lit(1) by (subst unescape.simps) (simp only: rd bind_result_simps, simp)
        show ?thesis
        proof (cases "sl = 0")
          case True
          then show ?thesis using eq starts_le [of f ?cs] by auto
        next
          case False
          have "2 * starts f (take sl ?cs) \<le> sl + 1" using starts_half [of f "take sl ?cs"] by (auto split: if_splits)
          moreover have "p + sl \<le> e" using False lit(2) by auto
          ultimately show ?thesis using eq False lit(2) by (intro step [of sl bs]) auto
        qed
      next
        case bad
        have "unescape content e p out = Inr (False, p, out)"
          using True esc bad by (subst unescape.simps) (simp only: rd bind_result_simps, simp)
        then show ?thesis using starts_le [of f ?cs] by auto
      qed
    qed
  qed
qed

section \<open>The buffer between two tokens\<close>

text \<open>Between two tokens the offset is at a byte of the text or at its terminating zero.\<close>

definition at_text :: "parse_buffer \<Rightarrow> bool" where
  "at_text b \<longleftrightarrow> pb_offset b < length (pb_content b) \<and> last (pb_content b) = 0"

definition rest :: "parse_buffer \<Rightarrow> nat" where
  "rest b = length (pb_content b) - pb_offset b"

lemma content_skip [simp]:
  "pb_content (buffer_skip_whitespace b) = pb_content b"
  "pb_depth (buffer_skip_whitespace b) = pb_depth b"
  "pb_mem (buffer_skip_whitespace b) = pb_mem b"
  by (simp_all add: buffer_skip_whitespace_def Let_def)

lemma at_text_skip [simp]:
  assumes "at_text b"
  shows "at_text (buffer_skip_whitespace b)" "pb_offset b \<le> pb_offset (buffer_skip_whitespace b)"
proof -
  have "length (takeWhile (\<lambda>c. c \<le> 32) (buffer_at_offset b)) \<le> length (pb_content b) - pb_offset b"
    using length_takeWhile_le [of _ "buffer_at_offset b"] by (simp add: buffer_at_offset_def)
  then show "at_text (buffer_skip_whitespace b)" "pb_offset b \<le> pb_offset (buffer_skip_whitespace b)"
    using assms by (auto simp: at_text_def buffer_skip_whitespace_def Let_def)
qed

lemma at_text_accessible: "at_text b \<Longrightarrow> can_access_at_index b 0"
  by (simp add: at_text_def can_access_at_index_def)

text \<open>A byte other than zero is not the last one.\<close>

lemma not_last:
  assumes "last bs = 0" "i < length bs" "bs ! i \<noteq> (0 :: u8)"
  shows "i + 1 < length bs"
proof (rule ccontr)
  assume "\<not> i + 1 < length bs"
  then have "bs ! i = last bs" using assms(2) by (subst last_conv_nth) (auto simp: not_less intro: arg_cong)
  then show False using assms by simp
qed

lemma at_text_next:
  assumes "at_text b" "looking_at b c" "c \<noteq> 0"
  shows "pb_offset b + 1 < length (pb_content b)" "at_text (b\<lparr>pb_offset := pb_offset b + 1\<rparr>)"
  using assms not_last [of "pb_content b" "pb_offset b"]
  by (auto simp: at_text_def looking_at_def can_access_at_index_def)

lemma at_text_plus:
  assumes "at_text b" "pb_offset b + n \<le> length (pb_content b)" "0 < n"
    "pb_content b ! (pb_offset b + n - 1) \<noteq> 0"
  shows "at_text (b\<lparr>pb_offset := pb_offset b + n\<rparr>)"
  using assms not_last [of "pb_content b" "pb_offset b + n - 1"] by (auto simp: at_text_def)

lemma at_text_update [simp]:
  "at_text (b\<lparr>pb_mem := m\<rparr>) = at_text b" "at_text (b\<lparr>pb_depth := d\<rparr>) = at_text b"
  by (simp_all add: at_text_def)

section \<open>What every parsing function guarantees\<close>

text \<open>After success the offset has moved on, to a place in the text.\<close>

definition moved :: "parse_buffer \<Rightarrow> bool \<Rightarrow> parse_buffer \<Rightarrow> bool" where
  "moved b ok b' \<longleftrightarrow> pb_content b' = pb_content b \<and>
     (ok \<longrightarrow> at_text b' \<and> pb_offset b < pb_offset b' \<and> pb_depth b' = pb_depth b)"

lemma parse_string_ok:
  assumes "at_text b"
  shows "\<exists>ok item' b'. parse_string item b = Inr (ok, item', b') \<and> moved b ok b'"
proof (cases "pb_content b ! pb_offset b = QUOTE")
  case False
  then show ?thesis using assms by (auto simp: parse_string_def read_at_def at_text_def moved_def)
next
  case True
  have read: "read_at (pb_content b) (pb_offset b) = Inr QUOTE" using True assms by (simp add: read_at_def at_text_def)
  let ?cs = "drop (pb_offset b + 1) (pb_content b)"
  show ?thesis
  proof (cases "string_end ?cs 0 0")
    case None
    then show ?thesis using read by (auto simp: parse_string_def moved_def)
  next
    case (Some r)
    obtain n k where r: "r = (n, k)" by (cases r)
    with Some string_end_Some [of ?cs 0 0 n k] obtain lit rest where
      cs: "?cs = lit @ QUOTE # rest" and nk: "n = length lit" "k = starts False lit" and pair: "\<not> in_pair False lit"
      by auto
    define s where "s = pb_offset b + 1"
    define e where "e = s + n"
    have "length ?cs = n + 1 + length rest" using cs nk by simp
    then have len: "e < length (pb_content b)" by (simp add: e_def s_def)
    have lit: "take (e - s) (drop s (pb_content b)) = lit" using cs nk by (simp add: e_def s_def)
    have "pb_content b ! e = (drop s (pb_content b)) ! n" using len by (simp add: e_def)
    also have "\<dots> = QUOTE" using cs nk by (simp add: s_def)
    finally have at: "at_text (b\<lparr>pb_offset := e + 1\<rparr>)"
      using assms len not_last [of "pb_content b" e] by (simp add: at_text_def)
    obtain ok p' out where un: "unescape (pb_content b) e s [] = Inr (ok, p', out)" "length out + k \<le> n"
      using unescape_ok [OF len, of False s "[]"] pair nk lit by (auto simp: e_def)
    have "\<not> n + 1 - k + 1 < length out + (if ok then 1 else 0)" using un(2) by auto
    then show ?thesis
      using read Some r un at len
      by (auto simp: parse_string_def moved_def e_def s_def at_text_def Let_def)
  qed
qed

definition strtod_bounded :: "'d flt \<Rightarrow> bool" where
  "strtod_bounded fl \<longleftrightarrow> (\<forall>bs. snd (f_strtod fl bs) \<le> length bs)"

lemma parse_number_ok:
  assumes "strtod_bounded fl" "at_text b"
  shows "\<exists>ok item' b'. parse_number fl item b = (ok, item', b') \<and> moved b ok b'"
proof -
  let ?s = "number_c_string b"
  obtain number n where st: "f_strtod fl ?s = (number, n)" by (cases "f_strtod fl ?s")
  then have n: "n \<le> length ?s" using assms(1) by (metis snd_conv strtod_bounded_def)
  have "at_text (b\<lparr>pb_offset := pb_offset b + n\<rparr>)" if "n \<noteq> 0"
  proof (rule at_text_plus)
    let ?i = "n - 1"
    have i: "?i < length ?s" using n that by simp
    then have "?s ! ?i = pb_content b ! (pb_offset b + ?i)"
      using length_takeWhile_le [of is_number_char "take 63 (buffer_at_offset b)"]
        assms(2)
      by (simp add: number_c_string_def takeWhile_nth buffer_at_offset_def at_text_def)
    moreover have "is_number_char (?s ! ?i)" using i nth_mem set_takeWhileD by (fastforce simp: number_c_string_def)
    ultimately show "pb_content b ! (pb_offset b + n - 1) \<noteq> 0" using that by (auto simp: is_number_char_def)
    show "pb_offset b + n \<le> length (pb_content b)"
      using n length_takeWhile_le [of is_number_char "take 63 (buffer_at_offset b)"] assms(2)
      by (auto simp: number_c_string_def buffer_at_offset_def at_text_def)
  qed (use that assms in simp_all)
  then show ?thesis using st assms(2) by (auto simp: parse_number_def moved_def)
qed

section \<open>Nesting\<close>

primrec nesting :: "'d cJSON \<Rightarrow> nat" where
  "nesting (CJSON n cs) = foldr max (map (\<lambda>c. Suc (nesting c)) cs) 0"

lemma foldr_max_le: "foldr max xs (0 :: nat) \<le> k \<longleftrightarrow> (\<forall>x\<in>set xs. x \<le> k)"
  by (induction xs) auto

lemma nesting_le: "nesting (CJSON n cs) \<le> Suc k \<longleftrightarrow> (\<forall>c\<in>set cs. nesting c \<le> k)"
  by (simp add: foldr_max_le)

lemma nesting_children:
  assumes "\<forall>c\<in>set cs. nesting c + Suc d \<le> k" "d < k"
  shows "nesting (CJSON n cs) + d \<le> k"
proof -
  have "\<forall>c\<in>set cs. nesting c \<le> k - Suc d" using assms by auto
  then have "nesting (CJSON n cs) \<le> Suc (k - Suc d)" by (simp only: nesting_le)
  then show ?thesis using assms(2) by linarith
qed

text \<open>A parser that is good for \<open>n\<close> returns on every text with at most \<open>n\<close> bytes left, moves on and
  nests what it returns no deeper than the limit allows.\<close>

definition good :: "nat \<Rightarrow> 'd parser \<Rightarrow> bool" where
  "good n pv \<longleftrightarrow> (\<forall>item b. at_text b \<longrightarrow> rest b \<le> n \<longrightarrow> pb_depth b \<le> CJSON_NESTING_LIMIT \<longrightarrow>
     (\<exists>ok it b'. pv item b = Some (Inr (ok, it, b')) \<and> moved b ok b' \<and>
        nesting it + pb_depth b \<le> CJSON_NESTING_LIMIT))"

lemma goodD:
  assumes "good n pv" "at_text b" "rest b \<le> n" "pb_depth b \<le> CJSON_NESTING_LIMIT"
  obtains ok it b' where "pv item b = Some (Inr (ok, it, b'))" "moved b ok b'"
    "nesting it + pb_depth b \<le> CJSON_NESTING_LIMIT"
  using assms unfolding good_def by blast

definition loop_ok :: "parse_buffer \<Rightarrow> (bool \<times> 'd cJSON list \<times> parse_buffer) result option \<Rightarrow> bool" where
  "loop_ok b r \<longleftrightarrow> (\<exists>ok cs b'. r = Some (Inr (ok, cs, b')) \<and> moved b ok b' \<and>
     (\<forall>c\<in>set cs. nesting c + pb_depth b \<le> CJSON_NESTING_LIMIT))"

lemma moved_trans: "moved b True b' \<Longrightarrow> moved b' ok b'' \<Longrightarrow> moved b ok b''"
  by (auto simp: moved_def)

lemma moved_skip: "moved b True b' \<Longrightarrow> moved b True (buffer_skip_whitespace b')"
  by (auto simp: moved_def intro: less_le_trans)

lemma moved_FalseI: "pb_content b' = pb_content b \<Longrightarrow> moved b False b'"
  by (simp add: moved_def)

text \<open>One step over a byte and the white space behind it.\<close>

abbreviation step_over :: "parse_buffer \<Rightarrow> parse_buffer" where
  "step_over b \<equiv> buffer_skip_whitespace (b\<lparr>pb_offset := pb_offset b + 1\<rparr>)"

lemma moved_step_over:
  assumes "at_text (b\<lparr>pb_offset := pb_offset b + 1\<rparr>)"
  shows "moved b True (step_over b)"
  using at_text_skip [OF assms] by (auto simp: moved_def)

lemma loop_ok_trans:
  assumes "moved b True b'" "loop_ok b' r"
  shows "loop_ok b r"
  using assms moved_trans unfolding loop_ok_def by (fastforce simp: moved_def)

lemma loop_ok_mem:
  assumes "loop_ok (b\<lparr>pb_mem := m\<rparr>) r"
  shows "loop_ok b r"
  using assms by (simp add: loop_ok_def moved_def)

text \<open>The end of one round of either loop: the value, the white space behind it, and the next round
  after a comma.\<close>

lemma loop_round:
  assumes "good n pv" "moved b True b1" "pb_depth b \<le> CJSON_NESTING_LIMIT" "rest b \<le> Suc n"
    "\<forall>c\<in>set head. nesting c + pb_depth b \<le> CJSON_NESTING_LIMIT"
    and again: "\<And>head' b3. \<lbrakk>moved b1 True b3; at_text (b3\<lparr>pb_offset := pb_offset b3 + 1\<rparr>);
      \<forall>c\<in>set head'. nesting c + pb_depth b3 \<le> CJSON_NESTING_LIMIT\<rbrakk> \<Longrightarrow> loop_ok b3 (loop head' b3)"
  shows "loop_ok b (bind_run (pv item b1) (\<lambda>(ok, current_item, b).
      if \<not> ok then Some (Inr (False, head, b))
      else let b = buffer_skip_whitespace b; head = head @ [current_item] in
      if looking_at b COMMA then loop head b
      else Some (Inr (True, head, b))))"
proof -
  have "rest b1 \<le> n" "at_text b1" "pb_depth b1 = pb_depth b"
    using assms(2,4) by (auto simp: moved_def rest_def)
  moreover from this obtain ok it b2 where pv: "pv item b1 = Some (Inr (ok, it, b2))" and m2: "moved b1 ok b2"
    and nest: "nesting it + pb_depth b1 \<le> CJSON_NESTING_LIMIT"
    using goodD [OF assms(1)] assms(3) by metis
  ultimately have hd: "\<forall>c\<in>set (head @ [it]). nesting c + pb_depth b \<le> CJSON_NESTING_LIMIT"
    using assms(5) by auto
  show ?thesis
  proof (cases ok)
    case False
    then show ?thesis using pv m2 assms(2,5) by (auto simp: loop_ok_def moved_def)
  next
    case True
    define b3 where "b3 = buffer_skip_whitespace b2"
    have m3: "moved b1 True b3" using m2 True unfolding b3_def by (simp add: moved_skip)
    then have m: "moved b True b3" using assms(2) moved_trans by blast
    show ?thesis
    proof (cases "looking_at b3 COMMA")
      case comma: True
      have "loop_ok b3 (loop (head @ [it]) b3)"
        using m m3 hd comma at_text_next [of b3 COMMA] by (intro again) (auto simp: moved_def)
      then show ?thesis using pv True comma m loop_ok_trans by (simp add: b3_def)
    next
      case no: False
      then show ?thesis using pv True hd m by (auto simp: loop_ok_def b3_def)
    qed
  qed
qed

lemma array_loop_ok:
  assumes "good n pv" "pb_depth b \<le> CJSON_NESTING_LIMIT"
    "at_text (b\<lparr>pb_offset := pb_offset b + 1\<rparr>)" "rest b \<le> Suc n" "rest b \<le> fuel + 1"
    "\<forall>c\<in>set head. nesting c + pb_depth b \<le> CJSON_NESTING_LIMIT"
  shows "loop_ok b (array_loop fuel pv fl head b)"
  using assms(2-)
proof (induction fuel arbitrary: head b)
  case 0
  then show ?case by (auto simp: at_text_def rest_def)
next
  case (Suc fuel)
  have again: "loop_ok b3 (array_loop fuel pv fl head' b3)"
    if "moved b True b1" "moved b1 True b3" "at_text (b3\<lparr>pb_offset := pb_offset b3 + 1\<rparr>)"
      "\<forall>c\<in>set head'. nesting c + pb_depth b3 \<le> CJSON_NESTING_LIMIT" for b1 b3 head'
    using Suc.prems that by (intro Suc.IH) (auto simp: moved_def rest_def)
  show ?case
  proof (cases "pb_mem b = 0")
    case True
    then show ?thesis using Suc.prems(5) by (auto simp: loop_ok_def moved_def)
  next
    case False
    let ?b0 = "b\<lparr>pb_mem := pb_mem b - 1\<rparr>"
    have "moved ?b0 True (step_over ?b0)" using Suc.prems(2) by (intro moved_step_over) (simp add: at_text_def)
    then have "moved b True (step_over ?b0)" by (simp add: moved_def)
    from loop_round [OF assms(1) this Suc.prems(1,3,5), of "array_loop fuel pv fl" "new_node fl", OF again [OF this]]
    show ?thesis using False by (simp only: array_loop.simps Let_def if_False cong: if_cong)
  qed
qed

lemma object_loop_ok:
  assumes "good n pv" "pb_depth b \<le> CJSON_NESTING_LIMIT"
    "at_text (b\<lparr>pb_offset := pb_offset b + 1\<rparr>)" "rest b \<le> Suc n" "rest b \<le> fuel + 1"
    "\<forall>c\<in>set head. nesting c + pb_depth b \<le> CJSON_NESTING_LIMIT"
  shows "loop_ok b (object_loop fuel pv fl head b)"
  using assms(2-)
proof (induction fuel arbitrary: head b)
  case 0
  then show ?case by (auto simp: at_text_def rest_def)
next
  case (Suc fuel)
  have again: "loop_ok b3 (object_loop fuel pv fl head' b3)"
    if "moved b True b1" "moved b1 True b3" "at_text (b3\<lparr>pb_offset := pb_offset b3 + 1\<rparr>)"
      "\<forall>c\<in>set head'. nesting c + pb_depth b3 \<le> CJSON_NESTING_LIMIT" for b1 b3 head'
    using Suc.prems that by (intro Suc.IH) (auto simp: moved_def rest_def)
  show ?case
  proof (cases "pb_mem b = 0")
    case True
    then show ?thesis using Suc.prems(5) by (auto simp: loop_ok_def moved_def)
  next
    case False
    let ?b0 = "b\<lparr>pb_mem := pb_mem b - 1\<rparr>"
    have "moved ?b0 True (step_over ?b0)" using Suc.prems(2) by (intro moved_step_over) (simp add: at_text_def)
    then have m1: "moved b True (step_over ?b0)" by (simp add: moved_def)
    then have "at_text (step_over ?b0)" by (simp add: moved_def)
    from parse_string_ok [OF this, of "new_node fl"]
    obtain ok item b2 where str: "parse_string (new_node fl) (step_over ?b0) = Inr (ok, item, b2)"
      and m2: "moved (step_over ?b0) ok b2" by blast
    let ?b3 = "buffer_skip_whitespace b2"
    show ?thesis
    proof (cases "ok \<and> looking_at ?b3 COLON")
      case no: False
      have c: "pb_content b2 = pb_content b" using m1 m2 by (simp add: moved_def)
      have "object_loop (Suc fuel) pv fl head b = Some (Inr (False, head, if ok then ?b3 else b2))"
        using False no str by (auto simp: Let_def)
      then show ?thesis using Suc.prems(5) c by (auto simp: loop_ok_def moved_def)
    next
      case colon: True
      have m3: "moved b True ?b3" using moved_trans [OF m1 moved_skip [of _ b2]] m2 colon by simp
      then have "moved ?b3 True (step_over ?b3)"
        using at_text_next [of ?b3 COLON] colon by (intro moved_step_over) (simp add: moved_def)
      with m3 have "moved b True (step_over ?b3)" by (rule moved_trans)
      from loop_round [OF assms(1) this Suc.prems(1,3,5), of "object_loop fuel pv fl"
          "item\<lparr>c_string := c_valuestring item, c_valuestring := None\<rparr>", OF again [OF this]]
      show ?thesis using False str colon
        by (simp only: object_loop.simps Let_def if_False if_True not_True_eq_False bind_run_simps prod.case cong: if_cong)
    qed
  qed
qed

text \<open>The step over the closing bracket.\<close>

lemma moved_close:
  assumes "pb_content b3 = pb_content b" "at_text b3" "pb_offset b \<le> pb_offset b3" "pb_depth b3 = Suc (pb_depth b)"
    "looking_at b3 c" "c \<noteq> 0"
  shows "moved b True (b3\<lparr>pb_depth := pb_depth b3 - 1, pb_offset := pb_offset b3 + 1\<rparr>)"
  using assms at_text_next [of b3 c] by (simp add: moved_def at_text_def)

lemma parse_array_ok:
  assumes "good n pv" "n \<le> fuel" "at_text b" "looking_at b LBRACKET" "rest b \<le> Suc n"
    "pb_depth b \<le> CJSON_NESTING_LIMIT"
  shows "\<exists>ok it b'. parse_array fuel pv fl item b = Some (Inr (ok, it, b')) \<and> moved b ok b' \<and>
    nesting it + pb_depth b \<le> CJSON_NESTING_LIMIT"
proof (cases "pb_depth b = CJSON_NESTING_LIMIT")
  case True
  then show ?thesis by (auto simp: parse_array_def moved_def)
next
  case False
  then have depth: "pb_depth b < CJSON_NESTING_LIMIT" using assms(6) by simp
  let ?b0 = "b\<lparr>pb_depth := pb_depth b + 1\<rparr>"
  let ?b1 = "step_over ?b0"
  have "at_text (b\<lparr>pb_offset := pb_offset b + 1\<rparr>)" using at_text_next assms(3,4) by simp
  then have "moved ?b0 True ?b1" by (intro moved_step_over) (simp add: at_text_def)
  then have b1: "at_text ?b1" "pb_offset b < pb_offset ?b1" by (simp_all add: moved_def)
  have c: "read_at (pb_content b) (pb_offset b) = Inr LBRACKET"
    using assms(4) by (simp add: looking_at_def can_access_at_index_def read_at_def)
  show ?thesis
  proof (cases "looking_at ?b1 RBRACKET")
    case True
    then show ?thesis using depth c b1 at_text_next [of ?b1 RBRACKET]
      by (auto simp: parse_array_def moved_def at_text_def Let_def)
  next
    case no: False
    let ?b2 = "?b1\<lparr>pb_offset := pb_offset ?b1 - 1\<rparr>"
    have "loop_ok ?b2 (array_loop fuel pv fl [] ?b2)"
      using assms(1,2,5) depth b1 by (intro array_loop_ok [of n]) (auto simp: at_text_def rest_def)
    then obtain ok cs b3 where l: "array_loop fuel pv fl [] ?b2 = Some (Inr (ok, cs, b3))" "moved ?b2 ok b3"
      "\<forall>c\<in>set cs. nesting c + pb_depth ?b2 \<le> CJSON_NESTING_LIMIT" unfolding loop_ok_def by blast
    have eq: "parse_array fuel pv fl item b = (if ok \<and> looking_at b3 RBRACKET
        then Some (Inr (True, CJSON (item\<lparr>c_type := cJSON_Array\<rparr>) cs, b3\<lparr>pb_depth := pb_depth b3 - 1, pb_offset := pb_offset b3 + 1\<rparr>))
        else Some (Inr (False, CJSON item [], b3)))"
      using depth c no l(1) b1 by (simp add: parse_array_def at_text_accessible Let_def)
    have "nesting (CJSON n' cs) + pb_depth b \<le> CJSON_NESTING_LIMIT" for n' :: "'a cnode"
      using l(3) depth by (intro nesting_children) simp_all
    moreover have "moved b True (b3\<lparr>pb_depth := pb_depth b3 - 1, pb_offset := pb_offset b3 + 1\<rparr>)"
      if "ok \<and> looking_at b3 RBRACKET" using l(2) b1 that by (intro moved_close [of _ _ RBRACKET]) (auto simp: moved_def)
    moreover have "moved b False b3" using l(2) by (simp add: moved_def)
    moreover have "nesting (CJSON item []) + pb_depth b \<le> CJSON_NESTING_LIMIT" using depth by simp
    ultimately show ?thesis unfolding eq by (cases "ok \<and> looking_at b3 RBRACKET") (metis (full_types))+
  qed
qed

lemma parse_object_ok:
  assumes "good n pv" "n \<le> fuel" "at_text b" "looking_at b LBRACE" "rest b \<le> Suc n"
    "pb_depth b \<le> CJSON_NESTING_LIMIT"
  shows "\<exists>ok it b'. parse_object fuel pv fl item b = Some (Inr (ok, it, b')) \<and> moved b ok b' \<and>
    nesting it + pb_depth b \<le> CJSON_NESTING_LIMIT"
proof (cases "pb_depth b = CJSON_NESTING_LIMIT")
  case True
  then show ?thesis by (auto simp: parse_object_def moved_def)
next
  case False
  then have depth: "pb_depth b < CJSON_NESTING_LIMIT" using assms(6) by simp
  let ?b0 = "b\<lparr>pb_depth := pb_depth b + 1\<rparr>"
  let ?b1 = "step_over ?b0"
  have "at_text (b\<lparr>pb_offset := pb_offset b + 1\<rparr>)" using at_text_next assms(3,4) by simp
  then have "moved ?b0 True ?b1" by (intro moved_step_over) (simp add: at_text_def)
  then have b1: "at_text ?b1" "pb_offset b < pb_offset ?b1" by (simp_all add: moved_def)
  have c: "looking_at ?b0 LBRACE" using assms(4) by (simp add: looking_at_def can_access_at_index_def)
  show ?thesis
  proof (cases "looking_at ?b1 RBRACE")
    case True
    then show ?thesis using depth c b1 at_text_next [of ?b1 RBRACE]
      by (auto simp: parse_object_def moved_def at_text_def Let_def)
  next
    case no: False
    let ?b2 = "?b1\<lparr>pb_offset := pb_offset ?b1 - 1\<rparr>"
    have "loop_ok ?b2 (object_loop fuel pv fl [] ?b2)"
      using assms(1,2,5) depth b1 by (intro object_loop_ok [of n]) (auto simp: at_text_def rest_def)
    then obtain ok cs b3 where l: "object_loop fuel pv fl [] ?b2 = Some (Inr (ok, cs, b3))" "moved ?b2 ok b3"
      "\<forall>c\<in>set cs. nesting c + pb_depth ?b2 \<le> CJSON_NESTING_LIMIT" unfolding loop_ok_def by blast
    have eq: "parse_object fuel pv fl item b = (if ok \<and> looking_at b3 RBRACE
        then Some (Inr (True, CJSON (item\<lparr>c_type := cJSON_Object\<rparr>) cs, b3\<lparr>pb_depth := pb_depth b3 - 1, pb_offset := pb_offset b3 + 1\<rparr>))
        else Some (Inr (False, CJSON item [], b3)))"
      using depth c no l(1) b1 by (simp add: parse_object_def at_text_accessible Let_def)
    have "nesting (CJSON n' cs) + pb_depth b \<le> CJSON_NESTING_LIMIT" for n' :: "'a cnode"
      using l(3) depth by (intro nesting_children) simp_all
    moreover have "moved b True (b3\<lparr>pb_depth := pb_depth b3 - 1, pb_offset := pb_offset b3 + 1\<rparr>)"
      if "ok \<and> looking_at b3 RBRACE" using l(2) b1 that by (intro moved_close [of _ _ RBRACE]) (auto simp: moved_def)
    moreover have "moved b False b3" using l(2) by (simp add: moved_def)
    moreover have "nesting (CJSON item []) + pb_depth b \<le> CJSON_NESTING_LIMIT" using depth by simp
    ultimately show ?thesis unfolding eq by (cases "ok \<and> looking_at b3 RBRACE") (metis (full_types))+
  qed
qed

section \<open>The recursion\<close>

lemma literal_moved:
  assumes "at_text b" "can_read b (length bs)" "take (length bs) (buffer_at_offset b) = bs" "bs \<noteq> []" "last bs \<noteq> 0"
  shows "moved b True (b\<lparr>pb_offset := pb_offset b + length bs\<rparr>)"
proof -
  let ?n = "length bs - 1"
  have n: "?n < length bs" using assms(4) by (cases bs) simp_all
  then have "bs ! ?n = pb_content b ! (pb_offset b + ?n)"
    using assms(1) arg_cong [OF assms(3), of "\<lambda>l. l ! ?n"] by (simp add: buffer_at_offset_def at_text_def)
  then have "pb_content b ! (pb_offset b + length bs - 1) \<noteq> 0"
    using assms(4,5) n by (simp add: last_conv_nth)
  then have "at_text (b\<lparr>pb_offset := pb_offset b + length bs\<rparr>)"
    using assms by (intro at_text_plus) (auto simp: can_read_def)
  then show ?thesis using assms(4) by (simp add: moved_def)
qed

lemma good_parse_value:
  assumes "strtod_bounded fl"
  shows "good fuel (parse_value fuel fl)"
proof (induction fuel)
  case 0
  then show ?case by (auto simp: good_def rest_def at_text_def)
next
  case (Suc fuel)
  show ?case
    unfolding good_def
  proof (intro allI impI)
    fix item :: "'a cnode" and b
    assume b: "at_text b" "rest b \<le> Suc fuel" "pb_depth b \<le> CJSON_NESTING_LIMIT"
    define G where "G r \<longleftrightarrow> (\<exists>ok it b'. r = Some (Inr (ok, it, b')) \<and> moved b ok b' \<and>
        nesting it + pb_depth b \<le> CJSON_NESTING_LIMIT)" for r :: "(bool \<times> 'a cJSON \<times> parse_buffer) result option"
    have ifI: "G (if c then x else y)" if "c \<Longrightarrow> G x" "\<not> c \<Longrightarrow> G y" for c x y
      using that by simp
    have leaf: "G (Some (Inr (ok, CJSON n [], b')))" if "moved b ok b'" for ok b' and n :: "'a cnode"
      using that b by (auto simp: G_def)
    have str: "G (Some (bind_result (parse_string item b) (\<lambda>(ok, item, b). Inr (ok, CJSON item [], b))))"
      using parse_string_ok [OF b(1), of item] leaf by fastforce
    have num: "G (let (ok, item, b) = parse_number fl item b in Some (Inr (ok, CJSON item [], b)))"
      using parse_number_ok [OF assms b(1), of item] leaf by fastforce
    have arr: "G (parse_array fuel (parse_value fuel fl) fl item b)" if "looking_at b LBRACKET"
      using parse_array_ok [OF Suc.IH le_refl] b that unfolding G_def by blast
    have obj: "G (parse_object fuel (parse_value fuel fl) fl item b)" if "looking_at b LBRACE"
      using parse_object_ok [OF Suc.IH le_refl] b that unfolding G_def by blast
    have lit: "moved b True (b\<lparr>pb_offset := pb_offset b + n\<rparr>)"
      if "can_read b n \<and> take n (buffer_at_offset b) = bs" "length bs = n" "bs \<noteq> []" "last bs \<noteq> 0" for n bs
      using literal_moved [OF b(1), of bs] that by metis
    have "G (parse_value (Suc fuel) fl item b)"
      unfolding parse_value.simps
      by (intro ifI leaf str num arr obj)
        (erule lit; simp add: NULL_text_def FALSE_text_def TRUE_text_def | simp add: moved_def)+
    then show "\<exists>ok it b'. parse_value (Suc fuel) fl item b = Some (Inr (ok, it, b')) \<and> moved b ok b' \<and>
        nesting it + pb_depth b \<le> CJSON_NESTING_LIMIT" unfolding G_def .
  qed
qed

section \<open>The entry point\<close>

text \<open>What the caller may rely on: a document within the limit, or an error; the position that is
  reported is inside the text or at its end.\<close>

definition parse_report :: "bytes \<Rightarrow> 'd parsed \<Rightarrow> bool" where
  "parse_report v r \<longleftrightarrow> p_end r \<le> length (cstr v) \<and>
     (case p_item r of None \<Rightarrow> p_error r = Some (p_end r)
      | Some it \<Rightarrow> p_error r = None \<and> nesting it \<le> CJSON_NESTING_LIMIT)"

lemma parse_report_failed: "pb_content b = cstr v @ [0] \<Longrightarrow> parse_report v (parse_failed b)"
  by (auto simp: parse_report_def parse_failed_def Let_def)

lemma parse_start:
  fixes v :: bytes and m :: nat
  defines "b \<equiv> buffer_skip_whitespace (skip_utf8_bom
     \<lparr>pb_content = cstr v @ [0], pb_offset = 0, pb_depth = 0, pb_mem = m\<rparr>)"
  shows "at_text b" "pb_content b = cstr v @ [0]" "pb_depth b = 0" "rest b \<le> length (cstr v) + 1"
proof -
  let ?b = "skip_utf8_bom \<lparr>pb_content = cstr v @ [0], pb_offset = 0, pb_depth = 0, pb_mem = m\<rparr>"
  have "at_text ?b" by (auto simp: at_text_def skip_utf8_bom_def can_access_at_index_def)
  then show "at_text b" by (simp add: b_def)
  show "pb_content b = cstr v @ [0]" "pb_depth b = 0" by (simp_all add: b_def skip_utf8_bom_def)
  then show "rest b \<le> length (cstr v) + 1" by (simp add: rest_def)
qed

lemma cJSON_ParseWithOpts_ok:
  fixes fl :: "'d flt"
  assumes "strtod_bounded fl" "length v < fuel"
  shows "\<exists>r. cJSON_ParseWithOpts fuel fl mem (Some v) require_null_terminated = Some (Inr r) \<and> parse_report v r"
proof (cases "mem = 0")
  case True
  then show ?thesis by (simp add: cJSON_ParseWithOpts_def parse_report_failed)
next
  case False
  note start = parse_start [of v "mem - 1"]
  let ?b = "buffer_skip_whitespace (skip_utf8_bom \<lparr>pb_content = cstr v @ [0], pb_offset = 0, pb_depth = 0, pb_mem = mem - 1\<rparr>)"
  have "length (cstr v) \<le> length v" by (simp add: cstr_def length_takeWhile_le)
  then have "rest ?b \<le> fuel" using start(4) assms(2) by linarith
  then obtain ok it b' where pv: "parse_value fuel fl (new_node fl) ?b = Some (Inr (ok, it, b'))"
    and m: "moved ?b ok b'" and n: "nesting it + pb_depth ?b \<le> CJSON_NESTING_LIMIT"
    using goodD [OF good_parse_value [OF assms(1)] start(1)] start(3) by (metis zero_le)
  have c: "pb_content b' = cstr v @ [0]" using m start(2) by (simp add: moved_def)
  have good_end: "parse_report v \<lparr>p_item = Some it, p_end = pb_offset b'', p_error = None\<rparr>"
    if "at_text b''" "pb_content b'' = cstr v @ [0]" for b''
    using that n start(3) by (simp add: parse_report_def at_text_def)
  show ?thesis
  proof (cases ok)
    case no: False
    then show ?thesis using False pv c by (simp add: cJSON_ParseWithOpts_def parse_report_failed)
  next
    case True
    then have at: "at_text b'" using m by (simp add: moved_def)
    then show ?thesis
      using False True pv c at good_end [OF at] good_end [of "buffer_skip_whitespace b'"]
      by (simp add: cJSON_ParseWithOpts_def parse_report_failed Let_def)
  qed
qed

section \<open>Properties\<close>

text \<open>A floating-point unit for the examples: numbers are integers, and \<open>strtod\<close> reads decimal
  digits.\<close>

definition digits_flt :: "int flt" where
  "digits_flt = \<lparr>f_zero = 0,
     f_strtod = (\<lambda>s. let d = takeWhile (\<lambda>c. 48 \<le> c \<and> c \<le> 57) s
        in (foldl (\<lambda>n c. 10 * n + uint c - 48) 0 d, length d)),
     f_ge_int_max = (\<lambda>x. x \<ge> 2147483647), f_le_int_min = (\<lambda>x. x \<le> -2147483648), f_to_int = of_int,
     f_finite = (\<lambda>x. True), f_print15 = (\<lambda>x. [48 + of_int (x mod 10)]), f_print17 = (\<lambda>x. []),
     f_scan = (\<lambda>s. Some (foldl (\<lambda>n c. 10 * n + uint c - 48) 0 s)), f_close = (=)\<rparr>"

lemma strtod_bounded_digits: "strtod_bounded digits_flt"
  by (simp add: strtod_bounded_def digits_flt_def Let_def length_takeWhile_le)

text \<open>C2. For every byte string, every amount of memory and either setting of
  \<open>require_null_terminated\<close>, \<open>cJSON_ParseWithOpts\<close> returns (a recursion depth of the length of
  the text plus one is enough), reads and writes inside its buffers only, and
  reports a position inside the text. A document it returns is nested at most 1000 deep, and
  without one the error position is set. The hypothesis on \<open>strtod\<close> is that it does not claim to have
  read more than the characters it was given.\<close>

theorem parse_total:
  assumes "strtod_bounded fl" "length v < fuel"
  shows "\<exists>r. cJSON_ParseWithOpts fuel fl mem (Some v) require_null_terminated = Some (Inr r) \<and>
           p_end r \<le> length (cstr v) \<and>
           (p_item r = None \<longrightarrow> p_error r = Some (p_end r)) \<and>
           (\<forall>item. p_item r = Some item \<longrightarrow> p_error r = None \<and> nesting item \<le> 1000)"
  using cJSON_ParseWithOpts_ok [OF assms, of mem require_null_terminated]
  by (force simp: parse_report_def CJSON_NESTING_LIMIT_def split: option.splits)

text \<open>The text \<open>[7\<close> lacks its bracket.\<close>

theorem parse_total_witness:
  "\<exists>r. cJSON_ParseWithOpts 3 digits_flt 9 (Some [91, 55]) True = Some (Inr r) \<and> p_end r \<le> 2"
  using parse_total [OF strtod_bounded_digits, of "[91, 55]" 3 9 True] by (auto simp: cstr_def)

end
