(* ===== verification/Json_Roundtrip.thy ===== *)
theory Json_Roundtrip
  imports Json_Render Json_Safe
begin

text \<open>
  Parsing what has been printed. For every document that can be printed, other than raw text, the parser reads the text
  back, formatted or not, and gives the document \<open>reread\<close>: the types, strings, names and the
  order of the children are the same, numbers are what \<open>strtod\<close> makes of their digits.
\<close>

unbundle bit_operations_syntax

section \<open>What is read back\<close>

definition text_of :: "bytes option \<Rightarrow> bytes" where
  "text_of s = (case s of None \<Rightarrow> [] | Some t \<Rightarrow> cstr t)"

definition member_node :: "'d flt \<Rightarrow> bytes option \<Rightarrow> 'd cnode" where
  "member_node fl name = (new_node fl)\<lparr>c_type := cJSON_String, c_string := Some (text_of name)\<rparr>"

definition reread_number :: "'d flt \<Rightarrow> 'd \<Rightarrow> 'd cnode \<Rightarrow> 'd cnode" where
  "reread_number fl d base =
     (if \<not> f_finite fl d then base\<lparr>c_type := cJSON_NULL\<rparr>
      else let v = fst (f_strtod fl (number_text fl d))
           in base\<lparr>c_valuedouble := v, c_valueint := saturate fl v, c_type := cJSON_Number\<rparr>)"

primrec reread :: "'d flt \<Rightarrow> 'd cJSON \<Rightarrow> 'd cnode \<Rightarrow> 'd cJSON" where
  "reread fl (CJSON item children) = (\<lambda>base.
     let t = c_type item AND 0xFF in
     if t = cJSON_NULL then CJSON (base\<lparr>c_type := cJSON_NULL\<rparr>) []
     else if t = cJSON_False then CJSON (base\<lparr>c_type := cJSON_False\<rparr>) []
     else if t = cJSON_True then CJSON (base\<lparr>c_type := cJSON_True, c_valueint := 1\<rparr>) []
     else if t = cJSON_Number then CJSON (reread_number fl (c_valuedouble item) base) []
     else if t = cJSON_String then
       CJSON (base\<lparr>c_type := cJSON_String, c_valuestring := Some (text_of (c_valuestring item))\<rparr>) []
     else if t = cJSON_Array then
       CJSON (base\<lparr>c_type := cJSON_Array\<rparr>) (map (\<lambda>f. f (new_node fl)) (map (reread fl) children))
     else
       CJSON (base\<lparr>c_type := cJSON_Object\<rparr>)
         (map2 (\<lambda>k f. f (member_node fl k)) (map (\<lambda>c. c_string (c_node c)) children) (map (reread fl) children)))"

text \<open>The depth of the arrays and objects, and the absence of raw text.\<close>

definition container :: "'d cnode \<Rightarrow> bool" where
  "container item \<longleftrightarrow> c_type item AND 0xFF = cJSON_Array \<or> c_type item AND 0xFF = cJSON_Object"

primrec levels :: "'d cJSON \<Rightarrow> nat" where
  "levels (CJSON item children) = (if container item then Suc (foldr max (map levels children) 0) else 0)"

primrec no_raw :: "'d cJSON \<Rightarrow> bool" where
  "no_raw (CJSON item children) \<longleftrightarrow> c_type item AND 0xFF \<noteq> cJSON_Raw \<and> list_all (\<lambda>x. x) (map no_raw children)"

text \<open>What is assumed of \<open>sprintf\<close> and \<open>strtod\<close>: the text of a finite number starts with a digit or the sign,
  consists of digits, signs, the point and the exponent, and \<open>strtod\<close> reads all of it.\<close>

definition numbers_read :: "'d flt \<Rightarrow> bool" where
  "numbers_read fl \<longleftrightarrow> (\<forall>d. f_finite fl d \<longrightarrow>
     (let t = number_text fl d in
      t \<noteq> [] \<and> (hd t = MINUS \<or> 48 \<le> hd t \<and> hd t \<le> 57) \<and> list_all is_number_char t \<and>
      snd (f_strtod fl t) = length t))"

section \<open>Positions in the buffer\<close>

text \<open>\<open>facing b x\<close>: the unread part of the buffer is \<open>x\<close>.\<close>

definition facing :: "parse_buffer \<Rightarrow> bytes \<Rightarrow> bool" where
  "facing b x \<longleftrightarrow> pb_offset b \<le> length (pb_content b) \<and> buffer_at_offset b = x"

text \<open>\<open>b'\<close> is \<open>b\<close> after reading up to \<open>x\<close>, with at most \<open>k\<close> allocations.\<close>

definition read_to :: "parse_buffer \<Rightarrow> bytes \<Rightarrow> nat \<Rightarrow> parse_buffer \<Rightarrow> bool" where
  "read_to b x k b' \<longleftrightarrow> facing b' x \<and> pb_content b' = pb_content b \<and> pb_depth b' = pb_depth b \<and>
     pb_mem b \<le> pb_mem b' + k"

lemma facing_update [simp]:
  "facing (b\<lparr>pb_depth := d\<rparr>) x = facing b x" "facing (b\<lparr>pb_mem := m\<rparr>) x = facing b x"
  by (simp_all add: facing_def buffer_at_offset_def)

lemma facing_advance:
  assumes "facing b (u @ x)"
  shows "facing (b\<lparr>pb_offset := pb_offset b + length u\<rparr>) x"
proof -
  have d: "drop (pb_offset b) (pb_content b) = u @ x" and o: "pb_offset b \<le> length (pb_content b)"
    using assms by (simp_all add: facing_def buffer_at_offset_def)
  have "length u + length x = length (pb_content b) - pb_offset b"
    using arg_cong [OF d, of length] by simp
  moreover have "drop (length u) (drop (pb_offset b) (pb_content b)) = x" unfolding d by simp
  ultimately show ?thesis using o by (simp add: facing_def buffer_at_offset_def add.commute)
qed

lemma facing_Suc: "facing b (c # x) \<Longrightarrow> facing (b\<lparr>pb_offset := Suc (pb_offset b)\<rparr>) x"
  using facing_advance [of b "[c]" x] by simp

lemma facing_Cons:
  assumes "facing b (c # x)"
  shows "pb_offset b < length (pb_content b)" "pb_content b ! pb_offset b = c"
    "looking_at b d \<longleftrightarrow> c = d" "can_access_at_index b 0" "read_at (pb_content b) (pb_offset b) = Inr c"
proof -
  show l: "pb_offset b < length (pb_content b)"
    using assms by (metis buffer_at_offset_def drop_all facing_def list.distinct(1) not_less)
  then show "pb_content b ! pb_offset b = c"
    using assms by (simp add: facing_def buffer_at_offset_def Cons_nth_drop_Suc [symmetric])
  with l show "looking_at b d \<longleftrightarrow> c = d" "can_access_at_index b 0" "read_at (pb_content b) (pb_offset b) = Inr c"
    by (auto simp: looking_at_def can_access_at_index_def read_at_def)
qed

lemma facing_can_read: "facing b x \<Longrightarrow> can_read b n \<longleftrightarrow> n \<le> length x"
  by (auto simp: facing_def can_read_def buffer_at_offset_def)

lemma facing_literal:
  assumes "facing b x"
  shows "can_read b n \<and> take n (buffer_at_offset b) = t \<longleftrightarrow> n \<le> length x \<and> take n x = t"
  using assms facing_can_read [OF assms] by (auto simp: facing_def)

lemma skip_spaces:
  assumes "facing b (w @ c # x)" "\<forall>s\<in>set w. s \<le> 32" "32 < c"
  shows "facing (buffer_skip_whitespace b) (c # x)"
    "pb_content (buffer_skip_whitespace b) = pb_content b" "pb_depth (buffer_skip_whitespace b) = pb_depth b"
    "pb_mem (buffer_skip_whitespace b) = pb_mem b"
    "pb_offset (buffer_skip_whitespace b) = pb_offset b + length w"
proof -
  have tw: "takeWhile (\<lambda>c. c \<le> 32) (w @ c # x) = w" using assms(2,3) by (simp add: takeWhile_append)
  note adv = facing_advance [OF assms(1)]
  have "pb_offset b + length w \<noteq> length (pb_content b)" using facing_Cons(1) [OF adv] by simp
  then have eq: "buffer_skip_whitespace b = b\<lparr>pb_offset := pb_offset b + length w\<rparr>"
    using assms(1) tw by (simp add: buffer_skip_whitespace_def facing_def Let_def)
  show "facing (buffer_skip_whitespace b) (c # x)" unfolding eq by (rule adv)
  show "pb_content (buffer_skip_whitespace b) = pb_content b" "pb_depth (buffer_skip_whitespace b) = pb_depth b"
    "pb_mem (buffer_skip_whitespace b) = pb_mem b"
    "pb_offset (buffer_skip_whitespace b) = pb_offset b + length w"
    by (simp_all add: eq)
qed

section \<open>Strings\<close>

text \<open>The characters that are printed as \<open>u\<close> escapes.\<close>

definition controls :: "u8 list" where
  "controls = map of_nat [1 ..< 32]"

lemma controls_iff: "c \<in> set controls \<longleftrightarrow> 0 < c \<and> c < 32"
proof -
  have "c \<in> set controls" if "0 < c" "c < 32"
  proof -
    have "unat c \<in> {1 ..< 32}" using that by (simp add: word_less_nat_alt)
    then have "of_nat (unat c) \<in> set controls" unfolding controls_def set_map set_upt by (rule imageI)
    then show ?thesis by simp
  qed
  moreover have "0 < c \<and> c < 32" if "c \<in> set controls"
    using that by (auto simp: controls_def word_less_nat_alt unat_of_nat)
  ultimately show ?thesis by blast
qed

lemma hex4_controls:
  "list_all (\<lambda>c. hex_loop 4 0 [48, 48, hex_char (c div 16), hex_char (c mod 16)] = Inr (ucast c)) controls"
  by code_simp

lemma utf8_controls: "list_all (\<lambda>c. utf8_encode (ucast c) = Some [c]) controls"
  by code_simp

lemma hex_char_controls:
  "list_all (\<lambda>c. list_all (\<lambda>d. d \<noteq> QUOTE \<and> d \<noteq> BACKSLASH) [hex_char (c div 16), hex_char (c mod 16)]) controls"
  by code_simp

lemma hex_loop_take: "hex_loop n h (take n input) = hex_loop n h input"
  by (induction n h input rule: hex_loop.induct) (auto split: option.splits)

lemma utf16_control:
  assumes "c \<in> set controls"
  shows "utf16_literal_to_utf8 (BACKSLASH # 117 # 48 # 48 # hex_char (c div 16) # hex_char (c mod 16) # x) = Inr (6, [c])"
proof -
  have h: "parse_hex4 (48 # 48 # hex_char (c div 16) # hex_char (c mod 16) # x) = Inr (ucast c)"
    using assms hex4_controls hex_loop_take [of 4 0 "48 # 48 # hex_char (c div 16) # hex_char (c mod 16) # x"]
    by (simp add: list_all_iff parse_hex4_def)
  have "unat c < 32" using assms by (simp add: controls_iff word_less_nat_alt)
  then have "\<not> 0xDC00 \<le> (ucast c :: u32)" "\<not> 0xD800 \<le> (ucast c :: u32)"
    by (simp_all add: word_le_nat_alt)
  moreover have "utf8_encode (ucast c) = Some [c]" using assms utf8_controls by (simp add: list_all_iff)
  ultimately show ?thesis using h by (simp add: utf16_literal_to_utf8_def)
qed

lemma escaped_cases:
  assumes "c \<noteq> 0"
  obtains (plain) "escaped c = [c]" "c \<noteq> QUOTE" "c \<noteq> BACKSLASH"
    | (short) d where "escaped c = [BACKSLASH, d]" "simple_escape d = Some c"
    | (control) "c \<in> set controls"
      "escaped c = [BACKSLASH, 117, 48, 48, hex_char (c div 16), hex_char (c mod 16)]"
proof (cases "c > 31 \<and> c \<noteq> QUOTE \<and> c \<noteq> BACKSLASH")
  case True
  then show ?thesis using plain by (simp add: escaped_def)
next
  case False
  show ?thesis
  proof (cases "c \<in> {BACKSLASH, QUOTE, 8, 12, 10, 13, 9}")
    case True
    then show ?thesis using short by (auto simp: escaped_def simple_escape_def)
  next
    case other: False
    then have "c \<le> 31" using False by auto
    then have "c < 32" by (simp add: word_less_nat_alt word_le_nat_alt)
    then have "c \<in> set controls" using assms by (simp add: controls_iff word_gt_0)
    then show ?thesis using control other False by (auto simp: escaped_def)
  qed
qed

text \<open>The first loop of \<open>parse_string\<close> finds the closing quote.\<close>

lemma string_end_escaped:
  assumes "0 \<notin> set s"
  shows "\<exists>k. string_end (concat (map escaped s) @ QUOTE # x) n j = Some (n + length (concat (map escaped s)), j + k) \<and>
    length s + k \<le> length (concat (map escaped s))"
  using assms
proof (induction s arbitrary: n j)
  case (Cons c s)
  then have nz: "c \<noteq> 0" and s: "0 \<notin> set s" by auto
  from nz show ?case
  proof (cases rule: escaped_cases)
    case plain
    then show ?thesis using Cons.IH [OF s, of "n + 1" j] by auto
  next
    case (short d)
    then show ?thesis using Cons.IH [OF s, of "n + 2" "j + 1"] by (auto intro: exI [of _ "Suc _"])
  next
    case control
    have "list_all (\<lambda>d. d \<noteq> QUOTE \<and> d \<noteq> BACKSLASH) [hex_char (c div 16), hex_char (c mod 16)]"
      using hex_char_controls control(1) by (simp add: list_all_iff)
    then show ?thesis
      using control(2) Cons.IH [OF s, of "Suc (Suc (Suc (Suc (Suc (Suc n)))))" "Suc j"]
      by (auto intro: exI [of _ "Suc _"])
  qed
qed simp

text \<open>The second loop undoes the escapes.\<close>

lemma drop_step:
  assumes "drop p content = u @ x"
  shows "drop (p + length u) content = x"
proof -
  have "drop (length u) (drop p content) = x" unfolding assms by simp
  then show ?thesis by (simp add: add.commute)
qed

lemma drop_nth:
  assumes "drop p content = u @ x" "i < length u"
  shows "read_at content (p + i) = Inr (u ! i)"
proof -
  have "length (drop p content) = length u + length x" using assms(1) by simp
  then have "p + i < length content" using assms(2) by simp
  moreover from this have "content ! (p + i) = drop p content ! i" by simp
  ultimately show ?thesis using assms by (simp add: read_at_def nth_append)
qed

lemma unescape_escaped:
  assumes "drop p content = concat (map escaped s) @ QUOTE # x" "0 \<notin> set s"
  shows "unescape content (p + length (concat (map escaped s))) p out =
    Inr (True, p + length (concat (map escaped s)), out @ s)"
  using assms
proof (induction s arbitrary: p out)
  case Nil
  then show ?case by (subst unescape.simps) simp
next
  case (Cons c s)
  then have nz: "c \<noteq> 0" and s: "0 \<notin> set s" by auto
  let ?e = "p + length (concat (map escaped (c # s)))"
  have d: "drop p content = escaped c @ (concat (map escaped s) @ QUOTE # x)" using Cons.prems(1) by simp
  note IH = Cons.IH [OF drop_step [OF d] s]
  note rd = drop_nth [OF d]
  from nz show ?case
  proof (cases rule: escaped_cases)
    case plain
    then show ?thesis using rd [of 0] IH [of "out @ [c]"] by (subst unescape.simps) simp
  next
    case (short e)
    then show ?thesis using rd [of 0] rd [of 1] IH [of "out @ [c]"] by (subst unescape.simps) simp
  next
    case control
    have six: "p + 6 = Suc (Suc (Suc (Suc (Suc (Suc p)))))" by simp
    have "take (?e - p) (drop p content) = concat (map escaped (c # s))"
      using Cons.prems(1) by simp
    then have "utf16_literal_to_utf8 (take (?e - p) (drop p content)) = Inr (6, [c])"
      using utf16_control [OF control(1)] control(2) by simp
    moreover have "simple_escape 117 = None" by (simp add: simple_escape_def)
    ultimately show ?thesis
      using control(2) rd [of 0] rd [of 1] IH [of "out @ [c]"]
      by (subst unescape.simps) (simp add: six)
  qed
qed

lemma parse_string_text:
  assumes "facing b (string_text name @ x)" "0 < pb_mem b"
  shows "\<exists>b'. parse_string item b =
      Inr (True, item\<lparr>c_type := cJSON_String, c_valuestring := Some (text_of name)\<rparr>, b') \<and> read_to b x 1 b'"
proof -
  define s where "s = text_of name"
  have nz: "0 \<notin> set s" by (auto simp: s_def text_of_def cstr_def dest: set_takeWhileD split: option.splits)
  have t: "string_text name = QUOTE # concat (map escaped s) @ [QUOTE]"
    by (auto simp: string_text_def s_def text_of_def split: option.splits)
  let ?e = "concat (map escaped s)"
  have f: "facing b (QUOTE # ?e @ QUOTE # x)" using assms(1) by (simp add: t)
  note f1 = facing_Suc [OF f]
  have d: "drop (pb_offset b + 1) (pb_content b) = ?e @ QUOTE # x"
    using f1 by (simp add: facing_def buffer_at_offset_def)
  obtain k where k: "string_end (?e @ QUOTE # x) 0 0 = Some (length ?e, k)" "length s + k \<le> length ?e"
    using string_end_escaped [OF nz, of x 0 0] by auto
  have un: "unescape (pb_content b) (pb_offset b + 1 + length ?e) (pb_offset b + 1) [] =
      Inr (True, pb_offset b + 1 + length ?e, s)"
    using unescape_escaped [OF d nz, of "[]"] by simp
  let ?b = "b\<lparr>pb_mem := pb_mem b - 1, pb_offset := pb_offset b + 1 + length ?e + 1\<rparr>"
  have "parse_string item b = Inr (True, item\<lparr>c_type := cJSON_String, c_valuestring := Some s\<rparr>, ?b)"
    using facing_Cons(5) [OF f] d k un assms(2) by (simp add: parse_string_def Let_def)
  moreover have "facing ?b x"
    using facing_advance [of b "QUOTE # ?e @ [QUOTE]" x] f by (simp add: facing_def buffer_at_offset_def)
  ultimately show ?thesis by (auto simp: read_to_def s_def)
qed

section \<open>Numbers\<close>

lemma parse_number_text:
  assumes "numbers_fit fl" "numbers_read fl" "f_finite fl d" "facing b (number_text fl d @ c # x)" "\<not> is_number_char c"
  shows "\<exists>b'. parse_number fl item b = (True, reread_number fl d item, b') \<and> read_to b (c # x) 0 b'"
proof -
  let ?t = "number_text fl d"
  have r: "?t \<noteq> []" "list_all is_number_char ?t" "snd (f_strtod fl ?t) = length ?t"
    using assms(2,3) by (simp_all add: numbers_read_def Let_def)
  have "length ?t \<le> 25" using number_text_fits(1) [OF assms(1)] .
  then have "number_c_string b = ?t"
    using assms(4,5) r(2) by (simp add: number_c_string_def facing_def takeWhile_append list_all_iff take_Cons')
  then show ?thesis
    using facing_advance [OF assms(4)] r(1,3) assms(3)
    by (auto simp: parse_number_def reread_number_def read_to_def case_prod_beta Let_def)
qed

section \<open>Arrays and objects\<close>

text \<open>A parser reads the text \<open>t\<close> as the value \<open>v\<close>, wherever it stands before a character that cannot belong to a
  number, with fewer allocations than the text has characters.\<close>

definition reads :: "'d parser \<Rightarrow> nat \<Rightarrow> 'd cnode \<Rightarrow> bytes \<Rightarrow> 'd cJSON \<Rightarrow> bool" where
  "reads pv lv base t v \<longleftrightarrow> (\<forall>b c x. facing b (t @ c # x) \<longrightarrow> \<not> is_number_char c \<longrightarrow> length t \<le> pb_mem b + 1 \<longrightarrow>
     pb_depth b + lv \<le> CJSON_NESTING_LIMIT \<longrightarrow>
     (\<exists>b'. pv base b = Some (Inr (True, v, b')) \<and> read_to b (c # x) (length t - 1) b'))"

definition visible :: "bytes \<Rightarrow> bool" where
  "visible t \<longleftrightarrow> t \<noteq> [] \<and> 32 < hd t \<and> hd t \<noteq> RBRACKET \<and> hd t \<noteq> RBRACE \<and> hd t \<noteq> 0xEF"

definition spaces :: "bytes \<Rightarrow> bool" where
  "spaces w \<longleftrightarrow> (\<forall>s\<in>set w. s \<le> 32)"

lemma spaces_simps [simp]:
  "spaces []" "spaces (c # w) \<longleftrightarrow> c \<le> 32 \<and> spaces w" "spaces (v @ w) \<longleftrightarrow> spaces v \<and> spaces w"
  "spaces (replicate n 9)"
  by (auto simp: spaces_def)

lemma not_number_char [simp]:
  "\<not> is_number_char COMMA" "\<not> is_number_char RBRACKET" "\<not> is_number_char RBRACE" "\<not> is_number_char 0"
  by (simp_all add: is_number_char_def)

lemma space_not_number: "c \<le> 32 \<Longrightarrow> \<not> is_number_char c"
  by (auto simp: is_number_char_def word_le_nat_alt)

lemma reads_mono: "reads pv lv base t v \<Longrightarrow> lv \<le> lv' \<Longrightarrow> reads pv lv' base t v"
  unfolding reads_def using add_le_mono le_trans by (metis (no_types, opaque_lifting) nat_add_left_cancel_le)

lemma readsD:
  assumes "reads pv lv base t v" "facing b (t @ c # x)" "\<not> is_number_char c" "length t \<le> pb_mem b + 1"
    "pb_depth b + lv \<le> CJSON_NESTING_LIMIT"
  obtains b' where "pv base b = Some (Inr (True, v, b'))" "read_to b (c # x) (length t - 1) b'"
  using assms by (force simp: reads_def)

text \<open>Skipping white space in front of a visible character.\<close>

lemma skip_to:
  assumes "facing b (w @ c # x)" "spaces w" "32 < c"
  shows "read_to b (c # x) 0 (buffer_skip_whitespace b)"
  using skip_spaces [of b w c x] assms by (simp add: read_to_def spaces_def)

lemma skip_to_visible:
  assumes "facing b (w @ t @ x)" "spaces w" "visible t"
  shows "read_to b (t @ x) 0 (buffer_skip_whitespace b)"
  using skip_to [of b w "hd t" "tl t @ x"] assms by (cases t) (auto simp: visible_def)

lemma read_to_trans: "read_to b x k b' \<Longrightarrow> read_to b' y l b'' \<Longrightarrow> read_to b y (k + l) b''"
  by (auto simp: read_to_def)

lemma read_to_mono: "read_to b x k b' \<Longrightarrow> k \<le> l \<Longrightarrow> read_to b x l b'"
  by (simp add: read_to_def)

lemma read_to_facing: "read_to b x k b' \<Longrightarrow> facing b' x"
  by (simp add: read_to_def)

text \<open>One element of an array: allocation, white space, the value, white space.\<close>

lemma element_round:
  assumes "reads pv lv base t v" "visible t" "facing (b\<lparr>pb_offset := pb_offset b + 1\<rparr>) (w @ t @ w' @ c # x)"
    "spaces w" "spaces w'" "32 < c" "\<not> is_number_char c" "length t \<le> pb_mem b" "pb_depth b + lv \<le> CJSON_NESTING_LIMIT"
  obtains b' where
    "pv base (buffer_skip_whitespace (b\<lparr>pb_mem := pb_mem b - 1, pb_offset := pb_offset b + 1\<rparr>)) = Some (Inr (True, v, b'))"
    "read_to b (c # x) (length t) (buffer_skip_whitespace b')"
proof -
  let ?b1 = "b\<lparr>pb_mem := pb_mem b - 1, pb_offset := pb_offset b + 1\<rparr>"
  have "facing ?b1 (w @ t @ w' @ c # x)" using assms(3) by (simp add: facing_def buffer_at_offset_def)
  then have r1: "read_to ?b1 (t @ w' @ c # x) 0 (buffer_skip_whitespace ?b1)" by (rule skip_to_visible [OF _ assms(4,2)])
  obtain d y where dy: "w' @ c # x = d # y" "\<not> is_number_char d"
    using assms(5,7) by (cases w') (auto dest: space_not_number)
  obtain n where lt: "length t = Suc n" using assms(2) by (cases t) (auto simp: visible_def)
  have mem: "length t \<le> pb_mem (buffer_skip_whitespace ?b1) + 1" "pb_depth (buffer_skip_whitespace ?b1) = pb_depth b"
    using r1 assms(8) by (auto simp: read_to_def)
  obtain b' where b': "pv base (buffer_skip_whitespace ?b1) = Some (Inr (True, v, b'))"
    "read_to (buffer_skip_whitespace ?b1) (d # y) (length t - 1) b'"
    using readsD [OF assms(1) _ dy(2) mem(1)] read_to_facing [OF r1] mem(2) assms(9) dy(1) by metis
  have r2: "read_to b' (c # x) 0 (buffer_skip_whitespace b')"
    using skip_to [OF _ assms(5,6)] read_to_facing [OF b'(2)] dy(1) by metis
  have "read_to ?b1 (c # x) (length t - 1) (buffer_skip_whitespace b')"
    using read_to_trans [OF read_to_trans [OF r1 b'(2) [folded dy(1)]] r2] by simp
  then have "read_to b (c # x) (length t) (buffer_skip_whitespace b')"
    using lt assms(8) by (auto simp: read_to_def)
  then show ?thesis using that b'(1) by blast
qed

lemma array_loop_reads:
  assumes "es \<noteq> []" "\<forall>(t, v)\<in>set es. reads pv lv (new_node fl) t v \<and> visible t"
    "elements_text fmt (map (\<lambda>(t, v). Some t) es) = Some tx"
    "facing (b\<lparr>pb_offset := pb_offset b + 1\<rparr>) (w @ tx @ RBRACKET # x)" "spaces w"
    "length tx \<le> pb_mem b" "pb_depth b + lv \<le> CJSON_NESTING_LIMIT" "length es \<le> fuel"
  shows "\<exists>b'. array_loop fuel pv fl head b = Some (Inr (True, head @ map snd es, b')) \<and>
    read_to b (RBRACKET # x) (length tx) b'"
  using assms
proof (induction es arbitrary: b fuel head tx w)
  case (Cons e es)
  obtain t v where e: "e = (t, v)" by (cases e)
  have rv: "reads pv lv (new_node fl) t v" "visible t" using Cons.prems(2) e by auto
  obtain f where f: "fuel = Suc f" using Cons.prems(8) by (cases fuel) auto
  show ?case
  proof (cases es)
    case Nil
    then have tx: "tx = t" using Cons.prems(3) e by simp
    obtain b' where b': "pv (new_node fl) (buffer_skip_whitespace (b\<lparr>pb_mem := pb_mem b - 1, pb_offset := pb_offset b + 1\<rparr>)) =
        Some (Inr (True, v, b'))" "read_to b (RBRACKET # x) (length t) (buffer_skip_whitespace b')"
      using element_round [OF rv, of b w "[]" RBRACKET x] Cons.prems(4-7) tx by auto
    moreover have "pb_mem b \<noteq> 0" using rv(2) Cons.prems(6) tx by (cases t) (auto simp: visible_def)
    ultimately show ?thesis
      using facing_Cons(3) [OF read_to_facing [OF b'(2)], of COMMA] f e Nil tx by (simp add: Let_def)
  next
    case more: (Cons e' es')
    define sep where "sep = (if fmt then [32] else [] :: bytes)"
    obtain tx' where tx': "elements_text fmt (map (\<lambda>(t, v). Some t) es) = Some tx'" "tx = t @ COMMA # sep @ tx'"
      using Cons.prems(3) e more by (cases e') (auto simp: sep_def opt_app_def split: option.splits)
    obtain b' where b': "pv (new_node fl) (buffer_skip_whitespace (b\<lparr>pb_mem := pb_mem b - 1, pb_offset := pb_offset b + 1\<rparr>)) =
        Some (Inr (True, v, b'))" "read_to b (COMMA # sep @ tx' @ RBRACKET # x) (length t) (buffer_skip_whitespace b')"
      using element_round [OF rv, of b w "[]" COMMA "sep @ tx' @ RBRACKET # x"] Cons.prems(4-7) tx'(2) by auto
    let ?b = "buffer_skip_whitespace b'"
    have sp: "spaces sep" by (simp add: sep_def)
    have fc: "facing (?b\<lparr>pb_offset := pb_offset ?b + 1\<rparr>) (sep @ tx' @ RBRACKET # x)"
      using facing_Suc [OF read_to_facing [OF b'(2)]] by simp
    have mem: "length tx' \<le> pb_mem ?b" "pb_depth ?b + lv \<le> CJSON_NESTING_LIMIT"
      using b'(2) Cons.prems(6,7) tx'(2) by (auto simp: read_to_def)
    obtain b'' where b'': "array_loop f pv fl (head @ [v]) ?b = Some (Inr (True, (head @ [v]) @ map snd es, b''))"
      "read_to ?b (RBRACKET # x) (length tx') b''"
      using Cons.IH [OF _ _ tx'(1) fc sp mem, of f "head @ [v]"] Cons.prems(2,8) f more by auto
    have "array_loop fuel pv fl head b = array_loop f pv fl (head @ [v]) ?b"
      using b'(1) facing_Cons(3) [OF read_to_facing [OF b'(2)], of COMMA] f Cons.prems(6) tx'(2) by (simp add: Let_def)
    moreover have "read_to b (RBRACKET # x) (length tx) b''"
      using read_to_trans [OF b'(2) b''(2)] tx'(2) by (auto simp: read_to_def)
    ultimately show ?thesis using b''(1) e by auto
  qed
qed simp

text \<open>One member of an object.\<close>

definition member_text :: "bool \<Rightarrow> bytes option \<Rightarrow> bytes \<Rightarrow> bytes" where
  "member_text fmt k t = string_text k @ COLON # (if fmt then [9] else []) @ t"

definition indent :: "bool \<Rightarrow> nat \<Rightarrow> bytes" where
  "indent fmt d = (if fmt then replicate d 9 else [])"

lemma spaces_indent [simp]: "spaces (indent fmt d)"
  by (simp add: indent_def)

lemma members_text_Cons:
  "members_text fmt d ((k, Some t) # ts) = Some tx \<longleftrightarrow>
     (\<exists>tx'. members_text fmt d ts = Some tx' \<and>
       tx = indent fmt d @ member_text fmt k t @ (if ts \<noteq> [] then [COMMA] else []) @ (if fmt then [10] else []) @ tx')"
  by (auto simp: opt_app_def member_text_def indent_def split: option.splits)

lemma member_round:
  assumes "reads pv lv (member_node fl k) t v" "visible t"
    "facing (b\<lparr>pb_offset := pb_offset b + 1\<rparr>) (w @ member_text fmt k t @ w' @ c # x)"
    "spaces w" "spaces w'" "32 < c" "\<not> is_number_char c" "length (member_text fmt k t) \<le> pb_mem b"
    "pb_depth b + lv \<le> CJSON_NESTING_LIMIT"
  obtains b1 item b2 b3 where
    "parse_string (new_node fl) (buffer_skip_whitespace (b\<lparr>pb_mem := pb_mem b - 1, pb_offset := pb_offset b + 1\<rparr>)) =
      Inr (True, item, b1)"
    "item\<lparr>c_string := c_valuestring item, c_valuestring := None\<rparr> = member_node fl k"
    "b2 = buffer_skip_whitespace b1" "looking_at b2 COLON"
    "pv (member_node fl k) (buffer_skip_whitespace (b2\<lparr>pb_offset := pb_offset b2 + 1\<rparr>)) = Some (Inr (True, v, b3))"
    "read_to b (c # x) (length (member_text fmt k t)) (buffer_skip_whitespace b3)"
proof -
  define tab where "tab = (if fmt then [9] else [] :: bytes)"
  have sp: "spaces tab" by (simp add: tab_def)
  have mt: "member_text fmt k t = string_text k @ COLON # tab @ t" by (simp add: member_text_def tab_def)
  obtain q where q: "string_text k = QUOTE # q" "q \<noteq> []" by (simp add: string_text_def)
  let ?x1 = "COLON # tab @ t @ w' @ c # x"
  let ?b0 = "b\<lparr>pb_mem := pb_mem b - 1, pb_offset := pb_offset b + 1\<rparr>"
  have "facing ?b0 (w @ QUOTE # q @ ?x1)"
    using assms(3) q(1) mt by (simp add: facing_def buffer_at_offset_def)
  then have r0: "read_to ?b0 (string_text k @ ?x1) 0 (buffer_skip_whitespace ?b0)"
    using skip_to [of ?b0 w QUOTE "q @ ?x1"] assms(4) q(1) by simp
  have big: "2 + length t \<le> pb_mem b" using assms(8) mt q by (cases q) auto
  then have "0 < pb_mem (buffer_skip_whitespace ?b0)" using r0 by (auto simp: read_to_def)
  then obtain b1 where b1: "parse_string (new_node fl) (buffer_skip_whitespace ?b0) =
      Inr (True, (new_node fl)\<lparr>c_type := cJSON_String, c_valuestring := Some (text_of k)\<rparr>, b1)"
    "read_to (buffer_skip_whitespace ?b0) ?x1 1 b1"
    using parse_string_text [OF read_to_facing [OF r0]] by blast
  let ?b2 = "buffer_skip_whitespace b1"
  have r2: "read_to b1 ?x1 0 ?b2" using skip_to [of b1 "[]" COLON] read_to_facing [OF b1(2)] by simp
  let ?b3 = "?b2\<lparr>pb_offset := pb_offset ?b2 + 1\<rparr>"
  have f3: "facing ?b3 (tab @ t @ w' @ c # x)" using facing_Suc [OF read_to_facing [OF r2]] by simp
  have r3: "read_to ?b3 (t @ w' @ c # x) 0 (buffer_skip_whitespace ?b3)" by (rule skip_to_visible [OF f3 sp assms(2)])
  have r02: "read_to ?b0 ?x1 1 ?b2" using read_to_trans [OF read_to_trans [OF r0 b1(2)] r2] by simp
  then have r03: "read_to ?b0 (t @ w' @ c # x) 1 (buffer_skip_whitespace ?b3)" using r3 by (auto simp: read_to_def)
  obtain e y where ey: "w' @ c # x = e # y" "\<not> is_number_char e"
    using assms(5,7) by (cases w') (auto dest: space_not_number)
  have "length t \<le> pb_mem (buffer_skip_whitespace ?b3) + 1" "pb_depth (buffer_skip_whitespace ?b3) + lv \<le> CJSON_NESTING_LIMIT"
    using r03 big assms(9) by (auto simp: read_to_def)
  then obtain b4 where b4: "pv (member_node fl k) (buffer_skip_whitespace ?b3) = Some (Inr (True, v, b4))"
    "read_to (buffer_skip_whitespace ?b3) (e # y) (length t - 1) b4"
    using readsD [OF assms(1) _ ey(2)] read_to_facing [OF r3] ey(1) by metis
  have "read_to b4 (c # x) 0 (buffer_skip_whitespace b4)"
    using skip_to [OF _ assms(5,6)] read_to_facing [OF b4(2)] ey(1) by metis
  then have "read_to ?b0 (c # x) (1 + (length t - 1) + 0) (buffer_skip_whitespace b4)"
    using read_to_trans [OF read_to_trans [OF r03 b4(2) [folded ey(1)]]] by blast
  moreover obtain n where "length t = Suc n" using assms(2) by (cases t) (auto simp: visible_def)
  ultimately have r: "read_to b (c # x) (length (member_text fmt k t)) (buffer_skip_whitespace b4)"
    using big mt q by (auto simp: read_to_def)
  show ?thesis
    by (rule that [OF b1(1) _ refl _ b4(1) r])
       (simp_all add: member_node_def new_node_def facing_Cons(3) [OF read_to_facing [OF r2]])
qed

lemma object_loop_reads:
  assumes "ms \<noteq> []" "\<forall>(k, t, v)\<in>set ms. reads pv lv (member_node fl k) t v \<and> visible t"
    "members_text fmt d (map (\<lambda>(k, t, v). (k, Some t)) ms) = Some (indent fmt d @ tx)"
    "facing (b\<lparr>pb_offset := pb_offset b + 1\<rparr>) (w @ tx @ w' @ RBRACE # x)" "spaces w" "spaces w'"
    "length tx \<le> pb_mem b" "pb_depth b + lv \<le> CJSON_NESTING_LIMIT" "length ms \<le> fuel"
  shows "\<exists>b'. object_loop fuel pv fl head b = Some (Inr (True, head @ map (\<lambda>(k, t, v). v) ms, b')) \<and>
    read_to b (RBRACE # x) (length tx) b'"
  using assms
proof (induction ms arbitrary: b fuel head tx w)
  case (Cons e ms)
  obtain k t v where e: "e = (k, t, v)" by (cases e)
  have rv: "reads pv lv (member_node fl k) t v" "visible t" using Cons.prems(2) e by auto
  obtain f where f: "fuel = Suc f" using Cons.prems(9) by (cases fuel) auto
  define nl where "nl = (if fmt then [10] else [] :: bytes)"
  have sp: "spaces nl" by (simp add: nl_def)
  obtain tx' where tx': "members_text fmt d (map (\<lambda>(k, t, v). (k, Some t)) ms) = Some tx'"
    "tx = member_text fmt k t @ (if ms \<noteq> [] then [COMMA] else []) @ nl @ tx'"
    using Cons.prems(3) e by (auto simp: members_text_Cons nl_def simp del: members_text.simps)
  have ne: "pb_mem b \<noteq> 0" using Cons.prems(7) tx'(2) by (auto simp: member_text_def)
  have len: "length (member_text fmt k t) \<le> pb_mem b" using Cons.prems(7) tx'(2) by simp
  show ?case
  proof (cases "ms = []")
    case True
    have fc: "facing (b\<lparr>pb_offset := pb_offset b + 1\<rparr>) (w @ member_text fmt k t @ (nl @ w') @ RBRACE # x)"
      using Cons.prems(4) tx' True by simp
    have s': "spaces (nl @ w')" using sp Cons.prems(6) by simp
    have c1: "32 < RBRACE" "\<not> is_number_char RBRACE" by simp_all
    obtain b1 item b2 b3 where r: "parse_string (new_node fl)
        (buffer_skip_whitespace (b\<lparr>pb_mem := pb_mem b - 1, pb_offset := pb_offset b + 1\<rparr>)) = Inr (True, item, b1)"
      "item\<lparr>c_string := c_valuestring item, c_valuestring := None\<rparr> = member_node fl k"
      "b2 = buffer_skip_whitespace b1" "looking_at b2 COLON"
      "pv (member_node fl k) (buffer_skip_whitespace (b2\<lparr>pb_offset := pb_offset b2 + 1\<rparr>)) = Some (Inr (True, v, b3))"
      "read_to b (RBRACE # x) (length (member_text fmt k t)) (buffer_skip_whitespace b3)"
      by (rule member_round [OF rv fc Cons.prems(5) s' c1 len Cons.prems(8)]) (rule that, assumption+)
    have "object_loop fuel pv fl head b = Some (Inr (True, head @ [v], buffer_skip_whitespace b3))"
      using r(1-5) ne f facing_Cons(3) [OF read_to_facing [OF r(6)], of COMMA] by (simp add: Let_def)
    then show ?thesis using r(6) e True tx' by (auto simp: read_to_def)
  next
    case False
    obtain tx2 where tx2: "tx' = indent fmt d @ tx2"
    proof -
      obtain k' t' v' ms' where "ms = (k', t', v') # ms'" using False by (cases ms) auto
      then show ?thesis using tx'(1) that by (auto simp: members_text_Cons simp del: members_text.simps)
    qed
    let ?x = "(nl @ indent fmt d) @ tx2 @ w' @ RBRACE # x"
    have sp2: "spaces (nl @ indent fmt d)" using sp by simp
    have fc: "facing (b\<lparr>pb_offset := pb_offset b + 1\<rparr>) (w @ member_text fmt k t @ [] @ COMMA # ?x)"
      using Cons.prems(4) tx' tx2 False by simp
    have c1: "32 < COMMA" "\<not> is_number_char COMMA" by simp_all
    obtain b1 item b2 b3 where r: "parse_string (new_node fl)
        (buffer_skip_whitespace (b\<lparr>pb_mem := pb_mem b - 1, pb_offset := pb_offset b + 1\<rparr>)) = Inr (True, item, b1)"
      "item\<lparr>c_string := c_valuestring item, c_valuestring := None\<rparr> = member_node fl k"
      "b2 = buffer_skip_whitespace b1" "looking_at b2 COLON"
      "pv (member_node fl k) (buffer_skip_whitespace (b2\<lparr>pb_offset := pb_offset b2 + 1\<rparr>)) = Some (Inr (True, v, b3))"
      "read_to b (COMMA # ?x) (length (member_text fmt k t)) (buffer_skip_whitespace b3)"
      by (rule member_round [OF rv fc Cons.prems(5) spaces_simps(1) c1 len Cons.prems(8)]) (rule that, assumption+)
    let ?b = "buffer_skip_whitespace b3"
    have run: "object_loop fuel pv fl head b = object_loop f pv fl (head @ [v]) ?b"
      using r(1-5) ne f facing_Cons(3) [OF read_to_facing [OF r(6)], of COMMA] by (simp add: Let_def)
    have fc2: "facing (?b\<lparr>pb_offset := pb_offset ?b + 1\<rparr>) ?x" using facing_Suc [OF read_to_facing [OF r(6)]] by simp
    have mem: "length tx2 \<le> pb_mem ?b" "pb_depth ?b + lv \<le> CJSON_NESTING_LIMIT"
      using r(6) Cons.prems(7,8) tx'(2) tx2 False by (auto simp: read_to_def)
    obtain b' where b': "object_loop f pv fl (head @ [v]) ?b = Some (Inr (True, (head @ [v]) @ map (\<lambda>(k, t, v). v) ms, b'))"
      "read_to ?b (RBRACE # x) (length tx2) b'"
      using Cons.IH [OF False _ tx'(1) [unfolded tx2] fc2 sp2 Cons.prems(6) mem, of f "head @ [v]"] Cons.prems(2,9) f by auto
    have "read_to b (RBRACE # x) (length tx) b'" using read_to_trans [OF r(6) b'(2)] tx'(2) tx2 by (auto simp: read_to_def)
    then show ?thesis using run b'(1) e by auto
  qed
qed simp

section \<open>Documents\<close>

text \<open>The texts of the parts, when the whole has a text.\<close>

lemma elements_text_Some:
  assumes "elements_text fmt l = Some tx"
  obtains ts where "l = map Some ts" "\<forall>t\<in>set ts. length t \<le> length tx" "\<forall>t\<in>set ts. t \<noteq> [] \<Longrightarrow> length ts \<le> length tx"
  using assms
proof (induction fmt l arbitrary: tx thesis rule: elements_text.induct)
  case (2 fmt t)
  then show ?case using "2.prems"(1) [of "[tx]"] by (auto simp: Suc_le_eq)
next
  case (3 fmt t t' ts)
  obtain a tx' where a: "t = Some a" "elements_text fmt (t' # ts) = Some tx'"
    "tx = a @ (if fmt then [COMMA, 32] else [COMMA]) @ tx'"
    using "3.prems"(2) by (auto simp: opt_app_def split: option.splits)
  obtain us where us: "t' # ts = map Some us" "\<forall>t\<in>set us. length t \<le> length tx'"
    "\<forall>t\<in>set us. t \<noteq> [] \<Longrightarrow> length us \<le> length tx'"
    using "3.IH" [OF _ a(2)] by blast
  show ?case
    by (rule "3.prems"(1) [of "a # us"]) (use a us in \<open>auto simp: le_SucI le_add2 trans_le_add2\<close>)
qed auto

lemma members_text_Some:
  assumes "members_text fmt d (zip ks l) = Some tx" "length ks = length l"
  obtains ts where "l = map Some ts" "\<forall>t\<in>set ts. length t \<le> length tx" "length ts \<le> length tx"
  using assms(2,1)
proof (induction ks l arbitrary: tx thesis rule: list_induct2)
  case (Cons k ks t l)
  obtain a where a: "t = Some a" using Cons.prems(2) by (cases t) (auto simp: opt_app_def)
  obtain tx' where tx': "members_text fmt d (zip ks l) = Some tx'"
    "tx = indent fmt d @ member_text fmt k a @ (if zip ks l \<noteq> [] then [COMMA] else []) @ (if fmt then [10] else []) @ tx'"
    using Cons.prems(2) a by (auto simp: members_text_Cons simp del: members_text.simps)
  obtain ts where ts: "l = map Some ts" "\<forall>t\<in>set ts. length t \<le> length tx'" "length ts \<le> length tx'"
    using Cons.IH [OF _ tx'(1)] by blast
  show ?case
    by (rule Cons.prems(1) [of "a # ts"]) (use a tx'(2) ts in \<open>auto simp: member_text_def trans_le_add2\<close>)
qed simp

text \<open>What stands in front of the text decides which branch of \<open>parse_value\<close> is taken.\<close>

lemma parse_value_branch:
  assumes "facing b (c # x)" "c \<noteq> 110" "c \<noteq> 102" "c \<noteq> 116"
  shows "parse_value (Suc fuel) fl item b =
    (if c = QUOTE then Some (bind_result (parse_string item b) (\<lambda>(ok, item, b). Inr (ok, CJSON item [], b)))
     else if c = MINUS \<or> 48 \<le> c \<and> c \<le> 57 then
       (let (ok, item, b) = parse_number fl item b in Some (Inr (ok, CJSON item [], b)))
     else if c = LBRACKET then parse_array fuel (parse_value fuel fl) fl item b
     else if c = LBRACE then parse_object fuel (parse_value fuel fl) fl item b
     else Some (Inr (False, CJSON item [], b)))"
  using assms facing_Cons [OF assms(1)] facing_literal [OF assms(1)]
  by (simp add: NULL_text_def FALSE_text_def TRUE_text_def numeral_eq_Suc)

lemma literal_reads:
  assumes "0 < fuel"
  shows "reads (parse_value fuel fl) lv base NULL_text (CJSON (base\<lparr>c_type := cJSON_NULL\<rparr>) [])"
    "reads (parse_value fuel fl) lv base FALSE_text (CJSON (base\<lparr>c_type := cJSON_False\<rparr>) [])"
    "reads (parse_value fuel fl) lv base TRUE_text (CJSON (base\<lparr>c_type := cJSON_True, c_valueint := 1\<rparr>) [])"
proof -
  obtain f where f: "fuel = Suc f" using assms by (cases fuel) auto
  have adv: "read_to b x k (b\<lparr>pb_offset := pb_offset b + length t\<rparr>)" if "facing b (t @ x)" for b x t k
    using facing_advance [OF that] by (simp add: read_to_def)
  have lit: "can_read b (length t) \<and> take (length t) (buffer_at_offset b) = t" if "facing b (t @ x)" for b t x
    using facing_literal [OF that, of "length t"] by simp
  have no: "\<not> (can_read b n \<and> take n (buffer_at_offset b) = t)" if "facing b (c # x)" "t \<noteq> []" "c \<noteq> hd t" for b c x n t
    using facing_literal [OF that(1), of n t] that(2,3) by (cases n) auto
  have len: "length NULL_text = 4" "length FALSE_text = 5" "length TRUE_text = 4"
    by (simp_all add: NULL_text_def FALSE_text_def TRUE_text_def)
  have hd: "hd NULL_text = 110" "hd FALSE_text = 102" "NULL_text \<noteq> []" "FALSE_text \<noteq> []"
    "FALSE_text = 102 # tl FALSE_text" "TRUE_text = 116 # tl TRUE_text"
    by (simp_all add: NULL_text_def FALSE_text_def TRUE_text_def)
  show "reads (parse_value fuel fl) lv base NULL_text (CJSON (base\<lparr>c_type := cJSON_NULL\<rparr>) [])"
    unfolding reads_def f
  proof (intro allI impI)
    fix b c x assume fc: "facing b (NULL_text @ c # x)"
    have "parse_value (Suc f) fl base b =
        Some (Inr (True, CJSON (base\<lparr>c_type := cJSON_NULL\<rparr>) [], b\<lparr>pb_offset := pb_offset b + length NULL_text\<rparr>))"
      using lit [OF fc] unfolding len by (simp only: parse_value.simps if_True simp_thms)
    with adv [OF fc] show "\<exists>b'. parse_value (Suc f) fl base b = Some (Inr (True, CJSON (base\<lparr>c_type := cJSON_NULL\<rparr>) [], b')) \<and>
        read_to b (c # x) (length NULL_text - 1) b'"
      by (intro exI conjI)
  qed
  show "reads (parse_value fuel fl) lv base FALSE_text (CJSON (base\<lparr>c_type := cJSON_False\<rparr>) [])"
    unfolding reads_def f
  proof (intro allI impI)
    fix b c x assume fc: "facing b (FALSE_text @ c # x)"
    then have "facing b (102 # tl FALSE_text @ c # x)" using hd(5) by (metis append_Cons)
    then have "\<not> (can_read b 4 \<and> take 4 (buffer_at_offset b) = NULL_text)" by (rule no) (simp_all add: hd(1-4))
    then have "parse_value (Suc f) fl base b =
        Some (Inr (True, CJSON (base\<lparr>c_type := cJSON_False\<rparr>) [], b\<lparr>pb_offset := pb_offset b + length FALSE_text\<rparr>))"
      using lit [OF fc] unfolding len by (simp only: parse_value.simps if_True if_False simp_thms)
    with adv [OF fc] show "\<exists>b'. parse_value (Suc f) fl base b = Some (Inr (True, CJSON (base\<lparr>c_type := cJSON_False\<rparr>) [], b')) \<and>
        read_to b (c # x) (length FALSE_text - 1) b'"
      by (intro exI conjI)
  qed
  show "reads (parse_value fuel fl) lv base TRUE_text (CJSON (base\<lparr>c_type := cJSON_True, c_valueint := 1\<rparr>) [])"
    unfolding reads_def f
  proof (intro allI impI)
    fix b c x assume fc: "facing b (TRUE_text @ c # x)"
    then have fc': "facing b (116 # tl TRUE_text @ c # x)" using hd(6) by (metis append_Cons)
    have "\<not> (can_read b 4 \<and> take 4 (buffer_at_offset b) = NULL_text)" by (rule no [OF fc']) (simp_all add: hd(1-4))
    moreover have "\<not> (can_read b 5 \<and> take 5 (buffer_at_offset b) = FALSE_text)" by (rule no [OF fc']) (simp_all add: hd(1-4))
    ultimately have "parse_value (Suc f) fl base b =
        Some (Inr (True, CJSON (base\<lparr>c_type := cJSON_True, c_valueint := 1\<rparr>) [], b\<lparr>pb_offset := pb_offset b + length TRUE_text\<rparr>))"
      using lit [OF fc] unfolding len by (simp only: parse_value.simps if_True if_False simp_thms)
    with adv [OF fc] show "\<exists>b'. parse_value (Suc f) fl base b =
        Some (Inr (True, CJSON (base\<lparr>c_type := cJSON_True, c_valueint := 1\<rparr>) [], b')) \<and>
        read_to b (c # x) (length TRUE_text - 1) b'"
      by (intro exI conjI)
  qed
qed

declare parse_value.simps [simp del]

lemma string_reads:
  assumes "0 < fuel"
  shows "reads (parse_value fuel fl) lv base (string_text s)
    (CJSON (base\<lparr>c_type := cJSON_String, c_valuestring := Some (text_of s)\<rparr>) [])"
  unfolding reads_def
proof (intro allI impI)
  fix b c x assume fc: "facing b (string_text s @ c # x)" and mem: "length (string_text s) \<le> pb_mem b + 1"
  obtain f where f: "fuel = Suc f" using assms by (cases fuel) auto
  obtain q where q: "string_text s = QUOTE # q" "0 < length q" by (simp add: string_text_def)
  have fq: "facing b (QUOTE # q @ c # x)" using fc q by simp
  have m: "0 < pb_mem b" using mem q by (cases q) auto
  obtain b' where b': "parse_string base b = Inr (True, base\<lparr>c_type := cJSON_String, c_valuestring := Some (text_of s)\<rparr>, b')"
    "read_to b (c # x) 1 b'"
    using parse_string_text [OF fc m] by blast
  have "parse_value fuel fl base b =
      Some (Inr (True, CJSON (base\<lparr>c_type := cJSON_String, c_valuestring := Some (text_of s)\<rparr>) [], b'))"
    using parse_value_branch [OF fq, of f fl base] f b'(1) by simp
  moreover have "read_to b (c # x) (length (string_text s) - 1) b'"
    by (rule read_to_mono [OF b'(2)]) (use q in \<open>simp add: Suc_le_eq\<close>)
  ultimately show "\<exists>b'. parse_value fuel fl base b =
      Some (Inr (True, CJSON (base\<lparr>c_type := cJSON_String, c_valuestring := Some (text_of s)\<rparr>) [], b')) \<and>
      read_to b (c # x) (length (string_text s) - 1) b'"
    by blast
qed

lemma number_reads:
  assumes "numbers_fit fl" "numbers_read fl" "f_finite fl d" "0 < fuel"
  shows "reads (parse_value fuel fl) lv base (number_text fl d) (CJSON (reread_number fl d base) [])"
  unfolding reads_def
proof (intro allI impI)
  fix b c x assume fc: "facing b (number_text fl d @ c # x)" "\<not> is_number_char c"
  obtain f where f: "fuel = Suc f" using assms(4) by (cases fuel) auto
  obtain a q where q: "number_text fl d = a # q" "a = MINUS \<or> 48 \<le> a \<and> a \<le> 57"
    using assms(2,3) by (cases "number_text fl d") (auto simp: numbers_read_def Let_def)
  have fq: "facing b (a # q @ c # x)" using fc q by simp
  have "a \<noteq> 110" "a \<noteq> 102" "a \<noteq> 116" "a \<noteq> QUOTE" using q(2) by auto
  moreover obtain b' where b': "parse_number fl base b = (True, reread_number fl d base, b')" "read_to b (c # x) 0 b'"
    using parse_number_text [OF assms(1-3) fc] by blast
  ultimately have "parse_value fuel fl base b = Some (Inr (True, CJSON (reread_number fl d base) [], b'))"
    using parse_value_branch [OF fq, of f fl base] f q(2) by auto
  then show "\<exists>b'. parse_value fuel fl base b = Some (Inr (True, CJSON (reread_number fl d base) [], b')) \<and>
      read_to b (c # x) (length (number_text fl d) - 1) b'"
    using read_to_mono [OF b'(2), of "length (number_text fl d) - 1"] by blast
qed

text \<open>Stepping over an opening bracket and back again, as \<open>parse_array\<close> and \<open>parse_object\<close> do.\<close>

lemma step_back:
  assumes "facing b (c # x)" "b1 = b\<lparr>pb_depth := pb_depth b + 1\<rparr>"
    "b2 = buffer_skip_whitespace (b1\<lparr>pb_offset := pb_offset b1 + 1\<rparr>)" "read_to (b1\<lparr>pb_offset := pb_offset b1 + 1\<rparr>) y 0 b2"
    "b3 = b2\<lparr>pb_offset := pb_offset b2 - 1\<rparr>" "pb_offset b < pb_offset b2"
  shows "facing (b3\<lparr>pb_offset := pb_offset b3 + 1\<rparr>) y" "pb_mem b \<le> pb_mem b3" "pb_depth b3 = pb_depth b + 1"
    "pb_content b3 = pb_content b"
  using assms by (auto simp: read_to_def facing_def buffer_at_offset_def)

lemma skip_offset: "pb_offset b < length (pb_content b) \<Longrightarrow> pb_offset b \<le> pb_offset (buffer_skip_whitespace b)"
  by (auto simp: buffer_skip_whitespace_def Let_def)

text \<open>The end of an array or object.\<close>

lemma close_bracket:
  assumes "read_to b3 (c # x) k b'" "pb_depth b3 = pb_depth b + 1" "pb_mem b \<le> pb_mem b3" "pb_content b3 = pb_content b"
  shows "read_to b x k (b'\<lparr>pb_depth := pb_depth b' - 1, pb_offset := pb_offset b' + 1\<rparr>)"
proof -
  have "facing (b'\<lparr>pb_offset := pb_offset b' + 1\<rparr>) x" using facing_Suc [of b' c x] assms(1) by (simp add: read_to_def)
  then show ?thesis using assms by (auto simp: read_to_def facing_def buffer_at_offset_def)
qed

lemma array_reads:
  assumes "\<forall>(t, v)\<in>set es. reads (parse_value f fl) lv (new_node fl) t v \<and> visible t"
    "elements_text fmt (map (\<lambda>(t, v). Some t) es) = Some tx" "length es \<le> f"
  shows "reads (parse_value (Suc f) fl) (Suc lv) base (LBRACKET # tx @ [RBRACKET])
    (CJSON (base\<lparr>c_type := cJSON_Array\<rparr>) (map snd es))"
  unfolding reads_def
proof (intro allI impI)
  fix b c x assume fc: "facing b ((LBRACKET # tx @ [RBRACKET]) @ c # x)"
    and mem: "length (LBRACKET # tx @ [RBRACKET]) \<le> pb_mem b + 1" and depth: "pb_depth b + Suc lv \<le> CJSON_NESTING_LIMIT"
  have fb: "facing b (LBRACKET # tx @ RBRACKET # c # x)" using fc by simp
  define b1 where "b1 = b\<lparr>pb_depth := pb_depth b + 1\<rparr>"
  define b2 where "b2 = buffer_skip_whitespace (b1\<lparr>pb_offset := pb_offset b1 + 1\<rparr>)"
  define b3 where "b3 = b2\<lparr>pb_offset := pb_offset b2 - 1\<rparr>"
  have f1: "facing (b1\<lparr>pb_offset := pb_offset b1 + 1\<rparr>) (tx @ RBRACKET # c # x)"
    using facing_Suc [OF fb] by (simp add: b1_def facing_def buffer_at_offset_def)
  have dep: "\<not> CJSON_NESTING_LIMIT \<le> pb_depth b" using depth by simp
  have eq: "parse_value (Suc f) fl base b = parse_array f (parse_value f fl) fl base b"
    using parse_value_branch [OF fb, of f fl base] by simp
  have arr: "parse_value (Suc f) fl base b =
      (if looking_at b2 RBRACKET then
         Some (Inr (True, CJSON (base\<lparr>c_type := cJSON_Array\<rparr>) [], b2\<lparr>pb_depth := pb_depth b2 - 1, pb_offset := pb_offset b2 + 1\<rparr>))
       else if \<not> can_access_at_index b2 0 then Some (Inr (False, CJSON base [], b3))
       else bind_run (array_loop f (parse_value f fl) fl [] b3) (\<lambda>(ok, head, b).
         if ok \<and> looking_at b RBRACKET
         then Some (Inr (True, CJSON (base\<lparr>c_type := cJSON_Array\<rparr>) head, b\<lparr>pb_depth := pb_depth b - 1, pb_offset := pb_offset b + 1\<rparr>))
         else Some (Inr (False, CJSON base [], b))))"
    unfolding eq using dep facing_Cons(5) [OF fb] by (simp add: parse_array_def b1_def b2_def b3_def Let_def)
  show "\<exists>b'. parse_value (Suc f) fl base b = Some (Inr (True, CJSON (base\<lparr>c_type := cJSON_Array\<rparr>) (map snd es), b')) \<and>
      read_to b (c # x) (length (LBRACKET # tx @ [RBRACKET]) - 1) b'"
  proof (cases "es = []")
    case True
    then have tx: "tx = []" using assms(2) by simp
    have r2: "read_to (b1\<lparr>pb_offset := pb_offset b1 + 1\<rparr>) (RBRACKET # c # x) 0 b2"
      unfolding b2_def using skip_to [of _ "[]" RBRACKET] f1 tx by simp
    then have "parse_value (Suc f) fl base b = Some (Inr (True, CJSON (base\<lparr>c_type := cJSON_Array\<rparr>) (map snd es),
        b2\<lparr>pb_depth := pb_depth b2 - 1, pb_offset := pb_offset b2 + 1\<rparr>))"
      using arr facing_Cons(3) [OF read_to_facing [OF r2], of RBRACKET] True by simp
    moreover have "read_to b (c # x) 0 (b2\<lparr>pb_depth := pb_depth b2 - 1, pb_offset := pb_offset b2 + 1\<rparr>)"
      by (rule close_bracket [OF r2]) (simp_all add: b1_def)
    ultimately show ?thesis using read_to_mono [of b "c # x" 0] by blast
  next
    case False
    then obtain t v es' where es: "es = (t, v) # es'" by (cases es) auto
    then have vis: "visible t" using assms(1) by simp
    obtain tx2 where tx2: "tx = t @ tx2" using assms(2) es by (cases es') (auto simp: opt_app_def split: option.splits)
    obtain a t' where a: "t = a # t'" "32 < a" "a \<noteq> RBRACKET" using vis by (cases t) (auto simp: visible_def)
    have r2: "read_to (b1\<lparr>pb_offset := pb_offset b1 + 1\<rparr>) (tx @ RBRACKET # c # x) 0 b2"
      unfolding b2_def using skip_to_visible [of _ "[]" t "tx2 @ RBRACKET # c # x"] f1 tx2 vis by simp
    have f2: "facing b2 (a # t' @ tx2 @ RBRACKET # c # x)" using read_to_facing [OF r2] tx2 a by simp
    have off: "pb_offset b < pb_offset b2"
      using skip_offset [of "b1\<lparr>pb_offset := pb_offset b1 + 1\<rparr>"] facing_Cons(1) [of "b1\<lparr>pb_offset := pb_offset b1 + 1\<rparr>"] f1 tx2 a
      by (simp add: b2_def b1_def)
    note sb = step_back [OF fb b1_def b2_def r2 b3_def off]
    have "length tx \<le> pb_mem b3" "pb_depth b3 + lv \<le> CJSON_NESTING_LIMIT" using mem depth sb(2,3) by simp_all
    then obtain b' where b': "array_loop f (parse_value f fl) fl [] b3 = Some (Inr (True, map snd es, b'))"
      "read_to b3 (RBRACKET # c # x) (length tx) b'"
      using array_loop_reads [OF False assms(1,2), of b3 "[]" "c # x" f "[]"] sb(1) assms(3) by auto
    have "parse_value (Suc f) fl base b = Some (Inr (True, CJSON (base\<lparr>c_type := cJSON_Array\<rparr>) (map snd es),
        b'\<lparr>pb_depth := pb_depth b' - 1, pb_offset := pb_offset b' + 1\<rparr>))"
      using arr facing_Cons(3,4) [OF f2] a(3) b'(1) facing_Cons(3) [OF read_to_facing [OF b'(2)], of RBRACKET] by simp
    moreover have "read_to b (c # x) (length tx) (b'\<lparr>pb_depth := pb_depth b' - 1, pb_offset := pb_offset b' + 1\<rparr>)"
      by (rule close_bracket [OF b'(2) sb(3,2,4)])
    ultimately show ?thesis using read_to_mono [of b "c # x" "length tx"] by force
  qed
qed

lemma object_reads:
  assumes "\<forall>(k, t, v)\<in>set ms. reads (parse_value f fl) lv (member_node fl k) t v \<and> visible t"
    "members_text fmt (d + 1) (map (\<lambda>(k, t, v). (k, Some t)) ms) = Some tx" "length ms \<le> f"
  shows "reads (parse_value (Suc f) fl) (Suc lv) base
    ((if fmt then [LBRACE, 10] else [LBRACE]) @ tx @ (if fmt then replicate d 9 else []) @ [RBRACE])
    (CJSON (base\<lparr>c_type := cJSON_Object\<rparr>) (map (\<lambda>(k, t, v). v) ms))"
proof -
  define nl tabs where "nl = (if fmt then [10] else [] :: bytes)" and "tabs = (if fmt then replicate d 9 else [] :: bytes)"
  have sp: "spaces nl" "spaces tabs" by (simp_all add: nl_def tabs_def)
  let ?t = "LBRACE # nl @ tx @ tabs @ [RBRACE]"
  have "reads (parse_value (Suc f) fl) (Suc lv) base ?t (CJSON (base\<lparr>c_type := cJSON_Object\<rparr>) (map (\<lambda>(k, t, v). v) ms))"
    unfolding reads_def
  proof (intro allI impI)
    fix b c x assume fc: "facing b (?t @ c # x)" and mem: "length ?t \<le> pb_mem b + 1"
      and depth: "pb_depth b + Suc lv \<le> CJSON_NESTING_LIMIT"
    have fb: "facing b (LBRACE # nl @ tx @ tabs @ RBRACE # c # x)" using fc by simp
    define b1 where "b1 = b\<lparr>pb_depth := pb_depth b + 1\<rparr>"
    define b2 where "b2 = buffer_skip_whitespace (b1\<lparr>pb_offset := pb_offset b1 + 1\<rparr>)"
    define b3 where "b3 = b2\<lparr>pb_offset := pb_offset b2 - 1\<rparr>"
    have f1: "facing (b1\<lparr>pb_offset := pb_offset b1 + 1\<rparr>) (nl @ tx @ tabs @ RBRACE # c # x)"
      using facing_Suc [OF fb] by (simp add: b1_def facing_def buffer_at_offset_def)
    have dep: "\<not> CJSON_NESTING_LIMIT \<le> pb_depth b" using depth by simp
    have lk: "looking_at (b\<lparr>pb_depth := n\<rparr>) LBRACE" for n
      using facing_Cons(3) [OF fb, of LBRACE] by (simp add: looking_at_def can_access_at_index_def)
    have eq: "parse_value (Suc f) fl base b = parse_object f (parse_value f fl) fl base b"
      using parse_value_branch [OF fb, of f fl base] by simp
    have obj: "parse_value (Suc f) fl base b =
        (if looking_at b2 RBRACE then
           Some (Inr (True, CJSON (base\<lparr>c_type := cJSON_Object\<rparr>) [], b2\<lparr>pb_depth := pb_depth b2 - 1, pb_offset := pb_offset b2 + 1\<rparr>))
         else if \<not> can_access_at_index b2 0 then Some (Inr (False, CJSON base [], b3))
         else bind_run (object_loop f (parse_value f fl) fl [] b3) (\<lambda>(ok, head, b).
           if ok \<and> looking_at b RBRACE
           then Some (Inr (True, CJSON (base\<lparr>c_type := cJSON_Object\<rparr>) head, b\<lparr>pb_depth := pb_depth b - 1, pb_offset := pb_offset b + 1\<rparr>))
           else Some (Inr (False, CJSON base [], b))))"
      unfolding eq using dep lk by (simp add: parse_object_def b1_def b2_def b3_def Let_def)
    show "\<exists>b'. parse_value (Suc f) fl base b = Some (Inr (True, CJSON (base\<lparr>c_type := cJSON_Object\<rparr>) (map (\<lambda>(k, t, v). v) ms), b')) \<and>
        read_to b (c # x) (length ?t - 1) b'"
    proof (cases "ms = []")
      case True
      then have tx: "tx = []" using assms(2) by simp
      have r2: "read_to (b1\<lparr>pb_offset := pb_offset b1 + 1\<rparr>) (RBRACE # c # x) 0 b2"
        unfolding b2_def using skip_to [of _ "nl @ tabs" RBRACE] f1 tx sp by simp
      then have "parse_value (Suc f) fl base b = Some (Inr (True, CJSON (base\<lparr>c_type := cJSON_Object\<rparr>) (map (\<lambda>(k, t, v). v) ms),
          b2\<lparr>pb_depth := pb_depth b2 - 1, pb_offset := pb_offset b2 + 1\<rparr>))"
        using obj facing_Cons(3) [OF read_to_facing [OF r2], of RBRACE] True by simp
      moreover have "read_to b (c # x) 0 (b2\<lparr>pb_depth := pb_depth b2 - 1, pb_offset := pb_offset b2 + 1\<rparr>)"
        by (rule close_bracket [OF r2]) (simp_all add: b1_def)
      ultimately show ?thesis using read_to_mono [of b "c # x" 0] by blast
    next
      case False
      then obtain k t v ms' where ms: "ms = (k, t, v) # ms'" by (cases ms) auto
      obtain tx1 where tx1: "tx = indent fmt (d + 1) @ tx1" "tx1 \<noteq> []" "hd tx1 = QUOTE"
        using assms(2) ms by (auto simp: members_text_Cons member_text_def string_text_def simp del: members_text.simps)
      obtain q where q: "tx1 = QUOTE # q" using tx1(2,3) by (cases tx1) auto
      have sp1: "spaces (nl @ indent fmt (d + 1))" using sp by simp
      let ?y = "tx1 @ tabs @ RBRACE # c # x"
      have r2: "read_to (b1\<lparr>pb_offset := pb_offset b1 + 1\<rparr>) ?y 0 b2"
        unfolding b2_def using skip_to [OF _ sp1, of _ QUOTE "q @ tabs @ RBRACE # c # x"] f1 q tx1(1) by simp
      have f2: "facing b2 (QUOTE # q @ tabs @ RBRACE # c # x)" using read_to_facing [OF r2] q by simp
      have off: "pb_offset b < pb_offset b2"
        using skip_offset [of "b1\<lparr>pb_offset := pb_offset b1 + 1\<rparr>"] facing_Cons(1) [of "b1\<lparr>pb_offset := pb_offset b1 + 1\<rparr>"] f1
        by (cases "nl @ tx @ tabs @ RBRACE # c # x") (auto simp: b2_def b1_def)
      note sb = step_back [OF fb b1_def b2_def r2 b3_def off]
      have m: "length tx1 \<le> pb_mem b3" "pb_depth b3 + lv \<le> CJSON_NESTING_LIMIT" using mem depth sb(2,3) tx1(1) by simp_all
      obtain b' where b': "object_loop f (parse_value f fl) fl [] b3 = Some (Inr (True, map (\<lambda>(k, t, v). v) ms, b'))"
        "read_to b3 (RBRACE # c # x) (length tx1) b'"
        using object_loop_reads [OF False assms(1) assms(2) [unfolded tx1(1)], of b3 "[]" tabs "c # x" f "[]"] sb(1) sp m assms(3)
        by auto
      have "parse_value (Suc f) fl base b = Some (Inr (True, CJSON (base\<lparr>c_type := cJSON_Object\<rparr>) (map (\<lambda>(k, t, v). v) ms),
          b'\<lparr>pb_depth := pb_depth b' - 1, pb_offset := pb_offset b' + 1\<rparr>))"
        using obj facing_Cons(3,4) [OF f2] b'(1) facing_Cons(3) [OF read_to_facing [OF b'(2)], of RBRACE] by simp
      moreover have "read_to b (c # x) (length tx1) (b'\<lparr>pb_depth := pb_depth b' - 1, pb_offset := pb_offset b' + 1\<rparr>)"
        by (rule close_bracket [OF b'(2) sb(3,2,4)])
      then have "read_to b (c # x) (length ?t - 1) (b'\<lparr>pb_depth := pb_depth b' - 1, pb_offset := pb_offset b' + 1\<rparr>)"
        by (rule read_to_mono) (simp add: tx1(1))
      ultimately show ?thesis by blast
    qed
  qed
  then show ?thesis by (cases fmt) (simp_all add: nl_def tabs_def)
qed

lemma levels_children:
  assumes "container item" "c \<in> set children"
  shows "levels c \<le> levels (CJSON item children) - 1"
  using assms by (induction children) (auto simp: le_max_iff_disj)

lemma visible_texts:
  "visible NULL_text" "visible FALSE_text" "visible TRUE_text" "visible (string_text s)"
  "visible (LBRACKET # tx)" "visible (LBRACE # tx)"
  by (simp_all add: visible_def NULL_text_def FALSE_text_def TRUE_text_def string_text_def)

lemma visible_number:
  assumes "numbers_read fl"
  shows "visible (number_text fl d)"
proof (cases "f_finite fl d")
  case True
  then have h: "number_text fl d \<noteq> []" "hd (number_text fl d) = MINUS \<or> 48 \<le> hd (number_text fl d) \<and> hd (number_text fl d) \<le> 57"
    using assms by (auto simp: numbers_read_def Let_def)
  then have "32 < hd (number_text fl d)" by (auto intro: less_le_trans [of _ 48])
  with h show ?thesis by (auto simp: visible_def)
next
  case False
  then show ?thesis using visible_texts(1) by (simp add: number_text_def)
qed

text \<open>The parser reads the text of an item, in either format and at any depth, as \<open>reread\<close>.\<close>

definition rereads :: "'d flt \<Rightarrow> bool \<Rightarrow> 'd cJSON \<Rightarrow> bool" where
  "rereads fl fmt it \<longleftrightarrow> (\<forall>d t fuel base. render fl fmt it d = Some t \<longrightarrow> length t \<le> fuel \<longrightarrow>
     visible t \<and> reads (parse_value fuel fl) (levels it) base t (reread fl it base))"

lemma rereads_scalar:
  assumes "numbers_fit fl" "numbers_read fl" "\<not> container item" "c_type item AND 0xFF \<noteq> cJSON_Raw"
  shows "rereads fl fmt (CJSON item children)"
  unfolding rereads_def
proof (intro allI impI conjI)
  fix d t fuel base assume r: "render fl fmt (CJSON item children) d = Some t" and l: "length t \<le> fuel"
  let ?ty = "c_type item AND 0xFF" and ?lv = "levels (CJSON item children)"
  have ty: "?ty \<noteq> cJSON_Array" "?ty \<noteq> cJSON_Object" using assms(3) by (auto simp: container_def)
  show vt: "visible t"
    using r assms(4) ty visible_texts visible_number [OF assms(2)] by (auto simp: Let_def split: if_splits)
  then have f: "0 < fuel" using l by (cases t) (auto simp: visible_def)
  show "reads (parse_value fuel fl) ?lv base t (reread fl (CJSON item children) base)"
  proof (cases "?ty = cJSON_Number")
    case True
    then have t: "t = number_text fl (c_valuedouble item)" using r by simp
    show ?thesis
    proof (cases "f_finite fl (c_valuedouble item)")
      case fin: True
      show ?thesis using number_reads [OF assms(1,2) fin f, of ?lv base] True t by (simp del: levels.simps)
    next
      case False
      then have "t = NULL_text" using t by (simp add: number_text_def)
      then show ?thesis
        using literal_reads(1) [OF f, of fl ?lv base] True False by (simp add: reread_number_def del: levels.simps)
    qed
  next
    case False
    then show ?thesis
      using r assms(4) ty literal_reads [OF f, of fl ?lv base] string_reads [OF f, of fl ?lv base]
      by (auto simp: Let_def simp del: levels.simps split: if_splits)
  qed
qed

text \<open>A child, as the loops need it.\<close>

lemma rereads_child:
  assumes "\<forall>c\<in>set children. rereads fl fmt c" "map (\<lambda>c. render fl fmt c d) children = map Some ts"
    "\<forall>t\<in>set ts. length t \<le> f" "container item" "i < length children"
  shows "visible (ts ! i) \<and> reads (parse_value f fl) (levels (CJSON item children) - 1) base (ts ! i) (reread fl (children ! i) base)"
proof -
  have len: "length ts = length children" using arg_cong [OF assms(2), of length] by simp
  have c: "children ! i \<in> set children" using assms(5) by simp
  have "render fl fmt (children ! i) d = Some (ts ! i)" using arg_cong [OF assms(2), of "\<lambda>l. l ! i"] assms(5) len by simp
  moreover have "length (ts ! i) \<le> f" using assms(3,5) len by simp
  ultimately have "visible (ts ! i) \<and> reads (parse_value f fl) (levels (children ! i)) base (ts ! i) (reread fl (children ! i) base)"
    using assms(1) c by (simp add: rereads_def)
  then show ?thesis using reads_mono levels_children [OF assms(4) c] by blast
qed

lemma rereads_array:
  assumes "\<forall>c\<in>set children. rereads fl fmt c" "c_type item AND 0xFF = cJSON_Array"
  shows "rereads fl fmt (CJSON item children)"
  unfolding rereads_def
proof (intro allI impI)
  fix d t fuel base assume r: "render fl fmt (CJSON item children) d = Some t" and l: "length t \<le> fuel"
  obtain tx where tx: "elements_text fmt (map (\<lambda>c. render fl fmt c (d + 1)) children) = Some tx" "t = LBRACKET # tx @ [RBRACKET]"
    using r assms(2) by (auto simp: o_def opt_app_def split: option.splits)
  obtain ts where ts: "map (\<lambda>c. render fl fmt c (d + 1)) children = map Some ts" "\<forall>t\<in>set ts. length t \<le> length tx"
    "\<forall>t\<in>set ts. t \<noteq> [] \<Longrightarrow> length ts \<le> length tx"
    using elements_text_Some [OF tx(1)] by blast
  obtain f where f: "fuel = Suc f" "length tx \<le> f" using l tx(2) by (cases fuel) auto
  have len: "length ts = length children" using arg_cong [OF ts(1), of length] by simp
  have ci: "container item" using assms(2) by (simp add: container_def)
  have "\<forall>t\<in>set ts. length t \<le> f" using ts(2) f(2) by auto
  note child = rereads_child [OF assms(1) ts(1) this ci]
  let ?lv = "levels (CJSON item children) - 1"
  define es where "es = zip ts (map (\<lambda>c. reread fl c (new_node fl)) children)"
  have good: "\<forall>(t, v)\<in>set es. reads (parse_value f fl) ?lv (new_node fl) t v \<and> visible t"
    using child len by (auto simp: es_def in_set_zip)
  have vis: "\<forall>t\<in>set ts. t \<noteq> []" using child len by (auto simp: in_set_conv_nth visible_def)
  have "map (\<lambda>(t, v). Some t) es = map Some (map fst es)" by (simp add: case_prod_beta)
  then have et: "elements_text fmt (map (\<lambda>(t, v). Some t) es) = Some tx" using tx(1) ts(1) len by (simp add: es_def)
  have "length es \<le> f" using ts(3) [OF vis] f(2) by (simp add: es_def len)
  from array_reads [OF good et this, of base]
  have "reads (parse_value fuel fl) (levels (CJSON item children)) base t (CJSON (base\<lparr>c_type := cJSON_Array\<rparr>) (map snd es))"
    unfolding f(1) tx(2) using ci by simp
  moreover have "reread fl (CJSON item children) base = CJSON (base\<lparr>c_type := cJSON_Array\<rparr>) (map snd es)"
    using assms(2) len by (simp add: es_def o_def)
  ultimately show "visible t \<and> reads (parse_value fuel fl) (levels (CJSON item children)) base t (reread fl (CJSON item children) base)"
    using visible_texts(5) tx(2) by simp
qed

lemma rereads_object:
  assumes "\<forall>c\<in>set children. rereads fl fmt c" "c_type item AND 0xFF = cJSON_Object"
  shows "rereads fl fmt (CJSON item children)"
  unfolding rereads_def
proof (intro allI impI)
  fix d t fuel base assume r: "render fl fmt (CJSON item children) d = Some t" and l: "length t \<le> fuel"
  define ks where "ks = map (\<lambda>c. c_string (c_node c)) children"
  obtain tx where tx: "members_text fmt (d + 1) (zip ks (map (\<lambda>c. render fl fmt c (d + 1)) children)) = Some tx"
    "t = (if fmt then [LBRACE, 10] else [LBRACE]) @ tx @ (if fmt then replicate d 9 else []) @ [RBRACE]"
    using r assms(2) by (auto simp: ks_def o_def opt_app_def split: option.splits)
  have lk: "length ks = length children" by (simp add: ks_def)
  obtain ts where ts: "map (\<lambda>c. render fl fmt c (d + 1)) children = map Some ts" "\<forall>t\<in>set ts. length t \<le> length tx"
    "length ts \<le> length tx"
    using members_text_Some [OF tx(1)] lk by auto
  obtain f where f: "fuel = Suc f" "length tx \<le> f" using l tx(2) by (cases fuel) (auto split: if_splits)
  have len: "length ts = length children" using arg_cong [OF ts(1), of length] by simp
  have ci: "container item" using assms(2) by (simp add: container_def)
  have "\<forall>t\<in>set ts. length t \<le> f" using ts(2) f(2) by auto
  note child = rereads_child [OF assms(1) ts(1) this ci]
  let ?lv = "levels (CJSON item children) - 1"
  define ms where "ms = zip ks (zip ts (map2 (\<lambda>k c. reread fl c (member_node fl k)) ks children))"
  have good: "\<forall>(k, t, v)\<in>set ms. reads (parse_value f fl) ?lv (member_node fl k) t v \<and> visible t"
    using child len lk by (auto simp: ms_def in_set_zip)
  have "map (\<lambda>(k, t, v). (k, Some t)) ms = zip ks (map Some ts)"
    by (rule nth_equalityI) (simp_all add: ms_def len lk)
  then have mt: "members_text fmt (d + 1) (map (\<lambda>(k, t, v). (k, Some t)) ms) = Some tx" using tx(1) ts(1) by simp
  have "length ms \<le> f" using ts(3) f(2) by (simp add: ms_def len lk)
  from object_reads [OF good mt this, of base]
  have "reads (parse_value fuel fl) (levels (CJSON item children)) base t
      (CJSON (base\<lparr>c_type := cJSON_Object\<rparr>) (map (\<lambda>(k, t, v). v) ms))"
    unfolding f(1) tx(2) using ci by simp
  moreover have "map (\<lambda>(k, t, v). v) ms = map2 (\<lambda>k f. f (member_node fl k)) ks (map (reread fl) children)"
    by (rule nth_equalityI) (simp_all add: ms_def len lk)
  then have "reread fl (CJSON item children) base = CJSON (base\<lparr>c_type := cJSON_Object\<rparr>) (map (\<lambda>(k, t, v). v) ms)"
    using assms(2) by (simp add: ks_def)
  ultimately show "visible t \<and> reads (parse_value fuel fl) (levels (CJSON item children)) base t (reread fl (CJSON item children) base)"
    using visible_texts(6) tx(2) by simp
qed

lemma rereads_all:
  assumes "numbers_fit fl" "numbers_read fl"
  shows "no_raw it \<Longrightarrow> rereads fl fmt it"
proof (induction it)
  case (CJSON item children)
  then have "\<forall>c\<in>set children. rereads fl fmt c" "c_type item AND 0xFF \<noteq> cJSON_Raw" by (auto simp: list_all_iff)
  then show ?case
    using rereads_scalar [OF assms] rereads_array rereads_object by (cases "container item") (auto simp: container_def)
qed

text \<open>From the first byte to the end of the text.\<close>

lemma parse_rendered:
  assumes "numbers_fit fl" "numbers_read fl" "no_raw it" "levels it \<le> CJSON_NESTING_LIMIT"
    "render fl fmt it 0 = Some t" "0 \<notin> set t" "length t < mem" "length t \<le> fuel"
  shows "cJSON_ParseWithOpts fuel fl mem (Some (t @ [0])) require_null_terminated =
    Some (Inr \<lparr>p_item = Some (reread fl it (new_node fl)), p_end = length t, p_error = None\<rparr>)"
proof -
  have v: "visible t" and rd: "reads (parse_value fuel fl) (levels it) (new_node fl) t (reread fl it (new_node fl))"
    using rereads_all [OF assms(1-3), of fmt] assms(5,8) by (simp_all add: rereads_def)
  have cs: "cstr (t @ [0]) = t" using assms(6) by (simp add: cstr_def takeWhile_append)
  define b where "b = \<lparr>pb_content = t @ [0], pb_offset = 0, pb_depth = 0, pb_mem = mem - Suc 0\<rparr>"
  have fb: "facing b ([] @ t @ [0])" by (simp add: b_def facing_def buffer_at_offset_def)
  have bom: "skip_utf8_bom b = b"
    using fb v by (cases t) (auto simp: skip_utf8_bom_def facing_def visible_def)
  have r1: "read_to b (t @ [0]) 0 (buffer_skip_whitespace b)" by (rule skip_to_visible [OF fb _ v]) simp
  then have "length t \<le> pb_mem (buffer_skip_whitespace b) + 1" "pb_depth (buffer_skip_whitespace b) + levels it \<le> CJSON_NESTING_LIMIT"
    using assms(4,7) by (auto simp: read_to_def b_def)
  then obtain b' where b': "parse_value fuel fl (new_node fl) (buffer_skip_whitespace b) = Some (Inr (True, reread fl it (new_node fl), b'))"
    "read_to (buffer_skip_whitespace b) [0] (length t - 1) b'"
    using readsD [OF rd read_to_facing [OF r1]] by auto
  have off: "pb_content b' = t @ [0]" "pb_offset b' = length t"
  proof -
    show "pb_content b' = t @ [0]" using b'(2) r1 by (simp add: read_to_def b_def)
    moreover have "drop (pb_offset b') (pb_content b') = [0]"
      using read_to_facing [OF b'(2)] by (simp add: facing_def buffer_at_offset_def)
    then have "length (pb_content b') - pb_offset b' = 1" by (metis length_drop length_Cons list.size(3) One_nat_def)
    ultimately show "pb_offset b' = length t" by simp
  qed
  have sk: "buffer_skip_whitespace b' = b'"
    using off by (simp add: buffer_skip_whitespace_def buffer_at_offset_def Let_def)
  have "looking_at b' 0" using facing_Cons(3) [OF read_to_facing [OF b'(2)], of 0] by simp
  then show ?thesis
    using b'(1) off(2) sk assms(7) bom
    by (simp add: cJSON_ParseWithOpts_def cs b_def [symmetric] Let_def)
qed

lemma render_nonzero: "numbers_fit fl \<Longrightarrow> strings_fit it \<Longrightarrow> render fl fmt it d = Some t \<Longrightarrow> 0 \<notin> set t"
  using print_value_prints [of fl it fmt d] by (simp add: prints_text_def)

section \<open>Properties\<close>

text \<open>C3. What the printer writes, the parser reads. For every document without raw text and at most 1000
  levels deep: when \<open>cJSON_Print\<close> or \<open>cJSON_PrintUnformatted\<close> has returned a text, \<open>cJSON_ParseWithOpts\<close> on this
  text succeeds, with or without the demand for a terminated text, consumes all of it and returns the document \<open>reread\<close>,
  which has the types, strings, names and children of the printed one in the same order. Numbers are what
  \<open>strtod\<close> reads from their digits, and a number that is not finite comes back as null. As many
  allocations and as much recursion as the text has bytes are enough. The hypotheses say that \<open>sprintf\<close>
  writes a number with at most 25 characters that \<open>strtod\<close> reads completely, and that the printed form of each
  single string or name has fewer than \<open>2 ^ 32\<close> bytes, as many as \<open>size_t\<close> counts.\<close>

theorem print_parse_roundtrip:
  assumes "numbers_fit fl" "numbers_read fl" "no_raw it" "levels it \<le> 1000" "strings_fit it"
    "cJSON_Print fl (Some it) reallocate mem contents = Inr (Some out) \<or>
     cJSON_PrintUnformatted fl (Some it) reallocate mem contents = Inr (Some out)"
    "length out \<le> parse_mem" "length out \<le> fuel"
  shows "cJSON_ParseWithOpts fuel fl parse_mem (Some out) require_null_terminated =
    Some (Inr \<lparr>p_item = Some (reread fl it (new_node fl)), p_end = length out - 1, p_error = None\<rparr>)"
proof -
  obtain format where "print fl (Some it) format reallocate mem contents = Inr (Some out)"
    using assms(6) by (auto simp: cJSON_Print_def cJSON_PrintUnformatted_def)
  then obtain t where t: "out = t @ [0]" "render fl format it 0 = Some t"
    by (cases rule: print_result [OF assms(1,5), of format reallocate mem contents]) auto
  have "levels it \<le> CJSON_NESTING_LIMIT" using assms(4) by (simp add: CJSON_NESTING_LIMIT_def)
  then show ?thesis
    using parse_rendered [OF assms(1-3) _ t(2) render_nonzero [OF assms(1,5) t(2)]] assms(7,8) t(1) by simp
qed

text \<open>The digits again, now with a \<open>strtod\<close> that reads one of them.\<close>

definition one_digit_flt :: "nat flt" where
  "one_digit_flt = digit_flt\<lparr>f_strtod := (\<lambda>s. (unat (hd s) - 48, 1))\<rparr>"

lemma one_digit_fits: "numbers_fit one_digit_flt"
  using numbers_fit_digit by (simp add: numbers_fit_def one_digit_flt_def)

lemma digit_range: "48 \<le> [48, 49, 50, 51, 52, 53, 54, 55, 56, 57 :: u8] ! (x mod 10) \<and> [48, 49, 50, 51, 52, 53, 54, 55, 56, 57 :: u8] ! (x mod 10) \<le> 57"
proof -
  let ?ds = "[48, 49, 50, 51, 52, 53, 54, 55, 56, 57 :: u8]"
  have "?ds ! (x mod 10) \<in> set ?ds" by (rule nth_mem) simp
  moreover have "\<forall>d\<in>set ?ds. 48 \<le> d \<and> d \<le> 57" by simp
  ultimately show ?thesis by metis
qed

lemma one_digit_text:
  "number_text one_digit_flt d \<in> {[[48, 49, 50, 51, 52, 53, 54, 55, 56, 57] ! (d mod 10)], [49]}"
  by (auto simp: number_text_def one_digit_flt_def digit_flt_def Let_def)

lemma one_digit_read: "numbers_read one_digit_flt"
proof -
  have "t \<noteq> [] \<and> (hd t = MINUS \<or> 48 \<le> hd t \<and> hd t \<le> 57) \<and> list_all is_number_char t \<and> snd (f_strtod one_digit_flt t) = length t"
    if "t = number_text one_digit_flt d" for t d
    using one_digit_text [of d] digit_range [of d] that by (auto simp: one_digit_flt_def is_number_char_def)
  then show ?thesis by (simp add: numbers_read_def Let_def)
qed

theorem print_parse_roundtrip_witness:
  "\<exists>out. cJSON_PrintUnformatted one_digit_flt (Some demo_doc) True 30 (\<lambda>i. 0) = Inr (Some out) \<and>
     cJSON_ParseWithOpts 20 one_digit_flt 20 (Some out) True =
       Some (Inr \<lparr>p_item = Some (reread one_digit_flt demo_doc (new_node one_digit_flt)), p_end = 8, p_error = None\<rparr>)"
proof -
  have r: "render one_digit_flt False demo_doc 0 = Some [91, 116, 114, 117, 101, 44, 51, 93]"
    using render_demo by (simp add: demo_doc_def one_digit_flt_def digit_flt_def opt_app_def number_text_def
        compare_double_def TRUE_text_def Let_def)
  obtain out where out: "cJSON_PrintUnformatted one_digit_flt (Some demo_doc) True 30 (\<lambda>i. 0) = Inr (Some out)"
    "out = [91, 116, 114, 117, 101, 44, 51, 93, 0]"
    by (cases rule: print_result [OF one_digit_fits demo_strings_fit, of False True 30 "\<lambda>i. 0"])
       (auto simp: r cJSON_PrintUnformatted_def max_int_def)
  have d: "no_raw demo_doc" "levels demo_doc \<le> 1000" by (simp_all add: demo_doc_def container_def Let_def)
  show ?thesis
    using print_parse_roundtrip [OF one_digit_fits one_digit_read d demo_strings_fit disjI2 [OF out(1)], of 20 20 True] out by simp
qed

end
