(* ===== verification/Json_Types.thy ===== *)
theory Json_Types
  imports Json_Roundtrip
begin

text \<open>
  The documents the parser returns are well typed: every item has exactly one of the JSON types, strings have a value,
  members have names, and only arrays and objects have children. Such documents can always be printed.
\<close>

unbundle bit_operations_syntax

section \<open>Well-typed documents\<close>

definition node_ok :: "'d cnode \<Rightarrow> bool" where
  "node_ok n \<longleftrightarrow> c_type n \<in> {cJSON_False, cJSON_True, cJSON_NULL, cJSON_Number, cJSON_String, cJSON_Array, cJSON_Object} \<and>
     (c_type n = cJSON_String \<longrightarrow> c_valuestring n \<noteq> None)"

primrec well_typed :: "'d cJSON \<Rightarrow> bool" where
  "well_typed (CJSON n cs) \<longleftrightarrow> node_ok n \<and>
     (cs \<noteq> [] \<longrightarrow> c_type n = cJSON_Array \<or> c_type n = cJSON_Object) \<and>
     (c_type n = cJSON_Object \<longrightarrow> list_all (\<lambda>c. c_string (c_node c) \<noteq> None) cs) \<and>
     list_all (\<lambda>x. x) (map well_typed cs)"

lemma well_typed_scalar:
  assumes "c_type n \<in> {cJSON_False, cJSON_True, cJSON_NULL, cJSON_Number} \<or> c_type n = cJSON_String \<and> c_valuestring n \<noteq> None"
  shows "well_typed (CJSON n [])" "levels (CJSON n []) = 0"
  using assms by (auto simp: node_ok_def container_def)

section \<open>The parser\<close>

text \<open>What a successful call of a parser promises; the depth is back where it was.\<close>

definition typed :: "'d parser \<Rightarrow> bool" where
  "typed pv \<longleftrightarrow> (\<forall>item b v b'. pv item b = Some (Inr (True, v, b')) \<longrightarrow> pb_depth b \<le> CJSON_NESTING_LIMIT \<longrightarrow>
     well_typed v \<and> c_string (c_node v) = c_string item \<and> pb_depth b' = pb_depth b \<and>
     levels v + pb_depth b \<le> CJSON_NESTING_LIMIT)"

lemma typedD:
  assumes "typed pv" "pv item b = Some (Inr (True, v, b'))" "pb_depth b \<le> CJSON_NESTING_LIMIT"
  shows "well_typed v" "c_string (c_node v) = c_string item" "pb_depth b' = pb_depth b"
    "levels v + pb_depth b \<le> CJSON_NESTING_LIMIT"
  using assms by (auto simp: typed_def)

lemma bind_run_Some:
  "bind_run r f = Some (Inr y) \<longleftrightarrow> (\<exists>x. r = Some (Inr x) \<and> f x = Some (Inr y))"
  by (auto simp: bind_run_def split: option.splits sum.splits)

lemma parse_string_typed:
  assumes "parse_string item b = Inr (True, item', b')"
  shows "\<exists>s. item' = item\<lparr>c_type := cJSON_String, c_valuestring := Some s\<rparr>" "pb_depth b' = pb_depth b"
  using assms by (auto simp: parse_string_def Let_def split: option.splits if_splits)

lemma parse_number_typed:
  assumes "parse_number fl item b = (True, item', b')"
  shows "c_type item' = cJSON_Number" "c_string item' = c_string item" "pb_depth b' = pb_depth b"
  using assms by (auto simp: parse_number_def case_prod_beta Let_def split: if_splits)

definition elements_ok :: "nat \<Rightarrow> 'd cJSON list \<Rightarrow> bool" where
  "elements_ok d cs \<longleftrightarrow> (\<forall>c\<in>set cs. well_typed c \<and> levels c + d \<le> CJSON_NESTING_LIMIT)"

lemma elements_ok_simps [simp]:
  "elements_ok d []" "elements_ok d (cs @ [c]) \<longleftrightarrow> elements_ok d cs \<and> well_typed c \<and> levels c + d \<le> CJSON_NESTING_LIMIT"
  by (auto simp: elements_ok_def)

lemma array_loop_typed:
  assumes "typed pv" "array_loop fuel pv fl head b = Some (Inr (True, cs, b'))" "elements_ok (pb_depth b) head"
    "pb_depth b \<le> CJSON_NESTING_LIMIT"
  shows "elements_ok (pb_depth b) cs \<and> pb_depth b' = pb_depth b"
  using assms(2-4)
proof (induction fuel arbitrary: head b)
  case (Suc fuel)
  define b1 where "b1 = buffer_skip_whitespace (b\<lparr>pb_mem := pb_mem b - 1, pb_offset := pb_offset b + 1\<rparr>)"
  have d1: "pb_depth b1 = pb_depth b" by (simp add: b1_def)
  obtain v b2 where v: "pv (new_node fl) b1 = Some (Inr (True, v, b2))"
    and cont: "(if looking_at (buffer_skip_whitespace b2) COMMA then array_loop fuel pv fl (head @ [v]) (buffer_skip_whitespace b2)
      else Some (Inr (True, head @ [v], buffer_skip_whitespace b2))) = Some (Inr (True, cs, b'))"
    using Suc.prems(1) by (auto simp: b1_def bind_run_Some Let_def split: if_splits)
  note t = typedD [OF assms(1) v, unfolded d1, OF Suc.prems(3)]
  have d2: "pb_depth (buffer_skip_whitespace b2) = pb_depth b" using t(3) by simp
  show ?case
    using Suc.IH [of "head @ [v]" "buffer_skip_whitespace b2"] cont t Suc.prems(2,3) d2 by (auto split: if_splits)
qed simp

lemma object_loop_typed:
  assumes "typed pv" "object_loop fuel pv fl head b = Some (Inr (True, cs, b'))" "elements_ok (pb_depth b) head"
    "list_all (\<lambda>c. c_string (c_node c) \<noteq> None) head" "pb_depth b \<le> CJSON_NESTING_LIMIT"
  shows "elements_ok (pb_depth b) cs \<and> list_all (\<lambda>c. c_string (c_node c) \<noteq> None) cs \<and> pb_depth b' = pb_depth b"
  using assms(2-5)
proof (induction fuel arbitrary: head b)
  case (Suc fuel)
  define b1 where "b1 = buffer_skip_whitespace (b\<lparr>pb_mem := pb_mem b - 1, pb_offset := pb_offset b + 1\<rparr>)"
  obtain item b2 where k: "parse_string (new_node fl) b1 = Inr (True, item, b2)"
    and body: "(let b = buffer_skip_whitespace b2; item = item\<lparr>c_string := c_valuestring item, c_valuestring := None\<rparr> in
      if \<not> looking_at b COLON then Some (Inr (False, head, b))
      else let b = buffer_skip_whitespace (b\<lparr>pb_offset := pb_offset b + 1\<rparr>) in
      bind_run (pv item b) (\<lambda>(ok, current_item, b).
      if \<not> ok then Some (Inr (False, head, b))
      else let b = buffer_skip_whitespace b; head = head @ [current_item] in
      if looking_at b COMMA then object_loop fuel pv fl head b
      else Some (Inr (True, head, b)))) = Some (Inr (True, cs, b'))"
    using Suc.prems(1) by (auto simp: b1_def bind_run_Some Let_def split: if_splits)
  obtain s where s: "item = (new_node fl)\<lparr>c_type := cJSON_String, c_valuestring := Some s\<rparr>" and d2: "pb_depth b2 = pb_depth b"
    using parse_string_typed [OF k] by (auto simp: b1_def)
  define b3 where "b3 = buffer_skip_whitespace ((buffer_skip_whitespace b2)\<lparr>pb_offset := pb_offset (buffer_skip_whitespace b2) + 1\<rparr>)"
  define item' where "item' = item\<lparr>c_string := c_valuestring item, c_valuestring := None\<rparr>"
  have d3: "pb_depth b3 = pb_depth b" using d2 by (simp add: b3_def)
  obtain v b4 where v: "pv item' b3 = Some (Inr (True, v, b4))"
    and cont: "(if looking_at (buffer_skip_whitespace b4) COMMA then object_loop fuel pv fl (head @ [v]) (buffer_skip_whitespace b4)
      else Some (Inr (True, head @ [v], buffer_skip_whitespace b4))) = Some (Inr (True, cs, b'))"
    using body by (auto simp: b3_def item'_def bind_run_Some Let_def split: if_splits)
  note t = typedD [OF assms(1) v, unfolded d3, OF Suc.prems(4)]
  have n: "c_string (c_node v) \<noteq> None" using t(2) s by (simp add: item'_def)
  have d4: "pb_depth (buffer_skip_whitespace b4) = pb_depth b" using t(3) by simp
  show ?case
    using Suc.IH [of "head @ [v]" "buffer_skip_whitespace b4"] cont t n Suc.prems(2-4) d4 by (auto split: if_splits)
qed simp

lemma levels_bound:
  assumes "elements_ok (Suc d) cs" "Suc d \<le> CJSON_NESTING_LIMIT"
  shows "levels (CJSON n cs) + d \<le> CJSON_NESTING_LIMIT"
proof -
  have "foldr max (map levels cs) 0 \<le> CJSON_NESTING_LIMIT - Suc d"
    using assms(1) unfolding foldr_max_le by (auto simp: elements_ok_def)
  then have "Suc (foldr max (map levels cs) 0 + d) \<le> CJSON_NESTING_LIMIT" using assms(2) by linarith
  moreover have "levels (CJSON n cs) \<le> Suc (foldr max (map levels cs) 0)" by (simp del: foldr_map)
  ultimately show ?thesis by linarith
qed

lemma well_typed_container:
  assumes "elements_ok d cs" "c_type n = cJSON_Array \<or> c_type n = cJSON_Object \<and> list_all (\<lambda>c. c_string (c_node c) \<noteq> None) cs"
  shows "well_typed (CJSON n cs)"
  using assms by (auto simp: node_ok_def elements_ok_def list_all_iff)

lemma parse_array_typed:
  assumes "typed pv"
  shows "typed (parse_array fuel pv fl)"
  unfolding typed_def
proof (intro allI impI)
  fix item b v b' assume run: "parse_array fuel pv fl item b = Some (Inr (True, v, b'))" and d: "pb_depth b \<le> CJSON_NESTING_LIMIT"
  define b2 where "b2 = buffer_skip_whitespace (b\<lparr>pb_depth := pb_depth b + 1, pb_offset := pb_offset b + 1\<rparr>)"
  have lim: "Suc (pb_depth b) \<le> CJSON_NESTING_LIMIT" using run by (auto simp: parse_array_def split: if_splits)
  have d2: "pb_depth b2 = Suc (pb_depth b)" by (simp add: b2_def)
  consider (none) "v = CJSON (item\<lparr>c_type := cJSON_Array\<rparr>) []" "b' = b2\<lparr>pb_depth := pb_depth b2 - 1, pb_offset := pb_offset b2 + 1\<rparr>"
    | (some) cs b3 where "array_loop fuel pv fl [] (b2\<lparr>pb_offset := pb_offset b2 - 1\<rparr>) = Some (Inr (True, cs, b3))"
      "v = CJSON (item\<lparr>c_type := cJSON_Array\<rparr>) cs" "b' = b3\<lparr>pb_depth := pb_depth b3 - 1, pb_offset := pb_offset b3 + 1\<rparr>"
    using run by (auto simp: parse_array_def b2_def bind_run_Some Let_def split: if_splits)
  then show "well_typed v \<and> c_string (c_node v) = c_string item \<and> pb_depth b' = pb_depth b \<and> levels v + pb_depth b \<le> CJSON_NESTING_LIMIT"
  proof cases
    case none
    then show ?thesis using d2 lim levels_bound [of "pb_depth b" "[]"] by (auto simp: node_ok_def)
  next
    case some
    have e: "elements_ok (Suc (pb_depth b)) cs" "pb_depth b3 = Suc (pb_depth b)"
      using array_loop_typed [OF assms some(1)] d2 lim by auto
    have "well_typed v" unfolding some(2) by (rule well_typed_container [OF e(1)]) simp
    moreover have "levels v + pb_depth b \<le> CJSON_NESTING_LIMIT" unfolding some(2) by (rule levels_bound [OF e(1) lim])
    ultimately show ?thesis using some(2,3) e(2) by simp
  qed
qed

lemma parse_object_typed:
  assumes "typed pv"
  shows "typed (parse_object fuel pv fl)"
  unfolding typed_def
proof (intro allI impI)
  fix item b v b' assume run: "parse_object fuel pv fl item b = Some (Inr (True, v, b'))" and d: "pb_depth b \<le> CJSON_NESTING_LIMIT"
  define b2 where "b2 = buffer_skip_whitespace (b\<lparr>pb_depth := pb_depth b + 1, pb_offset := pb_offset b + 1\<rparr>)"
  have lim: "Suc (pb_depth b) \<le> CJSON_NESTING_LIMIT" using run by (auto simp: parse_object_def split: if_splits)
  have d2: "pb_depth b2 = Suc (pb_depth b)" by (simp add: b2_def)
  consider (none) "v = CJSON (item\<lparr>c_type := cJSON_Object\<rparr>) []" "b' = b2\<lparr>pb_depth := pb_depth b2 - 1, pb_offset := pb_offset b2 + 1\<rparr>"
    | (some) cs b3 where "object_loop fuel pv fl [] (b2\<lparr>pb_offset := pb_offset b2 - 1\<rparr>) = Some (Inr (True, cs, b3))"
      "v = CJSON (item\<lparr>c_type := cJSON_Object\<rparr>) cs" "b' = b3\<lparr>pb_depth := pb_depth b3 - 1, pb_offset := pb_offset b3 + 1\<rparr>"
    using run by (auto simp: parse_object_def b2_def bind_run_Some Let_def split: if_splits)
  then show "well_typed v \<and> c_string (c_node v) = c_string item \<and> pb_depth b' = pb_depth b \<and> levels v + pb_depth b \<le> CJSON_NESTING_LIMIT"
  proof cases
    case none
    then show ?thesis using d2 lim levels_bound [of "pb_depth b" "[]"] by (auto simp: node_ok_def)
  next
    case some
    have e: "elements_ok (Suc (pb_depth b)) cs" "list_all (\<lambda>c. c_string (c_node c) \<noteq> None) cs" "pb_depth b3 = Suc (pb_depth b)"
      using object_loop_typed [OF assms some(1)] d2 lim by auto
    have "well_typed v" unfolding some(2) by (rule well_typed_container [OF e(1)]) (use e(2) in simp)
    moreover have "levels v + pb_depth b \<le> CJSON_NESTING_LIMIT" unfolding some(2) by (rule levels_bound [OF e(1) lim])
    ultimately show ?thesis using some(2,3) e(3) by simp
  qed
qed

lemma typed_if:
  assumes "typed f" "typed g"
  shows "typed (\<lambda>item b. if P b then f item b else g item b)"
  unfolding typed_def
proof (intro allI impI)
  fix item b v b' assume run: "(if P b then f item b else g item b) = Some (Inr (True, v, b'))"
    and d: "pb_depth b \<le> CJSON_NESTING_LIMIT"
  show "well_typed v \<and> c_string (c_node v) = c_string item \<and> pb_depth b' = pb_depth b \<and> levels v + pb_depth b \<le> CJSON_NESTING_LIMIT"
    using typedD [OF assms(1) _ d, of item v b'] typedD [OF assms(2) _ d, of item v b'] run by (cases "P b") simp_all
qed

lemma typed_fails: "typed (\<lambda>item b. Some (Inr (False, CJSON item [], b)))"
  by (simp add: typed_def)

lemma typed_literal:
  assumes "\<And>item. c_type (f item) \<in> {cJSON_False, cJSON_True, cJSON_NULL}" "\<And>item. c_string (f item) = c_string item"
  shows "typed (\<lambda>item b. Some (Inr (True, CJSON (f item) [], b\<lparr>pb_offset := pb_offset b + n\<rparr>)))"
  unfolding typed_def
proof (intro allI impI)
  fix item b v b' assume "Some (Inr (True, CJSON (f item) [], b\<lparr>pb_offset := pb_offset b + n\<rparr>)) = Some (Inr (True, v, b'))"
    and d: "pb_depth b \<le> CJSON_NESTING_LIMIT"
  then have v: "v = CJSON (f item) []" "b' = b\<lparr>pb_offset := pb_offset b + n\<rparr>" by simp_all
  have t: "c_type (f item) \<in> {cJSON_False, cJSON_True, cJSON_NULL, cJSON_Number} \<or>
      c_type (f item) = cJSON_String \<and> c_valuestring (f item) \<noteq> None" using assms(1) [of item] by blast
  show "well_typed v \<and> c_string (c_node v) = c_string item \<and> pb_depth b' = pb_depth b \<and> levels v + pb_depth b \<le> CJSON_NESTING_LIMIT"
    unfolding v using well_typed_scalar [OF t] assms(2) d by simp
qed

lemma typed_string: "typed (\<lambda>item b. Some (bind_result (parse_string item b) (\<lambda>(ok, item, b). Inr (ok, CJSON item [], b))))"
  unfolding typed_def
proof (intro allI impI)
  fix item b v b' assume run: "Some (bind_result (parse_string item b) (\<lambda>(ok, item, b). Inr (ok, CJSON item [], b))) = Some (Inr (True, v, b'))"
    and d: "pb_depth b \<le> CJSON_NESTING_LIMIT"
  obtain item' where p: "parse_string item b = Inr (True, item', b')" "v = CJSON item' []"
    using run by (cases "parse_string item b") (auto simp: bind_result_def)
  obtain s where s: "item' = item\<lparr>c_type := cJSON_String, c_valuestring := Some s\<rparr>" using parse_string_typed(1) [OF p(1)] by blast
  show "well_typed v \<and> c_string (c_node v) = c_string item \<and> pb_depth b' = pb_depth b \<and> levels v + pb_depth b \<le> CJSON_NESTING_LIMIT"
    using parse_string_typed(2) [OF p(1)] well_typed_scalar [of item'] d s p(2) by simp
qed

lemma typed_number: "typed (\<lambda>item b. let (ok, item, b) = parse_number fl item b in Some (Inr (ok, CJSON item [], b)))"
  unfolding typed_def
proof (intro allI impI)
  fix item b v b' assume run: "(let (ok, item, b) = parse_number fl item b in Some (Inr (ok, CJSON item [], b))) = Some (Inr (True, v, b'))"
    and d: "pb_depth b \<le> CJSON_NESTING_LIMIT"
  obtain item' where p: "parse_number fl item b = (True, item', b')" "v = CJSON item' []"
    using run by (cases "parse_number fl item b") auto
  show "well_typed v \<and> c_string (c_node v) = c_string item \<and> pb_depth b' = pb_depth b \<and> levels v + pb_depth b \<le> CJSON_NESTING_LIMIT"
    using parse_number_typed [OF p(1)] well_typed_scalar [of item'] d p(2) by simp
qed

lemma parse_value_typed: "typed (parse_value fuel fl)"
proof (induction fuel)
  case (Suc fuel)
  show ?case
    unfolding parse_value.simps
    by (intro typed_if typed_literal typed_string typed_number typed_fails parse_array_typed [OF Suc] parse_object_typed [OF Suc]) simp_all
qed (simp add: typed_def parse_value.simps)

section \<open>Printing what was parsed\<close>

lemma well_typed_no_raw: "well_typed it \<Longrightarrow> no_raw it"
  by (induction it) (auto simp: node_ok_def list_all_iff)

lemma opt_app_None: "opt_app a b = None \<longleftrightarrow> a = None \<or> b = None"
  by (auto simp: opt_app_def split: option.splits)

lemma elements_text_None: "elements_text format ts = None \<longleftrightarrow> None \<in> set ts"
  by (induction format ts rule: elements_text.induct) (auto simp: opt_app_None)

lemma members_text_None: "members_text format depth ts = None \<longleftrightarrow> None \<in> snd ` set ts"
  by (induction format depth ts rule: members_text.induct) (simp_all add: opt_app_None eq_commute [of None])

lemma well_typed_renders: "well_typed it \<Longrightarrow> render fl format it depth \<noteq> None"
proof (induction it arbitrary: depth)
  case (CJSON n cs)
  have c: "None \<notin> set (map (\<lambda>f. f (depth + 1)) (map (render fl format) cs))"
  proof -
    have "render fl format c (depth + 1) \<noteq> None" if "c \<in> set cs" for c
      using CJSON.IH [OF that] CJSON.prems that by (simp add: list_all_iff del: not_None_eq)
    then have "c \<in> set cs \<Longrightarrow> None \<noteq> render fl format c (depth + 1)" for c by metis
    then show ?thesis by auto
  qed
  then have "None \<notin> snd ` set (zip (map (\<lambda>c. c_string (c_node c)) cs) (map (\<lambda>f. f (depth + 1)) (map (render fl format) cs)))"
    by (metis in_set_zipE imageE prod.collapse)
  note texts = this [folded members_text_None [of format "depth + 1"]] c [folded elements_text_None [of format]]
  have "c_type n \<in> {cJSON_False, cJSON_True, cJSON_NULL, cJSON_Number, cJSON_String, cJSON_Array, cJSON_Object}"
    using CJSON.prems by (simp add: node_ok_def)
  then consider "c_type n = cJSON_False" | "c_type n = cJSON_True" | "c_type n = cJSON_NULL" | "c_type n = cJSON_Number"
    | "c_type n = cJSON_String" | "c_type n = cJSON_Array" | "c_type n = cJSON_Object" by blast
  then show ?case
    by cases (use texts in \<open>simp_all add: Let_def opt_app_None del: not_None_eq\<close>)
qed

section \<open>Parsed documents\<close>

lemma skip_bom_depth: "pb_depth (skip_utf8_bom b) = pb_depth b"
  by (simp add: skip_utf8_bom_def)

lemma parsed_ok:
  assumes "cJSON_ParseWithOpts fuel fl mem text_in require_null_terminated = Some (Inr r)" "p_item r = Some it"
  shows "well_typed it" "levels it \<le> CJSON_NESTING_LIMIT"
proof -
  obtain b b' where run: "parse_value fuel fl (new_node fl) b = Some (Inr (True, it, b'))" and d: "pb_depth b = 0"
    using assms by (auto simp: cJSON_ParseWithOpts_def parse_failed_def bind_run_Some Let_def skip_bom_depth
        split: option.splits if_splits)
  have d0: "pb_depth b \<le> CJSON_NESTING_LIMIT" using d by simp
  show "well_typed it" "levels it \<le> CJSON_NESTING_LIMIT"
    using typedD(1,4) [OF parse_value_typed run d0] by auto
qed

section \<open>Properties\<close>

text \<open>C12. The type of a parsed document. Every document that \<open>cJSON_Parse\<close> or \<open>cJSON_ParseWithOpts\<close> returns, from
  whatever bytes, is well typed: each item has exactly one of the seven JSON types and no flags, a string has its
  value, the members of an object have names, only arrays and objects have children, and it is at most 1000
  levels deep. Formatted or not, it therefore has a text that can be printed.\<close>

theorem parsed_documents_well_typed:
  assumes "cJSON_ParseWithOpts fuel fl mem bytes_in require_null_terminated = Some (Inr r) \<or>
      cJSON_Parse fuel fl mem bytes_in = Some (Inr r)" "p_item r = Some it"
  shows "well_typed it \<and> levels it \<le> 1000 \<and> (\<exists>t. render fl format it 0 = Some t)"
proof -
  obtain rnt where "cJSON_ParseWithOpts fuel fl mem bytes_in rnt = Some (Inr r)"
    using assms(1) by (auto simp: cJSON_Parse_def)
  note ok = parsed_ok [OF this assms(2)]
  show ?thesis using ok well_typed_renders [OF ok(1)] by (auto simp: CJSON_NESTING_LIMIT_def)
qed

theorem parsed_documents_well_typed_witness:
  "\<exists>it b. cJSON_ParseWithOpts 9 one_digit_flt 9 (Some [91, 116, 114, 117, 101, 44, 51, 93]) True =
      Some (Inr \<lparr>p_item = Some it, p_end = b, p_error = None\<rparr>) \<and> well_typed it"
proof -
  have r: "render one_digit_flt False demo_doc 0 = Some [91, 116, 114, 117, 101, 44, 51, 93]"
    by (simp add: demo_doc_def one_digit_flt_def digit_flt_def opt_app_def number_text_def compare_double_def TRUE_text_def Let_def)
  have d: "no_raw demo_doc" "levels demo_doc \<le> CJSON_NESTING_LIMIT"
    by (simp_all add: demo_doc_def container_def Let_def CJSON_NESTING_LIMIT_def)
  have p: "cJSON_ParseWithOpts 9 one_digit_flt 9 (Some [91, 116, 114, 117, 101, 44, 51, 93, 0]) True =
      Some (Inr \<lparr>p_item = Some (reread one_digit_flt demo_doc (new_node one_digit_flt)), p_end = 8, p_error = None\<rparr>)"
    using parse_rendered [OF one_digit_fits one_digit_read d r, of 9 9 True] by simp
  then have p': "cJSON_ParseWithOpts 9 one_digit_flt 9 (Some [91, 116, 114, 117, 101, 44, 51, 93]) True =
      Some (Inr \<lparr>p_item = Some (reread one_digit_flt demo_doc (new_node one_digit_flt)), p_end = 8, p_error = None\<rparr>)"
    by (simp add: cJSON_ParseWithOpts_def cstr_def)
  show ?thesis
    using parsed_documents_well_typed [OF disjI1 [OF p'], of "reread one_digit_flt demo_doc (new_node one_digit_flt)"] p' by auto
qed

end
