(* ===== verification/Json_Heap.thy ===== *)
theory Json_Heap
  imports Json_Data
begin

text \<open>
  The item operations of \<open>JSON/cJSON.c\<close> on an explicit heap: items with their \<open>next\<close>, \<open>prev\<close> and \<open>child\<close>
  pointers and strings at addresses, where 0 is the null pointer. An operation maps the heap to its
  result and the new heap, to a fault, or to \<open>None\<close> when the fuel of its loop is used up. Allocation
  takes the next address and fails when \<open>h_mem\<close> is 0; addresses are not used again, so an access to
  freed memory is always seen.
\<close>

unbundle bit_operations_syntax

section \<open>The heap\<close>

type_synonym ptr = nat

record 'd citem =
  i_next :: ptr
  i_prev :: ptr
  i_child :: ptr
  i_type :: u32
  i_valuestring :: ptr
  i_valueint :: s32
  i_valuedouble :: 'd
  i_string :: ptr

record 'd jheap =
  h_item :: "ptr \<Rightarrow> 'd citem option"
  h_str :: "ptr \<Rightarrow> bytes option"
  h_fresh :: ptr
  h_mem :: nat

type_synonym ('d, 'a) hop = "'d jheap \<Rightarrow> ('a \<times> 'd jheap) result option"

definition ret :: "'a \<Rightarrow> ('d, 'a) hop" where
  "ret x = (\<lambda>h. Some (Inr (x, h)))"

definition fault_with :: "fault \<Rightarrow> ('d, 'a) hop" where
  "fault_with e = (\<lambda>h. Some (Inl e))"

definition no_fuel :: "('d, 'a) hop" where
  "no_fuel = (\<lambda>h. None)"

definition bnd :: "('d, 'a) hop \<Rightarrow> ('a \<Rightarrow> ('d, 'b) hop) \<Rightarrow> ('d, 'b) hop" where
  "bnd m f = (\<lambda>h. case m h of
      None \<Rightarrow> None | Some (Inl e) \<Rightarrow> Some (Inl e) | Some (Inr (x, h')) \<Rightarrow> f x h')"

definition andthen :: "('d, 'a) hop \<Rightarrow> ('d, 'b) hop \<Rightarrow> ('d, 'b) hop" where
  "andthen m m' = bnd m (\<lambda>_. m')"

definition deref :: "ptr \<Rightarrow> ('d, 'd citem) hop" where
  "deref p = (\<lambda>h. if p = 0 then Some (Inl Null_deref)
     else case h_item h p of None \<Rightarrow> Some (Inl Use_after_free) | Some i \<Rightarrow> Some (Inr (i, h)))"

definition modify_item :: "ptr \<Rightarrow> ('d citem \<Rightarrow> 'd citem) \<Rightarrow> ('d, unit) hop" where
  "modify_item p f = (\<lambda>h. if p = 0 then Some (Inl Null_deref)
     else case h_item h p of None \<Rightarrow> Some (Inl Use_after_free)
       | Some i \<Rightarrow> Some (Inr ((), h\<lparr>h_item := (h_item h)(p \<mapsto> f i)\<rparr>)))"

definition set_next :: "ptr \<Rightarrow> ptr \<Rightarrow> ('d, unit) hop" where
  "set_next p q = modify_item p (\<lambda>i. i\<lparr>i_next := q\<rparr>)"

definition set_prev :: "ptr \<Rightarrow> ptr \<Rightarrow> ('d, unit) hop" where
  "set_prev p q = modify_item p (\<lambda>i. i\<lparr>i_prev := q\<rparr>)"

definition set_child :: "ptr \<Rightarrow> ptr \<Rightarrow> ('d, unit) hop" where
  "set_child p q = modify_item p (\<lambda>i. i\<lparr>i_child := q\<rparr>)"

definition str_at :: "ptr \<Rightarrow> ('d, bytes) hop" where
  "str_at p = (\<lambda>h. if p = 0 then Some (Inl Null_deref)
     else case h_str h p of None \<Rightarrow> Some (Inl Use_after_free) | Some s \<Rightarrow> Some (Inr (cstr s, h)))"

text \<open>\<open>free\<close> of the null pointer does nothing.\<close>

definition free_item :: "ptr \<Rightarrow> ('d, unit) hop" where
  "free_item p = (\<lambda>h. if p = 0 then Some (Inr ((), h))
     else case h_item h p of None \<Rightarrow> Some (Inl Double_free)
       | Some i \<Rightarrow> Some (Inr ((), h\<lparr>h_item := (h_item h)(p := None)\<rparr>)))"

definition free_str :: "ptr \<Rightarrow> ('d, unit) hop" where
  "free_str p = (\<lambda>h. if p = 0 then Some (Inr ((), h))
     else case h_str h p of None \<Rightarrow> Some (Inl Double_free)
       | Some s \<Rightarrow> Some (Inr ((), h\<lparr>h_str := (h_str h)(p := None)\<rparr>)))"

section \<open>Creation and deletion\<close>

definition blank_item :: "'d flt \<Rightarrow> 'd citem" where
  "blank_item fl = \<lparr>i_next = 0, i_prev = 0, i_child = 0, i_type = cJSON_Invalid, i_valuestring = 0,
     i_valueint = 0, i_valuedouble = f_zero fl, i_string = 0\<rparr>"

definition cJSON_New_Item :: "'d flt \<Rightarrow> ('d, ptr) hop" where
  "cJSON_New_Item fl = (\<lambda>h. if h_mem h = 0 then Some (Inr (0, h))
     else Some (Inr (h_fresh h, h\<lparr>h_item := (h_item h)(h_fresh h \<mapsto> blank_item fl),
       h_fresh := h_fresh h + 1, h_mem := h_mem h - 1\<rparr>)))"

definition alloc_str :: "bytes \<Rightarrow> ('d, ptr) hop" where
  "alloc_str s = (\<lambda>h. if h_mem h = 0 then Some (Inr (0, h))
     else Some (Inr (h_fresh h, h\<lparr>h_str := (h_str h)(h_fresh h \<mapsto> s),
       h_fresh := h_fresh h + 1, h_mem := h_mem h - 1\<rparr>)))"

definition cJSON_strdup :: "ptr \<Rightarrow> ('d, ptr) hop" where
  "cJSON_strdup string = (if string = 0 then ret 0 else bnd (str_at string) (\<lambda>s. alloc_str (s @ [0])))"

definition is_reference :: "'d citem \<Rightarrow> bool" where
  "is_reference i \<longleftrightarrow> i_type i AND cJSON_IsReference \<noteq> 0"

definition is_const_key :: "'d citem \<Rightarrow> bool" where
  "is_const_key i \<longleftrightarrow> i_type i AND cJSON_StringIsConst \<noteq> 0"

primrec cJSON_Delete :: "nat \<Rightarrow> ptr \<Rightarrow> ('d, unit) hop" where
  "cJSON_Delete 0 item = no_fuel"
| "cJSON_Delete (Suc fuel) item =
     (if item = 0 then ret ()
      else bnd (deref item) (\<lambda>i.
        andthen (if \<not> is_reference i \<and> i_child i \<noteq> 0 then cJSON_Delete fuel (i_child i) else ret ())
       (andthen (if \<not> is_reference i \<and> i_valuestring i \<noteq> 0 then free_str (i_valuestring i) else ret ())
       (andthen (if \<not> is_const_key i \<and> i_string i \<noteq> 0 then free_str (i_string i) else ret ())
       (andthen (free_item item) (cJSON_Delete fuel (i_next i)))))))"

text \<open>The creation functions for a type without a string or children.\<close>

definition create_with :: "'d flt \<Rightarrow> ('d citem \<Rightarrow> 'd citem) \<Rightarrow> ('d, ptr) hop" where
  "create_with fl f =
     bnd (cJSON_New_Item fl) (\<lambda>item. if item = 0 then ret 0 else andthen (modify_item item f) (ret item))"

definition cJSON_CreateNull :: "'d flt \<Rightarrow> ('d, ptr) hop" where
  "cJSON_CreateNull fl = create_with fl (\<lambda>i. i\<lparr>i_type := cJSON_NULL\<rparr>)"

definition cJSON_CreateTrue :: "'d flt \<Rightarrow> ('d, ptr) hop" where
  "cJSON_CreateTrue fl = create_with fl (\<lambda>i. i\<lparr>i_type := cJSON_True\<rparr>)"

definition cJSON_CreateFalse :: "'d flt \<Rightarrow> ('d, ptr) hop" where
  "cJSON_CreateFalse fl = create_with fl (\<lambda>i. i\<lparr>i_type := cJSON_False\<rparr>)"

definition cJSON_CreateBool :: "'d flt \<Rightarrow> bool \<Rightarrow> ('d, ptr) hop" where
  "cJSON_CreateBool fl boolean = create_with fl (\<lambda>i. i\<lparr>i_type := (if boolean then cJSON_True else cJSON_False)\<rparr>)"

definition cJSON_CreateNumber :: "'d flt \<Rightarrow> 'd \<Rightarrow> ('d, ptr) hop" where
  "cJSON_CreateNumber fl num =
     create_with fl (\<lambda>i. i\<lparr>i_type := cJSON_Number, i_valuedouble := num, i_valueint := saturate fl num\<rparr>)"

definition create_with_string :: "nat \<Rightarrow> 'd flt \<Rightarrow> u32 \<Rightarrow> ptr \<Rightarrow> ('d, ptr) hop" where
  "create_with_string fuel fl t string =
     bnd (create_with fl (\<lambda>i. i\<lparr>i_type := t\<rparr>)) (\<lambda>item.
     if item = 0 then ret 0
     else bnd (cJSON_strdup string) (\<lambda>valuestring.
       andthen (modify_item item (\<lambda>i. i\<lparr>i_valuestring := valuestring\<rparr>))
        (if valuestring = 0 then andthen (cJSON_Delete fuel item) (ret 0) else ret item)))"

definition cJSON_CreateString :: "nat \<Rightarrow> 'd flt \<Rightarrow> ptr \<Rightarrow> ('d, ptr) hop" where
  "cJSON_CreateString fuel fl string = create_with_string fuel fl cJSON_String string"

definition cJSON_CreateRaw :: "nat \<Rightarrow> 'd flt \<Rightarrow> ptr \<Rightarrow> ('d, ptr) hop" where
  "cJSON_CreateRaw fuel fl raw = create_with_string fuel fl cJSON_Raw raw"

definition cJSON_CreateStringReference :: "'d flt \<Rightarrow> ptr \<Rightarrow> ('d, ptr) hop" where
  "cJSON_CreateStringReference fl string =
     create_with fl (\<lambda>i. i\<lparr>i_type := cJSON_String OR cJSON_IsReference, i_valuestring := string\<rparr>)"

definition cJSON_CreateObjectReference :: "'d flt \<Rightarrow> ptr \<Rightarrow> ('d, ptr) hop" where
  "cJSON_CreateObjectReference fl child =
     create_with fl (\<lambda>i. i\<lparr>i_type := cJSON_Object OR cJSON_IsReference, i_child := child\<rparr>)"

definition cJSON_CreateArrayReference :: "'d flt \<Rightarrow> ptr \<Rightarrow> ('d, ptr) hop" where
  "cJSON_CreateArrayReference fl child =
     create_with fl (\<lambda>i. i\<lparr>i_type := cJSON_Array OR cJSON_IsReference, i_child := child\<rparr>)"

definition cJSON_CreateArray :: "'d flt \<Rightarrow> ('d, ptr) hop" where
  "cJSON_CreateArray fl = create_with fl (\<lambda>i. i\<lparr>i_type := cJSON_Array\<rparr>)"

definition cJSON_CreateObject :: "'d flt \<Rightarrow> ('d, ptr) hop" where
  "cJSON_CreateObject fl = create_with fl (\<lambda>i. i\<lparr>i_type := cJSON_Object\<rparr>)"

section \<open>Reading\<close>

text \<open>The loops over the \<open>next\<close> chain.\<close>

primrec count_loop :: "nat \<Rightarrow> ptr \<Rightarrow> nat \<Rightarrow> ('d, nat) hop" where
  "count_loop 0 child n = no_fuel"
| "count_loop (Suc fuel) child n =
     (if child = 0 then ret n else bnd (deref child) (\<lambda>c. count_loop fuel (i_next c) (n + 1)))"

definition cJSON_GetArraySize :: "nat \<Rightarrow> ptr \<Rightarrow> ('d, s32) hop" where
  "cJSON_GetArraySize fuel array =
     (if array = 0 then ret 0
      else bnd (deref array) (\<lambda>a. bnd (count_loop fuel (i_child a) 0) (\<lambda>n. ret (of_nat n))))"

primrec index_loop :: "nat \<Rightarrow> ptr \<Rightarrow> nat \<Rightarrow> ('d, ptr) hop" where
  "index_loop 0 current_child index = no_fuel"
| "index_loop (Suc fuel) current_child index =
     (if current_child \<noteq> 0 \<and> index > 0
      then bnd (deref current_child) (\<lambda>c. index_loop fuel (i_next c) (index - 1))
      else ret current_child)"

definition get_array_item :: "nat \<Rightarrow> ptr \<Rightarrow> nat \<Rightarrow> ('d, ptr) hop" where
  "get_array_item fuel array index =
     (if array = 0 then ret 0 else bnd (deref array) (\<lambda>a. index_loop fuel (i_child a) index))"

definition cJSON_GetArrayItem :: "nat \<Rightarrow> ptr \<Rightarrow> s32 \<Rightarrow> ('d, ptr) hop" where
  "cJSON_GetArrayItem fuel array index =
     (if sint index < 0 then ret 0 else get_array_item fuel array (unat index))"

primrec key_loop :: "nat \<Rightarrow> bool \<Rightarrow> bytes \<Rightarrow> ptr \<Rightarrow> ('d, ptr) hop" where
  "key_loop 0 case_sensitive name current_element = no_fuel"
| "key_loop (Suc fuel) case_sensitive name current_element =
     (if current_element = 0 then ret 0
      else bnd (deref current_element) (\<lambda>c.
        if i_string c = 0 then
          (if case_sensitive then ret 0 else key_loop fuel case_sensitive name (i_next c))
        else bnd (str_at (i_string c)) (\<lambda>s.
          if (if case_sensitive then name = s else ci_equal name s) then ret current_element
          else key_loop fuel case_sensitive name (i_next c))))"

definition get_object_item :: "nat \<Rightarrow> ptr \<Rightarrow> ptr \<Rightarrow> bool \<Rightarrow> ('d, ptr) hop" where
  "get_object_item fuel object name case_sensitive =
     (if object = 0 \<or> name = 0 then ret 0
      else bnd (deref object) (\<lambda>o'. bnd (str_at name) (\<lambda>s. key_loop fuel case_sensitive s (i_child o'))))"

definition cJSON_GetObjectItem :: "nat \<Rightarrow> ptr \<Rightarrow> ptr \<Rightarrow> ('d, ptr) hop" where
  "cJSON_GetObjectItem fuel object string = get_object_item fuel object string False"

definition cJSON_GetObjectItemCaseSensitive :: "nat \<Rightarrow> ptr \<Rightarrow> ptr \<Rightarrow> ('d, ptr) hop" where
  "cJSON_GetObjectItemCaseSensitive fuel object string = get_object_item fuel object string True"

definition cJSON_HasObjectItem :: "nat \<Rightarrow> ptr \<Rightarrow> ptr \<Rightarrow> ('d, bool) hop" where
  "cJSON_HasObjectItem fuel object string =
     bnd (cJSON_GetObjectItem fuel object string) (\<lambda>item. ret (item \<noteq> 0))"

section \<open>Adding\<close>

definition suffix_object :: "ptr \<Rightarrow> ptr \<Rightarrow> ('d, unit) hop" where
  "suffix_object prev item = andthen (set_next prev item) (set_prev item prev)"

definition create_reference :: "'d flt \<Rightarrow> ptr \<Rightarrow> ('d, ptr) hop" where
  "create_reference fl item =
     (if item = 0 then ret 0
      else bnd (cJSON_New_Item fl) (\<lambda>reference.
        if reference = 0 then ret 0
        else bnd (deref item) (\<lambda>i.
          andthen (modify_item reference (\<lambda>_. i\<lparr>i_string := 0, i_type := i_type i OR cJSON_IsReference,
            i_next := 0, i_prev := 0\<rparr>)) (ret reference))))"

primrec last_loop :: "nat \<Rightarrow> ptr \<Rightarrow> ('d, ptr) hop" where
  "last_loop 0 child = no_fuel"
| "last_loop (Suc fuel) child =
     bnd (deref child) (\<lambda>c. if i_next c \<noteq> 0 then last_loop fuel (i_next c) else ret child)"

text \<open>\<open>array->child->prev = item\<close>.\<close>

definition set_last :: "ptr \<Rightarrow> ptr \<Rightarrow> ('d, unit) hop" where
  "set_last array item = bnd (deref array) (\<lambda>a. set_prev (i_child a) item)"

definition add_item_to_array :: "nat \<Rightarrow> ptr \<Rightarrow> ptr \<Rightarrow> ('d, bool) hop" where
  "add_item_to_array fuel array item =
     (if item = 0 \<or> array = 0 then ret False
      else bnd (deref array) (\<lambda>a.
        let child = i_child a in
        if child = 0 then
          andthen (set_child array item) (andthen (set_prev item item) (andthen (set_next item 0) (ret True)))
        else bnd (deref child) (\<lambda>c.
          if i_prev c \<noteq> 0
          then andthen (suffix_object (i_prev c) item) (andthen (set_last array item) (ret True))
          else bnd (last_loop fuel child) (\<lambda>last.
            andthen (suffix_object last item) (andthen (set_last array item) (ret True))))))"

definition cJSON_AddItemToArray :: "nat \<Rightarrow> ptr \<Rightarrow> ptr \<Rightarrow> ('d, unit) hop" where
  "cJSON_AddItemToArray fuel array item = bnd (add_item_to_array fuel array item) (\<lambda>_. ret ())"

definition add_item_to_object :: "nat \<Rightarrow> ptr \<Rightarrow> ptr \<Rightarrow> ptr \<Rightarrow> bool \<Rightarrow> ('d, bool) hop" where
  "add_item_to_object fuel object string item constant_key =
     (if object = 0 \<or> string = 0 \<or> item = 0 then ret False
      else bnd (deref item) (\<lambda>i.
        bnd (if constant_key then ret string else cJSON_strdup string) (\<lambda>new_key.
        if \<not> constant_key \<and> new_key = 0 then ret False
        else let new_type = (if constant_key then i_type i OR cJSON_StringIsConst
                             else i_type i AND NOT cJSON_StringIsConst) in
          andthen (if \<not> is_const_key i \<and> i_string i \<noteq> 0 then free_str (i_string i) else ret ())
          (andthen (modify_item item (\<lambda>i. i\<lparr>i_string := new_key, i_type := new_type\<rparr>))
            (add_item_to_array fuel object item)))))"

definition cJSON_AddItemToObject :: "nat \<Rightarrow> ptr \<Rightarrow> ptr \<Rightarrow> ptr \<Rightarrow> ('d, unit) hop" where
  "cJSON_AddItemToObject fuel object string item =
     bnd (add_item_to_object fuel object string item False) (\<lambda>_. ret ())"

definition cJSON_AddItemToObjectCS :: "nat \<Rightarrow> ptr \<Rightarrow> ptr \<Rightarrow> ptr \<Rightarrow> ('d, unit) hop" where
  "cJSON_AddItemToObjectCS fuel object string item =
     bnd (add_item_to_object fuel object string item True) (\<lambda>_. ret ())"

definition cJSON_AddItemReferenceToArray :: "nat \<Rightarrow> 'd flt \<Rightarrow> ptr \<Rightarrow> ptr \<Rightarrow> ('d, unit) hop" where
  "cJSON_AddItemReferenceToArray fuel fl array item =
     (if array = 0 then ret ()
      else bnd (create_reference fl item) (\<lambda>reference.
           bnd (add_item_to_array fuel array reference) (\<lambda>_. ret ())))"

definition cJSON_AddItemReferenceToObject :: "nat \<Rightarrow> 'd flt \<Rightarrow> ptr \<Rightarrow> ptr \<Rightarrow> ptr \<Rightarrow> ('d, unit) hop" where
  "cJSON_AddItemReferenceToObject fuel fl object string item =
     (if object = 0 \<or> string = 0 then ret ()
      else bnd (create_reference fl item) (\<lambda>reference.
           bnd (add_item_to_object fuel object string reference False) (\<lambda>_. ret ())))"

text \<open>The functions that create an item and add it under a name.\<close>

definition add_created :: "nat \<Rightarrow> ptr \<Rightarrow> ptr \<Rightarrow> ('d, ptr) hop \<Rightarrow> ('d, ptr) hop" where
  "add_created fuel object name create =
     bnd create (\<lambda>item.
     bnd (add_item_to_object fuel object name item False) (\<lambda>ok.
     if ok then ret item else andthen (cJSON_Delete fuel item) (ret 0)))"

definition cJSON_AddNullToObject :: "nat \<Rightarrow> 'd flt \<Rightarrow> ptr \<Rightarrow> ptr \<Rightarrow> ('d, ptr) hop" where
  "cJSON_AddNullToObject fuel fl object name = add_created fuel object name (cJSON_CreateNull fl)"

definition cJSON_AddTrueToObject :: "nat \<Rightarrow> 'd flt \<Rightarrow> ptr \<Rightarrow> ptr \<Rightarrow> ('d, ptr) hop" where
  "cJSON_AddTrueToObject fuel fl object name = add_created fuel object name (cJSON_CreateTrue fl)"

definition cJSON_AddFalseToObject :: "nat \<Rightarrow> 'd flt \<Rightarrow> ptr \<Rightarrow> ptr \<Rightarrow> ('d, ptr) hop" where
  "cJSON_AddFalseToObject fuel fl object name = add_created fuel object name (cJSON_CreateFalse fl)"

definition cJSON_AddBoolToObject :: "nat \<Rightarrow> 'd flt \<Rightarrow> ptr \<Rightarrow> ptr \<Rightarrow> bool \<Rightarrow> ('d, ptr) hop" where
  "cJSON_AddBoolToObject fuel fl object name boolean =
     add_created fuel object name (cJSON_CreateBool fl boolean)"

definition cJSON_AddNumberToObject :: "nat \<Rightarrow> 'd flt \<Rightarrow> ptr \<Rightarrow> ptr \<Rightarrow> 'd \<Rightarrow> ('d, ptr) hop" where
  "cJSON_AddNumberToObject fuel fl object name number =
     add_created fuel object name (cJSON_CreateNumber fl number)"

definition cJSON_AddStringToObject :: "nat \<Rightarrow> 'd flt \<Rightarrow> ptr \<Rightarrow> ptr \<Rightarrow> ptr \<Rightarrow> ('d, ptr) hop" where
  "cJSON_AddStringToObject fuel fl object name string =
     add_created fuel object name (cJSON_CreateString fuel fl string)"

definition cJSON_AddRawToObject :: "nat \<Rightarrow> 'd flt \<Rightarrow> ptr \<Rightarrow> ptr \<Rightarrow> ptr \<Rightarrow> ('d, ptr) hop" where
  "cJSON_AddRawToObject fuel fl object name raw =
     add_created fuel object name (cJSON_CreateRaw fuel fl raw)"

definition cJSON_AddObjectToObject :: "nat \<Rightarrow> 'd flt \<Rightarrow> ptr \<Rightarrow> ptr \<Rightarrow> ('d, ptr) hop" where
  "cJSON_AddObjectToObject fuel fl object name = add_created fuel object name (cJSON_CreateObject fl)"

definition cJSON_AddArrayToObject :: "nat \<Rightarrow> 'd flt \<Rightarrow> ptr \<Rightarrow> ptr \<Rightarrow> ('d, ptr) hop" where
  "cJSON_AddArrayToObject fuel fl object name = add_created fuel object name (cJSON_CreateArray fl)"

section \<open>Detaching, inserting, replacing\<close>

definition cJSON_DetachItemViaPointer :: "ptr \<Rightarrow> ptr \<Rightarrow> ('d, ptr) hop" where
  "cJSON_DetachItemViaPointer parent item =
     (if parent = 0 \<or> item = 0 then ret 0
      else bnd (deref parent) (\<lambda>p.
        bnd (deref item) (\<lambda>i.
        andthen (if item \<noteq> i_child p then set_next (i_prev i) (i_next i) else ret ())
       (bnd (deref item) (\<lambda>i.
        andthen (if i_next i \<noteq> 0 then set_prev (i_next i) (i_prev i) else ret ())
       (bnd (deref parent) (\<lambda>p.
        bnd (deref item) (\<lambda>i.
        andthen (if item = i_child p then set_child parent (i_next i) else ret ())
       (andthen (set_prev item 0) (andthen (set_next item 0) (ret item)))))))))))"

definition cJSON_DetachItemFromArray :: "nat \<Rightarrow> ptr \<Rightarrow> s32 \<Rightarrow> ('d, ptr) hop" where
  "cJSON_DetachItemFromArray fuel array which =
     (if sint which < 0 then ret 0
      else bnd (get_array_item fuel array (unat which)) (\<lambda>item. cJSON_DetachItemViaPointer array item))"

definition cJSON_DeleteItemFromArray :: "nat \<Rightarrow> ptr \<Rightarrow> s32 \<Rightarrow> ('d, unit) hop" where
  "cJSON_DeleteItemFromArray fuel array which =
     bnd (cJSON_DetachItemFromArray fuel array which) (cJSON_Delete fuel)"

definition cJSON_DetachItemFromObject :: "nat \<Rightarrow> ptr \<Rightarrow> ptr \<Rightarrow> ('d, ptr) hop" where
  "cJSON_DetachItemFromObject fuel object string =
     bnd (cJSON_GetObjectItem fuel object string) (cJSON_DetachItemViaPointer object)"

definition cJSON_DetachItemFromObjectCaseSensitive :: "nat \<Rightarrow> ptr \<Rightarrow> ptr \<Rightarrow> ('d, ptr) hop" where
  "cJSON_DetachItemFromObjectCaseSensitive fuel object string =
     bnd (cJSON_GetObjectItemCaseSensitive fuel object string) (cJSON_DetachItemViaPointer object)"

definition cJSON_DeleteItemFromObject :: "nat \<Rightarrow> ptr \<Rightarrow> ptr \<Rightarrow> ('d, unit) hop" where
  "cJSON_DeleteItemFromObject fuel object string =
     bnd (cJSON_DetachItemFromObject fuel object string) (cJSON_Delete fuel)"

definition cJSON_DeleteItemFromObjectCaseSensitive :: "nat \<Rightarrow> ptr \<Rightarrow> ptr \<Rightarrow> ('d, unit) hop" where
  "cJSON_DeleteItemFromObjectCaseSensitive fuel object string =
     bnd (cJSON_DetachItemFromObjectCaseSensitive fuel object string) (cJSON_Delete fuel)"

definition cJSON_InsertItemInArray :: "nat \<Rightarrow> ptr \<Rightarrow> s32 \<Rightarrow> ptr \<Rightarrow> ('d, unit) hop" where
  "cJSON_InsertItemInArray fuel array which newitem =
     (if sint which < 0 then ret ()
      else bnd (get_array_item fuel array (unat which)) (\<lambda>after_inserted.
        if after_inserted = 0 then bnd (add_item_to_array fuel array newitem) (\<lambda>_. ret ())
        else
          andthen (set_next newitem after_inserted)
         (bnd (deref after_inserted) (\<lambda>a.
          andthen (set_prev newitem (i_prev a))
         (andthen (set_prev after_inserted newitem)
         (bnd (deref array) (\<lambda>p.
          if after_inserted = i_child p then set_child array newitem
          else bnd (deref newitem) (\<lambda>n. set_next (i_prev n) newitem))))))))"

definition cJSON_ReplaceItemViaPointer :: "nat \<Rightarrow> ptr \<Rightarrow> ptr \<Rightarrow> ptr \<Rightarrow> ('d, bool) hop" where
  "cJSON_ReplaceItemViaPointer fuel parent item replacement =
     (if parent = 0 \<or> replacement = 0 \<or> item = 0 then ret False
      else if replacement = item then ret True
      else bnd (deref item) (\<lambda>i.
        andthen (set_next replacement (i_next i))
       (andthen (set_prev replacement (i_prev i))
       (bnd (deref replacement) (\<lambda>r.
        andthen (if i_next r \<noteq> 0 then set_prev (i_next r) replacement else ret ())
       (bnd (deref parent) (\<lambda>p.
        andthen
          (if i_child p = item then set_child parent replacement
           else bnd (deref replacement) (\<lambda>r. if i_prev r \<noteq> 0 then set_next (i_prev r) replacement else ret ()))
       (andthen (set_next item 0) (andthen (set_prev item 0)
       (andthen (cJSON_Delete fuel item) (ret True)))))))))))"

definition cJSON_ReplaceItemInArray :: "nat \<Rightarrow> ptr \<Rightarrow> s32 \<Rightarrow> ptr \<Rightarrow> ('d, unit) hop" where
  "cJSON_ReplaceItemInArray fuel array which newitem =
     (if sint which < 0 then ret ()
      else bnd (get_array_item fuel array (unat which)) (\<lambda>item.
           bnd (cJSON_ReplaceItemViaPointer fuel array item newitem) (\<lambda>_. ret ())))"

definition replace_item_in_object :: "nat \<Rightarrow> ptr \<Rightarrow> ptr \<Rightarrow> ptr \<Rightarrow> bool \<Rightarrow> ('d, bool) hop" where
  "replace_item_in_object fuel object string replacement case_sensitive =
     (if replacement = 0 \<or> string = 0 then ret False
      else bnd (deref replacement) (\<lambda>r.
        andthen (if \<not> is_const_key r \<and> i_string r \<noteq> 0 then free_str (i_string r) else ret ())
       (bnd (cJSON_strdup string) (\<lambda>copy.
        andthen (modify_item replacement (\<lambda>i. i\<lparr>i_string := copy, i_type := i_type i AND NOT cJSON_StringIsConst\<rparr>))
       (bnd (get_object_item fuel object string case_sensitive) (\<lambda>item.
        andthen (cJSON_ReplaceItemViaPointer fuel object item replacement) (ret True)))))))"

definition cJSON_ReplaceItemInObject :: "nat \<Rightarrow> ptr \<Rightarrow> ptr \<Rightarrow> ptr \<Rightarrow> ('d, unit) hop" where
  "cJSON_ReplaceItemInObject fuel object string newitem =
     bnd (replace_item_in_object fuel object string newitem False) (\<lambda>_. ret ())"

definition cJSON_ReplaceItemInObjectCaseSensitive :: "nat \<Rightarrow> ptr \<Rightarrow> ptr \<Rightarrow> ptr \<Rightarrow> ('d, unit) hop" where
  "cJSON_ReplaceItemInObjectCaseSensitive fuel object string newitem =
     bnd (replace_item_in_object fuel object string newitem True) (\<lambda>_. ret ())"

section \<open>Arrays from C arrays\<close>

text \<open>The loop the four functions share: \<open>create i\<close> makes the item for the element with number \<open>i\<close>, \<open>n\<close>
  elements are left.\<close>

primrec array_fill :: "nat \<Rightarrow> (nat \<Rightarrow> ('d, ptr) hop) \<Rightarrow> ptr \<Rightarrow> nat \<Rightarrow> nat \<Rightarrow> ptr \<Rightarrow> ('d, ptr) hop" where
  "array_fill fuel create a 0 i p = ret a"
| "array_fill fuel create a (Suc n) i p =
     bnd (create i) (\<lambda>new.
     if new = 0 then andthen (cJSON_Delete fuel a) (ret 0)
     else andthen (if i = 0 then set_child a new else suffix_object p new)
            (array_fill fuel create a n (i + 1) new))"

definition create_array_of :: "nat \<Rightarrow> 'd flt \<Rightarrow> (nat \<Rightarrow> ('d, ptr) hop) \<Rightarrow> bool \<Rightarrow> s32 \<Rightarrow> ('d, ptr) hop" where
  "create_array_of fuel fl create null count =
     (if sint count < 0 \<or> null then ret 0
      else bnd (cJSON_CreateArray fl) (\<lambda>a.
        if a = 0 then ret 0 else array_fill fuel create a (unat count) 0 0))"

text \<open>An element of the caller's array; reading behind its end is a fault.\<close>

definition element_of :: "'a list \<Rightarrow> nat \<Rightarrow> ('a \<Rightarrow> ('d, 'b) hop) \<Rightarrow> ('d, 'b) hop" where
  "element_of xs i f = (if i < length xs then f (xs ! i) else fault_with Read_out_of_bounds)"

definition cJSON_CreateIntArray ::
  "nat \<Rightarrow> 'd flt \<Rightarrow> (s32 \<Rightarrow> 'd) \<Rightarrow> s32 list option \<Rightarrow> s32 \<Rightarrow> ('d, ptr) hop" where
  "cJSON_CreateIntArray fuel fl to_double numbers count =
     create_array_of fuel fl (\<lambda>i. element_of (the numbers) i (\<lambda>x. cJSON_CreateNumber fl (to_double x)))
       (numbers = None) count"

definition cJSON_CreateFloatArray ::
  "nat \<Rightarrow> 'd flt \<Rightarrow> ('f \<Rightarrow> 'd) \<Rightarrow> 'f list option \<Rightarrow> s32 \<Rightarrow> ('d, ptr) hop" where
  "cJSON_CreateFloatArray fuel fl to_double numbers count =
     create_array_of fuel fl (\<lambda>i. element_of (the numbers) i (\<lambda>x. cJSON_CreateNumber fl (to_double x)))
       (numbers = None) count"

definition cJSON_CreateDoubleArray :: "nat \<Rightarrow> 'd flt \<Rightarrow> 'd list option \<Rightarrow> s32 \<Rightarrow> ('d, ptr) hop" where
  "cJSON_CreateDoubleArray fuel fl numbers count =
     create_array_of fuel fl (\<lambda>i. element_of (the numbers) i (cJSON_CreateNumber fl)) (numbers = None) count"

definition cJSON_CreateStringArray :: "nat \<Rightarrow> 'd flt \<Rightarrow> ptr list option \<Rightarrow> s32 \<Rightarrow> ('d, ptr) hop" where
  "cJSON_CreateStringArray fuel fl strings count =
     create_array_of fuel fl (\<lambda>i. element_of (the strings) i (cJSON_CreateString fuel fl)) (strings = None) count"

section \<open>Duplication\<close>

text \<open>The loop over the children with the duplicating function \<open>dup\<close>; the result is whether it
  succeeded.\<close>

primrec dup_children :: "nat \<Rightarrow> (ptr \<Rightarrow> ('d, ptr) hop) \<Rightarrow> ptr \<Rightarrow> ptr \<Rightarrow> ptr \<Rightarrow> ('d, bool) hop" where
  "dup_children 0 dup newitem next' child = no_fuel"
| "dup_children (Suc fuel) dup newitem next' child =
     (if child = 0 then ret True
      else bnd (dup child) (\<lambda>newchild.
        if newchild = 0 then ret False
        else andthen
          (if next' \<noteq> 0 then andthen (set_next next' newchild) (set_prev newchild next') else set_child newitem newchild)
         (bnd (deref child) (\<lambda>c. dup_children fuel dup newitem newchild (i_next c)))))"

primrec cJSON_Duplicate :: "nat \<Rightarrow> 'd flt \<Rightarrow> bool \<Rightarrow> ptr \<Rightarrow> ('d, ptr) hop" where
  "cJSON_Duplicate 0 fl recurse item = no_fuel"
| "cJSON_Duplicate (Suc fuel) fl recurse item =
     (if item = 0 then ret 0
      else bnd (cJSON_New_Item fl) (\<lambda>newitem.
      if newitem = 0 then ret 0
      else let fail = andthen (cJSON_Delete fuel newitem) (ret 0) in
      bnd (deref item) (\<lambda>i.
      andthen (modify_item newitem (\<lambda>n. n\<lparr>i_type := i_type i AND NOT cJSON_IsReference,
        i_valueint := i_valueint i, i_valuedouble := i_valuedouble i\<rparr>))
     (bnd (if i_valuestring i \<noteq> 0 then cJSON_strdup (i_valuestring i) else ret 0) (\<lambda>valuestring.
      andthen (modify_item newitem (\<lambda>n. n\<lparr>i_valuestring := valuestring\<rparr>))
     (if i_valuestring i \<noteq> 0 \<and> valuestring = 0 then fail
      else bnd (if i_string i \<noteq> 0 then (if is_const_key i then ret (i_string i) else cJSON_strdup (i_string i))
                else ret 0) (\<lambda>string.
      andthen (modify_item newitem (\<lambda>n. n\<lparr>i_string := string\<rparr>))
     (if i_string i \<noteq> 0 \<and> string = 0 then fail
      else if \<not> recurse then ret newitem
      else bnd (dup_children fuel (cJSON_Duplicate fuel fl True) newitem 0 (i_child i)) (\<lambda>ok.
        if ok then ret newitem else fail)))))))))"

section \<open>Comparison\<close>

text \<open>The loops of \<open>cJSON_Compare\<close> over two arrays and over the members of an object; \<open>cmp\<close> is
  the comparison itself.\<close>

primrec compare_arrays :: "nat \<Rightarrow> (ptr \<Rightarrow> ptr \<Rightarrow> ('d, bool) hop) \<Rightarrow> ptr \<Rightarrow> ptr \<Rightarrow> ('d, bool) hop" where
  "compare_arrays 0 cmp a_element b_element = no_fuel"
| "compare_arrays (Suc fuel) cmp a_element b_element =
     (if a_element \<noteq> 0 \<and> b_element \<noteq> 0 then
        bnd (cmp a_element b_element) (\<lambda>same.
        if \<not> same then ret False
        else bnd (deref a_element) (\<lambda>a. bnd (deref b_element) (\<lambda>b.
          compare_arrays fuel cmp (i_next a) (i_next b))))
      else ret (a_element = b_element))"

primrec compare_members ::
  "nat \<Rightarrow> (ptr \<Rightarrow> ptr \<Rightarrow> ('d, bool) hop) \<Rightarrow> bool \<Rightarrow> ptr \<Rightarrow> ptr \<Rightarrow> ('d, bool) hop" where
  "compare_members 0 cmp case_sensitive a_element b = no_fuel"
| "compare_members (Suc fuel) cmp case_sensitive a_element b =
     (if a_element = 0 then ret True
      else bnd (deref a_element) (\<lambda>a.
        bnd (get_object_item fuel b (i_string a) case_sensitive) (\<lambda>b_element.
        if b_element = 0 then ret False
        else bnd (cmp a_element b_element) (\<lambda>same.
          if \<not> same then ret False else compare_members fuel cmp case_sensitive (i_next a) b))))"

primrec cJSON_Compare :: "nat \<Rightarrow> 'd flt \<Rightarrow> bool \<Rightarrow> ptr \<Rightarrow> ptr \<Rightarrow> ('d, bool) hop" where
  "cJSON_Compare 0 fl case_sensitive a b = no_fuel"
| "cJSON_Compare (Suc fuel) fl case_sensitive a b =
     (if a = 0 \<or> b = 0 then ret False
      else bnd (deref a) (\<lambda>x. bnd (deref b) (\<lambda>y.
      let t = i_type x AND 0xFF in
      if t \<noteq> i_type y AND 0xFF \<or> t = cJSON_Invalid then ret False
      else if t \<notin> {cJSON_False, cJSON_True, cJSON_NULL, cJSON_Number, cJSON_String, cJSON_Raw, cJSON_Array, cJSON_Object}
      then ret False
      else if a = b then ret True
      else if t \<in> {cJSON_False, cJSON_True, cJSON_NULL} then ret True
      else if t = cJSON_Number then ret (compare_double fl (i_valuedouble x) (i_valuedouble y))
      else if t \<in> {cJSON_String, cJSON_Raw} then
        (if i_valuestring x = 0 \<or> i_valuestring y = 0 then ret False
         else bnd (str_at (i_valuestring x)) (\<lambda>s. bnd (str_at (i_valuestring y)) (\<lambda>s'. ret (s = s'))))
      else if t = cJSON_Array then
        compare_arrays fuel (cJSON_Compare fuel fl case_sensitive) (i_child x) (i_child y)
      else bnd (compare_members fuel (cJSON_Compare fuel fl case_sensitive) case_sensitive (i_child x) b) (\<lambda>ok.
        if \<not> ok then ret False
        else compare_members fuel (cJSON_Compare fuel fl case_sensitive) case_sensitive (i_child y) a))))"

end
