(* ===== verification/Json_Links.thy ===== *)
theory Json_Links
  imports Json_Heap
begin

text \<open>
  The children of an array or object as a list. \<open>kids\<close> relates the pointers of the heap to the list of
  the children's addresses: the \<open>next\<close> chain from \<open>child\<close>, the \<open>prev\<close> pointers back, and the shortcut of
  the code, by which \<open>prev\<close> of the first child is null or the last child. The operations refine those
  on lists; where they break the shortcut, the lemmas say so.
\<close>

section \<open>Access to the heap\<close>

definition live :: "'d jheap \<Rightarrow> ptr \<Rightarrow> bool" where
  "live h p \<longleftrightarrow> p \<noteq> 0 \<and> h_item h p \<noteq> None"

definition item_at :: "'d jheap \<Rightarrow> ptr \<Rightarrow> 'd citem" where "item_at h p = the (h_item h p)"

definition nxt :: "'d jheap \<Rightarrow> ptr \<Rightarrow> ptr" where "nxt h p = i_next (item_at h p)"
definition prv :: "'d jheap \<Rightarrow> ptr \<Rightarrow> ptr" where "prv h p = i_prev (item_at h p)"
definition chd :: "'d jheap \<Rightarrow> ptr \<Rightarrow> ptr" where "chd h p = i_child (item_at h p)"

definition put :: "'d jheap \<Rightarrow> ptr \<Rightarrow> ('d citem \<Rightarrow> 'd citem) \<Rightarrow> 'd jheap" where
  "put h p f = h\<lparr>h_item := (h_item h)(p \<mapsto> f (item_at h p))\<rparr>"

definition put_next :: "ptr \<Rightarrow> ptr \<Rightarrow> 'd jheap \<Rightarrow> 'd jheap" where
  "put_next p q h = put h p (\<lambda>i. i\<lparr>i_next := q\<rparr>)"
definition put_prev :: "ptr \<Rightarrow> ptr \<Rightarrow> 'd jheap \<Rightarrow> 'd jheap" where
  "put_prev p q h = put h p (\<lambda>i. i\<lparr>i_prev := q\<rparr>)"
definition put_child :: "ptr \<Rightarrow> ptr \<Rightarrow> 'd jheap \<Rightarrow> 'd jheap" where
  "put_child p q h = put h p (\<lambda>i. i\<lparr>i_child := q\<rparr>)"

lemma bnd_run [simp]:
  "m h = Some (Inr (x, h')) \<Longrightarrow> bnd m f h = f x h'"
  "m h = Some (Inr (y, h')) \<Longrightarrow> andthen m m' h = m' h'"
  by (simp_all add: bnd_def andthen_def)

lemma bnd_ret [simp]: "bnd (ret x) f = f x" "andthen (ret x) m = m"
  by (simp_all add: bnd_def andthen_def ret_def)

lemma ret_run [simp]: "ret x h = Some (Inr (x, h))"
  by (simp add: ret_def)

lemma deref_run [simp]: "live h p \<Longrightarrow> deref p h = Some (Inr (item_at h p, h))"
  by (auto simp: live_def deref_def item_at_def)

lemma modify_run [simp]: "live h p \<Longrightarrow> modify_item p f h = Some (Inr ((), put h p f))"
  by (auto simp: live_def modify_item_def item_at_def put_def)

lemma set_run [simp]:
  "live h p \<Longrightarrow> set_next p q h = Some (Inr ((), put_next p q h))"
  "live h p \<Longrightarrow> set_prev p q h = Some (Inr ((), put_prev p q h))"
  "live h p \<Longrightarrow> set_child p q h = Some (Inr ((), put_child p q h))"
  by (simp_all add: set_next_def set_prev_def set_child_def put_next_def put_prev_def put_child_def)

lemma live_put [simp]:
  "live h p \<Longrightarrow> live (put h p f) x = live h x"
  "live h p \<Longrightarrow> live (put_next p q h) x = live h x"
  "live h p \<Longrightarrow> live (put_prev p q h) x = live h x"
  "live h p \<Longrightarrow> live (put_child p q h) x = live h x"
  by (auto simp: live_def put_def put_next_def put_prev_def put_child_def)

lemma item_at_put: "item_at (put h p f) x = (if x = p then f (item_at h p) else item_at h x)"
  by (simp add: item_at_def put_def)

lemma links_put [simp]:
  "nxt (put_next p q h) = (nxt h)(p := q)" "prv (put_next p q h) = prv h" "chd (put_next p q h) = chd h"
  "nxt (put_prev p q h) = nxt h" "prv (put_prev p q h) = (prv h)(p := q)" "chd (put_prev p q h) = chd h"
  "nxt (put_child p q h) = nxt h" "prv (put_child p q h) = prv h" "chd (put_child p q h) = (chd h)(p := q)"
  by (auto simp: fun_eq_iff nxt_def prv_def chd_def put_next_def put_prev_def put_child_def item_at_put)

lemma links_fold:
  "i_next (item_at h p) = nxt h p" "i_prev (item_at h p) = prv h p" "i_child (item_at h p) = chd h p"
  by (simp_all add: nxt_def prv_def chd_def)

text \<open>What the pointer operations leave alone: every other item, all strings, and the data of the items.\<close>

definition same_data :: "'d jheap \<Rightarrow> 'd jheap \<Rightarrow> bool" where
  "same_data h h' \<longleftrightarrow> h_str h' = h_str h \<and> h_fresh h' = h_fresh h \<and> h_mem h' = h_mem h \<and>
     (\<forall>p. live h' p = live h p \<and> i_type (item_at h' p) = i_type (item_at h p) \<and>
       i_valuestring (item_at h' p) = i_valuestring (item_at h p) \<and> i_valueint (item_at h' p) = i_valueint (item_at h p) \<and>
       i_valuedouble (item_at h' p) = i_valuedouble (item_at h p) \<and> i_string (item_at h' p) = i_string (item_at h p))"

lemma same_data_refl: "same_data h h"
  by (simp add: same_data_def)

lemma same_data_trans: "same_data h h' \<Longrightarrow> same_data h' h'' \<Longrightarrow> same_data h h''"
  by (simp add: same_data_def)

lemma same_data_put [simp]:
  assumes "live h p"
  shows "same_data h0 (put_next p q h) = same_data h0 h"
    "same_data h0 (put_prev p q h) = same_data h0 h"
    "same_data h0 (put_child p q h) = same_data h0 h"
proof -
  have "h_str (put h p f) = h_str h" "h_fresh (put h p f) = h_fresh h" "h_mem (put h p f) = h_mem h" for f
    by (simp_all add: put_def)
  then show "same_data h0 (put_next p q h) = same_data h0 h" "same_data h0 (put_prev p q h) = same_data h0 h"
    "same_data h0 (put_child p q h) = same_data h0 h"
    using assms by (auto simp: same_data_def put_next_def put_prev_def put_child_def item_at_put)
qed

definition only_changed :: "ptr set \<Rightarrow> 'd jheap \<Rightarrow> 'd jheap \<Rightarrow> bool" where
  "only_changed A h h' \<longleftrightarrow> (\<forall>p. p \<notin> A \<longrightarrow> h_item h' p = h_item h p)"

lemma only_changed_refl: "only_changed A h h"
  by (simp add: only_changed_def)

lemma only_changed_put [simp]:
  "p \<in> A \<Longrightarrow> only_changed A h0 (put_next p q h) = only_changed A h0 h"
  "p \<in> A \<Longrightarrow> only_changed A h0 (put_prev p q h) = only_changed A h0 h"
  "p \<in> A \<Longrightarrow> only_changed A h0 (put_child p q h) = only_changed A h0 h"
  by (auto simp: only_changed_def put_next_def put_prev_def put_child_def put_def)

section \<open>Chains\<close>

fun path :: "(ptr \<Rightarrow> ptr) \<Rightarrow> ptr \<Rightarrow> ptr list \<Rightarrow> ptr \<Rightarrow> bool" where
  "path f p [] q \<longleftrightarrow> p = q"
| "path f p (x # xs) q \<longleftrightarrow> p = x \<and> path f (f x) xs q"

fun backs :: "(ptr \<Rightarrow> ptr) \<Rightarrow> ptr \<Rightarrow> ptr list \<Rightarrow> bool" where
  "backs f p [] \<longleftrightarrow> True"
| "backs f p (x # xs) \<longleftrightarrow> f x = p \<and> backs f x xs"

lemma path_append [simp]: "path f p (xs @ ys) q \<longleftrightarrow> (\<exists>r. path f p xs r \<and> path f r ys q)"
  by (induction xs arbitrary: p) auto

lemma backs_append [simp]: "backs f p (xs @ ys) \<longleftrightarrow> backs f p xs \<and> backs f (last (p # xs)) ys"
  by (induction xs arbitrary: p) auto

lemma path_upd [simp]: "y \<notin> set xs \<Longrightarrow> path (f(y := z)) p xs q = path f p xs q"
  by (induction xs arbitrary: p) auto

lemma backs_upd [simp]: "y \<notin> set xs \<Longrightarrow> backs (f(y := z)) p xs = backs f p xs"
  by (induction xs arbitrary: p) auto

lemma path_cong: "(\<And>x. x \<in> set xs \<Longrightarrow> f x = g x) \<Longrightarrow> path f p xs q = path g p xs q"
  by (induction xs arbitrary: p) auto

lemma backs_cong: "(\<And>x. x \<in> set xs \<Longrightarrow> f x = g x) \<Longrightarrow> backs f p xs = backs g p xs"
  by (induction xs arbitrary: p) auto

text \<open>The children of \<open>a\<close>; \<open>tight\<close> is the condition on \<open>prev\<close> of the first.\<close>

definition tight :: "'d jheap \<Rightarrow> ptr list \<Rightarrow> bool" where
  "tight h xs \<longleftrightarrow> xs = [] \<or> prv h (hd xs) = 0 \<or> prv h (hd xs) = last xs"

definition chain :: "'d jheap \<Rightarrow> ptr \<Rightarrow> ptr list \<Rightarrow> bool" where
  "chain h a xs \<longleftrightarrow> live h a \<and> (\<forall>x\<in>set xs. live h x) \<and> distinct (a # xs) \<and>
     path (nxt h) (chd h a) xs 0 \<and> (xs \<noteq> [] \<longrightarrow> backs (prv h) (hd xs) (tl xs))"

definition kids :: "'d jheap \<Rightarrow> ptr \<Rightarrow> ptr list \<Rightarrow> bool" where
  "kids h a xs \<longleftrightarrow> chain h a xs \<and> tight h xs"

lemma kids_frame:
  assumes "kids h a xs" "only_changed A h h'" "same_data h h'" "a \<notin> A" "set xs \<inter> A = {}"
  shows "kids h' a xs"
proof -
  have eq: "item_at h' x = item_at h x" "live h' x = live h x" if "x \<in> set (a # xs)" for x
    using assms(2-5) that by (auto simp: only_changed_def item_at_def live_def)
  have "nxt h' x = nxt h x" "prv h' x = prv h x" if "x \<in> set xs" for x
    using eq that by (simp_all add: nxt_def prv_def)
  moreover have set_tl: "set (tl xs) \<subseteq> set xs" by (cases xs) auto
  ultimately have "path (nxt h') (chd h a) xs 0 = path (nxt h) (chd h a) xs 0"
    "backs (prv h') (hd xs) (tl xs) = backs (prv h) (hd xs) (tl xs)"
    "xs \<noteq> [] \<Longrightarrow> prv h' (hd xs) = prv h (hd xs)"
    using set_tl by (auto intro!: path_cong backs_cong)
  moreover have "chd h' a = chd h a" using eq by (simp add: chd_def)
  ultimately show ?thesis
    using assms(1) eq by (auto simp: kids_def chain_def tight_def)
qed

section \<open>Reading\<close>

lemma count_loop_run:
  assumes "path (nxt h) p xs 0" "\<forall>x\<in>set xs. live h x" "length xs < fuel"
  shows "count_loop fuel p n h = Some (Inr (n + length xs, h))"
  using assms
proof (induction xs arbitrary: p n fuel)
  case Nil
  then show ?case by (cases fuel) auto
next
  case (Cons x xs)
  then show ?case by (cases fuel) (auto simp: live_def links_fold)
qed

lemma index_loop_run:
  assumes "path (nxt h) p xs 0" "\<forall>x\<in>set xs. live h x" "length xs < fuel"
  shows "index_loop fuel p n h = Some (Inr (if n < length xs then xs ! n else 0, h))"
  using assms
proof (induction xs arbitrary: p n fuel)
  case Nil
  then show ?case by (cases fuel) auto
next
  case (Cons x xs)
  then show ?case by (cases fuel; cases n) (auto simp: live_def links_fold)
qed

lemma last_loop_run:
  assumes "path (nxt h) p xs 0" "\<forall>x\<in>set xs. live h x" "length xs < fuel" "xs \<noteq> []"
  shows "last_loop fuel p h = Some (Inr (last xs, h))"
  using assms
proof (induction xs arbitrary: p fuel)
  case (Cons x xs)
  then show ?case by (cases fuel; cases xs) (auto simp: live_def links_fold)
qed simp

lemma get_array_item_run:
  assumes "chain h a xs" "length xs < fuel"
  shows "get_array_item fuel a n h = Some (Inr (if n < length xs then xs ! n else 0, h))"
  using assms index_loop_run [of h "chd h a" xs fuel n]
  by (auto simp: get_array_item_def chain_def links_fold live_def)

lemma get_array_size_run:
  assumes "chain h a xs" "length xs < fuel"
  shows "cJSON_GetArraySize fuel a h = Some (Inr (of_nat (length xs), h))"
  using assms count_loop_run [of h "chd h a" xs fuel 0]
  by (auto simp: cJSON_GetArraySize_def chain_def links_fold live_def)

section \<open>Appending\<close>

lemma chain_head: "chain h a xs \<Longrightarrow> xs \<noteq> [] \<Longrightarrow> chd h a = hd xs \<and> live h (hd xs)"
  by (cases xs) (auto simp: chain_def)

lemma chain_empty: "chain h a [] \<Longrightarrow> chd h a = 0"
  by (simp add: chain_def)

lemma kids_snoc:
  assumes "chain h a xs" "xs \<noteq> []" "live h item" "item \<notin> set (a # xs)" "nxt h item = 0"
  shows "kids (put_prev (hd xs) item (put_prev item (last xs) (put_next (last xs) item h))) a (xs @ [item])"
proof -
  obtain us l where xs: "xs = us @ [l]" using assms(2) by (cases xs rule: rev_cases) auto
  have "hd xs \<in> set xs" using assms(2) by simp
  moreover have "path (nxt h) (chd h a) us l" "nxt h l = 0" "l \<notin> set us" "l \<noteq> a" using assms(1) xs by (auto simp: chain_def)
  moreover have "hd xs \<notin> set (tl xs)" using assms(1,2) by (cases xs) (auto simp: chain_def)
  ultimately show ?thesis
    using assms xs by (cases us) (auto simp: kids_def chain_def tight_def)
qed

lemma add_item_run:
  assumes "kids h a xs" "live h item" "item \<notin> set (a # xs)" "nxt h item = 0" "length xs < fuel"
  shows "\<exists>h'. add_item_to_array fuel a item h = Some (Inr (True, h')) \<and> kids h' a (xs @ [item]) \<and>
    same_data h h' \<and> only_changed (set (a # item # xs)) h h'"
proof -
  have ch: "chain h a xs" "tight h xs" using assms(1) by (simp_all add: kids_def)
  then have la: "live h a" "a \<noteq> 0" by (simp_all add: chain_def live_def)
  have ni: "item \<noteq> 0" using assms(2) by (simp add: live_def)
  show ?thesis
  proof (cases "xs = []")
    case True
    let ?h = "put_next item 0 (put_prev item item (put_child a item h))"
    have "add_item_to_array fuel a item h = Some (Inr (True, ?h))"
      using True ch(1) la ni assms(2) by (simp add: add_item_to_array_def links_fold chain_empty Let_def)
    moreover have "kids ?h a (xs @ [item])"
      using True ch(1) assms(2,3) by (auto simp: kids_def chain_def tight_def)
    moreover have "same_data h ?h" using la assms(2) by (simp add: same_data_refl)
    ultimately show ?thesis by (auto simp: only_changed_refl)
  next
    case False
    let ?h = "put_prev (hd xs) item (put_prev item (last xs) (put_next (last xs) item h))"
    have lv: "live h (hd xs)" "live h (last xs)" "chd h a = hd xs" "hd xs \<noteq> 0"
      using False ch(1) chain_head [OF ch(1) False] by (auto simp: chain_def live_def)
    have last: "last_loop fuel (hd xs) h = Some (Inr (last xs, h))"
      using last_loop_run [of h "hd xs" xs fuel] ch(1) False lv(3) assms(5) by (simp add: chain_def)
    have run: "andthen (suffix_object (last xs) item) (andthen (set_last a item) (ret True)) h = Some (Inr (True, ?h))"
      using lv la assms(2) by (simp add: suffix_object_def set_last_def links_fold)
    have "add_item_to_array fuel a item h = Some (Inr (True, ?h))"
    proof (cases "prv h (hd xs) = 0")
      case True
      then show ?thesis using run last la ni lv by (simp add: add_item_to_array_def links_fold Let_def)
    next
      case no: False
      then have "prv h (hd xs) = last xs" using ch(2) False by (simp add: tight_def)
      then show ?thesis using run no la ni lv by (simp add: add_item_to_array_def links_fold Let_def)
    qed
    moreover have "kids ?h a (xs @ [item])" using kids_snoc [OF ch(1) False assms(2-4)] .
    moreover have "same_data h ?h" using lv assms(2) by (simp add: same_data_refl)
    moreover have "only_changed (set (a # item # xs)) h ?h" using False by (simp add: only_changed_refl)
    ultimately show ?thesis by blast
  qed
qed

section \<open>Detaching\<close>

text \<open>Detaching keeps the chain; the shortcut stays right unless the last of several children goes
  while the first one points to it.\<close>

lemma detach_run:
  assumes "chain h a (us @ item # vs)"
  shows "\<exists>h'. cJSON_DetachItemViaPointer a item h = Some (Inr (item, h')) \<and> chain h' a (us @ vs) \<and>
    live h' item \<and> nxt h' item = 0 \<and> prv h' item = 0 \<and> same_data h h' \<and>
    (\<forall>x. x \<noteq> item \<longrightarrow> prv h' x = (if vs \<noteq> [] \<and> x = hd vs then prv h item else prv h x)) \<and>
    (\<forall>x. x \<noteq> a \<longrightarrow> chd h' x = chd h x) \<and>
    only_changed (set (a # us @ item # vs)) h h'"
proof -
  have la: "live h a" "a \<noteq> 0" "live h item" "item \<noteq> 0" "a \<noteq> item" using assms by (auto simp: chain_def live_def)
  have dist: "distinct (a # us @ item # vs)" using assms by (simp add: chain_def)
  define h1 where "h1 = (if us = [] then h else put_next (last us) (nxt h item) h)"
  define h2 where "h2 = (if vs = [] then h1 else put_prev (hd vs) (prv h item) h1)"
  define h3 where "h3 = (if us = [] then put_child a (nxt h item) h2 else h2)"
  define h4 where "h4 = put_next item 0 (put_prev item 0 h3)"
  have child: "chd h a = hd (us @ [item])" using assms by (cases us) (auto simp: chain_def)
  have nxt_item: "nxt h item = (if vs = [] then 0 else hd vs)" using assms by (cases vs) (auto simp: chain_def)
  have prv_item: "us \<noteq> [] \<Longrightarrow> prv h item = last us" using assms by (cases us) (auto simp: chain_def)
  have lv: "us \<noteq> [] \<Longrightarrow> live h (last us)" "vs \<noteq> [] \<Longrightarrow> live h (hd vs) \<and> hd vs \<noteq> 0"
    using assms by (auto simp: chain_def live_def)
  have first: "item = chd h a \<longleftrightarrow> us = []" using child dist by (cases us) auto
  have ne: "item \<noteq> last us \<or> us = []" "vs = [] \<or> hd vs \<noteq> item" "us = [] \<or> last us \<noteq> a" "vs = [] \<or> hd vs \<noteq> a"
    using dist by (auto dest: last_in_set hd_in_set)
  have l1: "live h1 x = live h x" "chd h1 = chd h" "nxt h1 item = nxt h item" "prv h1 = prv h" for x
    using lv ne by (auto simp: h1_def)
  have l2: "live h2 x = live h x" "chd h2 = chd h" "nxt h2 = nxt h1" for x
    using lv l1 by (auto simp: h2_def)
  have l3: "live h3 x = live h x" "nxt h3 = nxt h1" "prv h3 = prv h2" for x
    using la l2 by (auto simp: h3_def)
  have run: "cJSON_DetachItemViaPointer a item h = Some (Inr (item, h4))"
  proof -
    have s1: "(if item \<noteq> chd h a then set_next (prv h item) (nxt h item) else ret ()) h = Some (Inr ((), h1))"
      using first prv_item lv by (simp add: h1_def)
    have s2: "(if nxt h item \<noteq> 0 then set_prev (nxt h item) (prv h item) else ret ()) h1 = Some (Inr ((), h2))"
      using nxt_item lv l1 by (auto simp: h2_def)
    have s3: "(if item = chd h a then set_child a (nxt h item) else ret ()) h2 = Some (Inr ((), h3))"
      using first la l2 by (simp add: h3_def)
    have e: "nxt h1 (chd h a) = nxt h (chd h a)" if "item = chd h a" using l1(3) that by simp
    show ?thesis
      unfolding cJSON_DetachItemViaPointer_def
      using la s1 s2 s3 by (simp add: e links_fold l1 l2 l3 h4_def split del: if_split cong: if_cong)
  qed
  have nxt4: "nxt h4 = (nxt h1)(item := 0)" and chd4: "chd h4 a = (if us = [] then nxt h item else chd h a)"
    and prv4: "prv h4 = (prv h2)(item := 0)"
    using l2(2) l3 by (simp_all add: h4_def h3_def)
  have "path (nxt h4) (chd h4 a) (us @ vs) 0"
  proof (cases us rule: rev_cases)
    case Nil
    then show ?thesis using assms dist by (simp add: nxt4 chd4 chain_def h1_def)
  next
    case (snoc us' l)
    then show ?thesis using assms dist by (auto simp: nxt4 chd4 chain_def h1_def)
  qed
  moreover have "backs (prv h4) (hd (us @ vs)) (tl (us @ vs))" if "us @ vs \<noteq> []"
  proof (cases us)
    case Nil
    then show ?thesis using assms dist that by (cases vs) (auto simp: prv4 chain_def h2_def l1)
  next
    case (Cons u us')
    then show ?thesis using assms dist prv_item by (cases vs) (auto simp: prv4 chain_def h2_def l1)
  qed
  ultimately have "chain h4 a (us @ vs)"
    using assms la by (auto simp: chain_def h4_def l3)
  moreover have "only_changed (set (a # us @ item # vs)) h h4"
    by (simp add: h4_def h3_def h2_def h1_def only_changed_refl)
  moreover have "same_data h h4" using lv la l1 l2 l3
    by (simp add: h4_def h3_def h2_def h1_def same_data_refl)
  moreover have "live h4 item" "nxt h4 item = 0" "prv h4 item = 0" using la l3 by (simp_all add: h4_def)
  moreover have "\<forall>x. x \<noteq> item \<longrightarrow> prv h4 x = (if vs \<noteq> [] \<and> x = hd vs then prv h item else prv h x)"
    by (simp add: prv4 h2_def l1)
  moreover have "\<forall>x. x \<noteq> a \<longrightarrow> chd h4 x = chd h x" using l2(2) by (simp add: h4_def h3_def)
  ultimately show ?thesis using run by blast
qed

lemma detach_kids:
  assumes "kids h a (us @ item # vs)"
  shows "\<exists>h'. cJSON_DetachItemViaPointer a item h = Some (Inr (item, h')) \<and> chain h' a (us @ vs) \<and>
    (us = [] \<or> vs \<noteq> [] \<or> prv h (hd us) = 0 \<longrightarrow> kids h' a (us @ vs)) \<and>
    (us \<noteq> [] \<and> vs = [] \<longrightarrow> prv h' (hd us) = prv h (hd us)) \<and>
    live h' item \<and> nxt h' item = 0 \<and> prv h' item = 0 \<and> same_data h h' \<and>
    (\<forall>x. x \<noteq> a \<longrightarrow> chd h' x = chd h x) \<and> only_changed (set (a # us @ item # vs)) h h'"
proof -
  have ch: "chain h a (us @ item # vs)" "tight h (us @ item # vs)" using assms(1) by (simp_all add: kids_def)
  obtain h' where h': "cJSON_DetachItemViaPointer a item h = Some (Inr (item, h'))" "chain h' a (us @ vs)"
    "live h' item" "nxt h' item = 0" "prv h' item = 0" "same_data h h'" "only_changed (set (a # us @ item # vs)) h h'"
    "\<And>x. x \<noteq> item \<Longrightarrow> prv h' x = (if vs \<noteq> [] \<and> x = hd vs then prv h item else prv h x)"
    "\<forall>x. x \<noteq> a \<longrightarrow> chd h' x = chd h x"
    using detach_run [OF ch(1)] by blast
  have dist: "distinct (us @ item # vs)" using ch(1) by (simp add: chain_def)
  have same: "prv h' (hd us) = prv h (hd us)" if "us \<noteq> []"
    using h'(8) [of "hd us"] dist that by (cases us; cases vs) auto
  have "tight h' (us @ vs)" if "us = [] \<or> vs \<noteq> [] \<or> prv h (hd us) = 0"
  proof (cases us)
    case Nil
    then show ?thesis using ch(2) h'(8) [of "hd vs"] dist by (cases vs) (auto simp: tight_def)
  next
    case (Cons u us')
    then show ?thesis using same ch(2) that by (cases vs) (auto simp: tight_def)
  qed
  then show ?thesis using h' same by (auto simp: kids_def)
qed

section \<open>Inserting\<close>

lemma insert_run:
  assumes "kids h a xs" "live h item" "item \<notin> set (a # xs)" "nxt h item = 0" "length xs < fuel"
    "0 \<le> sint (which :: s32)"
  shows "\<exists>h'. cJSON_InsertItemInArray fuel a which item h = Some (Inr ((), h')) \<and>
    kids h' a (take (unat which) xs @ item # drop (unat which) xs) \<and>
    same_data h h' \<and> only_changed (set (a # item # xs)) h h'"
proof (cases "unat which < length xs")
  case False
  then have get: "get_array_item fuel a (unat which) h = Some (Inr (0, h))"
    using get_array_item_run [of h a xs fuel] assms(1,5) by (simp add: kids_def)
  obtain h' where "add_item_to_array fuel a item h = Some (Inr (True, h'))" "kids h' a (xs @ [item])"
    "same_data h h'" "only_changed (set (a # item # xs)) h h'"
    using add_item_run [OF assms(1-5)] by blast
  then show ?thesis using get False assms(6) by (auto simp: cJSON_InsertItemInArray_def)
next
  case True
  define us y vs where "us = take (unat which) xs" and "y = xs ! unat which" and "vs = drop (Suc (unat which)) xs"
  have xs: "xs = us @ y # vs" using True by (simp add: us_def y_def vs_def id_take_nth_drop)
  have get: "get_array_item fuel a (unat which) h = Some (Inr (y, h))"
    using get_array_item_run [of h a xs fuel] assms(1,5) True by (simp add: kids_def y_def)
  have ch: "chain h a xs" "tight h xs" using assms(1) by (simp_all add: kids_def)
  have lv: "live h a" "live h y" "y \<noteq> 0" "us \<noteq> [] \<Longrightarrow> live h (last us)" using ch(1) xs by (auto simp: chain_def live_def)
  have dist: "distinct (a # us @ y # vs)" "item \<notin> set (a # us @ y # vs)" using ch(1) assms(3) xs by (auto simp: chain_def)
  have first: "y = chd h a \<longleftrightarrow> us = []" using ch(1) xs dist by (cases us) (auto simp: chain_def)
  have prv_y: "us \<noteq> [] \<Longrightarrow> prv h y = last us" using ch(1) xs by (cases us) (auto simp: chain_def)
  let ?h2 = "put_prev y item (put_prev item (prv h y) (put_next item y h))"
  define h' where "h' = (if us = [] then put_child a item ?h2 else put_next (last us) item ?h2)"
  have "item \<noteq> y" using dist by auto
  then have run: "cJSON_InsertItemInArray fuel a which item h = Some (Inr ((), h'))"
    using get assms(2,6) lv first prv_y by (simp add: cJSON_InsertItemInArray_def links_fold h'_def)
  have "chain h' a (us @ item # y # vs)"
  proof (cases us rule: rev_cases)
    case Nil
    then show ?thesis using ch(1) dist xs lv assms(2) by (auto simp: chain_def h'_def)
  next
    case (snoc us' l)
    then show ?thesis using ch(1) dist xs lv assms(2) prv_y
      by (cases us') (auto simp: chain_def h'_def)
  qed
  moreover have "tight h' (us @ item # y # vs)"
    using ch(2) xs dist by (cases us) (auto simp: tight_def h'_def)
  moreover have "same_data h h'" "only_changed (set (a # item # xs)) h h'"
    using lv assms(2) xs by (auto simp: h'_def same_data_refl only_changed_refl)
  moreover have "take (unat which) xs @ item # drop (unat which) xs = us @ item # y # vs"
    using True by (simp add: us_def y_def vs_def Cons_nth_drop_Suc)
  ultimately show ?thesis using run by (auto simp: kids_def)
qed

section \<open>Searching by name\<close>

text \<open>Whether a child is found under a name, and the child that is: the first in the list. A child
  without a name ends a case sensitive search.\<close>

definition name_of :: "'d jheap \<Rightarrow> ptr \<Rightarrow> bytes option" where
  "name_of h x = (if i_string (item_at h x) = 0 then None else map_option cstr (h_str h (i_string (item_at h x))))"

definition matches :: "bool \<Rightarrow> bytes \<Rightarrow> bytes option \<Rightarrow> bool" where
  "matches case_sensitive name n =
     (case n of None \<Rightarrow> False | Some s \<Rightarrow> if case_sensitive then name = s else ci_equal name s)"

fun lookup :: "bool \<Rightarrow> bytes \<Rightarrow> (ptr \<Rightarrow> bytes option) \<Rightarrow> ptr list \<Rightarrow> ptr" where
  "lookup cs name names [] = 0"
| "lookup cs name names (x # xs) =
     (if matches cs name (names x) then x
      else if cs \<and> names x = None then 0 else lookup cs name names xs)"

definition names_live :: "'d jheap \<Rightarrow> ptr list \<Rightarrow> bool" where
  "names_live h xs \<longleftrightarrow> (\<forall>x\<in>set xs. i_string (item_at h x) \<noteq> 0 \<longrightarrow> h_str h (i_string (item_at h x)) \<noteq> None)"

lemma str_at_run [simp]: "p \<noteq> 0 \<Longrightarrow> h_str h p = Some s \<Longrightarrow> str_at p h = Some (Inr (cstr s, h))"
  by (simp add: str_at_def)

lemma key_loop_run:
  assumes "path (nxt h) p xs 0" "\<forall>x\<in>set xs. live h x" "names_live h xs" "length xs < fuel"
  shows "key_loop fuel cs name p h = Some (Inr (lookup cs name (name_of h) xs, h))"
  using assms
proof (induction xs arbitrary: p fuel)
  case Nil
  then show ?case by (cases fuel) auto
next
  case (Cons x xs)
  obtain f where f: "fuel = Suc f" using Cons.prems by (cases fuel) auto
  have x: "p = x" "live h x" "x \<noteq> 0" using Cons.prems by (auto simp: live_def)
  have ih: "key_loop f cs name (nxt h x) h = Some (Inr (lookup cs name (name_of h) xs, h))"
    using Cons f by (auto simp: names_live_def)
  show ?case
  proof (cases "i_string (item_at h x) = 0")
    case True
    then have "name_of h x = None" by (simp add: name_of_def)
    then show ?thesis using f x ih True by (cases cs) (simp_all add: links_fold matches_def)
  next
    case False
    then obtain s where s: "h_str h (i_string (item_at h x)) = Some s" using Cons.prems(3) by (auto simp: names_live_def)
    then have "name_of h x = Some (cstr s)" using False by (simp add: name_of_def)
    then show ?thesis using f x ih False s by (simp add: links_fold matches_def)
  qed
qed

lemma get_object_item_run:
  assumes "chain h a xs" "names_live h xs" "length xs < fuel" "name \<noteq> 0" "h_str h name = Some s"
  shows "get_object_item fuel a name cs h = Some (Inr (lookup cs (cstr s) (name_of h) xs, h))"
  using assms key_loop_run [of h "chd h a" xs fuel cs "cstr s"]
  by (auto simp: get_object_item_def chain_def links_fold live_def)

lemma lookup_eq_find:
  assumes "cs \<longrightarrow> (\<forall>x\<in>set xs. names x \<noteq> None)"
  shows "lookup cs name names xs = (case find (\<lambda>x. matches cs name (names x)) xs of None \<Rightarrow> 0 | Some x \<Rightarrow> x)"
  using assms by (induction xs) auto

section \<open>Building an array\<close>

text \<open>The same operation for each of several items, one after the other.\<close>

primrec run_all :: "('x \<Rightarrow> 's \<Rightarrow> (unit \<times> 's) result option) \<Rightarrow> 'x list \<Rightarrow> 's \<Rightarrow> (unit \<times> 's) result option" where
  "run_all f [] s = Some (Inr ((), s))"
| "run_all f (x # xs) s = (case f x s of Some (Inr (u, s')) \<Rightarrow> run_all f xs s' | r \<Rightarrow> r)"

text \<open>What a client of an array relies on: \<open>linked\<close> says which children the array has, \<open>loose\<close> that
  an item can still be added. The contract gives what a sequence of additions builds.\<close>

locale item_array =
  fixes linked :: "'s \<Rightarrow> ptr list \<Rightarrow> bool" and loose :: "'s \<Rightarrow> ptr \<Rightarrow> bool"
    and add :: "nat \<Rightarrow> ptr \<Rightarrow> 's \<Rightarrow> (unit \<times> 's) result option"
    and get :: "nat \<Rightarrow> nat \<Rightarrow> 's \<Rightarrow> (ptr \<times> 's) result option"
  assumes add_law: "linked s xs \<Longrightarrow> loose s x \<Longrightarrow> x \<notin> set xs \<Longrightarrow> length xs < fuel \<Longrightarrow>
      \<exists>s'. add fuel x s = Some (Inr ((), s')) \<and> linked s' (xs @ [x]) \<and> (\<forall>y. loose s y \<and> y \<noteq> x \<and> y \<notin> set xs \<longrightarrow> loose s' y)"
    and get_law: "linked s xs \<Longrightarrow> length xs < fuel \<Longrightarrow>
      get fuel n s = Some (Inr (if n < length xs then xs ! n else 0, s))"
begin

lemma add_all_run:
  assumes "linked s xs" "\<forall>y\<in>set ys. loose s y" "distinct (xs @ ys)" "length (xs @ ys) \<le> fuel"
  shows "\<exists>s'. run_all (add fuel) ys s = Some (Inr ((), s')) \<and> linked s' (xs @ ys)"
  using assms
proof (induction ys arbitrary: s xs)
  case (Cons y ys)
  then obtain s' where s': "add fuel y s = Some (Inr ((), s'))" "linked s' (xs @ [y])"
    "\<forall>z. loose s z \<and> z \<noteq> y \<and> z \<notin> set xs \<longrightarrow> loose s' z"
    using add_law [of s xs y fuel] by auto
  have "\<forall>z\<in>set ys. loose s' z" using s'(3) Cons.prems(2,3) by auto
  then show ?case using Cons.IH [OF s'(2)] Cons.prems(3,4) s'(1) by auto
qed simp

lemma get_after_add_all:
  assumes "linked s xs" "\<forall>y\<in>set ys. loose s y" "distinct (xs @ ys)" "length (xs @ ys) < fuel"
  shows "\<exists>s'. run_all (add fuel) ys s = Some (Inr ((), s')) \<and> linked s' (xs @ ys) \<and>
    (\<forall>n. get fuel n s' = Some (Inr (if n < length (xs @ ys) then (xs @ ys) ! n else 0, s')))"
proof -
  obtain s' where "run_all (add fuel) ys s = Some (Inr ((), s'))" "linked s' (xs @ ys)"
    using add_all_run [OF assms(1-3), of fuel] assms(4) by auto
  moreover from this(2) have "get fuel n s' = Some (Inr (if n < length (xs @ ys) then (xs @ ys) ! n else 0, s'))" for n
    using get_law assms(4) by blast
  ultimately show ?thesis by blast
qed

end

text \<open>An item that is not linked into the array.\<close>

definition detached :: "ptr \<Rightarrow> 'd jheap \<Rightarrow> ptr \<Rightarrow> bool" where
  "detached a h x \<longleftrightarrow> live h x \<and> x \<noteq> a \<and> nxt h x = 0"

interpretation child_array: item_array "\<lambda>h. kids h a" "detached a"
  "\<lambda>fuel. cJSON_AddItemToArray fuel a" "\<lambda>fuel. get_array_item fuel a" for a
proof unfold_locales
  fix h :: "'d jheap" and xs x fuel n
  assume k: "kids h a xs" and f: "length xs < fuel"
  show "get_array_item fuel a n h = Some (Inr (if n < length xs then xs ! n else 0, h))"
    using get_array_item_run [of h a xs fuel n] k f by (simp add: kids_def)
  assume d: "detached a h x" "x \<notin> set xs"
  obtain h' where h': "add_item_to_array fuel a x h = Some (Inr (True, h'))" "kids h' a (xs @ [x])"
    "same_data h h'" "only_changed (set (a # x # xs)) h h'"
    using add_item_run [OF k, of x fuel] d f by (auto simp: detached_def)
  have "detached a h' y" if "detached a h y" "y \<noteq> x" "y \<notin> set xs" for y
    using that h'(3,4) by (auto simp: detached_def same_data_def only_changed_def nxt_def item_at_def)
  with h' show "\<exists>h'. cJSON_AddItemToArray fuel a x h = Some (Inr ((), h')) \<and> kids h' a (xs @ [x]) \<and>
      (\<forall>y. detached a h y \<and> y \<noteq> x \<and> y \<notin> set xs \<longrightarrow> detached a h' y)"
    by (auto simp: cJSON_AddItemToArray_def)
qed

section \<open>Properties\<close>

text \<open>A small heap for the examples: the array at 1 has the children 2 and 3, named \<open>A\<close> and \<open>b\<close>;
  the item at 4 is on its own.\<close>

definition demo_item :: "ptr \<Rightarrow> ptr \<Rightarrow> ptr \<Rightarrow> u32 \<Rightarrow> ptr \<Rightarrow> int citem" where
  "demo_item next_item prev child t name = \<lparr>i_next = next_item, i_prev = prev, i_child = child, i_type = t,
     i_valuestring = 0, i_valueint = 0, i_valuedouble = 0, i_string = name\<rparr>"

definition demo_heap :: "int jheap" where
  "demo_heap = \<lparr>h_item = [1 \<mapsto> demo_item 0 0 2 cJSON_Array 0, 2 \<mapsto> demo_item 3 3 0 cJSON_NULL 5,
       3 \<mapsto> demo_item 0 2 0 cJSON_True 6, 4 \<mapsto> demo_item 0 0 0 cJSON_False 0],
     h_str = [5 \<mapsto> [65, 0], 6 \<mapsto> [98, 0], 7 \<mapsto> [97, 0]], h_fresh = 8, h_mem = 3\<rparr>"

lemmas demo_simps = kids_def chain_def tight_def live_def item_at_def nxt_def prv_def chd_def
  demo_heap_def demo_item_def

lemma demo_kids: "kids demo_heap 1 [2, 3]"
  by (simp add: demo_simps)

text \<open>C13. Adding items one after the other with \<open>cJSON_AddItemToArray\<close> gives an array
  with these children in this order behind those it had, with consistent links, and
  \<open>cJSON_GetArraySize\<close> and \<open>get_array_item\<close> afterwards return their number and each of them, the null
  pointer for an index beyond the end.\<close>

theorem array_of_added_items:
  assumes "kids h a xs" "\<forall>y\<in>set ys. detached a h y" "distinct (xs @ ys)" "length (xs @ ys) < fuel"
  shows "\<exists>h'. run_all (cJSON_AddItemToArray fuel a) ys h = Some (Inr ((), h')) \<and> kids h' a (xs @ ys) \<and>
    cJSON_GetArraySize fuel a h' = Some (Inr (of_nat (length (xs @ ys)), h')) \<and>
    (\<forall>n. get_array_item fuel a n h' = Some (Inr (if n < length (xs @ ys) then (xs @ ys) ! n else 0, h')))"
proof -
  obtain h' where h': "run_all (cJSON_AddItemToArray fuel a) ys h = Some (Inr ((), h'))" "kids h' a (xs @ ys)"
    "\<forall>n. get_array_item fuel a n h' = Some (Inr (if n < length (xs @ ys) then (xs @ ys) ! n else 0, h'))"
    using child_array.get_after_add_all [OF assms] by blast
  moreover have "cJSON_GetArraySize fuel a h' = Some (Inr (of_nat (length (xs @ ys)), h'))"
    using h'(2) assms(4) by (intro get_array_size_run) (simp_all add: kids_def)
  ultimately show ?thesis by blast
qed

theorem array_of_added_items_witness:
  "\<exists>h'. run_all (cJSON_AddItemToArray 9 1) [4] demo_heap = Some (Inr ((), h')) \<and> kids h' 1 [2, 3, 4] \<and>
     get_array_item 9 1 2 h' = Some (Inr (4, h'))"
proof -
  have "\<forall>y\<in>set [4]. detached 1 demo_heap y" by (simp add: detached_def demo_simps)
  from array_of_added_items [OF demo_kids this, of 9] show ?thesis
    by (auto dest!: spec [of _ "2 :: nat"])
qed

text \<open>C24. \<open>cJSON_InsertItemInArray\<close> puts the item in front of the one with the index, at the end when
  there is none, and ignores a negative index; \<open>cJSON_DetachItemViaPointer\<close> takes an item out, clears
  its links and keeps the order of the others. No other item is
  touched. After a detached last child the shortcut from the first child to the last one is stale when there was one.\<close>

theorem insert_and_detach:
  assumes "kids h a (us @ x # vs)" "detached a h item" "item \<notin> set (us @ x # vs)" "length (us @ x # vs) < fuel"
  shows "(\<exists>h'. cJSON_InsertItemInArray fuel a which item h = Some (Inr ((), h')) \<and>
      (if sint (which :: s32) < 0 then h' = h
       else kids h' a (take (unat which) (us @ x # vs) @ item # drop (unat which) (us @ x # vs)) \<and>
         same_data h h' \<and> only_changed (set (a # item # us @ x # vs)) h h')) \<and>
     (\<exists>h'. cJSON_DetachItemViaPointer a x h = Some (Inr (x, h')) \<and> chain h' a (us @ vs) \<and>
      (us = [] \<or> vs \<noteq> [] \<or> prv h (hd us) = 0 \<longrightarrow> kids h' a (us @ vs)) \<and>
      (us \<noteq> [] \<and> vs = [] \<longrightarrow> prv h' (hd us) = prv h (hd us)) \<and>
      nxt h' x = 0 \<and> prv h' x = 0 \<and> same_data h h' \<and> only_changed (set (a # us @ x # vs)) h h')"
proof
  show "\<exists>h'. cJSON_InsertItemInArray fuel a which item h = Some (Inr ((), h')) \<and>
      (if sint (which :: s32) < 0 then h' = h
       else kids h' a (take (unat which) (us @ x # vs) @ item # drop (unat which) (us @ x # vs)) \<and>
         same_data h h' \<and> only_changed (set (a # item # us @ x # vs)) h h')"
  proof (cases "sint which < 0")
    case True
    then show ?thesis by (simp add: cJSON_InsertItemInArray_def)
  next
    case False
    then show ?thesis using insert_run [OF assms(1), of item fuel which] assms by (simp add: detached_def)
  qed
  show "\<exists>h'. cJSON_DetachItemViaPointer a x h = Some (Inr (x, h')) \<and> chain h' a (us @ vs) \<and>
      (us = [] \<or> vs \<noteq> [] \<or> prv h (hd us) = 0 \<longrightarrow> kids h' a (us @ vs)) \<and>
      (us \<noteq> [] \<and> vs = [] \<longrightarrow> prv h' (hd us) = prv h (hd us)) \<and>
      nxt h' x = 0 \<and> prv h' x = 0 \<and> same_data h h' \<and> only_changed (set (a # us @ x # vs)) h h'"
    using detach_kids [OF assms(1)] by (elim exE conjE) (intro exI conjI; assumption)
qed

theorem insert_and_detach_witness:
  "(\<exists>h'. cJSON_InsertItemInArray 9 1 1 4 demo_heap = Some (Inr ((), h')) \<and> kids h' 1 [2, 4, 3]) \<and>
   (\<exists>h'. cJSON_DetachItemViaPointer 1 2 demo_heap = Some (Inr (2, h')) \<and> kids h' 1 [3])"
proof -
  have d: "detached 1 demo_heap 4" by (simp add: detached_def demo_simps)
  have k: "kids demo_heap 1 ([] @ 2 # [3])" using demo_kids by simp
  show ?thesis
    using insert_and_detach [OF k d, of 9 1] by auto
qed

text \<open>\<open>cJSON_GetObjectItem\<close> returns the first member whose name equals the key up to the case of
  letters, \<open>cJSON_GetObjectItemCaseSensitive\<close> the first with exactly this name, and both the null
  pointer when there is none; the case-sensitive search takes all members to have names.\<close>

theorem object_lookup:
  assumes "chain h a xs" "names_live h xs" "length xs < fuel" "name \<noteq> 0" "h_str h name = Some s"
  shows "(cJSON_GetObjectItem fuel a name h =
      Some (Inr (case find (\<lambda>x. matches False (cstr s) (name_of h x)) xs of None \<Rightarrow> 0 | Some x \<Rightarrow> x, h))) \<and>
     ((\<forall>x\<in>set xs. name_of h x \<noteq> None) \<longrightarrow> cJSON_GetObjectItemCaseSensitive fuel a name h =
      Some (Inr (case find (\<lambda>x. matches True (cstr s) (name_of h x)) xs of None \<Rightarrow> 0 | Some x \<Rightarrow> x, h)))"
  using get_object_item_run [OF assms, of False] get_object_item_run [OF assms, of True]
    lookup_eq_find [of False xs "name_of h"] lookup_eq_find [of True xs "name_of h"]
  by (simp add: cJSON_GetObjectItem_def cJSON_GetObjectItemCaseSensitive_def)

text \<open>The key \<open>a\<close> finds the member \<open>A\<close> only when the case is ignored.\<close>

theorem object_lookup_witness:
  "cJSON_GetObjectItem 9 1 7 demo_heap = Some (Inr (2, demo_heap)) \<and>
   cJSON_GetObjectItemCaseSensitive 9 1 7 demo_heap = Some (Inr (0, demo_heap))"
proof -
  have c: "chain demo_heap 1 [2, 3]" using demo_kids by (simp add: kids_def)
  have n: "names_live demo_heap [2, 3]" by (simp add: names_live_def demo_simps)
  have s: "h_str demo_heap 7 = Some [97, 0]" by (simp add: demo_simps)
  show ?thesis
    using object_lookup [OF c n _ _ s, of 9] by (simp add: name_of_def matches_def cstr_def tolower_def demo_simps)
qed

end
