(* ===== verification/Json_Forest.thy ===== *)
theory Json_Forest
  imports Json_Links
begin

text \<open>
  Items as trees in the heap. A \<open>shape\<close> is the address of an item with the shapes of the children it
  owns; \<open>forest\<close> says that a chain of siblings in the heap has these shapes. \<open>cJSON_Delete\<close> frees exactly
  the items and strings the forest owns, each of them once.
\<close>

datatype shape = Shape (sh_ptr: ptr) (sh_kids: "shape list")

fun items :: "shape list \<Rightarrow> ptr list" where
  "items [] = []"
| "items (Shape p ks # ss) = p # items ks @ items ss"

text \<open>The strings an item owns.\<close>

definition own_strings :: "'d citem \<Rightarrow> ptr list" where
  "own_strings i =
     (if \<not> is_reference i \<and> i_valuestring i \<noteq> 0 then [i_valuestring i] else []) @
     (if \<not> is_const_key i \<and> i_string i \<noteq> 0 then [i_string i] else [])"

fun strings :: "'d jheap \<Rightarrow> shape list \<Rightarrow> ptr list" where
  "strings h [] = []"
| "strings h (Shape p ks # ss) = own_strings (item_at h p) @ strings h ks @ strings h ss"

fun forest :: "'d jheap \<Rightarrow> ptr \<Rightarrow> shape list \<Rightarrow> bool" where
  "forest h p [] \<longleftrightarrow> p = 0"
| "forest h p (Shape q ks # ss) \<longleftrightarrow> p = q \<and> live h q \<and>
     (if is_reference (item_at h q) then ks = [] else forest h (chd h q) ks) \<and>
     forest h (nxt h q) ss"

definition owned :: "'d jheap \<Rightarrow> ptr \<Rightarrow> shape list \<Rightarrow> bool" where
  "owned h p ss \<longleftrightarrow> forest h p ss \<and> distinct (items ss) \<and> distinct (strings h ss) \<and>
     (\<forall>s\<in>set (strings h ss). h_str h s \<noteq> None)"

definition erase :: "ptr set \<Rightarrow> ptr set \<Rightarrow> 'd jheap \<Rightarrow> 'd jheap" where
  "erase A S h = h\<lparr>h_item := (\<lambda>p. if p \<in> A then None else h_item h p),
                   h_str := (\<lambda>s. if s \<in> S then None else h_str h s)\<rparr>"

lemma erase_erase: "erase A S (erase B T h) = erase (A \<union> B) (S \<union> T) h"
  by (auto simp: erase_def fun_eq_iff)

lemma erase_empty [simp]: "erase {} {} h = h"
  by (simp add: erase_def)

lemma erase_item [simp]:
  "p \<notin> A \<Longrightarrow> item_at (erase A S h) p = item_at h p" "p \<notin> A \<Longrightarrow> live (erase A S h) p = live h p"
  "p \<notin> A \<Longrightarrow> nxt (erase A S h) p = nxt h p" "p \<notin> A \<Longrightarrow> chd (erase A S h) p = chd h p"
  by (simp_all add: erase_def item_at_def live_def nxt_def chd_def)

lemma erase_str [simp]: "h_str (erase A S h) s = (if s \<in> S then None else h_str h s)"
  by (simp add: erase_def)

lemma strings_erase: "set (items ss) \<inter> A = {} \<Longrightarrow> strings (erase A S h) ss = strings h ss"
  by (induction h ss rule: strings.induct) (auto simp: Int_Un_distrib2)

lemma forest_erase: "set (items ss) \<inter> A = {} \<Longrightarrow> forest (erase A S h) p ss = forest h p ss"
  by (induction h p ss rule: forest.induct) (auto simp: Int_Un_distrib2)

lemma owned_erase:
  assumes "owned h p ss" "set (items ss) \<inter> A = {}" "set (strings h ss) \<inter> S = {}"
  shows "owned (erase A S h) p ss"
  using assms by (auto simp: owned_def forest_erase strings_erase)

lemma owned_Cons:
  assumes "owned h p (Shape q ks # ss)"
  shows "p = q" "live h q" "ks \<noteq> [] \<Longrightarrow> \<not> is_reference (item_at h q)"
    "\<not> is_reference (item_at h q) \<Longrightarrow> owned h (chd h q) ks" "owned h (nxt h q) ss"
    "distinct (q # items ks @ items ss)" "distinct (own_strings (item_at h q) @ strings h ks @ strings h ss)"
    "\<forall>s\<in>set (own_strings (item_at h q)). h_str h s \<noteq> None"
  using assms by (auto simp: owned_def split: if_splits)

lemma free_str_run: "s \<noteq> 0 \<Longrightarrow> h_str h s \<noteq> None \<Longrightarrow> free_str s h = Some (Inr ((), erase {} {s} h))"
  by (auto simp: free_str_def erase_def fun_eq_iff intro!: jheap.equality)

lemma free_item_run: "live h p \<Longrightarrow> free_item p h = Some (Inr ((), erase {p} {} h))"
  by (auto simp: free_item_def live_def erase_def fun_eq_iff intro!: jheap.equality)

text \<open>The strings of one item.\<close>

definition free_strings :: "'d citem \<Rightarrow> ('d, 'a) hop \<Rightarrow> ('d, 'a) hop" where
  "free_strings i m =
     andthen (if \<not> is_reference i \<and> i_valuestring i \<noteq> 0 then free_str (i_valuestring i) else ret ())
    (andthen (if \<not> is_const_key i \<and> i_string i \<noteq> 0 then free_str (i_string i) else ret ()) m)"

lemma free_strings_run:
  assumes "distinct (own_strings i)" "\<forall>s\<in>set (own_strings i). h_str h s \<noteq> None"
  shows "free_strings i m h = m (erase {} (set (own_strings i)) h)"
  using assms free_str_run [of "i_valuestring i" h] free_str_run [of "i_string i" "erase {} {i_valuestring i} h"]
    free_str_run [of "i_string i" h]
  by (auto simp: free_strings_def own_strings_def erase_erase insert_commute)

lemma delete_run:
  assumes "owned h p ss" "length (items ss) < fuel"
  shows "cJSON_Delete fuel p h = Some (Inr ((), erase (set (items ss)) (set (strings h ss)) h))"
  using assms
proof (induction fuel arbitrary: h p ss)
  case (Suc fuel)
  show ?case
  proof (cases ss)
    case Nil
    then show ?thesis using Suc.prems by (simp add: owned_def)
  next
    case (Cons s ss')
    obtain q ks where s: "s = Shape q ks" by (cases s)
    note o = owned_Cons [OF Suc.prems(1) [unfolded Cons s]]
    let ?i = "item_at h q"
    let ?h1 = "erase (set (items ks)) (set (strings h ks)) h"
    have child: "(if \<not> is_reference ?i \<and> i_child ?i \<noteq> 0 then cJSON_Delete fuel (i_child ?i) else ret ()) h =
        Some (Inr ((), ?h1))"
    proof (cases "ks = []")
      case True
      then show ?thesis using o(4) by (auto simp: links_fold owned_def)
    next
      case False
      then have "owned h (chd h q) ks" "\<not> is_reference ?i" using o(3,4) by auto
      moreover from this False have "chd h q \<noteq> 0" by (cases ks; cases "hd ks") (auto simp: owned_def live_def)
      ultimately show ?thesis using Suc.IH [of h "chd h q" ks] Suc.prems(2) Cons s by (simp add: links_fold)
    qed
    let ?h2 = "erase {} (set (own_strings ?i)) ?h1"
    let ?h3 = "erase {q} {} ?h2"
    have "\<forall>s\<in>set (own_strings ?i). h_str ?h1 s \<noteq> None" using o(7,8) by (auto simp: erase_def)
    then have str: "free_strings ?i m ?h1 = m ?h2" for m :: "('a, unit) hop"
      using o(7) by (intro free_strings_run) auto
    have it: "free_item q ?h2 = Some (Inr ((), ?h3))" using o(2,6) by (intro free_item_run) auto
    have h3: "?h3 = erase ({q} \<union> set (items ks)) (set (own_strings ?i) \<union> set (strings h ks)) h"
      by (simp add: erase_erase)
    have "owned ?h3 (nxt h q) ss'" unfolding h3 using o(5,6,7) by (intro owned_erase) auto
    then have "cJSON_Delete fuel (nxt h q) ?h3 =
        Some (Inr ((), erase (set (items ss')) (set (strings ?h3 ss')) ?h3))"
      using Suc.IH Suc.prems(2) Cons s by simp
    moreover have "strings ?h3 ss' = strings h ss'" unfolding h3 using o(6) by (intro strings_erase) auto
    ultimately have rest: "cJSON_Delete fuel (nxt h q) ?h3 =
        Some (Inr ((), erase (set (items ss)) (set (strings h ss)) h))"
      unfolding Cons s h3 by (simp add: erase_erase Un_ac)
    have "cJSON_Delete (Suc fuel) p h =
        bnd (deref q) (\<lambda>i. andthen (if \<not> is_reference i \<and> i_child i \<noteq> 0 then cJSON_Delete fuel (i_child i) else ret ())
          (free_strings i (andthen (free_item q) (cJSON_Delete fuel (i_next i))))) h"
      using o(1,2) by (simp add: free_strings_def live_def)
    also have "\<dots> = andthen (free_item q) (cJSON_Delete fuel (nxt h q)) ?h2"
      using o(2) child str by (simp add: links_fold split del: if_split)
    also have "\<dots> = Some (Inr ((), erase (set (items ss)) (set (strings h ss)) h))"
      using it rest by simp
    finally show ?thesis .
  qed
qed simp

section \<open>Changes elsewhere\<close>

lemma same_data_item:
  assumes "same_data h h'"
  shows "is_reference (item_at h' p) = is_reference (item_at h p)" "own_strings (item_at h' p) = own_strings (item_at h p)"
    "live h' p = live h p" "h_str h' = h_str h"
  using assms by (simp_all add: same_data_def is_reference_def own_strings_def is_const_key_def)

lemma strings_same_data: "same_data h h' \<Longrightarrow> strings h' ss = strings h ss"
  by (induction h ss rule: strings.induct) (auto simp: same_data_item)

lemma forest_frame:
  assumes "same_data h h'" "only_changed A h h'" "set (items ss) \<inter> A = {}"
  shows "forest h' p ss = forest h p ss"
  using assms
proof (induction h p ss rule: forest.induct)
  case (2 h p q ks ss)
  have "item_at h' q = item_at h q" using 2 by (simp add: only_changed_def item_at_def)
  then show ?case using 2 same_data_item [OF 2(3)] by (auto simp: nxt_def chd_def Int_Un_distrib2)
qed simp

text \<open>An item with its subtree, taken out of its list.\<close>

lemma owned_single_frame:
  assumes "owned h p [Shape p ks]" "nxt h' p = 0" "chd h' p = chd h p" "same_data h h'" "only_changed A h h'"
    "set (items ks) \<inter> A = {}"
  shows "owned h' p [Shape p ks]"
  using assms same_data_item [OF assms(4)] strings_same_data [OF assms(4)]
    forest_frame [OF assms(4-6), of "chd h p"]
  by (auto simp: owned_def split: if_splits)

section \<open>Deleting from an array\<close>

text \<open>\<open>x\<close> without its siblings owns its subtree and its strings.\<close>

definition owns :: "'d jheap \<Rightarrow> ptr \<Rightarrow> shape list \<Rightarrow> bool" where
  "owns h x ks \<longleftrightarrow> live h x \<and> (if is_reference (item_at h x) then ks = [] else forest h (chd h x) ks) \<and>
     distinct (x # items ks) \<and> distinct (strings h [Shape x ks]) \<and> (\<forall>s\<in>set (strings h [Shape x ks]). h_str h s \<noteq> None)"

lemma owned_single: "owned h x [Shape x ks] \<longleftrightarrow> owns h x ks \<and> nxt h x = 0"
  by (auto simp: owned_def owns_def)

lemma owns_frame:
  assumes "owns h x ks" "same_data h h'" "only_changed A h h'" "set (items ks) \<inter> A = {}" "chd h' x = chd h x"
  shows "owns h' x ks"
  using assms same_data_item [OF assms(2)] strings_same_data [OF assms(2)] forest_frame [OF assms(2-4), of "chd h x"]
  by (auto simp: owns_def split: if_splits)

lemma delete_owns:
  assumes "owns h x ks" "nxt h x = 0" "length (items ks) + 1 < fuel"
  shows "cJSON_Delete fuel x h =
    Some (Inr ((), erase (insert x (set (items ks))) (set (strings h [Shape x ks])) h))"
  using delete_run [of h x "[Shape x ks]" fuel] assms by (simp add: owned_single)

lemma chain_erase:
  assumes "chain h a xs" "A \<inter> set (a # xs) = {}"
  shows "chain (erase A S h) a xs"
proof -
  have eq: "item_at (erase A S h) x = item_at h x" "live (erase A S h) x = live h x" if "x \<in> set (a # xs)" for x
  proof -
    have "x \<notin> A" using assms(2) that by blast
    then show "item_at (erase A S h) x = item_at h x" "live (erase A S h) x = live h x" by simp_all
  qed
  have "nxt (erase A S h) x = nxt h x" "prv (erase A S h) x = prv h x" if "x \<in> set xs" for x
    using eq that by (simp_all add: nxt_def prv_def)
  moreover have tl: "set (tl xs) \<subseteq> set xs" by (cases xs) auto
  ultimately have "path (nxt (erase A S h)) (chd h a) xs 0 = path (nxt h) (chd h a) xs 0"
    "backs (prv (erase A S h)) (hd xs) (tl xs) = backs (prv h) (hd xs) (tl xs)"
    using tl by (auto intro!: path_cong backs_cong)
  moreover have "chd (erase A S h) a = chd h a" using eq by (simp add: chd_def)
  ultimately show ?thesis using assms(1) eq by (auto simp: chain_def)
qed

lemma tight_erase: "tight h xs \<Longrightarrow> A \<inter> set xs = {} \<Longrightarrow> tight (erase A S h) xs"
  by (cases xs) (auto simp: tight_def prv_def)

lemma delete_item_run:
  assumes "kids h a (us @ x # vs)" "length us = unat which" "0 \<le> sint (which :: s32)" "owns h x ks"
    "set (items ks) \<inter> set (a # us @ x # vs) = {}" "length (us @ x # vs) < fuel" "length (items ks) + 1 < fuel"
  shows "\<exists>h'. cJSON_DeleteItemFromArray fuel a which h = Some (Inr ((), h')) \<and> chain h' a (us @ vs) \<and>
    (us = [] \<or> vs \<noteq> [] \<or> prv h (hd us) = 0 \<longrightarrow> kids h' a (us @ vs)) \<and>
    (us \<noteq> [] \<and> vs = [] \<longrightarrow> prv h' (hd us) = prv h (hd us)) \<and>
    only_changed (set (a # us @ x # vs) \<union> set (items ks)) h h' \<and>
    (\<forall>p\<in>insert x (set (items ks)). h_item h' p = None) \<and>
    h_str h' = (\<lambda>s. if s \<in> set (strings h [Shape x ks]) then None else h_str h s)"
proof -
  have ch: "chain h a (us @ x # vs)" using assms(1) by (simp add: kids_def)
  have get: "get_array_item fuel a (unat which) h = Some (Inr (x, h))"
    using get_array_item_run [OF ch assms(6), of "unat which"] assms(2) by (simp add: nth_append)
  have xa: "x \<noteq> a" using ch by (auto simp: chain_def)
  obtain h1 where h1: "cJSON_DetachItemViaPointer a x h = Some (Inr (x, h1))" "chain h1 a (us @ vs)"
    "us = [] \<or> vs \<noteq> [] \<or> prv h (hd us) = 0 \<longrightarrow> kids h1 a (us @ vs)"
    "us \<noteq> [] \<and> vs = [] \<longrightarrow> prv h1 (hd us) = prv h (hd us)"
    "nxt h1 x = 0" "same_data h h1" "\<forall>y. y \<noteq> a \<longrightarrow> chd h1 y = chd h y" "only_changed (set (a # us @ x # vs)) h h1"
    using detach_kids [OF assms(1)] by (elim exE conjE) rule
  let ?A = "insert x (set (items ks))" and ?S = "set (strings h [Shape x ks])"
  let ?h2 = "erase ?A ?S h1"
  have str: "strings h1 [Shape x ks] = strings h [Shape x ks]" by (rule strings_same_data [OF h1(6)])
  have "owns h1 x ks" using owns_frame [OF assms(4) h1(6,8)] assms(5) h1(7) xa by blast
  from delete_owns [OF this h1(5) assms(7)] have del: "cJSON_Delete fuel x h1 = Some (Inr ((), ?h2))"
    unfolding str .
  have run: "cJSON_DeleteItemFromArray fuel a which h = Some (Inr ((), ?h2))"
    using get h1(1) del assms(3) by (simp add: cJSON_DeleteItemFromArray_def cJSON_DetachItemFromArray_def)
  have disj: "?A \<inter> set (a # us @ vs) = {}" using assms(5) ch by (auto simp: chain_def)
  have "chain ?h2 a (us @ vs)" using chain_erase [OF h1(2) disj] .
  moreover have "us = [] \<or> vs \<noteq> [] \<or> prv h (hd us) = 0 \<longrightarrow> kids ?h2 a (us @ vs)"
    using h1(3) chain_erase [OF h1(2) disj] tight_erase [of h1 "us @ vs" ?A] disj by (auto simp: kids_def)
  moreover have "us \<noteq> [] \<and> vs = [] \<longrightarrow> prv ?h2 (hd us) = prv h (hd us)"
  proof (intro impI)
    assume "us \<noteq> [] \<and> vs = []"
    moreover from this disj have "hd us \<notin> ?A" by (cases us) auto
    ultimately show "prv ?h2 (hd us) = prv h (hd us)" using h1(4) by (simp add: prv_def)
  qed
  moreover have "only_changed (set (a # us @ x # vs) \<union> set (items ks)) h ?h2"
    using h1(8) by (auto simp: only_changed_def erase_def)
  moreover have "\<forall>p\<in>?A. h_item ?h2 p = None" by (simp add: erase_def)
  moreover have "h_str ?h2 = (\<lambda>s. if s \<in> ?S then None else h_str h s)"
    using same_data_item(4) [OF h1(6)] by (simp add: fun_eq_iff)
  ultimately show ?thesis using run by (intro exI [of _ ?h2] conjI)
qed

text \<open>Deleting the last of several children leaves \<open>prev\<close> of the first pointing to freed memory, and
  the next addition writes there.\<close>

lemma add_after_delete_last:
  assumes "kids h a (us @ [x])" "us \<noteq> []" "prv h (hd us) = x" "length us = unat which" "0 \<le> sint (which :: s32)"
    "owns h x ks" "set (items ks) \<inter> set (a # us @ [x]) = {}" "length us + 1 < fuel" "length (items ks) + 1 < fuel"
    "item \<noteq> 0"
  shows "bnd (cJSON_DeleteItemFromArray fuel a which) (\<lambda>_. cJSON_AddItemToArray fuel a item) h = Some (Inl Use_after_free)"
proof -
  obtain h' where h': "cJSON_DeleteItemFromArray fuel a which h = Some (Inr ((), h'))" "chain h' a us"
    "prv h' (hd us) = x" "h_item h' x = None"
    using delete_item_run [OF assms(1,4-6), of fuel] assms by auto
  have lv: "live h' a" "a \<noteq> 0" "chd h' a = hd us" "live h' (hd us)" "hd us \<noteq> 0" "x \<noteq> 0"
    using h'(2) chain_head [OF h'(2) assms(2)] assms(1) by (auto simp: chain_def live_def kids_def)
  have "set_next x item h' = Some (Inl Use_after_free)" using h'(4) lv(6) by (simp add: set_next_def modify_item_def)
  then have "suffix_object x item h' = Some (Inl Use_after_free)" by (simp add: suffix_object_def andthen_def bnd_def)
  then have "add_item_to_array fuel a item h' = Some (Inl Use_after_free)"
    using lv h'(3) assms(10) by (simp add: add_item_to_array_def links_fold Let_def) (simp add: andthen_def bnd_def)
  then show ?thesis using h'(1) by (simp add: cJSON_AddItemToArray_def) (simp add: bnd_def)
qed

section \<open>Replacing\<close>

text \<open>The pointers after the replacement and before the old item is deleted.\<close>

lemma replace_chain:
  assumes "kids h a (us @ x # vs)" "live h r" "r \<notin> set (a # us @ x # vs)"
  defines "h1 \<equiv> put_prev r (prv h x) (put_next r (nxt h x) h)"
  defines "h2 \<equiv> (if vs = [] then h1 else put_prev (hd vs) r h1)"
  defines "h3 \<equiv> (if us = [] then put_child a r h2 else put_next (last us) r h2)"
  defines "h4 \<equiv> put_prev x 0 (put_next x 0 h3)"
  shows "cJSON_ReplaceItemViaPointer fuel a x r h = andthen (cJSON_Delete fuel x) (ret True) h4"
    "chain h4 a (us @ r # vs)" "same_data h h4" "only_changed (set (a # r # us @ x # vs)) h h4"
    "vs \<noteq> [] \<or> prv h (hd (us @ [x])) = 0 \<Longrightarrow> tight h4 (us @ r # vs)"
    "nxt h4 x = 0" "chd h4 x = chd h x"
proof -
  have ch: "chain h a (us @ x # vs)" "tight h (us @ x # vs)" using assms(1) by (simp_all add: kids_def)
  have dist: "distinct (a # us @ x # vs)" using ch(1) by (simp add: chain_def)
  have la: "live h a" "a \<noteq> 0" "live h x" "x \<noteq> 0" "a \<noteq> x" "r \<noteq> 0" using ch(1) assms(2) by (auto simp: chain_def live_def)
  have rne: "r \<noteq> a" "r \<noteq> x" "vs = [] \<or> hd vs \<noteq> r" "us = [] \<or> last us \<noteq> r" using assms(3) by (auto dest: hd_in_set last_in_set)
  have ne: "us = [] \<or> last us \<noteq> x" "vs = [] \<or> hd vs \<noteq> x" "us = [] \<or> last us \<noteq> a"
    using dist by (auto dest: last_in_set hd_in_set)
  have first: "chd h a = x \<longleftrightarrow> us = []" using ch(1) dist by (cases us) (auto simp: chain_def)
  have nxt_x: "nxt h x = (if vs = [] then 0 else hd vs)" using ch(1) by (cases vs) (auto simp: chain_def)
  have prv_x: "us \<noteq> [] \<Longrightarrow> prv h x = last us \<and> last us \<noteq> 0"
    using ch(1) by (cases us) (auto simp: chain_def live_def)
  have lv: "us \<noteq> [] \<Longrightarrow> live h (last us)" "vs \<noteq> [] \<Longrightarrow> live h (hd vs) \<and> hd vs \<noteq> 0"
    using ch(1) by (auto simp: chain_def live_def)
  have l1: "live h1 y = live h y" "chd h1 = chd h" "nxt h1 = (nxt h)(r := nxt h x)" "prv h1 = (prv h)(r := prv h x)" for y
    using assms(2) by (simp_all add: h1_def)
  have l2: "live h2 y = live h y" "chd h2 = chd h" "nxt h2 = nxt h1" "prv h2 r = prv h x" for y
    using lv l1 rne by (auto simp: h2_def)
  have l3: "live h3 y = live h y" "prv h3 = prv h2" "chd h3 x = chd h x" for y
    using lv la l2 by (auto simp: h3_def)
  have s2: "(if nxt h1 r \<noteq> 0 then set_prev (nxt h1 r) r else ret ()) h1 = Some (Inr ((), h2))"
    using nxt_x lv l1 by (auto simp: h2_def)
  have s3: "(if chd h2 a = x then set_child a r
      else bnd (deref r) (\<lambda>i. if i_prev i \<noteq> 0 then set_next (i_prev i) r else ret ())) h2 = Some (Inr ((), h3))"
    using first la l2 lv prv_x assms(2) by (auto simp: h3_def links_fold)
  show "cJSON_ReplaceItemViaPointer fuel a x r h = andthen (cJSON_Delete fuel x) (ret True) h4"
    unfolding cJSON_ReplaceItemViaPointer_def
    using la rne assms(2) s2 s3
    by (simp add: links_fold h1_def [symmetric] l1 l2 l3 h4_def split del: if_split cong: if_cong)
  have nxt4: "nxt h4 = (nxt h3)(x := 0)" and prv4: "prv h4 = (prv h2)(x := 0)" and chd4: "chd h4 a = (if us = [] then r else chd h a)"
    using l2(2) by (simp_all add: h4_def l3) (simp add: h3_def)
  have nxt3: "nxt h3 = (if us = [] then (nxt h)(r := nxt h x) else (nxt h)(r := nxt h x, last us := r))"
    using l2 l1 by (simp add: h3_def)
  have prv2: "prv h2 = (if vs = [] then (prv h)(r := prv h x) else (prv h)(r := prv h x, hd vs := r))"
    using l1 by (simp add: h2_def)
  have "path (nxt h4) (chd h4 a) (us @ r # vs) 0"
  proof (cases us rule: rev_cases)
    case Nil
    then show ?thesis using ch(1) dist assms(3) rne by (auto simp: nxt4 nxt3 chd4 chain_def)
  next
    case (snoc us' l)
    then show ?thesis using ch(1) dist assms(3) rne l2(2) by (auto simp: nxt4 nxt3 chd4 chain_def)
  qed
  moreover have "backs (prv h4) (hd (us @ r # vs)) (tl (us @ r # vs))"
  proof (cases us)
    case Nil
    then show ?thesis using ch(1) dist assms(3) by (cases vs) (auto simp: prv4 prv2 chain_def)
  next
    case (Cons u us')
    then show ?thesis using ch(1) dist assms(3) prv_x by (cases vs) (auto simp: prv4 prv2 chain_def)
  qed
  ultimately show "chain h4 a (us @ r # vs)" using ch(1) dist assms(2,3) la by (auto simp: chain_def h4_def l3)
  show "same_data h h4" using lv la assms(2) l1 l2 l3 by (simp add: h4_def h3_def h2_def h1_def same_data_refl)
  show "only_changed (set (a # r # us @ x # vs)) h h4" by (simp add: h4_def h3_def h2_def h1_def only_changed_refl)
  show "tight h4 (us @ r # vs)" if "vs \<noteq> [] \<or> prv h (hd (us @ [x])) = 0"
    using ch(2) dist assms(3) that by (cases us; cases vs) (auto simp: tight_def prv4 prv2)
  show "nxt h4 x = 0" "chd h4 x = chd h x" by (simp_all add: nxt4 h4_def l3)
qed

lemma replace_run:
  assumes "kids h a (us @ x # vs)" "live h r" "r \<notin> set (a # us @ x # vs)" "owns h x ks"
    "set (items ks) \<inter> set (a # r # us @ x # vs) = {}" "length (items ks) + 1 < fuel"
  shows "\<exists>h'. cJSON_ReplaceItemViaPointer fuel a x r h = Some (Inr (True, h')) \<and> chain h' a (us @ r # vs) \<and>
    (vs \<noteq> [] \<or> prv h (hd (us @ [x])) = 0 \<longrightarrow> kids h' a (us @ r # vs)) \<and>
    only_changed (set (a # r # us @ x # vs) \<union> set (items ks)) h h' \<and>
    (\<forall>p\<in>insert x (set (items ks)). h_item h' p = None) \<and>
    h_str h' = (\<lambda>s. if s \<in> set (strings h [Shape x ks]) then None else h_str h s)"
proof -
  note rc = replace_chain [OF assms(1-3)]
  define h4 where "h4 = put_prev x 0 (put_next x 0 (if us = [] then put_child a r
      (if vs = [] then put_prev r (prv h x) (put_next r (nxt h x) h) else put_prev (hd vs) r (put_prev r (prv h x) (put_next r (nxt h x) h)))
      else put_next (last us) r (if vs = [] then put_prev r (prv h x) (put_next r (nxt h x) h)
        else put_prev (hd vs) r (put_prev r (prv h x) (put_next r (nxt h x) h)))))"
  note rc = rc [folded h4_def]
  let ?A = "insert x (set (items ks))" and ?S = "set (strings h [Shape x ks])"
  let ?h = "erase ?A ?S h4"
  have str: "strings h4 [Shape x ks] = strings h [Shape x ks]" by (rule strings_same_data [OF rc(3)])
  have "owns h4 x ks" using owns_frame [OF assms(4) rc(3,4)] assms(5) rc(7) by blast
  from delete_owns [OF this rc(6) assms(6)] have "cJSON_Delete fuel x h4 = Some (Inr ((), ?h))" unfolding str .
  then have run: "cJSON_ReplaceItemViaPointer fuel a x r h = Some (Inr (True, ?h))" using rc(1) by simp
  have "distinct (a # us @ x # vs)" using assms(1) by (simp add: kids_def chain_def)
  then have disj: "?A \<inter> set (a # us @ r # vs) = {}" using assms(3,5) by auto
  have "chain ?h a (us @ r # vs)" using chain_erase [OF rc(2) disj] .
  moreover have "vs \<noteq> [] \<or> prv h (hd (us @ [x])) = 0 \<longrightarrow> kids ?h a (us @ r # vs)"
    using rc(5) chain_erase [OF rc(2) disj] tight_erase [of h4 "us @ r # vs" ?A] disj by (auto simp: kids_def)
  moreover have "only_changed (set (a # r # us @ x # vs) \<union> set (items ks)) h ?h"
    using rc(4) by (auto simp: only_changed_def erase_def)
  moreover have "\<forall>p\<in>?A. h_item ?h p = None" by (simp add: erase_def)
  moreover have "h_str ?h = (\<lambda>s. if s \<in> ?S then None else h_str h s)"
    using same_data_item(4) [OF rc(3)] by (simp add: fun_eq_iff)
  ultimately show ?thesis using run by (intro exI [of _ ?h] conjI)
qed

section \<open>Properties\<close>

text \<open>C23. \<open>cJSON_Delete\<close> of a chain of items that own their children and strings ends without a fault
  and frees exactly these items and strings, each of them once (a second \<open>free\<close> would be a fault); the
  children of a reference and constant names stay. Every other item and string is unchanged.\<close>

theorem delete_frees_everything:
  assumes "owned h p ss" "length (items ss) < fuel"
  shows "\<exists>h'. cJSON_Delete fuel p h = Some (Inr ((), h')) \<and>
    (\<forall>q. h_item h' q = (if q \<in> set (items ss) then None else h_item h q)) \<and>
    (\<forall>s. h_str h' s = (if s \<in> set (strings h ss) then None else h_str h s)) \<and>
    h_fresh h' = h_fresh h \<and> h_mem h' = h_mem h"
  using delete_run [OF assms] by (simp add: erase_def)

lemma demo_owned: "owned demo_heap 1 [Shape 1 [Shape 2 [], Shape 3 []]]"
  by (simp add: owned_def own_strings_def is_reference_def is_const_key_def demo_simps)

theorem delete_frees_everything_witness:
  "\<exists>h'. cJSON_Delete 9 1 demo_heap = Some (Inr ((), h')) \<and> h_item h' 2 = None \<and> h_str h' 6 = None \<and>
     h_item h' 4 \<noteq> None \<and> h_str h' 7 \<noteq> None"
  using delete_frees_everything [OF demo_owned, of 9]
  by (auto simp: own_strings_def is_reference_def is_const_key_def demo_simps)

text \<open>\<open>cJSON_ReplaceItemViaPointer\<close> puts the new item where the old one was, keeps the order of the
  others and frees the old one with everything it owns and nothing else. The list stays
  consistent except that, after a replaced last child, the shortcut from the first child to
  the last one is stale when there was one.\<close>

theorem replace_swaps_and_frees:
  assumes "kids h a (us @ x # vs)" "live h r" "r \<notin> set (a # us @ x # vs)" "owns h x ks"
    "set (items ks) \<inter> set (a # r # us @ x # vs) = {}" "length (items ks) + 1 < fuel"
  shows "\<exists>h'. cJSON_ReplaceItemViaPointer fuel a x r h = Some (Inr (True, h')) \<and> chain h' a (us @ r # vs) \<and>
    (vs \<noteq> [] \<or> prv h (hd (us @ [x])) = 0 \<longrightarrow> kids h' a (us @ r # vs)) \<and>
    only_changed (set (a # r # us @ x # vs) \<union> set (items ks)) h h' \<and>
    (\<forall>p\<in>insert x (set (items ks)). h_item h' p = None) \<and>
    h_str h' = (\<lambda>s. if s \<in> set (strings h [Shape x ks]) then None else h_str h s)"
  by (rule replace_run [OF assms])

lemma demo_owns: "owns demo_heap 2 []" "owns demo_heap 3 []"
  by (simp_all add: owns_def own_strings_def is_reference_def is_const_key_def demo_simps)

theorem replace_swaps_and_frees_witness:
  "\<exists>h'. cJSON_ReplaceItemViaPointer 9 1 2 4 demo_heap = Some (Inr (True, h')) \<and> kids h' 1 [4, 3] \<and>
     h_item h' 2 = None \<and> h_str h' 5 = None"
proof -
  have k: "kids demo_heap 1 ([] @ 2 # [3])" using demo_kids by simp
  have r: "live demo_heap 4" by (simp add: demo_simps)
  have s: "set (strings demo_heap [Shape 2 []]) = {5}"
    by (simp add: own_strings_def is_reference_def is_const_key_def demo_simps)
  show ?thesis using replace_swaps_and_frees [OF k r _ demo_owns(1), of 9] s by auto
qed

text \<open>C36. The stale shortcut is dangerous: when the last of several children is deleted and another item
  is added to the array, \<open>add_item_to_array\<close> follows the first child's \<open>prev\<close> to the freed item
  and writes to it.\<close>

theorem add_after_delete_uses_freed_item:
  assumes "kids h a (us @ [x])" "us \<noteq> []" "prv h (hd us) = x" "length us = unat which" "0 \<le> sint (which :: s32)"
    "owns h x ks" "set (items ks) \<inter> set (a # us @ [x]) = {}" "length us + 1 < fuel" "length (items ks) + 1 < fuel"
    "item \<noteq> 0"
  shows "bnd (cJSON_DeleteItemFromArray fuel a which) (\<lambda>_. cJSON_AddItemToArray fuel a item) h = Some (Inl Use_after_free)"
  by (rule add_after_delete_last [OF assms])

theorem add_after_delete_uses_freed_item_witness:
  "bnd (cJSON_DeleteItemFromArray 9 1 1) (\<lambda>_. cJSON_AddItemToArray 9 1 4) demo_heap = Some (Inl Use_after_free)"
proof -
  have k: "kids demo_heap 1 ([2] @ [3])" using demo_kids by simp
  have p: "prv demo_heap (hd [2]) = 3" by (simp add: demo_simps)
  show ?thesis using add_after_delete_uses_freed_item [OF k _ p _ _ demo_owns(2), of 1 9 4] by simp
qed

end
