(* ===== verification/Json_Minify.thy ===== *)
theory Json_Minify
  imports Json_Parse
begin

text \<open>
  \<open>cJSON_Minify\<close> of \<open>JSON/cJSON.c\<close>, which removes white space and comments from a text in place.
  The memory is the array \<open>a\<close> that holds the text; \<open>json\<close> and \<open>into\<close>, the pointers the C code reads
  and writes through, are indices of it. Every access goes through \<open>read_at\<close> or \<open>write_at\<close>, which
  fault outside the array.

  The second half states what the function computes: \<open>mini\<close>, a recursion on the text alone, shows
  that the writes never overtake the reads, and \<open>json_mini\<close> is the same with the strings
  delimited as JSON delimits them, which \<open>minify_string\<close> does not always do.
\<close>

section \<open>The function\<close>

definition write_at :: "bytes \<Rightarrow> nat \<Rightarrow> u8 \<Rightarrow> bytes result" where
  "write_at a i c = (if i < length a then Inr (a[i := c]) else Inl Write_out_of_bounds)"

lemma read_at_Inr [simp]: "read_at a i = Inr c \<longleftrightarrow> i < length a \<and> c = a ! i"
  by (auto simp: read_at_def)

lemma write_at_Inr [simp]: "write_at a i c = Inr a' \<longleftrightarrow> i < length a \<and> a' = a[i := c]"
  by (auto simp: write_at_def)

function oneline_loop :: "bytes \<Rightarrow> nat \<Rightarrow> nat result" where
  "oneline_loop a i =
     bind_result (read_at a i) (\<lambda>c.
     if c = 0 then Inr i else if c = 10 then Inr (i + 1) else oneline_loop a (i + 1))"
  by pat_completeness auto
termination
  by (relation "measure (\<lambda>(a, i). length a - i)") auto

definition skip_oneline_comment :: "bytes \<Rightarrow> nat \<Rightarrow> nat result" where
  "skip_oneline_comment a i = oneline_loop a (i + 2)"

function multiline_loop :: "bytes \<Rightarrow> nat \<Rightarrow> nat result" where
  "multiline_loop a i =
     bind_result (read_at a i) (\<lambda>c.
     if c = 0 then Inr i
     else if c = 42 then
       bind_result (read_at a (i + 1)) (\<lambda>d.
       if d = SLASH then Inr (i + 2) else multiline_loop a (i + 1))
     else multiline_loop a (i + 1))"
  by pat_completeness auto
termination
  by (relation "measure (\<lambda>(a, i). length a - i)") auto

definition skip_multiline_comment :: "bytes \<Rightarrow> nat \<Rightarrow> nat result" where
  "skip_multiline_comment a i = multiline_loop a (i + 2)"

text \<open>The loop of \<open>minify_string\<close>; the tests read the input again, after the write.\<close>

function string_loop :: "bytes \<Rightarrow> nat \<Rightarrow> nat \<Rightarrow> (bytes \<times> nat \<times> nat) result" where
  "string_loop a i j =
     bind_result (read_at a i) (\<lambda>c.
     if c = 0 then Inr (a, i, j)
     else
       bind_result (write_at a j c) (\<lambda>a.
       bind_result (read_at a i) (\<lambda>c.
       if c = QUOTE then
         bind_result (write_at a j QUOTE) (\<lambda>a. Inr (a, i + 1, j + 1))
       else if c = BACKSLASH then
         bind_result (read_at a (i + 1)) (\<lambda>d.
         if d = QUOTE then
           bind_result (write_at a (j + 1) d) (\<lambda>a. string_loop a (i + 2) (j + 2))
         else string_loop a (i + 1) (j + 1))
       else string_loop a (i + 1) (j + 1))))"
  by pat_completeness auto
termination
  by (relation "measure (\<lambda>(a, i, j). length a - i)") auto

definition minify_string :: "bytes \<Rightarrow> nat \<Rightarrow> nat \<Rightarrow> (bytes \<times> nat \<times> nat) result" where
  "minify_string a i j =
     bind_result (read_at a i) (\<lambda>c.
     bind_result (write_at a j c) (\<lambda>a. string_loop a (i + 1) (j + 1)))"

text \<open>What the termination of the main loop rests on: the reader only moves forward.\<close>

declare oneline_loop.simps [simp del] multiline_loop.simps [simp del] string_loop.simps [simp del]

lemma oneline_loop_ge: "oneline_loop a i = Inr k \<Longrightarrow> i \<le> k"
  by (induction a i rule: oneline_loop.induct)
     (subst (asm) (2) oneline_loop.simps, fastforce split: if_splits)

lemma multiline_loop_ge: "multiline_loop a i = Inr k \<Longrightarrow> i \<le> k"
  by (induction a i rule: multiline_loop.induct)
     (subst (asm) (3) multiline_loop.simps, fastforce split: if_splits)

lemma string_loop_ge: "string_loop a i j = Inr (a', k, l) \<Longrightarrow> i \<le> k \<and> length a' = length a"
  by (induction a i j rule: string_loop.induct)
     (subst (asm) (4) string_loop.simps, fastforce split: if_splits)

function minify_loop :: "bytes \<Rightarrow> nat \<Rightarrow> nat \<Rightarrow> (bytes \<times> nat) result" where
  "minify_loop a i j =
     bind_result (read_at a i) (\<lambda>c.
     if c = 0 then Inr (a, j)
     else if c = 32 \<or> c = 9 \<or> c = 13 \<or> c = 10 then minify_loop a (i + 1) j
     else if c = SLASH then
       bind_result (read_at a (i + 1)) (\<lambda>d.
       if d = SLASH then bind_result (skip_oneline_comment a i) (\<lambda>i. minify_loop a i j)
       else if d = 42 then bind_result (skip_multiline_comment a i) (\<lambda>i. minify_loop a i j)
       else minify_loop a (i + 1) j)
     else if c = QUOTE then
       bind_result (minify_string a i j) (\<lambda>(a, i, j). minify_loop a i j)
     else bind_result (write_at a j c) (\<lambda>a. minify_loop a (i + 1) (j + 1)))"
  by pat_completeness auto
termination
  by (relation "measure (\<lambda>(a, i, j). length a - i)")
     (auto simp: skip_oneline_comment_def skip_multiline_comment_def minify_string_def
        dest!: oneline_loop_ge multiline_loop_ge string_loop_ge)

declare minify_loop.simps [simp del]

definition cJSON_Minify :: "bytes option \<Rightarrow> bytes option result" where
  "cJSON_Minify json =
     (case json of
        None \<Rightarrow> Inr None
      | Some a \<Rightarrow>
          bind_result (minify_loop a 0 0) (\<lambda>(a, into).
          bind_result (write_at a into 0) (\<lambda>a. Inr (Some a))))"

section \<open>What it computes\<close>

fun after_line :: "bytes \<Rightarrow> bytes" where
  "after_line [] = []"
| "after_line (c # r) = (if c = 10 then r else after_line r)"

fun after_block :: "bytes \<Rightarrow> bytes" where
  "after_block (c # d # r) = (if c = 42 \<and> d = SLASH then r else after_block (d # r))"
| "after_block r = []"

text \<open>A string up to its closing quote, and the rest of the text.\<close>

fun quoted :: "bytes \<Rightarrow> bytes \<times> bytes" where
  "quoted [] = ([], [])"
| "quoted (c # r) =
     (if c = QUOTE then ([c], r)
      else if c = BACKSLASH \<and> r \<noteq> [] \<and> hd r = QUOTE then
        let (s, rest) = quoted (tl r) in (c # hd r # s, rest)
      else let (s, rest) = quoted r in (c # s, rest))"

lemma length_after_line: "length (after_line r) \<le> length r"
  by (induction r) auto

lemma length_after_block: "length (after_block r) \<le> length r"
  by (induction r rule: after_block.induct) auto

lemma length_quoted: "length (snd (quoted r)) \<le> length r"
proof (induction r rule: quoted.induct)
  case (2 c r)
  then show ?case by (cases r) (auto simp: case_prod_beta Let_def)
qed simp

function mini :: "bytes \<Rightarrow> bytes" where
  "mini [] = []"
| "mini (c # r) =
     (if c = 32 \<or> c = 9 \<or> c = 13 \<or> c = 10 then mini r
      else if c = SLASH then
        if r \<noteq> [] \<and> hd r = SLASH then mini (after_line (tl r))
        else if r \<noteq> [] \<and> hd r = 42 then mini (after_block (tl r))
        else mini r
      else if c = QUOTE then c # fst (quoted r) @ mini (snd (quoted r))
      else c # mini r)"
  by pat_completeness auto
termination
  by (relation "measure length")
     (auto simp: less_Suc_eq_le length_quoted
        intro: order_trans [OF length_after_line] order_trans [OF length_after_block])

section \<open>The reader and the writer\<close>

text \<open>\<open>holds a i t z\<close>: at \<open>i\<close> the array has the text \<open>t\<close>, its terminator and then \<open>z\<close>.\<close>

definition holds :: "bytes \<Rightarrow> nat \<Rightarrow> bytes \<Rightarrow> bytes \<Rightarrow> bool" where
  "holds a i t z \<longleftrightarrow> drop i a = t @ 0 # z \<and> 0 \<notin> set t"

lemma holds_Nil: "holds a i [] z \<Longrightarrow> read_at a i = Inr 0"
  unfolding holds_def
  by (metis append_Nil drop_all hd_drop_conv_nth list.distinct(1) list.sel(1) not_less read_at_Inr)

lemma holds_Cons:
  assumes "holds a i (c # t) z"
  shows "read_at a i = Inr c" and "c \<noteq> 0" and "holds a (i + 1) t z"
proof -
  from assms have d: "drop i a = c # t @ 0 # z" by (simp add: holds_def)
  then have "i < length a" by (metis drop_all list.distinct(1) not_less)
  with d have "a ! i = c" "drop (Suc i) a = t @ 0 # z"
    by (auto simp: Cons_nth_drop_Suc [symmetric])
  with \<open>i < length a\<close> assms show "read_at a i = Inr c" "c \<noteq> 0" "holds a (i + 1) t z"
    by (auto simp: holds_def)
qed

text \<open>The byte after one of the text can be read: it may be the terminator.\<close>

lemma holds_peek:
  assumes "holds a i (c # t) z"
  shows "read_at a (i + 1) = Inr (if t = [] then 0 else hd t)"
  using holds_Cons(3) [OF assms] by (cases t) (auto dest: holds_Nil holds_Cons(1) simp del: read_at_Inr)

lemma holds_write:
  assumes "holds a i (c # t) z" "j \<le> i"
  shows "write_at a j d = Inr (a[j := d])" and "holds (a[j := d]) (i + 1) t z"
    and "take (j + 1) (a[j := d]) = take j a @ [d]"
  using assms holds_Cons [OF assms(1)]
  by (auto simp: holds_def take_Suc_conv_app_nth)

lemma holds_reread:
  assumes "holds a i (c # t) z" "j \<le> i"
  shows "read_at (a[j := c]) i = Inr c"
  using assms holds_Cons(1) [OF assms(1)] by (auto simp: nth_list_update)

lemma oneline_run:
  assumes "holds a i t z"
  shows "\<exists>k\<ge>i. oneline_loop a i = Inr k \<and> holds a k (after_line t) z"
  using assms
proof (induction t arbitrary: i)
  case Nil
  then show ?case by (subst oneline_loop.simps) (auto simp: holds_Nil simp del: read_at_Inr)
next
  case (Cons c t)
  note h = holds_Cons [OF Cons.prems]
  from Cons.IH [OF h(3)] show ?case
    by (subst oneline_loop.simps) (use h in \<open>auto simp del: read_at_Inr\<close>)
qed

lemma multiline_run:
  assumes "holds a i t z"
  shows "\<exists>k\<ge>i. multiline_loop a i = Inr k \<and> holds a k (after_block t) z"
  using assms
proof (induction t arbitrary: i)
  case Nil
  then show ?case by (subst multiline_loop.simps) (auto simp: holds_Nil simp del: read_at_Inr)
next
  case (Cons c t)
  note h = holds_Cons [OF Cons.prems] and p = holds_peek [OF Cons.prems]
  obtain k where k: "i + 1 \<le> k" "multiline_loop a (i + 1) = Inr k" "holds a k (after_block t) z"
    using Cons.IH [OF h(3)] by auto
  show ?case
  proof (cases t)
    case Nil
    with h p k show ?thesis
      by (subst multiline_loop.simps) (auto simp del: read_at_Inr)
  next
    case (Cons d r)
    with h(3) have "holds a (i + 2) r z" by (auto dest: holds_Cons(3))
    with h p k Cons show ?thesis
      by (subst multiline_loop.simps) (auto simp del: read_at_Inr)
  qed
qed

text \<open>A string is copied up to its end; the writer stays behind the reader.\<close>

lemma string_run:
  assumes "holds a i t z" "j \<le> i"
  shows "\<exists>a' k l. string_loop a i j = Inr (a', k, l) \<and> l \<le> k \<and> length a' = length a \<and>
           holds a' k (snd (quoted t)) z \<and>
           l = j + length (fst (quoted t)) \<and> take l a' = take j a @ fst (quoted t)"
  using assms
proof (induction t arbitrary: a i j rule: quoted.induct)
  case 1
  then show ?case
    by (subst string_loop.simps) (auto simp: holds_Nil simp del: read_at_Inr)
next
  case (2 c r)
  define b where "b = a[j := c]"
  note h = holds_Cons [OF "2.prems"(1)]
  note w = holds_write [OF "2.prems", of c, folded b_def]
  have rd: "read_at b i = Inr c"
    using holds_reread [OF "2.prems"] by (simp add: b_def)
  have len: "length b = length a" by (simp add: b_def)
  consider "c = QUOTE" | "c \<noteq> QUOTE" "c = BACKSLASH" "r \<noteq> []" "hd r = QUOTE"
    | "c \<noteq> QUOTE" "\<not> (c = BACKSLASH \<and> r \<noteq> [] \<and> hd r = QUOTE)"
    by blast
  then show ?case
  proof cases
    case 1
    then have "write_at b j QUOTE = Inr b"
      using w(1) by (auto simp: b_def)
    with 1 h w rd len "2.prems"(2) show ?thesis
      by (subst string_loop.simps) (auto simp del: read_at_Inr write_at_Inr)
  next
    case 2
    then obtain s where r: "r = QUOTE # s" by (cases r) auto
    note h2 = holds_Cons [OF w(2) [unfolded r]] and w2 = holds_write [OF w(2) [unfolded r], of "j + 1" QUOTE]
    define b2 where "b2 = b[j + 1 := QUOTE]"
    from h2 w2 "2.prems"(2) have b2: "read_at b (i + 1) = Inr QUOTE" "write_at b (j + 1) QUOTE = Inr b2"
      "holds b2 (i + 2) s z" "take (j + 2) b2 = take (j + 1) b @ [QUOTE]" "length b2 = length a"
      by (simp_all add: b2_def len del: read_at_Inr write_at_Inr)
    obtain a' k l where run: "string_loop b2 (i + 2) (j + 2) = Inr (a', k, l)" "l \<le> k"
      "length a' = length b2" "holds a' k (snd (quoted s)) z"
      "l = j + 2 + length (fst (quoted s))" "take l a' = take (j + 2) b2 @ fst (quoted s)"
      using "2.IH"(1) [of b2 "i + 2" "j + 2"] 2 r b2(3) "2.prems"(2) by auto
    have "string_loop a i j = Inr (a', k, l)"
      using h(1,2) w(1) rd b2(1,2) run(1) 2
      by (subst string_loop.simps) (simp del: read_at_Inr write_at_Inr)
    then show ?thesis
      using run b2 w(3) 2 r by (simp add: case_prod_beta Let_def)
  next
    case 3
    have pk: "c = BACKSLASH \<Longrightarrow> \<exists>d. read_at b (i + 1) = Inr d \<and> d \<noteq> QUOTE"
      using 3(2) holds_Nil [of b "i + 1" z] holds_Cons(1) [of b "i + 1" "hd r" "tl r" z] w(2)
      by (cases r) (auto simp del: read_at_Inr)
    obtain a' k l where run: "string_loop b (i + 1) (j + 1) = Inr (a', k, l)" "l \<le> k"
      "length a' = length b" "holds a' k (snd (quoted r)) z"
      "l = j + 1 + length (fst (quoted r))" "take l a' = take (j + 1) b @ fst (quoted r)"
      using "2.IH"(2) [of b "i + 1" "j + 1"] 3 w(2) "2.prems"(2) by auto
    have "string_loop a i j = Inr (a', k, l)"
      using h(1,2) w(1) rd run(1) 3(1) pk
      by (subst string_loop.simps) (auto simp del: read_at_Inr write_at_Inr)
    moreover have "quoted (c # r) = (c # fst (quoted r), snd (quoted r))"
      using 3 by (simp add: case_prod_beta Let_def del: de_Morgan_conj)
    ultimately show ?thesis
      using run len w(3) by simp
  qed
qed

text \<open>The main loop computes \<open>mini\<close>.\<close>

lemma minify_run:
  assumes "holds a i t z" "j \<le> i"
  shows "\<exists>a' k l. minify_loop a i j = Inr (a', l) \<and> l \<le> k \<and> length a' = length a \<and>
           drop k a' = 0 # z \<and> l = j + length (mini t) \<and> take l a' = take j a @ mini t"
  using assms
proof (induction t arbitrary: a i j rule: mini.induct)
  case 1
  then show ?case
    by (subst minify_loop.simps) (auto simp: holds_Nil holds_def simp del: read_at_Inr)
next
  case (2 c r)
  note h = holds_Cons [OF "2.prems"(1)] and pk = holds_peek [OF "2.prems"(1)]
  note step = minify_loop.simps [of a i j, unfolded h(1) bind_result_simps]
  consider (space) "c = 32 \<or> c = 9 \<or> c = 13 \<or> c = 10"
    | (slash) "c = SLASH" | (quote) "c = QUOTE"
    | (other) "\<not> (c = 32 \<or> c = 9 \<or> c = 13 \<or> c = 10)" "c \<noteq> SLASH" "c \<noteq> QUOTE"
    by blast
  then show ?case
  proof cases
    case space
    then have "minify_loop a i j = minify_loop a (i + 1) j" "mini (c # r) = mini r"
      using h(2) by (auto simp: step)
    with "2.IH"(1) [OF space h(3)] "2.prems"(2) show ?thesis by simp
  next
    case slash
    consider (line) s where "r = SLASH # s" | (block) s where "r = 42 # s"
      | (lone) "\<not> (r \<noteq> [] \<and> hd r = SLASH)" "\<not> (r \<noteq> [] \<and> hd r = 42)"
      by (cases r) auto
    then show ?thesis
    proof cases
      case line
      then have "holds a (i + 2) s z" using h(3) by (auto dest: holds_Cons(3))
      then obtain k where k: "k \<ge> i + 2" "oneline_loop a (i + 2) = Inr k" "holds a k (after_line s) z"
        using oneline_run by blast
      have "minify_loop a i j = minify_loop a k j" "mini (c # r) = mini (after_line s)"
        using k pk line slash by (simp_all add: step skip_oneline_comment_def del: read_at_Inr)
      with "2.IH"(2) [of a k j] k line slash "2.prems"(2) show ?thesis by simp
    next
      case block
      then have "holds a (i + 2) s z" using h(3) by (auto dest: holds_Cons(3))
      then obtain k where k: "k \<ge> i + 2" "multiline_loop a (i + 2) = Inr k" "holds a k (after_block s) z"
        using multiline_run by blast
      have "minify_loop a i j = minify_loop a k j" "mini (c # r) = mini (after_block s)"
        using k pk block slash by (simp_all add: step skip_multiline_comment_def del: read_at_Inr)
      with "2.IH"(3) [of a k j] k block slash "2.prems"(2) show ?thesis by simp
    next
      case lone
      then have "minify_loop a i j = minify_loop a (i + 1) j" "mini (c # r) = mini r"
        using pk slash by (auto simp: step simp del: read_at_Inr)
      with "2.IH"(4) [of a "i + 1" j] lone slash h(3) "2.prems"(2) show ?thesis by simp
    qed
  next
    case quote
    note w = holds_write [OF "2.prems", of c]
    obtain a' k l where s: "string_loop (a[j := c]) (i + 1) (j + 1) = Inr (a', k, l)" "l \<le> k"
      "length a' = length a" "holds a' k (snd (quoted r)) z" "l = j + 1 + length (fst (quoted r))"
      "take l a' = take (j + 1) (a[j := c]) @ fst (quoted r)"
      using string_run [OF w(2), of "j + 1"] "2.prems"(2) by auto
    then have "minify_loop a i j = minify_loop a' k l"
      using quote h(1) w(1) by (simp add: step minify_string_def del: read_at_Inr write_at_Inr)
    moreover have "mini (c # r) = c # fst (quoted r) @ mini (snd (quoted r))"
      using quote by simp
    ultimately show ?thesis
      using "2.IH"(5) [of a' k l] quote s w(3) by (auto simp: add.assoc)
  next
    case other
    note w = holds_write [OF "2.prems", of c]
    have "minify_loop a i j = minify_loop (a[j := c]) (i + 1) (j + 1)" "mini (c # r) = c # mini r"
      using other h(2) w(1) by (auto simp: step simp del: write_at_Inr)
    with "2.IH"(6) [of "a[j := c]" "i + 1" "j + 1"] other w(2,3) "2.prems"(2) show ?thesis by auto
  qed
qed

section \<open>Properties of the computed text\<close>

lemma set_after_line: "set (after_line r) \<subseteq> set r"
  by (induction r) auto

lemma set_after_block: "set (after_block r) \<subseteq> set r"
  by (induction r rule: after_block.induct) auto

lemma append_quoted: "fst (quoted r) @ snd (quoted r) = r"
proof (induction r rule: quoted.induct)
  case (2 c r)
  then show ?case by (cases r) (auto simp: case_prod_beta Let_def)
qed simp

lemma set_quoted: "set (fst (quoted r)) \<subseteq> set r" "set (snd (quoted r)) \<subseteq> set r"
  using arg_cong [OF append_quoted, of set r] by auto

lemma set_mini: "x \<in> set (mini t) \<Longrightarrow> x \<in> set t"
proof (induction t rule: mini.induct)
  case (2 c r)
  have sub: "x \<in> set (after_line (tl r)) \<Longrightarrow> x \<in> set r" "x \<in> set (after_block (tl r)) \<Longrightarrow> x \<in> set r"
    "x \<in> set (fst (quoted r)) \<Longrightarrow> x \<in> set r" "x \<in> set (snd (quoted r)) \<Longrightarrow> x \<in> set r"
    using set_after_line [of "tl r"] set_after_block [of "tl r"] set_quoted [of r]
    by (auto dest!: subsetD intro: list.set_sel(2))
  show ?case
    using "2.prems" "2.IH" sub by (auto split: if_split_asm)
qed simp

lemma cstr_append_zero: "0 \<notin> set t \<Longrightarrow> cstr (t @ 0 # z) = t"
  by (simp add: cstr_def takeWhile_append)

lemma holds_cstr: "0 \<in> set a \<Longrightarrow> holds a 0 (cstr a) (drop (length (cstr a) + 1) a)"
proof -
  assume "0 \<in> set a"
  then obtain t z where a: "a = t @ 0 # z" "0 \<notin> set t" by (meson split_list_first)
  then show ?thesis by (simp add: holds_def cstr_append_zero)
qed

lemma cJSON_Minify_run:
  assumes "0 \<in> set a"
  shows "\<exists>a'. cJSON_Minify (Some a) = Inr (Some a') \<and> length a' = length a \<and>
           cstr a' = mini (cstr a) \<and> 0 \<in> set a' \<and>
           drop (length (cstr a) + 1) a' = drop (length (cstr a) + 1) a"
proof -
  define z where "z = drop (length (cstr a) + 1) a"
  have h: "holds a 0 (cstr a) z" using holds_cstr [OF assms] by (simp add: z_def)
  obtain a' k l where m: "minify_loop a 0 0 = Inr (a', l)" "l \<le> k" "length a' = length a"
    "drop k a' = 0 # z" "l = length (mini (cstr a))" "take l a' = mini (cstr a)"
    using minify_run [OF h] by auto
  have kl: "k < length a'" using m(4) by (metis drop_all list.distinct(1) not_less)
  have len: "length a = length (cstr a) + 1 + length z"
    using arg_cong [of _ _ length, OF conjunct1 [OF h [unfolded holds_def]]] by simp
  have "k = length (cstr a)"
    using arg_cong [OF m(4), of length] kl m(3) len by simp
  then have z': "drop (length (cstr a) + 1) a' = z"
    using m(4) by (metis drop_Suc list.sel(3) Suc_eq_plus1 tl_drop)
  have nz: "0 \<notin> set (mini (cstr a))"
    using set_mini [of 0 "cstr a"] h by (auto simp: holds_def)
  have out: "a'[l := 0] = mini (cstr a) @ 0 # drop (Suc l) a'"
    using upd_conv_take_nth_drop [of l a' 0] m(2,6) kl by simp
  have "cJSON_Minify (Some a) = Inr (Some (a'[l := 0]))"
    using m(1,2) kl by (simp add: cJSON_Minify_def write_at_def)
  moreover have "drop (length (cstr a) + 1) (a'[l := 0]) = z"
    using z' m(2) \<open>k = length (cstr a)\<close> by simp
  moreover have "cstr (a'[l := 0]) = mini (cstr a)" "0 \<in> set (a'[l := 0])"
    unfolding out using nz by (simp_all add: cstr_append_zero)
  ultimately show ?thesis
    using m(3) by (intro exI [of _ "a'[l := 0]"]) (simp add: z_def)
qed

text \<open>Minifying once is enough.\<close>

lemma quoted_Nil: "fst (quoted r) = [] \<longleftrightarrow> r = []"
  by (cases r) (auto simp: case_prod_beta Let_def)

lemma quoted_again:
  assumes "m = [] \<or> snd (quoted r) \<noteq> []"
  shows "quoted (fst (quoted r) @ m) = (fst (quoted r), m)"
  using assms
proof (induction r rule: quoted.induct)
  case (2 c r)
  then show ?case
    by (cases r) (auto simp: case_prod_beta Let_def hd_append quoted_Nil split: if_splits)
qed simp

lemma mini_idem: "mini (mini t) = mini t"
proof (induction t rule: mini.induct)
  case (2 c r)
  show ?case
  proof (cases "c = QUOTE")
    case True
    have "snd (quoted r) = [] \<Longrightarrow> mini (snd (quoted r)) = []" by simp
    then have "quoted (fst (quoted r) @ mini (snd (quoted r))) =
        (fst (quoted r), mini (snd (quoted r)))"
      by (intro quoted_again) auto
    then show ?thesis
      using True 2 by simp
  next
    case False
    then show ?thesis using 2 by simp
  qed
qed simp

section \<open>The strings of JSON\<close>

text \<open>In JSON a backslash escapes the next character, whatever it is, the backslash included.\<close>

fun json_string :: "bytes \<Rightarrow> bytes \<times> bytes" where
  "json_string [] = ([], [])"
| "json_string (c # r) =
     (if c = QUOTE then ([c], r)
      else if c = BACKSLASH \<and> r \<noteq> [] then
        let (s, rest) = json_string (tl r) in (c # hd r # s, rest)
      else let (s, rest) = json_string r in (c # s, rest))"

lemma length_json_string: "length (snd (json_string r)) \<le> length r"
proof (induction r rule: json_string.induct)
  case (2 c r)
  then show ?case by (cases r) (auto simp: case_prod_beta Let_def)
qed simp

function json_mini :: "bytes \<Rightarrow> bytes" where
  "json_mini [] = []"
| "json_mini (c # r) =
     (if c = 32 \<or> c = 9 \<or> c = 13 \<or> c = 10 then json_mini r
      else if c = SLASH then
        if r \<noteq> [] \<and> hd r = SLASH then json_mini (after_line (tl r))
        else if r \<noteq> [] \<and> hd r = 42 then json_mini (after_block (tl r))
        else json_mini r
      else if c = QUOTE then c # fst (json_string r) @ json_mini (snd (json_string r))
      else c # json_mini r)"
  by pat_completeness auto
termination
  by (relation "measure length")
     (auto simp: less_Suc_eq_le length_json_string
        intro: order_trans [OF length_after_line] order_trans [OF length_after_block])

text \<open>No two backslashes in a row.\<close>

fun plain :: "bytes \<Rightarrow> bool" where
  "plain (c # d # r) \<longleftrightarrow> \<not> (c = BACKSLASH \<and> d = BACKSLASH) \<and> plain (d # r)"
| "plain r \<longleftrightarrow> True"

lemma plain_Cons: "plain (c # r) \<Longrightarrow> plain r"
  by (cases r) auto

lemma plain_append: "plain (u @ v) \<Longrightarrow> plain v"
  by (induction u) (auto dest: plain_Cons)

lemma after_line_suffix: "\<exists>u. r = u @ after_line r"
proof (induction r)
  case (Cons c r)
  then obtain u where "r = u @ after_line r" by blast
  then show ?case
    by (cases "c = 10") (auto intro: exI [of _ "[c]"] exI [of _ "c # u"])
qed simp

lemma after_block_suffix: "\<exists>u. r = u @ after_block r"
proof (induction r rule: after_block.induct)
  case (1 c d r)
  show ?case
  proof (cases "c = 42 \<and> d = SLASH")
    case True
    then show ?thesis by (intro exI [of _ "[c, d]"]) simp
  next
    case False
    then obtain u where "d # r = u @ after_block (d # r)" using "1.IH" by blast
    with False show ?thesis by (intro exI [of _ "c # u"]) auto
  qed
qed simp_all

lemma plain_suffixes:
  assumes "plain r"
  shows "plain (after_line r)" "plain (after_block r)" "plain (snd (quoted r))"
proof -
  show "plain (after_line r)" using after_line_suffix [of r] assms plain_append by metis
  show "plain (after_block r)" using after_block_suffix [of r] assms plain_append by metis
  show "plain (snd (quoted r))" using append_quoted [of r] assms plain_append by metis
qed

lemma quoted_eq_json_string: "plain r \<Longrightarrow> quoted r = json_string r"
proof (induction r rule: json_string.induct)
  case (2 c r)
  show ?case
  proof (cases r)
    case Nil
    then show ?thesis by simp
  next
    case (Cons d s)
    with "2.prems" have "plain s" "plain r" by (auto dest: plain_Cons)
    with 2 Cons show ?thesis by (auto simp: case_prod_beta Let_def)
  qed
qed simp

lemma mini_eq_json_mini: "plain t \<Longrightarrow> mini t = json_mini t"
proof (induction t rule: mini.induct)
  case (2 c r)
  from "2.prems" have p: "plain r" "plain (tl r)" by (cases r; auto dest: plain_Cons)+
  with 2 plain_suffixes [OF p(1)] plain_suffixes [OF p(2)] quoted_eq_json_string [OF p(1)]
  show ?case by simp
qed simp

section \<open>Properties\<close>

text \<open>C11. \<open>cJSON_Minify\<close> on an array that holds a terminated text reads and writes only inside the
  array, ends, leaves a terminated text there and does not touch what follows the old terminator. The new text is the
  old one without white space and comments outside strings, as the recursion \<open>mini\<close> on the
  text alone gives it; minifying it again changes nothing; and when the text has no two
  backslashes in a row, the strings it keeps are exactly those JSON delimits.\<close>

theorem minify_in_place:
  assumes "0 \<in> set a"
  shows "\<exists>a'. cJSON_Minify (Some a) = Inr (Some a') \<and> length a' = length a \<and>
           cstr a' = mini (cstr a) \<and>
           drop (length (cstr a) + 1) a' = drop (length (cstr a) + 1) a \<and>
           (\<exists>a''. cJSON_Minify (Some a') = Inr (Some a'') \<and> cstr a'' = cstr a') \<and>
           (plain (cstr a) \<longrightarrow> cstr a' = json_mini (cstr a))"
proof -
  obtain a' where a': "cJSON_Minify (Some a) = Inr (Some a')" "length a' = length a"
    "cstr a' = mini (cstr a)" "0 \<in> set a'"
    "drop (length (cstr a) + 1) a' = drop (length (cstr a) + 1) a"
    using cJSON_Minify_run [OF assms] by blast
  obtain a'' where "cJSON_Minify (Some a') = Inr (Some a'')" "cstr a'' = mini (cstr a')"
    using cJSON_Minify_run [OF a'(4)] by blast
  with a' show ?thesis
    by (intro exI [of _ a']) (auto simp: mini_idem mini_eq_json_mini)
qed

text \<open>The text \<open>{ "a b": 1 } // x\<close>, and one more byte in the array.\<close>

theorem minify_in_place_witness:
  "\<exists>a'. cJSON_Minify (Some [123, 32, 34, 97, 32, 98, 34, 58, 32, 49, 32, 125, 32, 47, 47, 32, 120, 0, 7])
          = Inr (Some a') \<and> length a' = 19 \<and>
        cstr a' = [123, 34, 97, 32, 98, 34, 58, 49, 125]"
  using minify_in_place [of "[123, 32, 34, 97, 32, 98, 34, 58, 32, 49, 32, 125, 32, 47, 47, 32, 120, 0, 7]"]
  by (auto simp: cstr_def)

text \<open>An escaped backslash at the end of a string, as in \<open>["\\", "a b"]\<close>, makes
  \<open>minify_string\<close> run past the closing quote: from there on strings and the text between
  them are exchanged, and the space inside the second string is removed. By the rules of JSON
  only the space after the comma may go.\<close>

theorem minify_escaped_backslash:
  "\<exists>a'. cJSON_Minify (Some [91, 34, 92, 92, 34, 44, 32, 34, 97, 32, 98, 34, 93, 0]) = Inr (Some a') \<and>
        cstr a' = [91, 34, 92, 92, 34, 44, 32, 34, 97, 98, 34, 93] \<and>
        json_mini [91, 34, 92, 92, 34, 44, 32, 34, 97, 32, 98, 34, 93] =
          [91, 34, 92, 92, 34, 44, 34, 97, 32, 98, 34, 93]"
  using cJSON_Minify_run [of "[91, 34, 92, 92, 34, 44, 32, 34, 97, 32, 98, 34, 93, 0]"]
  by (auto simp: cstr_def)

end
