(* ===== verification/Ts_Crc.thy ===== *)
theory Ts_Crc
  imports Net_Packet
begin

text \<open>
  The cyclic redundancy check of the transport stream (\<open>ts/crc.h\<close> and \<open>ts/Mycrc_32.cpp\<close>): a table-driven loop,
  shown equal to the division by the generator polynomial bit by bit, and the property a receiver relies on: the
  check over data followed by its own check value is zero.
\<close>

unbundle bit_operations_syntax

section \<open>The code\<close>

definition crc_tab :: "u32 list" where
  "crc_tab = [
     0x00000000, 0x04c11db7, 0x09823b6e, 0x0d4326d9, 0x130476dc, 0x17c56b6b, 0x1a864db2, 0x1e475005,
     0x2608edb8, 0x22c9f00f, 0x2f8ad6d6, 0x2b4bcb61, 0x350c9b64, 0x31cd86d3, 0x3c8ea00a, 0x384fbdbd,
     0x4c11db70, 0x48d0c6c7, 0x4593e01e, 0x4152fda9, 0x5f15adac, 0x5bd4b01b, 0x569796c2, 0x52568b75,
     0x6a1936c8, 0x6ed82b7f, 0x639b0da6, 0x675a1011, 0x791d4014, 0x7ddc5da3, 0x709f7b7a, 0x745e66cd,
     0x9823b6e0, 0x9ce2ab57, 0x91a18d8e, 0x95609039, 0x8b27c03c, 0x8fe6dd8b, 0x82a5fb52, 0x8664e6e5,
     0xbe2b5b58, 0xbaea46ef, 0xb7a96036, 0xb3687d81, 0xad2f2d84, 0xa9ee3033, 0xa4ad16ea, 0xa06c0b5d,
     0xd4326d90, 0xd0f37027, 0xddb056fe, 0xd9714b49, 0xc7361b4c, 0xc3f706fb, 0xceb42022, 0xca753d95,
     0xf23a8028, 0xf6fb9d9f, 0xfbb8bb46, 0xff79a6f1, 0xe13ef6f4, 0xe5ffeb43, 0xe8bccd9a, 0xec7dd02d,
     0x34867077, 0x30476dc0, 0x3d044b19, 0x39c556ae, 0x278206ab, 0x23431b1c, 0x2e003dc5, 0x2ac12072,
     0x128e9dcf, 0x164f8078, 0x1b0ca6a1, 0x1fcdbb16, 0x018aeb13, 0x054bf6a4, 0x0808d07d, 0x0cc9cdca,
     0x7897ab07, 0x7c56b6b0, 0x71159069, 0x75d48dde, 0x6b93dddb, 0x6f52c06c, 0x6211e6b5, 0x66d0fb02,
     0x5e9f46bf, 0x5a5e5b08, 0x571d7dd1, 0x53dc6066, 0x4d9b3063, 0x495a2dd4, 0x44190b0d, 0x40d816ba,
     0xaca5c697, 0xa864db20, 0xa527fdf9, 0xa1e6e04e, 0xbfa1b04b, 0xbb60adfc, 0xb6238b25, 0xb2e29692,
     0x8aad2b2f, 0x8e6c3698, 0x832f1041, 0x87ee0df6, 0x99a95df3, 0x9d684044, 0x902b669d, 0x94ea7b2a,
     0xe0b41de7, 0xe4750050, 0xe9362689, 0xedf73b3e, 0xf3b06b3b, 0xf771768c, 0xfa325055, 0xfef34de2,
     0xc6bcf05f, 0xc27dede8, 0xcf3ecb31, 0xcbffd686, 0xd5b88683, 0xd1799b34, 0xdc3abded, 0xd8fba05a,
     0x690ce0ee, 0x6dcdfd59, 0x608edb80, 0x644fc637, 0x7a089632, 0x7ec98b85, 0x738aad5c, 0x774bb0eb,
     0x4f040d56, 0x4bc510e1, 0x46863638, 0x42472b8f, 0x5c007b8a, 0x58c1663d, 0x558240e4, 0x51435d53,
     0x251d3b9e, 0x21dc2629, 0x2c9f00f0, 0x285e1d47, 0x36194d42, 0x32d850f5, 0x3f9b762c, 0x3b5a6b9b,
     0x0315d626, 0x07d4cb91, 0x0a97ed48, 0x0e56f0ff, 0x1011a0fa, 0x14d0bd4d, 0x19939b94, 0x1d528623,
     0xf12f560e, 0xf5ee4bb9, 0xf8ad6d60, 0xfc6c70d7, 0xe22b20d2, 0xe6ea3d65, 0xeba91bbc, 0xef68060b,
     0xd727bbb6, 0xd3e6a601, 0xdea580d8, 0xda649d6f, 0xc423cd6a, 0xc0e2d0dd, 0xcda1f604, 0xc960ebb3,
     0xbd3e8d7e, 0xb9ff90c9, 0xb4bcb610, 0xb07daba7, 0xae3afba2, 0xaafbe615, 0xa7b8c0cc, 0xa379dd7b,
     0x9b3660c6, 0x9ff77d71, 0x92b45ba8, 0x9675461f, 0x8832161a, 0x8cf30bad, 0x81b02d74, 0x857130c3,
     0x5d8a9099, 0x594b8d2e, 0x5408abf7, 0x50c9b640, 0x4e8ee645, 0x4a4ffbf2, 0x470cdd2b, 0x43cdc09c,
     0x7b827d21, 0x7f436096, 0x7200464f, 0x76c15bf8, 0x68860bfd, 0x6c47164a, 0x61043093, 0x65c52d24,
     0x119b4be9, 0x155a565e, 0x18197087, 0x1cd86d30, 0x029f3d35, 0x065e2082, 0x0b1d065b, 0x0fdc1bec,
     0x3793a651, 0x3352bbe6, 0x3e119d3f, 0x3ad08088, 0x2497d08d, 0x2056cd3a, 0x2d15ebe3, 0x29d4f654,
     0xc5a92679, 0xc1683bce, 0xcc2b1d17, 0xc8ea00a0, 0xd6ad50a5, 0xd26c4d12, 0xdf2f6bcb, 0xdbee767c,
     0xe3a1cbc1, 0xe760d676, 0xea23f0af, 0xeee2ed18, 0xf0a5bd1d, 0xf464a0aa, 0xf9278673, 0xfde69bc4,
     0x89b8fd09, 0x8d79e0be, 0x803ac667, 0x84fbdbd0, 0x9abc8bd5, 0x9e7d9662, 0x933eb0bb, 0x97ffad0c,
     0xafb010b1, 0xab710d06, 0xa6322bdf, 0xa2f33668, 0xbcb4666d, 0xb8757bda, 0xb5365d03, 0xb1f740b4]"

text \<open>\<open>crc = (crc << 8) ^ crc_tab[((crc >> 24) ^ *data++) & 0xff]\<close>\<close>

definition crc_byte :: "u32 \<Rightarrow> u8 \<Rightarrow> u32" where
  "crc_byte crc d = push_bit 8 crc XOR crc_tab ! unat ((drop_bit 24 crc XOR ucast d) AND 0xff)"

fun crc_loop :: "u32 \<Rightarrow> u8 list \<Rightarrow> nat \<Rightarrow> u32 result" where
  "crc_loop crc data 0 = Inr crc"
| "crc_loop crc [] (Suc n) = Inl Read_out_of_bounds"
| "crc_loop crc (d # data) (Suc n) = crc_loop (crc_byte crc d) data n"

definition calc_crc32 :: "u8 list \<Rightarrow> u32 \<Rightarrow> u32 result" where
  "calc_crc32 data datalen = crc_loop 0xffffffff data (unat datalen)"

text \<open>\<open>CalculateCRC_32\<close> of \<open>Mycrc_32.cpp\<close> has a table of the same values, starts with 0 and does not mask the index.\<close>

definition crc_byte0 :: "u32 \<Rightarrow> u8 \<Rightarrow> u32 result" where
  "crc_byte0 crc32 d =
     (let tabitem = drop_bit 24 crc32 XOR ucast d in
      if unat tabitem < length crc_tab then Inr (push_bit 8 crc32 XOR crc_tab ! unat tabitem) else Inl Read_out_of_bounds)"

fun crc_loop0 :: "u32 \<Rightarrow> u8 list \<Rightarrow> nat \<Rightarrow> u32 result" where
  "crc_loop0 crc data 0 = Inr crc"
| "crc_loop0 crc [] (Suc n) = Inl Read_out_of_bounds"
| "crc_loop0 crc (d # data) (Suc n) = bind_result (crc_byte0 crc d) (\<lambda>crc. crc_loop0 crc data n)"

definition CalculateCRC_32 :: "u8 list \<Rightarrow> u32 \<Rightarrow> u32 result" where
  "CalculateCRC_32 aData aSize = crc_loop0 0 aData (unat aSize)"

text \<open>\<open>Zwg_ntohl\<close> on the little-endian target: \<open>BSWAP32C\<close>.\<close>

definition bswap16c :: "u32 \<Rightarrow> u32" where
  "bswap16c x = (push_bit 8 x AND 0xff00) OR (drop_bit 8 x AND 0x00ff)"

definition Zwg_ntohl :: "u32 \<Rightarrow> u32" where
  "Zwg_ntohl s = push_bit 16 (bswap16c s) OR bswap16c (drop_bit 16 s)"

section \<open>Reference: polynomial division\<close>

text \<open>One bit of the message moves through the register; \<open>0x04c11db7\<close> is the generator.\<close>

definition crc_bit :: "u32 \<Rightarrow> u32" where
  "crc_bit c = push_bit 1 c XOR (if bit c 31 then 0x04c11db7 else 0)"

definition crc_spec_byte :: "u32 \<Rightarrow> u8 \<Rightarrow> u32" where
  "crc_spec_byte c d = (crc_bit ^^ 8) (c XOR push_bit 24 (ucast d))"

definition crc_spec :: "u32 \<Rightarrow> u8 list \<Rightarrow> u32" where
  "crc_spec c data = foldl crc_spec_byte c data"

lemma crc_bit_xor: "crc_bit (a XOR b) = crc_bit a XOR crc_bit b"
  by (rule bit_word_eqI) (auto simp: crc_bit_def bit_simps)

lemma crc_bits_xor: "(crc_bit ^^ n) (a XOR b) = (crc_bit ^^ n) a XOR (crc_bit ^^ n) b"
  by (induction n) (simp_all add: crc_bit_xor)

text \<open>The table is spanned by its entries at the powers of two.\<close>

primrec span :: "u32 list \<Rightarrow> u32 list" where
  "span [] = [0]"
| "span (p # ps) = span ps @ map (\<lambda>x. p XOR x) (span ps)"

lemma crc_tab_span:
  "crc_tab = span [0x690ce0ee, 0x34867077, 0x9823b6e0, 0x4c11db70, 0x2608edb8, 0x130476dc, 0x09823b6e, 0x04c11db7]"
  by (simp add: crc_tab_def)

lemma length_span [simp]: "length (span ps) = 2 ^ length ps"
  by (induction ps) simp_all

lemma of_nat_split:
  assumes "j < 2 ^ n"
  shows "(of_nat (2 ^ n + j) :: u32) = of_nat (2 ^ n) XOR of_nat j"
proof -
  have "\<not> bit j n" using assms by (simp add: bit_iff_odd)
  then have "2 ^ n AND j = 0" by (intro bit_eqI) (auto simp: bit_and_iff bit_exp_iff)
  then have "2 ^ n + j = 2 ^ n XOR j" by (rule disjunctive_add_eq_xor)
  then show ?thesis by (simp only: of_nat_xor_eq)
qed

text \<open>\<open>lin\<close> is the entry the polynomial division gives.\<close>

definition lin :: "nat \<Rightarrow> u32" where
  "lin i = (crc_bit ^^ 8) (push_bit 24 (of_nat i))"

lemma lin_split: "j < 2 ^ n \<Longrightarrow> lin (2 ^ n + j) = lin (2 ^ n) XOR lin j"
  unfolding lin_def of_nat_split push_bit_xor by (rule crc_bits_xor)

lemma crc_bits_0 [simp]: "(crc_bit ^^ n) 0 = 0"
  by (induction n) (simp_all add: crc_bit_def)

lemma span_lin:
  assumes "\<And>k. k < length ps \<Longrightarrow> rev ps ! k = lin (2 ^ k)" "i < 2 ^ length ps"
  shows "span ps ! i = lin i"
  using assms
proof (induction ps arbitrary: i)
  case (Cons p ps)
  have top: "p = lin (2 ^ length ps)" using Cons.prems(1) [of "length ps"] by (simp add: nth_append)
  have ih: "span ps ! j = lin j" if "j < 2 ^ length ps" for j
  proof (rule Cons.IH [OF _ that])
    show "rev ps ! k = lin (2 ^ k)" if "k < length ps" for k using Cons.prems(1) [of k] that by (simp add: nth_append)
  qed
  show ?case
  proof (cases "i < 2 ^ length ps")
    case True
    then show ?thesis by (simp add: nth_append ih)
  next
    case False
    then obtain j where j: "i = 2 ^ length ps + j" "j < 2 ^ length ps" using Cons.prems(2) le_Suc_ex [of "2 ^ length ps" i] by auto
    then show ?thesis by (simp add: nth_append ih lin_split top)
  qed
qed (simp add: lin_def)

lemma crc_bit_8: "(crc_bit ^^ 8) c = crc_bit (crc_bit (crc_bit (crc_bit (crc_bit (crc_bit (crc_bit (crc_bit c)))))))"
  by (simp add: numeral_eq_Suc)

lemma crc_bit_cases:
  "bit c 31 \<Longrightarrow> crc_bit c = push_bit 1 c XOR 0x04c11db7"
  "\<not> bit c 31 \<Longrightarrow> crc_bit c = push_bit 1 c"
  by (simp_all add: crc_bit_def)

lemma lin_powers:
  "lin 1 = 0x04c11db7"
  "lin 2 = 0x09823b6e"
  "lin 4 = 0x130476dc"
  "lin 8 = 0x2608edb8"
  "lin 16 = 0x4c11db70"
  "lin 32 = 0x9823b6e0"
  "lin 64 = 0x34867077"
  "lin 128 = 0x690ce0ee"
  by (simp_all add: lin_def crc_bit_8 crc_bit_cases)

lemma crc_tab_lin:
  assumes "i < 256"
  shows "crc_tab ! i = lin i"
proof -
  have "rev [0x690ce0ee, 0x34867077, 0x9823b6e0, 0x4c11db70, 0x2608edb8, 0x130476dc, 0x09823b6e, 0x04c11db7] ! k = lin (2 ^ k)"
    if "k < 8" for k
  proof -
    have "k \<in> {0, 1, 2, 3, 4, 5, 6, 7}" using that by auto
    then show ?thesis by (auto simp: lin_powers lin_powers(1) [unfolded One_nat_def])
  qed
  then show ?thesis unfolding crc_tab_span by (rule span_lin) (use assms in simp_all)
qed

lemma and_ff: "x AND 0xff = take_bit 8 (x :: u32)"
  by (simp add: take_bit_eq_mask mask_eq_exp_minus_1)

lemma and_ff00: "push_bit 8 x AND 0xff00 = push_bit 8 (take_bit 8 (x :: u32))"
proof -
  have "push_bit 8 (x AND 0xff) = push_bit 8 x AND push_bit 8 0xff" by simp
  then show ?thesis by (simp add: and_ff)
qed

lemma crc_bits_low:
  assumes "\<And>m. 32 - k \<le> m \<Longrightarrow> \<not> bit c m" "k \<le> 32"
  shows "(crc_bit ^^ k) c = push_bit k c"
  using assms
proof (induction k)
  case (Suc k)
  have "(crc_bit ^^ k) c = push_bit k c" using Suc by simp
  moreover have "\<not> bit (push_bit k c) 31" using Suc.prems(1) [of "31 - k"] Suc.prems(2) by (simp add: bit_simps)
  ultimately show ?case by (simp add: crc_bit_cases)
qed simp

lemma crc_byte_spec: "crc_byte crc d = crc_spec_byte crc d"
proof -
  let ?t = "(drop_bit 24 crc XOR ucast d) AND 0xff :: u32"
  have t: "unat ?t < 256" by (rule order.strict_trans1 [OF word_and_le1 [unfolded word_le_nat_alt]]) simp
  have "crc XOR push_bit 24 (ucast d) = push_bit 24 ?t XOR take_bit 24 crc"
    unfolding and_ff by (rule bit_word_eqI) (auto simp: bit_simps)
  then have "crc_spec_byte crc d = lin (unat ?t) XOR (crc_bit ^^ 8) (take_bit 24 crc)"
    by (simp add: crc_spec_byte_def lin_def crc_bits_xor)
  also have "(crc_bit ^^ 8) (take_bit 24 crc) = push_bit 8 (take_bit 24 crc)"
    by (rule crc_bits_low) (simp_all add: bit_simps)
  also have "\<dots> = push_bit 8 crc" by (rule bit_word_eqI) (auto simp: bit_simps)
  finally show ?thesis unfolding crc_byte_def crc_tab_lin [OF t] by (simp only: xor.commute)
qed

lemma crc_loop_spec:
  "n \<le> length data \<Longrightarrow> crc_loop crc data n = Inr (crc_spec crc (take n data))"
  by (induction crc data n rule: crc_loop.induct) (simp_all add: crc_spec_def crc_byte_spec)

lemma crc_byte0_spec: "crc_byte0 crc d = Inr (crc_spec_byte crc d)"
proof -
  let ?t = "drop_bit 24 crc XOR ucast d :: u32"
  have m: "?t AND 0xff = ?t" unfolding and_ff by (rule bit_word_eqI) (auto simp: bit_simps dest: bit_imp_le_length)
  have "unat (?t AND 0xff) < 256" by (rule order.strict_trans1 [OF word_and_le1 [unfolded word_le_nat_alt]]) simp
  then have "unat ?t < length crc_tab" by (simp add: m crc_tab_span)
  then show ?thesis by (simp add: crc_byte0_def crc_byte_spec [symmetric] crc_byte_def m Let_def)
qed

lemma crc_loop0_spec:
  "n \<le> length data \<Longrightarrow> crc_loop0 crc data n = Inr (crc_spec crc (take n data))"
  by (induction crc data n rule: crc_loop0.induct) (simp_all add: crc_spec_def crc_byte0_spec)

section \<open>The receiver's check\<close>

definition be32 :: "u32 \<Rightarrow> u8 list" where
  "be32 w = [ucast (drop_bit 24 w), ucast (drop_bit 16 w), ucast (drop_bit 8 w), ucast w]"

lemma crc_spec_append: "crc_spec c (xs @ ys) = crc_spec (crc_spec c xs) ys"
  by (simp add: crc_spec_def)

lemma crc_byte_cancel: "crc_spec_byte c (ucast (drop_bit 24 c)) = push_bit 8 c"
proof -
  have "drop_bit 24 c XOR ucast (ucast (drop_bit 24 c) :: u8) = 0"
    by (rule bit_word_eqI) (auto simp: bit_simps dest: bit_imp_le_length)
  then show ?thesis by (simp add: crc_byte_spec [symmetric] crc_byte_def crc_tab_def)
qed

lemma crc_residue: "crc_spec c (be32 c) = 0"
proof -
  have s: "ucast (drop_bit 16 c) = (ucast (drop_bit 24 (push_bit 8 c)) :: u8)"
    "ucast (drop_bit 8 c) = (ucast (drop_bit 24 (push_bit 16 c)) :: u8)" "ucast c = (ucast (drop_bit 24 (push_bit 24 c)) :: u8)"
    by (rule bit_word_eqI, auto simp: bit_simps)+
  show ?thesis
    by (simp add: crc_spec_def be32_def crc_byte_cancel s)
qed

text \<open>The check value is stored with its bytes swapped on the little-endian target.\<close>

lemma swapped_bytes:
  "[ucast (Zwg_ntohl w), ucast (drop_bit 8 (Zwg_ntohl w)), ucast (drop_bit 16 (Zwg_ntohl w)), ucast (drop_bit 24 (Zwg_ntohl w))] = be32 w"
  unfolding be32_def by (intro arg_cong2 [where f = Cons] refl; rule bit_word_eqI) (auto simp: Zwg_ntohl_def bswap16c_def and_ff and_ff00 bit_simps)

section \<open>Properties\<close>

text \<open>
  C31. Both table-driven loops compute the remainder of the bitwise polynomial division by the generator 0x04c11db7, never
  read outside the data or the table, and a receiver that runs \<open>calc_crc32\<close> over the data followed by the four bytes of
  its check value gets zero.
\<close>

theorem crc_is_division:
  assumes "length data + 4 < 2 ^ 32"
  shows "\<exists>c. calc_crc32 data (of_nat (length data)) = Inr c \<and> c = crc_spec 0xffffffff data \<and>
    calc_crc32 (data @ be32 c) (of_nat (length data + 4)) = Inr 0 \<and>
    CalculateCRC_32 data (of_nat (length data)) = Inr (crc_spec 0 data)"
proof -
  have n: "unat (of_nat (length data) :: u32) = length data" "unat (of_nat (length data + 4) :: u32) = length data + 4"
    using assms by (intro unat_of_nat_32; simp)+
  have l: "length (be32 c) = 4" for c by (simp add: be32_def)
  have "calc_crc32 (data @ be32 (crc_spec 0xffffffff data)) (of_nat (length data + 4)) = Inr 0"
    unfolding calc_crc32_def n(2) using crc_loop_spec [of "length data + 4" "data @ be32 (crc_spec 0xffffffff data)"]
    by (simp add: l crc_spec_append crc_residue)
  then show ?thesis by (simp add: calc_crc32_def CalculateCRC_32_def n(1) crc_loop_spec crc_loop0_spec)
qed

text \<open>At the nine digits \<open>1\<close> to \<open>9\<close>, whose published check value for this generator is 0x0376e6e7.\<close>

lemma crc_of_digits:
  "crc_byte 0xffffffff 0x31 = 0x9efbcf93"
  "crc_byte 0x9efbcf93 0x32 = 0x3fec5e6a"
  "crc_byte 0x3fec5e6a 0x33 = 0xd952f164"
  "crc_byte 0xd952f164 0x34 = 0xa695c4aa"
  "crc_byte 0xa695c4aa 0x35 = 0xbd9ab747"
  "crc_byte 0xbd9ab747 0x36 = 0xd8f06c8f"
  "crc_byte 0xd8f06c8f 0x37 = 0xd8a14c4"
  "crc_byte 0xd8a14c4 0x38 = 0x49e3c2fb"
  "crc_byte 0x49e3c2fb 0x39 = 0x376e6e7"
  by (simp_all add: crc_byte_def crc_tab_def)

theorem crc_is_division_witness:
  "calc_crc32 [0x31, 0x32, 0x33, 0x34, 0x35, 0x36, 0x37, 0x38, 0x39] 9 = Inr 0x0376e6e7 \<and>
   crc_spec 0xffffffff [0x31, 0x32, 0x33, 0x34, 0x35, 0x36, 0x37, 0x38, 0x39] = 0x0376e6e7"
proof -
  have "crc_loop 0xffffffff [0x31, 0x32, 0x33, 0x34, 0x35, 0x36, 0x37, 0x38, 0x39] (Suc (Suc (Suc (Suc (Suc (Suc (Suc (Suc (Suc 0))))))))) = Inr 0x0376e6e7"
    by (simp only: crc_loop.simps crc_of_digits)
  moreover have "unat (9 :: u32) = Suc (Suc (Suc (Suc (Suc (Suc (Suc (Suc (Suc 0))))))))" by simp
  ultimately have "calc_crc32 [0x31, 0x32, 0x33, 0x34, 0x35, 0x36, 0x37, 0x38, 0x39] 9 = Inr 0x0376e6e7" by (simp only: calc_crc32_def)
  with crc_is_division [of "[0x31, 0x32, 0x33, 0x34, 0x35, 0x36, 0x37, 0x38, 0x39]"] show ?thesis by auto
qed

end
