(* ===== verification/Byte_Memory.thy ===== *)
theory Byte_Memory
  imports Net_Packet
begin

text \<open>
  Writing to byte arrays, shared by the packers of the transport stream and of RTP: assignments to consecutive places, \<open>memset\<close>
  and \<open>memcpy\<close>, each of which fails when it leaves the array, and what they do when they do not.
\<close>

section \<open>Operations\<close>

text \<open>Assignments to consecutive places of an array, \<open>memset\<close> and \<open>memcpy\<close>.\<close>

primrec stores :: "nat \<Rightarrow> u8 list \<Rightarrow> u8 list \<Rightarrow> u8 list result" where
  "stores pos [] m = Inr m"
| "stores pos (b # bs) m = bind_result (store8 pos b m) (stores (Suc pos) bs)"

definition memset :: "nat \<Rightarrow> u8 \<Rightarrow> nat \<Rightarrow> u8 list \<Rightarrow> u8 list result" where
  "memset pos v n m = stores pos (replicate n v) m"

definition memcpy :: "nat \<Rightarrow> u8 list \<Rightarrow> nat \<Rightarrow> u8 list \<Rightarrow> u8 list result" where
  "memcpy pos src n m = bind_result (read_bytes n src) (\<lambda>bs. stores pos bs m)"

section \<open>Their effect\<close>

lemma stores_ok: "pos + length bs \<le> length m \<Longrightarrow> stores pos bs m = Inr (take pos m @ bs @ drop (pos + length bs) m)"
proof (induction bs arbitrary: pos m)
  case (Cons b bs)
  then show ?case by (simp add: store8_ok upd_conv_take_nth_drop take_Suc_conv_app_nth nth_append add.commute)
qed simp

lemma stores_at: "length x = pos \<Longrightarrow> length bs \<le> length y \<Longrightarrow> stores pos bs (x @ y) = Inr (x @ bs @ drop (length bs) y)"
  by (simp add: stores_ok)

lemma store8_stores: "store8 pos b m = stores pos [b] m"
  by (simp add: bind_result_def split: sum.splits)

lemma memset_ok: "pos + n \<le> length m \<Longrightarrow> memset pos v n m = Inr (take pos m @ replicate n v @ drop (pos + n) m)"
  by (simp add: memset_def stores_ok)

lemma memcpy_ok:
  "n \<le> length src \<Longrightarrow> pos + n \<le> length m \<Longrightarrow> memcpy pos src n m = Inr (take pos m @ take n src @ drop (pos + n) m)"
  by (simp add: memcpy_def stores_ok)

lemma memset_at: "length x = pos \<Longrightarrow> n \<le> length y \<Longrightarrow> memset pos v n (x @ y) = Inr (x @ replicate n v @ drop n y)"
  by (simp add: memset_ok)

lemma memcpy_at:
  "length x = pos \<Longrightarrow> n \<le> length y \<Longrightarrow> n \<le> length src \<Longrightarrow> memcpy pos src n (x @ y) = Inr (x @ take n src @ drop n y)"
  by (simp add: memcpy_ok)

lemma store32_stores: "store32 pos w = stores pos [ucast w, ucast (drop_bit 8 w), ucast (drop_bit 16 w), ucast (drop_bit 24 w)]"
proof -
  have b: "ucast (ucast w :: u16) = (ucast w :: u8)" "ucast (drop_bit 8 (ucast w :: u16)) = (ucast (drop_bit 8 w) :: u8)"
    "ucast (ucast (drop_bit 16 w) :: u16) = (ucast (drop_bit 16 w) :: u8)"
    "ucast (drop_bit 8 (ucast (drop_bit 16 w) :: u16)) = (ucast (drop_bit 24 w) :: u8)"
    by (rule bit_word_eqI, auto simp: bit_simps)+
  show ?thesis
  proof
    fix m show "store32 pos w m = stores pos [ucast w, ucast (drop_bit 8 w), ucast (drop_bit 16 w), ucast (drop_bit 24 w)] m"
      by (simp add: store32_def store16_def b bind_result_def split: sum.splits)
  qed
qed

end
