(* ===== verification/Ts_Packet.thy ===== *)
theory Ts_Packet
  imports Ts_Crc Byte_Memory
begin

text \<open>
  Packets of the transport stream (\<open>ts/Ts.h\<close>, \<open>ts/Ts.cpp\<close>, \<open>ts/FileIo.cpp\<close> and the first functions of
  \<open>ts/Mux.cpp\<close>): the session with its continuity counters, the four-byte packet header, the program association table and
  the program map table. A reference receiver after ISO 13818-1 reads the tables back.
\<close>

unbundle bit_operations_syntax

section \<open>Constants\<close>

definition TS_PACKET_SIZE :: nat where "TS_PACKET_SIZE = 188"
definition MAX_ONE_FRAME_SIZE :: nat where "MAX_ONE_FRAME_SIZE = 1024 * 1024"

abbreviation TS_SYNC_BYTE :: u8 where "TS_SYNC_BYTE \<equiv> 0x47"
abbreviation TS_PAT_PID :: u32 where "TS_PAT_PID \<equiv> 0x00"
abbreviation TS_PMT_PID :: u32 where "TS_PMT_PID \<equiv> 0xFFF"
abbreviation TS_H264_PID :: u32 where "TS_H264_PID \<equiv> 0x100"
abbreviation TS_AAC_PID :: u32 where "TS_AAC_PID \<equiv> 0x101"
abbreviation TS_H264_STREAM_ID :: u8 where "TS_H264_STREAM_ID \<equiv> 0xE0"
abbreviation TS_AAC_STREAM_ID :: u8 where "TS_AAC_STREAM_ID \<equiv> 0xC0"
abbreviation PMT_STREAM_TYPE_VIDEO :: u32 where "PMT_STREAM_TYPE_VIDEO \<equiv> 0x1B"
abbreviation PMT_STREAM_TYPE_AUDIO :: u32 where "PMT_STREAM_TYPE_AUDIO \<equiv> 0x0F"

section \<open>Data\<close>

text \<open>The bit-fields of the source are words that hold values of the width of the field; fields that no function reads or
  writes (the network identifier, the check values and the decoding time stamps) are left out.\<close>

record TsPacketHeader =
  sync_byte :: u8
  tras_error :: u8
  play_init :: u8
  tras_prio :: u8
  PID :: u32
  tras_scramb :: u8
  ada_field_C :: u8
  conti_cter :: u8

record TsPat =
  pat_table_id :: u32
  pat_section_syntax_indicator :: u32
  pat_zero :: u32
  pat_reserved_1 :: u32
  pat_section_length :: u32
  pat_transport_stream_id :: u32
  pat_reserved_2 :: u32
  pat_version_number :: u32
  pat_current_next_indicator :: u32
  pat_section_number :: u32
  pat_last_section_number :: u32
  pat_program_number :: u32
  pat_reserved_3 :: u32
  pat_program_map_PID :: u32

record TsPmt =
  pmt_table_id :: u32
  pmt_section_syntax_indicator :: u32
  pmt_zero :: u32
  pmt_reserved_1 :: u32
  pmt_section_length :: u32
  pmt_program_number :: u32
  pmt_reserved_2 :: u32
  pmt_version_number :: u32
  pmt_current_next_indicator :: u32
  pmt_section_number :: u32
  pmt_last_section_number :: u32
  pmt_reserved_3 :: u32
  pmt_PCR_PID :: u32
  pmt_reserved_4 :: u32
  pmt_program_info_length :: u32
  pmt_stream_type_video :: u32
  pmt_reserved_5_video :: u32
  pmt_elementary_PID_video :: u32
  pmt_reserved_6_video :: u32
  pmt_ES_info_length_video :: u32
  pmt_stream_type_audio :: u32
  pmt_reserved_5_audio :: u32
  pmt_elementary_PID_audio :: u32
  pmt_reserved_6_audio :: u32
  pmt_ES_info_length_audio :: u32

record Continuity_Counter =
  continuity_counter_pat :: u8
  continuity_counter_pmt :: u8
  continuity_counter_video :: u8
  continuity_counter_audio :: u8

record TsPtsDts =
  reserved_1 :: u8
  pts_32_30 :: u8
  marker_bit1 :: u8
  pts_29_15 :: u32
  marker_bit2 :: u8
  pts_14_0 :: u32
  marker_bit3 :: u8

record TsPes =
  packet_start_code_prefix :: u32
  stream_id :: u8
  PES_packet_length :: u32
  marker_bit :: u8
  PES_scrambling_control :: u8
  PES_priority :: u8
  data_alignment_indicator :: u8
  copyright :: u8
  original_or_copy :: u8
  PTS_DTS_flags :: u8
  ESCR_flag :: u8
  ES_rate_flag :: u8
  DSM_trick_mode_flag :: u8
  additional_copy_info_flag :: u8
  PES_CRC_flag :: u8
  PES_extension_flag :: u8
  PES_header_data_length :: u8
  tsptsdts :: TsPtsDts
  Es :: "u8 list"
  Pes_Packet_Length_Beyond :: u32

text \<open>\<open>writets\<close> says whether the callback is set; \<open>sent\<close> is what it has been called with so far. The
  clock fields of the source are never used.\<close>

record TSPKG_SESSION =
  continuity_counter :: Continuity_Counter
  m_One_Frame_Buf :: "u8 list"
  m_video_tspes :: TsPes
  m_audio_tspes :: TsPes
  WritePacketNum :: u32
  Timestamp_video :: u32
  Timestamp_audio :: u32
  session_pts :: u32
  decode_video_done :: u32
  decode_audio_done :: u32
  writets :: bool
  sent :: "u8 list list"

section \<open>Writing packets\<close>

definition WriteFile :: "TSPKG_SESSION \<Rightarrow> u8 list \<Rightarrow> nat \<Rightarrow> (nat \<times> TSPKG_SESSION) result" where
  "WriteFile session Buffer BufferSize =
     (if writets session
      then bind_result (read_bytes BufferSize Buffer) (\<lambda>bs. Inr (BufferSize, session\<lparr>sent := sent session @ [bs]\<rparr>))
      else Inr (BufferSize, session))"

text \<open>The continuity counter of the packet identifier and its successor; for any other identifier the code
  waits on the console and goes on with an undefined value.\<close>

definition next_counter :: "u32 \<Rightarrow> Continuity_Counter \<Rightarrow> (u8 \<times> Continuity_Counter) result" where
  "next_counter pid cc =
     (if pid = TS_PAT_PID then
        Inr (continuity_counter_pat cc mod 16, cc\<lparr>continuity_counter_pat := continuity_counter_pat cc + 1\<rparr>)
      else if pid = TS_PMT_PID then
        Inr (continuity_counter_pmt cc mod 16, cc\<lparr>continuity_counter_pmt := continuity_counter_pmt cc + 1\<rparr>)
      else if pid = TS_H264_PID then
        Inr (continuity_counter_video cc mod 16, cc\<lparr>continuity_counter_video := continuity_counter_video cc + 1\<rparr>)
      else if pid = TS_AAC_PID then
        Inr (continuity_counter_audio cc mod 16, cc\<lparr>continuity_counter_audio := continuity_counter_audio cc + 1\<rparr>)
      else Inl Aborted)"

definition header_bytes :: "TsPacketHeader \<Rightarrow> u8 list" where
  "header_bytes h =
     [sync_byte h,
      push_bit 7 (tras_error h) OR push_bit 6 (play_init h) OR push_bit 5 (tras_prio h) OR ucast (drop_bit 8 (PID h) AND 0x1f),
      ucast (PID h AND 0x00ff),
      push_bit 6 (tras_scramb h) OR push_bit 4 (ada_field_C h) OR conti_cter h]"

definition WriteStruct_Packetheader ::
  "TSPKG_SESSION \<Rightarrow> u8 list \<Rightarrow> u32 \<Rightarrow> u8 \<Rightarrow> u8 \<Rightarrow> (nat \<times> TSPKG_SESSION \<times> u8 list) result" where
  "WriteStruct_Packetheader session Buf pid init ada =
     bind_result (next_counter pid (continuity_counter session)) (\<lambda>(cter, cc).
       let tspacketheader = \<lparr>sync_byte = TS_SYNC_BYTE, tras_error = 0, play_init = init AND 1, tras_prio = 0,
             PID = pid AND 0x1fff, tras_scramb = 0, ada_field_C = ada AND 3, conti_cter = cter AND 15\<rparr> in
       bind_result (stores 0 (header_bytes tspacketheader) Buf) (\<lambda>Buf.
       Inr (4, session\<lparr>continuity_counter := cc\<rparr>, Buf)))"

definition tspat :: TsPat where
  "tspat = \<lparr>pat_table_id = 0x00, pat_section_syntax_indicator = 0x01, pat_zero = 0x00, pat_reserved_1 = 0x03,
     pat_section_length = 0x0d, pat_transport_stream_id = 0x01, pat_reserved_2 = 0x03, pat_version_number = 0x00,
     pat_current_next_indicator = 0x01, pat_section_number = 0x00, pat_last_section_number = 0x00,
     pat_program_number = 0x01, pat_reserved_3 = 0x07, pat_program_map_PID = TS_PMT_PID\<rparr>"

definition pat_bytes :: "TsPat \<Rightarrow> u8 list" where
  "pat_bytes p = map ucast
     [pat_table_id p,
      push_bit 7 (pat_section_syntax_indicator p) OR push_bit 6 (pat_zero p) OR push_bit 4 (pat_reserved_1 p) OR
        (drop_bit 8 (pat_section_length p) AND 0x0F),
      pat_section_length p AND 0x00FF,
      drop_bit 8 (pat_transport_stream_id p),
      pat_transport_stream_id p AND 0x00FF,
      push_bit 6 (pat_reserved_2 p) OR push_bit 1 (pat_version_number p) OR pat_current_next_indicator p,
      pat_section_number p,
      pat_last_section_number p,
      drop_bit 8 (pat_program_number p),
      pat_program_number p AND 0x00FF,
      push_bit 5 (pat_reserved_3 p) OR (drop_bit 8 (pat_program_map_PID p) AND 0x0F),
      pat_program_map_PID p AND 0x00FF]"

definition WriteStruct_Pat :: "TSPKG_SESSION \<Rightarrow> u8 list \<Rightarrow> (nat \<times> TSPKG_SESSION \<times> u8 list) result" where
  "WriteStruct_Pat session Buf =
     bind_result (memset 0 0xFF TS_PACKET_SIZE Buf) (\<lambda>Buf.
     bind_result (WriteStruct_Packetheader session Buf TS_PAT_PID 0x01 0x01) (\<lambda>(pat_pos, session, Buf).
     bind_result (store8 4 0 Buf) (\<lambda>Buf.
     let pat_pos = pat_pos + 1 in
     bind_result (stores pat_pos (pat_bytes tspat) Buf) (\<lambda>Buf.
     let pat_pos = pat_pos + 12 in
     bind_result (calc_crc32 (drop 5 Buf) (of_nat (pat_pos - 5))) (\<lambda>PAT_CRC.
     bind_result (store32 pat_pos (Zwg_ntohl PAT_CRC) Buf) (\<lambda>Buf.
     Inr (188, session, Buf)))))))"

definition tspmt :: TsPmt where
  "tspmt = \<lparr>pmt_table_id = 0x02, pmt_section_syntax_indicator = 0x01, pmt_zero = 0x00, pmt_reserved_1 = 0x03,
     pmt_section_length = 0x17, pmt_program_number = 1, pmt_reserved_2 = 0x03, pmt_version_number = 0x00,
     pmt_current_next_indicator = 0x01, pmt_section_number = 0x00, pmt_last_section_number = 0x00, pmt_reserved_3 = 0x07,
     pmt_PCR_PID = TS_H264_PID, pmt_reserved_4 = 0x0F, pmt_program_info_length = 0x00,
     pmt_stream_type_video = PMT_STREAM_TYPE_VIDEO, pmt_reserved_5_video = 0x07, pmt_elementary_PID_video = TS_H264_PID,
     pmt_reserved_6_video = 0x0F, pmt_ES_info_length_video = 0x00,
     pmt_stream_type_audio = PMT_STREAM_TYPE_AUDIO, pmt_reserved_5_audio = 0x07, pmt_elementary_PID_audio = TS_AAC_PID,
     pmt_reserved_6_audio = 0x0F, pmt_ES_info_length_audio = 0x00\<rparr>"

definition pmt_bytes :: "TsPmt \<Rightarrow> u8 list" where
  "pmt_bytes p = map ucast
     [pmt_table_id p,
      push_bit 7 (pmt_section_syntax_indicator p) OR push_bit 6 (pmt_zero p) OR push_bit 4 (pmt_reserved_1 p) OR
        (drop_bit 8 (pmt_section_length p) AND 0x0F),
      pmt_section_length p AND 0x00FF,
      drop_bit 8 (pmt_program_number p),
      pmt_program_number p AND 0x00FF,
      push_bit 6 (pmt_reserved_2 p) OR push_bit 1 (pmt_version_number p) OR pmt_current_next_indicator p,
      pmt_section_number p,
      pmt_last_section_number p,
      push_bit 5 (pmt_reserved_3 p) OR (drop_bit 8 (pmt_PCR_PID p) AND 0x1F),
      pmt_PCR_PID p AND 0x0FF,
      push_bit 4 (pmt_reserved_4 p) OR (drop_bit 8 (pmt_program_info_length p) AND 0x0F),
      pmt_program_info_length p AND 0xFF,
      pmt_stream_type_video p,
      push_bit 5 (pmt_reserved_5_video p) OR (drop_bit 8 (pmt_elementary_PID_video p) AND 0x1F),
      pmt_elementary_PID_video p AND 0x00FF,
      push_bit 4 (pmt_reserved_6_video p) OR (drop_bit 8 (pmt_ES_info_length_video p) AND 0x0F),
      pmt_ES_info_length_video p AND 0x0FF,
      pmt_stream_type_audio p,
      push_bit 5 (pmt_reserved_5_audio p) OR (drop_bit 8 (pmt_elementary_PID_audio p) AND 0x1F),
      pmt_elementary_PID_audio p AND 0x00FF,
      push_bit 4 (pmt_reserved_6_audio p) OR (drop_bit 8 (pmt_ES_info_length_audio p) AND 0x0F),
      pmt_ES_info_length_audio p AND 0x0FF]"

definition WriteStruct_Pmt :: "TSPKG_SESSION \<Rightarrow> u8 list \<Rightarrow> (nat \<times> TSPKG_SESSION \<times> u8 list) result" where
  "WriteStruct_Pmt session Buf =
     bind_result (memset 0 0xFF TS_PACKET_SIZE Buf) (\<lambda>Buf.
     bind_result (WriteStruct_Packetheader session Buf TS_PMT_PID 0x01 0x01) (\<lambda>(pmt_pos, session, Buf).
     bind_result (store8 4 0 Buf) (\<lambda>Buf.
     let pmt_pos = pmt_pos + 1 in
     bind_result (stores pmt_pos (pmt_bytes tspmt) Buf) (\<lambda>Buf.
     let pmt_pos = pmt_pos + 22;
         len = pmt_pos - 8 + 4;
         len = (if len > 0xffff then 0 else len) in
     bind_result (stores 6 [0xb0 OR ucast (drop_bit 8 (of_nat len :: u32)), ucast (of_nat len :: u32)] Buf) (\<lambda>Buf.
     bind_result (calc_crc32 (drop 5 Buf) (of_nat (pmt_pos - 5))) (\<lambda>PMT_CRC.
     bind_result (store32 pmt_pos (Zwg_ntohl PMT_CRC) Buf) (\<lambda>Buf.
     Inr (188, session, Buf))))))))"

definition Write_Pat :: "TSPKG_SESSION \<Rightarrow> TSPKG_SESSION result" where
  "Write_Pat session =
     bind_result (WriteStruct_Pat session (m_One_Frame_Buf session)) (\<lambda>(n, session, buf).
     bind_result (WriteFile (session\<lparr>m_One_Frame_Buf := buf\<rparr>) buf TS_PACKET_SIZE) (\<lambda>(n, session). Inr session))"

definition Write_Pmt :: "TSPKG_SESSION \<Rightarrow> TSPKG_SESSION result" where
  "Write_Pmt session =
     bind_result (WriteStruct_Pmt session (m_One_Frame_Buf session)) (\<lambda>(n, session, buf).
     bind_result (WriteFile (session\<lparr>m_One_Frame_Buf := buf\<rparr>) buf TS_PACKET_SIZE) (\<lambda>(n, session). Inr session))"

section \<open>Lemmas: tables\<close>

lemma store_crc: "store32 pos (Zwg_ntohl w) = stores pos (be32 w)"
  by (simp add: store32_stores swapped_bytes)

section \<open>The reference receiver\<close>

text \<open>The fields of a packet and its payload.\<close>

definition ts_pid :: "u8 list \<Rightarrow> u32" where
  "ts_pid p = push_bit 8 (ucast (p ! 1 AND 0x1f)) OR ucast (p ! 2)"

definition ts_start :: "u8 list \<Rightarrow> bool" where
  "ts_start p \<longleftrightarrow> bit (p ! 1) 6"

definition ts_counter :: "u8 list \<Rightarrow> u8" where
  "ts_counter p = p ! 3 AND 0xf"

definition ts_payload :: "u8 list \<Rightarrow> u8 list" where
  "ts_payload p =
     (let control = drop_bit 4 (p ! 3) AND 3 in
      if control = 1 then drop 4 p else if control = 3 then drop (5 + unat (p ! 4)) p else [])"

definition ts_valid :: "u8 list \<Rightarrow> bool" where
  "ts_valid p \<longleftrightarrow> length p = 188 \<and> p ! 0 = 0x47 \<and> \<not> bit (p ! 1) 7 \<and>
     (drop_bit 4 (p ! 3) AND 3 = 3 \<longrightarrow> unat (p ! 4) \<le> 182)"

text \<open>A section behind the pointer field: the table with this identifier, its length and its check value.\<close>

definition word12 :: "u8 \<Rightarrow> u8 \<Rightarrow> nat" where
  "word12 a b = unat (a AND 0xf) * 256 + unat b"

definition word13 :: "u8 \<Rightarrow> u8 \<Rightarrow> u32" where
  "word13 a b = push_bit 8 (ucast (a AND 0x1f)) OR ucast b"

definition section_body :: "u8 \<Rightarrow> u8 list \<Rightarrow> u8 list option" where
  "section_body table payload =
     (let s = drop (1 + unat (payload ! 0)) payload; n = 3 + word12 (s ! 1) (s ! 2) in
      if s ! 0 = table \<and> n \<le> length s \<and> crc_spec 0xffffffff (take n s) = 0 then Some (take (n - 12) (drop 8 s)) else None)"

fun programs :: "u8 list \<Rightarrow> (nat \<times> u32) list" where
  "programs (a # b # c # d # rest) = (unat a * 256 + unat b, word13 c d) # programs rest"
| "programs _ = []"

function (sequential) streams :: "u8 list \<Rightarrow> (u8 \<times> u32) list" where
  "streams (t # a # b # c # d # rest) = (t, word13 a b) # streams (drop (word12 c d) rest)"
| "streams _ = []"
  by pat_completeness auto
termination by (relation "measure length") auto

definition read_pat :: "u8 list \<Rightarrow> (nat \<times> u32) list option" where
  "read_pat p = map_option programs (section_body 0 (ts_payload p))"

definition read_pmt :: "u8 list \<Rightarrow> (u32 \<times> (u8 \<times> u32) list) option" where
  "read_pmt p = map_option (\<lambda>b. (word13 (b ! 0) (b ! 1), streams (drop (4 + word12 (b ! 2) (b ! 3)) b))) (section_body 2 (ts_payload p))"

section \<open>Headers\<close>

definition head :: "u32 \<Rightarrow> bool \<Rightarrow> u8 \<Rightarrow> u8 \<Rightarrow> u8 list" where
  "head pid start ada cter = header_bytes \<lparr>sync_byte = TS_SYNC_BYTE, tras_error = 0, play_init = of_bool start, tras_prio = 0,
     PID = pid AND 0x1fff, tras_scramb = 0, ada_field_C = ada AND 3, conti_cter = cter AND 15\<rparr>"

lemma length_head [simp]: "length (head pid start ada cter) = 4"
  by (simp add: head_def header_bytes_def)

lemma WriteStruct_Packetheader_ok:
  assumes "next_counter pid (continuity_counter session) = Inr (cter, cc)" "4 \<le> length Buf"
  shows "WriteStruct_Packetheader session Buf pid (of_bool start) ada =
    Inr (4, session\<lparr>continuity_counter := cc\<rparr>, head pid start ada cter @ drop 4 Buf)"
proof -
  have "of_bool start AND 1 = (of_bool start :: u8)" by (cases start) simp_all
  then show ?thesis
    using assms stores_ok [of 0 "head pid start ada cter" Buf]
    by (simp add: WriteStruct_Packetheader_def head_def [symmetric] length_head)
qed

lemma masks:
  "x AND 0x1f = take_bit 5 (x :: u32)" "x AND 0x1fff = take_bit 13 (x :: u32)" "y AND 0x1f = take_bit 5 (y :: u8)"
  "y AND 15 = take_bit 4 (y :: u8)" "y AND 3 = take_bit 2 (y :: u8)"
  by (simp_all add: take_bit_eq_mask mask_eq_exp_minus_1)

lemma head_fields:
  assumes "take_bit 13 pid = pid"
  shows "ts_pid (head pid start ada cter @ x) = pid" "ts_start (head pid start ada cter @ x) = start"
    "ts_counter (head pid start ada cter @ x) = cter AND 15"
    "drop_bit 4 ((head pid start ada cter @ x) ! 3) AND 3 = ada AND 3"
    "(head pid start ada cter @ x) ! 0 = 0x47" "\<not> bit ((head pid start ada cter @ x) ! 1) 7"
proof -
  have pid: "bit pid n \<Longrightarrow> n < 13" for n using assms by (metis bit_take_bit_iff)
  show "ts_pid (head pid start ada cter @ x) = pid"
    by (rule bit_word_eqI) (auto simp: ts_pid_def head_def header_bytes_def and_ff masks bit_simps dest: pid)
  show "ts_start (head pid start ada cter @ x) = start"
    by (simp add: ts_start_def head_def header_bytes_def masks bit_simps)
  show "ts_counter (head pid start ada cter @ x) = cter AND 15" 
    unfolding ts_counter_def masks by (rule bit_word_eqI) (auto simp: head_def header_bytes_def masks bit_simps)
  show "drop_bit 4 ((head pid start ada cter @ x) ! 3) AND 3 = ada AND 3"
    unfolding masks by (rule bit_word_eqI) (auto simp: head_def header_bytes_def masks bit_simps)
  show "(head pid start ada cter @ x) ! 0 = 0x47" by (simp add: head_def header_bytes_def)
  show "\<not> bit ((head pid start ada cter @ x) ! 1) 7" by (simp add: head_def header_bytes_def masks bit_simps)
qed

section \<open>Tables\<close>

definition pat_section :: "u8 list" where
  "pat_section = [0x00, 0xb0, 13, 0, 1, 0xc1, 0, 0, 0, 1, 0xef, 0xff]"

definition pmt_section :: "u8 list" where
  "pmt_section = [0x02, 0xb0, 23, 0, 1, 0xc1, 0, 0, 0xe1, 0x00, 0xf0, 0, 0x1b, 0xe1, 0x00, 0xf0, 0, 0x0f, 0xe1, 0x01, 0xf0, 0]"

definition checked :: "u8 list \<Rightarrow> u8 list" where
  "checked s = s @ be32 (crc_spec 0xffffffff s)"

lemma checked_crc: "crc_spec 0xffffffff (checked s) = 0"
  by (simp add: checked_def crc_spec_append crc_residue)

lemma pat_bytes_eq: "pat_bytes tspat = pat_section"
  by (simp add: pat_bytes_def tspat_def pat_section_def)

lemma pmt_bytes_eq: "pmt_bytes tspmt = pmt_section"
  by (simp add: pmt_bytes_def tspmt_def pmt_section_def)

definition table_packet :: "u32 \<Rightarrow> u8 \<Rightarrow> u8 list \<Rightarrow> u8 list" where
  "table_packet pid cter s = head pid True 1 cter @ 0 # checked s @ replicate (179 - length s) 0xFF"

lemma length_table_packet: "length s \<le> 179 \<Longrightarrow> length (table_packet pid cter s) = 188"
  by (simp add: table_packet_def checked_def be32_def)

lemma calc_crc32_spec:
  "length s = unat n \<Longrightarrow> calc_crc32 (s @ y) n = Inr (crc_spec 0xffffffff s)"
  by (simp add: calc_crc32_def crc_loop_spec)

lemma length_be32 [simp]: "length (be32 w) = 4"
  by (simp add: be32_def)

lemma length_sections [simp]: "length pat_section = 12" "length pmt_section = 22"
  by (simp_all add: pat_section_def pmt_section_def)

text \<open>The part the two tables share: the empty packet with its header, and the check value at the end.\<close>

lemma table_start:
  assumes "188 \<le> length Buf" "next_counter pid (continuity_counter session) = Inr (cter, cc)"
  shows "bind_result (memset 0 0xFF TS_PACKET_SIZE Buf) (\<lambda>Buf.
      bind_result (WriteStruct_Packetheader session Buf pid 1 1) (\<lambda>(pos, session, Buf).
      bind_result (store8 4 0 Buf) (f pos session))) =
    f 4 (session\<lparr>continuity_counter := cc\<rparr>) ((head pid True 1 cter @ [0]) @ replicate 183 0xFF @ drop 188 Buf)"
proof -
  have m: "memset 0 0xFF TS_PACKET_SIZE Buf = Inr (replicate 188 0xFF @ drop 188 Buf)"
    using assms(1) by (simp add: memset_ok TS_PACKET_SIZE_def)
  have h: "WriteStruct_Packetheader session (replicate 188 0xFF @ drop 188 Buf) pid 1 1 =
      Inr (4, session\<lparr>continuity_counter := cc\<rparr>, head pid True 1 cter @ replicate 184 0xFF @ drop 188 Buf)"
    using WriteStruct_Packetheader_ok [OF assms(2), of "replicate 188 0xFF @ drop 188 Buf" True] by simp
  have z: "store8 4 0 (head pid True 1 cter @ replicate 184 0xFF @ drop 188 Buf) =
      Inr ((head pid True 1 cter @ [0]) @ replicate 183 0xFF @ drop 188 Buf)"
    unfolding store8_stores by (subst stores_at) simp_all
  show ?thesis by (simp add: m h z)
qed

lemma table_end:
  assumes "length h = 4" "length s + 4 \<le> k" "length s = unat n"
  shows "bind_result (calc_crc32 (drop 5 ((h @ [0]) @ s @ replicate k 0xFF @ r)) n) (\<lambda>c.
      bind_result (store32 (5 + length s) (Zwg_ntohl c) ((h @ [0]) @ s @ replicate k 0xFF @ r)) f) =
    f (h @ 0 # checked s @ replicate (k - 4) 0xFF @ r)"
  using assms stores_at [of "h @ 0 # s" "5 + length s" "be32 (crc_spec 0xffffffff s)" "replicate k 0xFF @ r"]
  by (simp add: calc_crc32_spec store_crc checked_def)

lemma WriteStruct_Pat_ok:
  assumes "188 \<le> length Buf"
  shows "WriteStruct_Pat session Buf = Inr (188, session\<lparr>continuity_counter := (continuity_counter session)
      \<lparr>continuity_counter_pat := continuity_counter_pat (continuity_counter session) + 1\<rparr>\<rparr>,
    table_packet TS_PAT_PID (continuity_counter_pat (continuity_counter session) mod 16) pat_section @ drop 188 Buf)"
proof -
  let ?h = "head TS_PAT_PID True 1 (continuity_counter_pat (continuity_counter session) mod 16)"
  have nc: "next_counter TS_PAT_PID (continuity_counter session) = Inr (continuity_counter_pat (continuity_counter session) mod 16,
      (continuity_counter session)\<lparr>continuity_counter_pat := continuity_counter_pat (continuity_counter session) + 1\<rparr>)"
    by (simp add: next_counter_def)
  have p: "stores 5 pat_section ((?h @ [0]) @ replicate 183 0xFF @ r) = Inr ((?h @ [0]) @ pat_section @ replicate 171 0xFF @ r)" for r
    by (subst stores_at) simp_all
  show ?thesis
    unfolding WriteStruct_Pat_def pat_bytes_eq
    using table_end [of ?h pat_section 171 12]
    by (subst table_start [OF assms nc]) (simp add: Let_def p [simplified] table_packet_def del: bind_result_eq_Inr)
qed

lemma WriteStruct_Pmt_ok:
  assumes "188 \<le> length Buf"
  shows "WriteStruct_Pmt session Buf = Inr (188, session\<lparr>continuity_counter := (continuity_counter session)
      \<lparr>continuity_counter_pmt := continuity_counter_pmt (continuity_counter session) + 1\<rparr>\<rparr>,
    table_packet TS_PMT_PID (continuity_counter_pmt (continuity_counter session) mod 16) pmt_section @ drop 188 Buf)"
proof -
  let ?h = "head TS_PMT_PID True 1 (continuity_counter_pmt (continuity_counter session) mod 16)"
  have nc: "next_counter TS_PMT_PID (continuity_counter session) = Inr (continuity_counter_pmt (continuity_counter session) mod 16,
      (continuity_counter session)\<lparr>continuity_counter_pmt := continuity_counter_pmt (continuity_counter session) + 1\<rparr>)"
    by (simp add: next_counter_def)
  have p: "stores 5 pmt_section ((?h @ [0]) @ replicate 183 0xFF @ r) = Inr ((?h @ [0]) @ pmt_section @ replicate 161 0xFF @ r)" for r
    by (subst stores_at) simp_all
  have l: "stores 6 [0xb0, 23] (?h @ 0 # pmt_section @ y) = Inr (?h @ 0 # pmt_section @ y)" for y
    using stores_at [of "?h @ [0, 2]" 6 "[0xb0, 23]" "drop 1 pmt_section @ y"] by (simp add: pmt_section_def)
  show ?thesis
    unfolding WriteStruct_Pmt_def pmt_bytes_eq
    using table_end [of ?h pmt_section 161 22]
    by (subst table_start [OF assms nc]) (simp add: Let_def p [simplified] l table_packet_def
        del: bind_result_eq_Inr stores.simps)
qed

definition with_tables_room :: "TSPKG_SESSION \<Rightarrow> bool" where
  "with_tables_room session \<longleftrightarrow> 188 \<le> length (m_One_Frame_Buf session)"

text \<open>The effect of one table on the session.\<close>

definition send_packet :: "u8 list \<Rightarrow> TSPKG_SESSION \<Rightarrow> TSPKG_SESSION" where
  "send_packet p session = (if writets session then session\<lparr>sent := sent session @ [p]\<rparr> else session)"

lemma WriteFile_ok: "length p = n \<Longrightarrow> WriteFile session (p @ y) n = Inr (n, send_packet p session)"
  by (simp add: WriteFile_def send_packet_def read_bytes_def)

definition pat_sent :: "TSPKG_SESSION \<Rightarrow> TSPKG_SESSION" where
  "pat_sent session =
     (let cc = continuity_counter session; p = table_packet TS_PAT_PID (continuity_counter_pat cc mod 16) pat_section in
      send_packet p (session\<lparr>continuity_counter := cc\<lparr>continuity_counter_pat := continuity_counter_pat cc + 1\<rparr>,
        m_One_Frame_Buf := p @ drop 188 (m_One_Frame_Buf session)\<rparr>))"

definition pmt_sent :: "TSPKG_SESSION \<Rightarrow> TSPKG_SESSION" where
  "pmt_sent session =
     (let cc = continuity_counter session; p = table_packet TS_PMT_PID (continuity_counter_pmt cc mod 16) pmt_section in
      send_packet p (session\<lparr>continuity_counter := cc\<lparr>continuity_counter_pmt := continuity_counter_pmt cc + 1\<rparr>,
        m_One_Frame_Buf := p @ drop 188 (m_One_Frame_Buf session)\<rparr>))"

lemma Write_Pat_ok: "with_tables_room session \<Longrightarrow> Write_Pat session = Inr (pat_sent session)"
  by (simp add: Write_Pat_def with_tables_room_def WriteStruct_Pat_ok WriteFile_ok TS_PACKET_SIZE_def length_table_packet
      pat_sent_def Let_def)

lemma Write_Pmt_ok: "with_tables_room session \<Longrightarrow> Write_Pmt session = Inr (pmt_sent session)"
  by (simp add: Write_Pmt_def with_tables_room_def WriteStruct_Pmt_ok WriteFile_ok TS_PACKET_SIZE_def length_table_packet
      pmt_sent_def Let_def)

lemma mod_16: "c mod 16 = take_bit 4 (c :: u8)" "(c mod 16) AND 15 = c AND (15 :: u8)"
proof -
  show m: "c mod 16 = take_bit 4 c" by (simp add: take_bit_eq_mod)
  show "(c mod 16) AND 15 = c AND 15" by (simp add: masks m)
qed

lemma table_packet_valid:
  assumes "take_bit 13 pid = pid" "length s \<le> 179"
  shows "ts_valid (table_packet pid cter s)" "ts_pid (table_packet pid cter s) = pid" "ts_start (table_packet pid cter s)"
    "ts_counter (table_packet pid cter s) = cter AND 15"
    "ts_payload (table_packet pid cter s) = 0 # checked s @ replicate (179 - length s) 0xFF"
  using head_fields [OF assms(1), of True 1 cter "0 # checked s @ replicate (179 - length s) 0xFF"] assms(2)
  by (simp_all add: ts_valid_def ts_payload_def length_table_packet table_packet_def checked_def)

lemma section_checked:
  assumes "s ! 0 = table" "12 \<le> length s + 4" "word12 (s ! 1) (s ! 2) = length s + 1"
  shows "section_body table (0 # checked s @ y) = Some (drop 8 s)"
proof -
  have n: "checked s ! i = s ! i" if "i < 8" for i using assms(2) that by (simp add: checked_def nth_append)
  have l: "length (checked s) = length s + 4" by (simp add: checked_def)
  show ?thesis
    using assms n [of 0] n [of 1] n [of 2] checked_crc [of s] l
    by (simp add: section_body_def nth_append Let_def) (simp add: checked_def)
qed

lemma tables_read:
  "read_pat (table_packet TS_PAT_PID cter pat_section) = Some [(1, TS_PMT_PID)]"
  "read_pmt (table_packet TS_PMT_PID cter pmt_section) = Some (TS_H264_PID, [(0x1B, TS_H264_PID), (0x0F, TS_AAC_PID)])"
proof -
  have "section_body 0 (0 # checked pat_section @ y) = Some (drop 8 pat_section)" for y
    by (rule section_checked) (simp_all add: pat_section_def word12_def)
  then show "read_pat (table_packet TS_PAT_PID cter pat_section) = Some [(1, TS_PMT_PID)]"
    by (simp add: read_pat_def table_packet_valid(5)) (simp add: pat_section_def word13_def)
  have "section_body 2 (0 # checked pmt_section @ y) = Some (drop 8 pmt_section)" for y
    by (rule section_checked) (simp_all add: pmt_section_def word12_def)
  then show "read_pmt (table_packet TS_PMT_PID cter pmt_section) = Some (TS_H264_PID, [(0x1B, TS_H264_PID), (0x0F, TS_AAC_PID)])"
    by (simp add: read_pmt_def table_packet_valid(5)) (simp add: pmt_section_def word13_def word12_def)
qed

section \<open>Properties\<close>

text \<open>
  C32. \<open>Write_Pat\<close> followed by \<open>Write_Pmt\<close> sends two packets of 188 bytes from which a receiver reads, with matching check
  values, that program 1 is described in the packets 0xFFF, that its clock and its video (type 0x1B) are in the packets 0x100
  and its audio (type 0x0F) in the packets 0x101; each packet carries the current continuity counter of its table.
\<close>

theorem tables_read_back:
  assumes "writets s" "188 \<le> length (m_One_Frame_Buf s)"
  shows "\<exists>s' p q. bind_result (Write_Pat s) Write_Pmt = Inr s' \<and> sent s' = sent s @ [p, q] \<and>
    ts_valid p \<and> ts_start p \<and> ts_pid p = 0 \<and> ts_counter p = continuity_counter_pat (continuity_counter s) AND 15 \<and>
    read_pat p = Some [(1, 0xFFF)] \<and>
    ts_valid q \<and> ts_start q \<and> ts_pid q = 0xFFF \<and> ts_counter q = continuity_counter_pmt (continuity_counter s) AND 15 \<and>
    read_pmt q = Some (0x100, [(0x1B, 0x100), (0x0F, 0x101)]) \<and>
    continuity_counter s' = (continuity_counter s)
      \<lparr>continuity_counter_pat := continuity_counter_pat (continuity_counter s) + 1,
       continuity_counter_pmt := continuity_counter_pmt (continuity_counter s) + 1\<rparr>"
proof -
  let ?c = "continuity_counter s"
  let ?p = "table_packet TS_PAT_PID (continuity_counter_pat ?c mod 16) pat_section"
  let ?q = "table_packet TS_PMT_PID (continuity_counter_pmt ?c mod 16) pmt_section"
  note v = table_packet_valid [of TS_PAT_PID pat_section] table_packet_valid [of TS_PMT_PID pmt_section]
  have r: "with_tables_room s" "writets (pat_sent s)" "with_tables_room (pat_sent s)" "continuity_counter_pmt (continuity_counter (pat_sent s)) = continuity_counter_pmt ?c"
    "sent (pat_sent s) = sent s @ [?p]"
    using assms by (simp_all add: with_tables_room_def pat_sent_def send_packet_def Let_def length_table_packet)
  have "bind_result (Write_Pat s) Write_Pmt = Inr (pmt_sent (pat_sent s))" using assms r by (simp add: Write_Pat_ok Write_Pmt_ok)
  moreover have "sent (pmt_sent (pat_sent s)) = sent s @ [?p, ?q]"
    using r by (simp add: pmt_sent_def send_packet_def Let_def)
  moreover have "continuity_counter (pmt_sent (pat_sent s)) = ?c\<lparr>continuity_counter_pat := continuity_counter_pat ?c + 1,
       continuity_counter_pmt := continuity_counter_pmt ?c + 1\<rparr>"
    by (simp add: pmt_sent_def pat_sent_def send_packet_def Let_def)
  ultimately show ?thesis using v tables_read mod_16(2) by (intro exI [of _ "pmt_sent (pat_sent s)"] exI [of _ ?p] exI [of _ ?q]) (simp add: pat_section_def pmt_section_def)
qed

text \<open>A session as \<open>memset\<close> leaves it, with a callback.\<close>

definition zero_pes :: "nat \<Rightarrow> TsPes" where
  "zero_pes n = \<lparr>packet_start_code_prefix = 0, stream_id = 0, PES_packet_length = 0, marker_bit = 0, PES_scrambling_control = 0,
     PES_priority = 0, data_alignment_indicator = 0, copyright = 0, original_or_copy = 0, PTS_DTS_flags = 0, ESCR_flag = 0,
     ES_rate_flag = 0, DSM_trick_mode_flag = 0, additional_copy_info_flag = 0, PES_CRC_flag = 0, PES_extension_flag = 0,
     PES_header_data_length = 0,
     tsptsdts = \<lparr>reserved_1 = 0, pts_32_30 = 0, marker_bit1 = 0, pts_29_15 = 0, marker_bit2 = 0, pts_14_0 = 0, marker_bit3 = 0\<rparr>,
     Es = replicate n 0, Pes_Packet_Length_Beyond = 0\<rparr>"

definition zero_session :: "nat \<Rightarrow> TSPKG_SESSION" where
  "zero_session n = \<lparr>continuity_counter = \<lparr>continuity_counter_pat = 0, continuity_counter_pmt = 0, continuity_counter_video = 0,
     continuity_counter_audio = 0\<rparr>, m_One_Frame_Buf = replicate n 0, m_video_tspes = zero_pes n, m_audio_tspes = zero_pes n,
     WritePacketNum = 0, Timestamp_video = 0, Timestamp_audio = 0, session_pts = 0, decode_video_done = 0, decode_audio_done = 0,
     writets = True, sent = []\<rparr>"

theorem tables_read_back_witness:
  "\<exists>s' p q. bind_result (Write_Pat (zero_session 188)) Write_Pmt = Inr s' \<and> sent s' = [p, q] \<and> ts_counter p = 0 \<and> ts_counter q = 0 \<and>
    read_pat p = Some [(1, 0xFFF)] \<and> read_pmt q = Some (0x100, [(0x1B, 0x100), (0x0F, 0x101)])"
proof -
  have "writets (zero_session 188)" "188 \<le> length (m_One_Frame_Buf (zero_session 188))" "sent (zero_session 188) = []"
    "continuity_counter_pat (continuity_counter (zero_session 188)) = 0" "continuity_counter_pmt (continuity_counter (zero_session 188)) = 0"
    by (simp_all add: zero_session_def)
  with tables_read_back [of "zero_session 188"] show ?thesis by fastforce
qed

end
