(* ===== verification/Ts_Mux.thy ===== *)
theory Ts_Mux
  imports Ts_Packet
begin

text \<open>
  Cutting a frame into transport stream packets (\<open>ts/Mux.cpp\<close>): the adaptation field, the header of the elementary stream and
  \<open>PES2TS\<close>. The reference receiver of \<open>Ts_Packet\<close> collects the payloads of one packet identifier; it gets exactly the header
  and the bytes of the frame, with consecutive continuity counters, whatever the length of the frame is.
\<close>

unbundle bit_operations_syntax

section \<open>The adaptation field\<close>

type_synonym u64 = "64 word"

record Ts_Adaptation_field =
  discontinuty_indicator :: u8
  random_access_indicator :: u8
  elementary_stream_priority_indicator :: u8
  PCR_flag :: u8
  OPCR_flag :: u8
  splicing_point_flag :: u8
  transport_private_data_flag :: u8
  adaptation_field_extension_flag :: u8
  adaptation_field_length :: u8
  pcr :: u64
  opcr :: u64
  splice_countdown :: u8
  private_data_len :: u8
  private_data :: "u8 list"

text \<open>\<open>Videopts * 300\<close> is a product of 32 bits.\<close>

definition WriteAdaptive_flags_Head :: "Ts_Adaptation_field \<Rightarrow> u32 \<Rightarrow> Ts_Adaptation_field" where
  "WriteAdaptive_flags_Head af Videopts = af\<lparr>discontinuty_indicator := 0, random_access_indicator := 0,
     elementary_stream_priority_indicator := 0, PCR_flag := 1, OPCR_flag := 0, splicing_point_flag := 0,
     transport_private_data_flag := 0, adaptation_field_extension_flag := 0,
     pcr := ucast (Videopts * 300), adaptation_field_length := 7, opcr := 0, splice_countdown := 0, private_data_len := 0\<rparr>"

definition WriteAdaptive_flags_Tail :: "Ts_Adaptation_field \<Rightarrow> Ts_Adaptation_field" where
  "WriteAdaptive_flags_Tail af = af\<lparr>discontinuty_indicator := 0, random_access_indicator := 0,
     elementary_stream_priority_indicator := 0, PCR_flag := 0, OPCR_flag := 0, splicing_point_flag := 0,
     transport_private_data_flag := 0, adaptation_field_extension_flag := 0,
     pcr := 0, adaptation_field_length := 1, opcr := 0, splice_countdown := 0, private_data_len := 0\<rparr>"

text \<open>\<open>buf\<close> is the place \<open>base\<close> of the packet. The optional parts follow one another; each takes and returns the position, the
  length used so far, the flags and the packet.\<close>

type_synonym adaptive = "nat \<times> u32 \<times> u8 \<times> u8 list"

definition put_flag :: "u8 \<Rightarrow> u8 \<Rightarrow> adaptive \<Rightarrow> adaptive result" where
  "put_flag indicator v = (\<lambda>(pos, used, flags, m). Inr (pos, used, if indicator \<noteq> 0 then flags OR v else flags, m))"

definition pcr_bytes :: "u64 \<Rightarrow> u8 list" where
  "pcr_bytes c = (let pcr_base = c div 300; pcr_ext = c mod 300 in
     [ucast (drop_bit 25 pcr_base AND 0xff), ucast (drop_bit 17 pcr_base AND 0xff), ucast (drop_bit 9 pcr_base AND 0xff),
      ucast (drop_bit 1 pcr_base AND 0xff), ucast (push_bit 7 pcr_base OR drop_bit 8 pcr_ext OR 0x7e), ucast (pcr_ext AND 0xff)])"

definition put_pcr :: "Ts_Adaptation_field \<Rightarrow> nat \<Rightarrow> adaptive \<Rightarrow> adaptive result" where
  "put_pcr af base = (\<lambda>(pos, used, flags, m).
     if PCR_flag af \<noteq> 0 then
       bind_result (stores (base + pos) (pcr_bytes (pcr af)) m)
         (\<lambda>m. Inr (pos + 6, used + 6, flags OR 0x10, m))
     else Inr (pos, used, flags, m))"

definition put_opcr :: "Ts_Adaptation_field \<Rightarrow> nat \<Rightarrow> adaptive \<Rightarrow> adaptive result" where
  "put_opcr af base = (\<lambda>(pos, used, flags, m).
     if OPCR_flag af \<noteq> 0 then
       let opcr_base = opcr af div 300; opcr_ext = opcr af mod 300 in
       bind_result (stores (base + pos)
         [ucast (drop_bit 25 opcr_base AND 0xff), ucast (drop_bit 17 opcr_base AND 0xff), ucast (drop_bit 9 opcr_base AND 0xff),
          ucast (drop_bit 1 opcr_base AND 0xff), ucast ((push_bit 7 opcr_base AND 0x80) OR (drop_bit 8 opcr_ext AND 0x01)),
          ucast (opcr_ext AND 0xff)] m)
         (\<lambda>m. Inr (pos + 6, used + 6, flags OR 0x08, m))
     else Inr (pos, used, flags, m))"

definition put_splice :: "Ts_Adaptation_field \<Rightarrow> nat \<Rightarrow> adaptive \<Rightarrow> adaptive result" where
  "put_splice af base = (\<lambda>(pos, used, flags, m).
     if splicing_point_flag af \<noteq> 0 then
       bind_result (store8 (base + pos) (splice_countdown af) m) (\<lambda>m. Inr (pos + 1, used + 1, flags OR 0x04, m))
     else Inr (pos, used, flags, m))"

definition put_private :: "Ts_Adaptation_field \<Rightarrow> u32 \<Rightarrow> nat \<Rightarrow> adaptive \<Rightarrow> adaptive result" where
  "put_private af AdaptiveLength base = (\<lambda>(pos, used, flags, m).
     if private_data_len af > 0 then
       if 1 + ucast (private_data_len af) > AdaptiveLength - used then Inl Aborted
       else
         bind_result (store8 (base + pos) (private_data_len af) m) (\<lambda>m.
         bind_result (memcpy (base + pos + 1) (private_data af) (unat (private_data_len af)) m) (\<lambda>m.
         Inr (pos + 1 + unat (private_data_len af), used + (1 + ucast (private_data_len af)), flags OR 0x02, m)))
     else Inr (pos, used, flags, m))"

definition put_extension :: "Ts_Adaptation_field \<Rightarrow> nat \<Rightarrow> adaptive \<Rightarrow> adaptive result" where
  "put_extension af base = (\<lambda>(pos, used, flags, m).
     if adaptation_field_extension_flag af \<noteq> 0 then
       bind_result (stores (base + pos + 1) [1, 0] m) (\<lambda>m. Inr (pos, used + 2, flags OR 0x01, m))
     else Inr (pos, used, flags, m))"

definition CreateAdaptive_Ts :: "Ts_Adaptation_field \<Rightarrow> nat \<Rightarrow> u32 \<Rightarrow> u8 list \<Rightarrow> u8 list result" where
  "CreateAdaptive_Ts af base AdaptiveLength m =
     (if adaptation_field_length af > 0 then
        bind_result (put_flag (discontinuty_indicator af) 0x80 (1, 2, 0, m)) (\<lambda>a.
        bind_result (put_flag (random_access_indicator af) 0x40 a) (\<lambda>a.
        bind_result (put_flag (elementary_stream_priority_indicator af) 0x20 a) (\<lambda>a.
        bind_result (put_pcr af base a) (\<lambda>a.
        bind_result (put_opcr af base a) (\<lambda>a.
        bind_result (put_splice af base a) (\<lambda>a.
        bind_result (put_private af AdaptiveLength base a) (\<lambda>a.
        bind_result (put_extension af base a) (\<lambda>(pos, used, flags, m).
        store8 base flags m))))))))
      else Inr m)"

section \<open>The header of the elementary stream\<close>

definition pes_header_bytes :: "TsPes \<Rightarrow> u8 list" where
  "pes_header_bytes p =
     [ucast (drop_bit 16 (packet_start_code_prefix p) AND 0xFF), ucast (drop_bit 8 (packet_start_code_prefix p) AND 0xFF),
      ucast (packet_start_code_prefix p AND 0xFF), stream_id p,
      ucast (drop_bit 8 (PES_packet_length p) AND 0xFF), ucast (PES_packet_length p AND 0xFF),
      push_bit 6 (marker_bit p) OR push_bit 4 (PES_scrambling_control p) OR push_bit 3 (PES_priority p) OR
        push_bit 2 (data_alignment_indicator p) OR push_bit 1 (copyright p) OR original_or_copy p,
      push_bit 6 (PTS_DTS_flags p) OR push_bit 5 (ESCR_flag p) OR push_bit 4 (ES_rate_flag p) OR
        push_bit 3 (DSM_trick_mode_flag p) OR push_bit 2 (additional_copy_info_flag p) OR push_bit 1 (PES_CRC_flag p) OR
        PES_extension_flag p,
      PES_header_data_length p]"

definition pts_bytes :: "u32 \<Rightarrow> u8 list" where
  "pts_bytes pts = map ucast
     [(push_bit 4 0x3 OR (drop_bit 29 pts AND 0x0E) OR 0x01) AND 0xff,
      drop_bit 8 ((drop_bit 14 pts AND 0xfffe) OR 0x01) AND 0xff,
      ((drop_bit 14 pts AND 0xfffe) OR 0x01) AND 0xff,
      drop_bit 8 ((push_bit 1 pts AND 0xfffe) OR 0x01) AND 0xff,
      ((push_bit 1 pts AND 0xfffe) OR 0x01) AND 0xff]"

definition put_pes_header :: "TsPes \<Rightarrow> u32 \<Rightarrow> u32 \<Rightarrow> nat \<Rightarrow> u8 list \<Rightarrow> (nat \<times> u8 list) result" where
  "put_pes_header ts_pes Videopts Adudiopts ts_pos m =
     bind_result (stores ts_pos (pes_header_bytes ts_pes) m) (\<lambda>m.
     let ts_pos = ts_pos + 9 in
     if stream_id ts_pes = TS_H264_STREAM_ID then
       bind_result (stores ts_pos (pts_bytes Videopts) m) (\<lambda>m. Inr (ts_pos + 5, m))
     else if stream_id ts_pes = TS_AAC_STREAM_ID then
       bind_result (stores ts_pos (pts_bytes Adudiopts) m) (\<lambda>m. Inr (ts_pos + 5, m))
     else Inl Aborted)"

section \<open>Packets\<close>

text \<open>\<open>WriteFile\<close> of the packet and \<open>WritePacketNum++\<close>.\<close>

definition put_packet :: "TSPKG_SESSION \<Rightarrow> u8 list \<Rightarrow> TSPKG_SESSION result" where
  "put_packet session TSbuf =
     bind_result (WriteFile session TSbuf TS_PACKET_SIZE) (\<lambda>(n, session). Inr session)"

abbreviation count_packet :: "TSPKG_SESSION \<Rightarrow> TSPKG_SESSION" where
  "count_packet session \<equiv> session\<lparr>WritePacketNum := WritePacketNum session + 1\<rparr>"

text \<open>\<open>if ((session->WritePacketNum % 40) == 0)\<close>: the two tables.\<close>

definition tables_due :: "TSPKG_SESSION \<Rightarrow> TSPKG_SESSION result" where
  "tables_due session = (if WritePacketNum session mod 40 = 0 then bind_result (Write_Pat session) Write_Pmt else Inr session)"

text \<open>The case of one packet.\<close>

definition single_packet :: "TSPKG_SESSION \<Rightarrow> TsPes \<Rightarrow> u32 \<Rightarrow> u32 \<Rightarrow> u32 \<Rightarrow> TSPKG_SESSION result" where
  "single_packet session ts_pes pid Videopts Adudiopts =
     (let beyond = Pes_Packet_Length_Beyond ts_pes in
      bind_result (memset 0 0xFF TS_PACKET_SIZE (replicate TS_PACKET_SIZE 0)) (\<lambda>TSbuf.
      bind_result (WriteStruct_Packetheader session TSbuf pid 0x01 0x03) (\<lambda>(ts_pos, session, TSbuf).
      bind_result (stores ts_pos [ucast (184 - beyond - 9 - 5 - 1), 0x00] TSbuf) (\<lambda>TSbuf.
      let ts_pos = ts_pos + 2 in
      bind_result (memset ts_pos 0xFF (unat (184 - beyond - 9 - 5 - 2)) TSbuf) (\<lambda>TSbuf.
      let ts_pos = ts_pos + unat (184 - beyond - 9 - 5 - 2) in
      bind_result (put_pes_header ts_pes Videopts Adudiopts ts_pos TSbuf) (\<lambda>(ts_pos, TSbuf).
      bind_result (memcpy ts_pos (Es ts_pes) (unat beyond) TSbuf) (\<lambda>TSbuf.
      bind_result (put_packet session TSbuf) (\<lambda>session. Inr (count_packet session)))))))))"

definition first_packet ::
  "TSPKG_SESSION \<Rightarrow> TsPes \<Rightarrow> u32 \<Rightarrow> Ts_Adaptation_field \<Rightarrow> u32 \<Rightarrow> u32 \<Rightarrow> u32 \<Rightarrow> TSPKG_SESSION result" where
  "first_packet session ts_pes pid af FirstPacketLoadLength Videopts Adudiopts =
     bind_result (WriteStruct_Packetheader session (replicate TS_PACKET_SIZE 0) pid 0x01 0x03) (\<lambda>(ts_pos, session, TSbuf).
     bind_result (store8 ts_pos (adaptation_field_length af) TSbuf) (\<lambda>TSbuf.
     let ts_pos = ts_pos + 1 in
     bind_result (CreateAdaptive_Ts af ts_pos (188 - 4 - 1 - 14) TSbuf) (\<lambda>TSbuf.
     let ts_pos = ts_pos + unat (adaptation_field_length af) in
     bind_result (put_pes_header ts_pes Videopts Adudiopts ts_pos TSbuf) (\<lambda>(ts_pos, TSbuf).
     bind_result (memcpy ts_pos (Es ts_pes) (unat FirstPacketLoadLength) TSbuf) (\<lambda>TSbuf.
     bind_result (put_packet session TSbuf) (\<lambda>session. Inr (count_packet session)))))))"

text \<open>The three kinds of packets inside the loop; \<open>Neaf\<close> is what \<open>NeafBuf\<close> points to.\<close>

definition middle_packet :: "TSPKG_SESSION \<Rightarrow> u8 list \<Rightarrow> u32 \<Rightarrow> TSPKG_SESSION result" where
  "middle_packet session Neaf pid =
     bind_result (WriteStruct_Packetheader session (replicate TS_PACKET_SIZE 0) pid 0x00 0x01) (\<lambda>(ts_pos, session, TSbuf).
     bind_result (memcpy ts_pos Neaf 184 TSbuf) (\<lambda>TSbuf. put_packet session TSbuf))"

definition almost_full_packet :: "TSPKG_SESSION \<Rightarrow> u8 list \<Rightarrow> u32 \<Rightarrow> TSPKG_SESSION result" where
  "almost_full_packet session Neaf pid =
     bind_result (tables_due session) (\<lambda>session.
     bind_result (WriteStruct_Packetheader session (replicate TS_PACKET_SIZE 0) pid 0x00 0x03) (\<lambda>(ts_pos, session, TSbuf).
     bind_result (stores ts_pos [0x01, 0x00] TSbuf) (\<lambda>TSbuf.
     let ts_pos = ts_pos + 2 in
     bind_result (memcpy ts_pos Neaf 182 TSbuf) (\<lambda>TSbuf. put_packet session TSbuf))))"

definition last_packet :: "TSPKG_SESSION \<Rightarrow> u8 list \<Rightarrow> u32 \<Rightarrow> u32 \<Rightarrow> TSPKG_SESSION result" where
  "last_packet session Neaf pid beyond =
     bind_result (tables_due session) (\<lambda>session.
     bind_result (WriteStruct_Packetheader session (replicate TS_PACKET_SIZE 0) pid 0x00 0x03) (\<lambda>(ts_pos, session, TSbuf).
     bind_result (stores ts_pos [ucast (184 - beyond - 1), 0x00] TSbuf) (\<lambda>TSbuf.
     let ts_pos = ts_pos + 2 in
     bind_result (memset ts_pos 0xFF (unat (184 - beyond - 2)) TSbuf) (\<lambda>TSbuf.
     let ts_pos = ts_pos + unat (184 - beyond - 2) in
     bind_result (memcpy ts_pos Neaf (unat beyond) TSbuf) (\<lambda>TSbuf.
     bind_result (put_packet session TSbuf) (\<lambda>session. Inr (count_packet session)))))))"

function pes_loop :: "TSPKG_SESSION \<Rightarrow> u8 list \<Rightarrow> u32 \<Rightarrow> u32 \<Rightarrow> TSPKG_SESSION result" where
  "pes_loop session Neaf pid beyond =
     (if beyond = 0 then Inr session
      else bind_result (tables_due session) (\<lambda>session.
        if beyond \<ge> 184 then
          bind_result (middle_packet session Neaf pid) (\<lambda>session.
          pes_loop (count_packet session) (drop 184 Neaf) pid (beyond - 184))
        else if beyond = 183 \<or> beyond = 182 then
          bind_result (almost_full_packet session Neaf pid) (\<lambda>session.
          pes_loop (count_packet session) (drop 182 Neaf) pid (beyond - 182))
        else
          bind_result (last_packet session Neaf pid beyond) (\<lambda>session. pes_loop (count_packet session) Neaf pid 0)))"
  by pat_completeness auto
termination
  by (relation "measure (\<lambda>(session, Neaf, pid, beyond). unat beyond)") (auto simp: word_le_nat_alt unat_sub unat_gt_0)

declare pes_loop.simps [simp del]

definition PES2TS ::
  "TSPKG_SESSION \<Rightarrow> TsPes \<Rightarrow> u32 \<Rightarrow> Ts_Adaptation_field \<Rightarrow> u32 \<Rightarrow> u32 \<Rightarrow> (u32 \<times> TSPKG_SESSION \<times> TsPes) result" where
  "PES2TS session ts_pes pid af_head Videopts Adudiopts =
     (let FirstPacketLoadLength = 188 - 4 - 1 - ucast (adaptation_field_length af_head) - 14;
          beyond = Pes_Packet_Length_Beyond ts_pes in
      if beyond < FirstPacketLoadLength then
        bind_result (single_packet session ts_pes pid Videopts Adudiopts) (\<lambda>session.
        Inr (WritePacketNum session, session, ts_pes))
      else
        bind_result (tables_due session) (\<lambda>session.
        bind_result (first_packet session ts_pes pid af_head FirstPacketLoadLength Videopts Adudiopts) (\<lambda>session.
        bind_result (pes_loop session (drop (unat FirstPacketLoadLength) (Es ts_pes)) pid (beyond - FirstPacketLoadLength)) (\<lambda>session.
        Inr (WritePacketNum session, session, ts_pes\<lparr>Pes_Packet_Length_Beyond := 0\<rparr>)))))"

section \<open>What a receiver gets\<close>

text \<open>The video stream (\<open>True\<close>) and the audio stream; their identifiers and continuity counters.\<close>

definition pid_of :: "bool \<Rightarrow> u32" where
  "pid_of video = (if video then TS_H264_PID else TS_AAC_PID)"

definition counter :: "bool \<Rightarrow> TSPKG_SESSION \<Rightarrow> u8" where
  "counter video s = (if video then continuity_counter_video (continuity_counter s) else continuity_counter_audio (continuity_counter s))"

text \<open>The packets of one stream, and for each of them whether a unit starts in it and what it carries.\<close>

definition own :: "bool \<Rightarrow> u8 list list \<Rightarrow> u8 list list" where
  "own video ps = filter (\<lambda>p. ts_pid p = pid_of video) ps"

definition carried :: "bool \<Rightarrow> u8 list list \<Rightarrow> (bool \<times> u8 list) list" where
  "carried video ps = map (\<lambda>p. (ts_start p, ts_payload p)) (own video ps)"

primrec numbered :: "u8 \<Rightarrow> u8 list \<Rightarrow> bool" where
  "numbered c [] \<longleftrightarrow> True"
| "numbered c (x # xs) \<longleftrightarrow> x = c AND 15 \<and> numbered (c + 1) xs"

definition table :: "u8 list \<Rightarrow> bool" where
  "table p \<longleftrightarrow> ts_pid p = TS_PAT_PID \<and> read_pat p = Some [(1, TS_PMT_PID)] \<or>
     ts_pid p = TS_PMT_PID \<and> read_pmt p = Some (TS_H264_PID, [(0x1B, TS_H264_PID), (0x0F, TS_AAC_PID)])"

definition stream_packets :: "TSPKG_SESSION \<Rightarrow> u8 list list \<Rightarrow> bool" where
  "stream_packets s ps \<longleftrightarrow> (\<forall>p\<in>set ps. ts_valid p \<and> (ts_pid p = pid_of True \<or> ts_pid p = pid_of False \<or> table p)) \<and>
     (\<forall>video. numbered (counter video s) (map ts_counter (own video ps)))"

text \<open>From \<open>s\<close> to \<open>s'\<close> these packets were sent; apart from packet counts and the buffer for tables nothing else changed.\<close>

definition kept :: "TSPKG_SESSION \<Rightarrow> TsPes \<times> TsPes \<times> u32 list \<times> bool \<times> nat" where
  "kept s = (m_video_tspes s, m_audio_tspes s,
     [Timestamp_video s, Timestamp_audio s, session_pts s, decode_video_done s, decode_audio_done s], writets s, length (m_One_Frame_Buf s))"

definition emits :: "TSPKG_SESSION \<Rightarrow> u8 list list \<Rightarrow> TSPKG_SESSION \<Rightarrow> bool" where
  "emits s ps s' \<longleftrightarrow> sent s' = sent s @ ps \<and> stream_packets s ps \<and> kept s' = kept s \<and>
     (\<forall>video. counter video s' = counter video s + of_nat (length (own video ps)))"

definition ready :: "TSPKG_SESSION \<Rightarrow> bool" where
  "ready s \<longleftrightarrow> writets s \<and> with_tables_room s"

lemma own_simps [simp]:
  "own video [] = []" "own video (ps @ qs) = own video ps @ own video qs"
  by (simp_all add: own_def)

lemma carried_simps [simp]: "carried video [] = []" "carried video (ps @ qs) = carried video ps @ carried video qs"
  by (simp_all add: carried_def)

lemma numbered_append: "numbered c (xs @ ys) \<longleftrightarrow> numbered c xs \<and> numbered (c + of_nat (length xs)) ys"
  by (induction xs arbitrary: c) (simp_all add: add.assoc add.commute)

lemma emits_refl: "emits s [] s"
  by (simp add: emits_def stream_packets_def)

lemma emits_trans: "emits s ps s' \<Longrightarrow> emits s' qs s'' \<Longrightarrow> emits s (ps @ qs) s''"
  unfolding emits_def stream_packets_def by (auto simp: numbered_append add.assoc)

lemma emits_ready: "emits s ps s' \<Longrightarrow> ready s \<Longrightarrow> ready s'"
  by (auto simp: emits_def ready_def with_tables_room_def kept_def)

lemma count_packet_kept [simp]: "counter video (count_packet s) = counter video s" "kept (count_packet s) = kept s"
  by (simp_all add: counter_def kept_def)

lemma emits_count: "emits s ps s' \<Longrightarrow> emits s ps (count_packet s')"
  by (simp add: emits_def)

lemma pid_of_simps:
  "take_bit 13 (pid_of video) = pid_of video" "pid_of video = pid_of video' \<longleftrightarrow> video = video'"
  "pid_of video \<noteq> TS_PAT_PID" "pid_of video \<noteq> TS_PMT_PID"
  by (auto simp: pid_of_def)

lemma own_table: "table p \<Longrightarrow> own video [p] = []"
  by (auto simp: table_def own_def pid_of_def)

lemma table_own: "table p \<Longrightarrow> ts_pid p \<noteq> pid_of video"
  by (auto simp: table_def pid_of_def)

lemma tables_valid:
  "ts_valid (table_packet TS_PAT_PID c pat_section) \<and> table (table_packet TS_PAT_PID c pat_section)"
  "ts_valid (table_packet TS_PMT_PID c pmt_section) \<and> table (table_packet TS_PMT_PID c pmt_section)"
  by (simp_all add: table_packet_valid table_def tables_read)

lemma emits_table:
  assumes "ts_valid p" "table p" "sent s' = sent s @ [p]" "kept s' = kept s" "\<And>video. counter video s' = counter video s"
  shows "emits s [p] s'"
  using assms by (simp add: emits_def stream_packets_def own_table)

lemma tables_due_ok:
  assumes "ready s"
  obtains s' ps where "tables_due s = Inr s'" "emits s ps s'" "\<And>video. own video ps = []"
proof (cases "WritePacketNum s mod 40 = 0")
  case True
  note w = assms [unfolded ready_def]
  have 1: "emits s [table_packet TS_PAT_PID (continuity_counter_pat (continuity_counter s) mod 16) pat_section] (pat_sent s)"
    using tables_valid(1) w by (intro emits_table)
      (auto simp: pat_sent_def send_packet_def kept_def counter_def Let_def with_tables_room_def length_table_packet)
  note r = emits_ready [OF 1 assms, unfolded ready_def]
  have 2: "emits (pat_sent s) [table_packet TS_PMT_PID (continuity_counter_pmt (continuity_counter (pat_sent s)) mod 16) pmt_section]
      (pmt_sent (pat_sent s))"
    using tables_valid(2) r by (intro emits_table)
      (auto simp: pmt_sent_def send_packet_def kept_def counter_def Let_def with_tables_room_def length_table_packet)
  show ?thesis
    by (rule that [OF _ emits_trans [OF 1 2]]) (use True w r tables_valid in
      \<open>simp_all add: tables_due_def Write_Pat_ok Write_Pmt_ok own_def table_own\<close>)
next
  case False
  then show ?thesis using that [of s "[]"] by (simp add: tables_due_def emits_refl)
qed

text \<open>Packets of one stream only.\<close>

definition sends :: "bool \<Rightarrow> TSPKG_SESSION \<Rightarrow> (bool \<times> u8 list) list \<Rightarrow> TSPKG_SESSION \<Rightarrow> bool" where
  "sends video s us s' \<longleftrightarrow> (\<exists>ps. emits s ps s' \<and> carried video ps = us \<and> carried (\<not> video) ps = [])"

lemma sends_trans: "sends video s us s' \<Longrightarrow> sends video s' vs s'' \<Longrightarrow> sends video s (us @ vs) s''"
  unfolding sends_def using emits_trans by fastforce

lemma sends_refl: "sends video s [] s"
  unfolding sends_def using emits_refl by fastforce

lemma sends_count: "sends video s us s' \<Longrightarrow> sends video s us (count_packet s')"
  unfolding sends_def using emits_count by blast

lemma sends_ready: "sends video s us s' \<Longrightarrow> ready s \<Longrightarrow> ready s'"
  unfolding sends_def using emits_ready by blast

lemma tables_due_sends:
  assumes "ready s"
  obtains s' where "tables_due s = Inr s'" "sends video s [] s'"
proof -
  obtain s' ps where "tables_due s = Inr s'" "emits s ps s'" "\<And>video. own video ps = []"
    using tables_due_ok [OF assms] by blast
  then show ?thesis using that by (auto simp: sends_def carried_def)
qed

section \<open>Packets\<close>

definition bump :: "bool \<Rightarrow> Continuity_Counter \<Rightarrow> Continuity_Counter" where
  "bump video cc = (if video then cc\<lparr>continuity_counter_video := continuity_counter_video cc + 1\<rparr>
     else cc\<lparr>continuity_counter_audio := continuity_counter_audio cc + 1\<rparr>)"

abbreviation bumped :: "bool \<Rightarrow> TSPKG_SESSION \<Rightarrow> TSPKG_SESSION" where
  "bumped video s \<equiv> s\<lparr>continuity_counter := bump video (continuity_counter s)\<rparr>"

abbreviation head_of :: "bool \<Rightarrow> TSPKG_SESSION \<Rightarrow> bool \<Rightarrow> u8 \<Rightarrow> u8 list" where
  "head_of video s start ada \<equiv> head (pid_of video) start ada (counter video s mod 16)"

lemma header_written:
  assumes "4 \<le> length Buf"
  shows "WriteStruct_Packetheader s Buf (pid_of video) (of_bool start) ada = Inr (4, bumped video s, head_of video s start ada @ drop 4 Buf)"
  by (rule WriteStruct_Packetheader_ok [OF _ assms]) (simp add: next_counter_def pid_of_def counter_def bump_def)

text \<open>What a packet with this header carries, with and without an adaptation field.\<close>

definition frames :: "u8 \<Rightarrow> u8 list \<Rightarrow> u8 list \<Rightarrow> bool" where
  "frames ada body d \<longleftrightarrow> length body = 184 \<and> d \<noteq> [] \<and> (ada = 1 \<and> body = d \<or> ada = 3 \<and> (\<exists>n af. body = n # af @ d \<and> length af = unat n))"

lemma packet_fields:
  assumes "frames ada body d"
  shows "ts_valid (head_of video s start ada @ body)" "ts_pid (head_of video s start ada @ body) = pid_of video"
    "ts_start (head_of video s start ada @ body) = start" "ts_counter (head_of video s start ada @ body) = counter video s AND 15"
    "ts_payload (head_of video s start ada @ body) = d"
proof -
  note h = head_fields [OF pid_of_simps(1), of video start ada "counter video s mod 16" body]
  show "ts_pid (head_of video s start ada @ body) = pid_of video" "ts_start (head_of video s start ada @ body) = start"
    "ts_counter (head_of video s start ada @ body) = counter video s AND 15" using h by (simp_all add: mod_16(2))
  have ada: "ada AND 3 = ada" using assms by (auto simp: frames_def)
  show "ts_payload (head_of video s start ada @ body) = d"
    using assms h(4) by (auto simp: frames_def ts_payload_def nth_append)
  show "ts_valid (head_of video s start ada @ body)"
    using assms h(4,5,6) by (cases d) (auto simp: frames_def ts_valid_def nth_append)
qed

lemma put_packet_sends:
  assumes "ready s" "frames ada body d"
  obtains s' where "put_packet (bumped video s) (head_of video s start ada @ body) = Inr s'" "sends video s [(start, d)] s'"
proof -
  let ?p = "head_of video s start ada @ body" and ?s = "send_packet (head_of video s start ada @ body) (bumped video s)"
  note f = packet_fields [OF assms(2), where video = video and s = s and start = start]
  have "length ?p = 188" using f(1) by (simp add: ts_valid_def)
  then have w: "put_packet (bumped video s) ?p = Inr ?s"
    using WriteFile_ok [of ?p 188 "bumped video s" "[]"] by (simp add: put_packet_def TS_PACKET_SIZE_def)
  have ow: "own video' [?p] = (if video' = video then [?p] else [])" for video'
    using f(2) by (auto simp: own_def pid_of_simps)
  have "stream_packets s [?p]"
    unfolding stream_packets_def ow using f(1,2,4) by (cases video) auto
  moreover have "sent ?s = sent s @ [?p]" "kept ?s = kept s"
    using assms(1) by (simp_all add: send_packet_def ready_def kept_def)
  moreover have "counter video' ?s = counter video' s + of_nat (length (own video' [?p]))" for video'
    unfolding ow by (auto simp: send_packet_def counter_def bump_def)
  ultimately have "emits s [?p] ?s" by (simp add: emits_def)
  then have "sends video s [(start, d)] ?s"
    unfolding sends_def using f(3,5) by (intro exI [of _ "[?p]"]) (simp add: carried_def ow)
  then show ?thesis using that w by blast
qed

lemma middle_packet_ok:
  assumes "ready s" "184 \<le> length Neaf"
  obtains s' where "middle_packet s Neaf (pid_of video) = Inr s'" "sends video s [(False, take 184 Neaf)] s'"
proof -
  have fr: "frames 1 (take 184 Neaf) (take 184 Neaf)" using assms(2) by (auto simp: frames_def)
  obtain s' where p: "put_packet (bumped video s) (head_of video s False 1 @ take 184 Neaf) = Inr s'"
    "sends video s [(False, take 184 Neaf)] s'" by (rule put_packet_sends [OF assms(1) fr])
  have "middle_packet s Neaf (pid_of video) = Inr s'"
    using header_written [of "replicate 188 0" s video False 1] assms(2) p(1)
    by (simp add: middle_packet_def TS_PACKET_SIZE_def memcpy_ok)
  then show ?thesis using that p(2) by blast
qed

lemma almost_full_packet_ok:
  assumes "ready s" "182 \<le> length Neaf"
  obtains s' where "almost_full_packet s Neaf (pid_of video) = Inr s'" "sends video s [(False, take 182 Neaf)] s'"
proof -
  obtain s1 where t: "tables_due s = Inr s1" "sends video s [] s1" by (rule tables_due_sends [OF assms(1)])
  have fr: "frames 3 ([1, 0] @ take 182 Neaf) (take 182 Neaf)"
    using assms(2) by (auto simp: frames_def)
  obtain s' where p: "put_packet (bumped video s1) (head_of video s1 False 3 @ [1, 0] @ take 182 Neaf) = Inr s'"
    "sends video s1 [(False, take 182 Neaf)] s'" by (rule put_packet_sends [OF sends_ready [OF t(2) assms(1)] fr])
  have "stores 4 [1, 0] (head_of video s1 False 3 @ replicate 184 0) = Inr ((head_of video s1 False 3 @ [1, 0]) @ replicate 182 0)"
    by (subst stores_at) simp_all
  moreover have "memcpy 6 Neaf 182 ((head_of video s1 False 3 @ [1, 0]) @ replicate 182 0) = Inr ((head_of video s1 False 3 @ [1, 0]) @ take 182 Neaf)"
    using assms(2) by (subst memcpy_ok) simp_all
  ultimately have "almost_full_packet s Neaf (pid_of video) = Inr s'"
    using header_written [of "replicate 188 0" s1 video False 3] p(1) t(1)
    by (simp add: almost_full_packet_def TS_PACKET_SIZE_def del: stores.simps)
  then show ?thesis using that sends_trans [OF t(2) p(2)] by simp
qed

lemma small_words:
  "m < 256 \<Longrightarrow> unat (of_nat m :: u8) = m" "m < 256 \<Longrightarrow> unat (of_nat m :: u32) = m"
  "m < 256 \<Longrightarrow> ucast (of_nat m :: u32) = (of_nat m :: u8)" "m < 256 \<Longrightarrow> ucast (of_nat m :: u8) = (of_nat m :: u32)"
proof -
  assume m: "m < 256"
  show u: "unat (of_nat m :: u8) = m" "unat (of_nat m :: u32) = m" using m by (simp_all add: unat_of_nat)
  show "ucast (of_nat m :: u32) = (of_nat m :: u8)" by (metis u(2) of_nat_unat)
  show "ucast (of_nat m :: u8) = (of_nat m :: u32)" by (metis u(1) of_nat_unat)
qed

text \<open>The padding of a packet that carries \<open>n\<close> bytes: the field has \<open>183 - n\<close> bytes behind its length.\<close>

lemma padding_frames:
  assumes "0 < length d" "length d < 182"
  shows "frames 3 ([of_nat (183 - length d), 0] @ replicate (182 - length d) 0xFF @ d) d"
proof -
  have "unat (of_nat (183 - length d) :: u8) = 183 - length d" by (rule small_words(1)) simp
  then show ?thesis
    using assms unfolding frames_def
    by (auto intro!: exI [of _ "of_nat (183 - length d)"] exI [of _ "0 # replicate (182 - length d) 0xFF"])
qed

lemma last_packet_ok:
  assumes "ready s" "0 < n" "n < 182" "n \<le> length Neaf"
  obtains s' where "last_packet s Neaf (pid_of video) (of_nat n) = Inr s'" "sends video s [(False, take n Neaf)] s'"
proof -
  obtain s1 where t: "tables_due s = Inr s1" "sends video s [] s1" by (rule tables_due_sends [OF assms(1)])
  define a b where "a = 183 - n" and "b = 182 - n"
  have ab: "a < 256" "b + n = 182" "b < 256" using assms(3) by (simp_all add: a_def b_def)
  let ?h = "head_of video s1 False 3 @ [of_nat a, 0]"
  have fr: "frames 3 ([of_nat a, 0] @ replicate b 0xFF @ take n Neaf) (take n Neaf)"
    using padding_frames [of "take n Neaf"] assms(2-4) by (simp add: a_def b_def)
  obtain s' where p: "put_packet (bumped video s1) (head_of video s1 False 3 @ [of_nat a, 0] @ replicate b 0xFF @ take n Neaf) = Inr s'"
    "sends video s1 [(False, take n Neaf)] s'" by (rule put_packet_sends [OF sends_ready [OF t(2) assms(1)] fr])
  have n1: "(184 - of_nat n - 1 :: u32) = of_nat a" "(184 - of_nat n - 2 :: u32) = of_nat b"
    using assms(3) by (simp_all add: a_def b_def of_nat_diff)
  have n2: "unat (of_nat n :: u32) = n" using assms(3) by (simp add: small_words)
  have "stores 4 [of_nat a, 0] (head_of video s1 False 3 @ replicate 184 0) = Inr (?h @ replicate 182 0)"
    by (subst stores_at) simp_all
  moreover have "memset 6 0xFF b (?h @ replicate 182 0) = Inr ((?h @ replicate b 0xFF) @ replicate n 0)"
    using ab(2) by (subst memset_at) (simp_all add: b_def)
  moreover have "memcpy (6 + b) Neaf n ((?h @ replicate b 0xFF) @ replicate n 0) = Inr (?h @ replicate b 0xFF @ take n Neaf)"
    using assms(4) by (subst memcpy_ok) simp_all
  ultimately have "last_packet s Neaf (pid_of video) (of_nat n) = Inr (count_packet s')"
    using header_written [of "replicate 188 0" s1 video False 3] p(1) t(1)
    by (simp add: last_packet_def TS_PACKET_SIZE_def n1 n2 small_words ab del: stores.simps)
  then show ?thesis using that sends_count [OF sends_trans [OF t(2) p(2)]] by simp
qed

text \<open>The loop cuts the rest of the frame into pieces that follow one another.\<close>

lemma pes_loop_ok:
  assumes "ready s" "n \<le> length Neaf" "n < 4294967296"
  shows "\<exists>s' us. pes_loop s Neaf (pid_of video) (of_nat n) = Inr s' \<and> sends video s us s' \<and>
    concat (map snd us) = take n Neaf \<and> list_all (\<lambda>u. \<not> fst u) us"
  using assms
proof (induction n arbitrary: s Neaf rule: less_induct)
  case (less n)
  have u: "unat (of_nat n :: u32) = n" using less.prems(3) by (simp add: unat_of_nat)
  have z: "(of_nat n :: u32) = 0 \<longleftrightarrow> n = 0" by (metis u unat_eq_0)
  have ge: "(184 :: u32) \<le> of_nat n \<longleftrightarrow> 184 \<le> n" by (simp add: word_le_nat_alt u)
  have eq: "(of_nat n :: u32) = 183 \<longleftrightarrow> n = 183" "(of_nat n :: u32) = 182 \<longleftrightarrow> n = 182" by (simp_all add: word_unat_eq_iff u)
  show ?case
  proof (cases "n = 0")
    case True
    then show ?thesis using sends_refl by (intro exI [of _ s] exI [of _ "[]"]) (simp add: pes_loop.simps)
  next
    case False
    obtain s1 where t: "tables_due s = Inr s1" "sends video s [] s1" by (rule tables_due_sends [OF less.prems(1)])
    note r1 = sends_ready [OF t(2) less.prems(1)]
    have step: "\<exists>s' us. pes_loop (count_packet s2) (drop k Neaf) (pid_of video) (of_nat (n - k)) = Inr s' \<and> sends video s us s' \<and>
        concat (map snd us) = take n Neaf \<and> list_all (\<lambda>u. \<not> fst u) us"
      if k: "sends video s1 [(False, take k Neaf)] s2" "0 < k" "k \<le> n" for k s2
    proof -
      note e = sends_count [OF sends_trans [OF t(2) k(1)]]
      have "n - k < n" "n - k \<le> length (drop k Neaf)" "n - k < 4294967296" using k(2,3) less.prems(2,3) by auto
      from less.IH [OF this(1) sends_ready [OF e less.prems(1)] this(2,3)]
      obtain s' us where i: "pes_loop (count_packet s2) (drop k Neaf) (pid_of video) (of_nat (n - k)) = Inr s'"
        "sends video (count_packet s2) us s'" "concat (map snd us) = take (n - k) (drop k Neaf)" "list_all (\<lambda>u. \<not> fst u) us"
        by blast
      have "take k Neaf @ take (n - k) (drop k Neaf) = take n Neaf" using k(3) by (metis le_add_diff_inverse take_add)
      then show ?thesis using i sends_trans [OF e i(2)] by (intro exI [of _ s'] exI [of _ "(False, take k Neaf) # us"]) simp
    qed
    consider "184 \<le> n" | "n = 183 \<or> n = 182" | "n < 182" by linarith
    then show ?thesis
    proof cases
      case 1
      have len: "184 \<le> length Neaf" using 1 less.prems(2) by auto
      obtain s2 where m: "middle_packet s1 Neaf (pid_of video) = Inr s2" "sends video s1 [(False, take 184 Neaf)] s2"
        by (rule middle_packet_ok [OF r1 len])
      show ?thesis
        using step [OF m(2)] 1 m(1) t(1) False by (simp add: pes_loop.simps [of s] z ge of_nat_diff)
    next
      case 2
      have len: "182 \<le> length Neaf" using 2 less.prems(2) by auto
      obtain s2 where m: "almost_full_packet s1 Neaf (pid_of video) = Inr s2" "sends video s1 [(False, take 182 Neaf)] s2"
        by (rule almost_full_packet_ok [OF r1 len])
      show ?thesis
        using step [OF m(2)] 2 m(1) t(1) False by (auto simp add: pes_loop.simps [of s] z ge eq of_nat_diff)
    next
      case 3
      have len: "0 < n" "n < 182" "n \<le> length Neaf" using 3 False less.prems(2) by auto
      obtain s2 where m: "last_packet s1 Neaf (pid_of video) (of_nat n) = Inr s2" "sends video s1 [(False, take n Neaf)] s2"
        by (rule last_packet_ok [OF r1 len])
      show ?thesis
        using step [OF m(2)] 3 m(1) t(1) False by (simp add: pes_loop.simps [of s] pes_loop.simps [of "count_packet s2"] z ge eq)
    qed
  qed
qed

section \<open>The first packet\<close>

definition sid_of :: "bool \<Rightarrow> u8" where
  "sid_of video = (if video then TS_H264_STREAM_ID else TS_AAC_STREAM_ID)"

text \<open>The header of a frame: 9 bytes and the time stamp.\<close>

definition pes_unit :: "TsPes \<Rightarrow> u32 \<Rightarrow> u8 list" where
  "pes_unit p pts = pes_header_bytes p @ pts_bytes pts"

lemma length_pes [simp]: "length (pes_header_bytes p) = 9" "length (pts_bytes pts) = 5" "length (pes_unit p pts) = 14"
  by (simp_all add: pes_header_bytes_def pts_bytes_def pes_unit_def)

lemma pes_unit_nonempty: "pes_unit p pts \<noteq> []"
  by (simp add: pes_unit_def pes_header_bytes_def)

lemma put_pes_header_at:
  assumes "length x = pos" "14 \<le> length y" "stream_id p = sid_of video"
  shows "put_pes_header p Videopts Adudiopts pos (x @ y) = Inr (pos + 14, x @ pes_unit p (if video then Videopts else Adudiopts) @ drop 14 y)"
proof -
  have 1: "stores pos (pes_header_bytes p) (x @ y) = Inr ((x @ pes_header_bytes p) @ drop 9 y)" using assms by (simp add: stores_at)
  have 2: "stores (pos + 9) (pts_bytes pts) ((x @ pes_header_bytes p) @ drop 9 y) = Inr ((x @ pes_header_bytes p) @ pts_bytes pts @ drop 14 y)" for pts
    using assms by (subst stores_at) simp_all
  show ?thesis
    using 2 assms(3) unfolding put_pes_header_def 1 by (cases video) (simp_all add: sid_of_def pes_unit_def Let_def)
qed

lemma single_packet_ok:
  assumes "ready s" "Pes_Packet_Length_Beyond p = of_nat n" "n < 168" "n \<le> length (Es p)" "stream_id p = sid_of video"
  obtains s' where "single_packet s p (pid_of video) Videopts Adudiopts = Inr s'"
    "sends video s [(True, pes_unit p (if video then Videopts else Adudiopts) @ take n (Es p))] s'"
proof -
  let ?u = "pes_unit p (if video then Videopts else Adudiopts)"
  define a b where "a = 169 - n" and "b = 168 - n"
  have ab: "a < 256" "b < 256" "b + n = 168" using assms(3) by (simp_all add: a_def b_def)
  let ?h = "head_of video s True 3 @ [of_nat a, 0]"
  have fr: "frames 3 ([of_nat a, 0] @ replicate b 0xFF @ ?u @ take n (Es p)) (?u @ take n (Es p))"
    using padding_frames [of "?u @ take n (Es p)"] assms(3,4) by (simp add: a_def b_def)
  obtain s' where pk: "put_packet (bumped video s) (head_of video s True 3 @ [of_nat a, 0] @ replicate b 0xFF @ ?u @ take n (Es p)) = Inr s'"
    "sends video s [(True, ?u @ take n (Es p))] s'" by (rule put_packet_sends [OF assms(1) fr])
  have n1: "(169 - of_nat n :: u32) = of_nat a" "(168 - of_nat n :: u32) = of_nat b"
    using assms(3) by (simp_all add: a_def b_def of_nat_diff)
  have n2: "unat (of_nat n :: u32) = n" using assms(3) by (simp add: small_words)
  have z: "memset 0 0xFF 188 (replicate 188 0) = Inr (replicate 188 0xFF)" by (subst memset_ok) simp_all
  have st: "stores 4 [of_nat a, 0] (head_of video s True 3 @ replicate 184 0xFF) = Inr (?h @ replicate 182 0xFF)"
    by (subst stores_at) simp_all
  have ms: "memset 6 0xFF b (?h @ replicate 182 0xFF) = Inr ((?h @ replicate b 0xFF) @ replicate (14 + n) 0xFF)"
    using ab(3) by (subst memset_at) (simp_all add: b_def)
  have ph: "put_pes_header p Videopts Adudiopts (6 + b) ((?h @ replicate b 0xFF) @ replicate (14 + n) 0xFF) =
      Inr (6 + b + 14, (?h @ replicate b 0xFF) @ ?u @ replicate n 0xFF)"
    by (subst put_pes_header_at [OF _ _ assms(5)]) simp_all
  have mc: "memcpy (6 + b + 14) (Es p) n ((?h @ replicate b 0xFF @ ?u) @ replicate n 0xFF) = Inr ((?h @ replicate b 0xFF @ ?u) @ take n (Es p))"
    using assms(4) by (subst memcpy_at) simp_all
  have hw: "WriteStruct_Packetheader s (replicate 188 0xFF) (pid_of video) 1 3 = Inr (4, bumped video s, head_of video s True 3 @ replicate 184 0xFF)"
    using header_written [of "replicate 188 0xFF" s video True 3] by simp
  have "single_packet s p (pid_of video) Videopts Adudiopts = Inr (count_packet s')"
    using pk(1) ms ph mc st
    by (simp add: single_packet_def TS_PACKET_SIZE_def assms(2) z hw n1 n2 small_words ab Let_def del: stores.simps)
  then show ?thesis using that sends_count [OF pk(2)] by blast
qed

text \<open>The two adaptation fields that occur.\<close>

definition field_of :: "Ts_Adaptation_field \<Rightarrow> u8 list \<Rightarrow> bool" where
  "field_of af bs \<longleftrightarrow> bs \<noteq> [] \<and> length bs \<le> 7 \<and> adaptation_field_length af = of_nat (length bs) \<and>
     (\<forall>x y n. length bs \<le> length y \<longrightarrow> CreateAdaptive_Ts af (length x) n (x @ y) = Inr (x @ bs @ drop (length bs) y))"

lemma field_tail: "field_of (WriteAdaptive_flags_Tail af) [0]"
proof -
  have "store8 (length x) 0 (x @ y) = Inr (x @ 0 # drop 1 y)" if "1 \<le> length y" for x y :: "u8 list"
    using stores_at [of x "length x" "[0]" y] that unfolding store8_stores by simp
  then show ?thesis
    by (simp add: field_of_def WriteAdaptive_flags_Tail_def CreateAdaptive_Ts_def put_flag_def put_pcr_def put_opcr_def
        put_splice_def put_private_def put_extension_def)
qed

lemma field_head: "field_of (WriteAdaptive_flags_Head af Videopts) (0x10 # pcr_bytes (ucast (Videopts * 300)))"
proof -
  let ?c = "ucast (Videopts * 300) :: u64"
  have l: "length (pcr_bytes c) = 6" for c by (simp add: pcr_bytes_def Let_def)
  have 1: "stores (length x + 1) (pcr_bytes ?c) (x @ y) = Inr (x @ hd y # pcr_bytes ?c @ drop 7 y)"
    "store8 (length x) 0x10 (x @ hd y # pcr_bytes ?c @ drop 7 y) = Inr (x @ 0x10 # pcr_bytes ?c @ drop 7 y)"
    if y7: "7 \<le> length y" for x y :: "u8 list"
  proof -
    obtain z y' where y: "y = z # y'" using y7 by (cases y) auto
    show "stores (length x + 1) (pcr_bytes ?c) (x @ y) = Inr (x @ hd y # pcr_bytes ?c @ drop 7 y)"
      using stores_at [of "x @ [z]" "length x + 1" "pcr_bytes ?c" y'] y7 by (simp add: y l)
    show "store8 (length x) 0x10 (x @ hd y # pcr_bytes ?c @ drop 7 y) = Inr (x @ 0x10 # pcr_bytes ?c @ drop 7 y)"
      using stores_at [of x "length x" "[0x10]" "hd y # pcr_bytes ?c @ drop 7 y"] unfolding store8_stores by simp
  qed
  then show ?thesis
    by (simp add: field_of_def WriteAdaptive_flags_Head_def CreateAdaptive_Ts_def put_flag_def put_pcr_def put_opcr_def
        put_splice_def put_private_def put_extension_def l)
qed

lemma first_packet_ok:
  assumes "ready s" "field_of af bs" "stream_id p = sid_of video" "length bs + m = 169" "m \<le> length (Es p)"
  obtains s' where "first_packet s p (pid_of video) af (of_nat m) Videopts Adudiopts = Inr s'"
    "sends video s [(True, pes_unit p (if video then Videopts else Adudiopts) @ take m (Es p))] s'"
proof -
  let ?u = "pes_unit p (if video then Videopts else Adudiopts)" and ?l = "of_nat (length bs) :: u8"
  note f = assms(2) [unfolded field_of_def]
  have l: "unat ?l = length bs" using f by (intro small_words(1)) simp
  let ?h = "head_of video s True 3 @ [?l]"
  have fr: "frames 3 (?l # bs @ ?u @ take m (Es p)) (?u @ take m (Es p))"
    using assms(4,5) l by (auto simp: frames_def pes_unit_nonempty)
  obtain s' where pk: "put_packet (bumped video s) (head_of video s True 3 @ ?l # bs @ ?u @ take m (Es p)) = Inr s'"
    "sends video s [(True, ?u @ take m (Es p))] s'" by (rule put_packet_sends [OF assms(1) fr])
  have n2: "unat (of_nat m :: u32) = m" using assms(4) by (intro small_words(2)) simp
  have hw: "WriteStruct_Packetheader s (replicate 188 0) (pid_of video) 1 3 = Inr (4, bumped video s, head_of video s True 3 @ replicate 184 0)"
    using header_written [of "replicate 188 0" s video True 3] by simp
  have st: "store8 4 ?l (head_of video s True 3 @ replicate 184 0) = Inr (?h @ replicate 183 0)"
    unfolding store8_stores by (subst stores_at) simp_all
  have ca: "CreateAdaptive_Ts af 5 n (?h @ replicate 183 0) = Inr ((?h @ bs) @ replicate (14 + m) 0)" for n
  proof -
    have "length bs \<le> length (replicate 183 (0 :: u8))" "183 - length bs = 14 + m" using assms(4) by simp_all
    then show ?thesis using f [THEN conjunct2, THEN conjunct2, THEN conjunct2, rule_format, of "replicate 183 0" ?h n] by simp
  qed
  have ph: "put_pes_header p Videopts Adudiopts (5 + length bs) ((?h @ bs) @ replicate (14 + m) 0) = Inr (5 + length bs + 14, (?h @ bs) @ ?u @ replicate m 0)"
    by (subst put_pes_header_at [OF _ _ assms(3)]) simp_all
  have mc: "memcpy (5 + length bs + 14) (Es p) m ((?h @ bs @ ?u) @ replicate m 0) = Inr ((?h @ bs @ ?u) @ take m (Es p))"
    using assms(5) by (subst memcpy_at) simp_all
  have "first_packet s p (pid_of video) af (of_nat m) Videopts Adudiopts = Inr (count_packet s')"
    using pk(1) st ca ph mc f by (simp add: first_packet_def TS_PACKET_SIZE_def hw n2 l Let_def)
  then show ?thesis using that sends_count [OF pk(2)] by blast
qed

lemma PES2TS_ok:
  assumes "ready s" "field_of af bs" "stream_id p = sid_of video" "Pes_Packet_Length_Beyond p = of_nat n" "n < 4294967296"
    "n \<le> length (Es p)"
  obtains s' p' d us where "PES2TS s p (pid_of video) af Videopts Adudiopts = Inr (WritePacketNum s', s', p')"
    "sends video s ((True, d) # us) s'" "d @ concat (map snd us) = pes_unit p (if video then Videopts else Adudiopts) @ take n (Es p)"
    "list_all (\<lambda>u. \<not> fst u) us" "p' = p \<or> p' = p\<lparr>Pes_Packet_Length_Beyond := 0\<rparr>"
proof -
  let ?u = "pes_unit p (if video then Videopts else Adudiopts)"
  define m where "m = 169 - length bs"
  note f = assms(2) [unfolded field_of_def]
  have m: "length bs + m = 169" "m < 169" using f by (auto simp: m_def)
  have first: "(188 - 4 - 1 - ucast (adaptation_field_length af) - 14 :: u32) = of_nat m"
  proof -
    have "ucast (adaptation_field_length af) = (of_nat (length bs) :: u32)" using f small_words(4) [of "length bs"] by simp
    moreover have "(of_nat m :: u32) = 169 - of_nat (length bs)" using m(1) by (simp add: m_def of_nat_diff)
    ultimately show ?thesis by simp
  qed
  have lt: "(of_nat n :: u32) < of_nat m \<longleftrightarrow> n < m"
    using assms(5) m(2) by (simp add: word_less_nat_alt unat_of_nat)
  show ?thesis
  proof (cases "n < m")
    case True
    have n: "n < 168" using True m(2) by simp
    obtain s' where 1: "single_packet s p (pid_of video) Videopts Adudiopts = Inr s'" "sends video s [(True, ?u @ take n (Es p))] s'"
      by (rule single_packet_ok [OF assms(1,4) n assms(6,3)])
    show ?thesis
      by (rule that [of s' p "?u @ take n (Es p)" "[]"]) (use 1 True lt first assms(4) in \<open>simp_all add: PES2TS_def Let_def\<close>)
  next
    case False
    obtain s1 where t: "tables_due s = Inr s1" "sends video s [] s1" by (rule tables_due_sends [OF assms(1)])
    note r1 = sends_ready [OF t(2) assms(1)]
    have mE: "m \<le> length (Es p)" using False assms(6) by simp
    obtain s2 where 2: "first_packet s1 p (pid_of video) af (of_nat m) Videopts Adudiopts = Inr s2" "sends video s1 [(True, ?u @ take m (Es p))] s2"
      by (rule first_packet_ok [OF r1 assms(2,3) m(1) mE])
    have nm: "n - m \<le> length (drop m (Es p))" "n - m < 4294967296" using assms(5,6) by auto
    obtain s' us where 3: "pes_loop s2 (drop m (Es p)) (pid_of video) (of_nat (n - m)) = Inr s'" "sends video s2 us s'"
      "concat (map snd us) = take (n - m) (drop m (Es p))" "list_all (\<lambda>u. \<not> fst u) us"
      using pes_loop_ok [OF sends_ready [OF 2(2) r1] nm] by blast
    have e: "take m (Es p) @ take (n - m) (drop m (Es p)) = take n (Es p)" using False by (metis le_add_diff_inverse not_less take_add)
    have b: "(of_nat n - of_nat m :: u32) = of_nat (n - m)" using False by (simp add: of_nat_diff)
    have um: "unat (of_nat m :: u32) = m" using m(2) by (intro small_words(2)) simp
    have run: "PES2TS s p (pid_of video) af Videopts Adudiopts = Inr (WritePacketNum s', s', p\<lparr>Pes_Packet_Length_Beyond := 0\<rparr>)"
      unfolding PES2TS_def first Let_def assms(4) lt b um by (simp only: False if_False t(1) 2(1) 3(1) bind_result_simps)
    have snd: "sends video s ((True, ?u @ take m (Es p)) # us) s'"
      using sends_trans [OF sends_trans [OF t(2) 2(2)] 3(2)] by simp
    have "(?u @ take m (Es p)) @ concat (map snd us) = ?u @ take n (Es p)" unfolding 3(3) append_assoc e ..
    then show ?thesis using that [OF run snd _ 3(4)] by blast
  qed
qed

section \<open>Properties\<close>

text \<open>The clock reference a receiver reads from the six bytes: the base in units of the time stamps.\<close>

definition pcr_base_of :: "u8 list \<Rightarrow> u64" where
  "pcr_base_of b = push_bit 25 (ucast (b ! 0)) OR push_bit 17 (ucast (b ! 1)) OR push_bit 9 (ucast (b ! 2)) OR push_bit 1 (ucast (b ! 3)) OR
     drop_bit 7 (ucast (b ! 4))"

lemma pcr_base_bits:
  fixes x y :: u64
  assumes "\<And>n. 33 \<le> n \<Longrightarrow> \<not> bit x n" "\<And>n. 7 \<le> n \<Longrightarrow> \<not> bit y n"
  shows "push_bit 25 (ucast (ucast (take_bit 8 (drop_bit 25 x)) :: u8)) OR push_bit 17 (ucast (ucast (take_bit 8 (drop_bit 17 x)) :: u8)) OR
    push_bit 9 (ucast (ucast (take_bit 8 (drop_bit 9 x)) :: u8)) OR push_bit 1 (ucast (ucast (take_bit 8 (drop_bit 1 x)) :: u8)) OR
    drop_bit 7 (ucast (ucast (push_bit 7 x OR y) :: u8)) = x"
proof (rule bit_word_eqI, goal_cases)
  case (1 n)
  have double: "bit (a * 2) m \<longleftrightarrow> 0 < m \<and> m < 64 \<and> bit a (m - 1)" for a :: u64 and m
    using bit_push_bit_iff [of 1 a m] by (cases m) auto
  consider "n = 0" | "1 \<le> n" "n < 9" | "9 \<le> n" "n < 17" | "17 \<le> n" "n < 25" | "25 \<le> n" "n < 33" | "33 \<le> n" by linarith
  then show ?case by cases (use 1 assms in \<open>auto simp: bit_simps double\<close>)
qed

lemma high_bits_zero:
  assumes "unat (x :: u64) < 2 ^ k" "k \<le> n"
  shows "\<not> bit x n"
proof -
  have "unat x < 2 ^ n" using assms less_le_trans power_increasing [of k n "2 :: nat"] by fastforce
  then have "\<not> bit (unat x) n" by (simp add: bit_iff_odd)
  then show ?thesis by (simp add: bit_unsigned_iff)
qed

lemma pcr_base_read:
  assumes "unat (c div 300) < 2 ^ 33"
  shows "pcr_base_of (pcr_bytes c) = c div 300"
proof -
  have "unat (c mod 300) < 2 ^ 9" using mod_less_divisor [of 300 "unat c"] by (simp add: unat_mod)
  then have "\<not> bit (drop_bit 8 (c mod 300)) n" if "7 \<le> n" for n using high_bits_zero [of "c mod 300" 9 "8 + n"] that by (simp add: bit_drop_bit_eq)
  moreover have "\<not> bit (0x7e :: u64) n" if "7 \<le> n" for n using high_bits_zero [of "0x7e" 7] that by simp
  ultimately have y: "\<not> bit (drop_bit 8 (c mod 300) OR 0x7e) n" if "7 \<le> n" for n using that by (simp add: bit_or_iff)
  have ff: "x AND 0xff = take_bit 8 (x :: u64)" for x by (simp add: take_bit_eq_mask mask_eq_exp_minus_1)
  have "[a, b, d, e, f, g] ! 0 = a" "[a, b, d, e, f, g] ! 1 = b" "[a, b, d, e, f, g] ! 2 = d" "[a, b, d, e, f, g] ! 3 = e"
    "[a, b, d, e, f, g] ! 4 = f" for a b d e f g :: u8 by simp_all
  then show ?thesis
    unfolding pcr_base_of_def pcr_bytes_def Let_def ff or.assoc by (simp only: pcr_base_bits [OF high_bits_zero [OF assms] y] or.assoc)
qed

text \<open>The product wraps unless the time stamp is small.\<close>

lemma wrapped_product:
  assumes "v < (4294967296 :: nat)"
  shows "v * 300 mod 4294967296 div 300 = v \<longleftrightarrow> v < 14316558"
proof
  assume "v * 300 mod 4294967296 div 300 = v"
  moreover have "v * 300 mod 4294967296 div 300 \<le> 4294967295 div 300" by (rule div_le_mono) (use mod_less_divisor [of 4294967296 "v * 300"] in linarith)
  ultimately show "v < 14316558" by simp
qed simp

text \<open>The clock reference in front of a picture is the time stamp of the picture as long as 300 times the time stamp fits 32
  bits; from 14316558 ticks on, 159 seconds after the start, the product wraps and the clock reference is another one.
\<close>

theorem clock_reference_exact:
  "pcr_base_of (pcr_bytes (pcr (WriteAdaptive_flags_Head af Videopts))) = ucast Videopts \<longleftrightarrow> unat Videopts < 14316558"
proof -
  have up: "unat (ucast w :: u64) = unat w" for w :: u32
    using unat_32_bound [of w] by (simp add: unsigned_ucast_eq take_bit_nat_eq_self)
  have ub: "unat ((ucast (Videopts * 300) :: u64) div 300) = unat Videopts * 300 mod 4294967296 div 300"
    by (simp add: unat_div up unat_word_ariths)
  then have "pcr_base_of (pcr_bytes (ucast (Videopts * 300))) = ucast (Videopts * 300) div 300" by (intro pcr_base_read) simp
  then have "pcr_base_of (pcr_bytes (pcr (WriteAdaptive_flags_Head af Videopts))) = ucast Videopts \<longleftrightarrow>
      unat Videopts * 300 mod 4294967296 div 300 = unat Videopts"
    by (simp add: WriteAdaptive_flags_Head_def word_unat_eq_iff ub up del: unat_word_ariths)
  then show ?thesis using wrapped_product [of "unat Videopts"] unat_32_bound [of Videopts] by simp
qed

end
