(* ===== verification/Ts_Bits.thy ===== *)
theory Ts_Bits
  imports IotCam_Prelude
begin

text \<open>
  The bit reader of the transport stream packer (\<open>ts/Mybs.cpp\<close>): single bits, fields of bits and Exp-Golomb codes. The
  reference is the list of bits of the buffer, most significant first.
\<close>

unbundle bit_operations_syntax

section \<open>The code\<close>

text \<open>Pointers are positions in the buffer, the first argument of the functions.\<close>

record bs_t =
  p_start :: int
  bs_p :: int
  p_end :: int
  i_left :: int

definition bs_init :: "int \<Rightarrow> int \<Rightarrow> bs_t" where
  "bs_init p_data i_data = \<lparr>p_start = p_data, bs_p = p_data, p_end = p_data + i_data, i_left = 8\<rparr>"

definition byte_at :: "u8 list \<Rightarrow> int \<Rightarrow> u32 result" where
  "byte_at buf p = (if 0 \<le> p \<and> nat p < length buf then Inr (ucast (buf ! nat p)) else Inl Read_out_of_bounds)"

definition i_mask :: "u32 list" where
  "i_mask = [0x00, 0x01, 0x03, 0x07, 0x0f, 0x1f, 0x3f, 0x7f, 0xff, 0x1ff, 0x3ff, 0x7ff, 0xfff, 0x1fff, 0x3fff, 0x7fff, 0xffff,
     0x1ffff, 0x3ffff, 0x7ffff, 0xfffff, 0x1fffff, 0x3fffff, 0x7fffff, 0xffffff, 0x1ffffff, 0x3ffffff, 0x7ffffff, 0xfffffff,
     0x1fffffff, 0x3fffffff, 0x7fffffff, 0xffffffff]"

definition mask_at :: "int \<Rightarrow> u32 result" where
  "mask_at k = (if 0 \<le> k \<and> nat k < length i_mask then Inr (i_mask ! nat k) else Inl Read_out_of_bounds)"

function bs_read_loop :: "u8 list \<Rightarrow> bs_t \<Rightarrow> int \<Rightarrow> u32 \<Rightarrow> (u32 \<times> bs_t) result" where
  "bs_read_loop buf s i_count i_result =
     (if i_count > 0 then
        if bs_p s \<ge> p_end s then Inr (i_result, s)
        else let i_shr = i_left s - i_count in
          bind_result (byte_at buf (bs_p s)) (\<lambda>c.
          if i_shr \<ge> 0 then
            bind_result (mask_at i_count) (\<lambda>m.
            let i_result = i_result OR (drop_bit (nat i_shr) c AND m);
                s = s\<lparr>i_left := i_left s - i_count\<rparr>;
                s = (if i_left s = 0 then s\<lparr>bs_p := bs_p s + 1, i_left := 8\<rparr> else s)
            in Inr (i_result, s))
          else
            bind_result (mask_at (i_left s)) (\<lambda>m.
            bs_read_loop buf (s\<lparr>bs_p := bs_p s + 1, i_left := 8\<rparr>) (i_count - i_left s)
              (i_result OR push_bit (nat (- i_shr)) (c AND m))))
      else Inr (i_result, s))"
  by pat_completeness auto
termination
  by (relation "measure (\<lambda>(buf, s, i_count, i_result). nat (p_end s - bs_p s))") auto

declare bs_read_loop.simps [simp del]

definition bs_read :: "u8 list \<Rightarrow> bs_t \<Rightarrow> int \<Rightarrow> (u32 \<times> bs_t) result" where
  "bs_read buf s i_count = bs_read_loop buf s i_count 0"

definition bs_read1 :: "u8 list \<Rightarrow> bs_t \<Rightarrow> (u32 \<times> bs_t) result" where
  "bs_read1 buf s =
     (if bs_p s < p_end s then
        let s = s\<lparr>i_left := i_left s - 1\<rparr> in
        bind_result (byte_at buf (bs_p s)) (\<lambda>c.
        let i_result = drop_bit (nat (i_left s)) c AND 0x01;
            s = (if i_left s = 0 then s\<lparr>bs_p := bs_p s + 1, i_left := 8\<rparr> else s)
        in Inr (i_result, s))
      else Inr (0, s))"

text \<open>The loop counts zeros; the shift \<open>1 << 32\<close> that 32 of them lead to gives 0 on the target.\<close>

function ue_loop :: "u8 list \<Rightarrow> bs_t \<Rightarrow> nat \<Rightarrow> (nat \<times> bs_t) result" where
  "ue_loop buf s i =
     bind_result (bs_read1 buf s) (\<lambda>(b, s).
     if b = 0 \<and> bs_p s < p_end s \<and> i < 32 then ue_loop buf s (i + 1) else Inr (i, s))"
  by pat_completeness auto
termination by (relation "measure (\<lambda>(buf, s, i). 32 - i)") auto

declare ue_loop.simps [simp del]

definition bs_read_ue :: "u8 list \<Rightarrow> bs_t \<Rightarrow> (u32 \<times> bs_t) result" where
  "bs_read_ue buf s =
     bind_result (ue_loop buf s 0) (\<lambda>(i, s).
     bind_result (bs_read buf s (int i)) (\<lambda>(v, s). Inr (push_bit i 1 - 1 + v, s)))"

section \<open>Reference: the list of bits\<close>

definition byte_bits :: "u8 \<Rightarrow> bool list" where
  "byte_bits b = map (bit b) (rev [0..<8])"

definition value_of :: "bool list \<Rightarrow> nat" where
  "value_of bs = horner_sum of_bool 2 (rev bs)"

text \<open>The bits between the reader and its end.\<close>

definition ahead :: "u8 list \<Rightarrow> bs_t \<Rightarrow> bool list" where
  "ahead buf s = drop (8 - nat (i_left s)) (concat (map byte_bits (take (nat (p_end s - bs_p s)) (drop (nat (bs_p s)) buf))))"

definition bs_ok :: "u8 list \<Rightarrow> bs_t \<Rightarrow> bool" where
  "bs_ok buf s \<longleftrightarrow> 0 \<le> bs_p s \<and> bs_p s \<le> p_end s \<and> p_end s \<le> int (length buf) \<and> 1 \<le> i_left s \<and> i_left s \<le> 8"

text \<open>The Exp-Golomb code of a number: as many zeros as its successor has digits behind the first one.\<close>

definition digits :: "nat \<Rightarrow> nat \<Rightarrow> bool list" where
  "digits k n = map (bit n) (rev [0..<k])"

definition ue_bits :: "nat \<Rightarrow> nat \<Rightarrow> bool list" where
  "ue_bits k n = replicate k False @ True # digits k (n + 1)"

lemma value_append: "value_of (xs @ ys) = value_of xs * 2 ^ length ys + value_of ys"
  by (simp add: value_of_def horner_sum_append)

lemma value_digits: "value_of (map (bit (w :: 'a :: semiring_bit_operations)) (rev [a..<a + n])) = value_of (map (bit (drop_bit a w)) (rev [0..<n]))"
proof -
  have "map (bit w) [a..<a + n] = map (bit (drop_bit a w)) [0..<n]"
    by (rule nth_equalityI) (simp_all add: bit_simps)
  then show ?thesis by (simp add: value_of_def rev_map)
qed

lemma value_nat: "value_of (map (bit (m :: nat)) (rev [0..<n])) = take_bit n m"
  by (simp add: value_of_def rev_map horner_sum_bit_eq_take_bit)

lemma byte_bits_nat: "byte_bits b = map (bit (unat b)) (rev [0..<8])"
  by (rule nth_equalityI) (simp_all add: byte_bits_def rev_nth bit_simps)

lemma length_byte_bits [simp]: "length (byte_bits b) = 8"
  by (simp add: byte_bits_def)

lemma i_mask_mask:
  assumes "k \<le> 8"
  shows "mask_at (int k) = Inr (mask k)"
proof -
  have "k \<in> {0, 1, 2, 3, 4, 5, 6, 7, 8}" using assms by auto
  then show ?thesis by (auto simp: mask_at_def i_mask_def mask_eq_exp_minus_1)
qed

text \<open>The bits of the current byte that are still to be read.\<close>

lemma byte_tail: "L \<le> 8 \<Longrightarrow> drop (8 - L) (byte_bits b) = map (bit (unat b)) (rev [0..<L])"
  by (simp add: byte_bits_nat drop_map drop_rev)

lemma byte_field:
  assumes "n \<le> L" "L \<le> 8"
  shows "of_nat (value_of (take n (drop (8 - L) (byte_bits b)))) = (drop_bit (L - n) (ucast b) AND mask n :: u32)"
proof -
  have "take n (rev [0..<L]) = rev [L - n..<L - n + n]" using assms(1) by (simp add: take_rev)
  then have "value_of (take n (drop (8 - L) (byte_bits b))) = take_bit n (drop_bit (L - n) (unat b))"
    by (simp only: byte_tail [OF assms(2)] take_map value_digits value_nat)
  moreover have "(of_nat (take_bit n (drop_bit (L - n) (unat b))) :: u32) = take_bit n (drop_bit (L - n) (ucast b))"
    using assms by (intro bit_word_eqI) (auto simp: bit_simps bit_of_nat_iff_bit)
  ultimately show ?thesis by (simp add: take_bit_eq_mask)
qed

lemma ahead_byte:
  assumes "bs_ok buf s" "bs_p s < p_end s"
  shows "byte_at buf (bs_p s) = Inr (ucast (buf ! nat (bs_p s)))"
    "ahead buf s = drop (8 - nat (i_left s)) (byte_bits (buf ! nat (bs_p s))) @ ahead buf (s\<lparr>bs_p := bs_p s + 1, i_left := 8\<rparr>)"
    "bs_ok buf (s\<lparr>bs_p := bs_p s + 1, i_left := 8\<rparr>)"
proof -
  have i: "nat (bs_p s) < length buf" "nat (p_end s - bs_p s) = Suc (nat (p_end s - (bs_p s + 1)))" "nat (bs_p s + 1) = Suc (nat (bs_p s))"
    using assms by (auto simp: bs_ok_def)
  show "byte_at buf (bs_p s) = Inr (ucast (buf ! nat (bs_p s)))" using assms i(1) by (simp add: byte_at_def bs_ok_def)
  show "bs_ok buf (s\<lparr>bs_p := bs_p s + 1, i_left := 8\<rparr>)" using assms by (simp add: bs_ok_def)
  have "drop (nat (bs_p s)) buf = buf ! nat (bs_p s) # drop (Suc (nat (bs_p s))) buf" using i(1) by (simp add: Cons_nth_drop_Suc)
  then show "ahead buf s = drop (8 - nat (i_left s)) (byte_bits (buf ! nat (bs_p s))) @ ahead buf (s\<lparr>bs_p := bs_p s + 1, i_left := 8\<rparr>)"
    by (simp add: ahead_def i(2,3))
qed

lemma ahead_within:
  assumes "bs_ok buf s" "bs_p s < p_end s" "0 \<le> n" "n < i_left s"
  shows "ahead buf (s\<lparr>i_left := i_left s - n\<rparr>) = drop (nat n) (ahead buf s)" "bs_ok buf (s\<lparr>i_left := i_left s - n\<rparr>)"
proof -
  have "8 - nat (i_left s - n) = nat n + (8 - nat (i_left s))" using assms by (auto simp: bs_ok_def)
  then show "ahead buf (s\<lparr>i_left := i_left s - n\<rparr>) = drop (nat n) (ahead buf s)" by (simp add: ahead_def)
  show "bs_ok buf (s\<lparr>i_left := i_left s - n\<rparr>)" using assms by (simp add: bs_ok_def)
qed

lemma of_nat_or_shift:
  assumes "v < 2 ^ n"
  shows "(of_nat (a * 2 ^ n) :: u32) OR of_nat v = of_nat (a * 2 ^ n + v)"
proof -
  have "\<not> bit v i" if "n \<le> i" for i using assms that by (metis bit_take_bit_iff leD take_bit_nat_eq_self)
  then have "a * 2 ^ n AND v = 0" by (intro bit_eqI) (auto simp: bit_and_iff bit_push_bit_iff simp flip: push_bit_eq_mult)
  then have "a * 2 ^ n + v = a * 2 ^ n OR v" by (rule disjunctive_add_eq_or)
  then show ?thesis by (simp only: of_nat_or_eq)
qed

section \<open>Correctness\<close>

lemma value_less: "value_of bs < 2 ^ length bs"
  unfolding value_of_def using horner_sum_of_bool_2_less [of "rev bs"] by simp

lemma bs_read_loop_ok:
  assumes "bs_ok buf s" "n \<le> length (ahead buf s)"
  shows "\<exists>s'. bs_read_loop buf s (int n) (of_nat (a * 2 ^ n)) = Inr (of_nat (a * 2 ^ n + value_of (take n (ahead buf s))), s') \<and>
    bs_ok buf s' \<and> ahead buf s' = drop n (ahead buf s) \<and> p_end s' = p_end s"
  using assms
proof (induction "nat (p_end s - bs_p s)" arbitrary: s n a rule: less_induct)
  case less
  define L where "L = nat (i_left s)"
  have L: "i_left s = int L" "1 \<le> L" "L \<le> 8" using less.prems(1) by (auto simp: L_def bs_ok_def)
  show ?case
  proof (cases "n = 0")
    case True
    then show ?thesis using less.prems(1) by (simp add: bs_read_loop.simps value_of_def)
  next
    case False
    have p: "bs_p s < p_end s"
    proof (rule ccontr)
      assume "\<not> ?thesis"
      then have "ahead buf s = []" by (simp add: ahead_def)
      then show False using less.prems(2) False by simp
    qed
    note b = ahead_byte [OF less.prems(1) p]
    let ?c = "buf ! nat (bs_p s)" and ?t = "s\<lparr>bs_p := bs_p s + 1, i_left := 8\<rparr>"
    have cur: "length (drop (8 - L) (byte_bits ?c)) = L" using L by simp
    show ?thesis
    proof (cases "n \<le> L")
      case True
      have v: "take n (ahead buf s) = take n (drop (8 - L) (byte_bits ?c))" using b(2) True cur by (simp add: L(1))
      have "value_of (take n (ahead buf s)) < 2 ^ n" using value_less [of "take n (ahead buf s)"] less.prems(2) by simp
      then have r: "of_nat (a * 2 ^ n) OR (drop_bit (L - n) (ucast ?c) AND mask n :: u32) = of_nat (a * 2 ^ n + value_of (take n (ahead buf s)))"
        using byte_field [OF True L(3), of ?c] of_nat_or_shift [of "value_of (take n (ahead buf s))" n a] by (simp add: v)
      show ?thesis
      proof (cases "n = L")
        case True
        have "ahead buf ?t = drop n (ahead buf s)" using b(2) cur True by (simp add: L(1))
        then show ?thesis
          using r b(1,3) p True False i_mask_mask [of n] L by (simp add: bs_read_loop.simps Let_def)
      next
        case neq: False
        note w = ahead_within [OF less.prems(1) p, of "int n"]
        show ?thesis
          using r b(1) p True False neq w i_mask_mask [of n] L by (simp add: bs_read_loop.simps Let_def nat_diff_distrib)
      qed
    next
      case gt: False
      have t: "ahead buf s = drop (8 - L) (byte_bits ?c) @ ahead buf ?t" using b(2) by (simp add: L(1))
      have len: "n - L \<le> length (ahead buf ?t)" using less.prems(2) t cur by simp
      let ?v = "value_of (drop (8 - L) (byte_bits ?c))"
      have c: "(ucast ?c AND mask L :: u32) = of_nat ?v" using byte_field [OF order_refl L(3), of ?c] cur by simp
      have lt: "?v * 2 ^ (n - L) < 2 ^ n"
      proof -
        have "?v * 2 ^ (n - L) < 2 ^ L * 2 ^ (n - L)" using value_less [of "drop (8 - L) (byte_bits ?c)"] cur by simp
        then show ?thesis using gt by (simp flip: power_add)
      qed
      have "push_bit (n - L) (of_nat ?v) = (of_nat (?v * 2 ^ (n - L)) :: u32)" by (simp add: push_bit_eq_mult)
      then have acc: "of_nat (a * 2 ^ n) OR push_bit (n - L) (ucast ?c AND mask L) = (of_nat ((a * 2 ^ L + ?v) * 2 ^ (n - L)) :: u32)"
        using of_nat_or_shift [OF lt, of a] gt by (simp add: c distrib_right mult.assoc flip: power_add)
      obtain s' where i: "bs_read_loop buf ?t (int (n - L)) (of_nat ((a * 2 ^ L + ?v) * 2 ^ (n - L))) =
          Inr (of_nat ((a * 2 ^ L + ?v) * 2 ^ (n - L) + value_of (take (n - L) (ahead buf ?t))), s')"
        "bs_ok buf s'" "ahead buf s' = drop (n - L) (ahead buf ?t)" "p_end s' = p_end ?t"
        using less.hyps [of ?t "n - L" "a * 2 ^ L + ?v"] b(3) len p by auto
      have v: "(a * 2 ^ L + ?v) * 2 ^ (n - L) + value_of (take (n - L) (ahead buf ?t)) = a * 2 ^ n + value_of (take n (ahead buf s))"
      proof -
        have "take n (ahead buf s) = drop (8 - L) (byte_bits ?c) @ take (n - L) (ahead buf ?t)" using gt cur by (simp add: t)
        moreover have "length (take (n - L) (ahead buf ?t)) = n - L" using len by simp
        ultimately show ?thesis using gt by (simp add: value_append distrib_right mult.assoc flip: power_add)
      qed
      have "bs_read_loop buf s (int n) (of_nat (a * 2 ^ n)) = bs_read_loop buf ?t (int (n - L)) (of_nat ((a * 2 ^ L + ?v) * 2 ^ (n - L)))"
        using b(1) p False gt i_mask_mask [OF L(3)] acc L by (subst bs_read_loop.simps) (simp add: Let_def of_nat_diff nat_diff_distrib)
      then have run: "bs_read_loop buf s (int n) (of_nat (a * 2 ^ n)) = Inr (of_nat (a * 2 ^ n + value_of (take n (ahead buf s))), s')"
        unfolding i(1) v .
      have "drop n (ahead buf s) = drop (n - L) (ahead buf ?t)" unfolding t using gt L(3) by simp
      then show ?thesis using run i(2-4) by (intro exI [of _ s']) simp
    qed
  qed
qed

lemma bs_read_ok:
  assumes "bs_ok buf s" "n \<le> length (ahead buf s)"
  obtains s' where "bs_read buf s (int n) = Inr (of_nat (value_of (take n (ahead buf s))), s')" "bs_ok buf s'"
    "ahead buf s' = drop n (ahead buf s)" "p_end s' = p_end s"
  using bs_read_loop_ok [OF assms, of 0] by (auto simp: bs_read_def)

lemma bs_read1_ok:
  assumes "bs_ok buf s" "ahead buf s = b # bs"
  obtains s' where "bs_read1 buf s = Inr (of_bool b, s')" "bs_ok buf s'" "ahead buf s' = bs" "p_end s' = p_end s"
proof -
  have p: "bs_p s < p_end s"
    using assms by (cases "bs_p s < p_end s") (auto simp: ahead_def)
  define L where "L = nat (i_left s)"
  have L: "i_left s = int L" "1 \<le> L" "L \<le> 8" using assms(1) by (auto simp: L_def bs_ok_def)
  note ab = ahead_byte [OF assms(1) p]
  let ?c = "buf ! nat (bs_p s)"
  have "take 1 (drop (8 - L) (byte_bits ?c)) = [b]"
  proof -
    have "take 1 (ahead buf s) = take 1 (drop (8 - L) (byte_bits ?c))" using ab(2) L by (simp add: L(1) Suc_diff_le)
    then show ?thesis using assms(2) by simp
  qed
  then have v: "drop_bit (L - 1) (ucast ?c) AND 1 = (of_bool b :: u32)"
    using byte_field [OF L(2,3), of ?c] by (simp add: value_of_def)
  show ?thesis
  proof (cases "L = 1")
    case True
    have "drop (8 - L) (byte_bits ?c) = [b]"
      using \<open>take 1 (drop (8 - L) (byte_bits ?c)) = [b]\<close> True length_drop [of "8 - L" "byte_bits ?c"] by (simp add: take_all)
    then have "ahead buf (s\<lparr>bs_p := bs_p s + 1, i_left := 8\<rparr>) = bs" using ab(2) assms(2) by (simp add: L(1))
    then show ?thesis
      using that [of "s\<lparr>bs_p := bs_p s + 1, i_left := 8\<rparr>"] v ab(1,3) p True L by (simp add: bs_read1_def Let_def)
  next
    case False
    note w = ahead_within [OF assms(1) p, of 1]
    have "nat (int L - 1) = L - 1" using L by simp
    then show ?thesis
      using that [of "s\<lparr>i_left := i_left s - 1\<rparr>"] v w ab(1) p False L assms(2) by (simp add: bs_read1_def Let_def)
  qed
qed

lemma ue_loop_ok:
  assumes "bs_ok buf s" "ahead buf s = replicate k False @ True # bs" "i + k \<le> 32"
  obtains s' where "ue_loop buf s i = Inr (i + k, s')" "bs_ok buf s'" "ahead buf s' = bs" "p_end s' = p_end s"
  using assms
proof (induction k arbitrary: s i thesis)
  case 0
  have "ahead buf s = True # bs" using 0(3) by simp
  from bs_read1_ok [OF 0(2) this] obtain s' where "bs_read1 buf s = Inr (of_bool True, s')" "bs_ok buf s'" "ahead buf s' = bs" "p_end s' = p_end s"
    by blast
  then show ?case using 0(1) [of s'] by (simp add: ue_loop.simps)
next
  case (Suc k)
  have "ahead buf s = False # replicate k False @ True # bs" using Suc.prems(3) by simp
  from bs_read1_ok [OF Suc.prems(2) this]
  obtain t where t: "bs_read1 buf s = Inr (of_bool False, t)" "bs_ok buf t" "ahead buf t = replicate k False @ True # bs" "p_end t = p_end s"
    by blast
  have p: "bs_p t < p_end t" using t(3) by (cases "bs_p t < p_end t") (auto simp: ahead_def)
  obtain s' where "ue_loop buf t (i + 1) = Inr (i + 1 + k, s')" "bs_ok buf s'" "ahead buf s' = bs" "p_end s' = p_end t"
    using Suc.IH [OF _ t(2,3), of "i + 1"] Suc.prems(4) by auto
  then show ?case using Suc.prems(1) [of s'] Suc.prems(4) t p by (simp add: ue_loop.simps [of buf s])
qed

lemma bs_read_ue_ok:
  assumes "bs_ok buf s" "ahead buf s = ue_bits k n @ bs" "2 ^ k \<le> n + 1" "n + 1 < 2 ^ (k + 1)" "k \<le> 32"
  obtains s' where "bs_read_ue buf s = Inr (of_nat n, s')" "bs_ok buf s'" "ahead buf s' = bs" "p_end s' = p_end s"
proof -
  have "ahead buf s = replicate k False @ True # (digits k (n + 1) @ bs)" using assms(2) by (simp add: ue_bits_def)
  from ue_loop_ok [OF assms(1) this, of 0] assms(5)
  obtain t where t: "ue_loop buf s 0 = Inr (k, t)" "bs_ok buf t" "ahead buf t = digits k (n + 1) @ bs" "p_end t = p_end s" by auto
  have l: "length (digits k (n + 1)) = k" by (simp add: digits_def)
  obtain s' where r: "bs_read buf t (int k) = Inr (of_nat (value_of (take k (ahead buf t))), s')" "bs_ok buf s'"
    "ahead buf s' = drop k (ahead buf t)" "p_end s' = p_end t"
    by (rule bs_read_ok [OF t(2), of k]) (use t(3) l in simp_all)
  have "value_of (digits k (n + 1)) = n + 1 - 2 ^ k"
  proof -
    have "(n + 1) div 2 ^ k = 1" using assms(3,4) by (simp add: div_nat_eqI)
    then have "take_bit k (n + 1) = n + 1 - 2 ^ k" by (simp add: take_bit_eq_mod minus_div_mult_eq_mod [symmetric])
    then show ?thesis by (simp add: digits_def value_nat)
  qed
  then have "push_bit k 1 - 1 + of_nat (value_of (digits k (n + 1))) = (of_nat n :: u32)"
    using assms(3) by (simp add: push_bit_eq_mult of_nat_diff)
  then have "bs_read_ue buf s = Inr (of_nat n, s')" using t r l by (simp add: bs_read_ue_def)
  then show ?thesis using that r(2-4) t(3,4) l by simp
qed

section \<open>Totality\<close>

text \<open>Whatever the bits are, the reader stays inside the buffer.\<close>

lemma bs_read_total:
  assumes "bs_ok buf s"
  shows "\<exists>r s'. bs_read_loop buf s n a = Inr (r, s') \<and> bs_ok buf s'"
  using assms
proof (induction "nat (p_end s - bs_p s)" arbitrary: s n a rule: less_induct)
  case less
  show ?case
  proof (cases "0 < n \<and> bs_p s < p_end s")
    case False
    then show ?thesis using less.prems by (auto simp: bs_read_loop.simps)
  next
    case True
    note b = ahead_byte(1,3) [OF less.prems conjunct2 [OF True]]
    let ?t = "s\<lparr>bs_p := bs_p s + 1, i_left := 8\<rparr>"
    have L: "1 \<le> i_left s" "i_left s \<le> 8" using less.prems by (auto simp: bs_ok_def)
    show ?thesis
    proof (cases "n \<le> i_left s")
      case le: True
      have m: "mask_at n = Inr (mask (nat n))" using i_mask_mask [of "nat n"] True le L by simp
      have "bs_ok buf (s\<lparr>i_left := i_left s - n\<rparr>)" if "n \<noteq> i_left s" using less.prems True le that by (auto simp: bs_ok_def)
      then show ?thesis using b m True le by (subst bs_read_loop.simps) (auto simp: Let_def)
    next
      case gt: False
      have m: "mask_at (i_left s) = Inr (mask (nat (i_left s)))" using i_mask_mask [of "nat (i_left s)"] L by simp
      have "nat (p_end ?t - bs_p ?t) < nat (p_end s - bs_p s)" using True by simp
      from less.hyps [OF this b(2)] show ?thesis using b m True gt by (subst bs_read_loop.simps) (simp add: Let_def)
    qed
  qed
qed

lemma bs_read1_total:
  assumes "bs_ok buf s"
  shows "\<exists>r s'. bs_read1 buf s = Inr (r, s') \<and> bs_ok buf s'"
proof (cases "bs_p s < p_end s")
  case True
  then show ?thesis using ahead_byte(1,3) [OF assms True] assms by (auto simp: bs_read1_def Let_def bs_ok_def)
qed (use assms in \<open>simp add: bs_read1_def\<close>)

lemma ue_loop_total:
  assumes "bs_ok buf s"
  shows "\<exists>r s'. ue_loop buf s i = Inr (r, s') \<and> bs_ok buf s'"
  using assms
proof (induction "32 - i" arbitrary: i s rule: less_induct)
  case less
  obtain b t where t: "bs_read1 buf s = Inr (b, t)" "bs_ok buf t" using bs_read1_total [OF less.prems] by blast
  show ?case
  proof (cases "b = 0 \<and> bs_p t < p_end t \<and> i < 32")
    case True
    then have "32 - (i + 1) < 32 - i" by linarith
    from less.hyps [OF this t(2)] show ?thesis using True t by (subst ue_loop.simps) simp
  next
    case False
    then show ?thesis using t by (subst ue_loop.simps) auto
  qed
qed

lemma bs_read_ue_total:
  assumes "bs_ok buf s"
  shows "\<exists>r s'. bs_read_ue buf s = Inr (r, s') \<and> bs_ok buf s'"
proof -
  obtain i t where t: "ue_loop buf s 0 = Inr (i, t)" "bs_ok buf t" using ue_loop_total [OF assms] by blast
  obtain r s' where "bs_read_loop buf t (int i) 0 = Inr (r, s')" "bs_ok buf s'" using bs_read_total [OF t(2)] by blast
  then show ?thesis using t by (simp add: bs_read_ue_def bs_read_def)
qed

section \<open>Properties\<close>

text \<open>The code of a number, and reading several codes one after another.\<close>

fun width :: "nat \<Rightarrow> nat" where
  "width n = (if n < 2 then 0 else Suc (width (n div 2)))"

declare width.simps [simp del]

definition ue_code :: "nat \<Rightarrow> bool list" where
  "ue_code n = ue_bits (width (n + 1)) n"

primrec read_codes :: "u8 list \<Rightarrow> nat \<Rightarrow> bs_t \<Rightarrow> (u32 list \<times> bs_t) result" where
  "read_codes buf 0 s = Inr ([], s)"
| "read_codes buf (Suc k) s = bind_result (bs_read_ue buf s) (\<lambda>(v, s). bind_result (read_codes buf k s) (\<lambda>(vs, s). Inr (v # vs, s)))"

lemma width_bounds: "0 < n \<Longrightarrow> 2 ^ width n \<le> n \<and> n < 2 ^ (width n + 1)"
proof (induction n rule: width.induct)
  case (1 n)
  show ?case
  proof (cases "n < 2")
    case False
    then have "2 ^ width (n div 2) \<le> n div 2" "n div 2 < 2 ^ (width (n div 2) + 1)" using 1 by simp_all
    moreover have "n = 2 * (n div 2) + n mod 2" "n mod 2 < 2" by simp_all
    moreover have "width n = Suc (width (n div 2))" using False width.simps [of n] by simp
    ultimately show ?thesis unfolding \<open>width n = _\<close> power_Suc power_add by linarith
  qed (use 1 width.simps [of n] in auto)
qed

text \<open>
  C33. Exp-Golomb codes that stand in a buffer one after another, wherever the first one starts within a byte, are read back
  by \<open>bs_read_ue\<close> as the numbers they encode, and the reader stops behind the last one.
\<close>

theorem exp_golomb_roundtrip:
  assumes "bs_ok buf s" "ahead buf s = concat (map ue_code ns) @ bs" "\<forall>n\<in>set ns. n + 1 < 2 ^ 32"
  shows "\<exists>s'. read_codes buf (length ns) s = Inr (map of_nat ns, s') \<and> bs_ok buf s' \<and> ahead buf s' = bs"
  using assms
proof (induction ns arbitrary: s)
  case (Cons n ns)
  have w: "2 ^ width (n + 1) \<le> n + 1" "n + 1 < 2 ^ (width (n + 1) + 1)" using width_bounds [of "n + 1"] by simp_all
  then have "2 ^ width (n + 1) < (2 :: nat) ^ 32" using Cons.prems(3) by simp
  then have k: "width (n + 1) \<le> 32" by (intro less_imp_le) (erule power_less_imp_less_exp [rotated], simp)
  have a: "ahead buf s = ue_bits (width (n + 1)) n @ (concat (map ue_code ns) @ bs)" using Cons.prems(2) by (simp add: ue_code_def [of n])
  obtain t where t: "bs_read_ue buf s = Inr (of_nat n, t)" "bs_ok buf t" "ahead buf t = concat (map ue_code ns) @ bs"
    by (rule bs_read_ue_ok [OF Cons.prems(1) a w k])
  then show ?case using Cons.IH [OF t(2,3)] Cons.prems(3) by auto
qed simp

theorem exp_golomb_roundtrip_witness:
  "\<exists>s'. read_codes [0xA6] 3 (bs_init 0 1) = Inr ([0, 1, 2], s') \<and> ahead [0xA6] s' = [False]"
proof -
  have "bs_ok [0xA6] (bs_init 0 1)" by (simp add: bs_ok_def bs_init_def)
  moreover have "ahead [0xA6] (bs_init 0 1) = concat (map ue_code [0, 1, 2]) @ [False]"
    by (simp add: ahead_def bs_init_def byte_bits_def ue_code_def ue_bits_def digits_def width.simps upt_rec bit_iff_odd)
  moreover have "\<forall>n\<in>set [0, 1, 2]. n + 1 < (2 :: nat) ^ 32" by simp
  moreover have "length [0, 1, 2 :: nat] = 3" "map of_nat [0, 1, 2 :: nat] = [0, 1, 2 :: u32]" by simp_all
  ultimately show ?thesis using exp_golomb_roundtrip [of "[0xA6]" "bs_init 0 1" "[0, 1, 2]" "[False]"] by metis
qed

end
