(* ===== verification/Ts_Frame.thy ===== *)
theory Ts_Frame
  imports Ts_Mux Ts_Bits
begin

text \<open>
  From frames to the transport stream (\<open>ts/Video.cpp\<close>, \<open>ts/Audio.cpp\<close> and \<open>WriteBuf2TsFile\<close> of \<open>ts/Mux.cpp\<close>): the
  type of a video frame, the header of the elementary stream, and the calls for audio and video frames on one session. A
  receiver that reassembles the packets gets the frames back in order, with their time stamps.
\<close>

unbundle bit_operations_syntax

section \<open>Network abstraction layer units\<close>










section \<open>The elementary stream\<close>

text \<open>The fields that \<open>H2642PES\<close> and \<open>AAC2PES\<close> fill in, in the same way but for the stream identifier.\<close>

definition fill_pes :: "u8 \<Rightarrow> u32 \<Rightarrow> u32 \<Rightarrow> TsPes \<Rightarrow> TsPes" where
  "fill_pes sid len pts pes = pes\<lparr>packet_start_code_prefix := 0x000001, stream_id := sid, PES_packet_length := 0,
     Pes_Packet_Length_Beyond := len, marker_bit := 0x02, PES_scrambling_control := 0, PES_priority := 0,
     data_alignment_indicator := 0, copyright := 0, original_or_copy := 0, PTS_DTS_flags := 0x02, ESCR_flag := 0,
     ES_rate_flag := 0, DSM_trick_mode_flag := 0, additional_copy_info_flag := 0, PES_CRC_flag := 0, PES_extension_flag := 0,
     PES_header_data_length := 0x05,
     tsptsdts := \<lparr>reserved_1 = 0x03,
       pts_32_30 = (if pts > 0x7FFFFFFF then ucast (drop_bit 30 pts AND 0x07) else 0),
       marker_bit1 = (if pts > 0x7FFFFFFF then 1 else 0),
       pts_29_15 = (if pts > 0x7FFF then drop_bit 15 pts AND 0x007FFF else 0),
       marker_bit2 = (if pts > 0x7FFF then 1 else 0),
       pts_14_0 = pts AND 0x007FFF, marker_bit3 = 1\<rparr>\<rparr>"




section \<open>The calls\<close>

text \<open>\<open>a / b\<close> of unsigned words.\<close>

definition divide_u :: "u32 \<Rightarrow> u32 \<Rightarrow> u32 result" where
  "divide_u a b = (if b = 0 then Inl Division_by_zero else Inr (a div b))"


text \<open>The time stamp after a picture: it advances by the nominal rate and once more by the rate measured from \<open>pts\<close>.\<close>

definition advance_video :: "u32 \<Rightarrow> u32 \<Rightarrow> TSPKG_SESSION \<Rightarrow> TSPKG_SESSION result" where
  "advance_video framerate pts session =
     bind_result (divide_u (1000 * 90) framerate) (\<lambda>d.
     let session = session\<lparr>Timestamp_video := Timestamp_video session + d\<rparr> in
     bind_result (divide_u 1000 (pts - session_pts session)) (\<lambda>framerate.
     let session = session\<lparr>session_pts := pts\<rparr> in
     bind_result (divide_u (1000 * 90) framerate) (\<lambda>d.
     Inr (session\<lparr>Timestamp_video := Timestamp_video session + d\<rparr>))))"



section \<open>Reading a frame\<close>






section \<open>Frames through the stream\<close>



lemma fill_pes_simps [simp]:
  "stream_id (fill_pes sid len pts pes) = sid" "Pes_Packet_Length_Beyond (fill_pes sid len pts pes) = len"
  "Es (fill_pes sid len pts pes) = Es pes"
  by (simp_all add: fill_pes_def)












text \<open>It returns when between 1 and 1000 milliseconds have passed since the last picture.\<close>

lemma advance_video_returns:
  assumes "framerate \<noteq> 0" "1 \<le> pts - session_pts s" "pts - session_pts s \<le> 1000"
  shows "advance_video framerate pts s = Inr (s\<lparr>session_pts := pts,
    Timestamp_video := Timestamp_video s + 90000 div framerate + 90000 div (1000 div (pts - session_pts s))\<rparr>)"
proof -
  have z: "pts - session_pts s \<noteq> 0" using assms(2) by auto
  have "unat (pts - session_pts s) \<le> 1000" "0 < unat (pts - session_pts s)" using assms(3) z by (simp_all add: word_le_nat_alt unat_gt_0)
  then have "unat (1000 div (pts - session_pts s)) \<noteq> 0" by (simp add: unat_div div_eq_0_iff)
  then have "1000 div (pts - session_pts s) \<noteq> 0" by (metis unat_0)
  then show ?thesis using assms(1) z by (simp add: advance_video_def divide_u_def Let_def)
qed


section \<open>A whole session\<close>

























subsection \<open>Reassembly\<close>







lemma divide_u_fault: "divide_u a b = Inl e \<Longrightarrow> e = Division_by_zero"
  by (simp add: divide_u_def split: if_splits)




section \<open>Properties\<close>




text \<open>After a picture has been sent the time stamp advances twice, by the nominal rate and by the rate measured from the time
  of the last picture; the call divides by zero exactly when the nominal rate is zero, when the picture has the same time in
  milliseconds as the last one, or when more than a second has passed.
\<close>

theorem picture_clock:
  "advance_video framerate pts s =
     (if framerate = 0 \<or> pts = session_pts s \<or> pts - session_pts s > 1000 then Inl Division_by_zero
      else Inr (s\<lparr>session_pts := pts,
        Timestamp_video := Timestamp_video s + 90000 div framerate + 90000 div (1000 div (pts - session_pts s))\<rparr>))"
proof (cases "framerate = 0 \<or> pts = session_pts s \<or> pts - session_pts s > 1000")
  case True
  have "1000 div d = 0" if "d > (1000 :: u32)" for d using that by (simp add: word_unat_eq_iff unat_div word_less_nat_alt)
  then show ?thesis using True by (auto simp: advance_video_def divide_u_def Let_def)
next
  case False
  then have "1 \<le> pts - session_pts s" by (simp add: word_le_nat_alt Suc_le_eq unat_gt_0)
  then show ?thesis using False advance_video_returns [of framerate pts s] by auto
qed

end
