(* ===== verification/Media_Queue.thy ===== *)
theory Media_Queue
  imports IotCam_Prelude
begin

text \<open>
  The bounded queue with a mutex and two condition variables that hands media data and events from thread to thread
  (\<open>MEDIAQUEUE/mqueue.h\<close>; \<open>EVENTLOOP/eventloop.h\<close> has the same class with another capacity). Any number of producers and
  consumers run; a step is what a thread does between two points where it can be suspended. The queue never grows beyond its
  capacity, data come out in the order in which they went in, and a thread waits only for a reason: no wake-up is lost.
\<close>

section \<open>The queue and its threads\<close>

type_synonym DATAPOINTER = s32

text \<open>Where a thread is: outside, in front of \<open>pthread_mutex_lock\<close> (also when it leaves a wait), behind it in front of the
  test of the loop, or inside \<open>pthread_cond_wait\<close>.\<close>

datatype pc = Idle
  | Push_lock DATAPOINTER | Push_test DATAPOINTER | Push_wait DATAPOINTER
  | Pop_lock | Pop_test | Pop_wait

record MQUEUE =
  mq_q :: "DATAPOINTER list"
  mq_cap :: nat
  mq_mutex :: "nat option"
  mq_pcs :: "pc list"
  mq_pushed :: "DATAPOINTER list"
  mq_popped :: "(nat \<times> DATAPOINTER) list"

text \<open>The last two fields are the history: the data in the order of \<open>q.push\<close>, and the data each \<open>PopData\<close> returned with its
  thread.\<close>

definition NUM :: nat where "NUM = 180"
definition NUM_events :: nat where "NUM_events = 8"

definition new_MQUEUE :: "nat \<Rightarrow> nat \<Rightarrow> MQUEUE" where
  "new_MQUEUE cap threads = \<lparr>mq_q = [], mq_cap = cap, mq_mutex = None, mq_pcs = replicate threads Idle, mq_pushed = [], mq_popped = []\<rparr>"

definition mq_IsEmpty :: "MQUEUE \<Rightarrow> bool" where
  "mq_IsEmpty s \<longleftrightarrow> length (mq_q s) = 0"

definition mq_IsFull :: "MQUEUE \<Rightarrow> bool" where
  "mq_IsFull s \<longleftrightarrow> length (mq_q s) = mq_cap s"

definition mq_getSize :: "MQUEUE \<Rightarrow> nat" where
  "mq_getSize s = length (mq_q s)"

section \<open>Condition variables\<close>

text \<open>\<open>pthread_cond_signal\<close> lets one of the waiting threads go on, if there is one; \<open>w\<close> is the scheduler's choice. A thread that
  goes on has to get the mutex first.\<close>

fun waits_full :: "pc \<Rightarrow> bool" where
  "waits_full (Push_wait d) = True"
| "waits_full _ = False"

fun waits_empty :: "pc \<Rightarrow> bool" where
  "waits_empty Pop_wait = True"
| "waits_empty _ = False"

fun woken :: "pc \<Rightarrow> pc" where
  "woken (Push_wait d) = Push_lock d"
| "woken Pop_wait = Pop_lock"
| "woken p = p"

definition choice :: "(pc \<Rightarrow> bool) \<Rightarrow> nat option \<Rightarrow> pc list \<Rightarrow> bool" where
  "choice waiting w ps = (case w of None \<Rightarrow> list_all (\<lambda>p. \<not> waiting p) ps | Some i \<Rightarrow> i < length ps \<and> waiting (ps ! i))"

definition pthread_cond_signal :: "nat option \<Rightarrow> pc list \<Rightarrow> pc list" where
  "pthread_cond_signal w ps = (case w of None \<Rightarrow> ps | Some i \<Rightarrow> ps[i := woken (ps ! i)])"

section \<open>PushData and PopData\<close>

text \<open>What \<open>PushData\<close> does with the mutex, from the test of the loop to the wait or to the end; \<open>ConsumeWait\<close> and
  \<open>ProductWait\<close> give the mutex back.\<close>

definition PushData_locked :: "nat \<Rightarrow> DATAPOINTER \<Rightarrow> nat option \<Rightarrow> MQUEUE \<Rightarrow> MQUEUE" where
  "PushData_locked t data w s =
     (let ps = pthread_cond_signal w (mq_pcs s) in
      if mq_IsFull s then s\<lparr>mq_mutex := None, mq_pcs := ps[t := Push_wait data]\<rparr>
      else s\<lparr>mq_q := mq_q s @ [data], mq_pushed := mq_pushed s @ [data], mq_mutex := None, mq_pcs := ps[t := Idle]\<rparr>)"

definition PopData_locked :: "nat \<Rightarrow> nat option \<Rightarrow> MQUEUE \<Rightarrow> MQUEUE" where
  "PopData_locked t w s =
     (let ps = pthread_cond_signal w (mq_pcs s) in
      case mq_q s of
        [] \<Rightarrow> s\<lparr>mq_mutex := None, mq_pcs := ps[t := Pop_wait]\<rparr>
      | data # q \<Rightarrow> s\<lparr>mq_q := q, mq_popped := mq_popped s @ [(t, data)], mq_mutex := None, mq_pcs := ps[t := Idle]\<rparr>)"

text \<open>The steps of threads inside a call.\<close>

inductive mq_go :: "MQUEUE \<Rightarrow> MQUEUE \<Rightarrow> bool" where
  push_lock: "t < length (mq_pcs s) \<Longrightarrow> mq_pcs s ! t = Push_lock d \<Longrightarrow> mq_mutex s = None \<Longrightarrow>
    mq_go s (s\<lparr>mq_mutex := Some t, mq_pcs := (mq_pcs s)[t := Push_test d]\<rparr>)"
| pop_lock: "t < length (mq_pcs s) \<Longrightarrow> mq_pcs s ! t = Pop_lock \<Longrightarrow> mq_mutex s = None \<Longrightarrow>
    mq_go s (s\<lparr>mq_mutex := Some t, mq_pcs := (mq_pcs s)[t := Pop_test]\<rparr>)"
| push: "t < length (mq_pcs s) \<Longrightarrow> mq_pcs s ! t = Push_test d \<Longrightarrow> choice waits_empty w (mq_pcs s) \<Longrightarrow>
    mq_go s (PushData_locked t d w s)"
| pop: "t < length (mq_pcs s) \<Longrightarrow> mq_pcs s ! t = Pop_test \<Longrightarrow> choice waits_full w (mq_pcs s) \<Longrightarrow>
    mq_go s (PopData_locked t w s)"

text \<open>All steps: also new calls, and \<open>spurious\<close>, a return of \<open>pthread_cond_wait\<close> without a signal, which POSIX allows.\<close>

inductive mq_step :: "MQUEUE \<Rightarrow> MQUEUE \<Rightarrow> bool" where
  go: "mq_go s s' \<Longrightarrow> mq_step s s'"
| push_call: "t < length (mq_pcs s) \<Longrightarrow> mq_pcs s ! t = Idle \<Longrightarrow> mq_step s (s\<lparr>mq_pcs := (mq_pcs s)[t := Push_lock d]\<rparr>)"
| pop_call: "t < length (mq_pcs s) \<Longrightarrow> mq_pcs s ! t = Idle \<Longrightarrow> mq_step s (s\<lparr>mq_pcs := (mq_pcs s)[t := Pop_lock]\<rparr>)"
| spurious: "t < length (mq_pcs s) \<Longrightarrow> waits_full (mq_pcs s ! t) \<or> waits_empty (mq_pcs s ! t) \<Longrightarrow>
    mq_step s (s\<lparr>mq_pcs := (mq_pcs s)[t := woken (mq_pcs s ! t)]\<rparr>)"

definition mq_reachable :: "nat \<Rightarrow> nat \<Rightarrow> MQUEUE \<Rightarrow> bool" where
  "mq_reachable cap threads s \<longleftrightarrow> mq_step\<^sup>*\<^sup>* (new_MQUEUE cap threads) s"

section \<open>Counting threads\<close>

definition cnt :: "('a \<Rightarrow> bool) \<Rightarrow> 'a list \<Rightarrow> nat" where
  "cnt P xs = length (filter P xs)"

lemma cnt_update: "i < length xs \<Longrightarrow> cnt P (xs[i := x]) + of_bool (P (xs ! i)) = cnt P xs + of_bool (P x)"
proof (induction xs arbitrary: i)
  case (Cons y ys)
  then show ?case by (cases i) (auto simp: cnt_def)
qed simp

lemma cnt_pos: "0 < cnt P xs \<longleftrightarrow> (\<exists>i<length xs. P (xs ! i))"
  by (auto simp: cnt_def filter_empty_conv in_set_conv_nth) (metis in_set_conv_nth)

text \<open>The threads of a kind that can go on without a signal.\<close>

fun pushing :: "pc \<Rightarrow> bool" where
  "pushing (Push_lock d) = True"
| "pushing (Push_test d) = True"
| "pushing _ = False"

fun popping :: "pc \<Rightarrow> bool" where
  "popping Pop_lock = True"
| "popping Pop_test = True"
| "popping _ = False"

fun holding :: "pc \<Rightarrow> bool" where
  "holding (Push_test d) = True"
| "holding Pop_test = True"
| "holding _ = False"

text \<open>The invariant. Its last two parts say that no wake-up is lost: when consumers wait, there are at least as many consumers
  on their way to the queue as data in it, and when producers wait, at least as many producers as free places.\<close>

definition mq_inv :: "MQUEUE \<Rightarrow> bool" where
  "mq_inv s \<longleftrightarrow> length (mq_q s) \<le> mq_cap s \<and> map snd (mq_popped s) @ mq_q s = mq_pushed s \<and>
     (\<forall>t<length (mq_pcs s). holding (mq_pcs s ! t) \<longleftrightarrow> mq_mutex s = Some t) \<and>
     (\<forall>t. mq_mutex s = Some t \<longrightarrow> t < length (mq_pcs s)) \<and>
     (0 < cnt waits_empty (mq_pcs s) \<longrightarrow> length (mq_q s) \<le> cnt popping (mq_pcs s)) \<and>
     (0 < cnt waits_full (mq_pcs s) \<longrightarrow> mq_cap s \<le> length (mq_q s) + cnt pushing (mq_pcs s))"

section \<open>The steps keep the invariant\<close>

lemma signal_nth:
  assumes "t < length ps"
  shows "pthread_cond_signal w ps ! t = (if w = Some t then woken (ps ! t) else ps ! t)"
  using assms by (cases w) (auto simp: pthread_cond_signal_def)

lemma woken_simps [simp]: "holding (woken p) = holding p" "\<not> waits_empty p \<Longrightarrow> \<not> waits_full p \<Longrightarrow> woken p = p"
  by (cases p; simp)+

lemma length_signal [simp]: "length (pthread_cond_signal w ps) = length ps"
  by (simp add: pthread_cond_signal_def split: option.split)

lemma waits_empty_iff: "waits_empty p \<longleftrightarrow> p = Pop_wait"
  by (cases p) simp_all

lemma waits_full_iff: "waits_full p \<longleftrightarrow> (\<exists>d. p = Push_wait d)"
  by (cases p) simp_all

lemma choice_pos: "choice P w ps \<Longrightarrow> 0 < cnt P ps \<longleftrightarrow> w \<noteq> None"
  by (cases w) (auto simp: choice_def cnt_pos list_all_length)

lemma signal_empty:
  assumes "choice waits_empty w ps"
  shows "cnt popping (pthread_cond_signal w ps) = cnt popping ps + of_bool (w \<noteq> None) \<and>
    cnt waits_empty (pthread_cond_signal w ps) + of_bool (w \<noteq> None) = cnt waits_empty ps \<and>
    cnt pushing (pthread_cond_signal w ps) = cnt pushing ps \<and> cnt waits_full (pthread_cond_signal w ps) = cnt waits_full ps"
proof (cases w)
  case (Some i)
  then have "i < length ps" "ps ! i = Pop_wait" using assms by (simp_all add: choice_def waits_empty_iff)
  then show ?thesis using Some cnt_update [of i ps popping Pop_lock] cnt_update [of i ps waits_empty Pop_lock]
      cnt_update [of i ps pushing Pop_lock] cnt_update [of i ps waits_full Pop_lock] by (simp add: pthread_cond_signal_def)
qed (simp add: pthread_cond_signal_def)

lemma signal_full:
  assumes "choice waits_full w ps"
  shows "cnt pushing (pthread_cond_signal w ps) = cnt pushing ps + of_bool (w \<noteq> None) \<and>
    cnt waits_full (pthread_cond_signal w ps) + of_bool (w \<noteq> None) = cnt waits_full ps \<and>
    cnt popping (pthread_cond_signal w ps) = cnt popping ps \<and> cnt waits_empty (pthread_cond_signal w ps) = cnt waits_empty ps"
proof (cases w)
  case (Some i)
  then obtain d where "i < length ps" "ps ! i = Push_wait d" using assms by (auto simp: choice_def waits_full_iff)
  then show ?thesis using Some cnt_update [of i ps popping "Push_lock d"] cnt_update [of i ps waits_empty "Push_lock d"]
      cnt_update [of i ps pushing "Push_lock d"] cnt_update [of i ps waits_full "Push_lock d"] by (simp add: pthread_cond_signal_def)
qed (simp add: pthread_cond_signal_def)

text \<open>Moving one thread changes each count by the difference of what it was and what it is.\<close>

lemma moved_counts:
  assumes "t < length ps" "ps ! t = p"
  shows "cnt popping (ps[t := p']) + of_bool (popping p) = cnt popping ps + of_bool (popping p')"
    "cnt pushing (ps[t := p']) + of_bool (pushing p) = cnt pushing ps + of_bool (pushing p')"
    "cnt waits_empty (ps[t := p']) + of_bool (waits_empty p) = cnt waits_empty ps + of_bool (waits_empty p')"
    "cnt waits_full (ps[t := p']) + of_bool (waits_full p) = cnt waits_full ps + of_bool (waits_full p')"
  using cnt_update [OF assms(1)] assms(2) by metis+

lemma holding_after:
  assumes "\<forall>u<length ps. holding (ps ! u) \<longleftrightarrow> m = Some u" "t < length ps" "holding (ps ! t)" "\<not> holding p"
  shows "\<forall>u<length ps. \<not> holding ((pthread_cond_signal w ps)[t := p] ! u)"
  using assms by (auto simp: nth_list_update signal_nth)

lemma push_keeps:
  assumes "mq_inv s" "t < length (mq_pcs s)" "mq_pcs s ! t = Push_test d" "choice waits_empty w (mq_pcs s)"
  shows "mq_inv (PushData_locked t d w s)"
proof -
  let ?ps = "mq_pcs s" and ?qs = "pthread_cond_signal w (mq_pcs s)"
  note i = assms(1) [unfolded mq_inv_def]
  have t: "t < length ?qs" "?qs ! t = Push_test d" using assms(2-4) by (auto simp: signal_nth choice_def split: option.splits)
  note c = signal_empty [OF assms(4)] choice_pos [OF assms(4)]
  show ?thesis
  proof (cases "mq_IsFull s")
    case True
    have h: "\<forall>u<length ?ps. \<not> holding (?qs[t := Push_wait d] ! u)" by (rule holding_after [of _ "mq_mutex s"]) (use i assms in auto)
    show ?thesis using i h True c moved_counts [OF t, of "Push_wait d"]
      by (auto simp: mq_inv_def PushData_locked_def Let_def mq_IsFull_def)
  next
    case False
    have h: "\<forall>u<length ?ps. \<not> holding (?qs[t := Idle] ! u)" by (rule holding_after [of _ "mq_mutex s"]) (use i assms in auto)
    show ?thesis using i h False c moved_counts [OF t, of Idle]
      by (auto simp: mq_inv_def PushData_locked_def Let_def mq_IsFull_def)
  qed
qed

lemma pop_keeps:
  assumes "mq_inv s" "t < length (mq_pcs s)" "mq_pcs s ! t = Pop_test" "choice waits_full w (mq_pcs s)"
  shows "mq_inv (PopData_locked t w s)"
proof -
  let ?ps = "mq_pcs s" and ?qs = "pthread_cond_signal w (mq_pcs s)"
  note i = assms(1) [unfolded mq_inv_def]
  have t: "t < length ?qs" "?qs ! t = Pop_test" using assms(2-4) by (auto simp: signal_nth choice_def split: option.splits)
  note c = signal_full [OF assms(4)] choice_pos [OF assms(4)]
  show ?thesis
  proof (cases "mq_q s")
    case Nil
    have h: "\<forall>u<length ?ps. \<not> holding (?qs[t := Pop_wait] ! u)" by (rule holding_after [of _ "mq_mutex s"]) (use i assms in auto)
    show ?thesis using i h Nil c moved_counts [OF t, of Pop_wait] by (auto simp: mq_inv_def PopData_locked_def Let_def)
  next
    case (Cons d q)
    have h: "\<forall>u<length ?ps. \<not> holding (?qs[t := Idle] ! u)" by (rule holding_after [of _ "mq_mutex s"]) (use i assms in auto)
    show ?thesis using i h Cons c moved_counts [OF t, of Idle] by (auto simp: mq_inv_def PopData_locked_def Let_def)
  qed
qed

lemma mq_go_inv:
  assumes "mq_go s s'" "mq_inv s"
  shows "mq_inv s'"
  using assms
proof (induction rule: mq_go.induct)
  case (push_lock t s d)
  then show ?case using moved_counts [OF push_lock(1,2), of "Push_test d"] by (auto simp: mq_inv_def nth_list_update)
next
  case (pop_lock t s)
  then show ?case using moved_counts [OF pop_lock(1,2), of Pop_test] by (auto simp: mq_inv_def nth_list_update)
next
  case (push t s d w)
  then show ?case by (intro push_keeps)
next
  case (pop t s w)
  then show ?case by (intro pop_keeps)
qed

lemma mq_step_inv:
  assumes "mq_step s s'" "mq_inv s"
  shows "mq_inv s'"
  using assms
proof (induction rule: mq_step.induct)
  case (go s s')
  then show ?case by (rule mq_go_inv)
next
  case (push_call t s d)
  then show ?case using moved_counts [OF push_call(1,2), of "Push_lock d"] by (auto simp: mq_inv_def nth_list_update)
next
  case (pop_call t s)
  then show ?case using moved_counts [OF pop_call(1,2), of Pop_lock] by (auto simp: mq_inv_def nth_list_update)
next
  case (spurious t s)
  then show ?case using moved_counts [OF spurious(1) refl, of "woken (mq_pcs s ! t)"]
    by (cases "mq_pcs s ! t") (auto simp: mq_inv_def nth_list_update)
qed

lemma mq_reachable_inv: "mq_reachable cap threads s \<Longrightarrow> mq_inv s"
  unfolding mq_reachable_def
proof (induction rule: rtranclp_induct)
  case base
  show ?case by (simp add: mq_inv_def new_MQUEUE_def cnt_def)
next
  case (step s s')
  then show ?case using mq_step_inv by blast
qed

lemma mq_step_cap: "mq_step s s' \<Longrightarrow> mq_cap s' = mq_cap s"
  by (induction rule: mq_step.induct) (auto elim!: mq_go.cases simp: PushData_locked_def PopData_locked_def Let_def split: list.splits)

lemma mq_reachable_cap: "mq_reachable cap threads s \<Longrightarrow> mq_cap s = cap"
  unfolding mq_reachable_def
proof (induction rule: rtranclp_induct)
  case base
  show ?case by (simp add: new_MQUEUE_def)
next
  case (step s s')
  then show ?case using mq_step_cap by simp
qed

section \<open>Waiting has a reason\<close>

text \<open>A run of the threads inside their calls: without new calls and without wake-ups that nobody sent.\<close>

abbreviation mq_run :: "MQUEUE \<Rightarrow> MQUEUE \<Rightarrow> bool" where
  "mq_run \<equiv> mq_go\<^sup>*\<^sup>*"

lemma choice_exists: "\<exists>w. choice P w ps"
proof (cases "0 < cnt P ps")
  case True
  then obtain i where "i < length ps" "P (ps ! i)" using cnt_pos by blast
  then show ?thesis by (intro exI [of _ "Some i"]) (simp add: choice_def)
next
  case False
  then show ?thesis by (intro exI [of _ None]) (auto simp: choice_def cnt_pos list_all_length)
qed

lemma pop_now:
  assumes "t < length (mq_pcs s)" "mq_pcs s ! t = Pop_test" "mq_q s \<noteq> []"
  shows "\<exists>s'. mq_run s s' \<and> length (mq_popped s) < length (mq_popped s')"
proof -
  obtain w where "choice waits_full w (mq_pcs s)" using choice_exists by blast
  then have "mq_go s (PopData_locked t w s)" using assms by (intro mq_go.pop)
  then show ?thesis using assms(3) by (intro exI [of _ "PopData_locked t w s"]) (auto simp: PopData_locked_def Let_def neq_Nil_conv)
qed

lemma push_now:
  assumes "t < length (mq_pcs s)" "mq_pcs s ! t = Push_test d" "\<not> mq_IsFull s"
  shows "\<exists>s'. mq_run s s' \<and> length (mq_pushed s) < length (mq_pushed s')"
proof -
  obtain w where "choice waits_empty w (mq_pcs s)" using choice_exists by blast
  then have "mq_go s (PushData_locked t d w s)" using assms by (intro mq_go.push)
  then show ?thesis using assms(3) by (intro exI [of _ "PushData_locked t d w s"]) (auto simp: PushData_locked_def Let_def)
qed

lemma pop_after_lock:
  assumes "t < length (mq_pcs s)" "mq_pcs s ! t = Pop_lock" "mq_q s \<noteq> []" "mq_mutex s = None"
  shows "\<exists>s'. mq_run s s' \<and> length (mq_popped s) < length (mq_popped s')"
proof -
  let ?s = "s\<lparr>mq_mutex := Some t, mq_pcs := (mq_pcs s)[t := Pop_test]\<rparr>"
  have "mq_go s ?s" using assms by (intro mq_go.pop_lock)
  moreover have "\<exists>s'. mq_run ?s s' \<and> length (mq_popped ?s) < length (mq_popped s')" by (rule pop_now [of t]) (use assms in auto)
  ultimately show ?thesis by (auto intro: converse_rtranclp_into_rtranclp)
qed

lemma push_after_lock:
  assumes "t < length (mq_pcs s)" "mq_pcs s ! t = Push_lock d" "\<not> mq_IsFull s" "mq_mutex s = None"
  shows "\<exists>s'. mq_run s s' \<and> length (mq_pushed s) < length (mq_pushed s')"
proof -
  let ?s = "s\<lparr>mq_mutex := Some t, mq_pcs := (mq_pcs s)[t := Push_test d]\<rparr>"
  have "mq_go s ?s" using assms by (intro mq_go.push_lock)
  moreover have "\<exists>s'. mq_run ?s s' \<and> length (mq_pushed ?s) < length (mq_pushed s')"
    by (rule push_now [of t _ d]) (use assms in \<open>auto simp: mq_IsFull_def\<close>)
  ultimately show ?thesis by (auto intro: converse_rtranclp_into_rtranclp)
qed

text \<open>The thread that has the mutex ends its turn; a thread that is on its way to the mutex stays where it is.\<close>

lemma holder:
  assumes "mq_inv s" "mq_mutex s = Some u"
  obtains "u < length (mq_pcs s)" "mq_pcs s ! u = Pop_test" | d where "u < length (mq_pcs s)" "mq_pcs s ! u = Push_test d"
proof -
  have "u < length (mq_pcs s)" "holding (mq_pcs s ! u)" using assms by (auto simp: mq_inv_def)
  then show ?thesis using that by (cases "mq_pcs s ! u") auto
qed

lemma consumer_gets:
  assumes "mq_inv s" "mq_q s \<noteq> []" "t < length (mq_pcs s)" "popping (mq_pcs s ! t)"
  shows "\<exists>s'. mq_run s s' \<and> length (mq_popped s) < length (mq_popped s')"
proof (cases "mq_pcs s ! t = Pop_test")
  case True
  then show ?thesis using pop_now assms by blast
next
  case False
  then have t: "mq_pcs s ! t = Pop_lock" using assms(4) by (cases "mq_pcs s ! t") auto
  show ?thesis
  proof (cases "mq_mutex s")
    case None
    then show ?thesis using pop_after_lock assms t by blast
  next
    case (Some u)
    from assms(1) Some show ?thesis
    proof (cases rule: holder)
      case 1
      then show ?thesis using pop_now assms by blast
    next
      case (2 d)
      obtain w where w: "choice waits_empty w (mq_pcs s)" using choice_exists by blast
      let ?s = "PushData_locked u d w s"
      have "mq_go s ?s" using 2 w by (intro mq_go.push)
      moreover have "mq_pcs ?s ! t = Pop_lock" "mq_q ?s \<noteq> []" "mq_mutex ?s = None" "t < length (mq_pcs ?s)" "mq_popped ?s = mq_popped s"
        using t 2 assms by (auto simp: PushData_locked_def Let_def nth_list_update signal_nth)
      ultimately show ?thesis using pop_after_lock [of t ?s] by (auto intro: converse_rtranclp_into_rtranclp)
    qed
  qed
qed

lemma producer_puts:
  assumes "mq_inv s" "\<not> mq_IsFull s" "t < length (mq_pcs s)" "pushing (mq_pcs s ! t)"
  shows "\<exists>s'. mq_run s s' \<and> length (mq_pushed s) < length (mq_pushed s')"
proof (cases "\<exists>d. mq_pcs s ! t = Push_test d")
  case True
  then show ?thesis using push_now assms by blast
next
  case False
  then obtain d where t: "mq_pcs s ! t = Push_lock d" using assms(4) by (cases "mq_pcs s ! t") auto
  show ?thesis
  proof (cases "mq_mutex s")
    case None
    then show ?thesis using push_after_lock assms t by blast
  next
    case (Some u)
    from assms(1) Some show ?thesis
    proof (cases rule: holder)
      case 1
      obtain w where w: "choice waits_full w (mq_pcs s)" using choice_exists by blast
      let ?s = "PopData_locked u w s"
      have "mq_go s ?s" using 1 w by (intro mq_go.pop)
      moreover have "length (mq_q s) < mq_cap s" using assms(1,2) by (auto simp: mq_inv_def mq_IsFull_def)
      then have "mq_pcs ?s ! t = Push_lock d" "\<not> mq_IsFull ?s" "mq_mutex ?s = None" "t < length (mq_pcs ?s)" "mq_pushed ?s = mq_pushed s"
        using t 1 assms by (auto simp: PopData_locked_def Let_def nth_list_update signal_nth mq_IsFull_def split: list.split)
      ultimately show ?thesis using push_after_lock [of t ?s] by (auto intro: converse_rtranclp_into_rtranclp)
    next
      case (2 e)
      then show ?thesis using push_now assms by blast
    qed
  qed
qed

section \<open>Shared data\<close>

text \<open>\<open>MDATA\<close>: the reference counts of the objects that exist. \<open>mdata_push\<close> counts a reference and hands the object over;
  \<open>release\<close> gives a reference back and deletes the object with the last one.\<close>

type_synonym mdata_heap = "DATAPOINTER \<Rightarrow> int option"

definition new_MDATA :: "DATAPOINTER \<Rightarrow> mdata_heap \<Rightarrow> mdata_heap" where
  "new_MDATA p h = h(p \<mapsto> 0)"

definition mdata_push :: "DATAPOINTER \<Rightarrow> mdata_heap \<Rightarrow> mdata_heap result" where
  "mdata_push md h = (case h md of None \<Rightarrow> Inl Use_after_free | Some n \<Rightarrow> Inr (h(md \<mapsto> n + 1)))"

definition release :: "DATAPOINTER \<Rightarrow> mdata_heap \<Rightarrow> mdata_heap result" where
  "release md h = (case h md of None \<Rightarrow> Inl Use_after_free
     | Some n \<Rightarrow> if n - 1 = 0 then Inr (h(md := None)) else Inr (h(md \<mapsto> n - 1)))"

primrec repeated :: "nat \<Rightarrow> ('a \<Rightarrow> 'a result) \<Rightarrow> 'a \<Rightarrow> 'a result" where
  "repeated 0 f x = Inr x"
| "repeated (Suc n) f x = bind_result (f x) (repeated n f)"

lemma mdata_pushes: "h p = Some m \<Longrightarrow> repeated n (mdata_push p) h = Inr (h(p \<mapsto> m + int n))"
  by (induction n arbitrary: h m) (auto simp: mdata_push_def fun_upd_idem algebra_simps)

lemma releases: "h p = Some (int n) \<Longrightarrow> 0 < n \<Longrightarrow> repeated n (release p) h = Inr (h(p := None))"
proof (induction n arbitrary: h)
  case (Suc n)
  then show ?case by (cases "n = 0") (auto simp: release_def)
qed simp

text \<open>An object that is pushed \<open>n\<close> times can be released \<open>n\<close> times; then it is gone, and one more release uses freed memory.\<close>

lemma pushed_and_released:
  assumes "0 < n"
  shows "bind_result (repeated n (mdata_push p) (new_MDATA p h)) (repeated n (release p)) = Inr (h(p := None))"
    "release p (h(p := None)) = Inl Use_after_free"
proof -
  have "repeated n (mdata_push p) (new_MDATA p h) = Inr (h(p \<mapsto> int n))" using mdata_pushes [of "new_MDATA p h" p 0 n] by (simp add: new_MDATA_def)
  then show "bind_result (repeated n (mdata_push p) (new_MDATA p h)) (repeated n (release p)) = Inr (h(p := None))"
    using releases [of "h(p \<mapsto> int n)" p n] assms by simp
  show "release p (h(p := None)) = Inl Use_after_free" by (simp add: release_def)
qed

section \<open>Properties\<close>

text \<open>
  C20. In every state that any number of producers and consumers can reach, the queue holds at most \<open>cap\<close> data, at most one
  thread is between lock and unlock, and what the consumers got, in the order of their calls, followed by what is still in the
  queue, is what the producers put in, in the order in which they did: nothing is lost, doubled or reordered.
\<close>

theorem media_queue_fifo:
  assumes "mq_reachable cap threads s"
  shows "mq_getSize s \<le> cap \<and> map snd (mq_popped s) @ mq_q s = mq_pushed s \<and>
    (\<forall>t u. t < length (mq_pcs s) \<and> u < length (mq_pcs s) \<and> holding (mq_pcs s ! t) \<and> holding (mq_pcs s ! u) \<longrightarrow> t = u)"
  using mq_reachable_inv [OF assms] mq_reachable_cap [OF assms] by (auto simp: mq_inv_def mq_getSize_def)

text \<open>
  C21. No wake-up is lost. Whenever the queue is not empty and a thread is inside \<open>PopData\<close>, waiting or not, the threads that
  are inside their calls can go on, without new calls and without spurious wake-ups, until a datum has been taken out; and
  whenever the queue is not full and a thread is inside \<open>PushData\<close>, they can go on until a datum has been put in.
\<close>

theorem media_queue_no_lost_wakeup:
  assumes "mq_reachable cap threads s" "t < length (mq_pcs s)"
  shows "(\<not> mq_IsEmpty s \<and> (popping (mq_pcs s ! t) \<or> waits_empty (mq_pcs s ! t)) \<longrightarrow>
      (\<exists>s'. mq_run s s' \<and> length (mq_popped s) < length (mq_popped s'))) \<and>
    (\<not> mq_IsFull s \<and> (pushing (mq_pcs s ! t) \<or> waits_full (mq_pcs s ! t)) \<longrightarrow>
      (\<exists>s'. mq_run s s' \<and> length (mq_pushed s) < length (mq_pushed s')))"
proof (intro conjI impI)
  note i = mq_reachable_inv [OF assms(1)]
  assume a: "\<not> mq_IsEmpty s \<and> (popping (mq_pcs s ! t) \<or> waits_empty (mq_pcs s ! t))"
  then have "0 < cnt popping (mq_pcs s)"
    using i assms(2) cnt_pos [of waits_empty "mq_pcs s"] cnt_pos [of popping "mq_pcs s"] by (fastforce simp: mq_inv_def mq_IsEmpty_def)
  then show "\<exists>s'. mq_run s s' \<and> length (mq_popped s) < length (mq_popped s')"
    using a consumer_gets [OF i] by (auto simp: cnt_pos mq_IsEmpty_def)
next
  note i = mq_reachable_inv [OF assms(1)]
  assume a: "\<not> mq_IsFull s \<and> (pushing (mq_pcs s ! t) \<or> waits_full (mq_pcs s ! t))"
  then have "0 < cnt pushing (mq_pcs s)"
    using i assms(2) cnt_pos [of waits_full "mq_pcs s"] cnt_pos [of pushing "mq_pcs s"] by (fastforce simp: mq_inv_def mq_IsFull_def)
  then show "\<exists>s'. mq_run s s' \<and> length (mq_pushed s) < length (mq_pushed s')"
    using a producer_puts [OF i] by (auto simp: cnt_pos)
qed

text \<open>A run of one producer and two consumers: both consumers find the queue empty and wait, then a datum is pushed.\<close>

definition one_pushed :: MQUEUE where
  "one_pushed = \<lparr>mq_q = [7], mq_cap = 8, mq_mutex = None, mq_pcs = [Idle, Pop_lock, Pop_wait], mq_pushed = [7], mq_popped = []\<rparr>"

lemma one_pushed_reachable: "mq_reachable NUM_events 3 one_pushed"
proof -
  let ?s = "\<lambda>m ps. \<lparr>mq_q = [], mq_cap = 8, mq_mutex = m, mq_pcs = ps, mq_pushed = [], mq_popped = []\<rparr>"
  have 0: "new_MQUEUE NUM_events 3 = ?s None [Idle, Idle, Idle]" by (simp add: new_MQUEUE_def NUM_events_def numeral_3_eq_3)
  have "mq_step (?s None [Idle, Idle, Idle]) (?s None [Idle, Pop_lock, Idle])"
    using mq_step.pop_call [of 1 "?s None [Idle, Idle, Idle]"] by simp
  moreover have "mq_step (?s None [Idle, Pop_lock, Idle]) (?s (Some 1) [Idle, Pop_test, Idle])"
    using mq_go.pop_lock [of 1 "?s None [Idle, Pop_lock, Idle]"] by (auto intro: mq_step.go)
  moreover have "mq_step (?s (Some 1) [Idle, Pop_test, Idle]) (?s None [Idle, Pop_wait, Idle])"
    using mq_go.pop [of 1 "?s (Some 1) [Idle, Pop_test, Idle]" None]
    by (auto intro!: mq_step.go simp: choice_def PopData_locked_def pthread_cond_signal_def)
  moreover have "mq_step (?s None [Idle, Pop_wait, Idle]) (?s None [Idle, Pop_wait, Pop_lock])"
    using mq_step.pop_call [of 2 "?s None [Idle, Pop_wait, Idle]"] by simp
  moreover have "mq_step (?s None [Idle, Pop_wait, Pop_lock]) (?s (Some 2) [Idle, Pop_wait, Pop_test])"
    using mq_go.pop_lock [of 2 "?s None [Idle, Pop_wait, Pop_lock]"] by (auto intro: mq_step.go)
  moreover have "mq_step (?s (Some 2) [Idle, Pop_wait, Pop_test]) (?s None [Idle, Pop_wait, Pop_wait])"
    using mq_go.pop [of 2 "?s (Some 2) [Idle, Pop_wait, Pop_test]" None]
    by (auto intro!: mq_step.go simp: choice_def PopData_locked_def pthread_cond_signal_def)
  moreover have "mq_step (?s None [Idle, Pop_wait, Pop_wait]) (?s None [Push_lock 7, Pop_wait, Pop_wait])"
    using mq_step.push_call [of 0 "?s None [Idle, Pop_wait, Pop_wait]" 7] by simp
  moreover have "mq_step (?s None [Push_lock 7, Pop_wait, Pop_wait]) (?s (Some 0) [Push_test 7, Pop_wait, Pop_wait])"
    using mq_go.push_lock [of 0 "?s None [Push_lock 7, Pop_wait, Pop_wait]" 7] by (auto intro: mq_step.go)
  moreover have "mq_step (?s (Some 0) [Push_test 7, Pop_wait, Pop_wait]) one_pushed"
    using mq_go.push [of 0 "?s (Some 0) [Push_test 7, Pop_wait, Pop_wait]" 7 "Some 1"]
    by (auto intro!: mq_step.go simp: choice_def PushData_locked_def pthread_cond_signal_def mq_IsFull_def one_pushed_def)
  ultimately show ?thesis unfolding mq_reachable_def 0 by (meson converse_rtranclp_into_rtranclp rtranclp.rtrancl_refl)
qed

theorem media_queue_fifo_witness: "mq_getSize one_pushed \<le> NUM_events \<and> map snd (mq_popped one_pushed) @ mq_q one_pushed = [7]"
  using media_queue_fifo [OF one_pushed_reachable] by (simp add: one_pushed_def)

theorem media_queue_no_lost_wakeup_witness: "\<exists>s'. mq_run one_pushed s' \<and> 0 < length (mq_popped s')"
  using media_queue_no_lost_wakeup [OF one_pushed_reachable, of 2] by (auto simp: one_pushed_def mq_IsEmpty_def)

end
