(* ===== verification/Rtp_Source.thy ===== *)
theory Rtp_Source
  imports Byte_Memory
begin

text \<open>
  The media sources of the RTSP server (\<open>rtsp/H264Source.cpp\<close>, \<open>rtsp/H265Source.cpp\<close>, \<open>rtsp/AACSource.cpp\<close>, \<open>rtsp/rtp.h\<close>,
  \<open>rtsp/media.h\<close>): a frame is cut into packets that fit the network, and each packet is given to a callback. A receiver after
  RFC 6184, RFC 7798 and RFC 3640 puts the frames together again; the locale \<open>packetiser\<close> states this contract once for the
  three formats.
\<close>

unbundle bit_operations_syntax

section \<open>Frames and packets\<close>

record AVFrame =
  fr_buffer :: "u8 list"
  fr_size :: u32
  fr_type :: u8
  fr_timestamp :: u32

record RtpPacket =
  pkt_data :: "u8 list"
  pkt_size :: u32
  pkt_timestamp :: u32
  pkt_type :: u8
  pkt_last :: u8

definition RTP_HEADER_SIZE :: nat where "RTP_HEADER_SIZE = 12"
definition MAX_RTP_PAYLOAD_SIZE :: nat where "MAX_RTP_PAYLOAD_SIZE = 1420"

text \<open>\<open>new uint8_t[1600]\<close> gives the bytes \<open>raw\<close>. The payload starts behind the places for the RTP header and for the four bytes
  of the framing over TCP: first some bytes, then \<open>memcpy\<close>.\<close>

definition put_payload :: "u8 list \<Rightarrow> u8 list \<Rightarrow> u8 list \<Rightarrow> nat \<Rightarrow> u8 list result" where
  "put_payload raw hdr src n =
     bind_result (stores (4 + RTP_HEADER_SIZE) hdr raw) (memcpy (4 + RTP_HEADER_SIZE + length hdr) src n)"

text \<open>The callback, if one is set, takes a packet and changes the state of the session; its result says whether to go on.\<close>

type_synonym 's callback = "(RtpPacket \<Rightarrow> 's \<Rightarrow> bool \<times> 's) option"

definition sendFrame :: "'s callback \<Rightarrow> RtpPacket \<Rightarrow> 's \<Rightarrow> bool \<times> 's" where
  "sendFrame cb pkt s = (case cb of None \<Rightarrow> (True, s) | Some f \<Rightarrow> f pkt s)"

section \<open>Fragments\<close>

lemma fu_size:
  assumes "frameSize + of_nat n > (1420 :: u32)" "n + k = 1420"
  shows "unat (frameSize - of_nat k) + k = unat frameSize" "1420 < unat frameSize + n"
proof -
  have n: "unat (of_nat n :: u32) = n" "unat (of_nat k :: u32) = k" using assms(2) by (intro unat_of_nat_32; simp)+
  have "1420 < (unat frameSize + n) mod 4294967296" using assms(1) by (simp add: word_less_nat_alt unat_word_ariths n)
  then show a: "1420 < unat frameSize + n" using less_le_trans mod_less_eq_dividend by blast
  have "(of_nat k :: u32) \<le> frameSize" using a assms(2) by (simp add: word_le_nat_alt n)
  then show "unat (frameSize - of_nat k) + k = unat frameSize" using a assms(2) by (simp add: unat_sub n)
qed

text \<open>The loop over the fragments of a frame, and the last one. \<open>ind\<close> are the bytes in front of the header of the fragment: one
  byte for H.264, two for H.265 (\<open>hevc\<close>); \<open>n\<close> counts them and the header.\<close>

function fu_loop :: "bool \<Rightarrow> u8 list \<Rightarrow> 's callback \<Rightarrow> AVFrame \<Rightarrow> u8 list \<Rightarrow> u8 \<Rightarrow> u8 list \<Rightarrow> u32 \<Rightarrow> 's \<Rightarrow> (bool \<times> 's) result" where
  "fu_loop hevc raw cb frame ind fu frameBuf frameSize s =
     (let n = (if hevc then 3 else 2) in
      if frameSize + of_nat n > of_nat MAX_RTP_PAYLOAD_SIZE then
        bind_result (put_payload raw (ind @ [fu]) frameBuf (MAX_RTP_PAYLOAD_SIZE - n)) (\<lambda>data.
        let pkt = \<lparr>pkt_data = data, pkt_size = of_nat (4 + RTP_HEADER_SIZE + MAX_RTP_PAYLOAD_SIZE), pkt_timestamp = fr_timestamp frame,
              pkt_type = fr_type frame, pkt_last = 0\<rparr>;
            (ok, s) = sendFrame cb pkt s in
        if ok then fu_loop hevc raw cb frame ind (fu AND NOT 0x80) (drop (MAX_RTP_PAYLOAD_SIZE - n) frameBuf)
          (frameSize - of_nat (MAX_RTP_PAYLOAD_SIZE - n)) s
        else Inr (False, s))
      else
        let fu = fu OR 0x40 in
        bind_result (put_payload raw (ind @ [fu]) frameBuf (unat frameSize)) (\<lambda>data.
        let pkt = \<lparr>pkt_data = data, pkt_size = of_nat (4 + RTP_HEADER_SIZE + n) + frameSize, pkt_timestamp = fr_timestamp frame,
              pkt_type = fr_type frame, pkt_last = 1\<rparr> in
        Inr (sendFrame cb pkt s)))"
  by pat_completeness auto

termination
proof (relation "measure (\<lambda>(hevc, raw, cb, frame, ind, fu, frameBuf, frameSize, s). unat frameSize)", goal_cases)
  case (2 hevc raw cb frame ind fu frameBuf frameSize s n data pkt r ok s')
  have "frameSize + of_nat n > (1420 :: u32)" "n + (1420 - n) = 1420" using 2(1,2) by (simp_all add: MAX_RTP_PAYLOAD_SIZE_def)
  from fu_size(1) [OF this] 2(1) show ?case by (cases hevc) (simp_all add: MAX_RTP_PAYLOAD_SIZE_def)
qed simp

declare fu_loop.simps [simp del]

section \<open>The sources\<close>

text \<open>\<open>now\<close> is \<open>getTimeStamp()\<close>, which is used when the frame has no time stamp.\<close>

definition H264Source_handleFrame :: "u8 list \<Rightarrow> u32 \<Rightarrow> 's callback \<Rightarrow> AVFrame \<Rightarrow> 's \<Rightarrow> (bool \<times> 's) result" where
  "H264Source_handleFrame raw now cb frame s =
     (let frame = (if fr_timestamp frame = 0 then frame\<lparr>fr_timestamp := now\<rparr> else frame);
          frameBuf = fr_buffer frame; frameSize = fr_size frame in
      if frameSize \<le> of_nat MAX_RTP_PAYLOAD_SIZE then
        bind_result (put_payload raw [] frameBuf (unat frameSize)) (\<lambda>data.
        let pkt = \<lparr>pkt_data = data, pkt_size = frameSize + of_nat (4 + RTP_HEADER_SIZE), pkt_timestamp = fr_timestamp frame,
              pkt_type = fr_type frame, pkt_last = 1\<rparr> in
        Inr (sendFrame cb pkt s))
      else
        case frameBuf of
          b # frameBuf \<Rightarrow> fu_loop False raw cb frame [(b AND 0xE0) OR 28] (0x80 OR (b AND 0x1f)) frameBuf (frameSize - 1) s
        | [] \<Rightarrow> Inl Read_out_of_bounds)"

definition H265Source_handleFrame :: "u8 list \<Rightarrow> u32 \<Rightarrow> 's callback \<Rightarrow> AVFrame \<Rightarrow> 's \<Rightarrow> (bool \<times> 's) result" where
  "H265Source_handleFrame raw now cb frame s =
     (let frame = (if fr_timestamp frame = 0 then frame\<lparr>fr_timestamp := now\<rparr> else frame);
          frameBuf = fr_buffer frame; frameSize = fr_size frame in
      if frameSize \<le> of_nat MAX_RTP_PAYLOAD_SIZE then
        bind_result (put_payload raw [] frameBuf (unat frameSize)) (\<lambda>data.
        let pkt = \<lparr>pkt_data = data, pkt_size = frameSize + of_nat (4 + RTP_HEADER_SIZE), pkt_timestamp = fr_timestamp frame,
              pkt_type = fr_type frame, pkt_last = 1\<rparr> in
        Inr (sendFrame cb pkt s))
      else
        case frameBuf of
          b # c # frameBuf \<Rightarrow>
            let nalUnitType = drop_bit 1 (b AND 0x7E) in
            fu_loop True raw cb frame [(b AND 0x81) OR push_bit 1 49, c] (0x80 OR nalUnitType) frameBuf (frameSize - 2) s
        | _ \<Rightarrow> Inl Read_out_of_bounds)"

definition AU_SIZE :: nat where "AU_SIZE = 4"
definition ADTS_SIZE :: nat where "ADTS_SIZE = 7"

text \<open>The result of the callback is ignored here.\<close>

definition AACSource_handleFrame :: "bool \<Rightarrow> u8 list \<Rightarrow> 's callback \<Rightarrow> AVFrame \<Rightarrow> 's \<Rightarrow> (bool \<times> 's) result" where
  "AACSource_handleFrame hasADTS raw cb frame s =
     (if fr_size frame > of_nat (MAX_RTP_PAYLOAD_SIZE - AU_SIZE) then Inr (False, s)
      else
        let adtsSize = (if hasADTS then ADTS_SIZE else 0);
            frameBuf = drop adtsSize (fr_buffer frame); frameSize = fr_size frame - of_nat adtsSize;
            AU = [0x00, 0x10, ucast (drop_bit 5 (frameSize AND 0x1fe0)), ucast (push_bit 3 (frameSize AND 0x1f))] in
        bind_result (put_payload raw AU frameBuf (unat frameSize)) (\<lambda>data.
        let pkt = \<lparr>pkt_data = data, pkt_size = frameSize + of_nat (4 + RTP_HEADER_SIZE + AU_SIZE), pkt_timestamp = fr_timestamp frame,
              pkt_type = fr_type frame, pkt_last = 1\<rparr>;
            (ok, s) = sendFrame cb pkt s in
        Inr (True, s)))"

definition G711ASource_handleFrame :: "u8 list \<Rightarrow> 's callback \<Rightarrow> AVFrame \<Rightarrow> 's \<Rightarrow> (bool \<times> 's) result" where
  "G711ASource_handleFrame raw cb frame s =
     (if fr_size frame > of_nat MAX_RTP_PAYLOAD_SIZE then Inr (False, s)
      else
        bind_result (put_payload raw [] (fr_buffer frame) (unat (fr_size frame))) (\<lambda>data.
        let pkt = \<lparr>pkt_data = data, pkt_size = fr_size frame + of_nat (4 + RTP_HEADER_SIZE), pkt_timestamp = fr_timestamp frame,
              pkt_type = fr_type frame, pkt_last = 1\<rparr>;
            (ok, s) = sendFrame cb pkt s in
        Inr (True, s)))"

text \<open>The classes that are derived from \<open>MediaSource\<close>, and the virtual call.\<close>

datatype MediaSource = H264Source | H265Source | AACSource bool | G711ASource

definition source_handleFrame :: "MediaSource \<Rightarrow> u8 list \<Rightarrow> u32 \<Rightarrow> 's callback \<Rightarrow> AVFrame \<Rightarrow> 's \<Rightarrow> (bool \<times> 's) result" where
  "source_handleFrame src raw now cb frame s = (case src of
       H264Source \<Rightarrow> H264Source_handleFrame raw now cb frame s
     | H265Source \<Rightarrow> H265Source_handleFrame raw now cb frame s
     | AACSource hasADTS \<Rightarrow> AACSource_handleFrame hasADTS raw cb frame s
     | G711ASource \<Rightarrow> G711ASource_handleFrame raw cb frame s)"

section \<open>The payloads of a frame\<close>

text \<open>Reference: the payloads that a frame is cut into.\<close>

function fragments :: "nat \<Rightarrow> u8 list \<Rightarrow> bool \<Rightarrow> u8 \<Rightarrow> u8 list \<Rightarrow> u8 list list" where
  "fragments k ind start ty d =
     (let s = (if start then 0x80 else 0) OR ty in
      if 0 < k \<and> k < length d then (ind @ [s] @ take k d) # fragments k ind False ty (drop k d) else [ind @ [s OR 0x40] @ d])"
  by pat_completeness auto
termination by (relation "measure (\<lambda>(k, ind, start, ty, d). length d)") auto

declare fragments.simps [simp del]

definition h264_payloads :: "u8 list \<Rightarrow> u8 list list" where
  "h264_payloads d = (if length d \<le> 1420 then [d] else fragments 1418 [(d ! 0 AND 0xE0) OR 28] True (d ! 0 AND 0x1f) (drop 1 d))"

definition h265_payloads :: "u8 list \<Rightarrow> u8 list list" where
  "h265_payloads d = (if length d \<le> 1420 then [d]
     else fragments 1417 [(d ! 0 AND 0x81) OR push_bit 1 49, d ! 1] True (drop_bit 1 (d ! 0 AND 0x7E)) (drop 2 d))"

definition aac_payloads :: "u8 list \<Rightarrow> u8 list list" where
  "aac_payloads d = [[0, 0x10, ucast (drop_bit 5 (of_nat (length d) :: u32)), ucast (push_bit 3 (of_nat (length d) AND 0x1f :: u32))] @ d]"

text \<open>A packet with this payload; all but the last one have the mark 0. The bytes in front of the payload are those of the fresh
  memory.\<close>

definition packet_of :: "u8 list \<Rightarrow> AVFrame \<Rightarrow> u8 list \<Rightarrow> bool \<Rightarrow> RtpPacket" where
  "packet_of raw frame p final = \<lparr>pkt_data = take 16 raw @ p @ drop (16 + length p) raw, pkt_size = of_nat (16 + length p),
     pkt_timestamp = fr_timestamp frame, pkt_type = fr_type frame, pkt_last = of_bool final\<rparr>"

primrec send_all :: "'s callback \<Rightarrow> u8 list \<Rightarrow> AVFrame \<Rightarrow> u8 list list \<Rightarrow> 's \<Rightarrow> bool \<times> 's" where
  "send_all cb raw frame [] s = (True, s)"
| "send_all cb raw frame (p # ps) s =
     (let (ok, s) = sendFrame cb (packet_of raw frame p (ps = [])) s in if ok then send_all cb raw frame ps s else (False, s))"

section \<open>The sources send these payloads\<close>

lemma put_payload_ok:
  assumes "length raw = 1600" "n \<le> length src" "length hdr + n \<le> 1584"
  shows "put_payload raw hdr src n = Inr (take 16 raw @ (hdr @ take n src) @ drop (16 + length (hdr @ take n src)) raw)"
proof -
  have "stores 16 hdr raw = Inr (take 16 raw @ hdr @ drop (16 + length hdr) raw)" using assms by (simp add: stores_ok)
  then show ?thesis using assms by (simp add: put_payload_def RTP_HEADER_SIZE_def memcpy_ok algebra_simps)
qed

lemma sendFrame_packet:
  assumes "length raw = 1600" "n \<le> length src" "length hdr + n \<le> 1584" "sz = of_nat (16 + (length hdr + n))" "mark = of_bool final"
  shows "bind_result (put_payload raw hdr src n) (\<lambda>data. k \<lparr>pkt_data = data, pkt_size = sz, pkt_timestamp = fr_timestamp frame,
      pkt_type = fr_type frame, pkt_last = mark\<rparr>) = k (packet_of raw frame (hdr @ take n src) final)"
  using put_payload_ok [OF assms(1-3)] assms(2,4,5) by (simp add: packet_of_def)

lemma fragments_last: "length d \<le> k \<Longrightarrow> fragments k ind start ty d = [ind @ ((if start then 0x80 else 0) OR ty OR 0x40) # d]"
  by (simp add: fragments.simps or.assoc)

lemma fragments_more:
  "0 < k \<Longrightarrow> k < length d \<Longrightarrow>
    fragments k ind start ty d = (ind @ ((if start then 0x80 else 0) OR ty) # take k d) # fragments k ind False ty (drop k d)"
  by (simp add: fragments.simps [of k ind start])

lemma fragments_nonempty: "fragments k ind start ty d \<noteq> []"
  by (simp add: fragments.simps Let_def)

lemma bit_80: "bit (0x80 :: u8) n \<longleftrightarrow> n = 7"
  using bit_push_bit_iff [of 7 "1 :: u8" n] by (auto simp: bit_1_iff)

lemma bit_40: "bit (0x40 :: u8) n \<longleftrightarrow> n = 6"
  using bit_push_bit_iff [of 6 "1 :: u8" n] by (auto simp: bit_1_iff)

lemma clear_bit:
  assumes "\<And>n. bit (x :: u8) n \<longleftrightarrow> n = 7" "\<not> bit ty 7"
  shows "((if start then x else 0) OR ty) AND NOT x = ty"
  by (rule bit_word_eqI) (use assms in \<open>auto simp: bit_or_iff bit_and_iff bit_not_iff\<close>)

lemmas clear_start = clear_bit [OF bit_80]

lemma fu_loop_ok:
  assumes "length raw = 1600" "m \<le> length buf" "m + 3 < 2 ^ 32" "length ind = (if hevc then 2 else 1)" "\<not> bit ty 7"
    "fu = (if start then 0x80 else 0) OR ty"
  shows "fu_loop hevc raw cb frame ind fu buf (of_nat m) s =
    Inr (send_all cb raw frame (fragments (if hevc then 1417 else 1418) ind start ty (take m buf)) s)"
  using assms(2,3,6)
proof (induction m arbitrary: buf fu start s rule: less_induct)
  case (less m)
  define n where "n = (if hevc then 3 else 2 :: nat)"
  define k where "k = (if hevc then 1417 else 1418 :: nat)"
  have nk: "n + k = 1420" "0 < k" "n \<le> 3" "length ind + 1 = n" using assms(4) by (auto simp: n_def k_def)
  have u: "unat (of_nat m :: u32) = m" using less.prems by (intro unat_of_nat_32) simp
  have gt: "(of_nat m + of_nat n > (1420 :: u32)) \<longleftrightarrow> k < m"
  proof -
    have "unat (of_nat m + of_nat n :: u32) = m + n" using less.prems(2) nk(3) unat_of_nat_32 [of "m + n"] by simp
    then show ?thesis using nk(1) by (auto simp: word_less_nat_alt)
  qed
  show ?case
  proof (cases "k < m")
    case True
    have ih: "fu_loop hevc raw cb frame ind ty (drop k buf) (of_nat (m - k)) s' =
        Inr (send_all cb raw frame (fragments k ind False ty (drop k (take m buf))) s')" for s'
      using less.IH [of "m - k" "drop k buf" ty False s'] less.prems True nk(2) by (simp add: k_def drop_take)
    have fm: "fragments k ind start ty (take m buf) = ((ind @ [fu]) @ take k buf) # fragments k ind False ty (drop k (take m buf))"
      using True less.prems(1) nk(2) fragments_more [of k "take m buf" ind start ty] unfolding less.prems(3) by simp
    have f: "fu AND NOT 0x80 = ty" unfolding less.prems(3) by (rule clear_start [OF assms(5)])
    have w: "of_nat m - of_nat (1420 - n) = (of_nat (m - k) :: u32)" "1420 - n = k" using True nk(1) by (simp_all add: of_nat_diff flip: nk(1))
    have "fu_loop hevc raw cb frame ind fu buf (of_nat m) s =
        bind_result (put_payload raw (ind @ [fu]) buf k) (\<lambda>data.
        (\<lambda>pkt. let (ok, s) = sendFrame cb pkt s in
         if ok then fu_loop hevc raw cb frame ind ty (drop k buf) (of_nat (m - k)) s else Inr (False, s))
        \<lparr>pkt_data = data, pkt_size = of_nat (4 + RTP_HEADER_SIZE + MAX_RTP_PAYLOAD_SIZE), pkt_timestamp = fr_timestamp frame,
              pkt_type = fr_type frame, pkt_last = 0\<rparr>)"
      using True gt w by (subst fu_loop.simps) (simp only: n_def [symmetric] MAX_RTP_PAYLOAD_SIZE_def Let_def f if_True of_nat_numeral)
    also have "\<dots> = (\<lambda>pkt. let (ok, s) = sendFrame cb pkt s in
         if ok then fu_loop hevc raw cb frame ind ty (drop k buf) (of_nat (m - k)) s else Inr (False, s))
        (packet_of raw frame ((ind @ [fu]) @ take k buf) False)"
      by (rule sendFrame_packet) (use assms(1) less.prems True nk in \<open>simp_all add: RTP_HEADER_SIZE_def MAX_RTP_PAYLOAD_SIZE_def\<close>)
    also have "\<dots> = Inr (send_all cb raw frame (fragments k ind start ty (take m buf)) s)"
      unfolding ih fm by (simp add: fragments_nonempty split: prod.split)
    finally show ?thesis by (simp add: k_def)
  next
    case False
    have "fu_loop hevc raw cb frame ind fu buf (of_nat m) s =
        bind_result (put_payload raw (ind @ [fu OR 0x40]) buf m) (\<lambda>data.
        (\<lambda>pkt. Inr (sendFrame cb pkt s)) \<lparr>pkt_data = data, pkt_size = of_nat (4 + RTP_HEADER_SIZE + n) + of_nat m, pkt_timestamp = fr_timestamp frame,
              pkt_type = fr_type frame, pkt_last = 1\<rparr>)"
      using False gt u by (subst fu_loop.simps) (simp add: n_def [symmetric] MAX_RTP_PAYLOAD_SIZE_def Let_def)
    also have "\<dots> = Inr (sendFrame cb (packet_of raw frame ((ind @ [fu OR 0x40]) @ take m buf) True) s)"
      by (rule sendFrame_packet) (use assms(1) less.prems False nk in \<open>simp_all add: RTP_HEADER_SIZE_def\<close>)
    also have "\<dots> = Inr (send_all cb raw frame (fragments k ind start ty (take m buf)) s)"
      using False less.prems(1) by (simp add: fragments_last less.prems(3) or.assoc split: prod.split)
    finally show ?thesis by (simp add: k_def)
  qed
qed

definition stamped :: "u32 \<Rightarrow> AVFrame \<Rightarrow> AVFrame" where
  "stamped now frame = (if fr_timestamp frame = 0 then frame\<lparr>fr_timestamp := now\<rparr> else frame)"

definition frame_of :: "AVFrame \<Rightarrow> u8 list" where
  "frame_of frame = take (unat (fr_size frame)) (fr_buffer frame)"

definition well_sized :: "AVFrame \<Rightarrow> bool" where
  "well_sized frame \<longleftrightarrow> unat (fr_size frame) \<le> length (fr_buffer frame) \<and> unat (fr_size frame) + 3 < 2 ^ 32"

lemma stamped_simps [simp]: "fr_buffer (stamped now f) = fr_buffer f" "fr_size (stamped now f) = fr_size f" "fr_type (stamped now f) = fr_type f"
  "frame_of (stamped now f) = frame_of f"
  by (simp_all add: stamped_def frame_of_def)

lemma send_all_single: "send_all cb raw frame [p] s = sendFrame cb (packet_of raw frame p True) s"
  by (simp split: prod.split)

lemma length_frame_of: "well_sized frame \<Longrightarrow> length (frame_of frame) = unat (fr_size frame)"
  by (simp add: frame_of_def well_sized_def)

lemma single_payload:
  assumes "length raw = 1600" "well_sized frame" "unat (fr_size frame) \<le> 1420"
  shows "bind_result (put_payload raw [] (fr_buffer frame) (unat (fr_size frame))) (\<lambda>data.
      Inr (sendFrame cb \<lparr>pkt_data = data, pkt_size = fr_size frame + of_nat (4 + RTP_HEADER_SIZE), pkt_timestamp = fr_timestamp frame,
        pkt_type = fr_type frame, pkt_last = 1\<rparr> s)) = Inr (send_all cb raw frame [frame_of frame] s)"
proof -
  have "bind_result (put_payload raw [] (fr_buffer frame) (unat (fr_size frame))) (\<lambda>data.
      (\<lambda>pkt. Inr (sendFrame cb pkt s)) \<lparr>pkt_data = data, pkt_size = fr_size frame + of_nat (4 + RTP_HEADER_SIZE), pkt_timestamp = fr_timestamp frame,
        pkt_type = fr_type frame, pkt_last = 1\<rparr>) = Inr (sendFrame cb (packet_of raw frame ([] @ frame_of frame) True) s)"
    unfolding frame_of_def by (rule sendFrame_packet) (use assms in \<open>simp_all add: well_sized_def RTP_HEADER_SIZE_def\<close>)
  then show ?thesis by (simp only: send_all_single append_Nil)
qed

lemma minus_of_nat: "k \<le> unat (w :: u32) \<Longrightarrow> w - of_nat k = of_nat (unat w - k)"
  by (simp add: of_nat_diff)

lemma h264_sends:
  assumes "length raw = 1600" "well_sized frame"
  shows "H264Source_handleFrame raw now cb frame s = Inr (send_all cb raw (stamped now frame) (h264_payloads (frame_of frame)) s)"
proof (cases "unat (fr_size frame) \<le> 1420")
  case True
  then have le: "fr_size frame \<le> of_nat MAX_RTP_PAYLOAD_SIZE" by (simp add: word_le_nat_alt MAX_RTP_PAYLOAD_SIZE_def)
  have "H264Source_handleFrame raw now cb frame s = Inr (send_all cb raw (stamped now frame) [frame_of (stamped now frame)] s)"
    using single_payload [of raw "stamped now frame" cb s] assms True le
    by (simp only: H264Source_handleFrame_def stamped_def [symmetric] Let_def if_True stamped_simps well_sized_def)
  then show ?thesis using True assms(2) by (simp add: h264_payloads_def length_frame_of del: send_all.simps)
next
  case False
  let ?m = "unat (fr_size frame) - 1"
  obtain b buf where b: "fr_buffer frame = b # buf" using assms(2) False by (cases "fr_buffer frame") (auto simp: well_sized_def)
  have sz: "fr_size frame - 1 = of_nat ?m" using False minus_of_nat [of 1 "fr_size frame"] by simp
  have fr: "frame_of frame = b # take ?m buf" "length (frame_of frame) = unat (fr_size frame)"
    using b False assms(2) by (auto simp: frame_of_def take_Cons' well_sized_def)
  have "fu_loop False raw cb (stamped now frame) [(b AND 0xE0) OR 28] (0x80 OR (b AND 0x1f)) buf (of_nat ?m) s =
      Inr (send_all cb raw (stamped now frame) (fragments 1418 [(b AND 0xE0) OR 28] True (b AND 0x1f) (take ?m buf)) s)"
    using fu_loop_ok [of raw ?m buf "[(b AND 0xE0) OR 28]" False "b AND 0x1f" "0x80 OR (b AND 0x1f)" True cb "stamped now frame" s] assms b
    by (auto simp: well_sized_def bit_and_iff)
  moreover have "\<not> fr_size frame \<le> of_nat MAX_RTP_PAYLOAD_SIZE" using False by (simp add: word_le_nat_alt MAX_RTP_PAYLOAD_SIZE_def)
  ultimately have "H264Source_handleFrame raw now cb frame s = Inr (send_all cb raw (stamped now frame) (fragments 1418 [(b AND 0xE0) OR 28] True (b AND 0x1f) (take ?m buf)) s)"
    by (simp only: H264Source_handleFrame_def stamped_def [symmetric] Let_def stamped_simps b list.case if_False sz)
  moreover have "h264_payloads (frame_of frame) = fragments 1418 [(b AND 0xE0) OR 28] True (b AND 0x1f) (take ?m buf)" using False fr by (simp add: h264_payloads_def)
  ultimately show ?thesis by simp
qed

lemma h265_sends:
  assumes "length raw = 1600" "well_sized frame"
  shows "H265Source_handleFrame raw now cb frame s = Inr (send_all cb raw (stamped now frame) (h265_payloads (frame_of frame)) s)"
proof (cases "unat (fr_size frame) \<le> 1420")
  case True
  then have le: "fr_size frame \<le> of_nat MAX_RTP_PAYLOAD_SIZE" by (simp add: word_le_nat_alt MAX_RTP_PAYLOAD_SIZE_def)
  have "H265Source_handleFrame raw now cb frame s = Inr (send_all cb raw (stamped now frame) [frame_of (stamped now frame)] s)"
    using single_payload [of raw "stamped now frame" cb s] assms True le
    by (simp only: H265Source_handleFrame_def stamped_def [symmetric] Let_def if_True stamped_simps well_sized_def)
  then show ?thesis using True assms(2) by (simp add: h265_payloads_def length_frame_of del: send_all.simps)
next
  case False
  let ?m = "unat (fr_size frame) - 2"
  have "2 \<le> length (fr_buffer frame)" using assms(2) False by (simp add: well_sized_def)
  then obtain b c buf where b: "fr_buffer frame = b # c # buf" by (metis One_nat_def Suc_1 Suc_le_length_iff)
  have sz: "fr_size frame - 2 = of_nat ?m" using False minus_of_nat [of 2 "fr_size frame"] by simp
  have fr: "frame_of frame = b # c # take ?m buf" "length (frame_of frame) = unat (fr_size frame)"
    using b False assms(2) by (auto simp: frame_of_def take_Cons' well_sized_def numeral_2_eq_2)
  have bits: "drop_bit 1 (b AND 0x7E) = take_bit 6 (drop_bit 1 b)"
  proof -
    have "(0x7E :: u8) = push_bit 1 (mask 6)" by (simp add: mask_eq_exp_minus_1)
    then have "drop_bit 1 (b AND 0x7E) = drop_bit 1 (b AND push_bit 1 (mask 6))" by metis
    also have "\<dots> = take_bit 6 (drop_bit 1 b)"
      by (rule bit_word_eqI) (auto simp only: bit_drop_bit_eq bit_and_iff bit_push_bit_iff bit_mask_iff bit_take_bit_iff comp_apply, auto dest: bit_imp_le_length)
    finally show ?thesis .
  qed
  have nb: "\<not> bit (drop_bit 1 (b AND 0x7E)) 7" unfolding bits by (simp only: bit_take_bit_iff) simp
  have "fu_loop True raw cb (stamped now frame) [(b AND 0x81) OR push_bit 1 49, c] (0x80 OR drop_bit 1 (b AND 0x7E)) buf (of_nat ?m) s =
      Inr (send_all cb raw (stamped now frame) (fragments 1417 [(b AND 0x81) OR push_bit 1 49, c] True (drop_bit 1 (b AND 0x7E)) (take ?m buf)) s)"
    using fu_loop_ok [of raw ?m buf "[(b AND 0x81) OR push_bit 1 49, c]" True "drop_bit 1 (b AND 0x7E)" "0x80 OR drop_bit 1 (b AND 0x7E)" True cb
        "stamped now frame" s, OF _ _ _ _ nb] assms b by (auto simp: well_sized_def)
  moreover have "\<not> fr_size frame \<le> of_nat MAX_RTP_PAYLOAD_SIZE" using False by (simp add: word_le_nat_alt MAX_RTP_PAYLOAD_SIZE_def)
  ultimately have "H265Source_handleFrame raw now cb frame s = Inr (send_all cb raw (stamped now frame) (fragments 1417 [(b AND 0x81) OR push_bit 1 49, c] True (drop_bit 1 (b AND 0x7E)) (take ?m buf)) s)"
    by (simp only: H265Source_handleFrame_def stamped_def [symmetric] Let_def stamped_simps b list.case if_False sz)
  moreover have "\<not> length (frame_of frame) \<le> 1420" "frame_of frame ! 0 = b" "frame_of frame ! 1 = c" "drop 2 (frame_of frame) = take ?m buf"
    using False fr(2) by (simp_all add: fr(1) del: length_take)
  then have "h265_payloads (frame_of frame) = fragments 1417 [(b AND 0x81) OR push_bit 1 49, c] True (drop_bit 1 (b AND 0x7E)) (take ?m buf)" by (simp only: h265_payloads_def if_False)
  ultimately show ?thesis by simp
qed

lemma aac_sends:
  assumes "length raw = 1600" "well_sized frame" "unat (fr_size frame) \<le> 1416" "hasADTS \<Longrightarrow> 7 \<le> unat (fr_size frame)"
  shows "AACSource_handleFrame hasADTS raw cb frame s =
    Inr (True, snd (send_all cb raw frame (aac_payloads (drop (if hasADTS then 7 else 0) (frame_of frame))) s))"
proof -
  define a where "a = (if hasADTS then 7 else 0 :: nat)"
  define m where "m = unat (fr_size frame) - a"
  have a: "a \<le> unat (fr_size frame)" using assms(4) by (simp add: a_def)
  have sz: "fr_size frame - of_nat a = of_nat m" using minus_of_nat [OF a] by (simp add: m_def)
  have m: "m \<le> 1416" "unat (of_nat m :: u32) = m" using assms(3) unat_of_nat_32 [of m] by (simp_all add: m_def)
  have fr: "drop a (frame_of frame) = take m (drop a (fr_buffer frame))" "length (drop a (frame_of frame)) = m"
    using assms(2) by (auto simp: frame_of_def drop_take m_def well_sized_def)
  have high: "\<not> bit (of_nat m :: u32) i" if "11 \<le> i" for i
  proof -
    have "m < 2 ^ i" using m(1) that power_increasing [of 11 i "2 :: nat"] by simp
    then show ?thesis using bit_of_nat_iff [of m i, where ?'a = "32 word"] bit_iff_odd [of m i] by simp
  qed
  have au: "drop_bit 5 (of_nat m AND push_bit 5 (mask 8)) = drop_bit 5 (of_nat m :: u32)"
  proof (rule bit_word_eqI, goal_cases)
    case (1 n)
    then show ?case using high [of "5 + n"]
      by (cases "n < 8") (simp_all only: bit_drop_bit_eq bit_and_iff bit_push_bit_iff bit_mask_iff comp_apply, auto)
  qed
  have masks: "push_bit 5 (mask 8) = (0x1fe0 :: u32)" by (simp add: mask_eq_exp_minus_1)
  let ?AU = "[0x00, 0x10, ucast (drop_bit 5 (of_nat m AND 0x1fe0 :: u32)), ucast (push_bit 3 (of_nat m AND 0x1f :: u32))] :: u8 list"
  have "bind_result (put_payload raw ?AU (drop a (fr_buffer frame)) m) (\<lambda>data.
      (\<lambda>pkt. case sendFrame cb pkt s of (ok, s) \<Rightarrow> Inr (True, s)) \<lparr>pkt_data = data, pkt_size = of_nat m + of_nat (4 + RTP_HEADER_SIZE + AU_SIZE),
        pkt_timestamp = fr_timestamp frame, pkt_type = fr_type frame, pkt_last = 1\<rparr>) =
      (\<lambda>pkt. case sendFrame cb pkt s of (ok, s) \<Rightarrow> Inr (True, s)) (packet_of raw frame (?AU @ take m (drop a (fr_buffer frame))) True)"
    by (rule sendFrame_packet) (use assms(1,2) m in \<open>auto simp: RTP_HEADER_SIZE_def AU_SIZE_def m_def well_sized_def\<close>)
  moreover have "AACSource_handleFrame hasADTS raw cb frame s = bind_result (put_payload raw ?AU (drop a (fr_buffer frame)) m) (\<lambda>data.
      (\<lambda>pkt. case sendFrame cb pkt s of (ok, s) \<Rightarrow> Inr (True, s)) \<lparr>pkt_data = data, pkt_size = of_nat m + of_nat (4 + RTP_HEADER_SIZE + AU_SIZE),
        pkt_timestamp = fr_timestamp frame, pkt_type = fr_type frame, pkt_last = 1\<rparr>)"
    using assms(3) m(2) sz unfolding AACSource_handleFrame_def ADTS_SIZE_def a_def [symmetric] Let_def
    by (simp add: word_less_nat_alt not_less MAX_RTP_PAYLOAD_SIZE_def AU_SIZE_def)
  ultimately show ?thesis
    unfolding a_def [symmetric] aac_payloads_def fr(2) unfolding fr(1) au [unfolded masks] send_all_single by (simp split: prod.split)
qed

lemma g711a_sends:
  assumes "length raw = 1600" "well_sized frame" "unat (fr_size frame) \<le> 1420"
  shows "G711ASource_handleFrame raw cb frame s = Inr (True, snd (send_all cb raw frame [frame_of frame] s))"
proof -
  have "bind_result (put_payload raw [] (fr_buffer frame) (unat (fr_size frame))) (\<lambda>data.
      (\<lambda>pkt. case sendFrame cb pkt s of (ok, s) \<Rightarrow> Inr (True, s)) \<lparr>pkt_data = data, pkt_size = fr_size frame + of_nat (4 + RTP_HEADER_SIZE),
        pkt_timestamp = fr_timestamp frame, pkt_type = fr_type frame, pkt_last = 1\<rparr>) =
      (\<lambda>pkt. case sendFrame cb pkt s of (ok, s) \<Rightarrow> Inr (True, s)) (packet_of raw frame ([] @ frame_of frame) True)"
    unfolding frame_of_def by (rule sendFrame_packet) (use assms in \<open>simp_all add: well_sized_def RTP_HEADER_SIZE_def\<close>)
  then show ?thesis using assms(3) unfolding send_all_single
    by (simp add: G711ASource_handleFrame_def Let_def word_less_nat_alt not_less MAX_RTP_PAYLOAD_SIZE_def split: prod.split)
qed

section \<open>The receiver\<close>

text \<open>A payload is a fragment or a whole unit. A fragment carries the first byte (or bytes) of the unit spread over its
  indicator and its header, whose upper two bits mark the start and the end of the unit.\<close>

definition is_fragment :: "bool \<Rightarrow> u8 list \<Rightarrow> bool" where
  "is_fragment hevc p \<longleftrightarrow> (if hevc then p ! 0 AND 0x7e = 98 else p ! 0 AND 0x1f = 28)"

definition fu_header :: "bool \<Rightarrow> u8 list \<Rightarrow> u8" where
  "fu_header hevc p = (if hevc then p ! 2 else p ! 1)"

definition unit_header :: "bool \<Rightarrow> u8 list \<Rightarrow> u8 list" where
  "unit_header hevc p = (if hevc then [(p ! 0 AND 0x81) OR push_bit 1 (p ! 2 AND 0x3f), p ! 1] else [(p ! 0 AND 0xe0) OR (p ! 1 AND 0x1f)])"

primrec depay :: "bool \<Rightarrow> u8 list \<Rightarrow> u8 list list \<Rightarrow> u8 list list" where
  "depay hevc acc [] = []"
| "depay hevc acc (p # ps) =
     (if is_fragment hevc p then
        let u = (if bit (fu_header hevc p) 7 then unit_header hevc p else acc) @ drop (if hevc then 3 else 2) p in
        if bit (fu_header hevc p) 6 then u # depay hevc [] ps else depay hevc u ps
      else p # depay hevc [] ps)"

text \<open>An access unit of AAC behind its header of four bytes: the length of the headers in bits, the size of the unit in 13 bits
  and its index.\<close>

definition aac_unit :: "u8 list \<Rightarrow> u8 list" where
  "aac_unit p = take (unat (p ! 2) * 32 + unat (p ! 3) div 8) (drop 4 p)"

text \<open>What a client of a source relies on: units that are fit for it come out of the receiver as they were, whatever follows them,
  a unit that is broken off leaves no trace before further units, and no payload exceeds the limit.\<close>

locale packetiser =
  fixes cut :: "u8 list \<Rightarrow> u8 list list"
    and collect :: "u8 list list \<Rightarrow> u8 list list"
    and fit :: "u8 list \<Rightarrow> bool"
  assumes collect_Nil: "collect [] = []"
    and collect_cut: "fit d \<Longrightarrow> collect (cut d @ ps) = d # collect ps"
    and collect_broken: "fit d \<Longrightarrow> k < length (cut d) \<Longrightarrow> list_all fit ds \<Longrightarrow> collect (take k (cut d) @ concat (map cut ds)) = ds"
    and cut_bounded: "fit d \<Longrightarrow> p \<in> set (cut d) \<Longrightarrow> length p \<le> 1420"
begin

lemma collect_all: "list_all fit ds \<Longrightarrow> collect (concat (map cut ds)) = ds"
  by (induction ds) (simp_all add: collect_Nil collect_cut)

lemma collect_broken_all:
  "list_all fit ds \<Longrightarrow> fit d \<Longrightarrow> k < length (cut d) \<Longrightarrow> list_all fit es \<Longrightarrow>
    collect (concat (map cut ds) @ take k (cut d) @ concat (map cut es)) = ds @ es"
  by (induction ds) (simp_all add: collect_cut collect_broken)

lemma all_bounded: "list_all fit ds \<Longrightarrow> p \<in> set (concat (map cut ds)) \<Longrightarrow> length p \<le> 1420"
  by (auto simp: list_all_iff intro: cut_bounded)

end

subsection \<open>Bits of the headers\<close>

lemma header_masks:
  "(0xE0 :: u8) = push_bit 5 (mask 3)" "(28 :: u8) = push_bit 2 (mask 3)" "(0x1f :: u8) = mask 5" "(0x7e :: u8) = push_bit 1 (mask 6)"
  "(0x3f :: u8) = mask 6" "(0x81 :: u8) = NOT (push_bit 1 (mask 6))" "(98 :: u8) = push_bit 1 1 OR push_bit 5 (mask 2)" "(0x80 :: u8) = push_bit 7 1"
  "(0x40 :: u8) = push_bit 6 1"
  by (simp_all add: mask_eq_exp_minus_1)

lemma bit_headers:
  "bit (0xE0 :: u8) n \<longleftrightarrow> 5 \<le> n \<and> n < 8" "bit (28 :: u8) n \<longleftrightarrow> 2 \<le> n \<and> n < 5" "bit (0x1f :: u8) n \<longleftrightarrow> n < 5"
  "bit (0x7e :: u8) n \<longleftrightarrow> 1 \<le> n \<and> n < 7" "bit (0x3f :: u8) n \<longleftrightarrow> n < 6" "bit (0x81 :: u8) n \<longleftrightarrow> n = 0 \<or> n = 7"
  "bit (98 :: u8) n \<longleftrightarrow> n = 1 \<or> n = 5 \<or> n = 6"
  unfolding header_masks
  by (simp_all only: bit_push_bit_iff bit_mask_iff bit_or_iff bit_1_iff bit_not_iff) auto

lemmas bits_of = bit_headers bit_80 bit_40

text \<open>The bits of \<open>x AND y\<close> and \<open>x OR y\<close> with these constants, without evaluating them.\<close>

lemma avc_indicator: "((b AND 0xE0) OR 28) AND 0x1f = (28 :: u8)" "(((b AND 0xE0) OR 28) AND 0xe0) OR (b AND 0x1f) = (b :: u8)"
  by (rule bit_word_eqI; simp only: bit_and_iff bit_or_iff bits_of; auto)+

lemma fu_bits:
  assumes "\<not> bit (ty :: u8) 7" "\<not> bit ty 6"
  shows "bit ((if start then 0x80 else 0) OR ty) 7 = start" "\<not> bit ((if start then 0x80 else 0) OR ty) 6"
    "bit ((if start then 0x80 else 0) OR ty OR 0x40) 7 = start" "bit ((if start then 0x80 else 0) OR ty OR 0x40) 6"
  using assms by (cases start; simp only: bit_or_iff bits_of if_True if_False bit_0_eq bot_apply; simp)+

subsection \<open>Units come back\<close>

lemma fu_header_at: "length ind = (if hevc then 2 else 1) \<Longrightarrow> fu_header hevc (ind @ x # y) = x"
  by (auto simp: fu_header_def nth_append)

lemma fu_data_at: "length ind = (if hevc then 2 else 1) \<Longrightarrow> drop (if hevc then 3 else 2) (ind @ x # y) = y"
  by (cases hevc) simp_all

lemma depay_fragments:
  assumes "length ind = (if hevc then 2 else 1)" "\<not> bit ty 7" "\<not> bit ty 6" "0 < k"
    and frag: "\<And>x y. is_fragment hevc (ind @ x # y)"
    and hdr: "\<And>y. unit_header hevc (ind @ (0x80 OR ty) # y) = H" "\<And>y. unit_header hevc (ind @ (0x80 OR ty OR 0x40) # y) = H"
  shows "depay hevc acc (fragments k ind start ty d @ ps) = ((if start then H else acc) @ d) # depay hevc [] ps"
proof (induction "length d" arbitrary: d start acc rule: less_induct)
  case less
  note bits = fu_bits [OF assms(2,3), of start]
  have h: "(if start then unit_header hevc (ind @ ((if start then 0x80 else 0) OR ty) # y) else a) = (if start then H else a)"
    "(if start then unit_header hevc (ind @ ((if start then 0x80 else 0) OR ty OR 0x40) # y) else a) = (if start then H else a)" for y a
    using hdr by simp_all
  show ?case
  proof (cases "k < length d")
    case True
    then have "fragments k ind start ty d = (ind @ ((if start then 0x80 else 0) OR ty) # take k d) # fragments k ind False ty (drop k d)"
      using assms(4) by (rule fragments_more [rotated])
    then have "depay hevc acc (fragments k ind start ty d @ ps) =
        depay hevc ((if start then H else acc) @ take k d) (fragments k ind False ty (drop k d) @ ps)"
      by (simp only: append_Cons depay.simps frag if_True if_False fu_header_at [OF assms(1)] fu_data_at [OF assms(1)] bits h Let_def)
    then show ?thesis using less [where d = "drop k d" and start = False] True assms(4) by simp
  next
    case False
    then have "fragments k ind start ty d = [ind @ ((if start then 0x80 else 0) OR ty OR 0x40) # d]" by (simp only: fragments_last not_less)
    then show ?thesis
      by (simp only: append_Cons append_Nil depay.simps frag if_True if_False fu_header_at [OF assms(1)] fu_data_at [OF assms(1)] bits h Let_def)
  qed
qed

text \<open>Units that are sent whole must not look like fragments: the types 28 and 49 are not those of media.\<close>

definition h264_fit :: "u8 list \<Rightarrow> bool" where
  "h264_fit d \<longleftrightarrow> d ! 0 AND 0x1f \<noteq> 28"

definition h265_fit :: "u8 list \<Rightarrow> bool" where
  "h265_fit d \<longleftrightarrow> d ! 0 AND 0x7e \<noteq> 98"

lemma depay_h264:
  assumes "h264_fit d"
  shows "depay False acc (h264_payloads d @ ps) = d # depay False [] ps"
proof (cases "length d \<le> 1420")
  case True
  then show ?thesis using assms by (simp add: h264_payloads_def h264_fit_def is_fragment_def)
next
  case False
  let ?b = "d ! 0" and ?ind = "[(d ! 0 AND 0xE0) OR 28]" and ?ty = "d ! 0 AND 0x1f"
  have d: "[?b] @ drop 1 d = d" using False by (cases d) simp_all
  have ty: "\<not> bit ?ty 7" "\<not> bit ?ty 6" by (simp_all only: bit_and_iff bits_of) simp_all
  have x: "(0x80 OR ?ty) AND 0x1f = ?ty" "(0x80 OR ?ty OR 0x40) AND 0x1f = ?ty"
    by (rule bit_word_eqI; simp only: bit_and_iff bit_or_iff bits_of; auto)+
  have f: "is_fragment False (?ind @ x # y)" for x y by (simp only: is_fragment_def append_Cons nth_Cons_0 if_False avc_indicator(1))
  have h: "unit_header False (?ind @ (0x80 OR ?ty) # y) = [?b]" "unit_header False (?ind @ (0x80 OR ?ty OR 0x40) # y) = [?b]" for y
    by (simp_all only: unit_header_def append_Cons append_Nil nth_Cons_0 nth_Cons_Suc One_nat_def if_False x avc_indicator(2))
  have "depay False acc (fragments 1418 ?ind True ?ty (drop 1 d) @ ps) = ((if True then [?b] else acc) @ drop 1 d) # depay False [] ps"
    by (rule depay_fragments) (simp_all only: f h ty, simp_all)
  then show ?thesis using False d by (simp only: h264_payloads_def if_False if_True)
qed

lemma depay_h265:
  assumes "h265_fit d"
  shows "depay True acc (h265_payloads d @ ps) = d # depay True [] ps"
proof (cases "length d \<le> 1420")
  case True
  then show ?thesis using assms by (simp add: h265_payloads_def h265_fit_def is_fragment_def)
next
  case False
  let ?b = "d ! 0" and ?ty = "drop_bit 1 (d ! 0 AND 0x7e)" and ?ind = "[(d ! 0 AND 0x81) OR 98, d ! 1]"
  have d: "[?b, d ! 1] @ drop 2 d = d" using False by (cases d; cases "tl d") simp_all
  have ty: "\<not> bit ?ty 7" "\<not> bit ?ty 6" by (simp_all only: bit_drop_bit_eq comp_apply bit_and_iff bits_of) simp_all
  have i: "((?b AND 0x81) OR 98) AND 0x7e = 98" by (rule bit_word_eqI; simp only: bit_and_iff bit_or_iff bits_of; auto)
  have x: "(((?b AND 0x81) OR 98) AND 0x81) OR push_bit 1 ((0x80 OR ?ty) AND 0x3f) = ?b"
    "(((?b AND 0x81) OR 98) AND 0x81) OR push_bit 1 ((0x80 OR ?ty OR 0x40) AND 0x3f) = ?b"
    by (rule bit_word_eqI; simp only: bit_and_iff bit_or_iff bits_of bit_push_bit_iff bit_drop_bit_eq comp_apply; auto simp: le_Suc_eq)+
  have f: "is_fragment True (?ind @ x # y)" for x y by (simp only: is_fragment_def append_Cons nth_Cons_0 if_True i)
  have h: "unit_header True (?ind @ (0x80 OR ?ty) # y) = [?b, d ! 1]" "unit_header True (?ind @ (0x80 OR ?ty OR 0x40) # y) = [?b, d ! 1]" for y
    by (simp_all only: unit_header_def append_Cons append_Nil nth_Cons_0 nth_Cons_Suc numeral_2_eq_2 One_nat_def if_True x [unfolded One_nat_def])
  have "depay True acc (fragments 1417 ?ind True ?ty (drop 2 d) @ ps) = ((if True then [?b, d ! 1] else acc) @ drop 2 d) # depay True [] ps"
    by (rule depay_fragments) (simp_all only: f h ty not_False_eq_True, simp_all)
  moreover have "push_bit 1 49 = (98 :: u8)" by simp
  ultimately show ?thesis using False d by (simp only: h265_payloads_def if_False if_True)
qed

text \<open>The fragments of a unit whose last one is missing are forgotten.\<close>

lemma depay_partial:
  assumes "length ind = (if hevc then 2 else 1)" "\<not> bit ty 7" "\<not> bit ty 6" "0 < k" "\<And>x y. is_fragment hevc (ind @ x # y)"
    "n < length (fragments k ind start ty d)"
  shows "\<exists>acc'. depay hevc acc (take n (fragments k ind start ty d) @ ps) = depay hevc acc' ps"
  using assms(6)
proof (induction n arbitrary: d start acc)
  case (Suc n)
  note bits = fu_bits [OF assms(2,3), of start]
  have "k < length d" using Suc.prems fragments_last [of d k ind start ty] by (cases "length d \<le> k") simp_all
  then have fr: "fragments k ind start ty d = (ind @ ((if start then 0x80 else 0) OR ty) # take k d) # fragments k ind False ty (drop k d)"
    using assms(4) by (rule fragments_more [rotated])
  obtain acc1 where "depay hevc acc (take (Suc n) (fragments k ind start ty d) @ ps) =
      depay hevc acc1 (take n (fragments k ind False ty (drop k d)) @ ps)"
    unfolding fr by (simp only: take_Suc_Cons append_Cons depay.simps assms(5) if_True if_False fu_header_at [OF assms(1)] bits Let_def simp_thms)
  moreover have "n < length (fragments k ind False ty (drop k d))" using Suc.prems unfolding fr by simp
  ultimately show ?case using Suc.IH [of False "drop k d" acc1] by metis
qed auto

lemma depay_units264: "list_all h264_fit ds \<Longrightarrow> depay False acc (concat (map h264_payloads ds)) = ds"
  by (induction ds arbitrary: acc) (simp_all add: depay_h264)

lemma depay_units265: "list_all h265_fit ds \<Longrightarrow> depay True acc (concat (map h265_payloads ds)) = ds"
  by (induction ds arbitrary: acc) (simp_all add: depay_h265)

lemma h264_broken:
  assumes "k < length (h264_payloads d)" "list_all h264_fit ds"
  shows "depay False [] (take k (h264_payloads d) @ concat (map h264_payloads ds)) = ds"
proof (cases "length d \<le> 1420")
  case True
  then show ?thesis using assms by (simp add: h264_payloads_def [of d] depay_units264)
next
  case False
  let ?ind = "[(d ! 0 AND 0xE0) OR 28]" and ?ty = "d ! 0 AND 0x1f"
  have ty: "\<not> bit ?ty 7" "\<not> bit ?ty 6" by (simp_all only: bit_and_iff bits_of) simp_all
  have f: "is_fragment False (?ind @ x # y)" for x y by (simp only: is_fragment_def append_Cons nth_Cons_0 if_False avc_indicator(1))
  have "\<exists>acc'. depay False [] (take k (fragments 1418 ?ind True ?ty (drop 1 d)) @ ps) = depay False acc' ps" for ps
    using assms(1) False by (intro depay_partial f ty) (simp_all add: h264_payloads_def)
  then show ?thesis using False assms(2) depay_units264 by (metis h264_payloads_def)
qed

lemma hevc_indicator: "(((b AND 0x81) OR 98) AND 0x7e) = (98 :: u8)"
  by (rule bit_word_eqI; simp only: bit_and_iff bit_or_iff bits_of; auto)

lemma h265_broken:
  assumes "k < length (h265_payloads d)" "list_all h265_fit ds"
  shows "depay True [] (take k (h265_payloads d) @ concat (map h265_payloads ds)) = ds"
proof (cases "length d \<le> 1420")
  case True
  then show ?thesis using assms by (simp add: h265_payloads_def [of d] depay_units265)
next
  case False
  let ?ty = "drop_bit 1 (d ! 0 AND 0x7e)" and ?ind = "[(d ! 0 AND 0x81) OR push_bit 1 49, d ! 1]"
  have ty: "\<not> bit ?ty 7" "\<not> bit ?ty 6" by (simp_all only: bit_drop_bit_eq comp_apply bit_and_iff bits_of) simp_all
  have p: "push_bit 1 49 = (98 :: u8)" by simp
  have f: "is_fragment True (?ind @ x # y)" for x y by (simp only: is_fragment_def append_Cons nth_Cons_0 if_True p hevc_indicator)
  have "\<exists>acc'. depay True [] (take k (fragments 1417 ?ind True ?ty (drop 2 d)) @ ps) = depay True acc' ps" for ps
    using assms(1) False by (intro depay_partial f ty) (simp_all add: h265_payloads_def)
  then show ?thesis using False assms(2) depay_units265 by (metis h265_payloads_def)
qed

subsection \<open>Sizes\<close>

lemma fragments_bounded: "0 < k \<Longrightarrow> p \<in> set (fragments k ind start ty d) \<Longrightarrow> length p \<le> length ind + 1 + k"
proof (induction "length d" arbitrary: d start rule: less_induct)
  case less
  show ?case
  proof (cases "k < length d")
    case True
    then have "p = ind @ ((if start then 0x80 else 0) OR ty) # take k d \<or> p \<in> set (fragments k ind False ty (drop k d))"
      using less.prems fragments_more [of k d ind start ty] by auto
    then show ?thesis using less.hyps [of "drop k d" False] less.prems(1) True by auto
  next
    case False
    then show ?thesis using less.prems(2) by (auto simp: fragments_last)
  qed
qed

lemma h264_bounded: "p \<in> set (h264_payloads d) \<Longrightarrow> length p \<le> 1420"
  using fragments_bounded [of 1418 p "[(d ! 0 AND 0xE0) OR 28]"] by (auto simp: h264_payloads_def split: if_splits)

lemma h265_bounded: "p \<in> set (h265_payloads d) \<Longrightarrow> length p \<le> 1420"
  using fragments_bounded [of 1417 p "[(d ! 0 AND 0x81) OR push_bit 1 49, d ! 1]"] by (auto simp: h265_payloads_def split: if_splits)

lemma aac_size:
  assumes "n < 8192"
  shows "unat (ucast (drop_bit 5 (of_nat n :: u32)) :: u8) * 32 + unat (ucast (push_bit 3 (of_nat n AND 0x1f :: u32)) :: u8) div 8 = n"
proof -
  have u: "unat (of_nat n :: u32) = n" using assms by (intro unat_of_nat_32) simp
  have "unat (ucast (drop_bit 5 (of_nat n :: u32)) :: u8) = n div 32"
    using assms u by (simp add: unsigned_ucast_eq take_bit_eq_mod drop_bit_eq_div unat_div)
  moreover have "unat (ucast (push_bit 3 (of_nat n AND 0x1f :: u32)) :: u8) = n mod 32 * 8"
  proof -
    have m: "(0x1f :: u32) = mask 5" by (simp add: mask_eq_exp_minus_1)
    have "unat (of_nat n AND 0x1f :: u32) = n mod 32"
      unfolding m take_bit_eq_mask [symmetric] unsigned_take_bit_eq u by (simp add: take_bit_eq_mod)
    then have "unat (push_bit 3 (of_nat n AND 0x1f :: u32)) = n mod 32 * 8"
      by (simp only: unsigned_push_bit_eq) (simp add: push_bit_eq_mult take_bit_eq_mod)
    then show ?thesis by (simp only: unsigned_ucast_eq) (simp add: take_bit_eq_mod)
  qed
  ultimately show ?thesis by simp
qed

definition aac_fit :: "u8 list \<Rightarrow> bool" where
  "aac_fit d \<longleftrightarrow> length d \<le> 1416"

interpretation h264: packetiser h264_payloads "depay False []" h264_fit
  by unfold_locales (simp_all add: depay_h264 h264_broken h264_bounded)

interpretation h265: packetiser h265_payloads "depay True []" h265_fit
  by unfold_locales (simp_all add: depay_h265 h265_broken h265_bounded)

interpretation aac: packetiser aac_payloads "map aac_unit" aac_fit
proof
  have "aac_unit ([a, b, c, e] @ d) = take (unat c * 32 + unat e div 8) d" for a b c e d by (simp add: aac_unit_def)
  then have "aac_unit (hd (aac_payloads d)) = d" if "aac_fit d" for d
    using that aac_size [of "length d"] unfolding aac_payloads_def list.sel by (simp only: aac_fit_def) simp
  then show "map aac_unit (aac_payloads d @ ps) = d # map aac_unit ps" if "aac_fit d" for d ps
    using that by (simp add: aac_payloads_def)
  then have all: "map aac_unit (concat (map aac_payloads ds)) = ds" if "list_all aac_fit ds" for ds
    using that by (induction ds) simp_all
  show "map aac_unit (take k (aac_payloads d) @ concat (map aac_payloads ds)) = ds" if "k < length (aac_payloads d)" "list_all aac_fit ds" for k d ds
    using that all by (simp add: aac_payloads_def [of d])
qed (auto simp: aac_payloads_def aac_fit_def)

interpretation g711a: packetiser "\<lambda>d. [d]" "\<lambda>ps. ps" "\<lambda>d. length d \<le> 1420"
  by unfold_locales auto

section \<open>All sources\<close>

text \<open>The unit that a source takes out of a frame, its payloads, and the receiver for them.\<close>

definition unit_of :: "MediaSource \<Rightarrow> AVFrame \<Rightarrow> u8 list" where
  "unit_of src f = drop (if src = AACSource True then 7 else 0) (frame_of f)"

definition payloads_of :: "MediaSource \<Rightarrow> u8 list \<Rightarrow> u8 list list" where
  "payloads_of src d = (case src of H264Source \<Rightarrow> h264_payloads d | H265Source \<Rightarrow> h265_payloads d | AACSource _ \<Rightarrow> aac_payloads d | G711ASource \<Rightarrow> [d])"

definition collect_of :: "MediaSource \<Rightarrow> u8 list list \<Rightarrow> u8 list list" where
  "collect_of src ps = (case src of H264Source \<Rightarrow> depay False [] ps | H265Source \<Rightarrow> depay True [] ps | AACSource _ \<Rightarrow> map aac_unit ps | G711ASource \<Rightarrow> ps)"

definition fit_for :: "MediaSource \<Rightarrow> u8 list \<Rightarrow> bool" where
  "fit_for src d \<longleftrightarrow> (case src of H264Source \<Rightarrow> h264_fit d | H265Source \<Rightarrow> h265_fit d | AACSource _ \<Rightarrow> aac_fit d | G711ASource \<Rightarrow> length d \<le> 1420)"

text \<open>A frame that the source can send.\<close>

definition good_frame :: "MediaSource \<Rightarrow> AVFrame \<Rightarrow> bool" where
  "good_frame src f \<longleftrightarrow> well_sized f \<and> fit_for src (unit_of src f) \<and> (case src of AACSource hasADTS \<Rightarrow> (hasADTS \<longrightarrow> 7 \<le> unat (fr_size f)) \<and> unat (fr_size f) \<le> 1416 | _ \<Rightarrow> True)"

definition stamp_for :: "MediaSource \<Rightarrow> u32 \<Rightarrow> AVFrame \<Rightarrow> AVFrame" where
  "stamp_for src now f = (if src = H264Source \<or> src = H265Source then stamped now f else f)"

interpretation source: packetiser "payloads_of src" "collect_of src" "fit_for src" for src
  by (cases src) (simp_all add: payloads_of_def [abs_def] collect_of_def [abs_def] fit_for_def [abs_def] h264.packetiser_axioms h265.packetiser_axioms
    aac.packetiser_axioms g711a.packetiser_axioms)

theorem source_sends:
  assumes "length raw = 1600" "good_frame src f"
  obtains b where "source_handleFrame src raw now cb f s = Inr (b, snd (send_all cb raw (stamp_for src now f) (payloads_of src (unit_of src f)) s))"
proof (cases src)
  case H264Source
  then show ?thesis using that assms h264_sends [of raw f now cb s]
    by (cases "send_all cb raw (stamped now f) (h264_payloads (frame_of f)) s") (simp add: good_frame_def source_handleFrame_def stamp_for_def payloads_of_def unit_of_def)
next
  case H265Source
  then show ?thesis using that assms h265_sends [of raw f now cb s]
    by (cases "send_all cb raw (stamped now f) (h265_payloads (frame_of f)) s") (simp add: good_frame_def source_handleFrame_def stamp_for_def payloads_of_def unit_of_def)
next
  case (AACSource hasADTS)
  then show ?thesis using that assms aac_sends [of raw f hasADTS cb s]
    by (cases hasADTS) (simp_all add: good_frame_def source_handleFrame_def stamp_for_def payloads_of_def unit_of_def)
next
  case G711ASource
  then have "unat (fr_size f) \<le> 1420" using assms(2) by (auto simp: good_frame_def fit_for_def unit_of_def length_frame_of)
  then show ?thesis using that assms g711a_sends [of raw f cb s] G711ASource
    by (simp add: good_frame_def source_handleFrame_def stamp_for_def payloads_of_def unit_of_def del: send_all.simps)
qed

section \<open>Properties\<close>

text \<open>A short AAC frame is read out of bounds: when the source expects the seven bytes of an ADTS header and gets a frame of fewer bytes, the size without the header wraps
  around and \<open>memcpy\<close> is asked for almost four gigabytes from the memory of the frame.\<close>

theorem adts_underflow:
  assumes "length raw = 1600" "unat (fr_size frame) < 7" "length (fr_buffer frame) < 2 ^ 32 - 7"
  shows "AACSource_handleFrame True raw cb frame s = Inl Read_out_of_bounds"
proof -
  have sz: "fr_size frame - 7 = of_nat (2 ^ 32 - 7 + unat (fr_size frame))"
  proof -
    have "(of_nat (2 ^ 32) :: u32) = 0" by simp
    then have "(of_nat (2 ^ 32 - 7) :: u32) = - 7" by simp
    then show ?thesis by (simp add: of_nat_add)
  qed
  have n: "unat (fr_size frame - 7) = 2 ^ 32 - 7 + unat (fr_size frame)" unfolding sz using assms(2) by (intro unat_of_nat_32) simp
  have rd: "read_bytes (unat (fr_size frame - 7)) (drop 7 (fr_buffer frame)) = Inl Read_out_of_bounds" using assms(3) n by (simp add: read_bytes_def)
  have "stores 16 hdr raw = Inr (take 16 raw @ hdr @ drop (16 + length hdr) raw)" if "length hdr = 4" for hdr
    using assms(1) that by (intro stores_ok) simp
  then have "put_payload raw [a, b, c, d] (drop 7 (fr_buffer frame)) (unat (fr_size frame - 7)) = Inl Read_out_of_bounds" for a b c d
    unfolding put_payload_def memcpy_def rd by (simp add: RTP_HEADER_SIZE_def del: stores.simps)
  moreover have "\<not> fr_size frame > of_nat (MAX_RTP_PAYLOAD_SIZE - AU_SIZE)"
    using assms(2) by (simp add: word_less_nat_alt MAX_RTP_PAYLOAD_SIZE_def AU_SIZE_def)
  ultimately show ?thesis by (simp add: AACSource_handleFrame_def ADTS_SIZE_def Let_def)
qed

lemma adts_underflow_witness:
  "AACSource_handleFrame True (replicate 1600 0) None \<lparr>fr_buffer = [1, 2, 3], fr_size = 3, fr_type = 0x11, fr_timestamp = 5\<rparr> () = Inl Read_out_of_bounds"
  by (rule adts_underflow) simp_all

end
