(* ===== verification/Rtp_Connection.thy ===== *)
theory Rtp_Connection
  imports Rtp_Source
begin

text \<open>
  The connections of the RTSP server (\<open>rtsp/RtpConnection.cpp\<close>, \<open>rtsp/rtp.h\<close>): a packet of a source gets its RTP header and leaves
  over TCP or UDP, once a key frame was seen. A client splits the TCP stream and takes the headers apart; the theory ends with what
  one packet does to a connection and to the bytes of the packet.
\<close>

unbundle bit_operations_syntax

section \<open>Channels and connections\<close>

record RtpHeader =
  rh_csrc :: u8
  rh_extension :: u8
  rh_padding :: u8
  rh_version :: u8
  rh_payload :: u8
  rh_marker :: u8
  rh_seq :: u16
  rh_ts :: u32
  rh_ssrc :: u32

record MediaChannelInfo =
  rtpHeader :: RtpHeader
  rtpChannel :: u16
  rtcpChannel :: u16
  rtpPort :: u16
  rtcpPort :: u16
  packetSeq :: u16
  clockRate :: u32
  isSetup :: bool
  isPlay :: bool
  isRecord :: bool

datatype TransportMode = RTP_OVER_TCP | RTP_OVER_UDP | RTP_OVER_MULTICAST

text \<open>The last two fields are the environment: the calls of \<open>send\<close> on the RTSP connection and of \<open>sendto\<close>.\<close>

record RtpConnection =
  mediaChannelInfo :: "MediaChannelInfo list"
  transportMode :: TransportMode
  rc_isMulticast :: bool
  rc_isClosed :: bool
  hasIDRFrame :: bool
  hasGOPFrame :: bool
  frameType :: u8
  tcp_sent :: "u8 list list"
  udp_sent :: "(nat \<times> u8 list) list"

abbreviation VIDEO_FRAME_I :: u8 where "VIDEO_FRAME_I \<equiv> 0x01"
abbreviation kGOPCache :: u8 where "kGOPCache \<equiv> 200"

definition on_channel :: "nat \<Rightarrow> (MediaChannelInfo \<Rightarrow> MediaChannelInfo) \<Rightarrow> RtpConnection \<Rightarrow> RtpConnection" where
  "on_channel chn f c = c\<lparr>mediaChannelInfo := (mediaChannelInfo c)[chn := f (mediaChannelInfo c ! chn)]\<rparr>"

text \<open>\<open>random\<close> gives, for each channel, the three results of \<open>rd()\<close>.\<close>

definition new_channel :: "u32 \<times> u32 \<times> u32 \<Rightarrow> MediaChannelInfo" where
  "new_channel = (\<lambda>(a, b, c). \<lparr>rtpHeader = \<lparr>rh_csrc = 0, rh_extension = 0, rh_padding = 0, rh_version = 2, rh_payload = 0, rh_marker = 0,
       rh_seq = 0, rh_ts = htonl b, rh_ssrc = htonl c\<rparr>, rtpChannel = 0, rtcpChannel = 0, rtpPort = 0, rtcpPort = 0,
     packetSeq = ucast (a AND 0xffff), clockRate = 0, isSetup = False, isPlay = False, isRecord = False\<rparr>)"

definition new_RtpConnection :: "u32 \<times> u32 \<times> u32 \<Rightarrow> u32 \<times> u32 \<times> u32 \<Rightarrow> TransportMode \<Rightarrow> RtpConnection" where
  "new_RtpConnection rd0 rd1 mode = \<lparr>mediaChannelInfo = [new_channel rd0, new_channel rd1], transportMode = mode, rc_isMulticast = False,
     rc_isClosed = False, hasIDRFrame = False, hasGOPFrame = False, frameType = 0, tcp_sent = [], udp_sent = []\<rparr>"

definition setClockRate :: "nat \<Rightarrow> u32 \<Rightarrow> RtpConnection \<Rightarrow> RtpConnection" where
  "setClockRate chn rate = on_channel chn (\<lambda>m. m\<lparr>clockRate := rate\<rparr>)"

text \<open>The field has seven bits.\<close>

definition setPayloadType :: "nat \<Rightarrow> u32 \<Rightarrow> RtpConnection \<Rightarrow> RtpConnection" where
  "setPayloadType chn payload = on_channel chn (\<lambda>m. m\<lparr>rtpHeader := (rtpHeader m)\<lparr>rh_payload := ucast payload AND 0x7f\<rparr>\<rparr>)"

definition setupRtpOverTcp :: "nat \<Rightarrow> u16 \<Rightarrow> u16 \<Rightarrow> RtpConnection \<Rightarrow> bool \<times> RtpConnection" where
  "setupRtpOverTcp chn rtp rtcp c =
     (True, (on_channel chn (\<lambda>m. m\<lparr>rtpChannel := rtp, rtcpChannel := rtcp, isSetup := True\<rparr>) c)\<lparr>transportMode := RTP_OVER_TCP\<rparr>)"

definition play :: "RtpConnection \<Rightarrow> RtpConnection" where
  "play c = c\<lparr>mediaChannelInfo := map (\<lambda>m. if isSetup m then m\<lparr>isPlay := True\<rparr> else m) (mediaChannelInfo c)\<rparr>"

definition record_channels :: "RtpConnection \<Rightarrow> RtpConnection" where
  "record_channels c =
     c\<lparr>mediaChannelInfo := map (\<lambda>m. if isSetup m then m\<lparr>isRecord := True, isPlay := True\<rparr> else m) (mediaChannelInfo c)\<rparr>"

definition teardown :: "RtpConnection \<Rightarrow> RtpConnection" where
  "teardown c = (if \<not> rc_isClosed c
     then c\<lparr>rc_isClosed := True, mediaChannelInfo := map (\<lambda>m. m\<lparr>isPlay := False, isRecord := False\<rparr>) (mediaChannelInfo c)\<rparr> else c)"

section \<open>Sending a packet\<close>

definition setFrameType :: "u8 \<Rightarrow> RtpConnection \<Rightarrow> RtpConnection" where
  "setFrameType ty c =
     (let c = c\<lparr>frameType := ty\<rparr> in
      if \<not> hasIDRFrame c \<and> (frameType c = 0 \<or> frameType c = VIDEO_FRAME_I) then c\<lparr>hasIDRFrame := True\<rparr> else c)"

text \<open>The bytes of the header in memory; the bit-fields start at the low end of their byte.\<close>

definition rtp_header_bytes :: "RtpHeader \<Rightarrow> u8 list" where
  "rtp_header_bytes h =
     [rh_csrc h OR push_bit 4 (rh_extension h) OR push_bit 5 (rh_padding h) OR push_bit 6 (rh_version h),
      rh_payload h OR push_bit 7 (rh_marker h),
      ucast (rh_seq h), ucast (drop_bit 8 (rh_seq h)),
      ucast (rh_ts h), ucast (drop_bit 8 (rh_ts h)), ucast (drop_bit 16 (rh_ts h)), ucast (drop_bit 24 (rh_ts h)),
      ucast (rh_ssrc h), ucast (drop_bit 8 (rh_ssrc h)), ucast (drop_bit 16 (rh_ssrc h)), ucast (drop_bit 24 (rh_ssrc h))]"

definition wants :: "nat \<Rightarrow> RtpConnection \<Rightarrow> bool" where
  "wants chn c \<longleftrightarrow> (isPlay (mediaChannelInfo c ! chn) \<or> isRecord (mediaChannelInfo c ! chn)) \<and> (hasIDRFrame c \<or> frameType c = kGOPCache)"

definition setRtpHeader :: "nat \<Rightarrow> RtpPacket \<Rightarrow> RtpConnection \<Rightarrow> (RtpPacket \<times> RtpConnection) result" where
  "setRtpHeader chn pkt c =
     (if wants chn c then
        let m = mediaChannelInfo c ! chn;
            h = (rtpHeader m)\<lparr>rh_marker := pkt_last pkt AND 1, rh_ts := htonl (pkt_timestamp pkt), rh_seq := htons (packetSeq m)\<rparr> in
        bind_result (stores 4 (rtp_header_bytes h) (pkt_data pkt)) (\<lambda>data.
        Inr (pkt\<lparr>pkt_data := data\<rparr>, on_channel chn (\<lambda>m. m\<lparr>rtpHeader := h, packetSeq := packetSeq m + 1\<rparr>) c))
      else Inr (pkt, c))"

definition sendRtpOverTcp :: "nat \<Rightarrow> RtpPacket \<Rightarrow> RtpConnection \<Rightarrow> (RtpPacket \<times> RtpConnection) result" where
  "sendRtpOverTcp chn pkt c =
     bind_result (stores 0 [0x24, ucast (rtpChannel (mediaChannelInfo c ! chn)), ucast (drop_bit 8 ((pkt_size pkt - 4) AND 0xFF00)),
       ucast ((pkt_size pkt - 4) AND 0xFF)] (pkt_data pkt)) (\<lambda>data.
     bind_result (read_bytes (unat (pkt_size pkt)) data) (\<lambda>bs. Inr (pkt\<lparr>pkt_data := data\<rparr>, c\<lparr>tcp_sent := tcp_sent c @ [bs]\<rparr>)))"

text \<open>\<open>ok\<close> says whether \<open>sendto\<close> succeeds.\<close>

definition sendRtpOverUdp :: "bool \<Rightarrow> nat \<Rightarrow> RtpPacket \<Rightarrow> RtpConnection \<Rightarrow> RtpConnection result" where
  "sendRtpOverUdp ok chn pkt c =
     bind_result (read_bytes (unat (pkt_size pkt - 4)) (drop 4 (pkt_data pkt))) (\<lambda>bs.
     if ok then Inr (c\<lparr>udp_sent := udp_sent c @ [(chn, bs)]\<rparr>) else Inr (teardown c))"

text \<open>The closure that \<open>sendRtpPacket\<close> adds to the trigger events: it writes into the bytes of the packet, so it returns them.\<close>

definition run_trigger :: "bool \<Rightarrow> nat \<Rightarrow> RtpPacket \<Rightarrow> RtpConnection \<Rightarrow> (RtpPacket \<times> RtpConnection) result" where
  "run_trigger ok chn pkt c =
     bind_result (setRtpHeader chn pkt (setFrameType (pkt_type pkt) c)) (\<lambda>(pkt, c).
     if wants chn c then
       if transportMode c = RTP_OVER_TCP then sendRtpOverTcp chn pkt c
       else bind_result (sendRtpOverUdp ok chn pkt c) (\<lambda>c. Inr (pkt, c))
     else Inr (pkt, c))"

section \<open>The client\<close>

text \<open>A client splits the TCP stream at the framing of RFC 2326 and takes the RTP header of each packet apart.\<close>

record rtp_view =
  v_channel :: u8
  v_version :: u8
  v_marker :: bool
  v_payload_type :: u8
  v_seq :: u16
  v_ts :: u32
  v_ssrc :: u32
  v_payload :: "u8 list"

definition be16_of :: "u8 \<Rightarrow> u8 \<Rightarrow> u16" where
  "be16_of a b = push_bit 8 (ucast a) OR ucast b"

definition be32_of :: "u8 \<Rightarrow> u8 \<Rightarrow> u8 \<Rightarrow> u8 \<Rightarrow> u32" where
  "be32_of a b c d = push_bit 24 (ucast a) OR push_bit 16 (ucast b) OR push_bit 8 (ucast c) OR ucast d"

definition read_rtp :: "u8 \<Rightarrow> u8 list \<Rightarrow> rtp_view" where
  "read_rtp ch b = \<lparr>v_channel = ch, v_version = drop_bit 6 (b ! 0), v_marker = bit (b ! 1) 7, v_payload_type = b ! 1 AND 0x7f,
     v_seq = be16_of (b ! 2) (b ! 3), v_ts = be32_of (b ! 4) (b ! 5) (b ! 6) (b ! 7), v_ssrc = be32_of (b ! 8) (b ! 9) (b ! 10) (b ! 11),
     v_payload = drop 12 b\<rparr>"

function (sequential) split_tcp :: "u8 list \<Rightarrow> (u8 \<times> u8 list) list" where
  "split_tcp (m # ch # a # b # rest) =
     (if m = 0x24 then (ch, take (unat a * 256 + unat b) rest) # split_tcp (drop (unat a * 256 + unat b) rest) else [])"
| "split_tcp _ = []"
  by pat_completeness auto
termination by (relation "measure length") auto

declare split_tcp.simps [simp del]

definition client_view :: "u8 list \<Rightarrow> rtp_view list" where
  "client_view bs = map (\<lambda>(ch, b). read_rtp ch b) (split_tcp bs)"

text \<open>The message for a packet, and the view the client has of it.\<close>

definition rtp_message :: "u8 \<Rightarrow> RtpHeader \<Rightarrow> u8 list \<Rightarrow> u8 list" where
  "rtp_message ch h p = [0x24, ch, ucast (drop_bit 8 (of_nat (12 + length p) :: u32)), ucast (of_nat (12 + length p) :: u32)] @
     rtp_header_bytes h @ p"

definition plain_header :: "RtpHeader \<Rightarrow> bool" where
  "plain_header h \<longleftrightarrow> rh_csrc h = 0 \<and> rh_extension h = 0 \<and> rh_padding h = 0 \<and> rh_version h = 2 \<and> \<not> bit (rh_payload h) 7"

lemma length_header [simp]: "length (rtp_header_bytes h) = 12"
  by (simp add: rtp_header_bytes_def)

lemma marker_bit_read:
  assumes "\<not> bit (pt :: u8) 7"
  shows "(pt OR push_bit 7 (of_bool final)) AND 0x7f = pt" "bit (pt OR push_bit 7 (of_bool final)) 7 = final"
proof -
  have m: "(0x7f :: u8) = mask 7" by (simp add: mask_eq_exp_minus_1)
  have b: "bit (of_bool final :: u8) n \<longleftrightarrow> final \<and> n = 0" for n by (cases final) (simp_all add: bit_1_iff)
  show "(pt OR push_bit 7 (of_bool final)) AND 0x7f = pt" unfolding m
  proof (rule bit_word_eqI, goal_cases)
    case (1 n)
    then show ?case using assms by (cases "n = 7") (auto simp: bit_simps b)
  qed
  show "bit (pt OR push_bit 7 (of_bool final)) 7 = final" using assms by (simp add: bit_or_iff bit_push_bit_iff b)
qed

lemma header_nth:
  assumes "plain_header h"
  shows "read_rtp ch (rtp_header_bytes (h\<lparr>rh_marker := of_bool final, rh_ts := htonl ts, rh_seq := htons seq\<rparr>) @ p) =
    \<lparr>v_channel = ch, v_version = 2, v_marker = final, v_payload_type = rh_payload h, v_seq = seq, v_ts = ts, v_ssrc = htonl (rh_ssrc h), v_payload = p\<rparr>"
proof -
  have s: "be16_of (ucast (htons seq)) (ucast (drop_bit 8 (htons seq))) = seq"
    unfolding be16_of_def htons_def by (rule bit_word_eqI) (auto simp: bit_simps dest: bit_imp_le_length)
  have t: "be32_of (ucast x) (ucast (drop_bit 8 x)) (ucast (drop_bit 16 x)) (ucast (drop_bit 24 x)) = htonl x" for x :: u32
    unfolding be32_of_def by (rule word_32_bytes) (auto simp: bit_htonl bit_simps dest: bit_imp_le_length)
  note pt = marker_bit_read [of "rh_payload h" final]
  have "drop 12 (rtp_header_bytes h' @ p) = p" for h' by simp
  then show ?thesis using assms s t pt unfolding read_rtp_def plain_header_def
    by (simp add: rtp_header_bytes_def htonl_htonl)
qed

lemma split_message:
  assumes "length p \<le> 1420"
  shows "split_tcp (rtp_message ch h p @ rest) = (ch, rtp_header_bytes h @ p) # split_tcp rest"
proof -
  let ?n = "12 + length p"
  have n: "unat (of_nat ?n :: u32) = ?n" using assms by (intro unat_of_nat_32) simp
  have "unat (ucast (drop_bit 8 (of_nat ?n :: u32)) :: u8) = ?n div 256" "unat (ucast (of_nat ?n :: u32) :: u8) = ?n mod 256"
    using assms n by (simp_all only: unsigned_ucast_eq) (simp_all add: take_bit_eq_mod drop_bit_eq_div unat_div)
  then have l: "unat (ucast (drop_bit 8 (of_nat ?n :: u32)) :: u8) * 256 + unat (ucast (of_nat ?n :: u32) :: u8) = ?n" by simp
  have "take ?n (rtp_header_bytes h @ p @ rest) = rtp_header_bytes h @ p" "drop ?n (rtp_header_bytes h @ p @ rest) = rest" by simp_all
  then show ?thesis unfolding rtp_message_def append_Cons append_Nil append_assoc by (subst split_tcp.simps(1)) (simp only: l if_True simp_thms)
qed

section \<open>One packet\<close>

definition key_frame :: "AVFrame \<Rightarrow> bool" where
  "key_frame f \<longleftrightarrow> fr_type f = 0 \<or> fr_type f = VIDEO_FRAME_I"

text \<open>A client that plays over TCP.\<close>

definition playing :: "nat \<Rightarrow> RtpConnection \<Rightarrow> bool" where
  "playing chn c \<longleftrightarrow> chn < length (mediaChannelInfo c) \<and> transportMode c = RTP_OVER_TCP \<and> \<not> rc_isClosed c \<and>
     (isPlay (mediaChannelInfo c ! chn) \<or> isRecord (mediaChannelInfo c ! chn)) \<and> plain_header (rtpHeader (mediaChannelInfo c ! chn))"

text \<open>The state after a packet that was sent.\<close>

definition sent_header :: "nat \<Rightarrow> AVFrame \<Rightarrow> bool \<Rightarrow> RtpConnection \<Rightarrow> RtpHeader" where
  "sent_header chn f final c = (rtpHeader (mediaChannelInfo c ! chn))\<lparr>rh_marker := of_bool final, rh_ts := htonl (fr_timestamp f),
     rh_seq := htons (packetSeq (mediaChannelInfo c ! chn))\<rparr>"

definition after_packet :: "nat \<Rightarrow> AVFrame \<Rightarrow> u8 list \<Rightarrow> bool \<Rightarrow> RtpConnection \<Rightarrow> RtpConnection" where
  "after_packet chn f p final c = (let m = mediaChannelInfo c ! chn; h = sent_header chn f final c in
     c\<lparr>frameType := fr_type f, hasIDRFrame := hasIDRFrame c \<or> key_frame f,
       mediaChannelInfo := (mediaChannelInfo c)[chn := m\<lparr>rtpHeader := h, packetSeq := packetSeq m + 1\<rparr>],
       tcp_sent := tcp_sent c @ [rtp_message (ucast (rtpChannel m)) h p]\<rparr>)"

text \<open>A packet whose bytes hold the payload at their place.\<close>

definition carries :: "u8 list \<Rightarrow> u8 list \<Rightarrow> bool" where
  "carries p d \<longleftrightarrow> length d = 1600 \<and> length p \<le> 1420 \<and> take (length p) (drop 16 d) = p"

definition pkt_for :: "u8 list \<Rightarrow> AVFrame \<Rightarrow> u8 list \<Rightarrow> bool \<Rightarrow> RtpPacket" where
  "pkt_for d f p final = \<lparr>pkt_data = d, pkt_size = of_nat (16 + length p), pkt_timestamp = fr_timestamp f, pkt_type = fr_type f,
     pkt_last = of_bool final\<rparr>"

lemma carries_split: "carries p d \<Longrightarrow> d = take 16 d @ p @ drop (16 + length p) d"
  unfolding carries_def by (metis append_take_drop_id drop_drop add.commute)

lemma carries_prefix: "carries p d \<Longrightarrow> length h = 16 \<Longrightarrow> carries p (h @ drop 16 d)"
  by (simp add: carries_def)

lemma packet_of_carries:
  assumes "length raw = 1600" "length p \<le> 1420"
  shows "\<exists>d. packet_of raw f p final = pkt_for d f p final \<and> carries p d"
  using assms by (intro exI [of _ "take 16 raw @ p @ drop (16 + length p) raw"]) (simp add: packet_of_def pkt_for_def carries_def)

lemma size_bytes:
  assumes "n \<le> 1420"
  shows "ucast (drop_bit 8 ((of_nat (16 + n) - 4) AND 0xFF00 :: u32)) = (ucast (drop_bit 8 (of_nat (12 + n) :: u32)) :: u8)"
    "ucast ((of_nat (16 + n) - 4) AND 0xFF :: u32) = (ucast (of_nat (12 + n) :: u32) :: u8)"
proof -
  have n: "of_nat (16 + n) - 4 = (of_nat (12 + n) :: u32)" by simp
  have "ucast (x AND mask 8) = (ucast x :: u8)" for x :: u32 by (rule bit_word_eqI) (auto simp: bit_simps)
  moreover have "(0xFF :: u32) = mask 8" by (simp add: mask_eq_exp_minus_1)
  ultimately show "ucast ((of_nat (16 + n) - 4) AND 0xFF :: u32) = (ucast (of_nat (12 + n) :: u32) :: u8)" unfolding n by metis
  have "ucast (drop_bit 8 (x AND push_bit 8 (mask 8))) = (ucast (drop_bit 8 x) :: u8)" for x :: u32
    by (rule bit_word_eqI) (auto simp: bit_simps)
  moreover have "(0xFF00 :: u32) = push_bit 8 (mask 8)" by (simp add: mask_eq_exp_minus_1)
  ultimately show "ucast (drop_bit 8 ((of_nat (16 + n) - 4) AND 0xFF00 :: u32)) = (ucast (drop_bit 8 (of_nat (12 + n) :: u32)) :: u8)"
    unfolding n by metis
qed

text \<open>The bytes of the packet after it was sent.\<close>

definition rtp_framed :: "u8 \<Rightarrow> RtpHeader \<Rightarrow> u8 list \<Rightarrow> u8 list \<Rightarrow> u8 list" where
  "rtp_framed ch h p d = take 16 (rtp_message ch h p) @ drop 16 d"

lemma length_message: "length (rtp_message ch h p) = 16 + length p"
  by (simp add: rtp_message_def)

lemma rtp_framed_message:
  assumes "carries p d"
  shows "rtp_framed ch h p d = rtp_message ch h p @ drop (16 + length p) d"
proof -
  have "drop 16 d = p @ drop (16 + length p) d"
    using assms unfolding carries_def by (metis append_take_drop_id drop_drop add.commute)
  then show ?thesis by (simp add: rtp_framed_def rtp_message_def)
qed

lemma header_stored:
  assumes "carries p d" "playing chn c" "hasIDRFrame c \<or> frameType c = kGOPCache"
  shows "setRtpHeader chn (pkt_for d f p final) c = Inr (pkt_for (take 4 d @ rtp_header_bytes (sent_header chn f final c) @ drop 16 d) f p final,
    on_channel chn (\<lambda>m. m\<lparr>rtpHeader := sent_header chn f final c, packetSeq := packetSeq m + 1\<rparr>) c)"
proof -
  have "stores 4 (rtp_header_bytes (sent_header chn f final c)) d = Inr (take 4 d @ rtp_header_bytes (sent_header chn f final c) @ drop 16 d)"
    using assms(1) by (subst stores_ok) (simp_all add: carries_def)
  moreover have "of_bool final AND 1 = (of_bool final :: u8)" by (cases final) simp_all
  ultimately show ?thesis using assms(2,3)
    by (simp add: setRtpHeader_def wants_def playing_def pkt_for_def sent_header_def Let_def del: stores.simps)
qed

lemma tcp_sends:
  assumes "carries p d" "transportMode c = RTP_OVER_TCP"
  shows "sendRtpOverTcp chn (pkt_for (take 4 d @ rtp_header_bytes h @ drop 16 d) f p final) c =
    (let ch = ucast (rtpChannel (mediaChannelInfo c ! chn)) in
     Inr (pkt_for (rtp_framed ch h p d) f p final, c\<lparr>tcp_sent := tcp_sent c @ [rtp_message ch h p]\<rparr>))"
proof -
  define ch :: u8 where "ch = ucast (rtpChannel (mediaChannelInfo c ! chn))"
  let ?fr = "[0x24, ch, ucast (drop_bit 8 (of_nat (12 + length p) :: u32)), ucast (of_nat (12 + length p) :: u32)] :: u8 list"
  have p: "length p \<le> 1420" using assms(1) by (simp add: carries_def)
  have st: "stores 0 ?fr (take 4 d @ rtp_header_bytes h @ drop 16 d) = Inr (rtp_framed ch h p d)"
    using assms(1) by (subst stores_ok) (simp_all add: rtp_framed_def rtp_message_def carries_def)
  have n: "unat (of_nat (16 + length p) :: u32) = 16 + length p" using p by (intro unat_of_nat_32) simp
  have rd: "read_bytes (16 + length p) (rtp_framed ch h p d) = Inr (rtp_message ch h p)"
    unfolding rtp_framed_message [OF assms(1)] by (simp add: length_message)
  show ?thesis using st rd unfolding sendRtpOverTcp_def pkt_for_def ch_def [symmetric] Let_def
    by (simp only: RtpPacket.select_convs size_bytes [OF p] n bind_result_simps RtpPacket.update_convs)
qed

lemma run_trigger_sends:
  assumes "playing chn c" "carries p d" "hasIDRFrame c \<or> key_frame f \<or> fr_type f = kGOPCache"
  shows "\<exists>d'. run_trigger ok chn (pkt_for d f p final) c = Inr (pkt_for d' f p final, after_packet chn f p final c) \<and>
    length (take 16 d') = 16 \<and> d' = take 16 d' @ drop 16 d"
proof -
  let ?c = "c\<lparr>frameType := fr_type f, hasIDRFrame := hasIDRFrame c \<or> key_frame f\<rparr>" and ?h = "sent_header chn f final c"
  let ?c' = "on_channel chn (\<lambda>m. m\<lparr>rtpHeader := ?h, packetSeq := packetSeq m + 1\<rparr>) ?c"
  have ft: "setFrameType (fr_type f) c = ?c" using assms(3) by (cases c) (auto simp: setFrameType_def key_frame_def Let_def)
  have p: "playing chn ?c" "hasIDRFrame ?c \<or> frameType ?c = kGOPCache" "sent_header chn f final ?c = ?h"
    using assms(1,3) by (simp_all add: playing_def sent_header_def)
  have w: "wants chn ?c'" "transportMode ?c' = RTP_OVER_TCP" "rtpChannel (mediaChannelInfo ?c' ! chn) = rtpChannel (mediaChannelInfo c ! chn)"
    using assms(1,3) by (auto simp: on_channel_def playing_def wants_def)
  let ?ch = "ucast (rtpChannel (mediaChannelInfo c ! chn)) :: u8"
  have a: "?c'\<lparr>tcp_sent := tcp_sent ?c' @ [rtp_message ?ch ?h p]\<rparr> = after_packet chn f p final c"
    by (simp add: after_packet_def on_channel_def Let_def)
  have "run_trigger ok chn (pkt_for d f p final) c = Inr (pkt_for (rtp_framed ?ch ?h p d) f p final, after_packet chn f p final c)"
    using header_stored [OF assms(2) p(1,2), of f final, unfolded p(3)] tcp_sends [OF assms(2) w(2), of chn ?h f final, unfolded w(3) Let_def a] w(1,2)
    unfolding run_trigger_def by (simp add: pkt_for_def ft)
  moreover have "length (take 16 (rtp_framed ?ch ?h p d)) = 16" "rtp_framed ?ch ?h p d = take 16 (rtp_framed ?ch ?h p d) @ drop 16 d"
    by (simp_all add: rtp_framed_def length_message)
  ultimately show ?thesis by blast
qed

lemma run_trigger_skips:
  assumes "\<not> hasIDRFrame c" "\<not> key_frame f" "fr_type f \<noteq> kGOPCache"
  shows "run_trigger ok chn (pkt_for d f p final) c = Inr (pkt_for d f p final, c\<lparr>frameType := fr_type f\<rparr>)"
  using assms by (simp add: run_trigger_def pkt_for_def setFrameType_def key_frame_def setRtpHeader_def wants_def Let_def)

end
