(* ===== verification/Media_Session.thy ===== *)
theory Media_Session
  imports Rtp_Connection
begin

text \<open>
  The sessions of the RTSP server (\<open>rtsp/MediaSession.cpp\<close>, \<open>rtsp/RtspServer.cpp\<close> and the trigger events of
  \<open>rtsp/TaskScheduler.cpp\<close>): a frame that is pushed is cut into packets, every packet is put into the queue of the scheduler once for
  each client, and the scheduler sends them. However the pushing of frames and the handling of the queue interleave, between any two
  accesses to what both threads use, each client that plays over TCP receives the frames from the first key frame on, and the copy of the last key
  frame that is kept for new clients.
\<close>

unbundle bit_operations_syntax

section \<open>Sessions\<close>

text \<open>The camera runs one scheduler, so all connections have its id and one queue. They then share the bytes of a packet, which the
  trigger events change: the bytes are in \<open>packetData\<close>, and an event has the connection, the channel, the address of the
  bytes and the other fields of the packet. \<open>ms_clients\<close> is the map from sockets to the connections that are alive, in its order.
  \<open>ms_schedule\<close> is no variable of the program: it says what the thread of the scheduler does while a frame is pushed. Whenever the thread that pushes
  is about to use something that both threads use, the scheduler handles as many events as the next element of the schedule has entries, each with the result of
  \<open>sendto\<close>, should it be called.\<close>

type_synonym trigger = "nat \<times> nat \<times> nat \<times> RtpPacket"

record MediaSession =
  connections :: "RtpConnection list"
  packetData :: "u8 list list"
  triggerEvents :: "trigger list"
  ms_clients :: "(int \<times> nat) list"
  mediaSources :: "MediaSource option list"
  ms_isMulticast :: bool
  gopCacheEnabled :: bool
  hasNewClient :: bool
  gopCache :: AVFrame
  ms_schedule :: "bool list list"

definition kMaxTriggetEvents :: nat where "kMaxTriggetEvents = 5000"

definition new_MediaSession :: "RtpConnection list \<Rightarrow> MediaSession" where
  "new_MediaSession cs = \<lparr>connections = cs, packetData = [], triggerEvents = [], ms_clients = [], mediaSources = [None, None],
     ms_isMulticast = False, gopCacheEnabled = False, hasNewClient = False,
     gopCache = \<lparr>fr_buffer = [], fr_size = 0, fr_type = 0, fr_timestamp = 0\<rparr>, ms_schedule = []\<rparr>"

definition addMediaSource :: "nat \<Rightarrow> MediaSource \<Rightarrow> MediaSession \<Rightarrow> bool \<times> MediaSession" where
  "addMediaSource chn src s = (True, s\<lparr>mediaSources := (mediaSources s)[chn := Some src]\<rparr>)"

definition removeMediaSource :: "nat \<Rightarrow> MediaSession \<Rightarrow> bool \<times> MediaSession" where
  "removeMediaSource chn s = (True, s\<lparr>mediaSources := (mediaSources s)[chn := None]\<rparr>)"

definition addClient :: "int \<Rightarrow> nat \<Rightarrow> MediaSession \<Rightarrow> bool \<times> MediaSession" where
  "addClient rtspfd conn s =
     (if map_of (ms_clients s) rtspfd = None
      then (True, s\<lparr>ms_clients := insort_key fst (rtspfd, conn) (ms_clients s), hasNewClient := True\<rparr>)
      else (False, s))"

definition removeClient :: "int \<Rightarrow> MediaSession \<Rightarrow> MediaSession" where
  "removeClient rtspfd s = s\<lparr>ms_clients := filter (\<lambda>(fd, conn). fd \<noteq> rtspfd) (ms_clients s)\<rparr>"

section \<open>The queue of trigger events\<close>

definition addTriggerEvent :: "trigger \<Rightarrow> MediaSession \<Rightarrow> bool \<times> MediaSession" where
  "addTriggerEvent e s =
     (if length (triggerEvents s) < kMaxTriggetEvents then (True, s\<lparr>triggerEvents := triggerEvents s @ [e]\<rparr>) else (False, s))"

text \<open>One turn of the loop in \<open>handleTriggerEvent\<close>; \<open>ok\<close> is the result of \<open>sendto\<close>, should it be called.\<close>

definition pop_trigger :: "bool \<Rightarrow> MediaSession \<Rightarrow> MediaSession result" where
  "pop_trigger ok s = (case triggerEvents s of
       [] \<Rightarrow> Inr s
     | (i, chn, a, pkt) # es \<Rightarrow>
         bind_result (run_trigger ok chn (pkt\<lparr>pkt_data := packetData s ! a\<rparr>) (connections s ! i)) (\<lambda>(pkt, c).
         Inr (s\<lparr>triggerEvents := es, connections := (connections s)[i := c], packetData := (packetData s)[a := pkt_data pkt]\<rparr>)))"

lemma pop_trigger_length: "pop_trigger ok s = Inr s' \<Longrightarrow> triggerEvents s' = tl (triggerEvents s)"
  by (auto simp: pop_trigger_def split: list.splits)

lemma pop_trigger_shorter:
  "pop_trigger ok s = Inr s' \<Longrightarrow> triggerEvents s' \<noteq> [] \<Longrightarrow> length (triggerEvents s') < length (triggerEvents s)"
  by (drule pop_trigger_length) (cases "triggerEvents s"; simp)

function handleTriggerEvent :: "(nat \<Rightarrow> bool) \<Rightarrow> MediaSession \<Rightarrow> MediaSession result" where
  "handleTriggerEvent oks s = bind_result (pop_trigger (oks 0) s) (\<lambda>s'.
     if triggerEvents s' = [] then Inr s' else handleTriggerEvent (\<lambda>n. oks (Suc n)) s')"
  by pat_completeness auto
termination by (relation "measure (\<lambda>(oks, s). length (triggerEvents s))") (auto intro: pop_trigger_shorter)

declare handleTriggerEvent.simps [simp del]

text \<open>What the scheduler does before the next access of the other thread.\<close>

primrec pop_triggers :: "bool list \<Rightarrow> MediaSession \<Rightarrow> MediaSession result" where
  "pop_triggers [] s = Inr s"
| "pop_triggers (ok # oks) s = bind_result (pop_trigger ok s) (pop_triggers oks)"

definition scheduler_turns :: "MediaSession \<Rightarrow> MediaSession result" where
  "scheduler_turns s = (case ms_schedule s of [] \<Rightarrow> Inr s | oks # rest \<Rightarrow> pop_triggers oks (s\<lparr>ms_schedule := rest\<rparr>))"

section \<open>Frames\<close>

text \<open>The flags of the connection are read and the event is added at different times.\<close>

definition sendRtpPacket :: "nat \<Rightarrow> nat \<Rightarrow> nat \<Rightarrow> RtpPacket \<Rightarrow> bool \<Rightarrow> MediaSession \<Rightarrow> (int \<times> MediaSession) result" where
  "sendRtpPacket i chn a pkt isGOPCache s =
     (let c = connections s ! i in
      if rc_isClosed c then Inr (-1, s)
      else if isGOPCache \<and> (hasGOPFrame c \<or> hasIDRFrame c) then Inr (0, s)
      else
        let s = (if isGOPCache \<and> pkt_last pkt \<noteq> 0 then s\<lparr>connections := (connections s)[i := c\<lparr>hasGOPFrame := True\<rparr>]\<rparr> else s) in
        bind_result (scheduler_turns s) (\<lambda>s.
        let (ret, s) = addTriggerEvent (i, chn, a, pkt) s in
        Inr (if ret then 0 else -1, s)))"

text \<open>The packet for the clients, who are served in the reverse order of the map. With the cache of the last key frame, clients that
  have one are left out; over multicast one successful client is enough.\<close>

fun to_clients :: "nat list \<Rightarrow> nat \<Rightarrow> nat \<Rightarrow> RtpPacket \<Rightarrow> MediaSession \<Rightarrow> (nat \<times> MediaSession) result" where
  "to_clients [] chn a pkt s = Inr (0, s)"
| "to_clients (i # is) chn a pkt s =
     bind_result (scheduler_turns s) (\<lambda>s.
     if gopCacheEnabled s \<and> (hasGOPFrame (connections s ! i) \<or> hasIDRFrame (connections s ! i)) then to_clients is chn a pkt s
     else
       bind_result (scheduler_turns s) (\<lambda>s.
       bind_result (sendRtpPacket i chn a pkt (gopCacheEnabled s) s) (\<lambda>(ret, s).
       if ms_isMulticast s \<and> ret = 0 then Inr (1, s)
       else bind_result (to_clients is chn a pkt s) (\<lambda>(n, s). Inr (n + 1, s)))))"

text \<open>The sources call this for each packet; after a fault of the scheduler the state is the fault.\<close>

definition sendFrameCallback :: "nat \<Rightarrow> RtpPacket \<Rightarrow> MediaSession result \<Rightarrow> bool \<times> MediaSession result" where
  "sendFrameCallback chn pkt st = (case st of Inl e \<Rightarrow> (False, Inl e) | Inr s \<Rightarrow>
     (case to_clients (rev (map snd (ms_clients s))) chn (length (packetData s)) pkt (s\<lparr>packetData := packetData s @ [pkt_data pkt]\<rparr>) of
        Inl e \<Rightarrow> (False, Inl e)
      | Inr (n, s) \<Rightarrow> (\<not> (gopCacheEnabled s \<and> n = 0), Inr s)))"

definition MediaSession_handleFrame :: "u8 list \<Rightarrow> u32 \<Rightarrow> nat \<Rightarrow> AVFrame \<Rightarrow> MediaSession \<Rightarrow> (bool \<times> MediaSession) result" where
  "MediaSession_handleFrame raw now chn frame s = (case mediaSources s ! chn of
       None \<Rightarrow> Inr (False, s)
     | Some src \<Rightarrow>
         bind_result (source_handleFrame src raw now (Some (sendFrameCallback chn)) frame (Inr s)) (\<lambda>(_, st).
         bind_result st (\<lambda>s.
         if \<not> ms_isMulticast s \<and> (src = H264Source \<or> src = H265Source) then
           let s = (if fr_type frame = VIDEO_FRAME_I then s\<lparr>gopCache := frame\<lparr>fr_type := kGOPCache\<rparr>\<rparr> else s) in
           if hasNewClient s \<and> fr_size (gopCache s) > 0 then
             let s = s\<lparr>hasNewClient := False, gopCacheEnabled := True, gopCache := (gopCache s)\<lparr>fr_timestamp := now\<rparr>\<rparr> in
             bind_result (source_handleFrame src raw now (Some (sendFrameCallback chn)) (gopCache s) (Inr s)) (\<lambda>(_, st).
             bind_result st (\<lambda>s. Inr (True, s\<lparr>gopCacheEnabled := False\<rparr>)))
           else Inr (True, s)
         else Inr (True, s))))"

text \<open>\<open>RtspServer::pushFrame\<close> for the session that was found.\<close>

definition pushFrame :: "u8 list \<Rightarrow> u32 \<Rightarrow> nat \<Rightarrow> AVFrame \<Rightarrow> MediaSession \<Rightarrow> (bool \<times> MediaSession) result" where
  "pushFrame raw now chn frame s = (if ms_clients s \<noteq> [] then MediaSession_handleFrame raw now chn frame s else Inr (False, s))"

text \<open>The thread of the camera pushes frames while the scheduler handles events: as the schedule says during a frame, and at any time between frames.\<close>

datatype action = Frame "u8 list" u32 AVFrame | Trigger bool

primrec run_session :: "nat \<Rightarrow> action list \<Rightarrow> MediaSession \<Rightarrow> MediaSession result" where
  "run_session chn [] s = Inr s"
| "run_session chn (act # acts) s = (case act of
     Frame raw now f \<Rightarrow> bind_result (pushFrame raw now chn f s) (\<lambda>(_, s). run_session chn acts s)
   | Trigger ok \<Rightarrow> bind_result (pop_trigger ok s) (run_session chn acts))"

section \<open>What a client is sent\<close>

text \<open>The packets of a frame: each with its payload and whether it is the last one.\<close>

type_synonym sent_packet = "AVFrame \<times> u8 list \<times> bool"

primrec marked :: "AVFrame \<Rightarrow> u8 list list \<Rightarrow> sent_packet list" where
  "marked f [] = []"
| "marked f (p # ps) = (f, p, ps = []) # marked f ps"

definition packets :: "MediaSource \<Rightarrow> AVFrame \<Rightarrow> sent_packet list" where
  "packets src f = marked f (payloads_of src (unit_of src f))"

text \<open>Before its first key frame a client is sent only copies from the cache.\<close>

definition passes :: "bool \<Rightarrow> AVFrame \<Rightarrow> bool" where
  "passes idr f \<longleftrightarrow> idr \<or> key_frame f \<or> fr_type f = kGOPCache"

text \<open>What one packet does to a connection.\<close>

definition deliver :: "nat \<Rightarrow> RtpConnection \<Rightarrow> sent_packet \<Rightarrow> RtpConnection" where
  "deliver chn c = (\<lambda>(f, p, final). if passes (hasIDRFrame c) f then after_packet chn f p final c else c\<lparr>frameType := fr_type f\<rparr>)"

text \<open>An event stands for a packet.\<close>

definition stands_for :: "nat \<Rightarrow> u8 list list \<Rightarrow> trigger \<Rightarrow> sent_packet \<Rightarrow> bool" where
  "stands_for chn mem = (\<lambda>(i, ch, a, pkt) (f, p, final). ch = chn \<and> a < length mem \<and> carries p (mem ! a) \<and>
     (\<exists>d. pkt = pkt_for d f p final))"

lemma playing_deliver [simp]: "playing chn (deliver chn c t) = playing chn c"
  by (cases t) (auto simp: deliver_def after_packet_def playing_def sent_header_def plain_header_def Let_def)

lemma playing_foldl: "playing chn (foldl (deliver chn) c ts) = playing chn c"
  by (induction ts arbitrary: c) simp_all

lemma deliver_flags [simp]:
  "hasIDRFrame (deliver chn c t) \<longleftrightarrow> hasIDRFrame c \<or> key_frame (fst t)" "hasGOPFrame (deliver chn c t) = hasGOPFrame c"
  "deliver chn (c\<lparr>hasGOPFrame := b\<rparr>) t = (deliver chn c t)\<lparr>hasGOPFrame := b\<rparr>"
  by (cases t; auto simp: deliver_def after_packet_def passes_def sent_header_def Let_def)+

lemma foldl_deliver_IDR: "hasIDRFrame (foldl (deliver chn) c ts) \<longleftrightarrow> hasIDRFrame c \<or> (\<exists>t \<in> set ts. key_frame (fst t))"
  by (induction ts arbitrary: c) auto

lemma run_trigger_delivers:
  assumes "playing chn c" "stands_for chn mem (i, ch, a, pkt) (f, p, final)"
  shows "\<exists>d'. run_trigger ok ch (pkt\<lparr>pkt_data := mem ! a\<rparr>) c = Inr (pkt_for d' f p final, deliver chn c (f, p, final)) \<and>
    length (take 16 d') = 16 \<and> drop 16 d' = drop 16 (mem ! a)"
proof -
  have s: "ch = chn" "a < length mem" "carries p (mem ! a)" "pkt\<lparr>pkt_data := mem ! a\<rparr> = pkt_for (mem ! a) f p final"
    using assms(2) by (auto simp: stands_for_def pkt_for_def)
  show ?thesis
  proof (cases "passes (hasIDRFrame c) f")
    case True
    obtain d' where d: "run_trigger ok chn (pkt_for (mem ! a) f p final) c = Inr (pkt_for d' f p final, after_packet chn f p final c)"
      "length (take 16 d') = 16" "d' = take 16 d' @ drop 16 (mem ! a)"
      using run_trigger_sends [OF assms(1) s(3) True [unfolded passes_def], of ok final] by blast
    have "drop 16 d' = drop 16 (mem ! a)" using d(2) by (subst d(3)) simp
    then show ?thesis using d(1,2) s True by (auto simp: deliver_def)
  next
    case False
    then show ?thesis using run_trigger_skips [of c f ok chn "mem ! a" p final] s by (auto simp: deliver_def passes_def carries_def)
  qed
qed

lemma stands_for_update:
  assumes "stands_for chn mem e t" "length (take 16 d') = 16" "drop 16 d' = drop 16 (mem ! a)"
  shows "stands_for chn (mem[a := d']) e t"
proof -
  have "carries p (take 16 d' @ drop 16 (mem ! a))" if "carries p (mem ! a)" for p using that assms(2) by (rule carries_prefix)
  moreover have "take 16 d' @ drop 16 (mem ! a) = d'" using assms(3) by (metis append_take_drop_id)
  ultimately have "carries p (mem ! c) \<Longrightarrow> c < length mem \<Longrightarrow> carries p (mem[a := d'] ! c)" for p c by (cases "c = a") simp_all
  then show ?thesis using assms(1) by (cases e; cases t) (auto simp: stands_for_def)
qed

lemma stands_for_append: "stands_for chn mem e t \<Longrightarrow> stands_for chn (mem @ ds) e t"
  by (cases e; cases t) (auto simp: stands_for_def nth_append)

lemma stands_for_any: "stands_for chn mem (i, x) t \<Longrightarrow> stands_for chn mem (j, x) t"
  by (cases x; cases t) (auto simp: stands_for_def)

section \<open>Streaming\<close>

text \<open>A client was sent a part of the packets \<open>ts\<close>, and the queue has the rest for it. The flag for the cache is set by the thread that pushes.\<close>

definition served :: "nat \<Rightarrow> RtpConnection \<Rightarrow> sent_packet list \<Rightarrow> RtpConnection \<Rightarrow> u8 list list \<Rightarrow> trigger list \<Rightarrow> bool" where
  "served chn c0 ts c mem es \<longleftrightarrow>
     (\<exists>sent wait. ts = sent @ wait \<and> c = (foldl (deliver chn) c0 sent)\<lparr>hasGOPFrame := hasGOPFrame c\<rparr> \<and> list_all2 (stands_for chn mem) es wait)"

text \<open>\<open>L\<close> has the packets for each client.\<close>

definition streaming :: "nat \<Rightarrow> MediaSource \<Rightarrow> (int \<times> nat) list \<Rightarrow> RtpConnection list \<Rightarrow> (nat \<Rightarrow> sent_packet list) \<Rightarrow> MediaSession \<Rightarrow> bool" where
  "streaming chn src cl cs L s \<longleftrightarrow> ms_clients s = cl \<and> \<not> ms_isMulticast s \<and> mediaSources s ! chn = Some src \<and>
     distinct (map snd cl) \<and> length (connections s) = length cs \<and>
     (\<forall>e \<in> set (triggerEvents s). fst e \<in> snd ` set cl) \<and>
     (\<forall>i \<in> snd ` set cl. i < length cs \<and> playing chn (cs ! i) \<and>
        served chn (cs ! i) (L i) (connections s ! i) (packetData s) (filter (\<lambda>e. fst e = i) (triggerEvents s)))"

text \<open>What no step takes back while packets are pushed and sent.\<close>

abbreviation gop_of :: "MediaSession \<Rightarrow> nat \<Rightarrow> bool" where "gop_of s i \<equiv> hasGOPFrame (connections s ! i)"

abbreviation idr_of :: "MediaSession \<Rightarrow> nat \<Rightarrow> bool" where "idr_of s i \<equiv> hasIDRFrame (connections s ! i)"

definition follows :: "MediaSession \<Rightarrow> MediaSession \<Rightarrow> bool" where
  "follows s s' \<longleftrightarrow> gopCacheEnabled s' = gopCacheEnabled s \<and> hasNewClient s' = hasNewClient s \<and> gopCache s' = gopCache s \<and>
     (\<forall>i. idr_of s i \<longrightarrow> idr_of s' i) \<and> (\<forall>chn e t. stands_for chn (packetData s) e t \<longrightarrow> stands_for chn (packetData s') e t)"

lemma follows_refl [simp]: "follows s s"
  by (simp add: follows_def)

lemma follows_trans [trans]: "follows s s' \<Longrightarrow> follows s' s'' \<Longrightarrow> follows s s''"
  by (auto simp: follows_def)

lemma playing_flag [simp]: "playing chn (c\<lparr>hasGOPFrame := b\<rparr>) = playing chn c"
  by (simp add: playing_def)

lemma served_playing: "served chn c0 ts c mem es \<Longrightarrow> playing chn c0 \<Longrightarrow> playing chn c"
proof -
  assume "served chn c0 ts c mem es" "playing chn c0"
  then obtain sent where c: "c = (foldl (deliver chn) c0 sent)\<lparr>hasGOPFrame := hasGOPFrame c\<rparr>" and "playing chn (foldl (deliver chn) c0 sent)"
    by (auto simp: served_def playing_foldl)
  then show ?thesis by (metis playing_flag)
qed

lemma served_mem:
  assumes "served chn c0 ts c mem es" "\<And>e t. stands_for chn mem e t \<Longrightarrow> stands_for chn mem' e t"
  shows "served chn c0 ts c mem' es"
proof -
  obtain sent wait where "ts = sent @ wait" "c = (foldl (deliver chn) c0 sent)\<lparr>hasGOPFrame := hasGOPFrame c\<rparr>" "list_all2 (stands_for chn mem) es wait"
    using assms(1) by (auto simp: served_def)
  moreover from this(3) have "list_all2 (stands_for chn mem') es wait" by (rule list_all2_mono) (rule assms(2))
  ultimately show ?thesis unfolding served_def by blast
qed

lemma served_enqueue:
  assumes "served chn c0 ts c mem es" "stands_for chn mem e t"
  shows "served chn c0 (ts @ [t]) c mem (es @ [e])"
proof -
  obtain sent wait where "ts = sent @ wait" "c = (foldl (deliver chn) c0 sent)\<lparr>hasGOPFrame := hasGOPFrame c\<rparr>" "list_all2 (stands_for chn mem) es wait"
    using assms(1) by (auto simp: served_def)
  then show ?thesis unfolding served_def using assms(2)
    by (intro exI [of _ sent] exI [of _ "wait @ [t]"]) (simp add: list_all2_appendI)
qed

lemma served_flag: "served chn c0 ts c mem es \<Longrightarrow> served chn c0 ts (c\<lparr>hasGOPFrame := b\<rparr>) mem es"
proof -
  assume "served chn c0 ts c mem es"
  then obtain sent wait where "ts = sent @ wait" and c: "c = (foldl (deliver chn) c0 sent)\<lparr>hasGOPFrame := hasGOPFrame c\<rparr>"
      and "list_all2 (stands_for chn mem) es wait"
    by (auto simp: served_def)
  moreover have "c\<lparr>hasGOPFrame := b\<rparr> = (foldl (deliver chn) c0 sent)\<lparr>hasGOPFrame := b\<rparr>" by (subst c) simp
  ultimately show ?thesis unfolding served_def by auto
qed

lemma served_dequeue:
  assumes "served chn c0 ts c mem (e # es)"
  obtains t where "stands_for chn mem e t" "served chn c0 ts (deliver chn c t) mem es"
proof -
  obtain sent wait where w: "ts = sent @ wait" and c: "c = (foldl (deliver chn) c0 sent)\<lparr>hasGOPFrame := hasGOPFrame c\<rparr>"
      and l: "list_all2 (stands_for chn mem) (e # es) wait"
    using assms by (auto simp: served_def)
  from l obtain t wait' where t: "wait = t # wait'" "stands_for chn mem e t" "list_all2 (stands_for chn mem) es wait'"
    by (auto simp: list_all2_Cons1)
  have "deliver chn c t = (foldl (deliver chn) c0 (sent @ [t]))\<lparr>hasGOPFrame := hasGOPFrame (deliver chn c t)\<rparr>" by (subst c) simp
  then have "served chn c0 ts (deliver chn c t) mem es" unfolding served_def using w t
    by (intro exI [of _ "sent @ [t]"] exI [of _ wait']) simp
  then show ?thesis using that t(2) by blast
qed

text \<open>A client that has seen a key frame was sent one.\<close>

lemma served_IDR: "served chn c0 ts c mem es \<Longrightarrow> hasIDRFrame c \<Longrightarrow> hasIDRFrame c0 \<or> (\<exists>t \<in> set ts. key_frame (fst t))"
proof -
  assume "served chn c0 ts c mem es" and i: "hasIDRFrame c"
  then obtain sent wait where "ts = sent @ wait" and c: "c = (foldl (deliver chn) c0 sent)\<lparr>hasGOPFrame := hasGOPFrame c\<rparr>"
    by (auto simp: served_def)
  moreover from i have "hasIDRFrame (foldl (deliver chn) c0 sent)" by (subst (asm) c) simp
  ultimately show ?thesis by (auto simp: foldl_deliver_IDR)
qed

subsection \<open>The scheduler\<close>

lemma pop_trigger_streaming:
  assumes "streaming chn src cl cs L s"
  shows "\<exists>s'. pop_trigger ok s = Inr s' \<and> streaming chn src cl cs L s' \<and> follows s s' \<and> (\<forall>i. gop_of s' i = gop_of s i) \<and>
    length (triggerEvents s') \<le> length (triggerEvents s)"
proof (cases "triggerEvents s")
  case Nil
  then show ?thesis using assms by (simp add: pop_trigger_def)
next
  case (Cons e es)
  obtain i ch a pkt where e: "e = (i, ch, a, pkt)" by (cases e) auto
  have i: "i \<in> snd ` set cl" "i < length cs" "playing chn (cs ! i)" "i < length (connections s)"
    and sv: "served chn (cs ! i) (L i) (connections s ! i) (packetData s) (e # filter (\<lambda>e. fst e = i) es)"
    using assms Cons e by (auto simp: streaming_def)
  obtain t where t: "stands_for chn (packetData s) e t" "served chn (cs ! i) (L i) (deliver chn (connections s ! i) t) (packetData s) (filter (\<lambda>e. fst e = i) es)"
    using served_dequeue [OF sv] by blast
  obtain f p final where ft: "t = (f, p, final)" by (cases t)
  obtain d where d: "run_trigger ok ch (pkt\<lparr>pkt_data := packetData s ! a\<rparr>) (connections s ! i) = Inr (pkt_for d f p final, deliver chn (connections s ! i) t)"
    "length (take 16 d) = 16" "drop 16 d = drop 16 (packetData s ! a)"
    using run_trigger_delivers [OF served_playing [OF sv i(3)] t(1) [unfolded e ft], of ok] ft by blast
  let ?s = "s\<lparr>triggerEvents := es, connections := (connections s)[i := deliver chn (connections s ! i) t], packetData := (packetData s)[a := d]\<rparr>"
  have up: "stands_for ch' (packetData s) e' t' \<Longrightarrow> stands_for ch' ((packetData s)[a := d]) e' t'" for ch' e' t'
    by (rule stands_for_update [OF _ d(2,3)])
  have "served chn (cs ! j) (L j) (connections ?s ! j) (packetData ?s) (filter (\<lambda>e. fst e = j) es)" if "j \<in> snd ` set cl" for j
  proof (cases "j = i")
    case True
    then show ?thesis using served_mem [OF t(2) up] i(4) by simp
  next
    case False
    then have "served chn (cs ! j) (L j) (connections s ! j) (packetData s) (filter (\<lambda>e. fst e = j) es)"
      using assms that Cons e by (auto simp: streaming_def)
    then show ?thesis using served_mem [OF _ up] False by simp
  qed
  then have "streaming chn src cl cs L ?s" using assms Cons unfolding streaming_def by simp
  moreover have "follows s ?s" using up i(4) by (auto simp: follows_def nth_list_update)
  moreover have "gop_of ?s j = gop_of s j" for j using i(4) by (cases "j = i") simp_all
  ultimately show ?thesis using d(1) Cons e by (simp add: pop_trigger_def pkt_for_def)
qed

lemma handleTriggerEvent_streaming:
  assumes "streaming chn src cl cs L s"
  shows "\<exists>s'. handleTriggerEvent oks s = Inr s' \<and> streaming chn src cl cs L s' \<and> triggerEvents s' = []"
  using assms
proof (induction "length (triggerEvents s)" arbitrary: s oks rule: less_induct)
  case less
  obtain s' where s: "pop_trigger (oks 0) s = Inr s'" "streaming chn src cl cs L s'" using pop_trigger_streaming [OF less.prems] by blast
  show ?case
  proof (cases "triggerEvents s' = []")
    case True
    then show ?thesis using s by (simp add: handleTriggerEvent.simps [of oks s])
  next
    case False
    then show ?thesis using less.hyps [OF pop_trigger_shorter [OF s(1) False] s(2)] s(1) by (simp add: handleTriggerEvent.simps [of oks s])
  qed
qed

lemma pop_triggers_streaming:
  assumes "streaming chn src cl cs L s"
  shows "\<exists>s'. pop_triggers oks s = Inr s' \<and> streaming chn src cl cs L s' \<and> follows s s' \<and> (\<forall>i. gop_of s' i = gop_of s i) \<and>
    length (triggerEvents s') \<le> length (triggerEvents s)"
  using assms
proof (induction oks arbitrary: s)
  case (Cons ok oks)
  obtain s1 where s1: "pop_trigger ok s = Inr s1" "streaming chn src cl cs L s1" "follows s s1" "\<forall>i. gop_of s1 i = gop_of s i"
      "length (triggerEvents s1) \<le> length (triggerEvents s)"
    using pop_trigger_streaming [OF Cons.prems] by blast
  obtain s2 where s2: "pop_triggers oks s1 = Inr s2" "streaming chn src cl cs L s2" "follows s1 s2" "\<forall>i. gop_of s2 i = gop_of s1 i"
      "length (triggerEvents s2) \<le> length (triggerEvents s1)"
    using Cons.IH [OF s1(2)] by blast
  then show ?case using s1 follows_trans [OF s1(3) s2(3)] by simp
qed simp

lemma scheduler_turns_streaming:
  assumes "streaming chn src cl cs L s"
  shows "\<exists>s'. scheduler_turns s = Inr s' \<and> streaming chn src cl cs L s' \<and> follows s s' \<and> (\<forall>i. gop_of s' i = gop_of s i) \<and>
    length (triggerEvents s') \<le> length (triggerEvents s)"
proof (cases "ms_schedule s")
  case (Cons oks rest)
  let ?s = "s\<lparr>ms_schedule := rest\<rparr>"
  have "streaming chn src cl cs L ?s" using assms by (simp add: streaming_def)
  then show ?thesis using pop_triggers_streaming [of chn src cl cs L ?s oks] Cons by (simp add: scheduler_turns_def follows_def)
qed (use assms in \<open>simp add: scheduler_turns_def\<close>)

subsection \<open>Pushing a packet\<close>

text \<open>The packet \<open>t\<close> is queued for client \<open>i\<close>, or left out because a copy from the cache is pushed and the client has a key frame.\<close>

definition queued :: "bool \<Rightarrow> sent_packet \<Rightarrow> nat \<Rightarrow> MediaSession \<Rightarrow> MediaSession \<Rightarrow> sent_packet list \<Rightarrow> sent_packet list \<Rightarrow> bool" where
  "queued gop t i s s' ts ts' \<longleftrightarrow> ts' = ts @ [t] \<and> \<not> (gop \<and> (gop_of s i \<or> idr_of s i)) \<and> gop_of s' i = (gop_of s i \<or> gop \<and> snd (snd t))"

definition left_out :: "bool \<Rightarrow> nat \<Rightarrow> MediaSession \<Rightarrow> MediaSession \<Rightarrow> sent_packet list \<Rightarrow> sent_packet list \<Rightarrow> bool" where
  "left_out gop i s s' ts ts' \<longleftrightarrow> gop \<and> ts' = ts \<and> gop_of s' i = gop_of s i \<and> (gop_of s i \<or> idr_of s' i)"

lemma streaming_open: "streaming chn src cl cs L s \<Longrightarrow> i \<in> snd ` set cl \<Longrightarrow> \<not> rc_isClosed (connections s ! i) \<and> i < length (connections s)"
  using served_playing [of chn "cs ! i" "L i" "connections s ! i"] by (fastforce simp: streaming_def playing_def)

lemma streaming_flag:
  assumes "streaming chn src cl cs L s"
  shows "streaming chn src cl cs L (s\<lparr>connections := (connections s)[i := (connections s ! i)\<lparr>hasGOPFrame := b\<rparr>]\<rparr>)"
proof -
  let ?c = "(connections s)[i := (connections s ! i)\<lparr>hasGOPFrame := b\<rparr>]"
  have "served chn c0 ts (?c ! j) mem es" if "served chn c0 ts (connections s ! j) mem es" for c0 ts j mem es
    using that served_flag [of chn c0 ts "connections s ! i" mem es b] by (cases "j = i"; cases "i < length (connections s)") (simp_all add: list_update_beyond)
  then show ?thesis using assms by (simp add: streaming_def)
qed

lemma streaming_enqueue:
  assumes "streaming chn src cl cs L s" "i \<in> snd ` set cl" "stands_for chn (packetData s) (i, x) t"
  shows "streaming chn src cl cs (L(i := L i @ [t])) (s\<lparr>triggerEvents := triggerEvents s @ [(i, x)]\<rparr>)"
  using assms served_enqueue [OF _ assms(3)] by (auto simp: streaming_def)

lemma sendRtpPacket_streaming:
  assumes "streaming chn src cl cs L s" "i \<in> snd ` set cl" "stands_for chn (packetData s) (i, chn, a, pkt) t"
    "length (triggerEvents s) < kMaxTriggetEvents"
  shows "\<exists>s' L'. sendRtpPacket i chn a pkt gop s = Inr (0, s') \<and> streaming chn src cl cs L' s' \<and> follows s s' \<and>
    length (triggerEvents s') \<le> Suc (length (triggerEvents s)) \<and> (\<forall>j. j \<noteq> i \<longrightarrow> L' j = L j \<and> gop_of s' j = gop_of s j) \<and>
    (queued gop t i s s' (L i) (L' i) \<or> left_out gop i s s' (L i) (L' i))"
proof (cases "gop \<and> (gop_of s i \<or> idr_of s i)")
  case True
  then show ?thesis using assms(1,2) streaming_open
    by (intro exI [of _ s] exI [of _ L]) (auto simp: sendRtpPacket_def left_out_def)
next
  case False
  let ?b = "gop \<and> pkt_last pkt \<noteq> 0"
  let ?s = "if ?b then s\<lparr>connections := (connections s)[i := (connections s ! i)\<lparr>hasGOPFrame := True\<rparr>]\<rparr> else s"
  have b: "pkt_last pkt \<noteq> 0 \<longleftrightarrow> snd (snd t)" using assms(3) by (cases t) (auto simp: stands_for_def pkt_for_def)
  have i: "\<not> rc_isClosed (connections s ! i)" "i < length (connections s)" using streaming_open [OF assms(1,2)] by simp_all
  have st: "streaming chn src cl cs L ?s" using assms(1) streaming_flag [OF assms(1)] by simp
  obtain s1 where s1: "scheduler_turns ?s = Inr s1" "streaming chn src cl cs L s1" "follows ?s s1" "\<forall>j. gop_of s1 j = gop_of ?s j"
      "length (triggerEvents s1) \<le> length (triggerEvents ?s)"
    using scheduler_turns_streaming [OF st] by blast
  let ?s2 = "s1\<lparr>triggerEvents := triggerEvents s1 @ [(i, chn, a, pkt)]\<rparr>"
  have fs: "follows s ?s" using i(2) by (auto simp: follows_def nth_list_update)
  have "follows s1 ?s2" by (simp add: follows_def)
  then have f: "follows s ?s2" using follows_trans [OF fs s1(3)] follows_trans by blast
  have len: "length (triggerEvents ?s) = length (triggerEvents s)" by simp
  have ev: "sendRtpPacket i chn a pkt gop s = Inr (0, ?s2)"
    using s1(1,5) len assms(4) False i(1) unfolding sendRtpPacket_def Let_def by (auto simp: addTriggerEvent_def)
  have "stands_for chn (packetData s1) (i, chn, a, pkt) t" using assms(3) fs s1(3) unfolding follows_def by blast
  from streaming_enqueue [OF s1(2) assms(2) this] have "streaming chn src cl cs (L(i := L i @ [t])) ?s2" .
  moreover have "queued gop t i s ?s2 (L i) (L i @ [t])" using s1(4) i(2) b False by (auto simp: queued_def)
  moreover have "gop_of ?s2 j = gop_of s j" if "j \<noteq> i" for j using s1(4) that by simp
  ultimately show ?thesis using ev f s1(5) len by (intro exI [of _ ?s2] exI [of _ "L(i := L i @ [t])"]) simp
qed

text \<open>The same for every client in \<open>is\<close>.\<close>

definition served_all :: "bool \<Rightarrow> sent_packet \<Rightarrow> nat set \<Rightarrow> MediaSession \<Rightarrow> MediaSession \<Rightarrow> (nat \<Rightarrow> sent_packet list) \<Rightarrow> (nat \<Rightarrow> sent_packet list) \<Rightarrow> bool" where
  "served_all gop t A s s' L L' \<longleftrightarrow>
     (\<forall>j \<in> A. queued gop t j s s' (L j) (L' j) \<or> left_out gop j s s' (L j) (L' j)) \<and>
     (\<forall>j. j \<notin> A \<longrightarrow> L' j = L j \<and> gop_of s' j = gop_of s j)"

lemma served_before:
  assumes "follows s s1" "gop_of s1 j = gop_of s j"
  shows "queued gop t j s1 s' ts ts' \<Longrightarrow> queued gop t j s s' ts ts'" "left_out gop j s1 s' ts ts' \<Longrightarrow> left_out gop j s s' ts ts'"
  using assms by (auto simp: queued_def left_out_def follows_def)

lemma served_after:
  assumes "follows s1 s'" "gop_of s' j = gop_of s1 j"
  shows "queued gop t j s s1 ts ts' \<Longrightarrow> queued gop t j s s' ts ts'" "left_out gop j s s1 ts ts' \<Longrightarrow> left_out gop j s s' ts ts'"
  using assms by (auto simp: queued_def left_out_def follows_def)

lemma served_all_before:
  assumes "follows s s1" "\<forall>j. gop_of s1 j = gop_of s j" "served_all gop t A s1 s' L L'"
  shows "served_all gop t A s s' L L'"
  using assms(2,3) served_before [OF assms(1)] unfolding served_all_def by metis

lemma served_all_insert:
  assumes "served_all gop t {i} s s1 L L1" "served_all gop t A s1 s' L1 L'" "follows s s1" "follows s1 s'" "i \<notin> A"
  shows "served_all gop t (insert i A) s s' L L'"
  unfolding served_all_def
proof (intro conjI ballI allI impI)
  fix j assume "j \<in> insert i A"
  then consider "j = i" | "j \<in> A" "j \<noteq> i" by blast
  then show "queued gop t j s s' (L j) (L' j) \<or> left_out gop j s s' (L j) (L' j)"
  proof cases
    case 1
    then have "gop_of s' j = gop_of s1 j" "L' j = L1 j" using assms(2,5) by (auto simp: served_all_def)
    then show ?thesis using assms(1) 1 served_after [OF assms(4), of j] unfolding served_all_def by (metis singletonI)
  next
    case 2
    then have "gop_of s1 j = gop_of s j" "L1 j = L j" using assms(1) by (auto simp: served_all_def)
    then show ?thesis using assms(2) 2 served_before [OF assms(3), of j] unfolding served_all_def by metis
  qed
qed (use assms(1,2) in \<open>auto simp: served_all_def\<close>)

lemma to_clients_streaming:
  assumes "streaming chn src cl cs L s" "distinct is" "set is \<subseteq> snd ` set cl" "stands_for chn (packetData s) (0, chn, a, pkt) t"
    "length (triggerEvents s) + length is \<le> kMaxTriggetEvents"
  shows "\<exists>n s' L'. to_clients is chn a pkt s = Inr (n, s') \<and> streaming chn src cl cs L' s' \<and> follows s s' \<and>
    length (triggerEvents s') \<le> length (triggerEvents s) + length is \<and> served_all (gopCacheEnabled s) t (set is) s s' L L' \<and>
    (n = 0 \<longrightarrow> (\<forall>j \<in> set is. left_out (gopCacheEnabled s) j s s' (L j) (L' j)))"
  using assms
proof (induction "is" arbitrary: s L)
  case Nil
  then show ?case by (intro exI [of _ 0] exI [of _ s] exI [of _ L]) (simp add: served_all_def)
next
  case (Cons i "is")
  let ?gop = "gopCacheEnabled s"
  obtain s1 where s1: "scheduler_turns s = Inr s1" "streaming chn src cl cs L s1" "follows s s1" "\<forall>j. gop_of s1 j = gop_of s j"
      "length (triggerEvents s1) \<le> length (triggerEvents s)"
    using scheduler_turns_streaming [OF Cons.prems(1)] by blast
  have g1: "gopCacheEnabled s1 = ?gop" and d1: "stands_for chn (packetData s1) (0, chn, a, pkt) t"
    using s1(3) Cons.prems(4) unfolding follows_def by blast+
  show ?case
  proof (cases "?gop \<and> (gop_of s1 i \<or> idr_of s1 i)")
    case True
    have "length (triggerEvents s1) + length is \<le> kMaxTriggetEvents" using s1(5) Cons.prems(5) by simp
    then obtain n s' L' where r: "to_clients is chn a pkt s1 = Inr (n, s')" "streaming chn src cl cs L' s'" "follows s1 s'"
        "length (triggerEvents s') \<le> length (triggerEvents s1) + length is" "served_all ?gop t (set is) s1 s' L L'"
        "n = 0 \<longrightarrow> (\<forall>j \<in> set is. left_out ?gop j s1 s' (L j) (L' j))"
      using Cons.IH [OF s1(2) _ _ d1] Cons.prems(2,3) g1 by auto
    have lo: "left_out ?gop i s s' (L i) (L' i)" using r(3,5) s1(4) True Cons.prems(2) unfolding left_out_def served_all_def follows_def by auto
    have "left_out ?gop j s s' (L j) (L' j)" if "n = 0" "j \<in> set is" for j using r(6) that s1(4) by (simp add: left_out_def)
    moreover have "served_all ?gop t (set (i # is)) s s' L L'"
      using served_all_before [OF s1(3,4) r(5)] lo unfolding served_all_def by auto
    ultimately show ?thesis using r s1 True g1 lo follows_trans [OF s1(3) r(3)]
      by (intro exI [of _ n] exI [of _ s'] exI [of _ L']) auto
  next
    case False
    obtain s2 where s2: "scheduler_turns s1 = Inr s2" "streaming chn src cl cs L s2" "follows s1 s2" "\<forall>j. gop_of s2 j = gop_of s1 j"
        "length (triggerEvents s2) \<le> length (triggerEvents s1)"
      using scheduler_turns_streaming [OF s1(2)] by blast
    have g2: "gopCacheEnabled s2 = ?gop" and d2: "stands_for chn (packetData s2) (i, chn, a, pkt) t"
      using s2(3) g1 d1 stands_for_any unfolding follows_def by blast+
    obtain s3 L3 where s3: "sendRtpPacket i chn a pkt ?gop s2 = Inr (0, s3)" "streaming chn src cl cs L3 s3" "follows s2 s3"
        "length (triggerEvents s3) \<le> Suc (length (triggerEvents s2))" "\<forall>j. j \<noteq> i \<longrightarrow> L3 j = L j \<and> gop_of s3 j = gop_of s2 j"
        "queued ?gop t i s2 s3 (L i) (L3 i) \<or> left_out ?gop i s2 s3 (L i) (L3 i)"
      using sendRtpPacket_streaming [OF s2(2) _ d2, of ?gop] Cons.prems(3,5) s1(5) s2(5) by auto
    have g3: "gopCacheEnabled s3 = ?gop" and d3: "stands_for chn (packetData s3) (0, chn, a, pkt) t"
      using s3(3) g2 d2 stands_for_any unfolding follows_def by blast+
    have "length (triggerEvents s3) + length is \<le> kMaxTriggetEvents" using s1(5) s2(5) s3(4) Cons.prems(5) by simp
    then obtain n s' L' where r: "to_clients is chn a pkt s3 = Inr (n, s')" "streaming chn src cl cs L' s'" "follows s3 s'"
        "length (triggerEvents s') \<le> length (triggerEvents s3) + length is" "served_all ?gop t (set is) s3 s' L3 L'"
      using Cons.IH [OF s3(2) _ _ d3] Cons.prems(2,3) g3 by auto
    have one: "served_all ?gop t {i} s2 s3 L L3" using s3(5,6) by (auto simp: served_all_def)
    have s12: "follows s s2" "\<forall>j. gop_of s2 j = gop_of s j" using follows_trans [OF s1(3) s2(3)] s1(4) s2(4) by simp_all
    have all: "served_all ?gop t (set (i # is)) s s' L L'"
      using served_all_before [OF s12 served_all_insert [OF one r(5) s3(3) r(3)]] Cons.prems(2) by simp
    have "to_clients (i # is) chn a pkt s = Inr (n + 1, s')"
      using s1(1) s2(1) s3(1) r(1) False g1 g2 s3(2) by (auto simp: streaming_def)
    then show ?thesis using r(2,4) all s1(5) s2(5) s3(4) follows_trans [OF s12(1) follows_trans [OF s3(3) r(3)]]
      by (intro exI [of _ "n + 1"] exI [of _ s'] exI [of _ L']) simp
  qed
qed

lemma callback_streaming:
  assumes "streaming chn src cl cs L s" "length (triggerEvents s) + length cl \<le> kMaxTriggetEvents" "length raw = 1600" "length p \<le> 1420"
  shows "\<exists>b s' L'. sendFrameCallback chn (packet_of raw f p final) (Inr s) = (b, Inr s') \<and> streaming chn src cl cs L' s' \<and> follows s s' \<and>
    length (triggerEvents s') \<le> length (triggerEvents s) + length cl \<and>
    served_all (gopCacheEnabled s) (f, p, final) (snd ` set cl) s s' L L' \<and>
    (\<not> b \<longrightarrow> (\<forall>j \<in> snd ` set cl. left_out (gopCacheEnabled s) j s s' (L j) (L' j)))"
proof -
  let ?is = "rev (map snd cl)" and ?a = "length (packetData s)" and ?pkt = "packet_of raw f p final" and ?gop = "gopCacheEnabled s"
  obtain d where d: "?pkt = pkt_for d f p final" "carries p d" using packet_of_carries [OF assms(3,4)] by blast
  let ?s = "s\<lparr>packetData := packetData s @ [pkt_data ?pkt]\<rparr>"
  have new: "stands_for chn (packetData ?s) (0, chn, ?a, ?pkt) (f, p, final)" using d by (auto simp: stands_for_def pkt_for_def)
  have fs: "follows s ?s" using stands_for_append by (auto simp: follows_def)
  have st: "streaming chn src cl cs L ?s" using assms(1) served_mem [OF _ stands_for_append] by (auto simp: streaming_def)
  obtain n s' L' where r: "to_clients ?is chn ?a ?pkt ?s = Inr (n, s')" "streaming chn src cl cs L' s'" "follows ?s s'"
      "length (triggerEvents s') \<le> length (triggerEvents s) + length cl" "served_all ?gop (f, p, final) (snd ` set cl) ?s s' L L'"
      "n = 0 \<longrightarrow> (\<forall>j \<in> snd ` set cl. left_out ?gop j ?s s' (L j) (L' j))"
    using to_clients_streaming [OF st _ _ new, of ?is] assms(1,2) by (auto simp: streaming_def)
  have g: "gopCacheEnabled s' = ?gop" using r(3) by (simp add: follows_def)
  have "sendFrameCallback chn ?pkt (Inr s) = (\<not> (?gop \<and> n = 0), Inr s')"
    using r(1) g assms(1) by (simp add: sendFrameCallback_def streaming_def)
  moreover have "served_all ?gop (f, p, final) (snd ` set cl) s s' L L'" using served_all_before [OF fs _ r(5)] by simp
  moreover have "left_out ?gop j s s' (L j) (L' j)" if "n = 0" "j \<in> snd ` set cl" for j using r(6) that by (auto simp: left_out_def)
  ultimately show ?thesis using r(2,4) follows_trans [OF fs r(3)] by (intro exI [of _ "\<not> (?gop \<and> n = 0)"] exI [of _ s'] exI [of _ L']) blast
qed

subsection \<open>Pushing a frame\<close>

text \<open>Of the packets \<open>ms\<close> the first ones are queued for client \<open>i\<close>: all of them, unless they are a copy from the cache for a client that has a key frame.\<close>

definition copied :: "bool \<Rightarrow> nat \<Rightarrow> MediaSession \<Rightarrow> MediaSession \<Rightarrow> sent_packet list \<Rightarrow> sent_packet list \<Rightarrow> sent_packet list \<Rightarrow> bool" where
  "copied gop i s s' ms ts ts' \<longleftrightarrow> (\<exists>k \<le> length ms. ts' = ts @ take k ms \<and> (k = length ms \<or> gop \<and> (gop_of s i \<or> idr_of s' i)) \<and>
     (gop \<and> (gop_of s i \<or> idr_of s i) \<longrightarrow> k = 0)) \<and> (\<not> gop \<longrightarrow> gop_of s' i = gop_of s i)"

lemma copied_queued:
  assumes "queued gop t i s s1 ts ts1" "copied gop i s1 s' ms ts1 ts'" "snd (snd t) \<longleftrightarrow> ms = []"
  shows "copied gop i s s' (t # ms) ts ts'"
proof -
  have q: "ts1 = ts @ [t]" "\<not> (gop \<and> (gop_of s i \<or> idr_of s i))" "gop_of s1 i = (gop_of s i \<or> gop \<and> ms = [])"
    using assms(1,3) by (auto simp: queued_def)
  obtain k where k: "k \<le> length ms" "ts' = ts1 @ take k ms" "k = length ms \<or> gop \<and> (gop_of s1 i \<or> idr_of s' i)" "\<not> gop \<longrightarrow> gop_of s' i = gop_of s1 i"
    using assms(2) by (auto simp: copied_def)
  then show ?thesis using q unfolding copied_def by (intro conjI exI [of _ "Suc k"]) auto
qed

lemma copied_left_out:
  assumes "left_out gop i s s1 ts ts1" "copied gop i s1 s' ms ts1 ts'" "follows s1 s'"
  shows "copied gop i s s' (t # ms) ts ts'"
  using assms unfolding left_out_def copied_def follows_def by (intro conjI exI [of _ 0]) auto

lemma left_out_copied: "left_out gop i s s' ts ts' \<Longrightarrow> copied gop i s s' ms ts ts'"
  by (auto simp: left_out_def copied_def)

lemma length_marked [simp]: "length (marked f ps) = length ps"
  by (induction ps) simp_all

lemma marked_Nil [simp]: "marked f ps = [] \<longleftrightarrow> ps = []"
  by (cases ps) simp_all

lemma send_all_streaming:
  assumes "streaming chn src cl cs L s" "length (triggerEvents s) + length cl * length ps \<le> kMaxTriggetEvents" "length raw = 1600"
    "\<forall>p \<in> set ps. length p \<le> 1420"
  shows "\<exists>b s' L'. send_all (Some (sendFrameCallback chn)) raw f ps (Inr s) = (b, Inr s') \<and> streaming chn src cl cs L' s' \<and> follows s s' \<and>
    length (triggerEvents s') \<le> length (triggerEvents s) + length cl * length ps \<and>
    (\<forall>j \<in> snd ` set cl. copied (gopCacheEnabled s) j s s' (marked f ps) (L j) (L' j))"
  using assms(1,2,4)
proof (induction ps arbitrary: L s)
  case Nil
  then show ?case by (intro exI [of _ True] exI [of _ s] exI [of _ L]) (simp add: copied_def)
next
  case (Cons p ps)
  have room: "length (triggerEvents s) + length cl \<le> kMaxTriggetEvents" "length p \<le> 1420" using Cons.prems(2,3) by simp_all
  obtain b s1 L1 where s1: "sendFrameCallback chn (packet_of raw f p (ps = [])) (Inr s) = (b, Inr s1)" "streaming chn src cl cs L1 s1" "follows s s1"
      "length (triggerEvents s1) \<le> length (triggerEvents s) + length cl" "served_all (gopCacheEnabled s) (f, p, ps = []) (snd ` set cl) s s1 L L1"
      "\<not> b \<longrightarrow> (\<forall>j \<in> snd ` set cl. left_out (gopCacheEnabled s) j s s1 (L j) (L1 j))"
    using callback_streaming [OF Cons.prems(1) room(1) assms(3) room(2)] by blast
  show ?case
  proof (cases b)
    case False
    then show ?thesis using s1 left_out_copied
      by (intro exI [of _ False] exI [of _ s1] exI [of _ L1]) (auto simp: sendFrame_def simp del: marked.simps)
  next
    case True
    have g: "gopCacheEnabled s1 = gopCacheEnabled s" using s1(3) by (simp add: follows_def)
    obtain b' s' L' where r: "send_all (Some (sendFrameCallback chn)) raw f ps (Inr s1) = (b', Inr s')" "streaming chn src cl cs L' s'" "follows s1 s'"
        "length (triggerEvents s') \<le> length (triggerEvents s1) + length cl * length ps"
        "\<forall>j \<in> snd ` set cl. copied (gopCacheEnabled s) j s1 s' (marked f ps) (L1 j) (L' j)"
      using Cons.IH [OF s1(2)] Cons.prems(2,3) s1(4) g by auto
    have "copied (gopCacheEnabled s) j s s' (marked f (p # ps)) (L j) (L' j)" if "j \<in> snd ` set cl" for j
      using s1(5) r(3,5) that copied_queued [of _ "(f, p, ps = [])" j s s1 _ _ s' "marked f ps"] copied_left_out unfolding served_all_def by fastforce
    then show ?thesis using r s1 True follows_trans [OF s1(3) r(3)]
      by (intro exI [of _ b'] exI [of _ s'] exI [of _ L']) (simp add: sendFrame_def del: marked.simps)
  qed
qed

lemma stamp_simps [simp]: "unit_of src (stamp_for src now f) = unit_of src f" "fr_type (stamp_for src now f) = fr_type f"
  "key_frame (stamp_for src now f) = key_frame f"
  by (simp_all add: stamp_for_def unit_of_def key_frame_def)

text \<open>The frame in the cache after \<open>f\<close>, and the copy of it that is due for new clients, with a time stamp of its own.\<close>

definition video :: "MediaSource \<Rightarrow> bool" where
  "video src \<longleftrightarrow> src = H264Source \<or> src = H265Source"

definition cached :: "MediaSource \<Rightarrow> AVFrame \<Rightarrow> AVFrame \<Rightarrow> AVFrame" where
  "cached src f cache = (if video src \<and> fr_type f = VIDEO_FRAME_I then f\<lparr>fr_type := kGOPCache\<rparr> else cache)"

definition copy_due :: "MediaSource \<Rightarrow> u32 \<Rightarrow> bool \<Rightarrow> AVFrame \<Rightarrow> AVFrame list" where
  "copy_due src now new cache = (if video src \<and> new \<and> fr_size cache > 0 then [cache\<lparr>fr_timestamp := now\<rparr>] else [])"

definition good_cache :: "MediaSource \<Rightarrow> AVFrame \<Rightarrow> bool" where
  "good_cache src cache \<longleftrightarrow> (video src \<and> fr_size cache > 0 \<longrightarrow> good_frame src cache \<and> fr_type cache = kGOPCache)"

lemma good_frame_cong: "fr_buffer f = fr_buffer g \<Longrightarrow> fr_size f = fr_size g \<Longrightarrow> good_frame src f = good_frame src g"
  by (simp add: good_frame_def well_sized_def unit_of_def frame_of_def split: MediaSource.split)

lemma good_cached: "good_frame src f \<Longrightarrow> good_cache src cache \<Longrightarrow> good_cache src (cached src f cache)"
  using good_frame_cong [of f "f\<lparr>fr_type := kGOPCache\<rparr>" src] by (auto simp: good_cache_def cached_def)

lemma copy_due_cases:
  assumes "good_cache src cache"
  obtains "copy_due src now new cache = []" "\<not> (video src \<and> new \<and> fr_size cache > 0)"
  | g where "copy_due src now new cache = [g]" "video src" "new" "fr_size cache > 0" "g = cache\<lparr>fr_timestamp := now\<rparr>" "good_frame src g"
      "fr_type g = kGOPCache" "stamp_for src now g = g"
proof (cases "video src \<and> new \<and> fr_size cache > 0")
  case True
  have "good_frame src (cache\<lparr>fr_timestamp := now\<rparr>)" using assms True good_frame_cong [of cache "cache\<lparr>fr_timestamp := now\<rparr>" src] by (simp add: good_cache_def)
  then show ?thesis using that(2) True assms by (simp add: copy_due_def good_cache_def stamp_for_def stamped_def)
qed (use that(1) in \<open>auto simp: copy_due_def\<close>)

text \<open>The packets of a frame, or of the copy, go to the clients.\<close>

lemma source_streaming:
  assumes "streaming chn src cl cs L s" "length (triggerEvents s) + length cl * length (packets src f) \<le> kMaxTriggetEvents"
    "length raw = 1600" "good_frame src f"
  shows "\<exists>b s' L'. source_handleFrame src raw now (Some (sendFrameCallback chn)) f (Inr s) = Inr (b, Inr s') \<and> streaming chn src cl cs L' s' \<and>
    follows s s' \<and> length (triggerEvents s') \<le> length (triggerEvents s) + length cl * length (packets src f) \<and>
    (\<forall>j \<in> snd ` set cl. copied (gopCacheEnabled s) j s s' (packets src (stamp_for src now f)) (L j) (L' j))"
proof -
  let ?f = "stamp_for src now f" and ?ps = "payloads_of src (unit_of src f)"
  have "\<forall>p \<in> set ?ps. length p \<le> 1420" using assms(4) source.cut_bounded by (auto simp: good_frame_def)
  then obtain b s' L' where s': "send_all (Some (sendFrameCallback chn)) raw ?f ?ps (Inr s) = (b, Inr s')" "streaming chn src cl cs L' s'" "follows s s'"
      "length (triggerEvents s') \<le> length (triggerEvents s) + length cl * length ?ps"
      "\<forall>j \<in> snd ` set cl. copied (gopCacheEnabled s) j s s' (marked ?f ?ps) (L j) (L' j)"
    using send_all_streaming [OF assms(1) _ assms(3), of ?ps ?f] assms(2) by (auto simp: packets_def)
  obtain b' where "source_handleFrame src raw now (Some (sendFrameCallback chn)) f (Inr s) = Inr (b', Inr s')"
    using source_sends [OF assms(3,4), of now "Some (sendFrameCallback chn)" "Inr s"] s'(1) by (metis snd_conv)
  then show ?thesis using s' by (auto simp: packets_def)
qed

lemma copied_frame: "copied False j s s' ms ts ts' \<longleftrightarrow> ts' = ts @ ms \<and> gop_of s' j = gop_of s j"
  by (auto simp: copied_def)

text \<open>The state with a frame in the cache, and the one for the time of the copy.\<close>

lemma pushFrame_streaming:
  assumes "streaming chn src cl cs L s" "cl \<noteq> []" "\<not> gopCacheEnabled s" "good_cache src (gopCache s)" "length raw = 1600" "good_frame src f"
    "copy = copy_due src now (hasNewClient s) (cached src f (gopCache s))"
    "length (triggerEvents s) + length cl * (length (packets src f) + length (concat (map (packets src) copy))) \<le> kMaxTriggetEvents"
  shows "\<exists>s' L'. pushFrame raw now chn f s = Inr (True, s') \<and> streaming chn src cl cs L' s' \<and> \<not> gopCacheEnabled s' \<and> good_cache src (gopCache s') \<and>
    hasNewClient s' = (hasNewClient s \<and> copy = []) \<and> (copy = [] \<longrightarrow> gopCache s' = cached src f (gopCache s)) \<and>
    length (triggerEvents s') \<le> length (triggerEvents s) + length cl * (length (packets src f) + length (concat (map (packets src) copy))) \<and>
    (\<forall>j \<in> snd ` set cl. (\<exists>k \<le> length (concat (map (packets src) copy)).
      L' j = L j @ packets src (stamp_for src now f) @ take k (concat (map (packets src) copy)) \<and>
      (k = length (concat (map (packets src) copy)) \<or> gop_of s j \<or> idr_of s' j)) \<and> (copy = [] \<longrightarrow> gop_of s' j = gop_of s j))"
proof -
  let ?cb = "Some (sendFrameCallback chn)" and ?c = "cached src f (gopCache s)"
  have room: "length (triggerEvents s) + length cl * length (packets src f) \<le> kMaxTriggetEvents" using assms(8) by (simp add: add_mult_distrib2)
  have s: "\<not> ms_isMulticast s" "mediaSources s ! chn = Some src" "ms_clients s = cl" using assms(1) by (simp_all add: streaming_def)
  obtain b s1 L1 where s1: "source_handleFrame src raw now ?cb f (Inr s) = Inr (b, Inr s1)" "streaming chn src cl cs L1 s1" "follows s s1"
      "length (triggerEvents s1) \<le> length (triggerEvents s) + length cl * length (packets src f)"
      "\<forall>j \<in> snd ` set cl. L1 j = L j @ packets src (stamp_for src now f) \<and> gop_of s1 j = gop_of s j"
    using source_streaming [OF assms(1) room assms(5,6), of now] assms(3) by (auto simp: copied_frame)
  have u1: "hasNewClient s1 = hasNewClient s" "gopCache s1 = gopCache s" "\<not> gopCacheEnabled s1" using s1(3) assms(3) by (simp_all add: follows_def)
  have m1: "\<not> ms_isMulticast s1" using s1(2) by (simp add: streaming_def)
  have gc: "good_cache src ?c" using good_cached [OF assms(6,4)] .
  have h: "pushFrame raw now chn f s = (let s = s1\<lparr>gopCache := ?c\<rparr> in
      if copy \<noteq> [] then
        let s = s\<lparr>hasNewClient := False, gopCacheEnabled := True, gopCache := hd copy\<rparr> in
        bind_result (source_handleFrame src raw now ?cb (gopCache s) (Inr s)) (\<lambda>(_, st). bind_result st (\<lambda>s. Inr (True, s\<lparr>gopCacheEnabled := False\<rparr>)))
      else Inr (True, s))"
    using s s1(1) u1 m1 assms(2) unfolding pushFrame_def MediaSession_handleFrame_def assms(7)
    by (auto simp: cached_def copy_due_def video_def Let_def)
  from gc consider (none) "copy = []" | (one) g where "copy = [g]" "good_frame src g" "stamp_for src now g = g" "fr_type g = kGOPCache"
    unfolding assms(7) by (rule copy_due_cases [where now = now and new = "hasNewClient s"]) auto
  then show ?thesis
  proof cases
    case none
    let ?s = "s1\<lparr>gopCache := ?c\<rparr>"
    have "pushFrame raw now chn f s = Inr (True, ?s)" using h none by simp
    moreover have "streaming chn src cl cs L1 ?s" using s1(2) by (simp add: streaming_def)
    ultimately show ?thesis using none s1(4,5) u1 gc by (intro exI [of _ ?s] exI [of _ L1]) simp
  next
    case one
    let ?s = "s1\<lparr>hasNewClient := False, gopCacheEnabled := True, gopCache := g\<rparr>"
    have st: "streaming chn src cl cs L1 ?s" using s1(2) by (simp add: streaming_def)
    have "length (triggerEvents ?s) + length cl * length (packets src g) \<le> kMaxTriggetEvents"
      using s1(4) assms(8) one(1) by (simp add: add_mult_distrib2)
    then obtain b' s2 L2 where s2: "source_handleFrame src raw now ?cb g (Inr ?s) = Inr (b', Inr s2)" "streaming chn src cl cs L2 s2" "follows ?s s2"
        "length (triggerEvents s2) \<le> length (triggerEvents s1) + length cl * length (packets src g)"
        "\<forall>j \<in> snd ` set cl. copied True j ?s s2 (packets src g) (L1 j) (L2 j)"
      using source_streaming [OF st _ assms(5) one(2), of now] one(3) by auto
    let ?s2 = "s2\<lparr>gopCacheEnabled := False\<rparr>"
    have "pushFrame raw now chn f s = Inr (True, ?s2)" using h one(1) s2(1) by simp
    moreover have "streaming chn src cl cs L2 ?s2" using s2(2) by (simp add: streaming_def)
    moreover have "gopCache ?s2 = g" "\<not> hasNewClient ?s2" using s2(3) by (simp_all add: follows_def)
    moreover have "\<exists>k \<le> length (packets src g). L2 j = L j @ packets src (stamp_for src now f) @ take k (packets src g) \<and>
        (k = length (packets src g) \<or> gop_of s j \<or> idr_of ?s2 j)" if "j \<in> snd ` set cl" for j
      using s2(5) s1(5) that unfolding copied_def by fastforce
    ultimately show ?thesis using one s1(4) s2(4) by (intro exI [of _ ?s2] exI [of _ L2]) (simp add: good_cache_def add_mult_distrib2)
  qed
qed

subsection \<open>Any interleaving\<close>

definition pushed :: "MediaSource \<Rightarrow> action list \<Rightarrow> AVFrame list" where
  "pushed src acts = concat (map (\<lambda>act. case act of Frame raw now f \<Rightarrow> [stamp_for src now f] | Trigger _ \<Rightarrow> []) acts)"

text \<open>The frames up to the one after which the copy for new clients is due, the copy, and the frames after it.\<close>

primrec gop_plan :: "MediaSource \<Rightarrow> action list \<Rightarrow> bool \<Rightarrow> AVFrame \<Rightarrow> AVFrame list \<times> AVFrame list \<times> AVFrame list" where
  "gop_plan src [] new cache = ([], [], [])"
| "gop_plan src (act # acts) new cache = (case act of
     Trigger _ \<Rightarrow> gop_plan src acts new cache
   | Frame raw now f \<Rightarrow>
       let cache = cached src f cache; copy = copy_due src now new cache in
       if copy = [] then let (before, copy, after) = gop_plan src acts new cache in (stamp_for src now f # before, copy, after)
       else ([stamp_for src now f], copy, pushed src acts))"

definition sound_action :: "MediaSource \<Rightarrow> action \<Rightarrow> bool" where
  "sound_action src act = (case act of Frame raw now f \<Rightarrow> length raw = 1600 \<and> good_frame src f | Trigger _ \<Rightarrow> True)"

text \<open>The queue has room for the packets of every frame, and of the copy.\<close>

definition room_for :: "MediaSource \<Rightarrow> u32 \<Rightarrow> AVFrame \<Rightarrow> MediaSession \<Rightarrow> nat" where
  "room_for src now f s = length (ms_clients s) *
     (length (packets src f) + length (concat (map (packets src) (copy_due src now (hasNewClient s) (cached src f (gopCache s))))))"

primrec has_room :: "nat \<Rightarrow> MediaSource \<Rightarrow> action list \<Rightarrow> MediaSession \<Rightarrow> bool" where
  "has_room chn src [] s \<longleftrightarrow> True"
| "has_room chn src (act # acts) s \<longleftrightarrow> (case act of
     Frame raw now f \<Rightarrow> length (triggerEvents s) + room_for src now f s \<le> kMaxTriggetEvents \<and>
       (case pushFrame raw now chn f s of Inr (_, s') \<Rightarrow> has_room chn src acts s' | Inl _ \<Rightarrow> True)
   | Trigger ok \<Rightarrow> (case pop_trigger ok s of Inr s' \<Rightarrow> has_room chn src acts s' | Inl _ \<Rightarrow> True))"

lemma gop_plan_old: "gop_plan src acts False cache = (pushed src acts, [], [])"
  by (induction acts arbitrary: cache) (auto simp: pushed_def copy_due_def Let_def split: action.splits)

lemma gop_plan_pushed: "gop_plan src acts new cache = (before, copy, after) \<Longrightarrow> pushed src acts = before @ after"
  by (induction acts arbitrary: cache before) (auto simp: pushed_def Let_def split: action.splits if_splits prod.splits)

lemma gop_plan_copy:
  "gop_plan src acts new cache = (before, copy, after) \<Longrightarrow> good_cache src cache \<Longrightarrow> list_all (sound_action src) acts \<Longrightarrow>
    (\<forall>g \<in> set copy. good_frame src g \<and> fr_type g = kGOPCache) \<and> length copy \<le> 1"
proof (induction acts arbitrary: cache before)
  case (Cons act acts)
  show ?case
  proof (cases act)
    case (Frame raw now f)
    have gc: "good_cache src (cached src f cache)" using Cons.prems Frame by (intro good_cached) (simp_all add: sound_action_def)
    then show ?thesis
    proof (cases rule: copy_due_cases [where now = now and new = new])
      case 1
      then show ?thesis using Cons.IH [OF _ gc] Cons.prems Frame by (auto simp: Let_def split: prod.splits)
    next
      case (2 g)
      then have "copy = [g]" using Cons.prems(1) Frame by (simp add: Let_def)
      then show ?thesis using 2(6,7) by simp
    qed
  qed (use Cons in auto)
qed simp

text \<open>What is queued for a client, and sent when the queue is empty: a copy is broken off only if the client has a key frame.\<close>

definition logged :: "MediaSource \<Rightarrow> bool \<Rightarrow> RtpConnection \<Rightarrow> AVFrame list \<times> AVFrame list \<times> AVFrame list \<Rightarrow> sent_packet list \<Rightarrow> sent_packet list \<Rightarrow> bool" where
  "logged src gop c0 plan ts ts' \<longleftrightarrow> (case plan of (before, copy, after) \<Rightarrow>
     let A = concat (map (packets src) before); C = concat (map (packets src) copy) in
     \<exists>k \<le> length C. ts' = ts @ A @ take k C @ concat (map (packets src) after) \<and>
       (k = length C \<or> gop \<or> hasIDRFrame c0 \<or> (\<exists>t \<in> set (ts @ A). key_frame (fst t))))"

lemma logged_frame:
  assumes "logged src gop c0 (before, copy, after) (ts @ packets src f) ts'"
  shows "logged src gop c0 (f # before, copy, after) ts ts'"
  using assms by (simp add: logged_def Let_def)

lemma marked_fst: "t \<in> set (marked f ps) \<Longrightarrow> fst t = f"
  by (induction ps) auto

lemma packets_fst: "t \<in> set (packets src f) \<Longrightarrow> fst t = f"
  by (simp add: packets_def marked_fst)

lemma logged_copy:
  assumes "k \<le> length (packets src g)" "ts1 = ts @ packets src f @ take k (packets src g)"
    "k = length (packets src g) \<or> gop \<or> hasIDRFrame c0 \<or> (\<exists>t \<in> set ts1. key_frame (fst t))"
    "\<not> key_frame g" "ts' = ts1 @ concat (map (packets src) after)"
  shows "logged src gop c0 ([f], [g], after) ts ts'"
proof -
  have "\<not> key_frame (fst t)" if "t \<in> set (take k (packets src g))" for t using that assms(4) packets_fst by (metis in_set_takeD)
  then show ?thesis using assms unfolding logged_def by (auto simp: Let_def intro!: exI [of _ k])
qed

lemma copy_not_key: "fr_type g = kGOPCache \<Longrightarrow> \<not> key_frame g"
  by (simp add: key_frame_def)

lemma run_streaming:
  assumes "streaming chn src cl cs L s" "cl \<noteq> []" "\<not> gopCacheEnabled s" "good_cache src (gopCache s)" "list_all (sound_action src) acts" "has_room chn src acts s"
  shows "\<exists>s' L'. run_session chn acts s = Inr s' \<and> streaming chn src cl cs L' s' \<and>
    (\<forall>j \<in> snd ` set cl. logged src (gop_of s j) (cs ! j) (gop_plan src acts (hasNewClient s) (gopCache s)) (L j) (L' j))"
  using assms(1,3-)
proof (induction acts arbitrary: L s)
  case (Cons act acts)
  show ?case
  proof (cases act)
    case (Trigger ok)
    obtain s1 where s1: "pop_trigger ok s = Inr s1" "streaming chn src cl cs L s1" "follows s s1" "\<forall>i. gop_of s1 i = gop_of s i"
      using pop_trigger_streaming [OF Cons.prems(1)] by blast
    then show ?thesis using Cons.IH [OF s1(2)] Cons.prems Trigger by (auto simp: follows_def)
  next
    case (Frame raw now f)
    let ?c = "cached src f (gopCache s)" and ?f = "stamp_for src now f"
    define copy where "copy = copy_due src now (hasNewClient s) ?c"
    let ?C = "concat (map (packets src) copy)"
    have fr: "length raw = 1600" "good_frame src f" using Cons.prems(4) Frame by (simp_all add: sound_action_def)
    have "length (triggerEvents s) + length cl * (length (packets src f) + length ?C) \<le> kMaxTriggetEvents"
      using Cons.prems(1,5) Frame by (simp add: room_for_def copy_def streaming_def)
    then obtain s1 L1 where s1: "pushFrame raw now chn f s = Inr (True, s1)" "streaming chn src cl cs L1 s1" "\<not> gopCacheEnabled s1"
        "good_cache src (gopCache s1)" "hasNewClient s1 = (hasNewClient s \<and> copy = [])" "copy = [] \<longrightarrow> gopCache s1 = ?c"
        "\<forall>j \<in> snd ` set cl. (\<exists>k \<le> length ?C. L1 j = L j @ packets src ?f @ take k ?C \<and> (k = length ?C \<or> gop_of s j \<or> idr_of s1 j)) \<and>
          (copy = [] \<longrightarrow> gop_of s1 j = gop_of s j)"
      using pushFrame_streaming [OF Cons.prems(1) assms(2) Cons.prems(2,3) fr copy_def] by blast
    obtain s' L' where r: "run_session chn acts s1 = Inr s'" "streaming chn src cl cs L' s'"
        "\<forall>j \<in> snd ` set cl. logged src (gop_of s1 j) (cs ! j) (gop_plan src acts (hasNewClient s1) (gopCache s1)) (L1 j) (L' j)"
      using Cons.IH [OF s1(2-4)] Cons.prems(4,5) Frame s1(1) by auto
    have "logged src (gop_of s j) (cs ! j) (gop_plan src (act # acts) (hasNewClient s) (gopCache s)) (L j) (L' j)" if j: "j \<in> snd ` set cl" for j
    proof (cases rule: copy_due_cases [OF good_cached [OF fr(2) Cons.prems(3)], where now = now and new = "hasNewClient s"])
      case 1
      then have c: "copy = []" by (simp add: copy_def)
      obtain before cp after where pl: "gop_plan src acts (hasNewClient s) ?c = (before, cp, after)" by (cases "gop_plan src acts (hasNewClient s) ?c")
      have "L1 j = L j @ packets src ?f" "gop_of s1 j = gop_of s j" using s1(7) j c by auto
      then have "logged src (gop_of s j) (cs ! j) (before, cp, after) (L j @ packets src ?f) (L' j)"
        using bspec [OF r(3) j] s1(5,6) c pl by simp
      then show ?thesis using logged_frame 1 pl Frame by (simp add: Let_def)
    next
      case (2 g)
      then have c: "copy = [g]" by (simp add: copy_def)
      obtain k where k: "k \<le> length (packets src g)" "L1 j = L j @ packets src ?f @ take k (packets src g)"
          "k = length (packets src g) \<or> gop_of s j \<or> idr_of s1 j"
        using s1(7) j c by auto
      have "served chn (cs ! j) (L1 j) (connections s1 ! j) (packetData s1) (filter (\<lambda>e. fst e = j) (triggerEvents s1))"
        using s1(2) j unfolding streaming_def by blast
      then have "k = length (packets src g) \<or> gop_of s j \<or> hasIDRFrame (cs ! j) \<or> (\<exists>t \<in> set (L1 j). key_frame (fst t))"
        using k(3) served_IDR by blast
      moreover have "L' j = L1 j @ concat (map (packets src) (pushed src acts))"
        using r(3) j s1(5) c by (auto simp: gop_plan_old logged_def)
      ultimately have "logged src (gop_of s j) (cs ! j) ([?f], [g], pushed src acts) (L j) (L' j)"
        using logged_copy [OF k(1,2)] copy_not_key [OF 2(7)] by blast
      then show ?thesis using 2(1) Frame by (simp add: Let_def)
    qed
    then show ?thesis using r(1,2) s1(1) Frame by (intro exI [of _ s'] exI [of _ L']) simp
  qed
qed (auto simp: logged_def)

text \<open>There is room when all packets fit at once.\<close>

definition plan_size :: "MediaSource \<Rightarrow> AVFrame list \<times> AVFrame list \<times> AVFrame list \<Rightarrow> nat" where
  "plan_size src plan = (case plan of (before, copy, after) \<Rightarrow> length (concat (map (packets src) (before @ copy @ after))))"

lemma length_packets: "length (packets src (stamp_for src now f)) = length (packets src f)"
  by (simp add: packets_def)

lemma plan_size_step:
  assumes "copy = copy_due src now new (cached src f cache)"
  shows "length (packets src f) + length (concat (map (packets src) copy)) + plan_size src (gop_plan src acts (new \<and> copy = []) (cached src f cache)) =
    plan_size src (gop_plan src (Frame raw now f # acts) new cache)"
proof (cases "copy = []")
  case True
  obtain a b c where "gop_plan src acts new (cached src f cache) = (a, b, c)" by (cases "gop_plan src acts new (cached src f cache)")
  then show ?thesis using assms True by (simp add: plan_size_def Let_def length_packets)
next
  case False
  then show ?thesis using assms by (simp add: plan_size_def Let_def gop_plan_old length_packets)
qed

lemma has_room_enough:
  assumes "streaming chn src cl cs L s" "cl \<noteq> []" "\<not> gopCacheEnabled s" "good_cache src (gopCache s)" "list_all (sound_action src) acts"
    "length (triggerEvents s) + length cl * plan_size src (gop_plan src acts (hasNewClient s) (gopCache s)) \<le> kMaxTriggetEvents"
  shows "has_room chn src acts s"
  using assms(1,3-)
proof (induction acts arbitrary: L s)
  case (Cons act acts)
  show ?case
  proof (cases act)
    case (Trigger ok)
    obtain s1 where s1: "pop_trigger ok s = Inr s1" "streaming chn src cl cs L s1" "follows s s1" "length (triggerEvents s1) \<le> length (triggerEvents s)"
      using pop_trigger_streaming [OF Cons.prems(1)] by blast
    then show ?thesis using Cons.IH [OF s1(2)] Cons.prems Trigger by (auto simp: follows_def)
  next
    case (Frame raw now f)
    let ?c = "cached src f (gopCache s)"
    define copy where "copy = copy_due src now (hasNewClient s) ?c"
    let ?n = "length (packets src f) + length (concat (map (packets src) copy))" and ?p = "plan_size src (gop_plan src acts (hasNewClient s \<and> copy = []) ?c)"
    have fr: "length raw = 1600" "good_frame src f" using Cons.prems(4) Frame by (simp_all add: sound_action_def)
    have "?n + ?p = plan_size src (gop_plan src (Frame raw now f # acts) (hasNewClient s) (gopCache s))" using plan_size_step [OF copy_def] .
    then have total: "length (triggerEvents s) + length cl * (?n + ?p) \<le> kMaxTriggetEvents" using Cons.prems(5) Frame by simp
    then have room: "length (triggerEvents s) + length cl * ?n \<le> kMaxTriggetEvents" by (simp add: add_mult_distrib2)
    obtain s1 L1 where s1: "pushFrame raw now chn f s = Inr (True, s1)" "streaming chn src cl cs L1 s1" "\<not> gopCacheEnabled s1"
        "good_cache src (gopCache s1)" "hasNewClient s1 = (hasNewClient s \<and> copy = [])" "copy = [] \<longrightarrow> gopCache s1 = ?c"
        "length (triggerEvents s1) \<le> length (triggerEvents s) + length cl * ?n"
      using pushFrame_streaming [OF Cons.prems(1) assms(2) Cons.prems(2,3) fr copy_def room] by blast
    have "gop_plan src acts (hasNewClient s1) (gopCache s1) = gop_plan src acts (hasNewClient s \<and> copy = []) ?c"
      using s1(5,6) by (cases "copy = []") (simp_all add: gop_plan_old)
    then have "length (triggerEvents s1) + length cl * plan_size src (gop_plan src acts (hasNewClient s1) (gopCache s1)) \<le> kMaxTriggetEvents"
      using total s1(7) by (simp add: add_mult_distrib2)
    then have "has_room chn src acts s1" using Cons.IH [OF s1(2-4)] Cons.prems(4) by simp
    then show ?thesis using room s1(1) Frame Cons.prems(1) by (simp add: room_for_def copy_def streaming_def)
  qed
qed simp

section \<open>What the client sees\<close>

text \<open>The packets as the client sees them: numbered from \<open>seq\<close> on.\<close>

primrec views_of :: "MediaChannelInfo \<Rightarrow> u16 \<Rightarrow> (AVFrame \<times> u8 list \<times> bool) list \<Rightarrow> rtp_view list" where
  "views_of m seq [] = []"
| "views_of m seq (t # ts) = (case t of (f, p, final) \<Rightarrow>
     \<lparr>v_channel = ucast (rtpChannel m), v_version = 2, v_marker = final, v_payload_type = rh_payload (rtpHeader m), v_seq = seq,
      v_ts = fr_timestamp f, v_ssrc = htonl (rh_ssrc (rtpHeader m)), v_payload = p\<rparr>) # views_of m (seq + 1) ts"

lemma client_view_message:
  assumes "plain_header h" "length p \<le> 1420"
  shows "client_view (rtp_message ch (h\<lparr>rh_marker := of_bool final, rh_ts := htonl ts, rh_seq := htons seq\<rparr>) p @ rest) =
    \<lparr>v_channel = ch, v_version = 2, v_marker = final, v_payload_type = rh_payload h, v_seq = seq, v_ts = ts, v_ssrc = htonl (rh_ssrc h), v_payload = p\<rparr>
      # client_view rest"
  using assms by (simp add: client_view_def split_message header_nth)

lemma views_of_cong:
  "rtpChannel m = rtpChannel m' \<Longrightarrow> rh_payload (rtpHeader m) = rh_payload (rtpHeader m') \<Longrightarrow> rh_ssrc (rtpHeader m) = rh_ssrc (rtpHeader m') \<Longrightarrow>
    views_of m seq ts = views_of m' seq ts"
  by (induction ts arbitrary: seq) (auto split: prod.splits)

text \<open>Each call of \<open>send\<close> gets a message of at most 1436 bytes.\<close>

definition sendable :: "u8 list \<Rightarrow> bool" where
  "sendable m \<longleftrightarrow> m \<noteq> [] \<and> length m \<le> 1436"

text \<open>What of a list of packets, or of frames, a client is sent.\<close>

primrec seen :: "('a \<Rightarrow> AVFrame) \<Rightarrow> bool \<Rightarrow> 'a list \<Rightarrow> 'a list" where
  "seen fr idr [] = []"
| "seen fr idr (x # xs) = (if passes idr (fr x) then [x] else []) @ seen fr (idr \<or> key_frame (fr x)) xs"

lemma seen_append: "seen fr idr (xs @ ys) = seen fr idr xs @ seen fr (idr \<or> (\<exists>x \<in> set xs. key_frame (fr x))) ys"
  by (induction xs arbitrary: idr) (auto simp: disj_assoc)

lemma seen_subset: "set (seen fr idr xs) \<subseteq> set xs"
  by (induction xs arbitrary: idr) auto

lemma seen_first_key: "(\<forall>f \<in> set fs. fr_type f \<noteq> kGOPCache) \<Longrightarrow> seen id False fs = dropWhile (\<lambda>f. \<not> key_frame f) fs"
proof (induction fs)
  case (Cons f fs)
  have "seen (\<lambda>f. f) True xs = xs" for xs by (induction xs) (simp_all add: passes_def)
  then show ?case using Cons by (simp add: passes_def id_def)
qed simp

lemma seen_frame: "seen fst idr (marked f ps) = (if passes idr f then marked f ps else [])"
  by (induction ps arbitrary: idr) (auto simp: passes_def)

lemma seen_copies: "\<forall>t \<in> set ts. fr_type (fr t) = kGOPCache \<Longrightarrow> seen fr idr ts = ts"
  by (induction ts) (auto simp: passes_def copy_not_key)

lemma delivered_views:
  assumes "playing chn c" "\<forall>(f, p, final) \<in> set ts. length p \<le> 1420"
  shows "\<exists>ms. tcp_sent (foldl (deliver chn) c ts) = tcp_sent c @ ms \<and> list_all sendable ms \<and>
    client_view (concat ms) = views_of (mediaChannelInfo c ! chn) (packetSeq (mediaChannelInfo c ! chn)) (seen fst (hasIDRFrame c) ts)"
  using assms
proof (induction ts arbitrary: c)
  case Nil
  then show ?case by (simp add: client_view_def split_tcp.simps)
next
  case (Cons t ts)
  obtain f p final where t: "t = (f, p, final)" by (cases t)
  let ?m = "mediaChannelInfo c ! chn"
  show ?case
  proof (cases "passes (hasIDRFrame c) f")
    case False
    then have d: "deliver chn c t = c\<lparr>frameType := fr_type f\<rparr>" "\<not> key_frame f" "\<not> hasIDRFrame c" by (auto simp: deliver_def t passes_def)
    have "playing chn (c\<lparr>frameType := fr_type f\<rparr>)" using Cons.prems(1) by (simp add: playing_def)
    then show ?thesis using Cons.IH [of "c\<lparr>frameType := fr_type f\<rparr>"] Cons.prems(2) d False t by simp
  next
    case True
    let ?c = "after_packet chn f p final c"
    have d: "deliver chn c t = ?c" using True t by (simp add: deliver_def)
    have m: "mediaChannelInfo ?c ! chn = ?m\<lparr>rtpHeader := sent_header chn f final c, packetSeq := packetSeq ?m + 1\<rparr>"
        "hasIDRFrame ?c = (hasIDRFrame c \<or> key_frame f)"
      and snt: "tcp_sent ?c = tcp_sent c @ [rtp_message (ucast (rtpChannel ?m)) (sent_header chn f final c) p]"
      using Cons.prems(1) by (simp_all add: after_packet_def playing_def Let_def)
    let ?ts = "seen fst (hasIDRFrame c \<or> key_frame f) ts"
    have "playing chn ?c" using Cons.prems(1) playing_deliver [of chn c t] by (simp add: d)
    with Cons.IH [of ?c] Cons.prems(2) m(2) obtain ms where ms: "tcp_sent (foldl (deliver chn) ?c ts) = tcp_sent ?c @ ms"
      "client_view (concat ms) = views_of (mediaChannelInfo ?c ! chn) (packetSeq ?m + 1) ?ts" "list_all sendable ms" by (auto simp: m(1))
    have v: "views_of (mediaChannelInfo ?c ! chn) (packetSeq ?m + 1) ?ts = views_of ?m (packetSeq ?m + 1) ?ts"
      by (rule views_of_cong) (simp_all add: m(1) sent_header_def)
    have "client_view (rtp_message (ucast (rtpChannel ?m)) (sent_header chn f final c) p @ concat ms) = views_of ?m (packetSeq ?m) (t # ?ts)"
      using client_view_message [of "rtpHeader ?m" p "ucast (rtpChannel ?m)" "packetSeq ?m" "fr_timestamp f" final] Cons.prems(1,2) ms(2) v t
      by (simp add: sent_header_def playing_def)
    moreover have "sendable (rtp_message (ucast (rtpChannel ?m)) (sent_header chn f final c) p)"
      using length_message [of "ucast (rtpChannel ?m)" "sent_header chn f final c" p] Cons.prems(2) t by (auto simp: sendable_def)
    ultimately show ?thesis using ms(1,3) snt d True t
      by (intro exI [of _ "rtp_message (ucast (rtpChannel ?m)) (sent_header chn f final c) p # ms"]) simp
  qed
qed

lemma payloads_nonempty: "payloads_of src d \<noteq> []"
  by (simp add: payloads_of_def h264_payloads_def h265_payloads_def aac_payloads_def fragments_nonempty split: MediaSource.split)

lemma packets_nonempty: "packets src f \<noteq> []"
  using payloads_nonempty [of src "unit_of src f"] by (cases "payloads_of src (unit_of src f)") (simp_all add: packets_def)

lemma views_payloads: "map v_payload (views_of m q ts) = map (fst \<circ> snd) ts"
  by (induction ts arbitrary: q) (auto split: prod.splits)

lemma views_marked: "map v_ts (filter v_marker (views_of m q ts)) = map (fr_timestamp \<circ> fst) (filter (snd \<circ> snd) ts)"
  by (induction ts arbitrary: q) (auto split: prod.splits)

lemma views_nth:
  assumes "k < length (views_of m q ts)"
  shows "v_seq (views_of m q ts ! k) = q + of_nat k" "v_version (views_of m q ts ! k) = 2" "v_channel (views_of m q ts ! k) = ucast (rtpChannel m)"
    "v_payload_type (views_of m q ts ! k) = rh_payload (rtpHeader m)" "v_ssrc (views_of m q ts ! k) = htonl (rh_ssrc (rtpHeader m))"
proof -
  have "v_seq (views_of m q ts ! k) = q + of_nat k \<and> v_version (views_of m q ts ! k) = 2 \<and> v_channel (views_of m q ts ! k) = ucast (rtpChannel m) \<and>
      v_payload_type (views_of m q ts ! k) = rh_payload (rtpHeader m) \<and> v_ssrc (views_of m q ts ! k) = htonl (rh_ssrc (rtpHeader m))"
    using assms
  proof (induction ts arbitrary: q k)
    case (Cons t ts)
    then show ?case by (cases k) (auto split: prod.splits)
  qed simp
  then show "v_seq (views_of m q ts ! k) = q + of_nat k" "v_version (views_of m q ts ! k) = 2" "v_channel (views_of m q ts ! k) = ucast (rtpChannel m)"
    "v_payload_type (views_of m q ts ! k) = rh_payload (rtpHeader m)" "v_ssrc (views_of m q ts ! k) = htonl (rh_ssrc (rtpHeader m))" by blast+
qed

lemma marked_payloads: "map (fst \<circ> snd) (marked f ps) = ps"
  by (induction ps) simp_all

lemma marked_last: "ps \<noteq> [] \<Longrightarrow> filter (snd \<circ> snd) (marked f ps) = [(f, last ps, True)]"
  by (induction ps) auto

lemma packets_payloads: "map (fst \<circ> snd) (concat (map (packets src) fs)) = concat (map (payloads_of src) (map (unit_of src) fs))"
  by (induction fs) (simp_all add: packets_def marked_payloads [unfolded comp_def])

lemma packets_marked: "map (fr_timestamp \<circ> fst) (filter (snd \<circ> snd) (concat (map (packets src) fs))) = map fr_timestamp fs"
  by (induction fs) (simp_all add: packets_def marked_last [unfolded comp_def] payloads_nonempty)

text \<open>What a client makes of the stream: the units, their time stamps at the marked packets, and consecutive numbers.\<close>

definition receives :: "MediaSource \<Rightarrow> MediaChannelInfo \<Rightarrow> AVFrame list \<Rightarrow> u8 list \<Rightarrow> bool" where
  "receives src m fs bs \<longleftrightarrow> (let v = client_view bs in
     collect_of src (map v_payload v) = map (unit_of src) fs \<and>
     map v_ts (filter v_marker v) = map fr_timestamp fs \<and>
     map v_seq v = map (\<lambda>k. packetSeq m + of_nat k) [0..<length v] \<and>
     (\<forall>x \<in> set v. v_version x = 2 \<and> v_channel x = ucast (rtpChannel m) \<and> v_payload_type x = rh_payload (rtpHeader m) \<and>
       v_ssrc x = htonl (rh_ssrc (rtpHeader m)) \<and> length (v_payload x) \<le> 1420))"

lemma receivesI:
  assumes "client_view bs = views_of m (packetSeq m) ts" "\<forall>(f, p, final) \<in> set ts. length p \<le> 1420"
    "collect_of src (map (fst \<circ> snd) ts) = map (unit_of src) fs" "map (fr_timestamp \<circ> fst) (filter (snd \<circ> snd) ts) = map fr_timestamp fs"
  shows "receives src m fs bs"
proof -
  let ?v = "views_of m (packetSeq m) ts"
  have "length (v_payload x) \<le> 1420" if "x \<in> set ?v" for x
  proof -
    have "v_payload x \<in> set (map (fst \<circ> snd) ts)" using that views_payloads [of m "packetSeq m" ts] by (metis image_eqI set_map)
    then show ?thesis using assms(2) by auto
  qed
  moreover have "map v_seq ?v = map (\<lambda>k. packetSeq m + of_nat k) [0..<length ?v]" by (rule nth_equalityI) (simp_all add: views_nth)
  moreover have "v_version x = 2 \<and> v_channel x = ucast (rtpChannel m) \<and> v_payload_type x = rh_payload (rtpHeader m) \<and>
      v_ssrc x = htonl (rh_ssrc (rtpHeader m))" if "x \<in> set ?v" for x
    using that views_nth by (metis in_set_conv_nth)
  ultimately show ?thesis using assms(3,4) unfolding receives_def assms(1) Let_def views_marked views_payloads by blast
qed

definition unit_fits :: "MediaSource \<Rightarrow> AVFrame \<Rightarrow> bool" where
  "unit_fits src f \<longleftrightarrow> fit_for src (unit_of src f)"

lemma packets_bounded:
  assumes "\<forall>f \<in> set fs. unit_fits src f"
  shows "\<forall>(f, p, final) \<in> set (concat (map (packets src) fs)). length p \<le> 1420"
proof -
  have "length p \<le> 1420" if "(f, p, final) \<in> set (concat (map (packets src) fs))" for f p final
  proof -
    have "p \<in> set (map (fst \<circ> snd) (concat (map (packets src) fs)))" using that by force
    then show ?thesis unfolding packets_payloads by (rule source.all_bounded [rotated]) (use assms in \<open>simp add: list_all_iff unit_fits_def\<close>)
  qed
  then show ?thesis by auto
qed

lemma receives_frames:
  assumes "\<forall>f \<in> set fs. unit_fits src f" "client_view bs = views_of m (packetSeq m) (concat (map (packets src) fs))"
  shows "receives src m fs bs"
proof (rule receivesI [OF assms(2) packets_bounded [OF assms(1)] _ packets_marked])
  show "collect_of src (map (fst \<circ> snd) (concat (map (packets src) fs))) = map (unit_of src) fs"
    unfolding packets_payloads by (rule source.collect_all) (use assms(1) in \<open>simp add: list_all_iff unit_fits_def\<close>)
qed

lemma marked_broken: "k < length ps \<Longrightarrow> filter (snd \<circ> snd) (take k (marked f ps)) = []"
proof (induction ps arbitrary: k)
  case (Cons p ps)
  then show ?case by (cases k) auto
qed simp

lemma receives_broken:
  assumes "\<forall>f \<in> set (fs @ g # gs). unit_fits src f" "k < length (packets src g)"
    "client_view bs = views_of m (packetSeq m) (concat (map (packets src) fs) @ take k (packets src g) @ concat (map (packets src) gs))"
  shows "receives src m (fs @ gs) bs"
proof (rule receivesI [OF assms(3)])
  have "(t \<in> set (concat (map (packets src) fs) @ take k (packets src g) @ concat (map (packets src) gs))) \<Longrightarrow> t \<in> set (concat (map (packets src) (fs @ g # gs)))" for t
    by (auto dest: in_set_takeD)
  then show "\<forall>(f, p, final) \<in> set (concat (map (packets src) fs) @ take k (packets src g) @ concat (map (packets src) gs)). length p \<le> 1420"
    using packets_bounded [OF assms(1)] by blast
  have p: "map (fst \<circ> snd) (take k (packets src g)) = take k (payloads_of src (unit_of src g))"
    by (simp add: packets_def marked_payloads take_map [symmetric])
  have fit: "list_all (fit_for src) (map (unit_of src) fs)" "fit_for src (unit_of src g)" "list_all (fit_for src) (map (unit_of src) gs)"
    "k < length (payloads_of src (unit_of src g))"
    using assms(1,2) by (simp_all add: list_all_iff unit_fits_def packets_def)
  show "collect_of src (map (fst \<circ> snd) (concat (map (packets src) fs) @ take k (packets src g) @ concat (map (packets src) gs))) = map (unit_of src) (fs @ gs)"
    unfolding map_append packets_payloads p by (rule source.collect_broken_all [OF fit(1,2,4,3)])
  have "filter (snd \<circ> snd) (take k (packets src g)) = []" using assms(2) by (simp add: packets_def marked_broken del: filter_empty_conv)
  then show "map (fr_timestamp \<circ> fst) (filter (snd \<circ> snd) (concat (map (packets src) fs) @ take k (packets src g) @ concat (map (packets src) gs))) =
      map fr_timestamp (fs @ gs)"
    unfolding filter_append map_append packets_marked by simp
qed

lemma key_packet: "(\<exists>t \<in> set (packets src f). key_frame (fst t)) \<longleftrightarrow> key_frame f"
  using packets_nonempty [of src f] packets_fst by (metis list.set_intros(1) neq_Nil_conv)

lemma seen_packets: "seen fst idr (concat (map (packets src) fs)) = concat (map (packets src) (seen id idr fs))"
proof (induction fs arbitrary: idr)
  case (Cons f fs)
  show ?case using Cons key_packet [of src f] seen_frame [of idr f "payloads_of src (unit_of src f)"] by (simp add: seen_append packets_def)
qed simp

lemma key_packets: "(\<exists>t \<in> set (concat (map (packets src) fs)). key_frame (fst t)) \<longleftrightarrow> (\<exists>f \<in> set fs. key_frame f)"
  using key_packet by (induction fs) (simp_all add: bex_Un)

text \<open>What a client gets of the frames: those from its first key frame on, and the copy from the cache; the copy may only be missing when the client has a key
  frame from before or the frames before the copy have one for it.\<close>

definition client_gets :: "MediaSource \<Rightarrow> MediaChannelInfo \<Rightarrow> bool \<Rightarrow> bool \<Rightarrow> AVFrame list \<times> AVFrame list \<times> AVFrame list \<Rightarrow> u8 list \<Rightarrow> bool" where
  "client_gets src m idr gop plan bs \<longleftrightarrow> (case plan of (before, copy, after) \<Rightarrow>
     receives src m (seen id idr (before @ copy @ after)) bs \<or>
     receives src m (seen id idr (before @ after)) bs \<and> (gop \<or> idr \<or> (\<exists>f \<in> set before. key_frame f)))"

lemma logged_seen:
  assumes "logged src gop c0 (before, copy, after) [] ts" "\<forall>g \<in> set copy. fr_type g = kGOPCache"
  obtains k where "k \<le> length (concat (map (packets src) copy))"
    "seen fst (hasIDRFrame c0) ts = concat (map (packets src) (seen id (hasIDRFrame c0) before)) @ take k (concat (map (packets src) copy)) @
       concat (map (packets src) (seen id (hasIDRFrame c0 \<or> (\<exists>f \<in> set before. key_frame f)) after))"
    "k = length (concat (map (packets src) copy)) \<or> gop \<or> hasIDRFrame c0 \<or> (\<exists>f \<in> set before. key_frame f)"
proof -
  let ?A = "concat (map (packets src) before)" and ?C = "concat (map (packets src) copy)" and ?B = "concat (map (packets src) after)"
  obtain k where k: "k \<le> length ?C" "ts = ?A @ take k ?C @ ?B" "k = length ?C \<or> gop \<or> hasIDRFrame c0 \<or> (\<exists>t \<in> set ?A. key_frame (fst t))"
    using assms(1) by (auto simp: logged_def Let_def)
  have c: "fr_type (fst t) = kGOPCache" if "t \<in> set (take k ?C)" for t
  proof -
    have "t \<in> set ?C" using that by (rule in_set_takeD)
    then obtain g where "g \<in> set copy" "t \<in> set (packets src g)" by auto
    then show ?thesis using assms(2) packets_fst by metis
  qed
  then have nk: "\<not> (\<exists>t \<in> set (take k ?C). key_frame (fst t))" using copy_not_key by blast
  have "seen fst (hasIDRFrame c0) ts = concat (map (packets src) (seen id (hasIDRFrame c0) before)) @ take k ?C @
      concat (map (packets src) (seen id (hasIDRFrame c0 \<or> (\<exists>f \<in> set before. key_frame f)) after))"
    using nk seen_copies [of "take k ?C" fst] c unfolding k(2) seen_append seen_packets key_packets by simp
  then show ?thesis using that k(1,3) unfolding key_packets by blast
qed

lemma client_gets_logged:
  assumes "logged src gop c0 (before, copy, after) [] ts" "playing chn c0" "\<forall>f \<in> set (before @ copy @ after). unit_fits src f"
    "\<forall>g \<in> set copy. fr_type g = kGOPCache" "length copy \<le> 1"
  shows "\<exists>ms. tcp_sent (foldl (deliver chn) c0 ts) = tcp_sent c0 @ ms \<and> list_all sendable ms \<and>
    client_gets src (mediaChannelInfo c0 ! chn) (hasIDRFrame c0) gop (before, copy, after) (concat ms)"
proof -
  let ?m = "mediaChannelInfo c0 ! chn" and ?idr = "hasIDRFrame c0"
  let ?fs = "seen id ?idr before" and ?gs = "seen id (?idr \<or> (\<exists>f \<in> set before. key_frame f)) after" and ?C = "concat (map (packets src) copy)"
  obtain k where k: "k \<le> length ?C" "seen fst ?idr ts = concat (map (packets src) ?fs) @ take k ?C @ concat (map (packets src) ?gs)"
      "k = length ?C \<or> gop \<or> ?idr \<or> (\<exists>f \<in> set before. key_frame f)"
    using logged_seen [OF assms(1,4)] by blast
  have nk: "\<not> (\<exists>g \<in> set copy. key_frame g)" using assms(4) copy_not_key by blast
  have with_copy: "seen id ?idr (before @ copy @ after) = ?fs @ copy @ ?gs" and without: "seen id ?idr (before @ after) = ?fs @ ?gs"
    using nk seen_copies [of copy id] assms(4) by (simp_all add: seen_append)
  have fit: "\<forall>f \<in> set (?fs @ copy @ ?gs). unit_fits src f" using assms(3) seen_subset [of id] by (auto dest: subsetD)
  have "set ts \<subseteq> set (concat (map (packets src) (before @ copy @ after)))"
  proof -
    obtain j where "ts = concat (map (packets src) before) @ take j ?C @ concat (map (packets src) after)"
      using assms(1) by (auto simp: logged_def Let_def)
    then show ?thesis using set_take_subset [of j ?C] by auto
  qed
  then have "\<forall>(f, p, final) \<in> set ts. length p \<le> 1420" using packets_bounded [OF assms(3)] by blast
  then obtain ms where ms: "tcp_sent (foldl (deliver chn) c0 ts) = tcp_sent c0 @ ms" "list_all sendable ms"
      "client_view (concat ms) = views_of ?m (packetSeq ?m) (concat (map (packets src) ?fs) @ take k ?C @ concat (map (packets src) ?gs))"
    using delivered_views [OF assms(2), of ts] k(2) by auto
  have "client_gets src ?m ?idr gop (before, copy, after) (concat ms)"
  proof (cases "k = length ?C")
    case True
    then have "client_view (concat ms) = views_of ?m (packetSeq ?m) (concat (map (packets src) (?fs @ copy @ ?gs)))" using ms(3) by simp
    then show ?thesis using receives_frames [OF fit] with_copy by (simp add: client_gets_def)
  next
    case False
    then obtain g where g: "copy = [g]" using k(1) assms(5) by (cases copy) auto
    have "receives src ?m (?fs @ ?gs) (concat ms)" using receives_broken [of ?fs g ?gs src k] fit ms(3) k(1) False g by simp
    then show ?thesis using k(3) False without by (simp add: client_gets_def)
  qed
  then show ?thesis using ms(1,2) by blast
qed

text \<open>A session with clients that have set up the channel over TCP and play, when no event waits.\<close>

definition ready_session :: "nat \<Rightarrow> MediaSource \<Rightarrow> MediaSession \<Rightarrow> bool" where
  "ready_session chn src s \<longleftrightarrow> triggerEvents s = [] \<and> \<not> gopCacheEnabled s \<and> \<not> ms_isMulticast s \<and> mediaSources s ! chn = Some src \<and>
     good_cache src (gopCache s) \<and> ms_clients s \<noteq> [] \<and> distinct (map snd (ms_clients s)) \<and>
     (\<forall>i \<in> snd ` set (ms_clients s). i < length (connections s) \<and> playing chn (connections s ! i))"

lemma ready_streaming: "ready_session chn src s \<Longrightarrow> streaming chn src (ms_clients s) (connections s) (\<lambda>i. []) s"
  by (auto simp: ready_session_def streaming_def served_def)

lemma sound_fits: "list_all (sound_action src) acts \<Longrightarrow> \<forall>f \<in> set (pushed src acts). unit_fits src f"
  by (auto simp: list_all_iff pushed_def sound_action_def good_frame_def unit_fits_def split: action.splits)

lemma run_receives:
  assumes "ready_session chn src s" "list_all (sound_action src) acts" "has_room chn src acts s"
  shows "\<exists>s1 s2. run_session chn acts s = Inr s1 \<and> handleTriggerEvent oks s1 = Inr s2 \<and> triggerEvents s2 = [] \<and> ms_clients s2 = ms_clients s \<and>
    (\<forall>i \<in> snd ` set (ms_clients s). \<exists>ms. tcp_sent (connections s2 ! i) = tcp_sent (connections s ! i) @ ms \<and> list_all sendable ms \<and>
      client_gets src (mediaChannelInfo (connections s ! i) ! chn) (hasIDRFrame (connections s ! i)) (hasGOPFrame (connections s ! i))
        (gop_plan src acts (hasNewClient s) (gopCache s)) (concat ms))"
proof -
  let ?cs = "connections s"
  obtain before copy after where pl: "gop_plan src acts (hasNewClient s) (gopCache s) = (before, copy, after)"
    by (cases "gop_plan src acts (hasNewClient s) (gopCache s)")
  have r: "ms_clients s \<noteq> []" "\<not> gopCacheEnabled s" "good_cache src (gopCache s)" using assms(1) by (simp_all add: ready_session_def)
  have cp: "\<forall>g \<in> set copy. fr_type g = kGOPCache" "length copy \<le> 1" "\<forall>f \<in> set (before @ copy @ after). unit_fits src f"
    using gop_plan_copy [OF pl r(3) assms(2)] sound_fits [OF assms(2)] gop_plan_pushed [OF pl] by (auto simp: good_frame_def unit_fits_def)
  obtain s1 L where s1: "run_session chn acts s = Inr s1" "streaming chn src (ms_clients s) ?cs L s1"
      "\<forall>j \<in> snd ` set (ms_clients s). logged src (gop_of s j) (?cs ! j) (before, copy, after) [] (L j)"
    using run_streaming [OF ready_streaming [OF assms(1)] r assms(2,3)] pl by auto
  obtain s2 where s2: "handleTriggerEvent oks s1 = Inr s2" "streaming chn src (ms_clients s) ?cs L s2" "triggerEvents s2 = []"
    using handleTriggerEvent_streaming [OF s1(2), of oks] by blast
  have "\<exists>ms. tcp_sent (connections s2 ! i) = tcp_sent (?cs ! i) @ ms \<and> list_all sendable ms \<and>
      client_gets src (mediaChannelInfo (?cs ! i) ! chn) (hasIDRFrame (?cs ! i)) (gop_of s i) (before, copy, after) (concat ms)"
    if i: "i \<in> snd ` set (ms_clients s)" for i
  proof -
    have p: "playing chn (?cs ! i)" and "served chn (?cs ! i) (L i) (connections s2 ! i) (packetData s2) []"
      using s2(2,3) i by (auto simp: streaming_def)
    then have "connections s2 ! i = (foldl (deliver chn) (?cs ! i) (L i))\<lparr>hasGOPFrame := gop_of s2 i\<rparr>" by (auto simp: served_def)
    then have "tcp_sent (connections s2 ! i) = tcp_sent (foldl (deliver chn) (?cs ! i) (L i))" by (metis RtpConnection.select_convs(8) RtpConnection.surjective RtpConnection.update_convs(6))
    then show ?thesis using client_gets_logged [OF bspec [OF s1(3) i] p cp(3,1,2)] by simp
  qed
  moreover have "ms_clients s2 = ms_clients s" using s2(2) by (simp add: streaming_def)
  ultimately show ?thesis using s1(1) s2(1,3) pl by auto
qed

section \<open>Properties\<close>

text \<open>C9. Clients receive the frames: let a session stream to clients that have set up a channel over TCP and play, let the frames that are pushed be of sizes and
  types the source can send, and let the queue of the scheduler have room for their packets (at most 5000 events wait). However the thread that
  pushes the frames and the scheduler that handles trigger events interleave, also between the packets of a frame and the
  clients of a packet, no memory is accessed out of bounds, the scheduler empties the queue, and then every client, by splitting the stream of its connection and taking the
  packets apart, gets in order and unchanged the units of the frames pushed, from its first key frame on (\<open>seen\<close>), and of at most one copy of the last key frame
  in the cache. The copy is made for the first frame pushed after which there is a frame in the cache while a client is new. It follows that frame, so that a client
  can get the key frame twice, and it is left out, or broken off without an effect on the receiver, only for a client that was sent a key frame before.
  The time stamp of each frame is on its marked last packet; the packets have version 2, the channel, the payload type and the source of
  the set-up, consecutive numbers (modulo 2^16) and at most 1420 bytes of payload, so that no message exceeds 1436 bytes. This holds although the clients
  share the bytes of the packets, and for the sources of H.264, H.265, AAC and G.711.\<close>

theorem clients_receive_frames:
  assumes "ready_session chn src s" "list_all (sound_action src) acts" "has_room chn src acts s"
    "gop_plan src acts (hasNewClient s) (gopCache s) = (before, copy, after)"
  shows "before @ after = pushed src acts \<and> length copy \<le> 1 \<and>
    (\<exists>s1 s2. run_session chn acts s = Inr s1 \<and> handleTriggerEvent oks s1 = Inr s2 \<and> triggerEvents s2 = [] \<and> ms_clients s2 = ms_clients s \<and>
      (\<forall>i \<in> snd ` set (ms_clients s). \<exists>ms.
        tcp_sent (connections s2 ! i) = tcp_sent (connections s ! i) @ ms \<and> list_all sendable ms \<and>
        (let m = mediaChannelInfo (connections s ! i) ! chn; idr = hasIDRFrame (connections s ! i); gop = hasGOPFrame (connections s ! i) in
         receives src m (seen id idr (before @ copy @ after)) (concat ms) \<or>
         receives src m (seen id idr (before @ after)) (concat ms) \<and> (gop \<or> idr \<or> (\<exists>f \<in> set before. key_frame f)))))"
proof -
  have "good_cache src (gopCache s)" using assms(1) by (simp add: ready_session_def)
  then have "length copy \<le> 1" using gop_plan_copy [OF assms(4) _ assms(2)] by blast
  then show ?thesis using run_receives [OF assms(1-3), of oks] gop_plan_pushed [OF assms(4)]
    unfolding assms(4) client_gets_def Let_def prod.case by metis
qed

definition example_session :: MediaSession where
  "example_session = (let c = (\<lambda>a. play (snd (setupRtpOverTcp 0 2 3 (setPayloadType 0 96 (new_RtpConnection (a, 5, 6) (7, 8, 9) RTP_OVER_UDP))))) in
     (snd (addClient 8 0 (snd (addClient 4 1 (snd (addMediaSource 0 H264Source (new_MediaSession [c 0xffff, c 3])))))))
       \<lparr>ms_schedule := [[], [True], [], [True, True]]\<rparr>)"

definition example_frame :: "u8 list \<Rightarrow> u8 \<Rightarrow> AVFrame" where
  "example_frame d ty = \<lparr>fr_buffer = d, fr_size = of_nat (length d), fr_type = ty, fr_timestamp = 0\<rparr>"

definition example_actions :: "action list" where
  "example_actions = (let f = (\<lambda>d ty. Frame (replicate 1600 0) 77 (example_frame d ty)) in
     [f [0x41, 1] 2, Trigger True, f [0x65, 2] VIDEO_FRAME_I, f [0x41, 3, 4] 2, Trigger True])"

definition example_before :: "AVFrame list" where
  "example_before = [(example_frame [0x41, 1] 2)\<lparr>fr_timestamp := 77\<rparr>, (example_frame [0x65, 2] VIDEO_FRAME_I)\<lparr>fr_timestamp := 77\<rparr>]"

definition example_copy :: "AVFrame list" where
  "example_copy = [(example_frame [0x65, 2] kGOPCache)\<lparr>fr_timestamp := 77\<rparr>]"

definition example_after :: "AVFrame list" where
  "example_after = [(example_frame [0x41, 3, 4] 2)\<lparr>fr_timestamp := 77\<rparr>]"

lemma example_ready: "ready_session 0 H264Source example_session"
  by (simp add: ready_session_def example_session_def Let_def addClient_def addMediaSource_def new_MediaSession_def play_def setupRtpOverTcp_def
    setPayloadType_def on_channel_def new_RtpConnection_def new_channel_def playing_def plain_header_def good_cache_def)

lemma example_sound: "list_all (sound_action H264Source) example_actions"
  by (simp add: example_actions_def example_frame_def Let_def sound_action_def good_frame_def well_sized_def fit_for_def h264_fit_def unit_of_def frame_of_def)

lemma example_plan:
  "gop_plan H264Source example_actions (hasNewClient example_session) (gopCache example_session) = (example_before, example_copy, example_after)"
  by (simp add: example_actions_def example_session_def example_frame_def example_before_def example_copy_def example_after_def Let_def addClient_def
    addMediaSource_def new_MediaSession_def pushed_def stamp_for_def stamped_def cached_def copy_due_def video_def)

lemma example_room: "has_room 0 H264Source example_actions example_session"
proof (rule has_room_enough [OF ready_streaming [OF example_ready]])
  show "ms_clients example_session \<noteq> []" "\<not> gopCacheEnabled example_session" "good_cache H264Source (gopCache example_session)"
    using example_ready by (simp_all add: ready_session_def)
  have "length (ms_clients example_session) = 2" "triggerEvents example_session = []"
    by (simp_all add: example_session_def Let_def addClient_def addMediaSource_def new_MediaSession_def)
  moreover have "plan_size H264Source (example_before, example_copy, example_after) = 4"
    by (simp add: plan_size_def example_before_def example_copy_def example_after_def example_frame_def packets_def payloads_of_def h264_payloads_def
      unit_of_def frame_of_def)
  ultimately show "length (triggerEvents example_session) + length (ms_clients example_session) *
      plan_size H264Source (gop_plan H264Source example_actions (hasNewClient example_session) (gopCache example_session)) \<le> kMaxTriggetEvents"
    unfolding example_plan by (simp add: kMaxTriggetEvents_def)
qed (rule example_sound)

lemma clients_receive_frames_witness:
  "example_before @ example_after = pushed H264Source example_actions \<and> length example_copy \<le> 1 \<and>
    (\<exists>s1 s2. run_session 0 example_actions example_session = Inr s1 \<and> handleTriggerEvent (\<lambda>_. True) s1 = Inr s2 \<and> triggerEvents s2 = [] \<and>
      ms_clients s2 = ms_clients example_session \<and>
      (\<forall>i \<in> snd ` set (ms_clients example_session). \<exists>ms.
        tcp_sent (connections s2 ! i) = tcp_sent (connections example_session ! i) @ ms \<and> list_all sendable ms \<and>
        (let m = mediaChannelInfo (connections example_session ! i) ! 0; idr = hasIDRFrame (connections example_session ! i);
             gop = hasGOPFrame (connections example_session ! i) in
         receives H264Source m (seen id idr (example_before @ example_copy @ example_after)) (concat ms) \<or>
         receives H264Source m (seen id idr (example_before @ example_after)) (concat ms) \<and>
           (gop \<or> idr \<or> (\<exists>f \<in> set example_before. key_frame f)))))"
  by (rule clients_receive_frames [OF example_ready example_sound example_room example_plan])

end
