(* ===== verification/Rtsp_Buffer.thy ===== *)
theory Rtsp_Buffer
  imports Byte_Memory Fifo
begin

text \<open>
  The buffers of the RTSP server: the ring buffer of the scheduler (\<open>rtsp/RingBuffer.h\<close>), the buffer for the bytes that a connection
  has received (\<open>rtsp/BufferReader.cpp\<close>) and the queue of messages that it has to send (\<open>rtsp/BufferWriter.cpp\<close>), with the connection
  around it (\<open>rtsp/TcpConnection.cpp\<close>). The ring buffer meets the contract of \<open>fifo\<close>; the reader never leaves its memory; the connection
  puts the messages on the wire in order and complete, whatever part of them the socket takes at a time.
\<close>

section \<open>The ring buffer\<close>

record 'a RingBuffer =
  rb_buffer :: "'a list"
  rb_capacity :: nat
  rb_putPos :: nat
  rb_getPos :: nat
  rb_numDatas :: nat

text \<open>The vector has \<open>capacity\<close> values of the default constructor.\<close>

definition new_RingBuffer :: "'a \<Rightarrow> nat \<Rightarrow> 'a RingBuffer" where
  "new_RingBuffer x capacity = \<lparr>rb_buffer = replicate capacity x, rb_capacity = capacity, rb_putPos = 0, rb_getPos = 0, rb_numDatas = 0\<rparr>"

definition rb_add :: "'a RingBuffer \<Rightarrow> nat \<Rightarrow> nat" where
  "rb_add rb pos = (if pos + 1 = rb_capacity rb then 0 else pos + 1)"

definition rb_pop :: "'a RingBuffer \<Rightarrow> 'a option \<times> 'a RingBuffer" where
  "rb_pop rb =
     (if rb_numDatas rb > 0
      then (Some (rb_buffer rb ! rb_getPos rb), rb\<lparr>rb_getPos := rb_add rb (rb_getPos rb), rb_numDatas := rb_numDatas rb - 1\<rparr>)
      else (None, rb))"

definition rb_pushData :: "'a \<Rightarrow> 'a RingBuffer \<Rightarrow> bool \<times> 'a RingBuffer" where
  "rb_pushData x rb =
     (if rb_numDatas rb < rb_capacity rb
      then (True, rb\<lparr>rb_buffer := (rb_buffer rb)[rb_putPos rb := x], rb_putPos := rb_add rb (rb_putPos rb), rb_numDatas := rb_numDatas rb + 1\<rparr>)
      else (False, rb))"

definition rb_isFull :: "'a RingBuffer \<Rightarrow> bool" where
  "rb_isFull rb \<longleftrightarrow> rb_numDatas rb = rb_capacity rb"

definition rb_isEmpty :: "'a RingBuffer \<Rightarrow> bool" where
  "rb_isEmpty rb \<longleftrightarrow> rb_numDatas rb = 0"

text \<open>The elements from the position of the reader on, around the end.\<close>

definition rb_holds :: "'a RingBuffer \<Rightarrow> 'a list \<Rightarrow> bool" where
  "rb_holds rb xs \<longleftrightarrow> length (rb_buffer rb) = rb_capacity rb \<and> rb_getPos rb < rb_capacity rb \<and> rb_numDatas rb = length xs \<and>
     length xs \<le> rb_capacity rb \<and> rb_putPos rb = (rb_getPos rb + length xs) mod rb_capacity rb \<and>
     (\<forall>k < length xs. rb_buffer rb ! ((rb_getPos rb + k) mod rb_capacity rb) = xs ! k)"

lemma rb_add_mod: "pos < rb_capacity rb \<Longrightarrow> rb_add rb pos = (pos + 1) mod rb_capacity rb"
  by (auto simp: rb_add_def)

lemma mod_add_neq:
  assumes "k < m" "m < (n :: nat)"
  shows "(g + k) mod n \<noteq> (g + m) mod n"
proof
  assume "(g + k) mod n = (g + m) mod n"
  then have "n dvd (g + m) - (g + k)" using assms by (metis add_le_cancel_left mod_eq_dvd_iff_nat less_imp_le_nat)
  then show False using assms by (simp add: nat_dvd_not_less)
qed

lemma rb_push_holds:
  assumes "rb_holds rb xs" "length xs < rb_capacity rb"
  shows "rb_holds (snd (rb_pushData x rb)) (xs @ [x])"
proof -
  let ?n = "rb_capacity rb" and ?g = "rb_getPos rb"
  have p: "rb_putPos rb < ?n" using assms by (auto simp: rb_holds_def)
  have "(rb_buffer rb)[rb_putPos rb := x] ! ((?g + k) mod ?n) = (xs @ [x]) ! k" if "k < length (xs @ [x])" for k
  proof (cases "k = length xs")
    case True
    then show ?thesis using assms p by (auto simp: rb_holds_def)
  next
    case False
    then have "(?g + k) mod ?n \<noteq> rb_putPos rb" using that assms mod_add_neq [of k "length xs" ?n ?g] by (auto simp: rb_holds_def)
    then show ?thesis using False that assms by (auto simp: rb_holds_def nth_append)
  qed
  then show ?thesis using assms p by (auto simp: rb_holds_def rb_pushData_def rb_add_mod mod_Suc_eq)
qed

lemma rb_pop_holds:
  assumes "rb_holds rb (x # xs)"
  shows "fst (rb_pop rb) = Some x" "rb_holds (snd (rb_pop rb)) xs"
proof -
  let ?n = "rb_capacity rb" and ?g = "rb_getPos rb"
  have g: "?g < ?n" "rb_numDatas rb > 0" using assms by (auto simp: rb_holds_def)
  have nth: "rb_buffer rb ! ((?g + k) mod ?n) = (x # xs) ! k" if "k < length (x # xs)" for k using assms that by (auto simp: rb_holds_def)
  show "fst (rb_pop rb) = Some x" using nth [of 0] g by (simp add: rb_pop_def)
  have "rb_buffer rb ! (((?g + 1) mod ?n + k) mod ?n) = xs ! k" if "k < length xs" for k
    using nth [of "Suc k"] that by (simp add: mod_add_left_eq)
  then show "rb_holds (snd (rb_pop rb)) xs" using assms g
    by (auto simp: rb_holds_def rb_pop_def rb_add_mod mod_simps)
qed

interpretation ring: fifo rb_holds "\<lambda>rb x. rb_numDatas rb < rb_capacity rb" "\<lambda>x rb. snd (rb_pushData x rb)" "\<lambda>rb. snd (rb_pop rb)"
  "\<lambda>rb. the (fst (rb_pop rb))" rb_isEmpty
proof
  show "rb_holds (snd (rb_pushData x rb)) (xs @ [x])" if "rb_holds rb xs" "rb_numDatas rb < rb_capacity rb" for rb :: "'a RingBuffer" and xs x
    using that by (intro rb_push_holds) (simp_all add: rb_holds_def)
qed (simp_all add: rb_pop_holds, auto simp: rb_isEmpty_def rb_holds_def)

section \<open>Received bytes\<close>

record BufferReader =
  br_buffer :: "u8 list"
  br_readerIndex :: nat
  br_writerIndex :: nat

definition MAX_BYTES_PER_READ :: nat where "MAX_BYTES_PER_READ = 2048"
definition MAX_BUFFER_SIZE :: nat where "MAX_BUFFER_SIZE = 10240"

definition new_BufferReader :: "nat \<Rightarrow> BufferReader" where
  "new_BufferReader initialSize = \<lparr>br_buffer = replicate initialSize 0, br_readerIndex = 0, br_writerIndex = 0\<rparr>"

definition readableBytes :: "BufferReader \<Rightarrow> nat" where
  "readableBytes b = br_writerIndex b - br_readerIndex b"

definition writableBytes :: "BufferReader \<Rightarrow> nat" where
  "writableBytes b = length (br_buffer b) - br_writerIndex b"

text \<open>The bytes from \<open>peek()\<close> to \<open>beginWrite()\<close>.\<close>

definition readable :: "BufferReader \<Rightarrow> u8 list" where
  "readable b = take (readableBytes b) (drop (br_readerIndex b) (br_buffer b))"

definition retrieveAll :: "BufferReader \<Rightarrow> BufferReader" where
  "retrieveAll b = b\<lparr>br_writerIndex := 0, br_readerIndex := 0\<rparr>"

definition retrieve :: "nat \<Rightarrow> BufferReader \<Rightarrow> BufferReader" where
  "retrieve len b =
     (if len \<le> readableBytes b then
        let b = b\<lparr>br_readerIndex := br_readerIndex b + len\<rparr> in
        if br_readerIndex b = br_writerIndex b then b\<lparr>br_readerIndex := 0, br_writerIndex := 0\<rparr> else b
      else retrieveAll b)"

text \<open>\<open>std::search\<close> and \<open>std::find_end\<close> for the two bytes of a line end.\<close>

fun first_crlf :: "u8 list \<Rightarrow> nat option" where
  "first_crlf (a # b # bs) = (if a = 13 \<and> b = 10 then Some 0 else map_option Suc (first_crlf (b # bs)))"
| "first_crlf _ = None"

fun last_crlf :: "u8 list \<Rightarrow> nat option" where
  "last_crlf (a # b # bs) = (case last_crlf (b # bs) of Some n \<Rightarrow> Some (Suc n) | None \<Rightarrow> if a = 13 \<and> b = 10 then Some 0 else None)"
| "last_crlf _ = None"

definition findFirstCrlf :: "BufferReader \<Rightarrow> nat option" where
  "findFirstCrlf b = first_crlf (readable b)"

definition findLastCrlf :: "BufferReader \<Rightarrow> nat option" where
  "findLastCrlf b = last_crlf (readable b)"

text \<open>\<open>r\<close> is what \<open>recv\<close> gives: bytes, none of them when the peer has closed, or an error.\<close>

definition readFd :: "u8 list option \<Rightarrow> BufferReader \<Rightarrow> (int \<times> BufferReader) result" where
  "readFd r b =
     (if writableBytes b < MAX_BYTES_PER_READ \<and> length (br_buffer b) > MAX_BUFFER_SIZE then Inr (0, b)
      else
        let b = (if writableBytes b < MAX_BYTES_PER_READ then b\<lparr>br_buffer := br_buffer b @ replicate MAX_BYTES_PER_READ 0\<rparr> else b) in
        case r of
          None \<Rightarrow> Inr (-1, b)
        | Some bs \<Rightarrow> bind_result (stores (br_writerIndex b) bs (br_buffer b)) (\<lambda>buf.
            Inr (int (length bs), b\<lparr>br_buffer := buf, br_writerIndex := br_writerIndex b + length bs\<rparr>)))"

definition readAll :: "BufferReader \<Rightarrow> u8 list \<times> BufferReader" where
  "readAll b = (if readableBytes b > 0 then (readable b, b\<lparr>br_writerIndex := 0, br_readerIndex := 0\<rparr>) else ([], b))"

definition readUntilCrlf :: "BufferReader \<Rightarrow> u8 list \<times> BufferReader" where
  "readUntilCrlf b = (case findLastCrlf b of None \<Rightarrow> ([], b) | Some crlf \<Rightarrow> (take (crlf + 2) (readable b), retrieve (crlf + 2) b))"

subsection \<open>The stream of bytes\<close>

definition reader_wf :: "BufferReader \<Rightarrow> bool" where
  "reader_wf b \<longleftrightarrow> br_readerIndex b \<le> br_writerIndex b \<and> br_writerIndex b \<le> length (br_buffer b) \<and> length (br_buffer b) \<le> 12288"

lemma length_readable: "reader_wf b \<Longrightarrow> length (readable b) = readableBytes b"
  by (auto simp: readable_def readableBytes_def reader_wf_def)

lemma retrieve_readable: "reader_wf b \<Longrightarrow> readable (retrieve len b) = drop len (readable b) \<and> reader_wf (retrieve len b)"
  by (auto simp: retrieve_def retrieveAll_def readable_def readableBytes_def reader_wf_def Let_def drop_take add.commute)

lemma last_crlf_bound: "last_crlf bs = Some n \<Longrightarrow> n + 2 \<le> length bs"
  by (induction bs arbitrary: n rule: last_crlf.induct) (auto split: option.splits if_splits)

lemma first_crlf_bound: "first_crlf bs = Some n \<Longrightarrow> n + 2 \<le> length bs"
  by (induction bs arbitrary: n rule: first_crlf.induct) (auto split: option.splits if_splits)

lemma take_drop_insert:
  assumes "r \<le> w" "w \<le> length m"
  shows "take (w + length bs - r) (drop r (take w m @ bs @ rest)) = take (w - r) (drop r m) @ bs"
proof -
  have "drop r (take w m @ bs @ rest) = take (w - r) (drop r m) @ bs @ rest" "length (take (w - r) (drop r m)) = w - r"
    using assms by (simp_all add: drop_take)
  moreover have "w + length bs - r = (w - r) + length bs" using assms by simp
  ultimately show ?thesis by (simp del: length_take length_drop)
qed

lemma readFd_readable:
  assumes "reader_wf b" "length bs \<le> 2048"
  shows "readFd (Some bs) b = Inr (0, b) \<or> (\<exists>b'. readFd (Some bs) b = Inr (int (length bs), b') \<and> readable b' = readable b @ bs \<and> reader_wf b')"
proof (cases "writableBytes b < MAX_BYTES_PER_READ \<and> length (br_buffer b) > MAX_BUFFER_SIZE")
  case False
  let ?b = "if writableBytes b < MAX_BYTES_PER_READ then b\<lparr>br_buffer := br_buffer b @ replicate MAX_BYTES_PER_READ 0\<rparr> else b"
  let ?m = "br_buffer ?b" and ?w = "br_writerIndex b" and ?r = "br_readerIndex b"
  have b: "?w + length bs \<le> length ?m" "length ?m \<le> 12288" "?r \<le> ?w" "take (?w - ?r) (drop ?r ?m) = readable b" "br_writerIndex ?b = ?w"
    using assms False by (auto simp: reader_wf_def writableBytes_def MAX_BYTES_PER_READ_def MAX_BUFFER_SIZE_def readable_def readableBytes_def)
  define m where "m = take ?w ?m @ bs @ drop (?w + length bs) ?m"
  have st: "stores ?w bs ?m = Inr m" using b(1) by (simp add: stores_ok m_def)
  let ?b' = "?b\<lparr>br_buffer := m, br_writerIndex := ?w + length bs\<rparr>"
  have "take (?w + length bs - ?r) (drop ?r m) = take (?w - ?r) (drop ?r ?m) @ bs"
    unfolding m_def using b(1,3) by (intro take_drop_insert) auto
  then have "readable ?b' = readable b @ bs" using b(4) by (simp add: readable_def readableBytes_def)
  moreover have "reader_wf ?b'" using b by (simp add: reader_wf_def m_def)
  moreover have "readFd (Some bs) b = Inr (int (length bs), ?b')" using False by (simp only: readFd_def Let_def if_False option.case st b(5) bind_result_simps)
  ultimately show ?thesis by blast
qed (simp add: readFd_def)

datatype reader_op = Recv "u8 list option" | Retrieve nat | RetrieveAll | ReadAll | ReadUntilCrlf

text \<open>A history: the bytes that came in, the bytes that were taken out, and the reader after it.\<close>

primrec run_reader :: "reader_op list \<Rightarrow> BufferReader \<Rightarrow> (u8 list \<times> u8 list \<times> BufferReader) result" where
  "run_reader [] b = Inr ([], [], b)"
| "run_reader (act # ops) b = (case act of
     Recv r \<Rightarrow> bind_result (readFd r b) (\<lambda>(ret, b). bind_result (run_reader ops b) (\<lambda>(rec, out, b). Inr ((if ret > 0 then the r else []) @ rec, out, b)))
   | Retrieve n \<Rightarrow> bind_result (run_reader ops (retrieve n b)) (\<lambda>(rec, out, b'). Inr (rec, take n (readable b) @ out, b'))
   | RetrieveAll \<Rightarrow> bind_result (run_reader ops (retrieveAll b)) (\<lambda>(rec, out, b'). Inr (rec, readable b @ out, b'))
   | ReadAll \<Rightarrow> let (bs, b) = readAll b in bind_result (run_reader ops b) (\<lambda>(rec, out, b). Inr (rec, bs @ out, b))
   | ReadUntilCrlf \<Rightarrow> let (bs, b) = readUntilCrlf b in bind_result (run_reader ops b) (\<lambda>(rec, out, b). Inr (rec, bs @ out, b)))"

definition recv_ok :: "reader_op \<Rightarrow> bool" where
  "recv_ok act = (case act of Recv (Some bs) \<Rightarrow> length bs \<le> MAX_BYTES_PER_READ | _ \<Rightarrow> True)"

lemma readFd_failed: "reader_wf b \<Longrightarrow> \<exists>ret b'. readFd None b = Inr (ret, b') \<and> ret \<le> 0 \<and> readable b' = readable b \<and> reader_wf b'"
  by (auto simp: readFd_def Let_def readable_def readableBytes_def reader_wf_def writableBytes_def MAX_BYTES_PER_READ_def MAX_BUFFER_SIZE_def)

lemma retrieveAll_readable: "reader_wf b \<Longrightarrow> readable (retrieveAll b) = [] \<and> reader_wf (retrieveAll b)"
  by (auto simp: retrieveAll_def readable_def readableBytes_def reader_wf_def)

lemma readAll_readable: "reader_wf b \<Longrightarrow> readAll b = (bs, b') \<Longrightarrow> readable b = bs @ readable b' \<and> reader_wf b'"
  using length_readable [of b] retrieveAll_readable [of b] by (auto simp: readAll_def retrieveAll_def split: if_splits)

lemma readUntilCrlf_readable: "reader_wf b \<Longrightarrow> readUntilCrlf b = (bs, b') \<Longrightarrow> readable b = bs @ readable b' \<and> reader_wf b'"
  using retrieve_readable [of b] by (auto simp: readUntilCrlf_def split: option.splits)

lemma run_reader_stream:
  assumes "reader_wf b" "list_all recv_ok ops"
  shows "\<exists>rec out b'. run_reader ops b = Inr (rec, out, b') \<and> readable b @ rec = out @ readable b' \<and> reader_wf b'"
  using assms
proof (induction ops arbitrary: b)
  case (Cons act ops)
  note IH = Cons.IH [OF _ Cons.prems(2) [simplified, THEN conjunct2]]
  show ?case
  proof (cases act)
    case (Recv r)
    obtain ret b1 where r: "readFd r b = Inr (ret, b1)" "readable b1 = readable b @ (if ret > 0 then the r else [])" "reader_wf b1"
    proof (cases r)
      case None
      then show ?thesis using readFd_failed [OF Cons.prems(1)] that by fastforce
    next
      case (Some bs)
      then have "length bs \<le> 2048" using Cons.prems(2) Recv by (simp add: recv_ok_def MAX_BYTES_PER_READ_def)
      then show ?thesis using readFd_readable [OF Cons.prems(1), of bs] that [of 0 b] that [of "int (length bs)"] Some Cons.prems(1) by auto
    qed
    then show ?thesis using IH [OF r(3)] Recv by fastforce
  next
    case (Retrieve n)
    have t: "readable b = take n (readable b) @ readable (retrieve n b)" using retrieve_readable [OF Cons.prems(1), of n] by simp
    obtain rec out b' where r: "run_reader ops (retrieve n b) = Inr (rec, out, b')" "readable (retrieve n b) @ rec = out @ readable b'" "reader_wf b'"
      using IH [of "retrieve n b"] retrieve_readable [OF Cons.prems(1), of n] by auto
    have "readable b @ rec = (take n (readable b) @ out) @ readable b'" using r(2) by (subst t) simp
    then show ?thesis using r(1,3) Retrieve by simp
  next
    case RetrieveAll
    then show ?thesis using IH [of "retrieveAll b"] retrieveAll_readable [OF Cons.prems(1)] by fastforce
  next
    case ReadAll
    obtain bs b1 where b: "readAll b = (bs, b1)" by force
    then show ?thesis using IH [of b1] readAll_readable [OF Cons.prems(1) b] ReadAll by fastforce
  next
    case ReadUntilCrlf
    obtain bs b1 where b: "readUntilCrlf b = (bs, b1)" by force
    then show ?thesis using IH [of b1] readUntilCrlf_readable [OF Cons.prems(1) b] ReadUntilCrlf by fastforce
  qed
qed simp

section \<open>Messages to send\<close>

record out_packet =
  op_data :: "u8 list"
  op_size :: u32
  op_writeIndex :: u32

text \<open>\<open>BufferWriter::append\<close>: the bytes are copied into memory that has 512 more bytes, which are never read.\<close>

definition bw_append :: "nat \<Rightarrow> u8 list \<Rightarrow> u32 \<Rightarrow> u32 \<Rightarrow> out_packet list \<Rightarrow> (bool \<times> out_packet list) result" where
  "bw_append maxQueueLength data sz index q =
     (if sz \<le> index then Inr (False, q)
      else if length q \<ge> maxQueueLength then Inr (False, q)
      else bind_result (read_bytes (unat sz) data) (\<lambda>bs.
        Inr (True, q @ [\<lparr>op_data = bs @ replicate 512 0, op_size = sz, op_writeIndex = index\<rparr>])))"

text \<open>What \<open>send\<close> of the operating system does: it takes some of the bytes, or it fails, for now (\<open>EINTR\<close>, \<open>EAGAIN\<close>) or for good. \<open>os k\<close>
  is the call number \<open>k\<close>.\<close>

datatype send_result = Sent nat | Again | Send_failed

type_synonym os_send = "nat \<Rightarrow> u8 list \<Rightarrow> send_result"

text \<open>\<open>BufferWriter::send\<close>: the result, the bytes that went out, the number of the next call and the queue.\<close>

fun bw_send :: "os_send \<Rightarrow> nat \<Rightarrow> out_packet list \<Rightarrow> (int \<times> u8 list \<times> nat \<times> out_packet list) result" where
  "bw_send os k [] = Inr (0, [], k, [])"
| "bw_send os k (pkt # q) =
     bind_result (read_bytes (unat (op_size pkt - op_writeIndex pkt)) (drop (unat (op_writeIndex pkt)) (op_data pkt))) (\<lambda>bs.
     case os k bs of
       Sent n \<Rightarrow>
         if n > 0 then
           let pkt = pkt\<lparr>op_writeIndex := op_writeIndex pkt + of_nat n\<rparr> in
           if op_size pkt = op_writeIndex pkt
           then bind_result (bw_send os (k + 1) q) (\<lambda>(ret, w, k, q). Inr (ret, take n bs @ w, k, q))
           else Inr (int n, take n bs, k + 1, pkt # q)
         else Inr (0, [], k + 1, pkt # q)
     | Again \<Rightarrow> Inr (0, [], k + 1, pkt # q)
     | Send_failed \<Rightarrow> Inr (-1, [], k + 1, pkt # q))"

text \<open>The socket takes no more bytes than it is given.\<close>

definition os_ok :: "os_send \<Rightarrow> bool" where
  "os_ok os \<longleftrightarrow> (\<forall>k bs n. os k bs = Sent n \<longrightarrow> n \<le> length bs)"

definition out_pending :: "out_packet list \<Rightarrow> u8 list" where
  "out_pending q = concat (map (\<lambda>p. drop (unat (op_writeIndex p)) (take (unat (op_size p)) (op_data p))) q)"

definition out_wf :: "out_packet \<Rightarrow> bool" where
  "out_wf p \<longleftrightarrow> unat (op_writeIndex p) < unat (op_size p) \<and> unat (op_size p) \<le> length (op_data p)"

lemma bw_send_conserves:
  assumes "os_ok os" "list_all out_wf q"
  shows "\<exists>ret w k' q'. bw_send os k q = Inr (ret, w, k', q') \<and> w @ out_pending q' = out_pending q \<and> list_all out_wf q' \<and> length q' \<le> length q"
  using assms(2)
proof (induction q arbitrary: k)
  case (Cons p q)
  let ?i = "unat (op_writeIndex p)" and ?n = "unat (op_size p)"
  define bs where "bs = drop ?i (take ?n (op_data p))"
  have wf: "?i < ?n" "?n \<le> length (op_data p)" using Cons.prems by (auto simp: out_wf_def)
  have "unat (op_size p - op_writeIndex p) = ?n - ?i" using wf(1) by (simp add: unat_sub word_le_nat_alt)
  then have rd: "read_bytes (unat (op_size p - op_writeIndex p)) (drop ?i (op_data p)) = Inr bs" using wf by (simp add: bs_def drop_take)
  have len: "length bs = ?n - ?i" using wf by (simp add: bs_def)
  have p: "out_pending (p # q) = bs @ out_pending q" by (simp add: out_pending_def bs_def)
  show ?case
  proof (cases "os k bs")
    case (Sent n)
    then have n: "n \<le> length bs" using assms(1) by (auto simp: os_ok_def)
    then have "?i + n < 2 ^ 32" using len wf(1) unat_32_bound [of "op_size p"] by simp
    then have w: "unat (op_writeIndex p + of_nat n) = ?i + n" by (simp add: unat_word_ariths unat_of_nat_32 unat_of_nat)
    show ?thesis
    proof (cases "0 < n \<and> op_size p = op_writeIndex p + of_nat n")
      case True
      then have "?n = ?i + n" using w by metis
      then have "take n bs = bs" using len by simp
      moreover obtain ret w k' q' where "bw_send os (k + 1) q = Inr (ret, w, k', q')" "w @ out_pending q' = out_pending q" "list_all out_wf q'" "length q' \<le> length q"
        using Cons.IH [of "k + 1"] Cons.prems by auto
      ultimately show ?thesis using True Sent rd p by (simp add: Let_def)
    next
      case False
      let ?p = "p\<lparr>op_writeIndex := op_writeIndex p + of_nat n\<rparr>"
      show ?thesis
      proof (cases "0 < n")
        case True
        then have "?i + n \<noteq> ?n" using False w by (metis word_unat_eq_iff)
        then have "out_wf ?p" using w n len wf by (simp add: out_wf_def)
        moreover have "out_pending (?p # q) = drop n bs @ out_pending q" using w by (simp add: out_pending_def bs_def add.commute)
        then have "take n bs @ out_pending (?p # q) = out_pending (p # q)" by (simp add: p)
        ultimately show ?thesis using True False Sent rd Cons.prems by (simp add: Let_def)
      next
        case False
        then show ?thesis using Sent rd Cons.prems by simp
      qed
    qed
  qed (use rd Cons.prems in simp_all)
qed simp

section \<open>The connection\<close>

text \<open>The fields \<open>tc_writing\<close> and \<open>tc_watched\<close> are those of the channel: whether it waits until the socket can take bytes, and whether the
  scheduler watches it. The last three are the environment: the bytes on the wire, the number of calls of \<open>send\<close>, and how
  often \<open>_disconnectCB\<close> was called.\<close>

record TcpConnection =
  tc_isClosed :: bool
  tc_queue :: "out_packet list"
  tc_writing :: bool
  tc_watched :: bool
  tc_wire :: "u8 list"
  tc_calls :: nat
  tc_disconnects :: nat

definition new_TcpConnection :: TcpConnection where
  "new_TcpConnection = \<lparr>tc_isClosed = False, tc_queue = [], tc_writing = False, tc_watched = True, tc_wire = [], tc_calls = 0, tc_disconnects = 0\<rparr>"

definition kWriteQueue :: nat where "kWriteQueue = 500"

text \<open>The flag is set to \<open>false\<close>, which it is already.\<close>

definition handleClose :: "TcpConnection \<Rightarrow> TcpConnection" where
  "handleClose c =
     (if \<not> tc_isClosed c then c\<lparr>tc_isClosed := False, tc_watched := False, tc_disconnects := tc_disconnects c + 1\<rparr> else c)"

definition handleWrite :: "os_send \<Rightarrow> TcpConnection \<Rightarrow> TcpConnection result" where
  "handleWrite os c =
     (if tc_isClosed c then Inr c
      else bind_result (bw_send os (tc_calls c) (tc_queue c)) (\<lambda>(ret, w, k, q).
        let c = c\<lparr>tc_queue := q, tc_wire := tc_wire c @ w, tc_calls := k\<rparr> in
        if ret < 0 then Inr (handleClose c)
        else if tc_queue c = [] then Inr (if tc_writing c then c\<lparr>tc_writing := False, tc_watched := True\<rparr> else c)
        else Inr (if \<not> tc_writing c then c\<lparr>tc_writing := True, tc_watched := True\<rparr> else c)))"

text \<open>The first result says whether the message was put into the queue; the code does not look at it.\<close>

definition tcp_send :: "os_send \<Rightarrow> u8 list \<Rightarrow> TcpConnection \<Rightarrow> (bool \<times> TcpConnection) result" where
  "tcp_send os data c =
     (if tc_isClosed c then Inr (False, c)
      else bind_result (bw_append kWriteQueue data (of_nat (length data)) 0 (tc_queue c)) (\<lambda>(ok, q).
        bind_result (handleWrite os (c\<lparr>tc_queue := q\<rparr>)) (\<lambda>c. Inr (ok, c))))"

text \<open>What happens to a connection: messages to send, and news from the scheduler that the socket takes bytes.\<close>

datatype tcp_event = Send "u8 list" | Writable

text \<open>A history, with the messages that were put into the queue.\<close>

primrec run_tcp :: "os_send \<Rightarrow> tcp_event list \<Rightarrow> TcpConnection \<Rightarrow> (u8 list list \<times> TcpConnection) result" where
  "run_tcp os [] c = Inr ([], c)"
| "run_tcp os (e # es) c = (case e of
     Send data \<Rightarrow> bind_result (tcp_send os data c) (\<lambda>(ok, c).
       bind_result (run_tcp os es c) (\<lambda>(ms, c). Inr ((if ok then [data] else []) @ ms, c)))
   | Writable \<Rightarrow> bind_result (handleWrite os c) (run_tcp os es))"

text \<open>The connection waits for the socket exactly when bytes are left, as long as no call has failed.\<close>

definition tcp_wf :: "TcpConnection \<Rightarrow> bool" where
  "tcp_wf c \<longleftrightarrow> \<not> tc_isClosed c \<and> list_all out_wf (tc_queue c) \<and>
     (tc_disconnects c = 0 \<longrightarrow> tc_watched c \<and> (tc_writing c \<longleftrightarrow> tc_queue c \<noteq> []))"

definition sane :: "TcpConnection \<Rightarrow> bool" where
  "sane c \<longleftrightarrow> \<not> tc_isClosed c \<and> list_all out_wf (tc_queue c) \<and> (tc_disconnects c = 0 \<longrightarrow> tc_watched c)"

lemma handleWrite_conserves:
  assumes "os_ok os" "sane c"
  shows "\<exists>c'. handleWrite os c = Inr c' \<and> tc_wire c' @ out_pending (tc_queue c') = tc_wire c @ out_pending (tc_queue c) \<and> tcp_wf c' \<and> length (tc_queue c') \<le> length (tc_queue c)"
proof -
  obtain ret w k q where "bw_send os (tc_calls c) (tc_queue c) = Inr (ret, w, k, q)" "w @ out_pending q = out_pending (tc_queue c)" "list_all out_wf q"
      "length q \<le> length (tc_queue c)"
    using bw_send_conserves [OF assms(1), of "tc_queue c" "tc_calls c"] assms(2) by (auto simp: sane_def)
  then show ?thesis using assms(2) by (auto simp: handleWrite_def handleClose_def Let_def tcp_wf_def sane_def)
qed

lemma tcp_send_conserves:
  assumes "os_ok os" "tcp_wf c" "length data < 2 ^ 31"
  shows "\<exists>ok c'. tcp_send os data c = Inr (ok, c') \<and> (ok \<longrightarrow> length (tc_queue c) < kWriteQueue) \<and>
    (length (tc_queue c) < kWriteQueue \<and> data \<noteq> [] \<longrightarrow> ok) \<and>
    tc_wire c' @ out_pending (tc_queue c') = tc_wire c @ out_pending (tc_queue c) @ (if ok then data else []) \<and> tcp_wf c'"
proof -
  have u: "unat (of_nat (length data) :: u32) = length data" using assms(3) by (intro unat_of_nat_32) simp
  let ?new = "\<lparr>op_data = data @ replicate 512 0, op_size = of_nat (length data), op_writeIndex = 0\<rparr>"
  obtain ok where ok: "bw_append kWriteQueue data (of_nat (length data)) 0 (tc_queue c) = Inr (ok, tc_queue c @ (if ok then [?new] else []))"
      "ok \<longleftrightarrow> data \<noteq> [] \<and> length (tc_queue c) < kWriteQueue"
  proof
    show "bw_append kWriteQueue data (of_nat (length data)) 0 (tc_queue c) =
        Inr (data \<noteq> [] \<and> length (tc_queue c) < kWriteQueue, tc_queue c @ (if data \<noteq> [] \<and> length (tc_queue c) < kWriteQueue then [?new] else []))"
      using u by (cases "data = []") (auto simp: bw_append_def word_le_nat_alt read_bytes_def)
  qed simp
  let ?q = "tc_queue c @ (if ok then [?new] else [])"
  have "list_all out_wf ?q" "out_pending ?q = out_pending (tc_queue c) @ (if ok then data else [])"
    using assms(2) u ok(2) by (auto simp: tcp_wf_def out_wf_def out_pending_def)
  then obtain c' where "handleWrite os (c\<lparr>tc_queue := ?q\<rparr>) = Inr c'"
      "tc_wire c' @ out_pending (tc_queue c') = tc_wire c @ out_pending (tc_queue c) @ (if ok then data else [])" "tcp_wf c'"
    using handleWrite_conserves [OF assms(1), of "c\<lparr>tc_queue := ?q\<rparr>"] assms(2) by (auto simp: sane_def tcp_wf_def)
  then show ?thesis using ok assms(2) by (auto simp: tcp_send_def tcp_wf_def)
qed

definition small_event :: "tcp_event \<Rightarrow> bool" where
  "small_event e = (case e of Send data \<Rightarrow> length data < 2 ^ 31 | Writable \<Rightarrow> True)"

lemma run_tcp_conserves:
  assumes "os_ok os" "tcp_wf c" "list_all small_event es"
  shows "\<exists>ms c'. run_tcp os es c = Inr (ms, c') \<and> tc_wire c' @ out_pending (tc_queue c') = tc_wire c @ out_pending (tc_queue c) @ concat ms \<and> tcp_wf c'"
  using assms(2,3)
proof (induction es arbitrary: c)
  case (Cons e es)
  show ?case
  proof (cases e)
    case (Send data)
    then obtain ok c1 where c1: "tcp_send os data c = Inr (ok, c1)" "tcp_wf c1"
        "tc_wire c1 @ out_pending (tc_queue c1) = tc_wire c @ out_pending (tc_queue c) @ (if ok then data else [])"
      using tcp_send_conserves [OF assms(1) Cons.prems(1), of data] Cons.prems(2) by (auto simp: small_event_def)
    obtain ms c' where "run_tcp os es c1 = Inr (ms, c')" "tc_wire c' @ out_pending (tc_queue c') = tc_wire c1 @ out_pending (tc_queue c1) @ concat ms" "tcp_wf c'"
      using Cons.IH [OF c1(2)] Cons.prems(2) by auto
    then show ?thesis using c1 Send by (cases ok) (auto simp flip: append_assoc)
  next
    case Writable
    then obtain c1 where "handleWrite os c = Inr c1" "tcp_wf c1" "tc_wire c1 @ out_pending (tc_queue c1) = tc_wire c @ out_pending (tc_queue c)"
      using handleWrite_conserves [OF assms(1), of c] Cons.prems(1) by (auto simp: tcp_wf_def sane_def)
    then show ?thesis using Cons.IH [of c1] Cons.prems(2) Writable by (fastforce simp flip: append_assoc)
  qed
qed simp

text \<open>A call that fails for good.\<close>

lemma bw_send_failed:
  assumes "bw_send (\<lambda>k bs. Send_failed) k q = Inr (ret, w, k', q')" "q \<noteq> []"
  shows "ret = -1 \<and> w = [] \<and> q' = q"
  using assms by (cases q) auto

lemma bw_append_keeps:
  assumes "bw_append n data sz 0 q = Inr (ok, q')" "0 < sz" "0 < n"
  shows "q' \<noteq> []"
  using assms by (auto simp: bw_append_def split: if_splits)

lemma send_failed_disconnects:
  assumes "tcp_wf c" "tcp_send (\<lambda>k bs. Send_failed) data c = Inr (ok, c')" "data \<noteq> [] \<and> length data < 2 ^ 31"
  shows "tc_wire c' = tc_wire c \<and> tc_disconnects c' = tc_disconnects c + 1"
proof -
  have pos: "0 < (of_nat (length data) :: u32)" using assms(3) unat_of_nat_32 [of "length data"] by (simp add: word_less_nat_alt)
  obtain q where q: "bw_append kWriteQueue data (of_nat (length data)) 0 (tc_queue c) = Inr (ok, q)" "handleWrite (\<lambda>k bs. Send_failed) (c\<lparr>tc_queue := q\<rparr>) = Inr c'"
    using assms(1,2) by (auto simp: tcp_send_def tcp_wf_def)
  have "q \<noteq> []" using bw_append_keeps [OF q(1) pos] by (simp add: kWriteQueue_def)
  then show ?thesis using q(2) assms(1) by (auto simp: handleWrite_def tcp_wf_def handleClose_def Let_def dest!: bw_send_failed)
qed

text \<open>A socket that takes all bytes.\<close>

definition greedy :: os_send where
  "greedy k bs = Sent (length bs)"

lemma greedy_ok: "os_ok greedy"
  by (simp add: os_ok_def greedy_def)

lemma tcp_send_greedy:
  assumes "tcp_wf c" "tc_queue c = []" "data \<noteq> []" "length data < 2 ^ 31"
  shows "\<exists>c'. tcp_send greedy data c = Inr (True, c') \<and> tcp_wf c' \<and> tc_queue c' = []"
proof -
  have u: "unat (of_nat (length data) :: u32) = length data" using assms(4) by (intro unat_of_nat_32) simp
  have "0 < (of_nat (length data) :: u32)" using u assms(3) by (simp add: word_less_nat_alt)
  then have "bw_append kWriteQueue data (of_nat (length data)) 0 [] = Inr (True, [\<lparr>op_data = data @ replicate 512 0, op_size = of_nat (length data), op_writeIndex = 0\<rparr>])"
    using u by (auto simp: bw_append_def kWriteQueue_def read_bytes_def)
  then show ?thesis using assms u tcp_send_conserves [OF greedy_ok assms(1,4)]
    by (auto simp: tcp_send_def handleWrite_def tcp_wf_def greedy_def Let_def read_bytes_def)
qed

lemma run_tcp_greedy:
  assumes "tcp_wf c" "tc_queue c = []" "\<forall>d \<in> set ds. d \<noteq> [] \<and> length d < 2 ^ 31"
  shows "\<exists>c'. run_tcp greedy (map Send ds) c = Inr (ds, c') \<and> tc_queue c' = []"
  using assms
proof (induction ds arbitrary: c)
  case (Cons d ds)
  obtain c1 where "tcp_send greedy d c = Inr (True, c1)" "tcp_wf c1" "tc_queue c1 = []" using tcp_send_greedy [of c d] Cons.prems by auto
  then show ?case using Cons.IH [of c1] Cons.prems(3) by auto
qed simp

section \<open>Arrival\<close>

text \<open>The queue has room for each message when its turn comes.\<close>

primrec tcp_room :: "os_send \<Rightarrow> tcp_event list \<Rightarrow> TcpConnection \<Rightarrow> bool" where
  "tcp_room os [] c \<longleftrightarrow> True"
| "tcp_room os (e # es) c \<longleftrightarrow> (case e of
     Send data \<Rightarrow> data \<noteq> [] \<and> length (tc_queue c) < kWriteQueue \<and> (case tcp_send os data c of Inr (ok, c) \<Rightarrow> tcp_room os es c | Inl _ \<Rightarrow> True)
   | Writable \<Rightarrow> (case handleWrite os c of Inr c \<Rightarrow> tcp_room os es c | Inl _ \<Rightarrow> True))"

definition never_fails :: "os_send \<Rightarrow> bool" where
  "never_fails os \<longleftrightarrow> (\<forall>k bs. os k bs \<noteq> Send_failed)"

text \<open>The next \<open>m\<close> reports that the socket takes bytes are true: the first call after each of them takes at least one byte.\<close>

primrec reports :: "os_send \<Rightarrow> nat \<Rightarrow> TcpConnection \<Rightarrow> bool" where
  "reports os 0 c \<longleftrightarrow> True"
| "reports os (Suc m) c \<longleftrightarrow> (\<forall>bs. bs \<noteq> [] \<longrightarrow> (\<exists>n > 0. os (tc_calls c) bs = Sent n)) \<and>
     (case handleWrite os c of Inr c \<Rightarrow> reports os m c | Inl _ \<Rightarrow> True)"

definition sent_data :: "tcp_event list \<Rightarrow> u8 list list" where
  "sent_data es = concat (map (\<lambda>e. case e of Send d \<Rightarrow> [d] | Writable \<Rightarrow> []) es)"

lemma sent_data_map: "sent_data (map Send ds) = ds"
  by (induction ds) (simp_all add: sent_data_def)

text \<open>A connection none of whose calls has failed.\<close>

definition tcp_live :: "TcpConnection \<Rightarrow> bool" where
  "tcp_live c \<longleftrightarrow> tcp_wf c \<and> tc_disconnects c = 0"

lemma bw_send_result: "never_fails os \<Longrightarrow> bw_send os k q = Inr (ret, w, k', q') \<Longrightarrow> 0 \<le> ret"
  by (induction os k q arbitrary: ret w k' q' rule: bw_send.induct)
    (auto simp: never_fails_def Let_def split: sum.splits if_splits send_result.splits)

lemma handleWrite_live:
  assumes "never_fails os" "handleWrite os c = Inr c'"
  shows "tc_disconnects c' = tc_disconnects c"
  using assms(2) bw_send_result [OF assms(1), of "tc_calls c" "tc_queue c"]
  by (auto simp: handleWrite_def Let_def split: if_splits)

lemma tcp_send_live:
  assumes "never_fails os" "tcp_send os data c = Inr (ok, c')"
  shows "tc_disconnects c' = tc_disconnects c"
  using assms(2) handleWrite_live [OF assms(1)] by (auto simp: tcp_send_def split: if_splits)

lemma run_tcp_room:
  assumes "os_ok os" "never_fails os" "tcp_live c" "list_all small_event es" "tcp_room os es c"
  shows "\<exists>c'. run_tcp os es c = Inr (sent_data es, c') \<and> tcp_live c' \<and>
    tc_wire c' @ out_pending (tc_queue c') = tc_wire c @ out_pending (tc_queue c) @ concat (sent_data es)"
  using assms(3-)
proof (induction es arbitrary: c)
  case (Cons e es)
  have wf: "tcp_wf c" "tc_disconnects c = 0" using Cons.prems(1) by (simp_all add: tcp_live_def)
  show ?case
  proof (cases e)
    case (Send data)
    then have d: "data \<noteq> []" "length (tc_queue c) < kWriteQueue" "length data < 2 ^ 31" using Cons.prems by (simp_all add: small_event_def)
    then obtain c1 where c1: "tcp_send os data c = Inr (True, c1)" "tcp_wf c1"
        "tc_wire c1 @ out_pending (tc_queue c1) = tc_wire c @ out_pending (tc_queue c) @ data"
      using tcp_send_conserves [OF assms(1) wf(1) d(3)] by force
    have "tcp_live c1" using c1(2) tcp_send_live [OF assms(2) c1(1)] wf(2) by (simp add: tcp_live_def)
    then show ?thesis using Cons.IH [of c1] Cons.prems(2,3) c1 Send by (auto simp: sent_data_def)
  next
    case Writable
    obtain c1 where c1: "handleWrite os c = Inr c1" "tcp_wf c1" "tc_wire c1 @ out_pending (tc_queue c1) = tc_wire c @ out_pending (tc_queue c)"
      using handleWrite_conserves [OF assms(1), of c] wf(1) by (auto simp: tcp_wf_def sane_def)
    have "tcp_live c1" using c1(2) handleWrite_live [OF assms(2) c1(1)] wf(2) by (simp add: tcp_live_def)
    then show ?thesis using Cons.IH [of c1] Cons.prems(2,3) c1 Writable by (auto simp: sent_data_def)
  qed
qed (simp add: sent_data_def)

lemma pending_empty: "list_all out_wf q \<Longrightarrow> out_pending q = [] \<longleftrightarrow> q = []"
  by (cases q) (auto simp: out_pending_def out_wf_def)

lemma bw_send_progress:
  assumes "\<forall>bs. bs \<noteq> [] \<longrightarrow> (\<exists>n > 0. os k bs = Sent n)" "bw_send os k q = Inr (ret, w, k', q')" "list_all out_wf q" "q \<noteq> []"
  shows "w \<noteq> []"
proof (cases q)
  case (Cons p q1)
  define bs where "bs = take (unat (op_size p - op_writeIndex p)) (drop (unat (op_writeIndex p)) (op_data p))"
  have wf: "unat (op_writeIndex p) < unat (op_size p)" "unat (op_size p) \<le> length (op_data p)" using assms(3) Cons by (simp_all add: out_wf_def)
  have u: "unat (op_size p - op_writeIndex p) = unat (op_size p) - unat (op_writeIndex p)" using wf(1) by (simp add: unat_sub word_le_nat_alt)
  have rd: "read_bytes (unat (op_size p - op_writeIndex p)) (drop (unat (op_writeIndex p)) (op_data p)) = Inr bs"
    using wf u by (simp add: bs_def)
  have ne: "bs \<noteq> []" using wf u by (simp add: bs_def)
  obtain n where n: "0 < n" "os k bs = Sent n" using assms(1) ne by blast
  then show ?thesis using assms(2) rd ne unfolding Cons by (auto simp: Let_def split: if_splits)
qed (use assms(4) in simp)

lemma handleWrite_progress:
  assumes "os_ok os" "never_fails os" "tcp_live c" "\<forall>bs. bs \<noteq> [] \<longrightarrow> (\<exists>n > 0. os (tc_calls c) bs = Sent n)"
  shows "\<exists>c'. handleWrite os c = Inr c' \<and> tcp_live c' \<and> tc_wire c' @ out_pending (tc_queue c') = tc_wire c @ out_pending (tc_queue c) \<and>
    length (out_pending (tc_queue c')) \<le> length (out_pending (tc_queue c)) - 1"
proof -
  have wf: "sane c" "list_all out_wf (tc_queue c)" "\<not> tc_isClosed c" using assms(3) by (simp_all add: tcp_live_def tcp_wf_def sane_def)
  obtain c' where c': "handleWrite os c = Inr c'" "tcp_wf c'" "tc_wire c' @ out_pending (tc_queue c') = tc_wire c @ out_pending (tc_queue c)"
    using handleWrite_conserves [OF assms(1) wf(1)] by blast
  have live: "tcp_live c'" using c'(2) handleWrite_live [OF assms(2) c'(1)] assms(3) by (simp add: tcp_live_def)
  obtain ret w k q where b: "bw_send os (tc_calls c) (tc_queue c) = Inr (ret, w, k, q)" "w @ out_pending q = out_pending (tc_queue c)"
    using bw_send_conserves [OF assms(1) wf(2), of "tc_calls c"] by blast
  then have q: "tc_queue c' = q" using c'(1) wf(3) by (auto simp: handleWrite_def handleClose_def Let_def split: if_splits)
  have "length (out_pending q) \<le> length (out_pending (tc_queue c)) - 1"
  proof (cases "tc_queue c = []")
    case True
    then show ?thesis using b by (simp add: out_pending_def)
  next
    case False
    then have "w \<noteq> []" using bw_send_progress [OF assms(4) b(1) wf(2)] by simp
    then show ?thesis using b(2) [symmetric] by (cases w) simp_all
  qed
  then show ?thesis using c'(1,3) live q by auto
qed

text \<open>Enough true reports empty the queue.\<close>

lemma reports_drain:
  assumes "os_ok os" "never_fails os" "tcp_live c" "reports os m c" "length (out_pending (tc_queue c)) \<le> m"
  shows "\<exists>c'. run_tcp os (replicate m Writable) c = Inr ([], c') \<and> tc_queue c' = [] \<and> tc_wire c' = tc_wire c @ out_pending (tc_queue c)"
  using assms(3-)
proof (induction m arbitrary: c)
  case 0
  then show ?case using pending_empty [of "tc_queue c"] by (simp add: tcp_live_def tcp_wf_def)
next
  case (Suc m)
  obtain c1 where c1: "handleWrite os c = Inr c1" "tcp_live c1" "tc_wire c1 @ out_pending (tc_queue c1) = tc_wire c @ out_pending (tc_queue c)"
      "length (out_pending (tc_queue c1)) \<le> length (out_pending (tc_queue c)) - 1"
    using handleWrite_progress [OF assms(1,2) Suc.prems(1)] Suc.prems(2) by auto
  have "reports os m c1" "length (out_pending (tc_queue c1)) \<le> m" using Suc.prems(2,3) c1(1,4) by simp_all
  then show ?case using Suc.IH [OF c1(2)] c1(1,3) by auto
qed

section \<open>Properties\<close>

text \<open>C29. The buffer of received bytes never leaves its memory: from a new buffer of 2048 bytes, whatever is received (at most 2048 bytes at a time, as
  \<open>recv\<close> is told), retrieved or read, in any order, no access is out of bounds, the memory stays below 12289 bytes, and the bytes taken out followed by the bytes
  still readable are the bytes that came in.\<close>

theorem reader_stream:
  assumes "list_all recv_ok ops"
  shows "\<exists>rec out b. run_reader ops (new_BufferReader 2048) = Inr (rec, out, b) \<and> rec = out @ readable b \<and>
    br_readerIndex b \<le> br_writerIndex b \<and> br_writerIndex b \<le> length (br_buffer b) \<and> length (br_buffer b) \<le> 12288"
proof -
  have "reader_wf (new_BufferReader 2048)" "readable (new_BufferReader 2048) = []"
    by (simp_all add: reader_wf_def new_BufferReader_def readable_def readableBytes_def)
  then show ?thesis using run_reader_stream [OF _ assms, of "new_BufferReader 2048"] by (auto simp: reader_wf_def)
qed

lemma reader_stream_witness:
  "\<exists>rec out b. run_reader [Recv (Some [65, 13, 10, 66]), ReadUntilCrlf, Recv None, Recv (Some [67]), Retrieve 1] (new_BufferReader 2048) = Inr (rec, out, b) \<and>
    rec = out @ readable b \<and> br_readerIndex b \<le> br_writerIndex b \<and> br_writerIndex b \<le> length (br_buffer b) \<and> length (br_buffer b) \<le> 12288"
  by (rule reader_stream) (simp add: recv_ok_def MAX_BYTES_PER_READ_def)

text \<open>C22. A connection puts its messages on the wire in order and complete: whatever part of the bytes the socket takes at each call and whenever it reports that it
  can take more, the bytes on the wire followed by those still in the queue are the messages that were accepted, one after the other; no access is out of
  bounds; and as long as no call has failed for good, the connection waits for the socket exactly when bytes are left, so that none are
  forgotten.\<close>

theorem tcp_stream:
  assumes "os_ok os" "list_all small_event es"
  shows "\<exists>ms c. run_tcp os es new_TcpConnection = Inr (ms, c) \<and> tc_wire c @ out_pending (tc_queue c) = concat ms \<and>
    (tc_disconnects c = 0 \<longrightarrow> tc_watched c \<and> (tc_writing c \<longleftrightarrow> tc_queue c \<noteq> []))"
proof -
  have "tcp_wf new_TcpConnection" "tc_wire new_TcpConnection @ out_pending (tc_queue new_TcpConnection) = []"
    by (simp_all add: tcp_wf_def new_TcpConnection_def out_pending_def)
  then show ?thesis using run_tcp_conserves [OF assms(1) _ assms(2), of new_TcpConnection] by (auto simp: tcp_wf_def)
qed

lemma tcp_stream_witness:
  "\<exists>ms c. run_tcp (\<lambda>k bs. if k = 1 then Again else Sent (min 2 (length bs))) [Send [1, 2, 3], Send [4, 5], Writable] new_TcpConnection = Inr (ms, c) \<and>
    tc_wire c @ out_pending (tc_queue c) = concat ms \<and> (tc_disconnects c = 0 \<longrightarrow> tc_watched c \<and> (tc_writing c \<longleftrightarrow> tc_queue c \<noteq> []))"
  by (rule tcp_stream) (simp_all add: os_ok_def small_event_def split: if_splits)

text \<open>A connection whose socket has failed is never closed: \<open>handleClose\<close> sets the flag \<open>_isClosed\<close> to \<open>false\<close>. When every call of \<open>send\<close> fails for good, each further message
  runs into the same failure and disconnects the connection once more.\<close>

theorem close_never_closes:
  assumes "\<forall>d \<in> set ds. d \<noteq> [] \<and> length d < 2 ^ 31"
  shows "\<exists>ms c. run_tcp (\<lambda>k bs. Send_failed) (map Send ds) new_TcpConnection = Inr (ms, c) \<and> \<not> tc_isClosed c \<and> tc_wire c = [] \<and>
    tc_disconnects c = length ds"
proof -
  let ?os = "(\<lambda>k bs. Send_failed) :: os_send"
  have "\<exists>ms c'. run_tcp ?os (map Send ds) c = Inr (ms, c') \<and> \<not> tc_isClosed c' \<and> tc_wire c' = tc_wire c \<and> tc_disconnects c' = tc_disconnects c + length ds"
    if "tcp_wf c" for c
    using assms that
  proof (induction ds arbitrary: c)
    case Nil
    then show ?case by (simp add: tcp_wf_def)
  next
    case (Cons d ds)
    obtain ok c1 where c1: "tcp_send ?os d c = Inr (ok, c1)" "tcp_wf c1" using tcp_send_conserves [of ?os c d] Cons.prems by (auto simp: os_ok_def)
    then have "tc_wire c1 = tc_wire c \<and> tc_disconnects c1 = tc_disconnects c + 1" using send_failed_disconnects [OF _ c1(1)] Cons.prems by simp
    then show ?case using Cons.IH [of c1] Cons.prems c1 by auto
  qed
  from this [of new_TcpConnection] show ?thesis by (simp add: new_TcpConnection_def tcp_wf_def)
qed

lemma close_never_closes_witness:
  "\<exists>ms c. run_tcp (\<lambda>k bs. Send_failed) (map Send [[1], [2, 3]]) new_TcpConnection = Inr (ms, c) \<and> \<not> tc_isClosed c \<and> tc_wire c = [] \<and>
    tc_disconnects c = length [[1], [2, 3 :: u8]]"
  by (rule close_never_closes) simp

end
