(* ===== verification/Rtsp_Request.thy ===== *)
theory Rtsp_Request
  imports Rtsp_Buffer Rtp_Connection
begin

text \<open>
  The requests of the RTSP server (\<open>RtspRequest\<close> of \<open>rtsp/RtspMessage.cpp\<close>): the parser of the request line and of the headers, over the
  bytes that a connection has received. A \<open>SETUP\<close> request comes out with the parts it was made of; a URL without a port that is longer
  than the array for the host overflows it.
\<close>

section \<open>Scanning text\<close>

definition ascii :: "string \<Rightarrow> u8 list" where
  "ascii s = map of_char s"

definition is_space :: "u8 \<Rightarrow> bool" where
  "is_space c \<longleftrightarrow> c = 32 \<or> 9 \<le> c \<and> c \<le> 13"

definition is_digit :: "u8 \<Rightarrow> bool" where
  "is_digit c \<longleftrightarrow> 48 \<le> c \<and> c \<le> 57"

text \<open>The conversions of \<open>sscanf\<close>: \<open>%s\<close>, a run of other characters \<open>%[^c]\<close>, a literal, and an unsigned number, which saturates at the largest
  \<open>unsigned long\<close>. None of them has a width, so storing a run can leave the array: \<open>put_chars\<close>.\<close>

definition scan_s :: "u8 list \<Rightarrow> (u8 list \<times> u8 list) option" where
  "scan_s bs = (let r = dropWhile is_space bs; tok = takeWhile (\<lambda>c. \<not> is_space c) r in
     if tok = [] then None else Some (tok, drop (length tok) r))"

definition scan_until :: "u8 \<Rightarrow> u8 list \<Rightarrow> (u8 list \<times> u8 list) option" where
  "scan_until c bs = (let tok = takeWhile (\<lambda>x. x \<noteq> c) bs in if tok = [] then None else Some (tok, drop (length tok) bs))"

definition scan_char :: "u8 \<Rightarrow> u8 list \<Rightarrow> u8 list option" where
  "scan_char c bs = (case bs of [] \<Rightarrow> None | x # r \<Rightarrow> if x = c then Some r else None)"

definition dec_value :: "u8 list \<Rightarrow> nat" where
  "dec_value ds = foldl (\<lambda>n d. n * 10 + (unat d - 48)) 0 ds"

definition scan_unsigned :: "u8 list \<Rightarrow> (u32 \<times> u8 list) option" where
  "scan_unsigned bs =
     (let r = dropWhile is_space bs;
          neg = (r \<noteq> [] \<and> hd r = 45);
          r = (if r \<noteq> [] \<and> (hd r = 43 \<or> hd r = 45) then tl r else r);
          ds = takeWhile is_digit r; n = dec_value ds in
      if ds = [] then None
      else Some (if n \<ge> 2 ^ 32 then -1 else if neg then - of_nat n else of_nat n, drop (length ds) r))"

definition put_chars :: "nat \<Rightarrow> u8 list \<Rightarrow> unit result" where
  "put_chars cap tok = guard_result Write_out_of_bounds (length tok < cap)"

text \<open>\<open>std::string::find\<close>, and the C string that a string holds.\<close>

fun find_sub :: "u8 list \<Rightarrow> u8 list \<Rightarrow> nat option" where
  "find_sub pat [] = (if pat = [] then Some 0 else None)"
| "find_sub pat (x # xs) = (if take (length pat) (x # xs) = pat then Some 0 else map_option Suc (find_sub pat xs))"

definition c_str :: "u8 list \<Rightarrow> u8 list" where
  "c_str s = takeWhile (\<lambda>c. c \<noteq> 0) s"

section \<open>Requests\<close>

datatype RtspRequestParseState = kParseRequestLine | kParseHeadersLine | kGotAll

datatype Method = OPTIONS | DESCRIBE | SETUP | PLAY | TEARDOWN | GET_PARAMETER | RTCP | NONE

type_synonym params = "(string \<times> u8 list \<times> u32) list"

record RtspRequest =
  rq_method :: Method
  rq_channelId :: nat
  rq_transport :: TransportMode
  rq_requestLineParam :: params
  rq_headerLineParam :: params
  rq_state :: RtspRequestParseState

definition emplace :: "string \<Rightarrow> u8 list \<times> u32 \<Rightarrow> params \<Rightarrow> params" where
  "emplace k v m = (if map_of m k = None then (k, v) # m else m)"

definition request_reset :: "RtspRequest \<Rightarrow> RtspRequest" where
  "request_reset r = r\<lparr>rq_state := kParseRequestLine, rq_requestLineParam := [], rq_headerLineParam := []\<rparr>"

definition gotAll :: "RtspRequest \<Rightarrow> bool" where
  "gotAll r \<longleftrightarrow> rq_state r = kGotAll"

definition method_of :: "u8 list \<Rightarrow> Method" where
  "method_of m =
     (if m = ascii ''OPTIONS'' then OPTIONS else if m = ascii ''DESCRIBE'' then DESCRIBE else if m = ascii ''SETUP'' then SETUP
      else if m = ascii ''PLAY'' then PLAY else if m = ascii ''TEARDOWN'' then TEARDOWN
      else if m = ascii ''GET_PARAMETER'' then GET_PARAMETER else NONE)"

text \<open>\<open>sscanf(message, "%s %s %s", method, url, version)\<close> into arrays of 64, 512 and 64 characters.\<close>

definition scan_request_line :: "u8 list \<Rightarrow> (u8 list \<times> u8 list \<times> u8 list) option result" where
  "scan_request_line s = (case scan_s s of None \<Rightarrow> Inr None | Some (m, s) \<Rightarrow>
     bind_result (put_chars 64 m) (\<lambda>_. case scan_s s of None \<Rightarrow> Inr None | Some (url, s) \<Rightarrow>
     bind_result (put_chars 512 url) (\<lambda>_. case scan_s s of None \<Rightarrow> Inr None | Some (version, s) \<Rightarrow>
     bind_result (put_chars 64 version) (\<lambda>_. Inr (Some (m, url, version))))))"

text \<open>\<open>sscanf(s, "%[^:]:%hu/%s", ip, &port, suffix) == 3\<close> and \<open>sscanf(s, "%[^/]/%s", ip, suffix) == 2\<close>.\<close>

definition scan_url_port :: "u8 list \<Rightarrow> (u8 list \<times> u16 \<times> u8 list) option result" where
  "scan_url_port s = (case scan_until 58 s of None \<Rightarrow> Inr None | Some (ip, s) \<Rightarrow>
     bind_result (put_chars 64 ip) (\<lambda>_. case scan_char 58 s of None \<Rightarrow> Inr None | Some s \<Rightarrow>
     case scan_unsigned s of None \<Rightarrow> Inr None | Some (port, s) \<Rightarrow>
     case scan_char 47 s of None \<Rightarrow> Inr None | Some s \<Rightarrow>
     case scan_s s of None \<Rightarrow> Inr None | Some (suffix, s) \<Rightarrow>
     bind_result (put_chars 64 suffix) (\<lambda>_. Inr (Some (ip, ucast port, suffix)))))"

definition scan_url :: "u8 list \<Rightarrow> (u8 list \<times> u8 list) option result" where
  "scan_url s = (case scan_until 47 s of None \<Rightarrow> Inr None | Some (ip, s) \<Rightarrow>
     bind_result (put_chars 64 ip) (\<lambda>_. case scan_char 47 s of None \<Rightarrow> Inr None | Some s \<Rightarrow>
     case scan_s s of None \<Rightarrow> Inr None | Some (suffix, s) \<Rightarrow>
     bind_result (put_chars 64 suffix) (\<lambda>_. Inr (Some (ip, suffix)))))"

definition parse_url :: "u8 list \<Rightarrow> (u8 list \<times> u16 \<times> u8 list) option result" where
  "parse_url s = bind_result (scan_url_port s) (\<lambda>r. case r of
       Some x \<Rightarrow> Inr (Some x)
     | None \<Rightarrow> bind_result (scan_url s) (\<lambda>r. Inr (map_option (\<lambda>(ip, suffix). (ip, 554, suffix)) r)))"

definition parseRequestLine :: "u8 list \<Rightarrow> RtspRequest \<Rightarrow> (bool \<times> RtspRequest) result" where
  "parseRequestLine message r =
     bind_result (scan_request_line (c_str message)) (\<lambda>line. case line of
       None \<Rightarrow> Inr (True, r)
     | Some (m, url, version) \<Rightarrow>
         let r = r\<lparr>rq_method := method_of m\<rparr> in
         if rq_method r = NONE then Inr (False, r)
         else if take 7 url \<noteq> ascii ''rtsp://'' then Inr (False, r)
         else bind_result (parse_url (drop 7 url)) (\<lambda>parts. case parts of
           None \<Rightarrow> Inr (False, r)
         | Some (ip, port, suffix) \<Rightarrow>
             Inr (True, r\<lparr>rq_requestLineParam :=
                 emplace ''method'' (m, 0) (emplace ''version'' (version, 0) (emplace ''url_suffix'' (suffix, 0)
                   (emplace ''url_port'' ([], ucast port) (emplace ''url_ip'' (ip, 0) (emplace ''url'' (url, 0) (rq_requestLineParam r)))))),
               rq_state := kParseHeadersLine\<rparr>)))"

text \<open>The headers; \<open>%*[^c]\<close> skips a run.\<close>

definition parseCSeq :: "u8 list \<Rightarrow> RtspRequest \<Rightarrow> bool \<times> RtspRequest" where
  "parseCSeq message r = (case find_sub (ascii ''CSeq'') message of
       None \<Rightarrow> (False, r)
     | Some pos \<Rightarrow>
         let cseq = (case Option.bind (Option.bind (scan_until 58 (c_str (drop pos message))) (\<lambda>(_, s). scan_char 58 s)) scan_unsigned of
               None \<Rightarrow> 0 | Some (n, _) \<Rightarrow> n) in
         (True, r\<lparr>rq_headerLineParam := emplace ''cseq'' ([], cseq) (rq_headerLineParam r)\<rparr>))"

definition parseAccept :: "u8 list \<Rightarrow> bool" where
  "parseAccept message \<longleftrightarrow> \<not> (find_sub (ascii ''Accept'') message = None \<or> find_sub (ascii ''sdp'') message = None)"

text \<open>\<open>sscanf(s, "%*[^;];%*[^;];%*[^=]=%hu-%hu", &a, &b) == 2\<close>\<close>

definition scan_pair :: "u8 list \<Rightarrow> (u16 \<times> u16) option" where
  "scan_pair s =
     Option.bind (scan_until 59 s) (\<lambda>(_, s). Option.bind (scan_char 59 s) (\<lambda>s.
     Option.bind (scan_until 59 s) (\<lambda>(_, s). Option.bind (scan_char 59 s) (\<lambda>s.
     Option.bind (scan_until 61 s) (\<lambda>(_, s). Option.bind (scan_char 61 s) (\<lambda>s.
     Option.bind (scan_unsigned s) (\<lambda>(a, s). Option.bind (scan_char 45 s) (\<lambda>s.
     Option.bind (scan_unsigned s) (\<lambda>(b, s). Some (ucast a, ucast b))))))))))"

definition parseTransport :: "u8 list \<Rightarrow> RtspRequest \<Rightarrow> bool \<times> RtspRequest" where
  "parseTransport message r =
     (if find_sub (ascii ''Transport'') message = None then (False, r)
      else case find_sub (ascii ''RTP/AVP/TCP'') message of
        Some pos \<Rightarrow>
          let r = r\<lparr>rq_transport := RTP_OVER_TCP\<rparr> in
          (case scan_pair (c_str (drop pos message)) of
             None \<Rightarrow> (False, r)
           | Some (rtp, rtcp) \<Rightarrow>
               (True, r\<lparr>rq_headerLineParam := emplace ''rtcp_channel'' ([], ucast rtcp) (emplace ''rtp_channel'' ([], ucast rtp) (rq_headerLineParam r))\<rparr>))
      | None \<Rightarrow>
          (case find_sub (ascii ''RTP/AVP'') message of
             None \<Rightarrow> (False, r)
           | Some pos \<Rightarrow>
               let ports = (\<lambda>rtp rtcp r. (True, r\<lparr>rq_headerLineParam :=
                     emplace ''rtcp_port'' ([], ucast (rtcp :: u16)) (emplace ''rtp_port'' ([], ucast (rtp :: u16)) (rq_headerLineParam r))\<rparr>)) in
               if find_sub (ascii ''unicast'') (drop pos message) \<noteq> None then
                 let r = r\<lparr>rq_transport := RTP_OVER_UDP\<rparr> in
                 case scan_pair (c_str (drop pos message)) of None \<Rightarrow> (False, r) | Some (rtp, rtcp) \<Rightarrow> ports rtp rtcp r
               else if find_sub (ascii ''multicast'') (drop pos message) \<noteq> None then ports 0 0 (r\<lparr>rq_transport := RTP_OVER_MULTICAST\<rparr>)
               else (False, r)))"

definition parseSessionId :: "u8 list \<Rightarrow> bool" where
  "parseSessionId message \<longleftrightarrow> (case find_sub (ascii ''Session'') message of
       None \<Rightarrow> False
     | Some pos \<Rightarrow> Option.bind (Option.bind (scan_until 58 (c_str (drop pos message))) (\<lambda>(_, s). scan_char 58 s)) scan_unsigned \<noteq> None)"

definition parseMediaChannel :: "RtspRequest \<Rightarrow> RtspRequest" where
  "parseMediaChannel r = r\<lparr>rq_channelId := (case map_of (rq_requestLineParam r) ''url'' of
       None \<Rightarrow> 0 | Some (url, _) \<Rightarrow> if find_sub (ascii ''track1'') url \<noteq> None then 1 else 0)\<rparr>"

definition parseHeadersLine :: "u8 list \<Rightarrow> RtspRequest \<Rightarrow> bool \<times> RtspRequest" where
  "parseHeadersLine message r =
     (let (ok, r) = parseCSeq message r in
      if \<not> ok \<and> map_of (rq_headerLineParam r) ''cseq'' = None then (False, r)
      else case rq_method r of
        OPTIONS \<Rightarrow> (True, r\<lparr>rq_state := kGotAll\<rparr>)
      | DESCRIBE \<Rightarrow> (True, if parseAccept message then r\<lparr>rq_state := kGotAll\<rparr> else r)
      | SETUP \<Rightarrow> let (ok, r) = parseTransport message r in (True, if ok then (parseMediaChannel r)\<lparr>rq_state := kGotAll\<rparr> else r)
      | PLAY \<Rightarrow> (True, if parseSessionId message then r\<lparr>rq_state := kGotAll\<rparr> else r)
      | TEARDOWN \<Rightarrow> (True, r\<lparr>rq_state := kGotAll\<rparr>)
      | GET_PARAMETER \<Rightarrow> (True, r\<lparr>rq_state := kGotAll\<rparr>)
      | _ \<Rightarrow> (True, r))"

text \<open>\<open>parseRequest\<close>: the turns of its loop for the two kinds of lines, and the loop.\<close>

definition parse_headers :: "bool \<Rightarrow> BufferReader \<Rightarrow> RtspRequest \<Rightarrow> bool \<times> BufferReader \<times> RtspRequest" where
  "parse_headers ret b r = (case findLastCrlf b of
       None \<Rightarrow> (ret, b, r)
     | Some n \<Rightarrow> let (ret, r) = parseHeadersLine (take n (readable b)) r in (ret, retrieve (n + 2) b, r))"

definition parse_request_line :: "BufferReader \<Rightarrow> RtspRequest \<Rightarrow> (bool \<times> BufferReader \<times> RtspRequest) result" where
  "parse_request_line b r = (case findFirstCrlf b of
       None \<Rightarrow> Inr (True, b, r)
     | Some n \<Rightarrow> bind_result (parseRequestLine (take n (readable b)) r) (\<lambda>(ret, r). Inr (ret, retrieve (n + 2) b, r)))"

definition parseRequest :: "BufferReader \<Rightarrow> RtspRequest \<Rightarrow> (bool \<times> BufferReader \<times> RtspRequest) result" where
  "parseRequest b r =
     bind_result (guard_result Read_out_of_bounds (br_readerIndex b < length (br_buffer b))) (\<lambda>_.
     if br_buffer b ! br_readerIndex b = 36 then Inr (True, b, r\<lparr>rq_method := RTCP\<rparr>)
     else case rq_state r of
       kParseRequestLine \<Rightarrow> bind_result (parse_request_line b r) (\<lambda>(ret, b, r).
         if rq_state r = kParseHeadersLine then Inr (parse_headers ret b r) else Inr (ret, b, r))
     | kParseHeadersLine \<Rightarrow> Inr (parse_headers True b r)
     | kGotAll \<Rightarrow> Inr (True, retrieveAll b, r))"

definition request_param :: "string \<Rightarrow> params \<Rightarrow> u8 list \<times> u32" where
  "request_param k m = (case map_of m k of None \<Rightarrow> ([], 0) | Some v \<Rightarrow> v)"

definition getCSeq :: "RtspRequest \<Rightarrow> u32" where
  "getCSeq r = snd (request_param ''cseq'' (rq_headerLineParam r))"

definition getIp :: "RtspRequest \<Rightarrow> u8 list" where
  "getIp r = fst (request_param ''url_ip'' (rq_requestLineParam r))"

definition getRtspUrl :: "RtspRequest \<Rightarrow> u8 list" where
  "getRtspUrl r = fst (request_param ''url'' (rq_requestLineParam r))"

definition getRtspUrlSuffix :: "RtspRequest \<Rightarrow> u8 list" where
  "getRtspUrlSuffix r = fst (request_param ''url_suffix'' (rq_requestLineParam r))"

definition getRtpChannel :: "RtspRequest \<Rightarrow> u8" where
  "getRtpChannel r = ucast (snd (request_param ''rtp_channel'' (rq_headerLineParam r)))"

definition getRtcpChannel :: "RtspRequest \<Rightarrow> u8" where
  "getRtcpChannel r = ucast (snd (request_param ''rtcp_channel'' (rq_headerLineParam r)))"

definition getRtpPort :: "RtspRequest \<Rightarrow> u16" where
  "getRtpPort r = ucast (snd (request_param ''rtp_port'' (rq_headerLineParam r)))"

definition getRtcpPort :: "RtspRequest \<Rightarrow> u16" where
  "getRtcpPort r = ucast (snd (request_param ''rtcp_port'' (rq_headerLineParam r)))"

section \<open>Scanning what was printed\<close>

fun dec :: "nat \<Rightarrow> u8 list" where
  "dec n = (if n < 10 then [48 + of_nat n] else dec (n div 10) @ [48 + of_nat (n mod 10)])"

declare dec.simps [simp del]

lemma takeWhile_run: "\<forall>x \<in> set xs. P x \<Longrightarrow> ys = [] \<or> \<not> P (hd ys) \<Longrightarrow> takeWhile P (xs @ ys) = xs"
  by (cases ys) (auto simp: takeWhile_append2)

lemma digit_unat: "n < 10 \<Longrightarrow> unat (48 + of_nat n :: u8) = 48 + n"
  by (simp add: unat_word_ariths unat_of_nat)

lemma digit_is_digit: "n < 10 \<Longrightarrow> is_digit (48 + of_nat n)"
  using digit_unat [of n] by (simp add: is_digit_def word_le_nat_alt)

lemma dec_digits: "d \<in> set (dec n) \<Longrightarrow> is_digit d"
  by (induction n rule: dec.induct) (subst (asm) (2) dec.simps, auto simp: digit_is_digit split: if_splits)

lemma dec_nonempty [simp]: "dec n \<noteq> []"
  by (subst dec.simps) simp

lemma dec_value_dec: "dec_value (dec n) = n"
proof (induction n rule: dec.induct)
  case (1 n)
  show ?case
  proof (cases "n < 10")
    case True
    then show ?thesis by (subst dec.simps) (simp add: dec_value_def digit_unat)
  next
    case False
    have "dec n = dec (n div 10) @ [48 + of_nat (n mod 10)]" using False by (subst dec.simps) simp
    then show ?thesis using 1 False digit_unat [of "n mod 10"] by (simp add: dec_value_def del: of_nat_mod)
  qed
qed

lemma digit_not_special: "is_digit d \<Longrightarrow> \<not> is_space d \<and> d \<noteq> 43 \<and> d \<noteq> 45 \<and> d \<noteq> 0 \<and> d \<noteq> 13"
  by (auto simp: is_digit_def is_space_def word_le_nat_alt)

lemma scan_unsigned_dec:
  assumes "n < 2 ^ 32" "rest = [] \<or> \<not> is_digit (hd rest)"
  shows "scan_unsigned (dec n @ rest) = Some (of_nat n, rest)" "scan_unsigned (32 # dec n @ rest) = Some (of_nat n, rest)"
proof -
  have d: "\<forall>d \<in> set (dec n). is_digit d" using dec_digits by blast
  have h: "is_digit (hd (dec n))" using d dec_nonempty hd_in_set by blast
  have dw: "dropWhile is_space (dec n @ rest) = dec n @ rest"
    using digit_not_special [OF h] by (cases "dec n") (simp_all add: dec_nonempty [THEN not_sym])
  have hd: "hd (dec n @ rest) = hd (dec n)" by simp
  have tw: "takeWhile is_digit (dec n @ rest) = dec n" using d assms(2) by (rule takeWhile_run)
  show "scan_unsigned (dec n @ rest) = Some (of_nat n, rest)"
    using assms(1) digit_not_special [OF h] unfolding scan_unsigned_def dw Let_def hd by (simp add: tw dec_value_dec)
  moreover have "is_space 32" by (simp add: is_space_def)
  ultimately show "scan_unsigned (32 # dec n @ rest) = Some (of_nat n, rest)" by (simp add: scan_unsigned_def)
qed

text \<open>A word: no white space and no zero.\<close>

definition is_word :: "u8 list \<Rightarrow> bool" where
  "is_word w \<longleftrightarrow> w \<noteq> [] \<and> (\<forall>c \<in> set w. \<not> is_space c \<and> c \<noteq> 0)"

lemma scan_s_word:
  assumes "is_word w" "rest = [] \<or> is_space (hd rest)"
  shows "scan_s (w @ rest) = Some (w, rest)" "scan_s (32 # w @ rest) = Some (w, rest)"
proof -
  have "dropWhile is_space (w @ rest) = w @ rest" using assms(1) by (cases w) (simp_all add: is_word_def)
  moreover have "takeWhile (\<lambda>c. \<not> is_space c) (w @ rest) = w" using assms by (intro takeWhile_run) (auto simp: is_word_def)
  ultimately show "scan_s (w @ rest) = Some (w, rest)" using assms(1) by (simp add: scan_s_def is_word_def)
  moreover have "is_space 32" by (simp add: is_space_def)
  ultimately show "scan_s (32 # w @ rest) = Some (w, rest)" by (simp add: scan_s_def)
qed

lemma scan_until_run: "w \<noteq> [] \<Longrightarrow> c \<notin> set w \<Longrightarrow> scan_until c (w @ c # rest) = Some (w, c # rest)"
proof -
  assume w: "w \<noteq> []" "c \<notin> set w"
  then have "takeWhile (\<lambda>x. x \<noteq> c) (w @ c # rest) = w" by (intro takeWhile_run) auto
  then show ?thesis using w(1) unfolding scan_until_def Let_def by simp
qed

lemma find_sub_skip: "\<forall>x \<in> set xs. x \<noteq> p \<Longrightarrow> find_sub (p # ps) (xs @ ys) = map_option ((+) (length xs)) (find_sub (p # ps) ys)"
  by (cases "find_sub (p # ps) ys"; induction xs) auto

lemma find_sub_here: "find_sub pat (pat @ ys) = Some 0"
proof (cases "pat @ ys")
  case (Cons a zs)
  have "take (length pat) (a # zs) = pat" unfolding Cons [symmetric] by simp
  then show ?thesis unfolding Cons by (simp only: find_sub.simps simp_thms if_True)
qed simp

lemma find_sub_exists: "find_sub pat (xs @ pat @ ys) \<noteq> None"
  by (induction xs) (simp_all add: find_sub_here)

lemma first_crlf_line: "13 \<notin> set line \<Longrightarrow> first_crlf (line @ 13 # 10 # rest) = Some (length line)"
proof (induction line)
  case (Cons x line)
  then show ?case by (cases line) auto
qed simp

lemma last_crlf_end: "last_crlf (xs @ [13, 10]) = Some (length xs)"
proof (induction xs)
  case (Cons x xs)
  then show ?case by (cases xs) auto
qed simp

section \<open>A set-up request\<close>

text \<open>The text of a request that sets up a track over TCP.\<close>

abbreviation crlf :: "u8 list" where "crlf \<equiv> [13, 10]"

definition url_text :: "u8 list \<Rightarrow> nat \<Rightarrow> u8 list \<Rightarrow> u8 list" where
  "url_text ip port suffix = ascii ''rtsp://'' @ ip @ 58 # dec port @ 47 # suffix"

definition line_text :: "u8 list \<Rightarrow> u8 list \<Rightarrow> u8 list \<Rightarrow> u8 list" where
  "line_text m url version = m @ 32 # url @ 32 # version"

definition setup_headers :: "nat \<Rightarrow> nat \<Rightarrow> nat \<Rightarrow> u8 list" where
  "setup_headers cseq rtp rtcp = ascii ''CSeq: '' @ dec cseq @ crlf @ ascii ''Transport: '' @ ascii ''RTP/AVP/TCP'' @ ascii '';unicast;interleaved='' @
     dec rtp @ 45 # dec rtcp @ crlf"

definition setup_request :: "u8 list \<Rightarrow> nat \<Rightarrow> u8 list \<Rightarrow> u8 list \<Rightarrow> nat \<Rightarrow> nat \<Rightarrow> nat \<Rightarrow> u8 list" where
  "setup_request ip port suffix version cseq rtp rtcp =
     line_text (ascii ''SETUP'') (url_text ip port suffix) version @ crlf @ setup_headers cseq rtp rtcp @ crlf"

lemma ascii_codes:
  "ascii ''rtsp://'' = [114, 116, 115, 112, 58, 47, 47]" "ascii ''SETUP'' = [83, 69, 84, 85, 80]" "ascii ''CSeq'' = [67, 83, 101, 113]"
  "ascii ''CSeq: '' = [67, 83, 101, 113, 58, 32]" "ascii ''Transport: '' = [84, 114, 97, 110, 115, 112, 111, 114, 116, 58, 32]"
  "ascii ''Transport'' = [84, 114, 97, 110, 115, 112, 111, 114, 116]" "ascii ''RTP/AVP/TCP'' = [82, 84, 80, 47, 65, 86, 80, 47, 84, 67, 80]"
  "ascii '';unicast;interleaved='' = [59, 117, 110, 105, 99, 97, 115, 116, 59, 105, 110, 116, 101, 114, 108, 101, 97, 118, 101, 100, 61]"
  by (simp_all add: ascii_def)

lemma c_str_id: "\<forall>c \<in> set s. c \<noteq> 0 \<Longrightarrow> c_str s = s"
  by (simp add: c_str_def takeWhile_eq_all_conv)

lemma scan_char_same [simp]: "scan_char c (c # r) = Some r"
  by (simp add: scan_char_def)

lemma line_scanned:
  assumes "is_word m" "is_word url" "is_word version" "length m < 64" "length url < 512" "length version < 64"
  shows "scan_request_line (c_str (line_text m url version)) = Inr (Some (m, url, version))"
proof -
  have z: "c_str (line_text m url version) = line_text m url version" using assms(1-3) by (intro c_str_id) (auto simp: line_text_def is_word_def)
  have sp: "is_space 32" by (simp add: is_space_def)
  have "scan_s (m @ 32 # url @ 32 # version) = Some (m, 32 # url @ 32 # version)" using scan_s_word(1) [OF assms(1)] sp by simp
  moreover have "scan_s (32 # url @ 32 # version) = Some (url, 32 # version)" using scan_s_word(2) [OF assms(2)] sp by simp
  moreover have "scan_s (32 # version) = Some (version, [])" using scan_s_word(2) [OF assms(3), of "[]"] by simp
  ultimately show ?thesis unfolding z using assms(4-6) by (simp add: line_text_def scan_request_line_def put_chars_def)
qed

lemma url_scanned:
  assumes "is_word ip" "58 \<notin> set ip" "length ip < 64" "port < 65536" "is_word suffix" "length suffix < 64"
  shows "parse_url (ip @ 58 # dec port @ 47 # suffix) = Inr (Some (ip, of_nat port, suffix))"
proof -
  have "\<not> is_digit 47" by (simp add: is_digit_def)
  then have "scan_unsigned (dec port @ 47 # suffix) = Some (of_nat port, 47 # suffix)" using assms(4) by (intro scan_unsigned_dec) simp_all
  moreover have "scan_until 58 (ip @ 58 # dec port @ 47 # suffix) = Some (ip, 58 # dec port @ 47 # suffix)"
    using assms(1,2) by (intro scan_until_run) (auto simp: is_word_def)
  moreover have "scan_s suffix = Some (suffix, [])" using scan_s_word(1) [OF assms(5), of "[]"] by simp
  moreover have "ucast (of_nat port :: u32) = (of_nat port :: u16)"
    using assms(4) by (simp add: unsigned_of_nat take_bit_nat_eq_self)
  ultimately show ?thesis using assms(3,6) by (simp add: parse_url_def scan_url_port_def put_chars_def)
qed

lemma url_word: "is_word ip \<Longrightarrow> is_word suffix \<Longrightarrow> is_word (url_text ip port suffix)"
  by (auto simp: is_word_def url_text_def ascii_codes is_space_def dest!: dec_digits digit_not_special)

text \<open>The request line of a method that is known.\<close>

definition line_params :: "u8 list \<Rightarrow> u8 list \<Rightarrow> u8 list \<Rightarrow> u16 \<Rightarrow> u8 list \<Rightarrow> u8 list \<Rightarrow> params" where
  "line_params m url ip port suffix version = [(''method'', m, 0), (''version'', version, 0), (''url_suffix'', suffix, 0),
     (''url_port'', [], ucast port), (''url_ip'', ip, 0), (''url'', url, 0)]"

lemma line_params_emplace:
  "emplace ''method'' (m, 0) (emplace ''version'' (version, 0) (emplace ''url_suffix'' (suffix, 0)
    (emplace ''url_port'' ([], ucast port) (emplace ''url_ip'' (ip, 0) (emplace ''url'' (url, 0) []))))) = line_params m url ip port suffix version"
  by (simp add: emplace_def line_params_def)

lemma request_line_parsed:
  assumes "is_word m" "length m < 64" "method_of m \<noteq> NONE" "is_word ip" "58 \<notin> set ip" "length ip < 64" "port < 65536" "is_word suffix" "length suffix < 64"
    "is_word version" "length version < 64" "length (url_text ip port suffix) < 512" "rq_requestLineParam r = []"
  shows "parseRequestLine (line_text m (url_text ip port suffix) version) r =
    Inr (True, r\<lparr>rq_method := method_of m, rq_requestLineParam := line_params m (url_text ip port suffix) ip (of_nat port) suffix version,
      rq_state := kParseHeadersLine\<rparr>)"
proof -
  note l = line_scanned [OF assms(1) url_word [OF assms(4,8)] assms(10,2,12,11)]
  have "take 7 (url_text ip port suffix) = ascii ''rtsp://''" "drop 7 (url_text ip port suffix) = ip @ 58 # dec port @ 47 # suffix"
    by (simp_all add: url_text_def ascii_codes)
  then show ?thesis using url_scanned [OF assms(4-9)] assms(3,13)
    unfolding parseRequestLine_def l by (simp add: line_params_emplace Let_def)
qed

lemma headers_parsed:
  assumes "cseq < 2 ^ 32" "rtp < 256" "rtcp < 256" "rq_method r = SETUP" "rq_headerLineParam r = []"
  shows "parseHeadersLine (setup_headers cseq rtp rtcp) r = (True, (parseMediaChannel (r\<lparr>rq_transport := RTP_OVER_TCP,
    rq_headerLineParam := [(''rtcp_channel'', [], of_nat rtcp), (''rtp_channel'', [], of_nat rtp), (''cseq'', [], of_nat cseq)]\<rparr>))\<lparr>rq_state := kGotAll\<rparr>)"
proof -
  let ?t = "ascii '';unicast;interleaved='' @ dec rtp @ 45 # dec rtcp @ crlf"
  let ?x = "ascii ''CSeq: '' @ dec cseq @ crlf @ ascii ''Transport: ''"
  let ?m = "setup_headers cseq rtp rtcp"
  have m: "?m = ?x @ ascii ''RTP/AVP/TCP'' @ ?t" by (simp add: setup_headers_def)
  have dig: "d \<noteq> 82 \<and> d \<noteq> 0 \<and> d \<noteq> 59" if "d \<in> set (dec n)" for d n using dec_digits [OF that] by (auto simp: is_digit_def word_le_nat_alt)
  have nz: "\<forall>c \<in> set ?m. c \<noteq> 0" using dig by (auto simp: setup_headers_def ascii_codes)
  have c: "find_sub (ascii ''CSeq'') ?m = Some 0" using find_sub_here [of "ascii ''CSeq''"] by (simp add: setup_headers_def ascii_codes)
  have nd: "\<not> is_digit 13" "\<not> is_digit 45" by (simp_all add: is_digit_def)
  have "c_str ?m = [67, 83, 101, 113] @ 58 # 32 # dec cseq @ 13 # 10 # ascii ''Transport: '' @ ascii ''RTP/AVP/TCP'' @ ?t"
    using c_str_id [OF nz] by (simp add: setup_headers_def ascii_codes(4))
  moreover have "scan_until 58 ([67, 83, 101, 113] @ 58 # z) = Some ([67, 83, 101, 113], 58 # z)" for z by (rule scan_until_run) simp_all
  ultimately have cs: "parseCSeq ?m r = (True, r\<lparr>rq_headerLineParam := [(''cseq'', [], of_nat cseq)]\<rparr>)"
    using c scan_unsigned_dec(2) [OF assms(1), of "13 # _"] nd assms(5) by (simp add: parseCSeq_def emplace_def)
  have tr: "find_sub (ascii ''Transport'') ?m \<noteq> None"
    using find_sub_exists [of "ascii ''Transport''" "ascii ''CSeq: '' @ dec cseq @ crlf"] by (simp add: setup_headers_def ascii_codes)
  have nR: "\<forall>c \<in> set ?x. c \<noteq> 82" using dig by (auto simp: ascii_codes)
  have pos: "find_sub (ascii ''RTP/AVP/TCP'') ?m = Some (length ?x)"
    using find_sub_skip [OF nR, of "[84, 80, 47, 65, 86, 80, 47, 84, 67, 80]" "ascii ''RTP/AVP/TCP'' @ ?t"] find_sub_here [of "ascii ''RTP/AVP/TCP''" ?t]
    unfolding m by (simp add: ascii_codes(7))
  have "drop (length ?x) ?m = ascii ''RTP/AVP/TCP'' @ ?t" unfolding m by simp
  moreover have "\<forall>c \<in> set (ascii ''RTP/AVP/TCP'' @ ?t). c \<noteq> 0" using nz unfolding m by simp
  ultimately have cz: "c_str (drop (length ?x) ?m) = ascii ''RTP/AVP/TCP'' @ ?t" by (simp only: c_str_id)
  have u: "scan_until 59 (ascii ''RTP/AVP/TCP'' @ 59 # z) = Some (ascii ''RTP/AVP/TCP'', 59 # z)"
    "scan_until 59 ([117, 110, 105, 99, 97, 115, 116] @ 59 # z) = Some ([117, 110, 105, 99, 97, 115, 116], 59 # z)"
    "scan_until 61 ([105, 110, 116, 101, 114, 108, 101, 97, 118, 101, 100] @ 61 # z) = Some ([105, 110, 116, 101, 114, 108, 101, 97, 118, 101, 100], 61 # z)" for z
    by (rule scan_until_run; simp add: ascii_codes)+
  have n: "scan_unsigned (dec rtp @ 45 # z) = Some (of_nat rtp, 45 # z)" "scan_unsigned (dec rtcp @ crlf) = Some (of_nat rtcp, crlf)" for z
    using assms(2,3) nd by (intro scan_unsigned_dec; simp)+
  have pair: "scan_pair (ascii ''RTP/AVP/TCP'' @ ?t) = Some (ucast (of_nat rtp :: u32), ucast (of_nat rtcp :: u32))"
    using u n by (simp add: scan_pair_def ascii_codes(8))
  have w: "ucast (ucast (of_nat k :: u32) :: u16) = (of_nat k :: u32)" if "k < 256" for k
    using that by (simp add: unsigned_of_nat take_bit_nat_eq_self)
  obtain k where k: "find_sub (ascii ''RTP/AVP/TCP'') ?m = Some k" "c_str (drop k ?m) = ascii ''RTP/AVP/TCP'' @ ?t" using pos cz by blast
  have "parseTransport ?m (r\<lparr>rq_headerLineParam := [(''cseq'', [], of_nat cseq)]\<rparr>) = (True, r\<lparr>rq_transport := RTP_OVER_TCP,
      rq_headerLineParam := [(''rtcp_channel'', [], of_nat rtcp), (''rtp_channel'', [], of_nat rtp), (''cseq'', [], of_nat cseq)]\<rparr>)"
    unfolding parseTransport_def k(1) using tr by (simp add: k(2) pair w [OF assms(2)] w [OF assms(3)] emplace_def)
  then show ?thesis unfolding parseHeadersLine_def cs using assms(4) by simp
qed

lemma setup_request_parts:
  assumes "reader_wf b" "readable b = line @ crlf @ rest @ crlf" "13 \<notin> set line" "line \<noteq> []" "hd line \<noteq> 36"
    "rq_state r = kParseRequestLine" "parseRequestLine line r = Inr (True, r1)" "rq_state r1 = kParseHeadersLine" "parseHeadersLine rest r1 = (True, r2)"
  shows "\<exists>b'. parseRequest b r = Inr (True, b', r2) \<and> readable b' = []"
proof -
  let ?b1 = "retrieve (length line + 2) b" and ?b2 = "retrieve (length rest + 2) (retrieve (length line + 2) b)"
  have b1: "readable ?b1 = rest @ crlf" "reader_wf ?b1" using retrieve_readable [OF assms(1), of "length line + 2"] assms(2) by simp_all
  have b2: "readable ?b2 = []" using retrieve_readable [OF b1(2), of "length rest + 2"] b1(1) by simp
  have ne: "0 < length (readable b)" using assms(2) by simp
  have hd: "br_buffer b ! br_readerIndex b = hd line" "br_readerIndex b < length (br_buffer b)"
  proof -
    show i: "br_readerIndex b < length (br_buffer b)" using ne assms(1) length_readable [OF assms(1)] by (simp add: reader_wf_def readableBytes_def)
    have "readable b ! 0 = br_buffer b ! br_readerIndex b" using ne i length_readable [OF assms(1)] by (simp add: readable_def)
    then show "br_buffer b ! br_readerIndex b = hd line" using assms(2,4) by (cases line) simp_all
  qed
  have "findFirstCrlf b = Some (length line)" using first_crlf_line [OF assms(3)] assms(2) by (simp add: findFirstCrlf_def)
  moreover have "findLastCrlf ?b1 = Some (length rest)" using last_crlf_end [of rest] b1(1) by (simp add: findLastCrlf_def)
  moreover have "take (length line) (readable b) = line" "take (length rest) (readable ?b1) = rest" using assms(2) b1(1) by simp_all
  ultimately have "parseRequest b r = Inr (True, ?b2, r2)"
    using assms(5-9) hd unfolding parseRequest_def parse_request_line_def parse_headers_def by simp
  then show ?thesis using b2 by blast
qed

text \<open>The parts of a request that the arrays of \<open>parseRequestLine\<close> can hold; none of the conversions has a
  width, so a longer part is written past the end of its array.\<close>

definition request_fits :: "u8 list \<Rightarrow> nat \<Rightarrow> u8 list \<Rightarrow> u8 list \<Rightarrow> bool" where
  "request_fits ip port suffix version \<longleftrightarrow>
     length ip < 64 \<and> length suffix < 64 \<and> length version < 64 \<and> length (url_text ip port suffix) < 512"

lemma line_overflow:
  assumes "is_word m" "is_word url" "is_word version" "length m < 64" "\<not> (length url < 512 \<and> length version < 64)"
  shows "scan_request_line (c_str (line_text m url version)) = Inl Write_out_of_bounds"
proof -
  have z: "c_str (line_text m url version) = line_text m url version" using assms(1-3) by (intro c_str_id) (auto simp: line_text_def is_word_def)
  have sp: "is_space 32" by (simp add: is_space_def)
  have "scan_s (m @ 32 # url @ 32 # version) = Some (m, 32 # url @ 32 # version)" using scan_s_word(1) [OF assms(1)] sp by simp
  moreover have "scan_s (32 # url @ 32 # version) = Some (url, 32 # version)" using scan_s_word(2) [OF assms(2)] sp by simp
  moreover have "scan_s (32 # version) = Some (version, [])" using scan_s_word(2) [OF assms(3), of "[]"] by simp
  ultimately show ?thesis unfolding z using assms(4,5) by (cases "length url < 512") (simp_all add: line_text_def scan_request_line_def put_chars_def)
qed

lemma url_overflow:
  assumes "is_word ip" "58 \<notin> set ip" "port < 65536" "is_word suffix" "\<not> (length ip < 64 \<and> length suffix < 64)"
  shows "parse_url (ip @ 58 # dec port @ 47 # suffix) = Inl Write_out_of_bounds"
proof -
  have "\<not> is_digit 47" by (simp add: is_digit_def)
  then have "scan_unsigned (dec port @ 47 # suffix) = Some (of_nat port, 47 # suffix)" using assms(3) by (intro scan_unsigned_dec) simp_all
  moreover have "scan_until 58 (ip @ 58 # dec port @ 47 # suffix) = Some (ip, 58 # dec port @ 47 # suffix)"
    using assms(1,2) by (intro scan_until_run) (auto simp: is_word_def)
  moreover have "scan_s suffix = Some (suffix, [])" using scan_s_word(1) [OF assms(4), of "[]"] by simp
  ultimately show ?thesis using assms(5) by (cases "length ip < 64") (simp_all add: parse_url_def scan_url_port_def put_chars_def)
qed

lemma request_line_overflow:
  assumes "is_word m" "length m < 64" "method_of m \<noteq> NONE" "is_word ip" "58 \<notin> set ip" "port < 65536" "is_word suffix" "is_word version"
    "\<not> request_fits ip port suffix version"
  shows "parseRequestLine (line_text m (url_text ip port suffix) version) r = Inl Write_out_of_bounds"
proof (cases "length (url_text ip port suffix) < 512 \<and> length version < 64")
  case True
  have u: "take 7 (url_text ip port suffix) = ascii ''rtsp://''" "drop 7 (url_text ip port suffix) = ip @ 58 # dec port @ 47 # suffix"
    by (simp_all add: url_text_def ascii_codes)
  have "\<not> (length ip < 64 \<and> length suffix < 64)" using assms(9) True by (simp add: request_fits_def)
  then show ?thesis using u line_scanned [OF assms(1) url_word [OF assms(4,7)] assms(8,2)] True url_overflow [OF assms(4-7)] assms(3)
    by (simp add: parseRequestLine_def Let_def)
next
  case False
  then show ?thesis using line_overflow [OF assms(1) url_word [OF assms(4,7)] assms(8,2)] by (simp add: parseRequestLine_def)
qed

text \<open>A fault in the request line is a fault of \<open>parseRequest\<close>.\<close>

lemma request_faults:
  assumes "reader_wf b" "readable b = line @ crlf @ rest" "13 \<notin> set line" "line \<noteq> []" "hd line \<noteq> 36"
    "rq_state r = kParseRequestLine" "parseRequestLine line r = Inl e"
  shows "parseRequest b r = Inl e"
proof -
  have ne: "0 < length (readable b)" using assms(2) by simp
  then have i: "br_readerIndex b < length (br_buffer b)"
    using assms(1) length_readable [OF assms(1)] by (simp add: reader_wf_def readableBytes_def)
  have "readable b ! 0 = br_buffer b ! br_readerIndex b" using ne i length_readable [OF assms(1)] by (simp add: readable_def)
  then have "br_buffer b ! br_readerIndex b = hd line" using assms(2,4) by (cases line) simp_all
  moreover have "findFirstCrlf b = Some (length line)" using first_crlf_line [OF assms(3)] assms(2) by (simp add: findFirstCrlf_def)
  moreover have "take (length line) (readable b) = line" using assms(2) by simp
  ultimately show ?thesis using assms(5-7) i unfolding parseRequest_def parse_request_line_def by simp
qed

lemma url_too_long:
  assumes "is_word rest" "58 \<notin> set rest" "64 \<le> length rest"
  shows "parse_url rest = Inl Write_out_of_bounds"
proof -
  have "takeWhile (\<lambda>x. x \<noteq> 58) rest = rest" using assms(2) by (auto simp: takeWhile_eq_all_conv)
  then have "scan_until 58 rest = Some (rest, [])" using assms(1) unfolding scan_until_def Let_def by (simp only: is_word_def) simp
  then show ?thesis using assms(3) by (simp add: parse_url_def scan_url_port_def put_chars_def)
qed

lemma url_too_long_word: "is_word rest \<Longrightarrow> is_word (ascii ''rtsp://'' @ rest)"
  by (auto simp: is_word_def ascii_codes is_space_def)

section \<open>Properties\<close>

text \<open>C28. A \<open>SETUP\<close> request over TCP is understood: when the bytes that the connection has received are the text of such a request, made of a host without colon,
  a port, a path, a version, a sequence number and two channel numbers below 256, and the host, the path and the version have fewer than 64 and the URL fewer
  than 512 characters, then the parser accepts it without leaving any array, takes all of it out of the buffer, and reports the method, the transport, the URL
  and its parts, the port, the version, the sequence number and the two channels it was made of; the track is 1 when the URL mentions \<open>track1\<close>, else 0. When
  one of these four parts is longer, \<open>sscanf\<close> writes past the end of its array.\<close>

theorem setup_request_parsed:
  assumes "reader_wf b" "readable b = setup_request ip port suffix version cseq rtp rtcp" "rq_state r = kParseRequestLine" "rq_requestLineParam r = []"
    "rq_headerLineParam r = []" "is_word ip" "58 \<notin> set ip" "port < 65536" "is_word suffix" "is_word version" "cseq < 2 ^ 32" "rtp < 256" "rtcp < 256"
  shows "if request_fits ip port suffix version
    then \<exists>b' r'. parseRequest b r = Inr (True, b', r') \<and> readable b' = [] \<and> gotAll r' \<and> rq_method r' = SETUP \<and> rq_transport r' = RTP_OVER_TCP \<and>
      getRtspUrl r' = url_text ip port suffix \<and> getIp r' = ip \<and> request_param ''url_port'' (rq_requestLineParam r') = ([], of_nat port) \<and>
      getRtspUrlSuffix r' = suffix \<and> request_param ''version'' (rq_requestLineParam r') = (version, 0) \<and> getCSeq r' = of_nat cseq \<and>
      getRtpChannel r' = of_nat rtp \<and> getRtcpChannel r' = of_nat rtcp \<and>
      rq_channelId r' = (if find_sub (ascii ''track1'') (url_text ip port suffix) \<noteq> None then 1 else 0)
    else parseRequest b r = Inl Write_out_of_bounds"
proof -
  let ?url = "url_text ip port suffix" and ?line = "line_text (ascii ''SETUP'') (url_text ip port suffix) version"
  have m: "is_word (ascii ''SETUP'')" "length (ascii ''SETUP'') < 64" "method_of (ascii ''SETUP'') = SETUP" "method_of (ascii ''SETUP'') \<noteq> NONE"
    by (simp_all add: is_word_def ascii_codes is_space_def method_of_def) (simp_all add: ascii_def)
  have ns: "13 \<notin> set ?line" using m(1) assms(10) url_word [OF assms(6,9), of port] by (auto simp: line_text_def is_word_def is_space_def)
  have hd: "?line \<noteq> []" "hd ?line \<noteq> 36" by (simp_all add: line_text_def ascii_codes)
  have rd: "readable b = ?line @ crlf @ setup_headers cseq rtp rtcp @ crlf" using assms(2) by (simp add: setup_request_def)
  show ?thesis
  proof (cases "request_fits ip port suffix version")
    case False
    then show ?thesis using request_faults [OF assms(1) rd ns hd assms(3)] request_line_overflow [OF m(1,2,4) assms(6-10)] by simp
  next
    case fits: True
    let ?r1 = "r\<lparr>rq_method := SETUP, rq_requestLineParam := line_params (ascii ''SETUP'') ?url ip (of_nat port) suffix version, rq_state := kParseHeadersLine\<rparr>"
    have l: "parseRequestLine ?line r = Inr (True, ?r1)"
      using request_line_parsed [OF m(1,2,4) assms(6,7) _ assms(8,9) _ assms(10) _ _ assms(4)] fits by (simp add: m(3) request_fits_def)
    let ?r2 = "(parseMediaChannel (?r1\<lparr>rq_transport := RTP_OVER_TCP,
      rq_headerLineParam := [(''rtcp_channel'', [], of_nat rtcp), (''rtp_channel'', [], of_nat rtp), (''cseq'', [], of_nat cseq)]\<rparr>))\<lparr>rq_state := kGotAll\<rparr>"
    have h: "parseHeadersLine (setup_headers cseq rtp rtcp) ?r1 = (True, ?r2)" using assms(5,11-13) by (intro headers_parsed) simp_all
    obtain b' where b': "parseRequest b r = Inr (True, b', ?r2)" "readable b' = []"
      using setup_request_parts [OF assms(1) rd ns hd assms(3) l _ h] by auto
    have w: "ucast (of_nat k :: u32) = (of_nat k :: u8)" if "k < 256" for k using that by (simp add: unsigned_of_nat take_bit_nat_eq_self)
    have w16: "ucast (of_nat port :: u16) = (of_nat port :: u32)" using assms(8) by (simp add: unsigned_of_nat take_bit_nat_eq_self)
    have p: "rq_requestLineParam ?r2 = line_params (ascii ''SETUP'') ?url ip (of_nat port) suffix version" by (simp add: parseMediaChannel_def)
    have "gotAll ?r2" "rq_method ?r2 = SETUP" "rq_transport ?r2 = RTP_OVER_TCP" "getCSeq ?r2 = of_nat cseq" "getRtpChannel ?r2 = of_nat rtp" "getRtcpChannel ?r2 = of_nat rtcp"
      using w [OF assms(12)] w [OF assms(13)]
      by (simp_all add: gotAll_def parseMediaChannel_def getCSeq_def getRtpChannel_def getRtcpChannel_def request_param_def)
    moreover have "getRtspUrl ?r2 = ?url" "getIp ?r2 = ip" "getRtspUrlSuffix ?r2 = suffix"
        "request_param ''url_port'' (rq_requestLineParam ?r2) = ([], of_nat port)" "request_param ''version'' (rq_requestLineParam ?r2) = (version, 0)"
      unfolding getRtspUrl_def getIp_def getRtspUrlSuffix_def p by (simp_all add: request_param_def line_params_def w16)
    moreover have "rq_channelId ?r2 = (if find_sub (ascii ''track1'') ?url \<noteq> None then 1 else 0)" by (simp add: parseMediaChannel_def line_params_def)
    ultimately show ?thesis using b' fits by auto
  qed
qed

definition example_request :: "u8 list" where
  "example_request = setup_request (ascii ''10.0.0.1'') 554 (ascii ''live/track0'') (ascii ''RTSP/1.0'') 3 0 1"

definition example_reader :: BufferReader where
  "example_reader = \<lparr>br_buffer = example_request @ replicate 2048 0, br_readerIndex = 0, br_writerIndex = length example_request\<rparr>"

definition example_rtsp_request :: RtspRequest where
  "example_rtsp_request = \<lparr>rq_method = NONE, rq_channelId = 0, rq_transport = RTP_OVER_UDP, rq_requestLineParam = [], rq_headerLineParam = [], rq_state = kParseRequestLine\<rparr>"

lemma setup_request_parsed_witness:
  "\<exists>b' r'. parseRequest example_reader example_rtsp_request = Inr (True, b', r') \<and> readable b' = [] \<and> gotAll r' \<and> rq_method r' = SETUP \<and>
    rq_transport r' = RTP_OVER_TCP \<and> getRtspUrl r' = url_text (ascii ''10.0.0.1'') 554 (ascii ''live/track0'') \<and> getIp r' = ascii ''10.0.0.1'' \<and>
    request_param ''url_port'' (rq_requestLineParam r') = ([], 554) \<and> getRtspUrlSuffix r' = ascii ''live/track0'' \<and>
    request_param ''version'' (rq_requestLineParam r') = (ascii ''RTSP/1.0'', 0) \<and> getCSeq r' = 3 \<and> getRtpChannel r' = 0 \<and> getRtcpChannel r' = 1"
proof -
  have "length example_request < 200"
    by (simp add: example_request_def setup_request_def line_text_def url_text_def setup_headers_def ascii_def dec.simps)
  then have wf: "reader_wf example_reader" by (simp add: reader_wf_def example_reader_def)
  have rd: "readable example_reader = setup_request (ascii ''10.0.0.1'') 554 (ascii ''live/track0'') (ascii ''RTSP/1.0'') 3 0 1"
    unfolding example_request_def [symmetric] by (simp add: readable_def readableBytes_def example_reader_def)
  have fits: "request_fits (ascii ''10.0.0.1'') 554 (ascii ''live/track0'') (ascii ''RTSP/1.0'')"
    by (simp add: request_fits_def ascii_def url_text_def dec.simps)
  have words: "is_word (ascii ''10.0.0.1'')" "58 \<notin> set (ascii ''10.0.0.1'')" "is_word (ascii ''live/track0'')" "is_word (ascii ''RTSP/1.0'')"
    by (simp_all add: is_word_def ascii_def is_space_def)
  have st: "rq_state example_rtsp_request = kParseRequestLine" "rq_requestLineParam example_rtsp_request = []" "rq_headerLineParam example_rtsp_request = []"
    by (simp_all add: example_rtsp_request_def)
  show ?thesis using setup_request_parsed [OF wf rd st words(1,2) _ words(3,4)] fits by auto
qed

text \<open>C37. A long URL overflows the stack: for a request whose method is known, with a URL that has no port and is, behind \<open>rtsp://\<close>, at least 64 characters long
  (all of the arrays of the request line being large enough), \<open>sscanf\<close> with \<open>%[^:]\<close> writes all of it into the array of 64 characters that is meant
  for the host.\<close>

theorem request_url_overflow:
  assumes "is_word m" "length m < 64" "method_of m \<noteq> NONE" "is_word rest" "58 \<notin> set rest" "64 \<le> length rest" "length rest < 505"
    "is_word version" "length version < 64"
  shows "parseRequestLine (line_text m (ascii ''rtsp://'' @ rest) version) r = Inl Write_out_of_bounds"
proof -
  have u: "length (ascii ''rtsp://'' @ rest) < 512" using assms(7) by (simp add: ascii_codes)
  have "take 7 (ascii ''rtsp://'' @ rest) = ascii ''rtsp://''" "drop 7 (ascii ''rtsp://'' @ rest) = rest" by (simp_all add: ascii_codes)
  then show ?thesis using line_scanned [OF assms(1) url_too_long_word [OF assms(4)] assms(8,2) u assms(9)] url_too_long [OF assms(4-6)] assms(3)
    by (simp add: parseRequestLine_def Let_def)
qed

lemma request_url_overflow_witness:
  "parseRequestLine (line_text (ascii ''DESCRIBE'') (ascii ''rtsp://'' @ ascii ''10.0.0.1/'' @ replicate 60 97) (ascii ''RTSP/1.0'')) example_rtsp_request =
    Inl Write_out_of_bounds"
  by (rule request_url_overflow) (simp_all add: is_word_def ascii_def is_space_def method_of_def)

end
