(* ===== verification/Rtsp_Timer.thy ===== *)
theory Rtsp_Timer
  imports IotCam_Prelude
begin

text \<open>
  The timers of the scheduler of the RTSP server (\<open>rtsp/Timer.cpp\<close>, \<open>rtsp/Timer.h\<close>): repeated timers are called once when they are due, in
  the order of their times, and are scheduled again. A timer whose callback returns \<open>false\<close> is taken from one of the two tables only, and
  the loop does not end.
\<close>

section \<open>Operations\<close>

text \<open>A timer object is shared by the two tables and has the id under which it was added; \<open>tq_timers\<close> has the ids of the table
  \<open>_timers\<close>, \<open>tq_events\<close> the keys of the table \<open>_events\<close> in their order. The clock is in milliseconds, the ids are counted from 1
  (there are fewer than \<open>2^32\<close> of them).\<close>

record Timer =
  tm_interval :: int
  tm_nextTimeout :: int

record TimerQueue =
  tq_objects :: "nat \<Rightarrow> Timer"
  tq_timers :: "nat list"
  tq_events :: "(int \<times> nat) list"
  tq_lastTimerId :: nat

definition new_Timer :: "u32 \<Rightarrow> Timer" where
  "new_Timer msec = \<lparr>tm_interval = (if msec = 0 then 1 else uint msec), tm_nextTimeout = 0\<rparr>"

definition setNextTimeout :: "int \<Rightarrow> Timer \<Rightarrow> Timer" where
  "setNextTimeout currentTimePoint t = t\<lparr>tm_nextTimeout := currentTimePoint + tm_interval t\<rparr>"

definition new_TimerQueue :: TimerQueue where
  "new_TimerQueue = \<lparr>tq_objects = (\<lambda>_. new_Timer 0), tq_timers = [], tq_events = [], tq_lastTimerId = 0\<rparr>"

text \<open>The table of events is a map with pairs as keys.\<close>

fun key_less :: "int \<times> nat \<Rightarrow> int \<times> nat \<Rightarrow> bool" where
  "key_less (a, b) (c, d) \<longleftrightarrow> a < c \<or> a = c \<and> b < d"

fun put_event :: "int \<times> nat \<Rightarrow> (int \<times> nat) list \<Rightarrow> (int \<times> nat) list" where
  "put_event k [] = [k]"
| "put_event k (e # es) = (if key_less k e then k # e # es else if k = e then e # es else e # put_event k es)"

definition addTimer :: "int \<Rightarrow> u32 \<Rightarrow> TimerQueue \<Rightarrow> nat \<times> TimerQueue" where
  "addTimer now ms q =
     (let timerId = tq_lastTimerId q + 1;
          timer = setNextTimeout now (new_Timer ms) in
      (timerId, q\<lparr>tq_lastTimerId := timerId, tq_objects := (tq_objects q)(timerId := timer), tq_timers := tq_timers q @ [timerId],
         tq_events := put_event (now + uint ms, timerId) (tq_events q)\<rparr>))"

definition removeTimer :: "nat \<Rightarrow> TimerQueue \<Rightarrow> TimerQueue" where
  "removeTimer timerId q =
     (if timerId \<in> set (tq_timers q) then
        let timeout = tm_nextTimeout (tq_objects q timerId) in
        q\<lparr>tq_events := filter (\<lambda>e. e \<noteq> (timeout, timerId)) (tq_events q), tq_timers := filter (\<lambda>t. t \<noteq> timerId) (tq_timers q)\<rparr>
      else q)"

definition getTimeRemaining :: "int \<Rightarrow> TimerQueue \<Rightarrow> int result" where
  "getTimeRemaining now q =
     (if tq_timers q = [] then Inr (-1)
      else case tq_events q of
        [] \<Rightarrow> Inl Read_out_of_bounds
      | e # _ \<Rightarrow> let msec = fst e - now in Inr (if msec \<le> 0 then 0 else msec))"

text \<open>The loop of \<open>handleTimerEvent\<close>, with fuel: the ids in the order of their calls, and the queue. \<open>cb k i\<close> is what the callback of the timer \<open>i\<close>
  returns when it is the \<open>k\<close>-th callback that is called, so that it may return something else each time.\<close>

fun timer_loop :: "nat \<Rightarrow> nat \<Rightarrow> int \<Rightarrow> (nat \<Rightarrow> nat \<Rightarrow> bool) \<Rightarrow> TimerQueue \<Rightarrow> (nat list \<times> TimerQueue) result option" where
  "timer_loop 0 k timePoint cb q = None"
| "timer_loop (Suc fuel) k timePoint cb q =
     (if tq_timers q = [] then Some (Inr ([], q))
      else case tq_events q of
        [] \<Rightarrow> Some (Inl Read_out_of_bounds)
      | (t, timerId) # es \<Rightarrow>
          if t \<le> timePoint then
            let q' = (if cb k timerId then
                   let timer = setNextTimeout timePoint (tq_objects q timerId) in
                   q\<lparr>tq_objects := (tq_objects q)(timerId := timer), tq_events := put_event (tm_nextTimeout timer, timerId) es\<rparr>
                 else q\<lparr>tq_timers := filter (\<lambda>t. t \<noteq> timerId) (tq_timers q)\<rparr>) in
            map_option (\<lambda>r. bind_result r (\<lambda>(called, q). Inr (timerId # called, q))) (timer_loop fuel (Suc k) timePoint cb q')
          else Some (Inr ([], q)))"

section \<open>Tables that fit together\<close>

text \<open>The events are in order, each belongs to a timer in the other table and has the time that its object knows; there is an
  event for each timer.\<close>

definition timers_wf :: "TimerQueue \<Rightarrow> bool" where
  "timers_wf q \<longleftrightarrow> sorted_wrt key_less (tq_events q) \<and> distinct (map snd (tq_events q)) \<and> set (map snd (tq_events q)) = set (tq_timers q) \<and>
     (\<forall>(t, i) \<in> set (tq_events q). t = tm_nextTimeout (tq_objects q i) \<and> 0 < tm_interval (tq_objects q i) \<and> i \<le> tq_lastTimerId q)"

lemma key_less_trans: "key_less a b \<Longrightarrow> key_less b c \<Longrightarrow> key_less a c"
  by (cases a; cases b; cases c) auto

lemma key_less_linear: "\<not> key_less a b \<Longrightarrow> a \<noteq> b \<Longrightarrow> key_less b a"
  by (cases a; cases b) auto

lemma set_put_event [simp]: "set (put_event k es) = insert k (set es)"
  by (induction es) auto

lemma sorted_put_event: "sorted_wrt key_less es \<Longrightarrow> sorted_wrt key_less (put_event k es)"
  by (induction es) (auto dest: key_less_linear intro: key_less_trans)

lemma distinct_put_event: "distinct (map snd es) \<Longrightarrow> snd k \<notin> snd ` set es \<Longrightarrow> distinct (map snd (put_event k es))"
  by (induction es) auto

lemma addTimer_wf:
  assumes "timers_wf q" "ms \<noteq> 0"
  shows "timers_wf (snd (addTimer now ms q))"
proof -
  have "0 < uint ms" using assms(2) by (simp add: word_neq_0_conv word_less_def)
  moreover have "tq_lastTimerId q + 1 \<notin> snd ` set (tq_events q)" using assms(1) by (fastforce simp: timers_wf_def)
  ultimately show ?thesis using assms
    by (fastforce simp: timers_wf_def addTimer_def Let_def setNextTimeout_def new_Timer_def sorted_put_event distinct_put_event)
qed

lemma removeTimer_wf:
  assumes "timers_wf q"
  shows "timers_wf (removeTimer i q)"
proof (cases "i \<in> set (tq_timers q)")
  case True
  let ?k = "(tm_nextTimeout (tq_objects q i), i)"
  have "e = ?k \<longleftrightarrow> snd e = i" if "e \<in> set (tq_events q)" for e using assms that by (fastforce simp: timers_wf_def)
  then have f: "filter (\<lambda>e. e \<noteq> ?k) (tq_events q) = filter (\<lambda>e. snd e \<noteq> i) (tq_events q)" by (intro filter_cong) auto
  have "set (map snd (filter (\<lambda>e. snd e \<noteq> i) (tq_events q))) = set (filter (\<lambda>t. t \<noteq> i) (tq_timers q))"
    using assms by (auto simp: timers_wf_def)
  then show ?thesis using assms True
    by (auto simp: timers_wf_def removeTimer_def f sorted_wrt_filter distinct_map_filter)
qed (simp add: removeTimer_def assms)

text \<open>Timers that are due come first.\<close>

definition due :: "int \<Rightarrow> TimerQueue \<Rightarrow> (int \<times> nat) list" where
  "due now q = filter (\<lambda>e. fst e \<le> now) (tq_events q)"

lemma due_Nil_if: "sorted_wrt key_less (e # es) \<Longrightarrow> now < fst e \<Longrightarrow> filter (\<lambda>e. fst e \<le> now) (e # es) = []"
  by (cases e) (force simp: filter_empty_conv)

lemma filter_put_event: "\<not> P k \<Longrightarrow> filter P (put_event k es) = filter P es"
  by (induction es) auto

lemma timer_step_wf:
  assumes "timers_wf q" "tq_events q = (t, i) # es"
  shows "timers_wf (q\<lparr>tq_objects := (tq_objects q)(i := setNextTimeout now (tq_objects q i)),
    tq_events := put_event (tm_nextTimeout (setNextTimeout now (tq_objects q i)), i) es\<rparr>)"
proof -
  have "(a, i) \<notin> set es" for a using assms by (force simp: timers_wf_def)
  then show ?thesis using assms by (auto simp: timers_wf_def setNextTimeout_def sorted_put_event distinct_put_event)
qed

lemma timer_loop_repeats:
  assumes "timers_wf q" "\<And>k i. cb k i"
  shows "\<exists>q'. timer_loop (Suc (length (due now q))) k now cb q = Some (Inr (map snd (due now q), q')) \<and> timers_wf q' \<and> tq_timers q' = tq_timers q \<and>
    due now q' = [] \<and> (\<forall>i. tm_interval (tq_objects q' i) = tm_interval (tq_objects q i)) \<and>
    (\<forall>i. tm_nextTimeout (tq_objects q' i) = (if i \<in> snd ` set (due now q) then now + tm_interval (tq_objects q i) else tm_nextTimeout (tq_objects q i)))"
  using assms(1)
proof (induction "length (due now q)" arbitrary: k q)
  case 0
  have "timer_loop (Suc 0) k now cb q = Some (Inr ([], q))"
  proof (cases "tq_events q")
    case Nil
    then show ?thesis using 0 by (simp add: timers_wf_def)
  next
    case (Cons e es)
    then show ?thesis using 0 by (cases e) (auto simp: due_def)
  qed
  then show ?case using 0 by simp
next
  case (Suc n)
  obtain t i es where e: "tq_events q = (t, i) # es" using Suc(2) by (cases "tq_events q") (auto simp: due_def)
  have srt: "sorted_wrt key_less ((t, i) # es)" and ne: "tq_timers q \<noteq> []" and i: "i \<notin> snd ` set es" "0 < tm_interval (tq_objects q i)"
    using Suc(3) e by (auto simp: timers_wf_def)
  have t: "t \<le> now" using due_Nil_if [OF srt, of now] Suc(2) e by (cases "t \<le> now") (simp_all add: due_def)
  let ?timer = "setNextTimeout now (tq_objects q i)"
  let ?q = "q\<lparr>tq_objects := (tq_objects q)(i := ?timer), tq_events := put_event (tm_nextTimeout ?timer, i) es\<rparr>"
  have d: "due now q = (t, i) # due now ?q" using t e i(2) by (simp add: due_def filter_put_event setNextTimeout_def)
  obtain q' where q': "timer_loop (Suc (length (due now ?q))) (Suc k) now cb ?q = Some (Inr (map snd (due now ?q), q'))" "timers_wf q'" "tq_timers q' = tq_timers q"
      "due now q' = []" "\<And>j. tm_interval (tq_objects q' j) = tm_interval (tq_objects ?q j)"
      "\<And>j. tm_nextTimeout (tq_objects q' j) = (if j \<in> snd ` set (due now ?q) then now + tm_interval (tq_objects ?q j) else tm_nextTimeout (tq_objects ?q j))"
    using Suc(1) [of ?q "Suc k"] Suc(2) d timer_step_wf [OF Suc(3) e, of now] by auto
  have "timer_loop (Suc (length (due now q))) k now cb q = Some (Inr (map snd (due now q), q'))"
    using q'(1) t e ne assms(2) unfolding d by (simp add: Let_def)
  moreover have "tm_interval (tq_objects q' j) = tm_interval (tq_objects q j)" for j using q'(5) by (simp add: setNextTimeout_def)
  moreover have "tm_nextTimeout (tq_objects q' j) = (if j \<in> snd ` set (due now q) then now + tm_interval (tq_objects q j) else tm_nextTimeout (tq_objects q j))" for j
    using q'(6) [of j] unfolding d by (auto simp: setNextTimeout_def)
  ultimately show ?case using q'(2-4) by blast
qed

text \<open>A timer that does not want to be called again blocks the loop when there is another one.\<close>

lemma timer_loop_spins:
  assumes "tq_events q = (t, i) # es" "t \<le> now" "\<And>k. \<not> cb k i" "j \<in> set (tq_timers q)" "j \<noteq> i"
  shows "timer_loop fuel k now cb q = None"
  using assms
proof (induction fuel arbitrary: k q)
  case (Suc fuel)
  have "timer_loop fuel (Suc k) now cb (q\<lparr>tq_timers := filter (\<lambda>t. t \<noteq> i) (tq_timers q)\<rparr>) = None" using Suc by (intro Suc.IH) auto
  then show ?case using Suc.prems by (auto simp: Let_def)
qed simp

section \<open>Properties\<close>

text \<open>C30. Repeated timers are called once when they are due: when the two tables fit together and all callbacks return \<open>true\<close>, the loop ends (after one turn for each timer
  that is due), calls exactly the timers that are due, each once and in the order of their times, and schedules each of them one interval after the
  time of the call; the others are left alone, none is due any more, and the tables fit together again.\<close>

theorem timers_fire_once:
  assumes "timers_wf q" "\<forall>k i. cb k i"
  shows "\<exists>q'. timer_loop (Suc (length (due now q))) k now cb q = Some (Inr (map snd (due now q), q')) \<and> timers_wf q' \<and> tq_timers q' = tq_timers q \<and>
    due now q' = [] \<and>
    (\<forall>i. tm_nextTimeout (tq_objects q' i) = (if i \<in> snd ` set (due now q) then now + tm_interval (tq_objects q i) else tm_nextTimeout (tq_objects q i)))"
  using timer_loop_repeats [OF assms(1), of cb now k] assms(2) by blast

definition example_timers :: TimerQueue where
  "example_timers = snd (addTimer 0 7 (snd (addTimer 0 30 (snd (addTimer 0 10 new_TimerQueue)))))"

lemma example_timers_wf: "timers_wf example_timers"
  unfolding example_timers_def by (intro addTimer_wf) (simp_all add: timers_wf_def new_TimerQueue_def)

lemma timers_fire_once_witness:
  "\<exists>q'. timer_loop (Suc (length (due 12 example_timers))) 0 12 (\<lambda>_ _. True) example_timers = Some (Inr (map snd (due 12 example_timers), q')) \<and> timers_wf q' \<and>
    tq_timers q' = tq_timers example_timers \<and> due 12 q' = [] \<and>
    (\<forall>i. tm_nextTimeout (tq_objects q' i) = (if i \<in> snd ` set (due 12 example_timers) then 12 + tm_interval (tq_objects example_timers i)
      else tm_nextTimeout (tq_objects example_timers i)))"
  by (rule timers_fire_once [OF example_timers_wf]) simp

text \<open>C38. A timer that ends blocks the scheduler: when the callback of the first timer that is due returns \<open>false\<close> whenever it is called, and there is another timer, the loop of \<open>handleTimerEvent\<close> never ends, whatever
  the fuel, because the timer is taken out of \<open>_timers\<close> but its event stays the first one of \<open>_events\<close>.\<close>

theorem ended_timer_spins:
  assumes "tq_events q = (t, i) # es" "t \<le> now" "\<forall>k. \<not> cb k i" "j \<in> set (tq_timers q)" "j \<noteq> i"
  shows "timer_loop fuel k now cb q = None"
  using assms by (intro timer_loop_spins) auto

lemma ended_timer_spins_witness: "timer_loop 1000 0 12 (\<lambda>_ i. i \<noteq> 3) example_timers = None"
proof (rule ended_timer_spins)
  show "tq_events example_timers = (7, 3) # [(10, 1), (30, 2)]" by (simp add: example_timers_def addTimer_def new_TimerQueue_def Let_def)
  show "1 \<in> set (tq_timers example_timers)" by (simp add: example_timers_def addTimer_def new_TimerQueue_def Let_def)
qed simp_all

end
