(* ===== verification/Spec2Isabelle.thy ===== *)
theory Spec2Isabelle
  imports IQueue Kcp_Link Kcp_Api Frame_Queue Net_Packet Dhcp_Client Mqtt_Session
    Json_Types Json_Forest Json_Minify Ts_Frame Media_Queue Media_Session Rtsp_Request Rtsp_Timer
begin

text \<open>
  Verification of the program logic of the IoT camera in \<open>src/sample_iotcamera\<close>.

  \<^bold>\<open>The program.\<close> The camera captures audio and video through the vendor's media platform and
  hands the frames to the network threads through queues (\<open>queue.c\<close>, \<open>MEDIAQUEUE\<close>, \<open>EVENTLOOP\<close>). It packs them into an MPEG transport stream (\<open>ts\<close>) and
  serves them to RTSP clients as RTP packets (\<open>rtsp\<close>). It gets its address with a DHCP client
  of its own that builds raw IP packets (\<open>dhclient.c\<close>, \<open>dhcp.c\<close>, \<open>net.c\<close>), is controlled by JSON messages that arrive
  over MQTT (\<open>mqtt/mqtt.c\<close>, \<open>JSON/cJSON.c\<close>), and has a reliable transport over UDP (\<open>KCP/ikcp.c\<close>).

  \<^bold>\<open>How C is modelled.\<close> \<open>IotCam_Prelude\<close> has the machine words (the target is a 32-bit ARM), the faults
  of C (null pointers, accesses outside an array, use after free, double free, failed assertions) as values of an error
  type, and the result monad. Memory that a claim depends on is explicit: an array is a list accessed through
  functions that fault outside it, linked structures live in maps from addresses. Every
  theorem that an operation returns \<open>Inr\<close> therefore says that no such fault happens. What is not part of the
  repository (the operating system, \<open>strtod\<close> and \<open>sprintf\<close>, the MQTT library) is an argument of the
  definitions, with its documented behaviour as a named hypothesis.

  \<^bold>\<open>Theories.\<close>
  \<^item> \<open>Fifo\<close>: the contract of a first-in-first-out queue as a locale; \<open>IQueue\<close>, \<open>Frame_Queue\<close> and the ring buffer of
    \<open>Rtsp_Buffer\<close> interpret it.
  \<^item> \<open>IQueue\<close>: the intrusive queue macros of \<open>KCP/ikcp.h\<close> as pointer assignments, refined to lists.
  \<^item> \<open>Kcp_Codec\<close>: the byte order helpers and the 24-byte segment header; encoding and decoding are inverse.
  \<^item> \<open>Kcp_Data\<close>: the control block, its creation and configuration. \<open>Kcp_Window\<close>: order of serial numbers in a window.
  \<^item> \<open>Kcp_Recv\<close>, \<open>Kcp_Ack\<close>, \<open>Kcp_Send\<close>: \<open>ikcp_parse_data\<close>, \<open>ikcp_peeksize\<close> and \<open>ikcp_recv\<close>; round-trip estimation and
    acknowledgements; \<open>ikcp_send\<close> with fragments and streams.
  \<^item> \<open>Kcp_Inv\<close>: the invariant of the control block. \<open>Kcp_Input\<close>: \<open>ikcp_input\<close> on arbitrary datagrams.
    \<open>Kcp_Flush\<close>: \<open>ikcp_flush\<close>, \<open>ikcp_update\<close>, \<open>ikcp_check\<close>, and the overflow after \<open>ikcp_setmtu\<close> has made the buffer too small for a segment.
  \<^item> \<open>Kcp_Api\<close>: every sequence of calls of the interface, with any bytes as input, keeps the invariant; \<open>call_ok\<close> says what a caller has to observe (sizes of its
    buffers, no smaller MTU than the queued segments need, memory).
  \<^item> \<open>Kcp_Link\<close>: two control blocks and a network that loses, repeats and reorders datagrams, as a step
    relation; messages are delivered in order, complete and unaltered, and no call ever faults.
  \<^item> \<open>Frame_Queue\<close>: \<open>queue.c\<close> on a heap, with its lock; a fault is a configuration of the step relation, and producers and one consumer in any interleaving never
    reach one, two consumers do.
  \<^item> \<open>Net_Packet\<close>, \<open>Dhcp\<close>, \<open>Dhcp_Client\<close>: checksum and headers of \<open>net.c\<close>, checked against the sum of RFC 1071 on the bytes, the messages of \<open>dhcp.c\<close>, and \<open>dhcpmain\<close> from
    the DISCOVER datagram to the requests that configure the interface.
  \<^item> \<open>Mqtt_Session\<close>: the thread, lock and condition of \<open>mqtt/mqtt.c\<close> as a step relation with losses and spurious wake-ups at any time; the
    theorem on publications names the one window that a spurious wake-up opens.
  \<^item> \<open>Json_Data\<close>, \<open>Json_Parse\<close>, \<open>Json_Print\<close>, \<open>Json_Heap\<close>, \<open>Json_Minify\<close>: all functions of \<open>JSON/cJSON.c\<close> but the
    version number and \<open>cJSON_malloc\<close>/\<open>cJSON_free\<close>, which only call the hooks. \<open>Json_Safe\<close> shows that parsing is total
    and safe; \<open>Json_Render\<close> that printing writes exactly the text that \<open>render\<close> specifies;
    \<open>Json_Roundtrip\<close> that parsing a printed text gives the document again (both for strings whose printed size does not wrap around in the 32 bits of
    \<open>size_t\<close>; \<open>long_string_overruns\<close> shows what happens otherwise); \<open>Json_Types\<close> that parsed documents are well typed
    and printable; \<open>Json_Links\<close> that
    the operations on children are those on lists, as a contract for clients in the locale \<open>item_array\<close>;
    \<open>Json_Forest\<close> that deletion frees what is owned, once.
  \<^item> \<open>Media_Queue\<close>: the bounded queue of \<open>MEDIAQUEUE/mqueue.h\<close> and \<open>EVENTLOOP/eventloop.h\<close> with its lock and its two conditions as a step relation of any number of
    threads, spurious wake-ups included: nothing is lost or overtaken, and no thread sleeps while it could go on.
  \<^item> \<open>Byte_Memory\<close>: assignments to arrays, \<open>memset\<close> and \<open>memcpy\<close> that fail outside the array.
  \<^item> \<open>Ts_Crc\<close>, \<open>Ts_Packet\<close>, \<open>Ts_Mux\<close>, \<open>Ts_Bits\<close>, \<open>Ts_Frame\<close>: the packer of the transport stream in \<open>ts\<close>, from the check value over tables, packet headers and adaptation
    fields to \<open>WriteBuf2TsFile\<close>; a reference receiver, which also reads the flags and the prefix of the time stamp, gets the frames back.
  \<^item> \<open>Rtp_Source\<close>: \<open>handleFrame\<close> of the four sources in \<open>rtsp\<close>, which cut frames into RTP payloads; the locale \<open>packetiser\<close> is their contract with a
    receiver, interpreted for each format and once for all of them.
  \<^item> \<open>Rtp_Connection\<close>: the channels of a client, the RTP header and what is sent over TCP and UDP, and a client that takes the stream apart.
    \<open>Media_Session\<close>: the session with its clients, the cache of the last key frame and the queue of the scheduler, with shared packets; the thread
    that pushes frames and the scheduler interleave before every access to what both use (\<open>scheduler_turns\<close>), so that the copy from the cache may be sent, left out or broken off.
  \<^item> \<open>Rtsp_Buffer\<close>: the ring buffer, the buffer of received bytes, the queue of messages and the connection around them; the section on arrival
    shows that the queue of a connection is emptied when the socket takes bytes. \<open>Rtsp_Request\<close>: the
    parser of requests with \<open>sscanf\<close> into fixed arrays; what fits is parsed, what does not overflows. \<open>Rtsp_Timer\<close>: the timers of the scheduler, whose callbacks may answer
    differently at each call.

  \<^bold>\<open>Fuel.\<close> The mutual recursion of the parser and the loops over linked items have fuel, and running out of it is
  the result \<open>None\<close>. The theorems show how much is enough: the length of the text plus one for parsing, the number of children or of owned
  items plus one for the others, the number of timers that are due plus one for the timers (whose loop may not end otherwise, which is a theorem too). All other loops are total functions.

  \<^bold>\<open>Memory.\<close> Allocation can fail: in the parser and the printer a number says how many
  allocations still succeed, and in the heap of \<open>Json_Heap\<close> too. KCP is modelled with allocations that
  succeed, as its code supposes.

  \<^bold>\<open>Not modelled.\<close> The replies of the RTSP server and its description of the session are text made with \<open>snprintf\<close>, its sockets and \<open>epoll\<close> are the operating
  system; the RTSP pusher, \<open>MemoryManager\<close> and \<open>H264Parser\<close> are not used by the program. The HTTP server, RTMP and media code call libraries and the hardware
  only. \<open>udpkcp.cpp\<close> and \<open>networkmgr.cpp\<close> are sockets and shell commands. \<open>MQTTProcess.cpp\<close> dispatches JSON commands to
  device drivers. libevent, paho, SRS, stb and the vendor samples are third-party code.
\<close>

section \<open>From the camera to the wire\<close>

lemma small_events: "list_all sendable (sent_data es) \<Longrightarrow> list_all small_event es"
  by (induction es) (auto simp: sent_data_def sendable_def small_event_def split: tcp_event.splits)

text \<open>C6. Frames reach the client: let a session stream as in the theory on sessions, to a client that was sent nothing before, and let the messages of the session for this
  client go through the connection of the client, in any interleaving with reports that the socket takes bytes, and with a socket that takes any part of the bytes,
  or none, at each call and does not fail for good. As long as the queue of the connection has room for each message when it comes (fewer than 500 wait), every message is accepted, the bytes on the
  wire followed by those in the queue are the messages one after the other, and the connection waits for the socket while bytes are left. After as many further
  reports as bytes are left, each followed by a call that takes at least one byte, nothing is left, and the bytes on the wire are a stream from which the
  client gets the units of the frames from its first key frame on, and of the copy of the last key frame unless it has one, as in the theory on sessions: in order, unchanged and with their time stamps, in
  consecutively numbered packets.\<close>

theorem frames_on_the_wire:
  assumes "ready_session chn src s" "list_all (sound_action src) acts" "has_room chn src acts s" "i \<in> snd ` set (ms_clients s)"
    "tcp_sent (connections s ! i) = []" "run_session chn acts s = Inr s1" "handleTriggerEvent oks s1 = Inr s2"
    "os_ok os" "never_fails os" "sent_data es = tcp_sent (connections s2 ! i)" "tcp_room os es new_TcpConnection"
  shows "\<exists>c. run_tcp os es new_TcpConnection = Inr (sent_data es, c) \<and> tc_wire c @ out_pending (tc_queue c) = concat (sent_data es) \<and>
    (tc_queue c \<noteq> [] \<longrightarrow> tc_writing c \<and> tc_watched c) \<and>
    (\<forall>m. length (out_pending (tc_queue c)) \<le> m \<and> reports os m c \<longrightarrow>
      (\<exists>c'. run_tcp os (replicate m Writable) c = Inr ([], c') \<and> tc_queue c' = [] \<and>
        client_gets src (mediaChannelInfo (connections s ! i) ! chn) (hasIDRFrame (connections s ! i)) (hasGOPFrame (connections s ! i))
          (gop_plan src acts (hasNewClient s) (gopCache s)) (tc_wire c')))"
proof -
  have r: "list_all sendable (sent_data es)" "client_gets src (mediaChannelInfo (connections s ! i) ! chn) (hasIDRFrame (connections s ! i))
      (hasGOPFrame (connections s ! i)) (gop_plan src acts (hasNewClient s) (gopCache s)) (concat (sent_data es))"
    using run_receives [OF assms(1-3), of oks] assms(4-7,10) by auto
  have n: "tcp_live new_TcpConnection" "tc_wire new_TcpConnection @ out_pending (tc_queue new_TcpConnection) = []"
    by (simp_all add: tcp_live_def tcp_wf_def new_TcpConnection_def out_pending_def)
  then obtain c where c: "run_tcp os es new_TcpConnection = Inr (sent_data es, c)" "tcp_live c" "tc_wire c @ out_pending (tc_queue c) = concat (sent_data es)"
    using run_tcp_room [OF assms(8,9) n(1) small_events [OF r(1)] assms(11)] by auto
  have "\<exists>c'. run_tcp os (replicate m Writable) c = Inr ([], c') \<and> tc_queue c' = [] \<and> tc_wire c' = concat (sent_data es)"
    if "length (out_pending (tc_queue c)) \<le> m" "reports os m c" for m
    using reports_drain [OF assms(8,9) c(2) that(2,1)] c(3) by simp
  with r(2) have "\<exists>c'. run_tcp os (replicate m Writable) c = Inr ([], c') \<and> tc_queue c' = [] \<and>
      client_gets src (mediaChannelInfo (connections s ! i) ! chn) (hasIDRFrame (connections s ! i)) (hasGOPFrame (connections s ! i))
        (gop_plan src acts (hasNewClient s) (gopCache s)) (tc_wire c')"
    if "length (out_pending (tc_queue c)) \<le> m" "reports os m c" for m
    using that by metis
  moreover have "tc_queue c \<noteq> [] \<longrightarrow> tc_writing c \<and> tc_watched c" using c(2) by (simp add: tcp_live_def tcp_wf_def)
  ultimately show ?thesis using c(1,3) by blast
qed

text \<open>A socket that takes five bytes at a time.\<close>

definition dribble :: os_send where
  "dribble k bs = Sent (min 5 (length bs))"

definition dribble_events :: "u8 list list \<Rightarrow> tcp_event list" where
  "dribble_events ds = concat (map (\<lambda>d. replicate 1436 Writable @ [Send d]) ds)"

lemma dribble_ok: "os_ok dribble" "never_fails dribble"
  by (simp_all add: os_ok_def never_fails_def dribble_def)

lemma dribble_reports: "reports dribble m c"
  by (induction m arbitrary: c) (auto simp: dribble_def split: sum.splits)

lemma room_after_reports:
  assumes "run_tcp os (replicate m Writable) c = Inr (ms, c')" "tcp_room os es c'"
  shows "tcp_room os (replicate m Writable @ es) c"
  using assms by (induction m arbitrary: c) auto

lemma dribble_sends: "sent_data (dribble_events ds) = ds"
  by (induction ds) (simp_all add: dribble_events_def sent_data_def concat_replicate_trivial)

lemma dribble_room:
  assumes "list_all sendable ds" "tcp_live c" "length (out_pending (tc_queue c)) \<le> 1436"
  shows "tcp_room dribble (dribble_events ds) c"
  using assms
proof (induction ds arbitrary: c)
  case (Cons d ds)
  obtain c1 where c1: "run_tcp dribble (replicate 1436 Writable) c = Inr ([], c1)" "tc_queue c1 = []"
    using reports_drain [OF dribble_ok Cons.prems(2) dribble_reports Cons.prems(3)] by blast
  have live: "tcp_live c1"
  proof -
    have "list_all small_event (replicate 1436 Writable)" "tcp_room dribble (replicate 1436 Writable) c"
      using room_after_reports [OF c1(1), of "[]"] by (simp_all add: small_event_def list_all_iff)
    then show ?thesis using run_tcp_room [OF dribble_ok Cons.prems(2)] c1(1) by fastforce
  qed
  have d: "d \<noteq> []" "length d \<le> 1436" using Cons.prems(1) by (simp_all add: sendable_def)
  obtain ok c2 where c2: "tcp_send dribble d c1 = Inr (ok, c2)" "tcp_wf c2"
      "tc_wire c2 @ out_pending (tc_queue c2) = tc_wire c1 @ out_pending (tc_queue c1) @ (if ok then d else [])"
    using tcp_send_conserves [OF dribble_ok(1), of c1 d] live d by (auto simp: tcp_live_def)
  have "tcp_live c2" using c2(2) tcp_send_live [OF dribble_ok(2) c2(1)] live by (simp add: tcp_live_def)
  moreover have "length (tc_wire c1) \<le> length (tc_wire c2)"
    using c2(1) by (auto simp: tcp_send_def handleWrite_def handleClose_def Let_def split: if_splits)
  then have "length (out_pending (tc_queue c2)) \<le> 1436"
    using arg_cong [OF c2(3), of length] d(2) c1(2) by (simp add: out_pending_def split: if_splits)
  ultimately have "tcp_room dribble (dribble_events ds) c2" using Cons.IH Cons.prems(1) by simp
  then have "tcp_room dribble (Send d # dribble_events ds) c1" using c1(2) c2(1) d(1) by (simp add: kWriteQueue_def)
  then show ?case using room_after_reports [OF c1(1)] by (simp add: dribble_events_def)
qed (simp add: dribble_events_def)

lemma frames_on_the_wire_witness:
  "\<exists>s1 s2 c c' m. run_session 0 example_actions example_session = Inr s1 \<and> handleTriggerEvent (\<lambda>_. True) s1 = Inr s2 \<and>
    run_tcp dribble (dribble_events (tcp_sent (connections s2 ! 0))) new_TcpConnection = Inr (tcp_sent (connections s2 ! 0), c) \<and>
    run_tcp dribble (replicate m Writable) c = Inr ([], c') \<and> tc_queue c' = [] \<and>
    client_gets H264Source (mediaChannelInfo (connections example_session ! 0) ! 0) False False (example_before, example_copy, example_after) (tc_wire c')"
proof -
  have i: "0 \<in> snd ` set (ms_clients example_session)" "tcp_sent (connections example_session ! 0) = []"
    "\<not> hasIDRFrame (connections example_session ! 0)" "\<not> hasGOPFrame (connections example_session ! 0)"
    by (simp_all add: example_session_def Let_def addClient_def addMediaSource_def new_MediaSession_def play_def setupRtpOverTcp_def setPayloadType_def
      on_channel_def new_RtpConnection_def)
  obtain s1 s2 where s: "run_session 0 example_actions example_session = Inr s1" "handleTriggerEvent (\<lambda>_. True) s1 = Inr s2"
      "list_all sendable (tcp_sent (connections s2 ! 0))"
    using run_receives [OF example_ready example_sound example_room, of "\<lambda>_. True"] i by auto
  have "tcp_room dribble (dribble_events (tcp_sent (connections s2 ! 0))) new_TcpConnection"
    using s(3) by (rule dribble_room) (simp_all add: tcp_live_def tcp_wf_def new_TcpConnection_def out_pending_def)
  from frames_on_the_wire [OF example_ready example_sound example_room i(1,2) s(1,2) dribble_ok dribble_sends this]
  show ?thesis using s(1,2) dribble_reports i(3,4) unfolding example_plan dribble_sends by (metis (full_types) le_refl)
qed

end
